(* ===== verification/Prelude.thy ===== *)
theory Prelude
  imports "HOL-Library.Word"
begin

text \<open>
  Shared ground of the development: names for the C integer types at their width on the
  host (x86-64, where \<open>uint_fast16_t\<close>, \<open>uint_fast32_t\<close> and \<open>uint_fast64_t\<close> are 64 bits wide
  and \<open>uint_fast8_t\<close> is 8 bits wide), and the facts that read the word operations used by the
  code as arithmetic on natural numbers.  The collection \<open>unat_ops\<close> holds the unconditional
  ones.
\<close>

type_synonym u8 = "8 word"
type_synonym u16 = "16 word"
type_synonym u32 = "32 word"
type_synonym u64 = "64 word"

named_theorems unat_ops \<open>reading word operations as operations on natural numbers\<close>

unbundle bit_operations_syntax

lemma unat_drop [unat_ops]: "unat (drop_bit n w) = unat w div 2 ^ n"
  unfolding unat_drop_bit_eq by (rule drop_bit_eq_div)

lemma unat_take [unat_ops]: "unat (take_bit n w) = unat w mod 2 ^ n"
  unfolding unsigned_take_bit_eq by (rule take_bit_eq_mod)

lemma unat_and_mask [unat_ops]: "unat (w AND mask n) = unat w mod 2 ^ n"
  by (simp flip: take_bit_eq_mask add: unat_take)

lemma unat_push: "unat (push_bit n (w :: 'a::len word)) = (unat w * 2 ^ n) mod 2 ^ LENGTH('a)"
  unfolding unsigned_push_bit_eq by (simp only: push_bit_eq_mult take_bit_eq_mod)

lemma unat_push_small:
  "unat w * 2 ^ n < 2 ^ LENGTH('a) \<Longrightarrow> unat (push_bit n (w :: 'a::len word)) = unat w * 2 ^ n"
  by (simp add: unat_push)

lemma unat_ucast: "unat (ucast (w :: 'a::len word) :: 'b::len word) = unat w mod 2 ^ LENGTH('b)"
  by (simp add: unsigned_ucast_eq take_bit_eq_mod)

lemma unat_ucast_up [simp]:
  "LENGTH('a) \<le> LENGTH('b) \<Longrightarrow> unat (ucast (w :: 'a::len word) :: 'b::len word) = unat w"
  by (metis mod_less unat_ucast unsigned_less less_le_trans power_increasing one_le_numeral of_nat_numeral)

lemma unat_add_small:
  "unat x + unat y < 2 ^ LENGTH('a) \<Longrightarrow> unat (x + y :: 'a::len word) = unat x + unat y"
  by (simp add: unat_word_ariths)

lemma unat_mult_small:
  "unat x * unat y < 2 ^ LENGTH('a) \<Longrightarrow> unat (x * y :: 'a::len word) = unat x * unat y"
  by (simp add: unat_word_ariths)

lemma unat_sub_small: "y \<le> x \<Longrightarrow> unat (x - y :: 'a::len word) = unat x - unat y"
  by (simp add: unat_sub)

lemma unat_of_bool [simp]: "unat (of_bool b :: 'a::len word) = of_bool b"
  by (cases b) simp_all

lemma unat_or_of_bool [unat_ops]:
  "unat (w OR of_bool b) = (if b \<and> even (unat w) then Suc (unat w) else unat w)"
proof (cases b)
  case True
  have "unat (w OR 1) = unat w OR 1" by (simp add: unsigned_or_eq)
  also have "\<dots> = (if even (unat w) then Suc (unat w) else unat w)"
    by (simp only: or_one_eq) auto
  finally show ?thesis using True by simp
qed simp

lemma unat_div [unat_ops]: "unat (x div y) = unat x div unat y"
  by (rule unat_div_distrib)

lemma unat_mod [unat_ops]: "unat (x mod y) = unat x mod unat y"
  by (rule unat_mod_distrib)

lemma unat_uminus:
  assumes "c \<noteq> 0"
  shows "unat (- c :: 'a::len word) = 2 ^ LENGTH('a) - unat c"
proof -
  have "unat (- c) + unat c = 2 ^ LENGTH('a)"
  proof (rule ccontr)
    assume n: "unat (- c) + unat c \<noteq> 2 ^ LENGTH('a)"
    have "(unat (- c) + unat c) mod 2 ^ LENGTH('a) = 0"
      by (simp flip: unat_word_ariths(1))
    then obtain k where k: "unat (- c) + unat c = 2 ^ LENGTH('a) * k"
      by (auto simp: mod_eq_0_iff_dvd elim: dvdE)
    have "unat c < 2 ^ LENGTH('a)" "unat (- c) < 2 ^ LENGTH('a)" by (rule unsigned_less)+
    with k have "2 ^ LENGTH('a) * k < 2 ^ LENGTH('a) * 2" by linarith
    then have "k = 0 \<or> k = 1" by auto
    with n k assms show False by (simp add: unat_eq_0)
  qed
  then show ?thesis by linarith
qed

lemma unat_uminus_and_mask:
  assumes c: "0 < unat c" "unat c < 2 ^ k" and k: "k \<le> LENGTH('a)"
  shows "unat (- c AND mask k :: 'a::len word) = 2 ^ k - unat c"
proof -
  obtain d where d: "(2::nat) ^ LENGTH('a) = 2 ^ k * Suc d"
  proof -
    have "(2::nat) ^ LENGTH('a) = 2 ^ k * 2 ^ (LENGTH('a) - k)" using k by (simp flip: power_add)
    moreover obtain d where "(2::nat) ^ (LENGTH('a) - k) = Suc d"
      by (metis not0_implies_Suc power_not_zero zero_neq_numeral)
    ultimately show thesis using that by simp
  qed
  have "unat (- c) = 2 ^ k * d + (2 ^ k - unat c)"
    using c d by (simp add: unat_uminus unat_gt_0)
  moreover have "(2 ^ k * d + x) mod 2 ^ k = x" if "x < 2 ^ k" for x :: nat
    using that by simp
  ultimately show ?thesis using c by (simp only: unat_and_mask diff_less zero_less_power)
qed

lemma unat_less_8: "unat (a :: u8) < 2 ^ 8"
  and unat_less_16: "unat (b :: u16) < 2 ^ 16"
  and unat_less_32: "unat (c :: u32) < 2 ^ 32"
  and unat_less_64: "unat (d :: u64) < 2 ^ 64"
  using unsigned_less [of a] unsigned_less [of b] unsigned_less [of c] unsigned_less [of d]
  by simp_all

lemmas unat_less_width = unat_less_8 unat_less_16 unat_less_32 unat_less_64

lemma unat_high_32: "unat (ucast (drop_bit 32 (a :: u64)) :: u32) = unat a div 2 ^ 32"
  using unat_less_64 [of a] by (simp add: unat_ucast unat_drop less_mult_imp_div_less)

lemma unat_low_32: "unat (ucast (a :: u64) :: u32) = unat a mod 2 ^ 32"
  by (simp add: unat_ucast)

text \<open>The carry out of an unsigned addition is visible as a sum smaller than a summand.\<close>

lemma unat_add_carry:
  fixes x y :: "'a::len word"
  shows "unat (x + y) + of_bool (x + y < x) * 2 ^ LENGTH('a) = unat x + unat y"
proof -
  have b: "unat x < 2 ^ LENGTH('a)" "unat y < 2 ^ LENGTH('a)" by (rule unsigned_less)+
  show ?thesis
  proof (cases "unat x + unat y < 2 ^ LENGTH('a)")
    case True
    then show ?thesis by (simp add: unat_add_small word_less_nat_alt)
  next
    case False
    then have "(unat x + unat y) mod 2 ^ LENGTH('a) = unat x + unat y - 2 ^ LENGTH('a)"
      using b by (metis le_mod_geq less_diff_conv2 mod_less not_le add_less_mono)
    then have "unat (x + y) = unat x + unat y - 2 ^ LENGTH('a)"
      by (simp add: unat_word_ariths)
    moreover from this have "x + y < x" unfolding word_less_nat_alt using b False by linarith
    ultimately show ?thesis using b False by (simp only: of_bool_eq mult_1_left)
  qed
qed

lemma unat_sub_borrow:
  fixes x y :: "'a::len word"
  shows "unat (x - y) + unat y = unat x + of_bool (x < y) * 2 ^ LENGTH('a)"
proof (cases "x < y")
  case True
  have b: "unat y < 2 ^ LENGTH('a)" by (rule unsigned_less)
  have "y - x \<noteq> 0" using True by auto
  then have "unat (- (y - x)) = 2 ^ LENGTH('a) - unat (y - x)" by (rule unat_uminus)
  moreover have "unat (y - x) = unat y - unat x" using True by (intro unat_sub_small) auto
  moreover have "unat x < unat y" using True by (simp add: word_less_nat_alt)
  ultimately show ?thesis using True b by (simp only: minus_diff_eq of_bool_eq mult_1_left)
next
  case False
  then have "y \<le> x" by simp
  then show ?thesis using False by (simp add: unat_sub_small word_le_nat_alt)
qed

lemma unat_or_disjoint:
  fixes x y :: "'a::len word"
  assumes x: "unat x mod 2 ^ k = 0" and y: "unat y < 2 ^ k"
  shows "unat (x OR y) = unat x + unat y"
proof -
  have "\<not> bit (unat x) n \<or> \<not> bit (unat y) n" for n
  proof (cases "n < k")
    case True
    have "\<not> bit (take_bit k (unat x)) n" using x by (simp add: take_bit_eq_mod)
    then show ?thesis using True by (simp add: bit_take_bit_iff)
  next
    case False
    have "\<not> bit (take_bit k (unat y)) n" using False by (simp add: bit_take_bit_iff)
    then show ?thesis using y by (simp add: take_bit_nat_eq_self)
  qed
  then have "unat x + unat y = unat x OR unat y" by (rule disjunctive_add)
  then show ?thesis by (simp add: unsigned_or_eq)
qed

lemma and_field:
  fixes a :: "'a::len word"
  shows "a AND push_bit n (mask k) = push_bit n (take_bit k (drop_bit n a))"
  by (rule bit_word_eqI) (auto simp: bit_simps)

lemma unat_and_field:
  fixes a :: "'a::len word"
  assumes "n + k \<le> LENGTH('a)"
  shows "unat (a AND push_bit n (mask k)) = (unat a div 2 ^ n mod 2 ^ k) * 2 ^ n"
proof -
  have "unat a div 2 ^ n mod 2 ^ k * 2 ^ n < 2 ^ k * (2 ^ n :: nat)" by simp
  also have "\<dots> \<le> 2 ^ LENGTH('a)" using assms by (simp flip: power_add add: add.commute)
  finally show ?thesis
    unfolding and_field by (subst unat_push_small) (simp_all only: unat_take unat_drop)
qed

lemma unat_and_not_mask:
  fixes x :: "'a::len word"
  shows "unat (x AND NOT (mask n)) = unat x div 2 ^ n * 2 ^ n"
proof -
  have "x AND NOT (mask n) = push_bit n (drop_bit n x)"
    by (rule bit_word_eqI) (auto simp: bit_simps)
  moreover have "unat x div 2 ^ n * 2 ^ n < 2 ^ LENGTH('a)"
    using div_times_less_eq_dividend unsigned_less by (rule le_less_trans)
  ultimately show ?thesis by (simp add: unat_push_small unat_drop)
qed

lemma and_single_bit: "(A :: 'a::len word) AND push_bit n 1 = (if bit A n then push_bit n 1 else 0)"
  by (rule bit_word_eqI) (auto simp: bit_simps)

text \<open>The signed reading of a word and its absolute value.\<close>

lemma sint_small:
  fixes a :: "'a::len word"
  assumes "n = LENGTH('a) - 1"
  shows "sint a = (if unat a < 2 ^ n then int (unat a) else int (unat a) - 2 ^ LENGTH('a))"
proof -
  have l: "LENGTH('a) = Suc n" using assms by (metis Suc_diff_1 len_gt_0)
  have lt: "unat a < 2 ^ Suc n" using unsigned_less [of a] unfolding l by simp
  have b: "bit (int (unat a)) n \<longleftrightarrow> \<not> unat a < 2 ^ n"
  proof -
    have "unat a div 2 ^ n = of_bool (\<not> unat a < 2 ^ n)"
      using lt by (cases "unat a < 2 ^ n") (auto intro: div_nat_eqI)
    moreover have "int (unat a) div 2 ^ n = int (unat a div 2 ^ n)"
      by (simp only: zdiv_int of_nat_power of_nat_numeral)
    ultimately show ?thesis unfolding bit_iff_odd by simp
  qed
  have "sint a = signed_take_bit n (int (unat a))" by (simp only: sint_uint assms uint_nat One_nat_def)
  also have "\<dots> = take_bit (Suc n) (int (unat a)) - 2 ^ Suc n * of_bool (bit (int (unat a)) n)"
    by (rule signed_take_bit_eq_take_bit_minus)
  also have "take_bit (Suc n) (int (unat a)) = int (unat a)"
  proof (rule take_bit_int_eq_self)
    show "int (unat a) < 2 ^ Suc n" using lt by (metis of_nat_less_iff of_nat_numeral of_nat_power)
  qed simp
  finally show ?thesis unfolding l b by (simp split: if_splits)
qed

lemma sint_neg_iff:
  fixes a :: "'a::len word"
  assumes "n = LENGTH('a) - 1"
  shows "sint a < 0 \<longleftrightarrow> 2 ^ n \<le> unat a"
proof -
  have "int (unat a) < 2 ^ LENGTH('a)" using unsigned_less [of a] by (metis of_nat_less_iff of_nat_numeral of_nat_power)
  then show ?thesis unfolding sint_small [OF assms] by (cases "unat a < 2 ^ n") (simp_all only: if_True if_False, linarith+)
qed

lemma sint_of_unat_32:
  obtains u where "unat a = u" "u < 2 ^ 32" "sint (a :: u32) = (if u < 2 ^ 31 then int u else int u - 2 ^ 32)"
  using that [OF refl unat_less_32 [of a]] sint_small [of 31 a] by simp

lemma sint_of_unat_64:
  obtains u where "unat a = u" "u < 2 ^ 64" "sint (a :: u64) = (if u < 2 ^ 63 then int u else int u - 2 ^ 64)"
  using that [OF refl unat_less_64 [of a]] sint_small [of 63 a] by simp

lemma abs_word:
  fixes a :: "'a::len word"
  assumes l: "LENGTH('a) \<le> LENGTH('b)"
  shows "unat (if sint a < 0 then - (scast a :: 'b::len word) else scast a) = nat \<bar>sint a\<bar>"
proof -
  have sc: "(scast a :: 'b word) = word_of_int (sint a)" by simp
  have b: "- (2 ^ (LENGTH('a) - 1)) \<le> sint a" "sint a < 2 ^ (LENGTH('a) - 1)"
    using sint_ge [of a] sint_less [of a] by simp_all
  have "(2 :: int) ^ (LENGTH('a) - 1) < 2 ^ LENGTH('b)" using l by (intro power_strict_increasing) simp_all
  then have "\<bar>sint a\<bar> < 2 ^ LENGTH('b)" using b by linarith
  then have "uint (word_of_int \<bar>sint a\<bar> :: 'b word) = \<bar>sint a\<bar>"
    by (simp add: uint_word_of_int)
  then have "unat (word_of_int \<bar>sint a\<bar> :: 'b word) = nat \<bar>sint a\<bar>"
    by (metis nat_uint_eq)
  then show ?thesis unfolding sc by (auto simp: abs_if)
qed

lemmas abs_u32_u64 = abs_word [where 'a = 32 and 'b = 64, simplified]

lemma abs_u64: "unat (if sint (a :: u64) < 0 then - a else a) = nat \<bar>sint a\<bar>"
  using abs_word [where 'a = 64 and 'b = 64, of a] unfolding scast_id by simp

end
