(* ===== verification/Rounding_Spec.thy ===== *)
theory Rounding_Spec
  imports Main
begin

text \<open>
  What correct rounding means, with no reference to the code: the five rounding modes, the quantum of a
  positive rational \<open>N / D\<close> at a precision and an exponent range, the rounded quotient, the overflow, underflow
  and inexact conditions, and the facts that let a significand with a sticky bit stand for the exact value.
\<close>

datatype rmode = RNE | RTZ | RDN | RUP | RMM

definition round_up :: "rmode \<Rightarrow> bool \<Rightarrow> nat \<Rightarrow> nat \<Rightarrow> bool" where
  "round_up m sign N D =
     (case m of
        RNE \<Rightarrow> D < 2 * (N mod D) \<or> (2 * (N mod D) = D \<and> odd (N div D))
      | RTZ \<Rightarrow> False
      | RDN \<Rightarrow> sign \<and> N mod D \<noteq> 0
      | RUP \<Rightarrow> \<not> sign \<and> N mod D \<noteq> 0
      | RMM \<Rightarrow> D \<le> 2 * (N mod D))"

definition round_quot :: "rmode \<Rightarrow> bool \<Rightarrow> nat \<Rightarrow> nat \<Rightarrow> nat" where
  "round_quot m sign N D = N div D + (if round_up m sign N D then 1 else 0)"

function fquantum :: "nat \<Rightarrow> nat \<Rightarrow> nat \<Rightarrow> nat" where
  "fquantum p N D =
     (if D = 0 \<or> N < 2 ^ p * D then 0 else Suc (fquantum p N (2 * D)))"
  by pat_completeness auto
termination
proof (relation "measure (\<lambda>(p, N, D). Suc N - D)")
  show "wf (measure (\<lambda>(p, N, D). Suc N - D))" by simp
next
  fix p N D :: nat
  assume a: "\<not> (D = 0 \<or> N < 2 ^ p * D)"
  have "D \<le> 2 ^ p * D" by simp
  with a have "D \<le> N" by linarith
  then show "((p, N, 2 * D), (p, N, D)) \<in> measure (\<lambda>(p, N, D). Suc N - D)"
    using a by auto
qed

declare fquantum.simps [simp del]

definition ieee_round :: "nat \<Rightarrow> rmode \<Rightarrow> bool \<Rightarrow> nat \<Rightarrow> nat \<Rightarrow> nat" where
  "ieee_round p m sign N D =
     (let e = fquantum p N D in round_quot m sign N (D * 2 ^ e) * 2 ^ e)"

definition fdec :: "nat \<Rightarrow> nat \<Rightarrow> nat" where
  "fdec p b =
     (let e = b div 2 ^ (p - 1); f = b mod 2 ^ (p - 1)
      in if e = 0 then f else (2 ^ (p - 1) + f) * 2 ^ (e - 1))"

definition fenc :: "nat \<Rightarrow> nat \<Rightarrow> nat" where
  "fenc p M = (let e = fquantum p M 1 in e * 2 ^ (p - 1) + M div 2 ^ e)"

definition representable :: "nat \<Rightarrow> nat \<Rightarrow> bool" where
  "representable p y \<longleftrightarrow> (\<exists>c e. c < 2 ^ p \<and> y = c * 2 ^ e)"

definition sticky :: "nat \<Rightarrow> nat \<Rightarrow> nat" where
  "sticky N D = (if N mod D = 0 \<or> odd (N div D) then N div D else Suc (N div D))"

lemma fquantum_less:
  "0 < D \<Longrightarrow> N < 2 ^ p * (2 ^ fquantum p N D * D)"
proof (induction p N D rule: fquantum.induct)
  case (1 p N D)
  then show ?case
    by (cases "N < 2 ^ p * D") (simp_all add: fquantum.simps [of p N D] ac_simps)
qed

lemma fquantum_ge:
  "0 < D \<Longrightarrow> 0 < fquantum p N D \<Longrightarrow> 2 ^ p * (2 ^ fquantum p N D * D) \<le> 2 * N"
proof (induction p N D rule: fquantum.induct)
  case (1 p N D)
  then show ?case
    by (cases "fquantum p N (2 * D) = 0"; cases "N < 2 ^ p * D")
      (simp_all add: fquantum.simps [of p N D] algebra_simps)
qed

lemma fquantum_unique:
  assumes "0 < D" and lt: "N < 2 ^ p * (2 ^ e * D)"
    and ge: "e = 0 \<or> 2 ^ p * (2 ^ e * D) \<le> 2 * N"
  shows "fquantum p N D = e"
proof (rule ccontr)
  let ?f = "fquantum p N D"
  assume "?f \<noteq> e"
  then consider "e < ?f" | "?f < e" by linarith
  then show False
  proof cases
    case 1
    then have "2 * 2 ^ e \<le> (2::nat) ^ ?f"
      by (metis Suc_leI power_Suc power_increasing one_le_numeral)
    then have "2 ^ p * (2 * 2 ^ e * D) \<le> 2 ^ p * (2 ^ ?f * D)"
      by (intro mult_le_mono) auto
    with fquantum_ge [OF assms(1), of p N] 1 lt show False by simp
  next
    case 2
    then have "2 * 2 ^ ?f \<le> (2::nat) ^ e"
      by (metis Suc_leI power_Suc power_increasing one_le_numeral)
    then have "2 ^ p * (2 * 2 ^ ?f * D) \<le> 2 ^ p * (2 ^ e * D)"
      by (intro mult_le_mono) auto
    with fquantum_less [OF assms(1), of N p] ge 2 show False by simp
  qed
qed

lemma round_quot_bounds:
  "N div D \<le> round_quot m s N D" "round_quot m s N D \<le> Suc (N div D)"
  by (simp_all add: round_quot_def)

lemma round_up_exact: "0 < D \<Longrightarrow> N mod D = 0 \<Longrightarrow> \<not> round_up m s N D"
  by (simp add: round_up_def split: rmode.split)

lemma round_quot_exact: "0 < D \<Longrightarrow> N mod D = 0 \<Longrightarrow> round_quot m s N D = N div D"
  by (simp add: round_quot_def round_up_exact)

lemma sticky_div:
  assumes "1 \<le> j"
  shows "sticky N D div 2 ^ j = N div (D * 2 ^ j)"
proof -
  have e: "Suc Q div 2 ^ j = Q div 2 ^ j" if "even Q" for Q :: nat
  proof -
    from assms obtain i where j: "j = Suc i" by (cases j) auto
    from that have "Suc Q div 2 = Q div 2" by auto
    then show ?thesis by (simp add: j div_mult2_eq)
  qed
  show ?thesis
    using e by (auto simp: sticky_def div_mult2_eq)
qed

lemma sticky_mod_zero:
  assumes "0 < D" "1 \<le> j"
  shows "sticky N D mod 2 ^ j = 0 \<longleftrightarrow> N mod (D * 2 ^ j) = 0"
proof -
  from assms obtain i where j: "j = Suc i" by (cases j) auto
  have m: "N mod (D * 2 ^ j) = D * (N div D mod 2 ^ j) + N mod D"
    by (simp add: mod_mult2_eq)
  have o: "odd k \<Longrightarrow> k mod 2 ^ j \<noteq> 0" for k :: nat
    using dvd_trans [of 2 "2 ^ j" k] by (auto simp: j mod_eq_0_iff_dvd)
  show ?thesis
    using assms o [of "N div D"] o [of "Suc (N div D)"] unfolding m
    by (auto simp: sticky_def)
qed

lemma half_cmp:
  fixes t r D H :: nat
  assumes "r < D"
  shows "D * t + r < D * H \<longleftrightarrow> t < H" and "D * t + r = D * H \<longleftrightarrow> t = H \<and> r = 0"
proof -
  have a: "D * t + r < D * H" if "t < H"
  proof -
    from that have "D * Suc t \<le> D * H" by (intro mult_le_mono) auto
    with assms show ?thesis by simp
  qed
  have b: "D * H \<le> D * t + r" if "H \<le> t"
    using that by (simp add: trans_le_add1)
  have c: "D * H < D * t + r" if "H < t"
  proof -
    from that have "D * Suc H \<le> D * t" by (intro mult_le_mono) auto
    with assms show ?thesis by simp
  qed
  show "D * t + r < D * H \<longleftrightarrow> t < H" using a b by (meson not_le)
  show "D * t + r = D * H \<longleftrightarrow> t = H \<and> r = 0"
    using a b c assms by (metis add.right_neutral add_left_cancel less_irrefl linorder_neqE_nat)
qed

lemma sticky_mod:
  "1 \<le> j \<Longrightarrow> sticky N D mod 2 ^ j =
     (if N mod D = 0 \<or> odd (N div D) then (N div D) mod 2 ^ j else Suc ((N div D) mod 2 ^ j))"
proof -
  assume j: "1 \<le> j"
  have "Suc Q mod 2 ^ j = Suc (Q mod 2 ^ j)" if "even Q" for Q :: nat
  proof -
    from that j have "even (Q mod 2 ^ j)" by (simp add: dvd_mod_iff)
    then have "Suc (Q mod 2 ^ j) \<noteq> 2 ^ j" using j by (metis even_Suc even_power even_numeral less_eq_Suc_le One_nat_def)
    then show ?thesis by (simp add: mod_Suc)
  qed
  then show ?thesis by (simp add: sticky_def)
qed

lemma sticky_half:
  assumes D: "0 < D" and j: "2 \<le> j"
  shows "2 * (sticky N D mod 2 ^ j) < 2 ^ j \<longleftrightarrow> 2 * (N mod (D * 2 ^ j)) < D * 2 ^ j" (is ?LT)
    and "2 * (sticky N D mod 2 ^ j) = 2 ^ j \<longleftrightarrow> 2 * (N mod (D * 2 ^ j)) = D * 2 ^ j" (is ?EQ)
proof -
  define t where "t = N div D mod 2 ^ j"
  define r where "r = N mod D"
  define H :: nat where "H = 2 ^ (j - 1)"
  from j have H: "2 ^ j = 2 * H" and eH: "even H"
    by (simp_all add: H_def power_eq_if [of 2 j])
  have r: "r < D" using D by (simp add: r_def)
  have m1: "N mod (D * 2 ^ j) = D * t + r"
    by (simp add: mod_mult2_eq t_def r_def)
  have pt: "odd (N div D) = odd t"
    using j by (simp add: t_def dvd_mod_iff)
  have m2: "sticky N D mod 2 ^ j = (if r = 0 \<or> odd t then t else Suc t)"
    using j pt by (simp add: sticky_mod t_def r_def)
  have lt: "sticky N D mod 2 ^ j < H \<longleftrightarrow> t < H"
    using eH by (auto simp: m2) (metis Suc_lessI even_Suc)
  have eq: "sticky N D mod 2 ^ j = H \<longleftrightarrow> t = H \<and> r = 0"
    using eH by (auto simp: m2)
  have c: "D * 2 ^ j = 2 * (D * H)" by (simp add: H)
  have lt': "2 * (D * t + r) < D * 2 ^ j \<longleftrightarrow> t < H"
    unfolding c using half_cmp (1) [OF r, of t H] by (simp only: nat_mult_less_cancel1 zero_less_numeral)
  have eq': "2 * (D * t + r) = D * 2 ^ j \<longleftrightarrow> t = H \<and> r = 0"
    unfolding c using half_cmp (2) [OF r, of t H] by (simp only: nat_mult_eq_cancel1 zero_less_numeral)
  show ?LT unfolding m1 lt' using lt by (simp add: H)
  show ?EQ unfolding m1 eq' using eq by (simp add: H)
qed

lemma round_up_sticky:
  assumes "0 < D" and "2 \<le> j"
  shows "round_up m s (sticky N D) (2 ^ j) = round_up m s N (D * 2 ^ j)"
proof -
  note h = sticky_half [OF assms, of N]
  have q: "sticky N D div 2 ^ j = N div (D * 2 ^ j)" using assms by (simp add: sticky_div)
  have z: "sticky N D mod 2 ^ j = 0 \<longleftrightarrow> N mod (D * 2 ^ j) = 0" using assms by (simp add: sticky_mod_zero)
  have GT: "2 ^ j < 2 * (sticky N D mod 2 ^ j) \<longleftrightarrow> D * 2 ^ j < 2 * (N mod (D * 2 ^ j))"
    and GE: "2 ^ j \<le> 2 * (sticky N D mod 2 ^ j) \<longleftrightarrow> D * 2 ^ j \<le> 2 * (N mod (D * 2 ^ j))"
    using h by linarith+
  show ?thesis unfolding round_up_def q GT h(2) GE z by (rule refl)
qed

lemma round_quot_sticky:
  assumes "0 < D" and "2 \<le> j"
  shows "round_quot m s (sticky N D) (2 ^ j) = round_quot m s N (D * 2 ^ j)"
  using assms by (simp add: round_quot_def round_up_sticky sticky_div)

lemma sticky_sticky:
  assumes "0 < D"
  shows "sticky (sticky N D) (2 ^ k) = sticky N (D * 2 ^ k)"
proof (cases "k = 0")
  case True
  then show ?thesis by (simp add: sticky_def)
next
  case False
  then show ?thesis
    using assms by (simp add: sticky_def [of "sticky N D"] sticky_def [of N "D * 2 ^ k"]
        sticky_div sticky_mod_zero)
qed

lemma div_two_power_bounds:
  fixes N D :: nat
  assumes "0 < D"
  shows "N div D * D \<le> N" and "N < Suc (N div D) * D"
  using assms by (simp_all add: dividend_less_div_times)

lemma fquantum_quot_less:
  assumes "0 < D"
  shows "N div (D * 2 ^ fquantum p N D) < 2 ^ p"
  using fquantum_less [OF assms, of N p] assms
  by (simp add: less_mult_imp_div_less ac_simps)

lemma fquantum_quot_ge:
  assumes "0 < D" "0 < fquantum p N D" "1 \<le> p"
  shows "2 ^ (p - 1) \<le> N div (D * 2 ^ fquantum p N D)"
proof -
  from assms(3) have "(2::nat) ^ p = 2 * 2 ^ (p - 1)" by (cases p) auto
  with fquantum_ge [OF assms(1,2)]
  have "2 ^ (p - 1) * (D * 2 ^ fquantum p N D) \<le> N" by (simp add: ac_simps)
  then show ?thesis using assms(1) by (simp add: less_eq_div_iff_mult_less_eq)
qed

text \<open>Every representable number lies at or below the truncated quotient, or above it.\<close>

lemma representable_gap:
  fixes p N D e y :: nat
  defines "e \<equiv> fquantum p N D"
  assumes D: "0 < D" and p: "1 \<le> p" and y: "representable p y"
  shows "y \<le> N div (D * 2 ^ e) * 2 ^ e \<or> Suc (N div (D * 2 ^ e)) * 2 ^ e \<le> y"
proof -
  from y obtain c f where c: "c < 2 ^ p" and y: "y = c * 2 ^ f"
    by (auto simp: representable_def)
  let ?q = "N div (D * 2 ^ e)"
  show ?thesis
  proof (cases "e \<le> f")
    case True
    then have "y = (c * 2 ^ (f - e)) * 2 ^ e"
      by (simp add: y mult.assoc flip: power_add)
    then show ?thesis by (metis Suc_leI mult_le_mono1 not_le_imp_less)
  next
    case False
    then have e0: "0 < e" and "f \<le> e - 1" by auto
    then have "(2::nat) ^ f \<le> 2 ^ (e - 1)" by (simp add: power_increasing)
    with c have "y \<le> 2 ^ p * 2 ^ (e - 1)" unfolding y by (intro mult_le_mono) auto
    also have "\<dots> = 2 ^ (p - 1) * 2 ^ e"
      using e0 p by (cases p; cases e) auto
    also have "\<dots> \<le> ?q * 2 ^ e"
      using fquantum_quot_ge [OF D, of p N] e0 p by (simp add: e_def)
    finally show ?thesis by simp
  qed
qed

lemma ieee_round_representable:
  assumes "0 < D" "1 \<le> p"
  shows "representable p (ieee_round p m s N D)"
proof -
  let ?e = "fquantum p N D"
  let ?R = "round_quot m s N (D * 2 ^ ?e)"
  have "?R \<le> 2 ^ p"
    using fquantum_quot_less [OF assms(1), of N p] round_quot_bounds(2) [of m s N "D * 2 ^ ?e"]
    by linarith
  then consider "?R < 2 ^ p" | "?R = 2 ^ p" by linarith
  then show ?thesis
  proof cases
    case 1
    then show ?thesis by (auto simp: representable_def ieee_round_def Let_def)
  next
    case 2
    then have "ieee_round p m s N D = 1 * 2 ^ (p + ?e)"
      by (simp add: ieee_round_def Let_def power_add)
    moreover have "(1::nat) < 2 ^ p"
      using assms(2) by (intro one_less_power) auto
    ultimately show ?thesis unfolding representable_def by blast
  qed
qed

lemma representable_gap_scaled:
  fixes p N D y :: nat
  assumes D: "0 < D" and p: "1 \<le> p" and y: "representable p y"
  shows "y * D \<le> N div (D * 2 ^ fquantum p N D) * (D * 2 ^ fquantum p N D)
       \<or> Suc (N div (D * 2 ^ fquantum p N D)) * (D * 2 ^ fquantum p N D) \<le> y * D"
proof -
  let ?e = "fquantum p N D" and ?q = "N div (D * 2 ^ fquantum p N D)"
  consider "y \<le> ?q * 2 ^ ?e" | "Suc ?q * 2 ^ ?e \<le> y"
    using representable_gap [OF D p y, of N] by blast
  then show ?thesis
  proof cases
    case 1
    then have "y * D \<le> (?q * 2 ^ ?e) * D" by simp
    then show ?thesis by (simp add: ac_simps)
  next
    case 2
    then have "(Suc ?q * 2 ^ ?e) * D \<le> y * D" by (rule mult_le_mono1)
    then show ?thesis by (simp only: mult.assoc mult.commute mult.left_commute simp_thms)
  qed
qed

lemma ieee_round_mult:
  "ieee_round p m s N D * D =
     round_quot m s N (D * 2 ^ fquantum p N D) * (D * 2 ^ fquantum p N D)"
  by (simp add: ieee_round_def Let_def ac_simps)

text \<open>Rounding to nearest returns a representable number with the least distance.\<close>

lemma ieee_round_cases:
  fixes p N D y :: nat and m :: rmode and s :: bool
  assumes D: "0 < D" and p: "1 \<le> p" and y: "representable p y"
  obtains P Q r where "N = P + r" "r < Q" "y * D \<le> P \<or> P + Q \<le> y * D"
    "ieee_round p m s N D * D = (if round_up m s N Q then P + Q else P)" "N mod Q = r"
proof -
  define Q where "Q = D * 2 ^ fquantum p N D"
  have "0 < Q" using D by (simp add: Q_def)
  moreover have "y * D \<le> N div Q * Q \<or> N div Q * Q + Q \<le> y * D"
    using representable_gap_scaled [OF D p y, of N] by (simp add: Q_def add.commute)
  moreover have "ieee_round p m s N D * D =
      (if round_up m s N Q then N div Q * Q + Q else N div Q * Q)"
    by (simp add: ieee_round_mult round_quot_def Q_def)
  ultimately show thesis
    by (intro that [of "N div Q * Q" "N mod Q" Q]) simp_all
qed

lemma ieee_round_nearest:
  assumes D: "0 < D" and p: "1 \<le> p" and y: "representable p y" and m: "m = RNE \<or> m = RMM"
  shows "\<bar>int (ieee_round p m s N D * D) - int N\<bar> \<le> \<bar>int (y * D) - int N\<bar>"
proof -
  obtain P Q r where *: "N = P + r" "r < Q" "y * D \<le> P \<or> P + Q \<le> y * D"
    "ieee_round p m s N D * D = (if round_up m s N Q then P + Q else P)" "N mod Q = r"
    using ieee_round_cases [OF D p y] by blast
  have up: "round_up m s N Q \<Longrightarrow> Q \<le> 2 * r" and down: "\<not> round_up m s N Q \<Longrightarrow> 2 * r \<le> Q"
    using m *(5) by (auto simp: round_up_def)
  show ?thesis
  proof (cases "round_up m s N Q")
    case True
    with *(4) have "ieee_round p m s N D * D = P + Q" by simp
    with *(1-3) up [OF True] show ?thesis by linarith
  next
    case False
    with *(4) have "ieee_round p m s N D * D = P" by simp
    with *(1-3) down [OF False] show ?thesis by linarith
  qed
qed

lemma ieee_round_directed:
  assumes D: "0 < D" and p: "1 \<le> p" and y: "representable p y"
  shows "m = RTZ \<or> (m = RDN \<and> \<not> s) \<or> (m = RUP \<and> s) \<Longrightarrow>
           ieee_round p m s N D * D \<le> N \<and> (y * D \<le> N \<longrightarrow> y \<le> ieee_round p m s N D)"
    and "(m = RDN \<and> s) \<or> (m = RUP \<and> \<not> s) \<Longrightarrow>
           N \<le> ieee_round p m s N D * D \<and> (N \<le> y * D \<longrightarrow> ieee_round p m s N D \<le> y)"
proof -
  obtain P Q r where *: "N = P + r" "r < Q" "y * D \<le> P \<or> P + Q \<le> y * D"
    "ieee_round p m s N D * D = (if round_up m s N Q then P + Q else P)" "N mod Q = r"
    using ieee_round_cases [OF D p y] by blast
  have le: "a \<le> b \<longleftrightarrow> a * D \<le> b * D" for a b using D by simp
  {
    assume "m = RTZ \<or> (m = RDN \<and> \<not> s) \<or> (m = RUP \<and> s)"
    then have "\<not> round_up m s N Q" by (auto simp: round_up_def)
    with *(1-4) show "ieee_round p m s N D * D \<le> N \<and> (y * D \<le> N \<longrightarrow> y \<le> ieee_round p m s N D)"
      unfolding le [of y] by (simp only: if_False) linarith
  }
  {
    assume "(m = RDN \<and> s) \<or> (m = RUP \<and> \<not> s)"
    then have "round_up m s N Q = (r \<noteq> 0)" using *(5) by (auto simp: round_up_def)
    with *(1-4) show "N \<le> ieee_round p m s N D * D \<and> (N \<le> y * D \<longrightarrow> ieee_round p m s N D \<le> y)"
      unfolding le [of _ y] by (cases "r = 0") (simp_all only: if_True if_False simp_thms, linarith+)
  }
qed

text \<open>The encoding of magnitudes as exponent and fraction fields.\<close>

lemma fdec_pack:
  assumes p: "1 \<le> p" and R: "R \<le> 2 ^ p" and E: "E = 0 \<or> 2 ^ (p - 1) \<le> R"
  shows "fdec p (E * 2 ^ (p - 1) + R) = R * 2 ^ E"
proof -
  define H :: nat where "H = 2 ^ (p - 1)"
  have H: "0 < H" "2 ^ p = 2 * H" using p by (cases p; simp add: H_def)+
  consider "R < H" | "H \<le> R" "R < 2 * H" | "R = 2 * H" using R H by linarith
  then show ?thesis
  proof cases
    case 1
    then have "E = 0" using E by (simp add: H_def)
    then show ?thesis using 1 by (simp add: fdec_def H_def)
  next
    case 2
    then obtain k where k: "R = H + k" "k < H" using le_Suc_ex by fastforce
    then have e: "E * H + R = k + Suc E * H" by simp
    have "(E * H + R) div H = Suc E" "(E * H + R) mod H = k"
      unfolding e using k H by (simp_all only: div_mult_self1 mod_mult_self1 div_less mod_less)
    then show ?thesis using k by (simp add: fdec_def Let_def flip: H_def del: One_nat_def)
  next
    case 3
    then have "E * H + R = Suc (Suc E) * H" by simp
    then have "(E * H + R) div H = Suc (Suc E)" "(E * H + R) mod H = 0"
      using H by simp_all
    then show ?thesis using 3 by (simp add: fdec_def Let_def flip: H_def del: One_nat_def)
  qed
qed

lemma fdec_form:
  assumes "1 \<le> p"
  obtains E R where "b = E * 2 ^ (p - 1) + R" "R < 2 ^ p" "E = 0 \<or> 2 ^ (p - 1) \<le> R"
    "fdec p b = R * 2 ^ E"
proof -
  define H :: nat where "H = 2 ^ (p - 1)"
  have H: "0 < H" "2 ^ p = 2 * H" using assms by (cases p; simp add: H_def)+
  show thesis
  proof (cases "b div H = 0")
    case True
    then have "b < H" using H by (simp add: div_eq_0_iff)
    then show thesis using that [of 0 b] H by (simp add: fdec_def Let_def flip: H_def del: One_nat_def)
  next
    case False
    then obtain E where E: "b div H = Suc E" by (cases "b div H") auto
    have "b = Suc E * H + b mod H" by (metis E div_mult_mod_eq)
    then show thesis using that [of E "H + b mod H"] H E
      by (simp add: fdec_def Let_def flip: H_def del: One_nat_def)
  qed
qed

lemma fenc_fdec:
  assumes p: "1 \<le> p"
  shows "fenc p (fdec p b) = b"
proof -
  obtain E R where b: "b = E * 2 ^ (p - 1) + R" and R: "R < 2 ^ p" and E: "E = 0 \<or> 2 ^ (p - 1) \<le> R"
    and d: "fdec p b = R * 2 ^ E"
    using fdec_form [OF p] by blast
  have "fquantum p (R * 2 ^ E) 1 = E"
  proof (rule fquantum_unique)
    show "R * 2 ^ E < 2 ^ p * (2 ^ E * 1)" using R by simp
    have "2 ^ (p - 1) \<le> R \<Longrightarrow> 2 * 2 ^ (p - 1) * 2 ^ E \<le> 2 * (R * 2 ^ E)" by simp
    moreover have "(2::nat) * 2 ^ (p - 1) = 2 ^ p" using p by (cases p) auto
    ultimately show "E = 0 \<or> 2 ^ p * (2 ^ E * 1) \<le> 2 * (R * 2 ^ E)" using E by auto
  qed simp
  then show ?thesis unfolding fenc_def d Let_def by (simp add: b)
qed

lemma fdec_inj: "1 \<le> p \<Longrightarrow> fdec p a = fdec p b \<longleftrightarrow> a = b"
  by (metis fenc_fdec)

lemma fdec_representable: "1 \<le> p \<Longrightarrow> representable p (fdec p b)"
  by (metis fdec_form representable_def)


lemma fdec_strict_mono:
  assumes p: "1 \<le> p" and ab: "a < b"
  shows "fdec p a < fdec p b"
proof -
  have step: "fdec p b < fdec p (Suc b)" for b
  proof -
    obtain E R where b: "b = E * 2 ^ (p - 1) + R" and R: "R < 2 ^ p" and E: "E = 0 \<or> 2 ^ (p - 1) \<le> R"
      and d: "fdec p b = R * 2 ^ E"
      using fdec_form [OF p] by blast
    have "fdec p (E * 2 ^ (p - 1) + Suc R) = Suc R * 2 ^ E"
      using R E by (intro fdec_pack [OF p]) auto
    with b d show ?thesis by simp
  qed
  show ?thesis using lift_Suc_mono_less [of "fdec p", OF step ab] .
qed

lemma fdec_le_iff: "1 \<le> p \<Longrightarrow> fdec p a \<le> fdec p b \<longleftrightarrow> a \<le> b"
  using fdec_strict_mono [of p a b] fdec_strict_mono [of p b a]
  by (cases a b rule: linorder_cases) auto

lemma fdec_less_iff: "1 \<le> p \<Longrightarrow> fdec p a < fdec p b \<longleftrightarrow> a < b"
  using fdec_le_iff [of p b a] by auto

text \<open>The encoding of a rounded result is its quantum exponent and its quotient, added: a
  carry out of the fraction field increments the exponent field.\<close>

lemma fdec_ieee_round:
  assumes D: "0 < D" and p: "1 \<le> p"
  shows "fdec p (fquantum p N D * 2 ^ (p - 1) + round_quot m s N (D * 2 ^ fquantum p N D)) =
    ieee_round p m s N D"
proof -
  let ?e = "fquantum p N D"
  let ?R = "round_quot m s N (D * 2 ^ ?e)"
  have R: "?R \<le> 2 ^ p"
    using fquantum_quot_less [OF D, of N p] round_quot_bounds(2) [of m s N "D * 2 ^ ?e"] by linarith
  have "?e = 0 \<or> 2 ^ (p - 1) \<le> ?R"
    using fquantum_quot_ge [OF D _ p, of N] round_quot_bounds(1) [of N "D * 2 ^ ?e" m s] by fastforce
  then show ?thesis unfolding ieee_round_def Let_def by (rule fdec_pack [OF p R])
qed

lemma fenc_ieee_round:
  assumes D: "0 < D" and p: "1 \<le> p"
  shows "fenc p (ieee_round p m s N D) =
    fquantum p N D * 2 ^ (p - 1) + round_quot m s N (D * 2 ^ fquantum p N D)"
  by (metis fenc_fdec [OF p] fdec_ieee_round [OF assms])

lemma round_quot_scale:
  assumes "0 < k"
  shows "round_quot m s (N * k) (D * k) = round_quot m s N D"
proof -
  have "2 * (N mod D * k) = D * k \<longleftrightarrow> 2 * (N mod D) = D"
    "D * k < 2 * (N mod D * k) \<longleftrightarrow> D < 2 * (N mod D)"
    "D * k \<le> 2 * (N mod D * k) \<longleftrightarrow> D \<le> 2 * (N mod D)"
    using assms by (simp_all flip: mult.assoc)
  then show ?thesis
    using assms by (simp add: round_quot_def round_up_def mod_mult_mult2 split: rmode.split)
qed

text \<open>The rounding increment of the code: adding it and truncating rounds, except that a
  tie under round-to-nearest-even still has to clear the last bit.\<close>

definition round_inc :: "rmode \<Rightarrow> bool \<Rightarrow> nat \<Rightarrow> nat" where
  "round_inc m sign D =
     (case m of RNE \<Rightarrow> D div 2 | RMM \<Rightarrow> D div 2 | RTZ \<Rightarrow> 0
      | RDN \<Rightarrow> if sign then D - 1 else 0
      | RUP \<Rightarrow> if sign then 0 else D - 1)"

lemma div_add_inc:
  fixes N D i :: nat
  assumes "0 < D" and "i \<le> D"
  shows "(N + i) div D = N div D + (if D \<le> N mod D + i then 1 else 0)"
proof (cases "D \<le> N mod D + i")
  case True
  have "(N + i) div D = N div D + (N mod D + i) div D"
    by (metis div_mult_mod_eq div_mult_self3 add.assoc assms(1) less_numeral_extra(3))
  moreover have "(N mod D + i) div D = 1"
    using True assms by (intro div_nat_eqI) (auto intro: add_less_le_mono)
  ultimately show ?thesis using True by simp
next
  case False
  have "(N + i) div D = N div D + (N mod D + i) div D"
    by (metis div_mult_mod_eq div_mult_self3 add.assoc assms(1) less_numeral_extra(3))
  then show ?thesis using False by simp
qed

lemma round_quot_inc:
  assumes "0 < D" and "even D"
  shows "round_quot m s N D =
    (let q = (N + round_inc m s D) div D
     in if m = RNE \<and> 2 * (N mod D) = D then q - q mod 2 else q)"
proof -
  from assms obtain H where H: "D = 2 * H" "0 < H" by auto
  have i: "round_inc m s D \<le> D" by (simp add: round_inc_def split: rmode.split)
  define q where "q = N div D"
  define r where "r = N mod D"
  have "r < D" using assms by (simp add: r_def)
  moreover have eq: "(N + round_inc m s D) div D = q + (if D \<le> r + round_inc m s D then 1 else 0)"
    unfolding q_def r_def by (rule div_add_inc [OF assms(1) i])
  ultimately show ?thesis
    unfolding Let_def eq round_quot_def round_up_def q_def [symmetric] r_def [symmetric]
    using H by (cases m; cases s; simp add: round_inc_def; presburger)
qed


text \<open>The complete reference result: magnitude bits, overflow, underflow and inexact.\<close>

definition inf_bits :: "nat \<Rightarrow> nat \<Rightarrow> nat" where
  "inf_bits p w = (2 ^ w - 1) * 2 ^ (p - 1)"

definition tiny :: "nat \<Rightarrow> bool \<Rightarrow> rmode \<Rightarrow> bool \<Rightarrow> nat \<Rightarrow> nat \<Rightarrow> bool" where
  "tiny p after m s N D \<longleftrightarrow>
     N < 2 ^ (p - 1) * D \<and> (after \<longrightarrow> round_quot m s (2 * N) D < 2 ^ p)"

definition overflow_bits :: "nat \<Rightarrow> nat \<Rightarrow> rmode \<Rightarrow> bool \<Rightarrow> nat" where
  "overflow_bits p w m s =
     (if m = RNE \<or> m = RMM \<or> (m = RDN \<and> s) \<or> (m = RUP \<and> \<not> s)
      then inf_bits p w else inf_bits p w - 1)"

definition ieee_result ::
  "nat \<Rightarrow> nat \<Rightarrow> bool \<Rightarrow> rmode \<Rightarrow> bool \<Rightarrow> nat \<Rightarrow> nat \<Rightarrow> nat \<times> bool \<times> bool \<times> bool" where
  "ieee_result p w after m s N D =
     (let M = ieee_round p m s N D
      in if fdec p (inf_bits p w) \<le> M then (overflow_bits p w m s, True, False, True)
         else (fenc p M, False, tiny p after m s N D \<and> M * D \<noteq> N, M * D \<noteq> N))"

lemma ieee_round_exact_iff:
  assumes D: "0 < D"
  shows "ieee_round p m s N D * D = N \<longleftrightarrow> N mod (D * 2 ^ fquantum p N D) = 0"
proof
  assume "ieee_round p m s N D * D = N"
  then show "N mod (D * 2 ^ fquantum p N D) = 0"
    by (metis ieee_round_mult mod_mult_self2_is_0)
next
  assume "N mod (D * 2 ^ fquantum p N D) = 0"
  then show "ieee_round p m s N D * D = N"
    using D by (auto simp: ieee_round_mult round_quot_exact)
qed

lemma ieee_round_exact:
  assumes p: "1 \<le> p" and r: "representable p N"
  shows "ieee_round p m s N 1 = N"
proof -
  obtain c e where c: "c < 2 ^ p" "N = c * 2 ^ e" using r by (auto simp: representable_def)
  have "fquantum p N 1 \<le> e"
  proof (rule ccontr)
    assume "\<not> fquantum p N 1 \<le> e"
    then have q: "0 < fquantum p N 1" "Suc e \<le> fquantum p N 1" by simp_all
    have "2 ^ p * 2 ^ Suc e \<le> (2::nat) ^ p * 2 ^ fquantum p N 1"
      using q(2) by (intro mult_left_mono power_increasing) simp_all
    also have "\<dots> \<le> 2 * N" using fquantum_ge [of 1 p N] q(1) by simp
    finally have "2 ^ p * 2 ^ e \<le> N" by simp
    then show False using c by simp
  qed
  then have "N mod 2 ^ fquantum p N 1 = 0" using c(2) by (simp add: dvd_mult le_imp_power_dvd)
  then show ?thesis using ieee_round_exact_iff [of 1 p m s N] by simp
qed

lemma fdec_fenc:
  assumes p: "1 \<le> p" and r: "representable p N"
  shows "fdec p (fenc p N) = N"
  using fdec_ieee_round [OF zero_less_one p, of N RNE False] fenc_ieee_round [OF zero_less_one p, of RNE False N]
    ieee_round_exact [OF assms] by metis

text \<open>An exact value below the overflow threshold is encoded without a flag.\<close>

lemma ieee_result_exact:
  assumes p: "1 \<le> p" and r: "representable p N" and "N < fdec p (inf_bits p w)"
  shows "ieee_result p w after m s N 1 = (fenc p N, False, False, False)"
  unfolding ieee_result_def Let_def ieee_round_exact [OF p r] using assms(3) by simp

lemma less_iff_div_zero: "0 < D \<Longrightarrow> N < D \<longleftrightarrow> N div D = (0::nat)"
  by (simp add: div_eq_0_iff)

lemma fquantum_cong:
  assumes "0 < D" "0 < D'"
    and "\<And>e. N < 2 ^ p * (2 ^ e * D) \<longleftrightarrow> N' < 2 ^ p * (2 ^ e * D')"
  shows "fquantum p N D = fquantum p N' D'"
proof (rule fquantum_unique [OF assms(1)])
  let ?e = "fquantum p N' D'"
  show "N < 2 ^ p * (2 ^ ?e * D)"
    using assms fquantum_less by blast
  show "?e = 0 \<or> 2 ^ p * (2 ^ ?e * D) \<le> 2 * N"
  proof (cases ?e)
    case (Suc e)
    then have "\<not> N' < 2 ^ p * (2 ^ e * D')"
      using fquantum_ge [OF assms(2), of p N'] by simp
    with assms(3) [of e] Suc show ?thesis by simp
  qed simp
qed

lemma sticky_less_iff:
  assumes "0 < D" "1 \<le> j"
  shows "sticky N D < c * 2 ^ j \<longleftrightarrow> N < c * (D * 2 ^ j)"
proof -
  have "sticky N D < c * 2 ^ j \<longleftrightarrow> sticky N D div 2 ^ j < c"
    by (simp add: div_less_iff_less_mult)
  also have "\<dots> \<longleftrightarrow> N < c * (D * 2 ^ j)"
    using assms by (simp add: sticky_div div_less_iff_less_mult)
  finally show ?thesis .
qed

lemma fquantum_sticky:
  assumes "0 < D" "1 \<le> j"
  shows "fquantum p (sticky N D) (2 ^ j) = fquantum p N (D * 2 ^ j)"
proof (rule fquantum_cong)
  fix e
  show "sticky N D < 2 ^ p * (2 ^ e * 2 ^ j) \<longleftrightarrow> N < 2 ^ p * (2 ^ e * (D * 2 ^ j))"
    using sticky_less_iff [OF assms, of N "2 ^ p * 2 ^ e"] by (simp add: ac_simps)
qed (use assms in auto)

text \<open>Jamming the remainder of a division into the last bit loses nothing that rounding,
  the flags or the tininess test look at, provided three bits are still to be rounded off.\<close>

lemma ieee_result_sticky:
  assumes D: "0 < D" and j: "3 \<le> j"
  shows "ieee_result p w after m s (sticky N D) (2 ^ j) = ieee_result p w after m s N (D * 2 ^ j)"
proof -
  let ?e = "fquantum p N (D * 2 ^ j)"
  have q: "fquantum p (sticky N D) (2 ^ j) = ?e" using D j by (simp add: fquantum_sticky)
  have pw: "D * 2 ^ j * 2 ^ ?e = D * 2 ^ (j + ?e)" "(2::nat) ^ j * 2 ^ ?e = 2 ^ (j + ?e)"
    by (simp_all add: power_add)
  have M: "ieee_round p m s (sticky N D) (2 ^ j) = ieee_round p m s N (D * 2 ^ j)"
    unfolding ieee_round_def q Let_def pw using D j by (simp add: round_quot_sticky)
  have x: "ieee_round p m s N (D * 2 ^ j) * 2 ^ j = sticky N D \<longleftrightarrow>
      ieee_round p m s N (D * 2 ^ j) * (D * 2 ^ j) = N"
    using ieee_round_exact_iff [of "2 ^ j" p m s "sticky N D"]
      ieee_round_exact_iff [of "D * 2 ^ j" p m s N] D j
    by (simp add: M q pw sticky_mod_zero)
  have half: "round_quot m s (2 * X) (D' * 2 ^ j) = round_quot m s X (D' * 2 ^ (j - 1))" for X D'
  proof -
    obtain i where "j = Suc i" using j by (cases j) auto
    then show ?thesis using round_quot_scale [of 2 m s X "D' * 2 ^ i"] by (simp add: ac_simps)
  qed
  have "round_quot m s (2 * sticky N D) (2 ^ j) = round_quot m s (2 * N) (D * 2 ^ j)"
    using half [of "sticky N D" 1] half [of N D] round_quot_sticky [OF D, of "j - 1"] j by simp
  moreover have "sticky N D < 2 ^ (p - 1) * 2 ^ j \<longleftrightarrow> N < 2 ^ (p - 1) * (D * 2 ^ j)"
    using D j by (simp add: sticky_less_iff)
  ultimately have "tiny p after m s (sticky N D) (2 ^ j) = tiny p after m s N (D * 2 ^ j)"
    unfolding tiny_def by simp
  then show ?thesis unfolding ieee_result_def M Let_def x by simp
qed

lemma ieee_result_scale:
  assumes D: "0 < D" and k: "0 < k"
  shows "ieee_result p w after m s (N * k) (D * k) = ieee_result p w after m s N D"
proof -
  have q: "fquantum p (N * k) (D * k) = fquantum p N D"
  proof (rule fquantum_cong)
    fix e
    have "N * k < 2 ^ p * (2 ^ e * (D * k)) \<longleftrightarrow> N * k < 2 ^ p * (2 ^ e * D) * k" by (simp add: ac_simps)
    then show "N * k < 2 ^ p * (2 ^ e * (D * k)) \<longleftrightarrow> N < 2 ^ p * (2 ^ e * D)" using k by simp
  qed (use D k in auto)
  have M: "ieee_round p m s (N * k) (D * k) = ieee_round p m s N D"
    unfolding ieee_round_def q Let_def
    using round_quot_scale [OF k, of m s N "D * 2 ^ fquantum p N D"] by (simp add: ac_simps)
  have t: "round_quot m s (2 * (N * k)) (D * k) = round_quot m s (2 * N) D"
    using round_quot_scale [OF k, of m s "2 * N" D] by (simp add: ac_simps)
  have "N * k < 2 ^ (p - 1) * (D * k) \<longleftrightarrow> N * k < 2 ^ (p - 1) * D * k" by (simp add: ac_simps)
  then have l: "N * k < 2 ^ (p - 1) * (D * k) \<longleftrightarrow> N < 2 ^ (p - 1) * D" using k by simp
  have "ieee_round p m s N D * (D * k) = N * k \<longleftrightarrow> ieee_round p m s N D * D * k = N * k"
    by (simp add: ac_simps)
  then have x: "ieee_round p m s N D * (D * k) = N * k \<longleftrightarrow> ieee_round p m s N D * D = N" using k by simp
  show ?thesis unfolding ieee_result_def tiny_def M t l Let_def x ..
qed


lemma two_power_split: "1 \<le> p \<Longrightarrow> (2::nat) ^ p = 2 * 2 ^ (p - 1)"
  by (cases p) auto

lemma fdec_inf_bits:
  assumes p: "1 \<le> p" and w: "2 \<le> w"
  shows "fdec p (inf_bits p w) = 2 ^ (p - 1) * 2 ^ (2 ^ w - 2)"
proof -
  have "(4::nat) \<le> 2 ^ w" using power_increasing [OF w, of "2::nat"] by simp
  then have e: "(2::nat) ^ w - 1 = Suc (2 ^ w - 2)" by simp
  have "inf_bits p w = (2 ^ w - 2) * 2 ^ (p - 1) + 2 ^ (p - 1)"
    unfolding inf_bits_def e by simp
  moreover have "(2::nat) ^ (p - 1) \<le> 2 ^ p" by (rule power_increasing) auto
  ultimately show ?thesis
    using fdec_pack [OF p, of "2 ^ (p - 1)" "2 ^ w - 2"] by simp
qed

lemma round_quot_carry:
  assumes G: "1 \<le> G" and p: "1 \<le> p" and sig: "sig < 2 ^ (p + G)"
  shows "2 ^ p \<le> round_quot m s sig (2 ^ G) \<longleftrightarrow> 2 ^ (p + G) \<le> sig + round_inc m s (2 ^ G)"
proof -
  let ?i = "round_inc m s (2 ^ G)"
  let ?q = "(sig + ?i) div 2 ^ G"
  have i: "?i \<le> 2 ^ G" by (simp add: round_inc_def split: rmode.split)
  have "sig div 2 ^ G < 2 ^ p" using sig by (simp add: less_mult_imp_div_less power_add)
  then have le: "?q \<le> 2 ^ p" using div_add_inc [OF _ i, of sig] by auto
  have iff: "2 ^ p \<le> ?q \<longleftrightarrow> 2 ^ (p + G) \<le> sig + ?i"
    by (simp add: less_eq_div_iff_mult_less_eq power_add)
  have even_le: "P \<le> q - q mod 2 \<longleftrightarrow> P \<le> q" if "q \<le> P" "even P" for P q :: nat
    using that by presburger
  have "2 ^ p \<le> ?q - ?q mod 2 \<longleftrightarrow> 2 ^ p \<le> ?q" using p by (intro even_le le) simp
  moreover have "round_quot m s sig (2 ^ G) = ?q \<or> round_quot m s sig (2 ^ G) = ?q - ?q mod 2"
    using round_quot_inc [of "2 ^ G" m s sig] G by (simp add: Let_def split: if_splits)
  ultimately show ?thesis using iff by metis
qed

lemma normal_quantum:
  assumes p: "1 \<le> p" and lo: "2 ^ (p + G - 1) \<le> sig" and hi: "sig < 2 ^ (p + G)"
  shows "fquantum p (sig * 2 ^ E) (2 ^ G) = E"
proof (rule fquantum_unique)
  show "sig * 2 ^ E < 2 ^ p * (2 ^ E * 2 ^ G)" using hi by (simp add: power_add ac_simps)
  have "2 * 2 ^ (p + G - 1) = (2::nat) ^ (p + G)" using p by (simp add: two_power_split [of "p + G"])
  then have "2 ^ (p + G) \<le> 2 * sig" using lo by linarith
  then have "2 ^ (p + G) * 2 ^ E \<le> 2 * sig * 2 ^ E" by simp
  then show "E = 0 \<or> 2 ^ p * (2 ^ E * 2 ^ G) \<le> 2 * (sig * 2 ^ E)"
    by (simp add: power_add ac_simps)
qed simp

lemma ieee_result_normal:
  assumes p: "1 \<le> p" and w: "2 \<le> w" and G: "1 \<le> G"
    and lo: "2 ^ (p + G - 1) \<le> sig" and hi: "sig < 2 ^ (p + G)"
  shows "ieee_result p w after m s (sig * 2 ^ E) (2 ^ G) =
    (if 2 ^ w - 3 < E \<or> (E = 2 ^ w - 3 \<and> 2 ^ (p + G) \<le> sig + round_inc m s (2 ^ G))
     then (overflow_bits p w m s, True, False, True)
     else (E * 2 ^ (p - 1) + round_quot m s sig (2 ^ G), False, False, sig mod 2 ^ G \<noteq> 0))"
proof -
  let ?R = "round_quot m s sig (2 ^ G)"
  have q: "fquantum p (sig * 2 ^ E) (2 ^ G) = E" by (rule normal_quantum [OF p lo hi])
  have M: "ieee_round p m s (sig * 2 ^ E) (2 ^ G) = ?R * 2 ^ E"
    by (simp add: ieee_round_def q round_quot_scale)
  have enc: "fenc p (?R * 2 ^ E) = E * 2 ^ (p - 1) + ?R"
    using fenc_ieee_round [OF _ p, of "2 ^ G" m s "sig * 2 ^ E"]
    by (simp add: M q round_quot_scale)
  have x: "?R * 2 ^ E * 2 ^ G = sig * 2 ^ E \<longleftrightarrow> sig mod 2 ^ G = 0"
    using ieee_round_exact_iff [of "2 ^ G" p m s "sig * 2 ^ E"]
    by (simp add: M q mod_mult_mult2)
  have w4: "(4::nat) \<le> 2 ^ w" using power_increasing [OF w, of "2::nat"] by simp
  have H2: "(2::nat) ^ p = 2 * 2 ^ (p - 1)" by (rule two_power_split [OF p])
  have Rlo: "2 ^ (p - 1) \<le> ?R"
  proof -
    have "2 ^ (p + G - 1) = (2::nat) ^ (p - 1) * 2 ^ G"
      using p by (simp flip: power_add)
    with lo have "2 ^ (p - 1) \<le> sig div 2 ^ G" by (simp add: less_eq_div_iff_mult_less_eq)
    then show ?thesis using round_quot_bounds(1) le_trans by blast
  qed
  have Rhi: "?R \<le> 2 ^ p"
    using round_quot_bounds(2) [of m s sig "2 ^ G"] hi
    by (metis Suc_leI le_trans less_mult_imp_div_less power_add)
  have ovf: "2 ^ (p - 1) * 2 ^ (2 ^ w - 2) \<le> ?R * 2 ^ E \<longleftrightarrow>
      2 ^ w - 3 < E \<or> (E = 2 ^ w - 3 \<and> 2 ^ p \<le> ?R)"
  proof (cases "E < 2 ^ w - 3")
    case True
    then have "Suc E < 2 ^ w - 2" using w4 by linarith
    then have "(2::nat) ^ Suc E < 2 ^ (2 ^ w - 2)" by (intro power_strict_increasing) auto
    then have "(2::nat) ^ (p - 1) * 2 ^ Suc E < 2 ^ (p - 1) * 2 ^ (2 ^ w - 2)" by simp
    moreover have "?R * 2 ^ E \<le> 2 ^ (p - 1) * 2 ^ Suc E"
      using Rhi H2 by (simp add: mult.left_commute)
    ultimately show ?thesis using True by linarith
  next
    case False
    show ?thesis
    proof (cases "E = 2 ^ w - 3")
      case True
      then have "2 ^ w - 2 = Suc E" using w4 by linarith
      then have "(2::nat) ^ (p - 1) * 2 ^ (2 ^ w - 2) = 2 ^ p * 2 ^ E" by (simp add: H2)
      then show ?thesis using True by simp
    next
      case F: False
      then have "2 ^ w - 2 \<le> E" using False by linarith
      then have "(2::nat) ^ (p - 1) * 2 ^ (2 ^ w - 2) \<le> ?R * 2 ^ E"
        using Rlo by (intro mult_le_mono power_increasing) auto
      then show ?thesis using False F by simp
    qed
  qed
  have "\<not> tiny p after m s (sig * 2 ^ E) (2 ^ G)"
  proof -
    have "2 ^ (p - 1) * 2 ^ G = (2::nat) ^ (p + G - 1)" using p by (simp flip: power_add)
    then have "2 ^ (p - 1) * 2 ^ G \<le> sig * 2 ^ E" using lo by (metis le_trans mult_le_mono2 mult.right_neutral one_le_numeral one_le_power)
    then show ?thesis by (simp add: tiny_def)
  qed
  then show ?thesis
    unfolding ieee_result_def M Let_def fdec_inf_bits [OF p w] ovf round_quot_carry [OF G p hi] enc x
    by simp
qed


lemma ieee_result_small:
  assumes D: "0 < D" and p: "1 \<le> p" and w: "2 \<le> w" and N: "N < 2 ^ p * D"
  shows "ieee_result p w after m s N D =
    (round_quot m s N D, False, tiny p after m s N D \<and> N mod D \<noteq> 0, N mod D \<noteq> 0)"
proof -
  have q: "fquantum p N D = 0" using N D by (simp add: fquantum.simps)
  have M: "ieee_round p m s N D = round_quot m s N D" by (simp add: ieee_round_def q)
  have enc: "fenc p (round_quot m s N D) = round_quot m s N D"
    using fenc_ieee_round [OF D p, of m s N] by (simp add: M q)
  have x: "round_quot m s N D * D = N \<longleftrightarrow> N mod D = 0"
    using ieee_round_exact_iff [OF D, of p m s N] by (simp add: M q)
  have w4: "(4::nat) \<le> 2 ^ w" using power_increasing [OF w, of "2::nat"] by simp
  have "N div D < 2 ^ p" using N by (rule less_mult_imp_div_less)
  then have "round_quot m s N D \<le> 2 ^ p" using round_quot_bounds(2) [of m s N D] by linarith
  also have "2 ^ p < (2::nat) ^ (p - 1) * 2 ^ (2 ^ w - 2)"
    unfolding two_power_split [OF p] using w4 power_strict_increasing [of 1 "2 ^ w - 2" "2::nat"] by simp
  finally show ?thesis
    unfolding ieee_result_def M Let_def fdec_inf_bits [OF p w] enc x by simp
qed

lemma ieee_result_zero:
  assumes "0 < D" "1 \<le> p" "2 \<le> w"
  shows "ieee_result p w after m s 0 D = (0, False, False, False)"
  using ieee_result_small [OF assms, of 0] assms(1) by (simp add: round_quot_exact)

lemma ieee_result_subnormal:
  assumes p: "1 \<le> p" and w: "2 \<le> w" and G: "3 \<le> G" and k: "1 \<le> k"
    and hi: "sig < 2 ^ (p + G)"
  shows "ieee_result p w after m s sig (2 ^ k * 2 ^ G) =
    (let z = sticky sig (2 ^ k) in
      (round_quot m s z (2 ^ G), False,
       (\<not> after \<or> 1 < k \<or> sig + round_inc m s (2 ^ G) < 2 ^ (p + G)) \<and> z mod 2 ^ G \<noteq> 0,
       z mod 2 ^ G \<noteq> 0))"
proof -
  have pw: "(2::nat) ^ (p + G) = 2 ^ p * 2 ^ G" by (simp add: power_add)
  have k2: "(2::nat) \<le> 2 ^ k" using power_increasing [OF k, of "2::nat"] by simp
  have N1: "sig < 2 ^ (p - 1) * (2 ^ k * 2 ^ G)"
  proof -
    have "2 ^ (p - 1) * (2 * 2 ^ G) \<le> 2 ^ (p - 1) * (2 ^ k * (2 ^ G :: nat))"
      using k2 by (intro mult_le_mono) auto
    moreover have "sig < 2 ^ (p - 1) * (2 * 2 ^ G)"
      using hi unfolding pw two_power_split [OF p] by (simp add: ac_simps)
    ultimately show ?thesis by linarith
  qed
  have N: "sig < 2 ^ p * (2 ^ k * 2 ^ G)"
    using N1 unfolding two_power_split [OF p] by simp
  have t: "round_quot m s (2 * sig) (2 ^ k * 2 ^ G) < 2 ^ p \<longleftrightarrow>
      1 < k \<or> sig + round_inc m s (2 ^ G) < 2 ^ (p + G)"
  proof (cases "k = 1")
    case True
    have "round_quot m s (2 * sig) (2 * 2 ^ G) = round_quot m s sig (2 ^ G)"
      using round_quot_scale [of 2 m s sig "2 ^ G"] by (simp add: mult.commute)
    then show ?thesis
      using round_quot_carry [OF _ p hi, of m s] G True by (auto simp: not_le [symmetric])
  next
    case False
    with k obtain i where i: "k = Suc (Suc i)" by (metis One_nat_def Suc_le_D le_SucE not_less_eq_eq)
    have "2 * sig < 2 ^ p * (2 * 2 ^ G)" using hi unfolding pw by simp
    also have "\<dots> \<le> 2 ^ (p - 1) * (2 ^ k * 2 ^ G)"
      unfolding i two_power_split [OF p] by simp
    finally have "2 * sig div (2 ^ k * 2 ^ G) < 2 ^ (p - 1)" by (rule less_mult_imp_div_less)
    moreover have "(1::nat) \<le> 2 ^ (p - 1)" by simp
    ultimately have "round_quot m s (2 * sig) (2 ^ k * 2 ^ G) < 2 ^ p"
      using round_quot_bounds(2) [of m s "2 * sig" "2 ^ k * 2 ^ G"] unfolding two_power_split [OF p]
      by linarith
    then show ?thesis using i by simp
  qed
  have D: "(0::nat) < 2 ^ k * 2 ^ G" by simp
  have zR: "round_quot m s (sticky sig (2 ^ k)) (2 ^ G) = round_quot m s sig (2 ^ k * 2 ^ G)"
    using G by (intro round_quot_sticky) auto
  have zm: "sticky sig (2 ^ k) mod 2 ^ G = 0 \<longleftrightarrow> sig mod (2 ^ k * 2 ^ G) = 0"
    using G by (intro sticky_mod_zero) auto
  show ?thesis
    unfolding ieee_result_small [OF D p w N] Let_def tiny_def t zR zm
    using N1 by (simp add: conj_commute)
qed

lemma sticky_add:
  assumes D: "0 < D" and A: "even A"
  shows "sticky (A * D + B) D = A + sticky B D"
proof -
  have "(A * D + B) div D = A + B div D" "(A * D + B) mod D = B mod D" using D by simp_all
  then show ?thesis using A by (simp add: sticky_def)
qed

lemma sticky_diff:
  assumes D: "0 < D" and A: "even A" and le: "B \<le> A * D"
  shows "sticky (A * D - B) D = A - sticky B D"
proof -
  define q where "q = B div D"
  define r where "r = B mod D"
  have B: "B = q * D + r" and r: "r < D" using D by (simp_all add: q_def r_def)
  show ?thesis
  proof (cases "r = 0")
    case True
    then have "A * D - B = (A - q) * D" by (simp add: B diff_mult_distrib)
    then show ?thesis using D True by (simp add: sticky_def q_def [symmetric] r_def [symmetric])
  next
    case False
    have "q < A"
    proof (rule ccontr)
      assume "\<not> q < A"
      then have "A * D \<le> q * D" by simp
      with le B False show False by linarith
    qed
    then obtain k where k: "A = q + Suc k" by (metis less_iff_Suc_add add_Suc_right)
    then have "A * D - B = k * D + (D - r)" using r by (simp add: B algebra_simps)
    moreover have "(k * D + d) div D = k" "(k * D + d) mod D = d" if "d < D" for d
      using that by simp_all
    ultimately have "(A * D - B) div D = k" "(A * D - B) mod D = D - r"
      using False r by (metis diff_less neq0_conv D)+
    then show ?thesis
      using False k A r by (auto simp: sticky_def q_def [symmetric] r_def [symmetric])
  qed
qed

end
