(* ===== verification/SF_Primitives.thy ===== *)
theory SF_Primitives
  imports Prelude Rounding_Spec
begin

text \<open>
  The arithmetic primitives of SoftFloat.
\<close>

subsection \<open>Definitions\<close>

record uint128 =
  v0 :: u64
  v64 :: u64

record uint64_extra =
  ue_extra :: u64
  ue_v :: u64

definition softfloat_shortShiftRightJam64 :: "u64 \<Rightarrow> u8 \<Rightarrow> u64" where
  "softfloat_shortShiftRightJam64 a count =
     drop_bit (unat count) a OR of_bool (a AND (push_bit (unat count) 1 - 1) \<noteq> 0)"

definition softfloat_shiftRightJam32 :: "u32 \<Rightarrow> u64 \<Rightarrow> u32" where
  "softfloat_shiftRightJam32 a count =
     (if count < 31
      then drop_bit (unat count) a OR of_bool (push_bit (unat (- count AND 31)) a \<noteq> 0)
      else of_bool (a \<noteq> 0))"

definition softfloat_shiftRightJam64 :: "u64 \<Rightarrow> u64 \<Rightarrow> u64" where
  "softfloat_shiftRightJam64 a count =
     (if count < 63
      then drop_bit (unat count) a OR of_bool (push_bit (unat (- count AND 63)) a \<noteq> 0)
      else of_bool (a \<noteq> 0))"

definition softfloat_countLeadingZeros8 :: "u8 list" where
  "softfloat_countLeadingZeros8 =
     [8, 7, 6, 6, 5, 5, 5, 5, 4, 4, 4, 4, 4, 4, 4, 4,
      3, 3, 3, 3, 3, 3, 3, 3, 3, 3, 3, 3, 3, 3, 3, 3,
      2, 2, 2, 2, 2, 2, 2, 2, 2, 2, 2, 2, 2, 2, 2, 2,
      2, 2, 2, 2, 2, 2, 2, 2, 2, 2, 2, 2, 2, 2, 2, 2,
      1, 1, 1, 1, 1, 1, 1, 1, 1, 1, 1, 1, 1, 1, 1, 1,
      1, 1, 1, 1, 1, 1, 1, 1, 1, 1, 1, 1, 1, 1, 1, 1,
      1, 1, 1, 1, 1, 1, 1, 1, 1, 1, 1, 1, 1, 1, 1, 1,
      1, 1, 1, 1, 1, 1, 1, 1, 1, 1, 1, 1, 1, 1, 1, 1,
      0, 0, 0, 0, 0, 0, 0, 0, 0, 0, 0, 0, 0, 0, 0, 0,
      0, 0, 0, 0, 0, 0, 0, 0, 0, 0, 0, 0, 0, 0, 0, 0,
      0, 0, 0, 0, 0, 0, 0, 0, 0, 0, 0, 0, 0, 0, 0, 0,
      0, 0, 0, 0, 0, 0, 0, 0, 0, 0, 0, 0, 0, 0, 0, 0,
      0, 0, 0, 0, 0, 0, 0, 0, 0, 0, 0, 0, 0, 0, 0, 0,
      0, 0, 0, 0, 0, 0, 0, 0, 0, 0, 0, 0, 0, 0, 0, 0,
      0, 0, 0, 0, 0, 0, 0, 0, 0, 0, 0, 0, 0, 0, 0, 0,
      0, 0, 0, 0, 0, 0, 0, 0, 0, 0, 0, 0, 0, 0, 0, 0]"

definition softfloat_countLeadingZeros32 :: "u32 \<Rightarrow> u8" where
  "softfloat_countLeadingZeros32 a =
     (let (count, a) = if a < 0x10000 then (16, push_bit 16 a) else (0, a);
          (count, a) = if a < 0x1000000 then (count + 8, push_bit 8 a) else (count, a)
      in count + softfloat_countLeadingZeros8 ! unat (drop_bit 24 a))"

definition softfloat_countLeadingZeros64 :: "u64 \<Rightarrow> u8" where
  "softfloat_countLeadingZeros64 a =
     (let a32 = (ucast (drop_bit 32 a) :: u32);
          (count, a32) = if a32 = 0 then (32, ucast a) else (0, a32);
          (count, a32) = if a32 < 0x10000 then (count + 16, push_bit 16 a32) else (count, a32);
          (count, a32) = if a32 < 0x1000000 then (count + 8, push_bit 8 a32) else (count, a32)
      in count + softfloat_countLeadingZeros8 ! unat (drop_bit 24 a32))"

definition softfloat_add128 :: "u64 \<Rightarrow> u64 \<Rightarrow> u64 \<Rightarrow> u64 \<Rightarrow> uint128" where
  "softfloat_add128 a64 a0 b64 b0 =
     (let z0 = a0 + b0 in \<lparr>v0 = z0, v64 = a64 + b64 + of_bool (z0 < a0)\<rparr>)"

definition softfloat_sub128 :: "u64 \<Rightarrow> u64 \<Rightarrow> u64 \<Rightarrow> u64 \<Rightarrow> uint128" where
  "softfloat_sub128 a64 a0 b64 b0 =
     \<lparr>v0 = a0 - b0, v64 = a64 - b64 - of_bool (a0 < b0)\<rparr>"

definition softfloat_mul64To128 :: "u64 \<Rightarrow> u64 \<Rightarrow> uint128" where
  "softfloat_mul64To128 a b =
     (let a32 = (ucast (drop_bit 32 a) :: u32); a0 = (ucast a :: u32);
          b32 = (ucast (drop_bit 32 b) :: u32); b0 = (ucast b :: u32);
          z0 = (ucast a0 :: u64) * ucast b0;
          mid1 = (ucast a32 :: u64) * ucast b0;
          mid = mid1 + (ucast a0 :: u64) * ucast b32;
          z64 = (ucast a32 :: u64) * ucast b32;
          z64 = z64 + (push_bit 32 (of_bool (mid < mid1)) OR drop_bit 32 mid);
          mid = push_bit 32 mid;
          z0 = z0 + mid;
          z64 = z64 + of_bool (z0 < mid)
      in \<lparr>v0 = z0, v64 = z64\<rparr>)"

definition softfloat_shiftRightJam128 :: "u64 \<Rightarrow> u64 \<Rightarrow> u64 \<Rightarrow> uint128" where
  "softfloat_shiftRightJam128 a64 a0 count =
     (if count < 64
      then (let negCount = - count in
        \<lparr>v0 = push_bit (unat (negCount AND 63)) a64 OR drop_bit (unat count) a0
               OR of_bool (push_bit (unat (negCount AND 63)) a0 \<noteq> 0),
         v64 = drop_bit (unat count) a64\<rparr>)
      else
        \<lparr>v0 = (if count < 127
               then drop_bit (unat (count AND 63)) a64
                 OR of_bool ((a64 AND (push_bit (unat (count AND 63)) 1 - 1)) OR a0 \<noteq> 0)
               else of_bool (a64 OR a0 \<noteq> 0)),
         v64 = 0\<rparr>)"

definition softfloat_shiftRightJam64Extra :: "u64 \<Rightarrow> u64 \<Rightarrow> u64 \<Rightarrow> uint64_extra" where
  "softfloat_shiftRightJam64Extra a extra count =
     (let (zv, ze) =
        if count < 64 then (drop_bit (unat count) a, push_bit (unat (- count AND 63)) a)
        else (0, if count = 64 then a else of_bool (a \<noteq> 0))
      in \<lparr>ue_extra = ze OR of_bool (extra \<noteq> 0), ue_v = zv\<rparr>)"

definition softfloat_shortShiftRightJam64Extra :: "u64 \<Rightarrow> u64 \<Rightarrow> u8 \<Rightarrow> uint64_extra" where
  "softfloat_shortShiftRightJam64Extra a extra count =
     \<lparr>ue_extra = push_bit (unat (- count AND 63)) a OR of_bool (extra \<noteq> 0),
      ue_v = drop_bit (unat count) a\<rparr>"

subsection \<open>Shifts that keep a sticky bit\<close>

lemma push_bit_eq_0_iff:
  assumes "n \<le> LENGTH('a)"
  shows "push_bit n (w :: 'a::len word) = 0 \<longleftrightarrow> unat w mod 2 ^ (LENGTH('a) - n) = 0"
proof -
  have "(2::nat) ^ LENGTH('a) = 2 ^ (LENGTH('a) - n) * 2 ^ n"
    using assms by (simp flip: power_add)
  then have "unat (push_bit n w) = unat w mod 2 ^ (LENGTH('a) - n) * 2 ^ n"
    by (simp add: unat_push mod_mult_mult2)
  then show ?thesis by (simp add: unat_eq_zero [symmetric])
qed

lemma jam_sticky:
  "unat (drop_bit n w OR of_bool (unat w mod 2 ^ n \<noteq> 0)) = sticky (unat w) (2 ^ n)"
  by (simp add: unat_ops sticky_def)

lemma sticky_zero_iff: "0 < D \<Longrightarrow> sticky x D = 0 \<longleftrightarrow> x = 0"
proof
  assume "0 < D" "sticky x D = 0"
  then have "x div D = 0" "x mod D = 0" by (auto simp: sticky_def split: if_splits)
  then show "x = 0" by (metis add_0 div_mult_mod_eq mult_0)
qed (simp add: sticky_def)

lemma sticky_one: "0 < D \<Longrightarrow> x \<le> D \<Longrightarrow> sticky x D = of_bool (x \<noteq> 0)"
  by (cases "x = D") (auto simp: sticky_def)

lemma minus_and_31:
  "0 < unat (c :: u64) \<Longrightarrow> unat c < 32 \<Longrightarrow> unat (- c AND 31) = 32 - unat c"
  using unat_uminus_and_mask [of c 5] by (simp add: mask_eq_exp_minus_1)

lemma minus_and_63:
  "0 < unat (c :: u64) \<Longrightarrow> unat c < 64 \<Longrightarrow> unat (- c AND 63) = 64 - unat c"
  using unat_uminus_and_mask [of c 6] by (simp add: mask_eq_exp_minus_1)

lemma sticky_top_bit:
  "x < 2 * 2 ^ k \<Longrightarrow> sticky x (2 ^ k) = of_bool (x \<noteq> 0)"
proof -
  assume "x < 2 * 2 ^ k"
  then have "x div 2 ^ k < 2" by (simp add: less_mult_imp_div_less)
  then have "x div 2 ^ k = 0 \<or> x div 2 ^ k = 1" by linarith
  then show ?thesis by (auto simp: sticky_def div_eq_0_iff)
qed

lemma shiftRightJam32_sticky:
  assumes "0 < unat count"
  shows "unat (softfloat_shiftRightJam32 a count) = sticky (unat a) (2 ^ unat count)"
proof (cases "count < 31")
  case True
  then have c: "unat count < 31" by (simp add: word_less_nat_alt)
  then have "push_bit (unat (- count AND 31)) a \<noteq> 0 \<longleftrightarrow> unat a mod 2 ^ unat count \<noteq> 0"
    using assms by (simp add: minus_and_31 push_bit_eq_0_iff)
  then show ?thesis
    unfolding softfloat_shiftRightJam32_def using True by (simp only: if_True jam_sticky)
next
  case False
  then have c: "31 \<le> unat count" by (simp add: word_less_nat_alt)
  have "unat a < 2 * 2 ^ 31" using unsigned_less [of a] by simp
  also have "(2::nat) ^ 31 \<le> 2 ^ unat count" using c by (intro power_increasing) auto
  finally have "unat a < 2 * 2 ^ unat count" by simp
  then show ?thesis
    using False by (simp add: softfloat_shiftRightJam32_def sticky_top_bit unat_eq_0)
qed

lemma shiftRightJam64_sticky:
  assumes "0 < unat count"
  shows "unat (softfloat_shiftRightJam64 a count) = sticky (unat a) (2 ^ unat count)"
proof (cases "count < 63")
  case True
  then have c: "unat count < 63" by (simp add: word_less_nat_alt)
  then have "push_bit (unat (- count AND 63)) a \<noteq> 0 \<longleftrightarrow> unat a mod 2 ^ unat count \<noteq> 0"
    using assms by (simp add: minus_and_63 push_bit_eq_0_iff)
  then show ?thesis
    unfolding softfloat_shiftRightJam64_def using True by (simp only: if_True jam_sticky)
next
  case False
  then have c: "63 \<le> unat count" by (simp add: word_less_nat_alt)
  have "unat a < 2 * 2 ^ 63" using unsigned_less [of a] by simp
  also have "(2::nat) ^ 63 \<le> 2 ^ unat count" using c by (intro power_increasing) auto
  finally have "unat a < 2 * 2 ^ unat count" by simp
  then show ?thesis
    using False by (simp add: softfloat_shiftRightJam64_def sticky_top_bit unat_eq_0)
qed

lemma and_push_one_minus_one:
  "n < LENGTH('a) \<Longrightarrow> (w :: 'a::len word) AND (push_bit n 1 - 1) = take_bit n w"
  by (simp add: take_bit_eq_mask mask_eq_exp_minus_1)

lemma shortShiftRightJam64_sticky:
  assumes "unat count < 64"
  shows "unat (softfloat_shortShiftRightJam64 a count) = sticky (unat a) (2 ^ unat count)"
proof -
  have "a AND (push_bit (unat count) 1 - 1) \<noteq> 0 \<longleftrightarrow> unat a mod 2 ^ unat count \<noteq> 0"
    unfolding unat_take [symmetric] unat_eq_0
    using and_push_one_minus_one [of "unat count" a] assms by simp
  then show ?thesis unfolding softfloat_shortShiftRightJam64_def by (simp only: jam_sticky)
qed

text \<open>The contract the rounding routines rely on: a right shift that jams the bits shifted
  out.  A client that rounds off at least three bits cannot tell the shifted operand from the
  exact quotient.\<close>

locale jam_shift =
  fixes jam :: "'a::len word \<Rightarrow> 'b::len word \<Rightarrow> 'a word"
    and okay :: "'b word \<Rightarrow> bool"
  assumes jam_sticky_law: "okay c \<Longrightarrow> unat (jam a c) = sticky (unat a) (2 ^ unat c)"
begin

lemma result_preserved:
  assumes "okay c" "3 \<le> j"
  shows "ieee_result p w after m s (unat (jam a c)) (2 ^ j) =
    ieee_result p w after m s (unat a) (2 ^ unat c * 2 ^ j)"
  using assms by (simp add: jam_sticky_law ieee_result_sticky)

lemma jam_zero_iff: "okay c \<Longrightarrow> jam a c = 0 \<longleftrightarrow> a = 0"
proof -
  assume "okay c"
  then have "unat (jam a c) = 0 \<longleftrightarrow> unat a = 0"
    by (simp add: jam_sticky_law sticky_zero_iff)
  then show ?thesis by (simp add: unat_eq_0)
qed

lemma jam_jam:
  assumes "okay c" "okay d" "okay e" "unat e = unat c + unat d"
  shows "jam (jam a c) d = jam a e"
proof -
  have "unat (jam (jam a c) d) = unat (jam a e)"
    using assms by (simp add: jam_sticky_law sticky_sticky power_add)
  then show ?thesis by (rule unsigned_word_eqI)
qed

end

interpretation jam32: jam_shift softfloat_shiftRightJam32 "\<lambda>c. 0 < unat c"
  by unfold_locales (rule shiftRightJam32_sticky)

interpretation jam64: jam_shift softfloat_shiftRightJam64 "\<lambda>c. 0 < unat c"
  by unfold_locales (rule shiftRightJam64_sticky)

interpretation shortjam64: jam_shift softfloat_shortShiftRightJam64 "\<lambda>c. unat c < 64"
  by unfold_locales (rule shortShiftRightJam64_sticky)

subsection \<open>Counting leading zeros\<close>

lemma clz8_check:
  "list_all (\<lambda>i. 128 \<le> i * 2 ^ unat (softfloat_countLeadingZeros8 ! i)
     \<and> i * 2 ^ unat (softfloat_countLeadingZeros8 ! i) < 256
     \<and> unat (softfloat_countLeadingZeros8 ! i) < 8) [1..<256]"
  by code_simp

lemma clz8_table:
  assumes "0 < i" "i < 256"
  shows "128 \<le> i * 2 ^ unat (softfloat_countLeadingZeros8 ! i)"
    and "i * 2 ^ unat (softfloat_countLeadingZeros8 ! i) < 256"
    and "unat (softfloat_countLeadingZeros8 ! i) < 8"
  using clz8_check assms by (auto simp: list_all_iff)

lemma clz8_scale:
  assumes a: "2 ^ 24 \<le> a" "a < 2 ^ 32"
  defines "c \<equiv> unat (softfloat_countLeadingZeros8 ! (a div 2 ^ 24))"
  shows "2 ^ 31 \<le> a * 2 ^ c" and "a * 2 ^ c < 2 ^ 32" and "c < 8"
proof -
  define t where "t = a div 2 ^ 24"
  have t: "0 < t" "t < 256" using a by (simp_all add: t_def div_greater_zero_iff less_mult_imp_div_less)
  have c: "128 \<le> t * 2 ^ c" "t * 2 ^ c < 256" and c8: "c < 8"
    using clz8_table [OF t] by (simp_all add: c_def t_def)
  show "c < 8" by (rule c8)
  have lo: "t * 2 ^ 24 \<le> a" and hi: "a < Suc t * 2 ^ 24"
    unfolding t_def by (rule div_two_power_bounds, simp)+
  have "2 ^ 31 \<le> t * 2 ^ c * 2 ^ 24" using c(1) by simp
  also have "\<dots> \<le> a * 2 ^ c" using mult_le_mono1 [OF lo, of "2 ^ c"] by (simp add: ac_simps)
  finally show "2 ^ 31 \<le> a * 2 ^ c" .
  have "Suc t * 2 ^ c \<le> 256"
  proof -
    have "(256::nat) = 2 ^ (8 - c) * 2 ^ c" using c8 by (simp flip: power_add)
    with c(2) have "t < 2 ^ (8 - c)" by (metis mult_less_cancel2)
    then have "Suc t * 2 ^ c \<le> 2 ^ (8 - c) * 2 ^ c" by (intro mult_le_mono) auto
    then show ?thesis using c8 by (simp flip: power_add)
  qed
  have "a * 2 ^ c < Suc t * 2 ^ 24 * 2 ^ c" using hi by (intro mult_strict_right_mono) auto
  also have "\<dots> = Suc t * 2 ^ c * 2 ^ 24" by (simp only: ac_simps)
  also have "\<dots> \<le> 256 * 2 ^ 24" using \<open>Suc t * 2 ^ c \<le> 256\<close> by (intro mult_le_mono) auto
  finally show "a * 2 ^ c < 2 ^ 32" by simp
qed

lemma countLeadingZeros32_bounds:
  assumes "a \<noteq> 0"
  shows "2 ^ 31 \<le> unat a * 2 ^ unat (softfloat_countLeadingZeros32 a)"
    and "unat a * 2 ^ unat (softfloat_countLeadingZeros32 a) < 2 ^ 32"
    and "unat (softfloat_countLeadingZeros32 a) < 32"
proof -
  have a0: "0 < unat a" using assms by (simp add: unat_gt_0)
  define k :: nat where "k = (if unat a < 2 ^ 16 then 16 else 0)"
  define b where "b = push_bit k a"
  define l :: nat where "l = (if unat b < 2 ^ 24 then 8 else 0)"
  define d where "d = push_bit l b"
  have b: "unat b = unat a * 2 ^ k" "2 ^ 16 \<le> unat b"
    using a0 by (auto simp: b_def k_def unat_push_small)
  have d: "unat d = unat b * 2 ^ l" "2 ^ 24 \<le> unat d"
    using b by (auto simp: d_def l_def unat_push_small)
  have lt: "unat d < 2 ^ 32" by (rule unat_less_32)
  let ?c = "softfloat_countLeadingZeros8 ! (unat d div 2 ^ 24)"
  note s = clz8_scale [OF d(2) lt]
  have code: "softfloat_countLeadingZeros32 a = of_nat (k + l) + ?c"
    by (simp add: softfloat_countLeadingZeros32_def Let_def k_def l_def b_def d_def
        word_less_nat_alt unat_drop)
  have kl: "k + l \<le> 24" by (simp add: k_def l_def)
  then have u: "unat (softfloat_countLeadingZeros32 a) = k + l + unat ?c"
    unfolding code using s(3) by (subst unat_add_small) (simp_all add: unat_of_nat del: of_nat_add)
  have e: "unat a * 2 ^ (k + l + unat ?c) = unat d * 2 ^ unat ?c"
    by (simp add: b d power_add ac_simps)
  show "2 ^ 31 \<le> unat a * 2 ^ unat (softfloat_countLeadingZeros32 a)"
    and "unat a * 2 ^ unat (softfloat_countLeadingZeros32 a) < 2 ^ 32"
    unfolding u e by (rule s)+
  show "unat (softfloat_countLeadingZeros32 a) < 32" unfolding u using kl s(3) by linarith
qed

lemma countLeadingZeros32_zero: "softfloat_countLeadingZeros32 0 = 32"
  by code_simp

lemma countLeadingZeros64_halves:
  "softfloat_countLeadingZeros64 a =
     (if unat a < 2 ^ 32 then 32 + softfloat_countLeadingZeros32 (ucast a)
      else softfloat_countLeadingZeros32 (ucast (drop_bit 32 a)))"
proof -
  have "(ucast (drop_bit 32 a) :: u32) = 0 \<longleftrightarrow> unat a < 2 ^ 32"
    unfolding unat_eq_0 [symmetric] unat_high_32 by (simp add: div_eq_0_iff)
  then show ?thesis
    by (simp add: softfloat_countLeadingZeros64_def softfloat_countLeadingZeros32_def Let_def)
qed

lemma countLeadingZeros64_bounds:
  assumes "a \<noteq> 0"
  shows "2 ^ 63 \<le> unat a * 2 ^ unat (softfloat_countLeadingZeros64 a)"
    and "unat a * 2 ^ unat (softfloat_countLeadingZeros64 a) < 2 ^ 64"
    and "unat (softfloat_countLeadingZeros64 a) < 64"
proof -
  have "2 ^ 63 \<le> unat a * 2 ^ unat (softfloat_countLeadingZeros64 a) \<and>
      unat a * 2 ^ unat (softfloat_countLeadingZeros64 a) < 2 ^ 64 \<and>
      unat (softfloat_countLeadingZeros64 a) < 64"
  proof (cases "unat a < 2 ^ 32")
    case True
    define b where "b = (ucast a :: u32)"
    have b: "unat b = unat a" using True by (simp add: b_def unat_ucast)
    then have "b \<noteq> 0" using assms by (auto simp: unat_eq_0)
    note s = countLeadingZeros32_bounds [OF this]
    have "unat (softfloat_countLeadingZeros64 a) = 32 + unat (softfloat_countLeadingZeros32 b)"
      using True s(3) by (simp add: countLeadingZeros64_halves b_def unat_add_small)
    then show ?thesis using s by (simp add: power_add b)
  next
    case False
    define b where "b = (ucast (drop_bit 32 a) :: u32)"
    have b: "unat b = unat a div 2 ^ 32" by (simp only: b_def unat_high_32)
    then have "b \<noteq> 0" using False by (auto simp: div_eq_0_iff)
    note s = countLeadingZeros32_bounds [OF this]
    let ?c = "unat (softfloat_countLeadingZeros32 b)"
    have c: "unat (softfloat_countLeadingZeros64 a) = ?c"
      using False by (simp add: countLeadingZeros64_halves b_def)
    have "unat b * 2 ^ 32 \<le> unat a" "unat a < Suc (unat b) * 2 ^ 32"
      unfolding b by (rule div_two_power_bounds, simp)+
    then have m: "unat b * 2 ^ 32 * 2 ^ ?c \<le> unat a * 2 ^ ?c" "unat a * 2 ^ ?c < Suc (unat b) * 2 ^ 32 * 2 ^ ?c"
      by (intro mult_le_mono mult_strict_right_mono; simp)+
    have "2 ^ 63 = 2 ^ 31 * (2 ^ 32 :: nat)" by simp
    also have "\<dots> \<le> unat b * 2 ^ ?c * 2 ^ 32" using s(1) by (rule mult_le_mono1)
    also have "\<dots> = unat b * 2 ^ 32 * 2 ^ ?c" by (simp only: ac_simps)
    also note m(1)
    finally have "2 ^ 63 \<le> unat a * 2 ^ ?c" .
    moreover have "Suc (unat b) * 2 ^ ?c \<le> 2 ^ 32"
    proof -
      have e: "(2::nat) ^ 32 = 2 ^ (32 - ?c) * 2 ^ ?c" using s(3) by (simp flip: power_add)
      with s(2) have "unat b < 2 ^ (32 - ?c)" by (metis mult_less_cancel2)
      then show ?thesis unfolding e by (intro mult_le_mono) auto
    qed
    ultimately have "Suc (unat b) * 2 ^ ?c * 2 ^ 32 \<le> 2 ^ 32 * 2 ^ 32" by (intro mult_le_mono1)
    moreover have "Suc (unat b) * 2 ^ ?c * 2 ^ 32 = Suc (unat b) * 2 ^ 32 * 2 ^ ?c"
      by (simp only: ac_simps)
    ultimately have "Suc (unat b) * 2 ^ 32 * 2 ^ ?c \<le> 2 ^ 32 * 2 ^ 32" by (simp only:)
    from less_le_trans [OF m(2) this] have "unat a * 2 ^ ?c < 2 ^ 64" by simp
    with \<open>2 ^ 63 \<le> unat a * 2 ^ ?c\<close> show ?thesis using c s(3) by simp
  qed
  then show "2 ^ 63 \<le> unat a * 2 ^ unat (softfloat_countLeadingZeros64 a)"
    and "unat a * 2 ^ unat (softfloat_countLeadingZeros64 a) < 2 ^ 64"
    and "unat (softfloat_countLeadingZeros64 a) < 64" by simp_all
qed

subsection \<open>Double-word arithmetic\<close>

definition val128 :: "uint128 \<Rightarrow> nat" where
  "val128 z = unat (v64 z) * 2 ^ 64 + unat (v0 z)"

lemma val128_less: "val128 z < 2 ^ 128"
  using unat_less_64 [of "v64 z"] unat_less_64 [of "v0 z"] by (simp add: val128_def)

lemma add128_val:
  "val128 (softfloat_add128 a64 a0 b64 b0) =
     (unat a64 * 2 ^ 64 + unat a0 + (unat b64 * 2 ^ 64 + unat b0)) mod 2 ^ 128"
proof -
  define c :: nat where "c = of_bool (a0 + b0 < a0)"
  define h where "h = unat (a64 + b64 + of_bool (a0 + b0 < a0))"
  define t where "t = unat a64 + unat b64 + c"
  have l: "unat (a0 + b0) + c * 2 ^ 64 = unat a0 + unat b0"
    using unat_add_carry [of a0 b0] by (simp add: c_def)
  have h: "h = t mod 2 ^ 64"
    by (simp add: h_def t_def c_def unat_word_ariths mod_add_left_eq)
  have "unat a64 * 2 ^ 64 + unat a0 + (unat b64 * 2 ^ 64 + unat b0) = unat (a0 + b0) + 2 ^ 64 * t"
    using l by (simp add: t_def)
  also have "\<dots> mod (2 ^ 64 * 2 ^ 64) = 2 ^ 64 * (t mod 2 ^ 64) + unat (a0 + b0)"
    using unat_less_64 [of "a0 + b0"] by (simp only: mod_mult2_eq) simp
  finally show ?thesis
    unfolding val128_def softfloat_add128_def Let_def uint128.simps h_def [symmetric] h by simp
qed

lemma sub128_val:
  assumes "unat b64 * 2 ^ 64 + unat b0 \<le> unat a64 * 2 ^ 64 + unat a0"
  shows "val128 (softfloat_sub128 a64 a0 b64 b0) =
     unat a64 * 2 ^ 64 + unat a0 - (unat b64 * 2 ^ 64 + unat b0)"
proof -
  define c :: nat where "c = of_bool (a0 < b0)"
  have l: "unat (a0 - b0) + unat b0 = unat a0 + c * 2 ^ 64"
    using unat_sub_borrow [of a0 b0] by (simp add: c_def)
  have le: "unat b64 + c \<le> unat a64"
    using assms unat_less_64 [of a0] unat_less_64 [of b0] by (cases "a0 < b0") (simp_all add: c_def word_less_nat_alt)
  have "unat (b64 + of_bool (a0 < b0)) = unat b64 + c"
    using le unat_less_64 [of a64] by (subst unat_add_small) (simp_all add: c_def)
  moreover have "a64 - b64 - of_bool (a0 < b0) = a64 - (b64 + of_bool (a0 < b0))" by simp
  ultimately have "unat (a64 - b64 - of_bool (a0 < b0)) = unat a64 - (unat b64 + c)"
    using le by (simp only: unat_sub_small word_le_nat_alt)
  then show ?thesis
    using l le by (simp add: val128_def softfloat_sub128_def)
qed

lemma unat_ucast_mult:
  "unat ((ucast (x :: u32) :: u64) * ucast (y :: u32)) = unat x * unat y"
proof -
  have "unat x * unat y < 2 ^ 32 * 2 ^ 32"
    by (intro mult_strict_mono unat_less_32) simp_all
  then show ?thesis by (subst unat_mult_small) simp_all
qed

lemma mul_recombine:
  fixes X YZ W c d mid mh ml r :: nat
  assumes "mid + c * 2 ^ 64 = YZ" and "r + d * 2 ^ 64 = W + ml * 2 ^ 32" and "mh * 2 ^ 32 + ml = mid"
  shows "(X + (c * 2 ^ 32 + mh) + d) * 2 ^ 64 + r = X * 2 ^ 64 + YZ * 2 ^ 32 + W"
  using assms by simp

lemma mul64To128_val:
  "val128 (softfloat_mul64To128 a b) = unat a * unat b"
proof -
  define ah al bh bl where "ah = (ucast (drop_bit 32 a) :: u32)" and "al = (ucast a :: u32)"
    and "bh = (ucast (drop_bit 32 b) :: u32)" and "bl = (ucast b :: u32)"
  define X Y Z W where "X = unat ah * unat bh" and "Y = unat ah * unat bl"
    and "Z = unat al * unat bh" and "W = unat al * unat bl"
  define mid1 z0 z1 where "mid1 = (ucast ah :: u64) * ucast bl"
    and "z0 = (ucast al :: u64) * ucast bl" and "z1 = (ucast al :: u64) * ucast bh"
  define mid where "mid = mid1 + z1"
  define r0 where "r0 = z0 + push_bit 32 mid"
  define c d :: nat where "c = of_bool (mid < mid1)" and "d = of_bool (r0 < push_bit 32 mid)"
  have a: "unat a = unat ah * 2 ^ 32 + unat al" and b: "unat b = unat bh * 2 ^ 32 + unat bl"
    unfolding ah_def bh_def unat_high_32 unfolding al_def bl_def unat_low_32
    by (rule div_mult_mod_eq [symmetric])+
  have ab: "unat a * unat b = X * 2 ^ 64 + (Y + Z) * 2 ^ 32 + W"
    unfolding a b X_def Y_def Z_def W_def by (simp add: algebra_simps)
  have mz: "unat mid1 = Y" "unat z1 = Z" "unat z0 = W"
    unfolding mid1_def z1_def z0_def Y_def Z_def W_def by (rule unat_ucast_mult)+
  have m: "unat mid + c * 2 ^ 64 = Y + Z"
    using unat_add_carry [of mid1 z1] mz unfolding mid_def c_def by simp
  have p: "unat (push_bit 32 mid) = unat mid mod 2 ^ 32 * 2 ^ 32"
    using mod_mult_mult2 [of "unat mid" "2 ^ 32" "2 ^ 32"] by (simp add: unat_push)
  have r: "unat r0 + d * 2 ^ 64 = W + unat mid mod 2 ^ 32 * 2 ^ 32"
    using unat_add_carry [of "push_bit 32 mid" z0] mz(3) p unfolding r0_def d_def
    by (simp only: add.commute [of z0]) simp
  define S where "S = X + (c * 2 ^ 32 + unat mid div 2 ^ 32) + d"
  have mid: "unat mid div 2 ^ 32 * 2 ^ 32 + unat mid mod 2 ^ 32 = unat mid" by (rule div_mult_mod_eq)
  have S: "S * 2 ^ 64 + unat r0 = unat a * unat b"
    unfolding S_def ab by (rule mul_recombine [OF m r mid])
  have "unat a * unat b < 2 ^ 64 * 2 ^ 64" by (intro mult_strict_mono unat_less_64) simp_all
  with S have S64: "S < 2 ^ 64" by simp
  have "unat mid div 2 ^ 32 < 2 ^ 32"
    using unat_less_64 [of mid] by (simp add: less_mult_imp_div_less)
  then have o: "unat (push_bit 32 (of_bool (mid < mid1)) OR drop_bit 32 mid) = c * 2 ^ 32 + unat mid div 2 ^ 32"
    by (subst unat_or_disjoint [where k = 32]) (simp_all add: unat_drop c_def unat_push)
  have "unat ((ucast ah :: u64) * ucast bh + (push_bit 32 (of_bool (mid < mid1)) OR drop_bit 32 mid)
      + of_bool (r0 < push_bit 32 mid)) = S"
    using S64 unfolding S_def X_def
    by (subst unat_add_small; subst unat_add_small) (simp_all add: o d_def unat_ucast_mult)
  then show ?thesis
    unfolding S [symmetric]
    by (simp add: val128_def softfloat_mul64To128_def Let_def ah_def al_def bh_def bl_def
        mid_def mid1_def z1_def z0_def r0_def)
qed

subsection \<open>Properties\<close>

text \<open>C15.  The shift that jams lost bits into the last bit returns the truncated quotient with its
  last bit forced to one exactly when the quotient is inexact, for every nonzero shift count,
  including counts beyond the width.\<close>

theorem shiftRightJam_sticky:
  fixes a :: u32 and b c :: u64
  assumes "0 < unat c"
  shows "unat (softfloat_shiftRightJam32 a c) = sticky (unat a) (2 ^ unat c) \<and>
    unat (softfloat_shiftRightJam64 b c) = sticky (unat b) (2 ^ unat c)"
  using assms by (simp add: shiftRightJam32_sticky shiftRightJam64_sticky)

theorem shiftRightJam_sticky_witness:
  "unat (softfloat_shiftRightJam32 5 1) = sticky (unat (5 :: u32)) (2 ^ unat (1 :: u64)) \<and>
   unat (softfloat_shiftRightJam64 6 1) = sticky (unat (6 :: u64)) (2 ^ unat (1 :: u64))"
  by (rule shiftRightJam_sticky) simp

text \<open>The leading-zero counts normalise: a nonzero word shifted left by its count has its top
  bit set and does not overflow, and zero has the full width as its count.\<close>

theorem countLeadingZeros_normalises:
  fixes a :: u32 and b :: u64
  assumes "a \<noteq> 0" "b \<noteq> 0"
  shows "2 ^ 31 \<le> unat a * 2 ^ unat (softfloat_countLeadingZeros32 a) \<and>
    unat a * 2 ^ unat (softfloat_countLeadingZeros32 a) < 2 ^ 32 \<and>
    2 ^ 63 \<le> unat b * 2 ^ unat (softfloat_countLeadingZeros64 b) \<and>
    unat b * 2 ^ unat (softfloat_countLeadingZeros64 b) < 2 ^ 64 \<and>
    softfloat_countLeadingZeros32 0 = 32 \<and> softfloat_countLeadingZeros64 0 = 64"
  using countLeadingZeros32_bounds [OF assms(1)] countLeadingZeros64_bounds [OF assms(2)]
  by (simp add: countLeadingZeros32_zero countLeadingZeros64_halves)

theorem countLeadingZeros_normalises_witness:
  "2 ^ 31 \<le> unat (9 :: u32) * 2 ^ unat (softfloat_countLeadingZeros32 9) \<and>
    unat (9 :: u32) * 2 ^ unat (softfloat_countLeadingZeros32 9) < 2 ^ 32 \<and>
    2 ^ 63 \<le> unat (7 :: u64) * 2 ^ unat (softfloat_countLeadingZeros64 7) \<and>
    unat (7 :: u64) * 2 ^ unat (softfloat_countLeadingZeros64 7) < 2 ^ 64 \<and>
    softfloat_countLeadingZeros32 0 = 32 \<and> softfloat_countLeadingZeros64 0 = 64"
  by (rule countLeadingZeros_normalises) simp_all

text \<open>The product of two 64-bit words assembled from four 32-bit products is exact, and the
  128-bit addition is exact modulo \<open>2 ^ 128\<close>.\<close>

theorem double_word_arithmetic:
  "val128 (softfloat_mul64To128 a b) = unat a * unat b \<and>
   val128 (softfloat_add128 a b c d) =
     (unat a * 2 ^ 64 + unat b + (unat c * 2 ^ 64 + unat d)) mod 2 ^ 128"
  by (simp only: mul64To128_val add128_val)

end
