(* ===== verification/SF_Format.thy ===== *)
theory SF_Format
  imports SF_Primitives
begin

text \<open>
  The data of SoftFloat: the global modes and flags (\<open>softfloat_state.c\<close>) as a record that
  every operation takes and returns, the field macros of \<open>internals.h\<close>, the RISC-V NaN rules
  of \<open>specialize.h\<close>, normalisation of subnormal significands and classification.  Bit
  patterns that the code keeps in a \<open>uint_fast32_t\<close> or \<open>uint_fast64_t\<close> are 64-bit words;
  exponents, which the code keeps in signed variables, are integers.
\<close>

subsection \<open>Modes and flags\<close>

record sf_state =
  softfloat_roundingMode :: u8
  softfloat_detectTininess :: u8
  softfloat_exceptionFlags :: u8

definition softfloat_round_near_even :: u8 where "softfloat_round_near_even = 0"
definition softfloat_round_minMag :: u8 where "softfloat_round_minMag = 1"
definition softfloat_round_min :: u8 where "softfloat_round_min = 2"
definition softfloat_round_max :: u8 where "softfloat_round_max = 3"
definition softfloat_round_near_maxMag :: u8 where "softfloat_round_near_maxMag = 4"

definition softfloat_tininess_beforeRounding :: u8 where "softfloat_tininess_beforeRounding = 0"
definition softfloat_tininess_afterRounding :: u8 where "softfloat_tininess_afterRounding = 1"

definition softfloat_flag_inexact :: u8 where "softfloat_flag_inexact = 1"
definition softfloat_flag_underflow :: u8 where "softfloat_flag_underflow = 2"
definition softfloat_flag_overflow :: u8 where "softfloat_flag_overflow = 4"
definition softfloat_flag_infinite :: u8 where "softfloat_flag_infinite = 8"
definition softfloat_flag_invalid :: u8 where "softfloat_flag_invalid = 16"

lemmas softfloat_consts =
  softfloat_round_near_even_def softfloat_round_minMag_def softfloat_round_min_def
  softfloat_round_max_def softfloat_round_near_maxMag_def
  softfloat_tininess_beforeRounding_def softfloat_tininess_afterRounding_def
  softfloat_flag_inexact_def softfloat_flag_underflow_def softfloat_flag_overflow_def
  softfloat_flag_infinite_def softfloat_flag_invalid_def

definition softfloat_init_state :: sf_state where
  "softfloat_init_state =
     \<lparr>softfloat_roundingMode = softfloat_round_near_even,
      softfloat_detectTininess = softfloat_tininess_afterRounding,
      softfloat_exceptionFlags = 0\<rparr>"

definition softfloat_raiseFlags :: "u8 \<Rightarrow> sf_state \<Rightarrow> sf_state" where
  "softfloat_raiseFlags flags st =
     st\<lparr>softfloat_exceptionFlags := softfloat_exceptionFlags st OR flags\<rparr>"

subsection \<open>The 32-bit format\<close>

definition signF32UI :: "u64 \<Rightarrow> bool" where
  "signF32UI a = (drop_bit 31 (ucast a :: u32) \<noteq> 0)"

definition expF32UI :: "u64 \<Rightarrow> int" where
  "expF32UI a = uint (drop_bit 23 a AND 0xFF)"

definition fracF32UI :: "u64 \<Rightarrow> u64" where
  "fracF32UI a = a AND 0x007FFFFF"

definition packToF32UI :: "bool \<Rightarrow> int \<Rightarrow> u64 \<Rightarrow> u64" where
  "packToF32UI sign exp sig =
     ucast (push_bit 31 (of_bool sign) + push_bit 23 (word_of_int exp) :: u32) + sig"

definition isNaNF32UI :: "u64 \<Rightarrow> bool" where
  "isNaNF32UI a = (a AND 0x7F800000 = 0x7F800000 \<and> a AND 0x007FFFFF \<noteq> 0)"

definition defaultNaNF32UI :: u64 where
  "defaultNaNF32UI = 0x7FC00000"

definition softfloat_isSigNaNF32UI :: "u64 \<Rightarrow> bool" where
  "softfloat_isSigNaNF32UI uiA =
     (uiA AND 0x7FC00000 = 0x7F800000 \<and> uiA AND 0x003FFFFF \<noteq> 0)"

definition softfloat_f32UIToCommonNaN :: "u64 \<Rightarrow> sf_state \<Rightarrow> sf_state" where
  "softfloat_f32UIToCommonNaN uiA st =
     (if uiA AND 0x00400000 = 0 then softfloat_raiseFlags softfloat_flag_invalid st else st)"

definition softfloat_commonNaNToF32UI :: u64 where
  "softfloat_commonNaNToF32UI = defaultNaNF32UI"

definition softfloat_propagateNaNF32UI :: "u64 \<Rightarrow> u64 \<Rightarrow> sf_state \<Rightarrow> u64 \<times> sf_state" where
  "softfloat_propagateNaNF32UI uiA uiB st =
     (defaultNaNF32UI,
      if softfloat_isSigNaNF32UI uiA \<or> softfloat_isSigNaNF32UI uiB
      then softfloat_raiseFlags softfloat_flag_invalid st else st)"

definition softfloat_normSubnormalF32Sig :: "u64 \<Rightarrow> int \<times> u64" where
  "softfloat_normSubnormalF32Sig sig =
     (let shiftCount = uint (softfloat_countLeadingZeros32 (ucast sig)) - 8
      in (1 - shiftCount, push_bit (nat shiftCount) sig))"

definition f32_isSignalingNaN :: "u32 \<Rightarrow> bool" where
  "f32_isSignalingNaN a = softfloat_isSigNaNF32UI (ucast a)"

definition f32_classify :: "u32 \<Rightarrow> u64" where
  "f32_classify a =
     (let uiA = (ucast a :: u64);
          infOrNaN = expF32UI uiA = 0xFF;
          subnormalOrZero = expF32UI uiA = 0;
          sign = signF32UI uiA
      in push_bit 0 (of_bool (sign \<and> infOrNaN \<and> fracF32UI uiA = 0)) OR
         push_bit 1 (of_bool (sign \<and> \<not> infOrNaN \<and> \<not> subnormalOrZero)) OR
         push_bit 2 (of_bool (sign \<and> subnormalOrZero \<and> fracF32UI uiA \<noteq> 0)) OR
         push_bit 3 (of_bool (sign \<and> subnormalOrZero \<and> fracF32UI uiA = 0)) OR
         push_bit 7 (of_bool (\<not> sign \<and> infOrNaN \<and> fracF32UI uiA = 0)) OR
         push_bit 6 (of_bool (\<not> sign \<and> \<not> infOrNaN \<and> \<not> subnormalOrZero)) OR
         push_bit 5 (of_bool (\<not> sign \<and> subnormalOrZero \<and> fracF32UI uiA \<noteq> 0)) OR
         push_bit 4 (of_bool (\<not> sign \<and> subnormalOrZero \<and> fracF32UI uiA = 0)) OR
         push_bit 8 (of_bool (isNaNF32UI uiA \<and> softfloat_isSigNaNF32UI uiA)) OR
         push_bit 9 (of_bool (isNaNF32UI uiA \<and> \<not> softfloat_isSigNaNF32UI uiA)))"

subsection \<open>The 64-bit format\<close>

definition signF64UI :: "u64 \<Rightarrow> bool" where
  "signF64UI a = (drop_bit 63 (ucast a :: u64) \<noteq> 0)"

definition expF64UI :: "u64 \<Rightarrow> int" where
  "expF64UI a = uint (drop_bit 52 a AND 0x7FF)"

definition fracF64UI :: "u64 \<Rightarrow> u64" where
  "fracF64UI a = a AND 0x000FFFFFFFFFFFFF"

definition packToF64UI :: "bool \<Rightarrow> int \<Rightarrow> u64 \<Rightarrow> u64" where
  "packToF64UI sign exp sig =
     push_bit 63 (of_bool sign) + push_bit 52 (word_of_int exp) + sig"

definition isNaNF64UI :: "u64 \<Rightarrow> bool" where
  "isNaNF64UI a = (a AND 0x7FF0000000000000 = 0x7FF0000000000000 \<and> a AND 0x000FFFFFFFFFFFFF \<noteq> 0)"

definition defaultNaNF64UI :: u64 where
  "defaultNaNF64UI = 0x7FF8000000000000"

definition softfloat_isSigNaNF64UI :: "u64 \<Rightarrow> bool" where
  "softfloat_isSigNaNF64UI uiA =
     (uiA AND 0x7FF8000000000000 = 0x7FF0000000000000 \<and> uiA AND 0x0007FFFFFFFFFFFF \<noteq> 0)"

definition softfloat_f64UIToCommonNaN :: "u64 \<Rightarrow> sf_state \<Rightarrow> sf_state" where
  "softfloat_f64UIToCommonNaN uiA st =
     (if uiA AND 0x0008000000000000 = 0 then softfloat_raiseFlags softfloat_flag_invalid st else st)"

definition softfloat_commonNaNToF64UI :: u64 where
  "softfloat_commonNaNToF64UI = defaultNaNF64UI"

definition softfloat_propagateNaNF64UI :: "u64 \<Rightarrow> u64 \<Rightarrow> sf_state \<Rightarrow> u64 \<times> sf_state" where
  "softfloat_propagateNaNF64UI uiA uiB st =
     (defaultNaNF64UI,
      if softfloat_isSigNaNF64UI uiA \<or> softfloat_isSigNaNF64UI uiB
      then softfloat_raiseFlags softfloat_flag_invalid st else st)"

definition softfloat_normSubnormalF64Sig :: "u64 \<Rightarrow> int \<times> u64" where
  "softfloat_normSubnormalF64Sig sig =
     (let shiftCount = uint (softfloat_countLeadingZeros64 sig) - 11
      in (1 - shiftCount, push_bit (nat shiftCount) sig))"

definition f64_isSignalingNaN :: "u64 \<Rightarrow> bool" where
  "f64_isSignalingNaN a = softfloat_isSigNaNF64UI (ucast a)"

definition f64_classify :: "u64 \<Rightarrow> u64" where
  "f64_classify a =
     (let uiA = (ucast a :: u64);
          infOrNaN = expF64UI uiA = 0x7FF;
          subnormalOrZero = expF64UI uiA = 0;
          sign = signF64UI uiA
      in push_bit 0 (of_bool (sign \<and> infOrNaN \<and> fracF64UI uiA = 0)) OR
         push_bit 1 (of_bool (sign \<and> \<not> infOrNaN \<and> \<not> subnormalOrZero)) OR
         push_bit 2 (of_bool (sign \<and> subnormalOrZero \<and> fracF64UI uiA \<noteq> 0)) OR
         push_bit 3 (of_bool (sign \<and> subnormalOrZero \<and> fracF64UI uiA = 0)) OR
         push_bit 7 (of_bool (\<not> sign \<and> infOrNaN \<and> fracF64UI uiA = 0)) OR
         push_bit 6 (of_bool (\<not> sign \<and> \<not> infOrNaN \<and> \<not> subnormalOrZero)) OR
         push_bit 5 (of_bool (\<not> sign \<and> subnormalOrZero \<and> fracF64UI uiA \<noteq> 0)) OR
         push_bit 4 (of_bool (\<not> sign \<and> subnormalOrZero \<and> fracF64UI uiA = 0)) OR
         push_bit 8 (of_bool (isNaNF64UI uiA \<and> softfloat_isSigNaNF64UI uiA)) OR
         push_bit 9 (of_bool (isNaNF64UI uiA \<and> \<not> softfloat_isSigNaNF64UI uiA)))"

subsection \<open>What a bit pattern denotes\<close>

text \<open>A pattern of a format with \<open>p\<close> significand bits and \<open>w\<close> exponent bits, as a natural
  number.  Magnitudes are counted in units of the least positive number of the format, so that
  every finite magnitude is a natural number; infinity gets the magnitude that the next binade
  would start with, which keeps the order.\<close>

definition fp_neg :: "nat \<Rightarrow> nat \<Rightarrow> nat \<Rightarrow> bool" where
  "fp_neg p w n \<longleftrightarrow> 2 ^ (w + p - 1) \<le> n"

definition fp_mag :: "nat \<Rightarrow> nat \<Rightarrow> nat \<Rightarrow> nat" where
  "fp_mag p w n = fdec p (n mod 2 ^ (w + p - 1))"

definition fp_val :: "nat \<Rightarrow> nat \<Rightarrow> nat \<Rightarrow> int" where
  "fp_val p w n = (if fp_neg p w n then - int (fp_mag p w n) else int (fp_mag p w n))"

definition fp_finite :: "nat \<Rightarrow> nat \<Rightarrow> nat \<Rightarrow> bool" where
  "fp_finite p w n \<longleftrightarrow> n mod 2 ^ (w + p - 1) < inf_bits p w"

definition fp_inf :: "nat \<Rightarrow> nat \<Rightarrow> nat \<Rightarrow> bool" where
  "fp_inf p w n \<longleftrightarrow> n mod 2 ^ (w + p - 1) = inf_bits p w"

definition fp_nan :: "nat \<Rightarrow> nat \<Rightarrow> nat \<Rightarrow> bool" where
  "fp_nan p w n \<longleftrightarrow> inf_bits p w < n mod 2 ^ (w + p - 1)"

definition fp_snan :: "nat \<Rightarrow> nat \<Rightarrow> nat \<Rightarrow> bool" where
  "fp_snan p w n \<longleftrightarrow> fp_nan p w n \<and> n mod 2 ^ (p - 1) < 2 ^ (p - 2)"

lemmas fp_class_defs = fp_finite_def fp_inf_def fp_nan_def

definition rmode_of :: "u8 \<Rightarrow> rmode" where
  "rmode_of m =
     (if m = softfloat_round_near_even then RNE
      else if m = softfloat_round_near_maxMag then RMM
      else if m = softfloat_round_min then RDN
      else if m = softfloat_round_max then RUP
      else RTZ)"

definition flag_bits :: "bool \<Rightarrow> bool \<Rightarrow> bool \<Rightarrow> u8" where
  "flag_bits ov uf nx =
     (if ov then softfloat_flag_overflow else 0) OR
     (if uf then softfloat_flag_underflow else 0) OR
     (if nx then softfloat_flag_inexact else 0)"

text \<open>The reference result of an operation whose exact value is \<open>\<plusminus> N / D\<close>: the correctly rounded
  pattern under the modes of the state, and the state with the flags of the rounding raised.\<close>

definition fp_result ::
  "nat \<Rightarrow> nat \<Rightarrow> sf_state \<Rightarrow> bool \<Rightarrow> nat \<Rightarrow> nat \<Rightarrow> 'a::len word \<times> sf_state" where
  "fp_result p w st s N D =
     (case ieee_result p w (softfloat_detectTininess st \<noteq> softfloat_tininess_beforeRounding)
             (rmode_of (softfloat_roundingMode st)) s N D of
        (b, ov, uf, nx) \<Rightarrow>
          (of_nat (of_bool s * 2 ^ (w + p - 1) + b), softfloat_raiseFlags (flag_bits ov uf nx) st))"

lemma raiseFlags_simps [simp]:
  "softfloat_roundingMode (softfloat_raiseFlags f st) = softfloat_roundingMode st"
  "softfloat_detectTininess (softfloat_raiseFlags f st) = softfloat_detectTininess st"
  "softfloat_exceptionFlags (softfloat_raiseFlags f st) = softfloat_exceptionFlags st OR f"
  "softfloat_raiseFlags 0 st = st"
  "softfloat_raiseFlags f (softfloat_raiseFlags g st) = softfloat_raiseFlags (g OR f) st"
  by (simp_all add: softfloat_raiseFlags_def or.assoc)

subsection \<open>The interface of a format\<close>

text \<open>What the operations rely on in the field macros of one format.\<close>

locale fp_format =
  fixes p w :: nat
    and signUI :: "u64 \<Rightarrow> bool" and expUI :: "u64 \<Rightarrow> int" and fracUI :: "u64 \<Rightarrow> u64"
    and isNaNUI isSigNaNUI :: "u64 \<Rightarrow> bool"
  assumes p2: "2 \<le> p" and w2: "2 \<le> w"
    and sign_law: "unat a < 2 ^ (w + p) \<Longrightarrow> signUI a \<longleftrightarrow> 2 ^ (w + p - 1) \<le> unat a"
    and exp_law: "expUI a = int (unat a div 2 ^ (p - 1) mod 2 ^ w)"
    and frac_law: "unat (fracUI a) = unat a mod 2 ^ (p - 1)"
    and nan_law: "isNaNUI a \<longleftrightarrow> inf_bits p w < unat a mod 2 ^ (w + p - 1)"
    and snan_law: "isSigNaNUI a \<longleftrightarrow> isNaNUI a \<and> unat a mod 2 ^ (p - 1) < 2 ^ (p - 2)"
begin

lemma split_bits:
  "unat a mod 2 ^ (w + p - 1) = nat (expUI a) * 2 ^ (p - 1) + unat (fracUI a)"
proof -
  have "w + p - 1 = (p - 1) + w" using p2 by simp
  then have "unat a mod 2 ^ (w + p - 1) = unat a mod (2 ^ (p - 1) * 2 ^ w)" by (simp add: power_add)
  also have "\<dots> = 2 ^ (p - 1) * (unat a div 2 ^ (p - 1) mod 2 ^ w) + unat a mod 2 ^ (p - 1)"
    by (rule mod_mult2_eq)
  finally show ?thesis by (simp add: exp_law frac_law)
qed

lemma exp_range: "0 \<le> expUI a" "expUI a < 2 ^ w"
proof -
  have "unat a div 2 ^ (p - 1) mod 2 ^ w < 2 ^ w" by simp
  then have "int (unat a div 2 ^ (p - 1) mod 2 ^ w) < int (2 ^ w)" by (simp only: of_nat_less_iff)
  then show "expUI a < 2 ^ w" by (simp add: exp_law)
qed (simp add: exp_law)

lemma frac_range: "unat (fracUI a) < 2 ^ (p - 1)"
  by (simp add: frac_law)

lemma max_exp: "expUI a = 2 ^ w - 1 \<longleftrightarrow> nat (expUI a) = 2 ^ w - 1"
proof -
  have "int (2 ^ w - 1) = 2 ^ w - 1" by (simp add: of_nat_diff)
  then show ?thesis using exp_range [of a] by (metis int_nat_eq nat_int)
qed

lemma classify:
  "fp_finite p w (unat a) \<longleftrightarrow> expUI a \<noteq> 2 ^ w - 1"
  "fp_inf p w (unat a) \<longleftrightarrow> expUI a = 2 ^ w - 1 \<and> fracUI a = 0"
  "fp_nan p w (unat a) \<longleftrightarrow> expUI a = 2 ^ w - 1 \<and> fracUI a \<noteq> 0"
proof -
  define e f H where "e = nat (expUI a)" and "f = unat (fracUI a)" and "H = (2::nat) ^ (p - 1)"
  have e: "e < 2 ^ w" using exp_range [of a] unfolding e_def by (simp add: nat_less_iff)
  have f: "f < H" unfolding f_def H_def by (rule frac_range)
  have fin: "e * H + f < (2 ^ w - 1) * H \<longleftrightarrow> e \<noteq> 2 ^ w - 1"
  proof (cases "e = 2 ^ w - 1")
    case False
    then have "Suc e \<le> 2 ^ w - 1" using e by linarith
    then have "Suc e * H \<le> (2 ^ w - 1) * H" by (rule mult_le_mono1)
    with f False show ?thesis by simp
  qed simp
  note d = fp_class_defs inf_bits_def split_bits max_exp e_def [symmetric] f_def [symmetric] H_def [symmetric]
  show "fp_finite p w (unat a) \<longleftrightarrow> expUI a \<noteq> 2 ^ w - 1" unfolding d by (rule fin)
  have z: "fracUI a = 0 \<longleftrightarrow> f = 0" unfolding f_def by (simp add: unat_eq_0)
  show "fp_inf p w (unat a) \<longleftrightarrow> expUI a = 2 ^ w - 1 \<and> fracUI a = 0"
    "fp_nan p w (unat a) \<longleftrightarrow> expUI a = 2 ^ w - 1 \<and> fracUI a \<noteq> 0"
    unfolding d z using fin by (cases "e = 2 ^ w - 1"; force)+
qed

lemma isNaN: "isNaNUI a \<longleftrightarrow> fp_nan p w (unat a)"
  by (simp add: nan_law fp_nan_def)

lemma isSigNaN: "isSigNaNUI a \<longleftrightarrow> fp_snan p w (unat a)"
  by (simp add: snan_law isNaN fp_snan_def)

lemma mag_fields:
  "fp_mag p w (unat a) =
     (if expUI a = 0 then unat (fracUI a)
      else (2 ^ (p - 1) + unat (fracUI a)) * 2 ^ (nat (expUI a) - 1))"
proof -
  have "(e * H + f) div H = e" "(e * H + f) mod H = f" if "f < H" for e f H :: nat
    using that by simp_all
  note q = this [OF frac_range]
  show ?thesis
    unfolding fp_mag_def fdec_def split_bits Let_def q
    using exp_range(1) [of a] by (simp add: nat_eq_iff)
qed

lemma mag_zero: "fp_mag p w (unat a) = 0 \<longleftrightarrow> expUI a = 0 \<and> fracUI a = 0"
  by (simp add: mag_fields unat_eq_0)

text \<open>Patterns compare as their values do.\<close>

lemma neg_sign: "unat a < 2 ^ (w + p) \<Longrightarrow> fp_neg p w (unat a) = signUI a"
  by (simp add: fp_neg_def sign_law)

lemma mod_bits:
  assumes "unat a < 2 ^ (w + p)"
  shows "unat a mod 2 ^ (w + p - 1) =
    (if signUI a then unat a - 2 ^ (w + p - 1) else unat a)"
proof -
  have "(2::nat) ^ (w + p) = 2 * 2 ^ (w + p - 1)" using p2 by (intro two_power_split) simp
  then show ?thesis using assms by (simp add: sign_law le_mod_geq)
qed

lemma val_same_sign:
  assumes a: "unat a < 2 ^ (w + p)" and b: "unat b < 2 ^ (w + p)" and s: "signUI a = signUI b"
  shows "fp_val p w (unat a) < fp_val p w (unat b) \<longleftrightarrow> (a \<noteq> b \<and> signUI a \<noteq> (a < b))"
    and "fp_val p w (unat a) \<le> fp_val p w (unat b) \<longleftrightarrow> (a = b \<or> signUI a \<noteq> (a < b))"
    and "fp_val p w (unat a) = fp_val p w (unat b) \<longleftrightarrow> a = b"
proof -
  have p1: "1 \<le> p" using p2 by simp
  have ge: "signUI a \<Longrightarrow> 2 ^ (w + p - 1) \<le> unat a" "signUI b \<Longrightarrow> 2 ^ (w + p - 1) \<le> unat b"
    using a b by (simp_all add: sign_law)
  have m: "fp_mag p w (unat a) < fp_mag p w (unat b) \<longleftrightarrow> a < b"
    "fp_mag p w (unat b) < fp_mag p w (unat a) \<longleftrightarrow> b < a"
    using s ge unfolding fp_mag_def fdec_less_iff [OF p1] mod_bits [OF a] mod_bits [OF b] word_less_nat_alt
    by (auto simp: less_diff_iff)
  consider "a < b" | "a = b" | "b < a" by force
  then have *: "(fp_val p w (unat a) < fp_val p w (unat b) \<longleftrightarrow> (a \<noteq> b \<and> signUI a \<noteq> (a < b))) \<and>
    (fp_val p w (unat a) = fp_val p w (unat b) \<longleftrightarrow> a = b)"
    by cases (use m s in \<open>auto simp: fp_val_def neg_sign a b\<close>)
  then show "fp_val p w (unat a) < fp_val p w (unat b) \<longleftrightarrow> (a \<noteq> b \<and> signUI a \<noteq> (a < b))"
    and "fp_val p w (unat a) = fp_val p w (unat b) \<longleftrightarrow> a = b" by blast+
  then show "fp_val p w (unat a) \<le> fp_val p w (unat b) \<longleftrightarrow> (a = b \<or> signUI a \<noteq> (a < b))" by force
qed

lemma val_diff_sign:
  assumes a: "unat a < 2 ^ (w + p)" and b: "unat b < 2 ^ (w + p)" and s: "signUI a \<noteq> signUI b"
  defines "z \<equiv> fp_mag p w (unat a) = 0 \<and> fp_mag p w (unat b) = 0"
  shows "fp_val p w (unat a) < fp_val p w (unat b) \<longleftrightarrow> signUI a \<and> \<not> z"
    and "fp_val p w (unat a) \<le> fp_val p w (unat b) \<longleftrightarrow> signUI a \<or> z"
    and "fp_val p w (unat a) = fp_val p w (unat b) \<longleftrightarrow> z"
  using s by (auto simp: fp_val_def neg_sign a b z_def)

lemma mag_zero_bits:
  fixes a :: u64
  assumes "unat a < 2 ^ (w + p)"
  shows "fp_mag p w (unat a) = 0 \<longleftrightarrow> unat a = 0 \<or> unat a = 2 ^ (w + p - 1)"
proof -
  have "fdec p 0 = 0" by (simp add: fdec_def)
  then have "fp_mag p w (unat a) = 0 \<longleftrightarrow> unat a mod 2 ^ (w + p - 1) = 0"
    unfolding fp_mag_def using fdec_inj [of p _ 0] p2 by (metis One_nat_def Suc_1 Suc_leD)
  then show ?thesis
    unfolding mod_bits [OF assms] using sign_law [OF assms] by auto
qed

end

subsection \<open>Both formats provide the interface\<close>

lemma unat_field_mask:
  assumes l: "n + k \<le> LENGTH('a)"
  shows "unat (push_bit n (mask k) :: 'a::len word) = (2 ^ k - 1) * 2 ^ n"
proof -
  have m: "unat (mask k :: 'a word) = 2 ^ k - 1"
  proof -
    have "uint (mask k :: 'a word) = 2 ^ k - 1"
      unfolding uint_mask_eq min_absorb2 [OF add_leD2 [OF l]] by (rule mask_eq_exp_minus_1)
    also have "\<dots> = int (2 ^ k - 1)" by (simp add: of_nat_diff)
    finally show ?thesis by (simp only: unat_eq_nat_uint nat_int)
  qed
  have "(2 ^ k - 1) * 2 ^ n < (2 ^ k :: nat) * 2 ^ n" by (intro mult_strict_right_mono) auto
  also have "\<dots> \<le> 2 ^ LENGTH('a)" using l by (simp flip: power_add add: add.commute)
  finally show ?thesis by (subst unat_push_small) (simp_all only: m)
qed

lemma nan_pattern:
  fixes a :: u64
  assumes p: "1 \<le> p" and l: "w + p \<le> 64"
  shows "a AND push_bit (p - 1) (mask w) = push_bit (p - 1) (mask w) \<and> a AND mask (p - 1) \<noteq> 0 \<longleftrightarrow>
    inf_bits p w < unat a mod 2 ^ (w + p - 1)"
proof -
  define H where "H = (2::nat) ^ (p - 1)"
  define e where "e = unat a div H mod 2 ^ w"
  have H: "0 < H" by (simp add: H_def)
  have l': "p - 1 + w \<le> LENGTH(64)" using p l by simp
  have 1: "a AND push_bit (p - 1) (mask w) = push_bit (p - 1) (mask w) \<longleftrightarrow> e = 2 ^ w - 1"
    unfolding word_unat_eq_iff unat_and_field [OF l'] unat_field_mask [OF l'] using H by (simp add: e_def H_def)
  have 2: "a AND mask (p - 1) \<noteq> 0 \<longleftrightarrow> unat a mod H \<noteq> 0"
    unfolding H_def unat_and_mask [symmetric] unat_eq_0 ..
  have 3: "unat a mod 2 ^ (w + p - 1) = H * e + unat a mod H"
  proof -
    have "(2::nat) ^ (w + p - 1) = H * 2 ^ w" using p by (simp add: H_def flip: power_add) 
    then show ?thesis by (simp only: mod_mult2_eq e_def)
  qed
  have e: "e \<le> 2 ^ w - 1" unfolding e_def using mod_less_divisor [of "2 ^ w" "unat a div H"] by (simp add: less_Suc_eq_le [symmetric])
  have "inf_bits p w < H * e + unat a mod H \<longleftrightarrow> e = 2 ^ w - 1 \<and> unat a mod H \<noteq> 0"
  proof (cases "e = 2 ^ w - 1")
    case True
    then show ?thesis by (simp add: inf_bits_def H_def mult.commute)
  next
    case False
    then have "Suc e \<le> 2 ^ w - 1" using e by linarith
    then have "H * Suc e \<le> H * (2 ^ w - 1)" by (rule mult_le_mono2)
    then have "H * e + unat a mod H < H * (2 ^ w - 1)" using mod_less_divisor [OF H, of "unat a"] by (simp del: mod_less_divisor)
    then show ?thesis using False unfolding inf_bits_def H_def [symmetric] mult.commute [of "2 ^ w - 1" H] by linarith
  qed
  then show ?thesis unfolding 1 2 3 by simp
qed

lemma snan_pattern:
  fixes a :: u64
  assumes p: "2 \<le> p" and l: "w + p \<le> 64" and w: "1 \<le> w"
  shows "a AND push_bit (p - 2) (mask (w + 1)) = push_bit (p - 1) (mask w) \<and> a AND mask (p - 2) \<noteq> 0 \<longleftrightarrow>
    (a AND push_bit (p - 1) (mask w) = push_bit (p - 1) (mask w) \<and> a AND mask (p - 1) \<noteq> 0)
     \<and> unat a mod 2 ^ (p - 1) < 2 ^ (p - 2)"
proof -
  define Q where "Q = (2::nat) ^ (p - 2)"
  define k where "k = unat a div Q"
  have Q: "0 < Q" by (simp add: Q_def)
  have H: "2 ^ (p - 1) = Q * 2"
    using two_power_split [of "p - 1"] p by (simp add: Q_def mult.commute numeral_2_eq_2)
  have l': "p - 1 + w \<le> LENGTH(64)" "p - 2 + (w + 1) \<le> LENGTH(64)" using p l by simp_all
  have 1: "a AND push_bit (p - 2) (mask (w + 1)) = push_bit (p - 1) (mask w) \<longleftrightarrow> k mod (2 * 2 ^ w) = (2 ^ w - 1) * 2"
    unfolding word_unat_eq_iff unat_and_field [OF l'(2)] unat_field_mask [OF l'(1)] H Q_def [symmetric] k_def [symmetric]
    using Q by simp
  have 2: "a AND push_bit (p - 1) (mask w) = push_bit (p - 1) (mask w) \<longleftrightarrow> k div 2 mod 2 ^ w = 2 ^ w - 1"
    unfolding word_unat_eq_iff unat_and_field [OF l'(1)] unat_field_mask [OF l'(1)] H div_mult2_eq k_def [symmetric]
    using Q by simp
  have 3: "a AND mask (p - 2) \<noteq> 0 \<longleftrightarrow> unat a mod Q \<noteq> 0" "a AND mask (p - 1) \<noteq> 0 \<longleftrightarrow> unat a mod (Q * 2) \<noteq> 0"
    unfolding H [symmetric] unfolding Q_def unat_and_mask [symmetric] unat_eq_0 by (rule refl)+
  have 4: "unat a mod (Q * 2) = Q * (k mod 2) + unat a mod Q" by (simp add: mod_mult2_eq k_def)
  have 5: "k mod (2 * 2 ^ w) = 2 * (k div 2 mod 2 ^ w) + k mod 2" by (simp add: mod_mult2_eq)
  have b: "k mod 2 = 0 \<or> k mod 2 = 1" by linarith
  have r: "unat a mod Q < Q" using Q by simp
  have e: "2 * e + (1::nat) \<noteq> x * 2" for e x by presburger
  from b show ?thesis
  proof
    assume "k mod 2 = 0"
    then show ?thesis unfolding 1 2 3 4 5 H Q_def [symmetric] using r by auto
  next
    assume "k mod 2 = 1"
    then show ?thesis unfolding 1 2 3 4 5 H Q_def [symmetric] using r e by auto
  qed
qed

lemma expF32UI_val: "expF32UI a = int (unat a div 2 ^ 23 mod 2 ^ 8)"
proof -
  have "(0xFF :: u64) = mask 8" by (simp add: mask_eq_exp_minus_1)
  then have "unat (drop_bit 23 a AND 0xFF) = unat a div 2 ^ 23 mod 2 ^ 8"
    by (simp only: unat_and_mask unat_drop)
  then show ?thesis unfolding expF32UI_def by (metis uint_nat)
qed

lemma fracF32UI_val: "unat (fracF32UI a) = unat a mod 2 ^ 23"
proof -
  have "(0x007FFFFF :: u64) = mask 23" by (simp add: mask_eq_exp_minus_1)
  then show ?thesis unfolding fracF32UI_def by (simp only: unat_and_mask)
qed

lemma f32_masks:
  "(0x7F800000 :: u64) = push_bit (24 - 1) (mask 8)" "(0x007FFFFF :: u64) = mask (24 - 1)"
  "(0x7FC00000 :: u64) = push_bit (24 - 2) (mask (8 + 1))" "(0x003FFFFF :: u64) = mask (24 - 2)"
  by (simp_all add: mask_eq_exp_minus_1)

interpretation f32: fp_format 24 8 signF32UI expF32UI fracF32UI isNaNF32UI softfloat_isSigNaNF32UI
proof
  fix a :: u64
  show "signF32UI a \<longleftrightarrow> 2 ^ (8 + 24 - 1) \<le> unat a" if "unat a < 2 ^ (8 + 24)"
  proof -
    have "unat (drop_bit 31 (ucast a :: u32)) = unat a div 2 ^ 31"
      using that by (simp add: unat_drop unat_ucast)
    then have "signF32UI a \<longleftrightarrow> unat a div 2 ^ 31 \<noteq> 0"
      by (metis signF32UI_def unat_eq_0)
    then show ?thesis by (simp add: div_eq_0_iff not_less)
  qed
  show "expF32UI a = int (unat a div 2 ^ (24 - 1) mod 2 ^ 8)" by (simp add: expF32UI_val)
  show "unat (fracF32UI a) = unat a mod 2 ^ (24 - 1)" by (simp add: fracF32UI_val)
  show "isNaNF32UI a \<longleftrightarrow> inf_bits 24 8 < unat a mod 2 ^ (8 + 24 - 1)"
    unfolding isNaNF32UI_def f32_masks by (rule nan_pattern) simp_all
  show "softfloat_isSigNaNF32UI a \<longleftrightarrow> isNaNF32UI a \<and> unat a mod 2 ^ (24 - 1) < 2 ^ (24 - 2)"
    unfolding isNaNF32UI_def softfloat_isSigNaNF32UI_def f32_masks by (rule snan_pattern) simp_all
qed simp_all

lemma expF64UI_val: "expF64UI a = int (unat a div 2 ^ 52 mod 2 ^ 11)"
proof -
  have "(0x7FF :: u64) = mask 11" by (simp add: mask_eq_exp_minus_1)
  then have "unat (drop_bit 52 a AND 0x7FF) = unat a div 2 ^ 52 mod 2 ^ 11"
    by (simp only: unat_and_mask unat_drop)
  then show ?thesis unfolding expF64UI_def by (metis uint_nat)
qed

lemma fracF64UI_val: "unat (fracF64UI a) = unat a mod 2 ^ 52"
proof -
  have "(0x000FFFFFFFFFFFFF :: u64) = mask 52" by (simp add: mask_eq_exp_minus_1)
  then show ?thesis unfolding fracF64UI_def by (simp only: unat_and_mask)
qed

lemma f64_masks:
  "(0x7FF0000000000000 :: u64) = push_bit (53 - 1) (mask 11)" "(0x000FFFFFFFFFFFFF :: u64) = mask (53 - 1)"
  "(0x7FF8000000000000 :: u64) = push_bit (53 - 2) (mask (11 + 1))" "(0x0007FFFFFFFFFFFF :: u64) = mask (53 - 2)"
  by (simp_all add: mask_eq_exp_minus_1)

interpretation f64: fp_format 53 11 signF64UI expF64UI fracF64UI isNaNF64UI softfloat_isSigNaNF64UI
proof
  fix a :: u64
  show "signF64UI a \<longleftrightarrow> 2 ^ (11 + 53 - 1) \<le> unat a" if "unat a < 2 ^ (11 + 53)"
  proof -
    have "unat (drop_bit 63 (ucast a :: u64)) = unat a div 2 ^ 63"
      using that by (simp add: unat_drop unat_ucast)
    then have "signF64UI a \<longleftrightarrow> unat a div 2 ^ 63 \<noteq> 0"
      by (metis signF64UI_def unat_eq_0)
    then show ?thesis by (simp add: div_eq_0_iff not_less)
  qed
  show "expF64UI a = int (unat a div 2 ^ (53 - 1) mod 2 ^ 11)" by (simp add: expF64UI_val)
  show "unat (fracF64UI a) = unat a mod 2 ^ (53 - 1)" by (simp add: fracF64UI_val)
  show "isNaNF64UI a \<longleftrightarrow> inf_bits 53 11 < unat a mod 2 ^ (11 + 53 - 1)"
    unfolding isNaNF64UI_def f64_masks by (rule nan_pattern) simp_all
  show "softfloat_isSigNaNF64UI a \<longleftrightarrow> isNaNF64UI a \<and> unat a mod 2 ^ (53 - 1) < 2 ^ (53 - 2)"
    unfolding isNaNF64UI_def softfloat_isSigNaNF64UI_def f64_masks by (rule snan_pattern) simp_all
qed simp_all


end
