(* ===== verification/SF_Compare.thy ===== *)
theory SF_Compare
  imports SF_Format
begin

text \<open>
  The comparisons of SoftFloat (\<open>f32_eq.c\<close>, \<open>f32_le.c\<close>, \<open>f32_lt.c\<close>, their quiet and signaling
  variants and the 64-bit ones).  They compare bit patterns; the lemmas show that the answer is the
  order of the values, with both zeros equal, and that NaN operands give false and raise invalid
  as the variant prescribes.
\<close>

subsection \<open>Definitions\<close>

definition f32_eq :: "u32 \<Rightarrow> u32 \<Rightarrow> sf_state \<Rightarrow> bool \<times> sf_state" where
  "f32_eq a b st =
     (let uiA = (ucast a :: u64); uiB = (ucast b :: u64)
      in if isNaNF32UI uiA \<or> isNaNF32UI uiB
         then (False, if softfloat_isSigNaNF32UI uiA \<or> softfloat_isSigNaNF32UI uiB
                      then softfloat_raiseFlags softfloat_flag_invalid st else st)
         else (uiA = uiB \<or> (ucast (push_bit 1 (uiA OR uiB)) :: u32) = 0, st))"

definition f32_eq_signaling :: "u32 \<Rightarrow> u32 \<Rightarrow> sf_state \<Rightarrow> bool \<times> sf_state" where
  "f32_eq_signaling a b st =
     (let uiA = (ucast a :: u64); uiB = (ucast b :: u64)
      in if isNaNF32UI uiA \<or> isNaNF32UI uiB
         then (False, softfloat_raiseFlags softfloat_flag_invalid st)
         else (uiA = uiB \<or> (ucast (push_bit 1 (uiA OR uiB)) :: u32) = 0, st))"

definition f32_le :: "u32 \<Rightarrow> u32 \<Rightarrow> sf_state \<Rightarrow> bool \<times> sf_state" where
  "f32_le a b st =
     (let uiA = (ucast a :: u64); uiB = (ucast b :: u64)
      in if isNaNF32UI uiA \<or> isNaNF32UI uiB
         then (False, softfloat_raiseFlags softfloat_flag_invalid st)
         else (let signA = signF32UI uiA; signB = signF32UI uiB
               in (if signA \<noteq> signB then signA \<or> (ucast (push_bit 1 (uiA OR uiB)) :: u32) = 0
                   else uiA = uiB \<or> signA \<noteq> (uiA < uiB), st)))"

definition f32_le_quiet :: "u32 \<Rightarrow> u32 \<Rightarrow> sf_state \<Rightarrow> bool \<times> sf_state" where
  "f32_le_quiet a b st =
     (let uiA = (ucast a :: u64); uiB = (ucast b :: u64)
      in if isNaNF32UI uiA \<or> isNaNF32UI uiB
         then (False, if softfloat_isSigNaNF32UI uiA \<or> softfloat_isSigNaNF32UI uiB
                      then softfloat_raiseFlags softfloat_flag_invalid st else st)
         else (let signA = signF32UI uiA; signB = signF32UI uiB
               in (if signA \<noteq> signB then signA \<or> (ucast (push_bit 1 (uiA OR uiB)) :: u32) = 0
                   else uiA = uiB \<or> signA \<noteq> (uiA < uiB), st)))"

definition f32_lt :: "u32 \<Rightarrow> u32 \<Rightarrow> sf_state \<Rightarrow> bool \<times> sf_state" where
  "f32_lt a b st =
     (let uiA = (ucast a :: u64); uiB = (ucast b :: u64)
      in if isNaNF32UI uiA \<or> isNaNF32UI uiB
         then (False, softfloat_raiseFlags softfloat_flag_invalid st)
         else (let signA = signF32UI uiA; signB = signF32UI uiB
               in (if signA \<noteq> signB then signA \<and> (ucast (push_bit 1 (uiA OR uiB)) :: u32) \<noteq> 0
                   else uiA \<noteq> uiB \<and> signA \<noteq> (uiA < uiB), st)))"

definition f32_lt_quiet :: "u32 \<Rightarrow> u32 \<Rightarrow> sf_state \<Rightarrow> bool \<times> sf_state" where
  "f32_lt_quiet a b st =
     (let uiA = (ucast a :: u64); uiB = (ucast b :: u64)
      in if isNaNF32UI uiA \<or> isNaNF32UI uiB
         then (False, if softfloat_isSigNaNF32UI uiA \<or> softfloat_isSigNaNF32UI uiB
                      then softfloat_raiseFlags softfloat_flag_invalid st else st)
         else (let signA = signF32UI uiA; signB = signF32UI uiB
               in (if signA \<noteq> signB then signA \<and> (ucast (push_bit 1 (uiA OR uiB)) :: u32) \<noteq> 0
                   else uiA \<noteq> uiB \<and> signA \<noteq> (uiA < uiB), st)))"

definition f64_eq :: "u64 \<Rightarrow> u64 \<Rightarrow> sf_state \<Rightarrow> bool \<times> sf_state" where
  "f64_eq a b st =
     (let uiA = a; uiB = b
      in if isNaNF64UI uiA \<or> isNaNF64UI uiB
         then (False, if softfloat_isSigNaNF64UI uiA \<or> softfloat_isSigNaNF64UI uiB
                      then softfloat_raiseFlags softfloat_flag_invalid st else st)
         else (uiA = uiB \<or> (uiA OR uiB) AND 0x7FFFFFFFFFFFFFFF = 0, st))"

definition f64_eq_signaling :: "u64 \<Rightarrow> u64 \<Rightarrow> sf_state \<Rightarrow> bool \<times> sf_state" where
  "f64_eq_signaling a b st =
     (let uiA = a; uiB = b
      in if isNaNF64UI uiA \<or> isNaNF64UI uiB
         then (False, softfloat_raiseFlags softfloat_flag_invalid st)
         else (uiA = uiB \<or> (uiA OR uiB) AND 0x7FFFFFFFFFFFFFFF = 0, st))"

definition f64_le :: "u64 \<Rightarrow> u64 \<Rightarrow> sf_state \<Rightarrow> bool \<times> sf_state" where
  "f64_le a b st =
     (let uiA = a; uiB = b
      in if isNaNF64UI uiA \<or> isNaNF64UI uiB
         then (False, softfloat_raiseFlags softfloat_flag_invalid st)
         else (let signA = signF64UI uiA; signB = signF64UI uiB
               in (if signA \<noteq> signB then signA \<or> (uiA OR uiB) AND 0x7FFFFFFFFFFFFFFF = 0
                   else uiA = uiB \<or> signA \<noteq> (uiA < uiB), st)))"

definition f64_le_quiet :: "u64 \<Rightarrow> u64 \<Rightarrow> sf_state \<Rightarrow> bool \<times> sf_state" where
  "f64_le_quiet a b st =
     (let uiA = a; uiB = b
      in if isNaNF64UI uiA \<or> isNaNF64UI uiB
         then (False, if softfloat_isSigNaNF64UI uiA \<or> softfloat_isSigNaNF64UI uiB
                      then softfloat_raiseFlags softfloat_flag_invalid st else st)
         else (let signA = signF64UI uiA; signB = signF64UI uiB
               in (if signA \<noteq> signB then signA \<or> (uiA OR uiB) AND 0x7FFFFFFFFFFFFFFF = 0
                   else uiA = uiB \<or> signA \<noteq> (uiA < uiB), st)))"

definition f64_lt :: "u64 \<Rightarrow> u64 \<Rightarrow> sf_state \<Rightarrow> bool \<times> sf_state" where
  "f64_lt a b st =
     (let uiA = a; uiB = b
      in if isNaNF64UI uiA \<or> isNaNF64UI uiB
         then (False, softfloat_raiseFlags softfloat_flag_invalid st)
         else (let signA = signF64UI uiA; signB = signF64UI uiB
               in (if signA \<noteq> signB then signA \<and> (uiA OR uiB) AND 0x7FFFFFFFFFFFFFFF \<noteq> 0
                   else uiA \<noteq> uiB \<and> signA \<noteq> (uiA < uiB), st)))"

definition f64_lt_quiet :: "u64 \<Rightarrow> u64 \<Rightarrow> sf_state \<Rightarrow> bool \<times> sf_state" where
  "f64_lt_quiet a b st =
     (let uiA = a; uiB = b
      in if isNaNF64UI uiA \<or> isNaNF64UI uiB
         then (False, if softfloat_isSigNaNF64UI uiA \<or> softfloat_isSigNaNF64UI uiB
                      then softfloat_raiseFlags softfloat_flag_invalid st else st)
         else (let signA = signF64UI uiA; signB = signF64UI uiB
               in (if signA \<noteq> signB then signA \<and> (uiA OR uiB) AND 0x7FFFFFFFFFFFFFFF \<noteq> 0
                   else uiA \<noteq> uiB \<and> signA \<noteq> (uiA < uiB), st)))"

subsection \<open>Patterns and values\<close>

text \<open>The reference comparison: false on a NaN operand, otherwise the order of the values; a
  signaling comparison raises invalid on every NaN, a quiet one on signaling NaNs only.\<close>

definition fp_compare ::
  "nat \<Rightarrow> nat \<Rightarrow> (int \<Rightarrow> int \<Rightarrow> bool) \<Rightarrow> bool \<Rightarrow> nat \<Rightarrow> nat \<Rightarrow> sf_state \<Rightarrow> bool \<times> sf_state" where
  "fp_compare p w ord signaling a b st =
     (if fp_nan p w a \<or> fp_nan p w b
      then (False, if signaling \<or> fp_snan p w a \<or> fp_snan p w b
                   then softfloat_raiseFlags softfloat_flag_invalid st else st)
      else (ord (fp_val p w a) (fp_val p w b), st))"

lemma zerosF32:
  fixes a b :: u32
  shows "(ucast (push_bit 1 ((ucast a :: u64) OR ucast b)) :: u32) = 0 \<longleftrightarrow>
    fp_mag 24 8 (unat a) = 0 \<and> fp_mag 24 8 (unat b) = 0"
proof -
  have z: "fp_mag 24 8 (unat x) = 0 \<longleftrightarrow> push_bit 1 x = 0" for x :: u32
  proof -
    have "push_bit 1 x = 0 \<longleftrightarrow> unat x mod 2 ^ 31 = 0" using push_bit_eq_0_iff [of 1 x] by simp
    also have "\<dots> \<longleftrightarrow> unat x = 0 \<or> unat x = 2 ^ 31"
      using unat_less_32 [of x] by (auto simp: mod_eq_0_iff_dvd elim!: dvdE)
    finally show ?thesis
      using f32.mag_zero_bits [of "ucast x"] unat_less_32 [of x] by simp
  qed
  have "(ucast (push_bit 1 ((ucast a :: u64) OR ucast b)) :: u32) = push_bit 1 a OR push_bit 1 b"
    by (rule bit_word_eqI) (auto simp: bit_simps simp del: push_bit_Suc)
  then show ?thesis unfolding z by (simp add: or_eq_0_iff)
qed

lemma f32_pattern:
  fixes a b :: u32
  shows "unat (ucast a :: u64) = unat a" "unat a < 2 ^ (8 + 24)"
    "(ucast a :: u64) = ucast b \<longleftrightarrow> a = b"
  using unat_less_32 [of a] by (simp_all add: word_unat_eq_iff)

lemma f32_compare:
  "f32_eq a b st = fp_compare 24 8 (=) False (unat a) (unat b) st"
  "f32_eq_signaling a b st = fp_compare 24 8 (=) True (unat a) (unat b) st"
  "f32_le a b st = fp_compare 24 8 (\<le>) True (unat a) (unat b) st"
  "f32_le_quiet a b st = fp_compare 24 8 (\<le>) False (unat a) (unat b) st"
  "f32_lt a b st = fp_compare 24 8 (<) True (unat a) (unat b) st"
  "f32_lt_quiet a b st = fp_compare 24 8 (<) False (unat a) (unat b) st"
proof -
  define A B where "A = (ucast a :: u64)" and "B = (ucast b :: u64)"
  have u: "unat a = unat A" "unat b = unat B" by (simp_all add: A_def B_def f32_pattern)
  have l: "unat A < 2 ^ (8 + 24)" "unat B < 2 ^ (8 + 24)"
    using f32_pattern(2) [of a] f32_pattern(2) [of b] unfolding u .
  note zz = zerosF32 [of a b, folded A_def B_def, unfolded u]
  have eq: "(A = B \<or> (ucast (push_bit 1 (A OR B)) :: u32) = 0) \<longleftrightarrow> fp_val 24 8 (unat A) = fp_val 24 8 (unat B)"
  proof (cases "signF32UI A = signF32UI B")
    case True
    have "fp_mag 24 8 (unat A) = 0 \<Longrightarrow> fp_mag 24 8 (unat B) = 0 \<Longrightarrow>
        fp_val 24 8 (unat A) = fp_val 24 8 (unat B)" by (simp add: fp_val_def)
    then show ?thesis unfolding zz using f32.val_same_sign(3) [OF l True] by blast
  next
    case False
    then show ?thesis unfolding zz using f32.val_diff_sign(3) [OF l False] by auto
  qed
  have le: "(if signF32UI A \<noteq> signF32UI B then signF32UI A \<or> (ucast (push_bit 1 (A OR B)) :: u32) = 0
      else A = B \<or> signF32UI A \<noteq> (A < B)) \<longleftrightarrow> fp_val 24 8 (unat A) \<le> fp_val 24 8 (unat B)"
    unfolding zz using f32.val_same_sign(2) [OF l] f32.val_diff_sign(2) [OF l] by auto
  have lt: "(if signF32UI A \<noteq> signF32UI B then signF32UI A \<and> (ucast (push_bit 1 (A OR B)) :: u32) \<noteq> 0
      else A \<noteq> B \<and> signF32UI A \<noteq> (A < B)) \<longleftrightarrow> fp_val 24 8 (unat A) < fp_val 24 8 (unat B)"
    unfolding zz using f32.val_same_sign(1) [OF l] f32.val_diff_sign(1) [OF l] by auto
  note d = Let_def A_def [symmetric] B_def [symmetric] fp_compare_def u f32.isNaN f32.isSigNaN
  show "f32_eq a b st = fp_compare 24 8 (=) False (unat a) (unat b) st"
    "f32_eq_signaling a b st = fp_compare 24 8 (=) True (unat a) (unat b) st"
    unfolding f32_eq_def f32_eq_signaling_def d eq by simp_all
  show "f32_le a b st = fp_compare 24 8 (\<le>) True (unat a) (unat b) st"
    "f32_le_quiet a b st = fp_compare 24 8 (\<le>) False (unat a) (unat b) st"
    unfolding f32_le_def f32_le_quiet_def d le by simp_all
  show "f32_lt a b st = fp_compare 24 8 (<) True (unat a) (unat b) st"
    "f32_lt_quiet a b st = fp_compare 24 8 (<) False (unat a) (unat b) st"
    unfolding f32_lt_def f32_lt_quiet_def d lt by simp_all
qed

lemma zerosF64:
  fixes a b :: u64
  shows "(a OR b) AND 0x7FFFFFFFFFFFFFFF = 0 \<longleftrightarrow>
    fp_mag 53 11 (unat a) = 0 \<and> fp_mag 53 11 (unat b) = 0"
proof -
  have m: "(0x7FFFFFFFFFFFFFFF :: u64) = mask 63" by (simp add: mask_eq_exp_minus_1)
  have z: "fp_mag 53 11 (unat x) = 0 \<longleftrightarrow> x AND mask 63 = 0" for x :: u64
  proof -
    have "x AND mask 63 = 0 \<longleftrightarrow> unat x mod 2 ^ 63 = 0"
      using unat_and_mask [of x 63] by (simp only: unat_eq_0 [symmetric])
    also have "\<dots> \<longleftrightarrow> unat x = 0 \<or> unat x = 2 ^ 63"
      using unat_less_64 [of x] by (auto simp: mod_eq_0_iff_dvd elim!: dvdE)
    finally show ?thesis using f64.mag_zero_bits [of x] unat_less_64 [of x] by simp
  qed
  show ?thesis unfolding m z by (simp only: bit.conj_disj_distrib2 or_eq_0_iff)
qed

lemma f64_compare:
  "f64_eq a b st = fp_compare 53 11 (=) False (unat a) (unat b) st"
  "f64_eq_signaling a b st = fp_compare 53 11 (=) True (unat a) (unat b) st"
  "f64_le a b st = fp_compare 53 11 (\<le>) True (unat a) (unat b) st"
  "f64_le_quiet a b st = fp_compare 53 11 (\<le>) False (unat a) (unat b) st"
  "f64_lt a b st = fp_compare 53 11 (<) True (unat a) (unat b) st"
  "f64_lt_quiet a b st = fp_compare 53 11 (<) False (unat a) (unat b) st"
proof -
  define A B where "A = a" and "B = b"
  have u: "unat a = unat A" "unat b = unat B" by (simp_all add: A_def B_def)
  have l: "unat A < 2 ^ (11 + 53)" "unat B < 2 ^ (11 + 53)"
    using unat_less_64 [of A] unat_less_64 [of B] by simp_all
  note zz = zerosF64 [of A B]
  have eq: "(A = B \<or> (A OR B) AND 0x7FFFFFFFFFFFFFFF = 0) \<longleftrightarrow> fp_val 53 11 (unat A) = fp_val 53 11 (unat B)"
  proof (cases "signF64UI A = signF64UI B")
    case True
    have "fp_mag 53 11 (unat A) = 0 \<Longrightarrow> fp_mag 53 11 (unat B) = 0 \<Longrightarrow>
        fp_val 53 11 (unat A) = fp_val 53 11 (unat B)" by (simp add: fp_val_def)
    then show ?thesis unfolding zz using f64.val_same_sign(3) [OF l True] by blast
  next
    case False
    then show ?thesis unfolding zz using f64.val_diff_sign(3) [OF l False] by auto
  qed
  have le: "(if signF64UI A \<noteq> signF64UI B then signF64UI A \<or> (A OR B) AND 0x7FFFFFFFFFFFFFFF = 0
      else A = B \<or> signF64UI A \<noteq> (A < B)) \<longleftrightarrow> fp_val 53 11 (unat A) \<le> fp_val 53 11 (unat B)"
    unfolding zz using f64.val_same_sign(2) [OF l] f64.val_diff_sign(2) [OF l] by auto
  have lt: "(if signF64UI A \<noteq> signF64UI B then signF64UI A \<and> (A OR B) AND 0x7FFFFFFFFFFFFFFF \<noteq> 0
      else A \<noteq> B \<and> signF64UI A \<noteq> (A < B)) \<longleftrightarrow> fp_val 53 11 (unat A) < fp_val 53 11 (unat B)"
    unfolding zz using f64.val_same_sign(1) [OF l] f64.val_diff_sign(1) [OF l] by auto
  note d = Let_def A_def [symmetric] B_def [symmetric] fp_compare_def u f64.isNaN f64.isSigNaN
  show "f64_eq a b st = fp_compare 53 11 (=) False (unat a) (unat b) st"
    "f64_eq_signaling a b st = fp_compare 53 11 (=) True (unat a) (unat b) st"
    unfolding f64_eq_def f64_eq_signaling_def d eq by simp_all
  show "f64_le a b st = fp_compare 53 11 (\<le>) True (unat a) (unat b) st"
    "f64_le_quiet a b st = fp_compare 53 11 (\<le>) False (unat a) (unat b) st"
    unfolding f64_le_def f64_le_quiet_def d le by simp_all
  show "f64_lt a b st = fp_compare 53 11 (<) True (unat a) (unat b) st"
    "f64_lt_quiet a b st = fp_compare 53 11 (<) False (unat a) (unat b) st"
    unfolding f64_lt_def f64_lt_quiet_def d lt by simp_all
qed

subsection \<open>Properties\<close>

text \<open>C14.  The twelve comparisons decide the order of the values: they are false when an operand is
  a NaN, treat both zeros as equal, order infinities and all finite numbers, and raise invalid
  exactly for NaNs (signaling variants) or for signaling NaNs (quiet variants).\<close>

theorem comparisons_decide_values:
  "f32_eq a b st = fp_compare 24 8 (=) False (unat a) (unat b) st \<and>
   f32_eq_signaling a b st = fp_compare 24 8 (=) True (unat a) (unat b) st \<and>
   f32_le a b st = fp_compare 24 8 (\<le>) True (unat a) (unat b) st \<and>
   f32_le_quiet a b st = fp_compare 24 8 (\<le>) False (unat a) (unat b) st \<and>
   f32_lt a b st = fp_compare 24 8 (<) True (unat a) (unat b) st \<and>
   f32_lt_quiet a b st = fp_compare 24 8 (<) False (unat a) (unat b) st \<and>
   f64_eq c d st = fp_compare 53 11 (=) False (unat c) (unat d) st \<and>
   f64_eq_signaling c d st = fp_compare 53 11 (=) True (unat c) (unat d) st \<and>
   f64_le c d st = fp_compare 53 11 (\<le>) True (unat c) (unat d) st \<and>
   f64_le_quiet c d st = fp_compare 53 11 (\<le>) False (unat c) (unat d) st \<and>
   f64_lt c d st = fp_compare 53 11 (<) True (unat c) (unat d) st \<and>
   f64_lt_quiet c d st = fp_compare 53 11 (<) False (unat c) (unat d) st"
  by (simp only: f32_compare f64_compare simp_thms)

end
