(* ===== verification/SF_RoundPack.thy ===== *)
theory SF_RoundPack
  imports SF_Format "HOL-Library.Countable"
begin

text \<open>
  Rounding and packing: \<open>s_roundPackToF32.c\<close>, \<open>s_roundPackToF64.c\<close>, the normalising variants
  and the proof that they deliver the correctly rounded result with the right flags.
\<close>

subsection \<open>Definitions\<close>

definition roundPackToF32_finish ::
  "bool \<Rightarrow> int \<Rightarrow> u64 \<Rightarrow> u8 \<Rightarrow> u8 \<Rightarrow> bool \<Rightarrow> sf_state \<Rightarrow> u32 \<times> sf_state" where
  "roundPackToF32_finish sign exp sig roundIncrement roundBits roundNearEven st =
     (let st = if roundBits \<noteq> 0 then softfloat_raiseFlags softfloat_flag_inexact st else st;
          sig = drop_bit 7 (sig + ucast roundIncrement);
          sig = sig AND NOT (of_bool (roundBits XOR 0x40 = 0 \<and> roundNearEven));
          uiZ = packToF32UI sign (if sig \<noteq> 0 then exp else 0) sig
      in (ucast uiZ, st))"

definition softfloat_roundPackToF32 ::
  "bool \<Rightarrow> int \<Rightarrow> u64 \<Rightarrow> sf_state \<Rightarrow> u32 \<times> sf_state" where
  "softfloat_roundPackToF32 sign exp sig st =
     (let roundingMode = softfloat_roundingMode st;
          roundNearEven = (roundingMode = softfloat_round_near_even);
          roundIncrement =
            (if \<not> roundNearEven \<and> roundingMode \<noteq> softfloat_round_near_maxMag
             then if roundingMode = (if sign then softfloat_round_min else softfloat_round_max)
                  then 0x7F else 0
             else 0x40 :: u8);
          roundBits = (ucast (sig AND 0x7F) :: u8)
      in if 0xFD \<le> (word_of_int exp :: u16)
         then if exp < 0
              then (let isTiny =
                          (softfloat_detectTininess st = softfloat_tininess_beforeRounding
                           \<or> exp < - 1 \<or> sig + ucast roundIncrement < 0x80000000);
                        sig = (ucast (softfloat_shiftRightJam32 (ucast sig) (word_of_int (- exp))) :: u64);
                        roundBits = (ucast (sig AND 0x7F) :: u8);
                        st = (if isTiny \<and> roundBits \<noteq> 0
                              then softfloat_raiseFlags softfloat_flag_underflow st else st)
                    in roundPackToF32_finish sign 0 sig roundIncrement roundBits roundNearEven st)
              else if 0xFD < exp \<or> 0x80000000 \<le> sig + ucast roundIncrement
              then (ucast (packToF32UI sign 0xFF 0 - of_bool (roundIncrement = 0)),
                    softfloat_raiseFlags (softfloat_flag_overflow OR softfloat_flag_inexact) st)
              else roundPackToF32_finish sign exp sig roundIncrement roundBits roundNearEven st
         else roundPackToF32_finish sign exp sig roundIncrement roundBits roundNearEven st)"

definition softfloat_normRoundPackToF32 ::
  "bool \<Rightarrow> int \<Rightarrow> u64 \<Rightarrow> sf_state \<Rightarrow> u32 \<times> sf_state" where
  "softfloat_normRoundPackToF32 sign exp sig st =
     (let shiftCount = uint (softfloat_countLeadingZeros32 (ucast sig)) - 1;
          exp = exp - shiftCount
      in if 7 \<le> shiftCount \<and> (word_of_int exp :: u16) < 0xFD
         then (ucast (packToF32UI sign (if sig \<noteq> 0 then exp else 0)
                 (push_bit (nat (shiftCount - 7)) sig)), st)
         else softfloat_roundPackToF32 sign exp (push_bit (nat shiftCount) sig) st)"

definition roundPackToF64_finish ::
  "bool \<Rightarrow> int \<Rightarrow> u64 \<Rightarrow> u64 \<Rightarrow> u64 \<Rightarrow> bool \<Rightarrow> sf_state \<Rightarrow> u64 \<times> sf_state" where
  "roundPackToF64_finish sign exp sig roundIncrement roundBits roundNearEven st =
     (let st = if roundBits \<noteq> 0 then softfloat_raiseFlags softfloat_flag_inexact st else st;
          sig = drop_bit 10 (sig + roundIncrement);
          sig = sig AND NOT (of_bool (roundBits XOR 0x200 = 0 \<and> roundNearEven));
          uiZ = packToF64UI sign (if sig \<noteq> 0 then exp else 0) sig
      in (uiZ, st))"

definition softfloat_roundPackToF64 ::
  "bool \<Rightarrow> int \<Rightarrow> u64 \<Rightarrow> sf_state \<Rightarrow> u64 \<times> sf_state" where
  "softfloat_roundPackToF64 sign exp sig st =
     (let roundingMode = softfloat_roundingMode st;
          roundNearEven = (roundingMode = softfloat_round_near_even);
          roundIncrement =
            (if \<not> roundNearEven \<and> roundingMode \<noteq> softfloat_round_near_maxMag
             then if roundingMode = (if sign then softfloat_round_min else softfloat_round_max)
                  then 0x3FF else 0
             else 0x200 :: u64);
          roundBits = sig AND 0x3FF
      in if 0x7FD \<le> (word_of_int exp :: u16)
         then if exp < 0
              then (let isTiny =
                          (softfloat_detectTininess st = softfloat_tininess_beforeRounding
                           \<or> exp < - 1 \<or> sig + roundIncrement < 0x8000000000000000);
                        sig = softfloat_shiftRightJam64 sig (word_of_int (- exp));
                        roundBits = sig AND 0x3FF;
                        st = (if isTiny \<and> roundBits \<noteq> 0
                              then softfloat_raiseFlags softfloat_flag_underflow st else st)
                    in roundPackToF64_finish sign 0 sig roundIncrement roundBits roundNearEven st)
              else if 0x7FD < exp \<or> 0x8000000000000000 \<le> sig + roundIncrement
              then (packToF64UI sign 0x7FF 0 - of_bool (roundIncrement = 0),
                    softfloat_raiseFlags (softfloat_flag_overflow OR softfloat_flag_inexact) st)
              else roundPackToF64_finish sign exp sig roundIncrement roundBits roundNearEven st
         else roundPackToF64_finish sign exp sig roundIncrement roundBits roundNearEven st)"

definition softfloat_normRoundPackToF64 ::
  "bool \<Rightarrow> int \<Rightarrow> u64 \<Rightarrow> sf_state \<Rightarrow> u64 \<times> sf_state" where
  "softfloat_normRoundPackToF64 sign exp sig st =
     (let shiftCount = uint (softfloat_countLeadingZeros64 sig) - 1;
          exp = exp - shiftCount
      in if 10 \<le> shiftCount \<and> (word_of_int exp :: u16) < 0x7FD
         then (packToF64UI sign (if sig \<noteq> 0 then exp else 0)
                 (push_bit (nat (shiftCount - 10)) sig), st)
         else softfloat_roundPackToF64 sign exp (push_bit (nat shiftCount) sig) st)"

subsection \<open>Packing and the rounding increment\<close>

lemma packToF32UI_nat:
  "(ucast (packToF32UI s (int e) sig) :: u32) = of_nat (of_bool s * 2 ^ 31 + e * 2 ^ 23 + unat sig)"
proof -
  define A :: u32 where "A = push_bit 31 (of_bool s) + push_bit 23 (word_of_int (int e))"
  have A: "A = of_nat (of_bool s * 2 ^ 31 + e * 2 ^ 23)"
    by (simp add: A_def push_bit_eq_mult)
  have "unat (ucast (ucast A + sig :: u64) :: u32) = (unat A + unat sig) mod 2 ^ 64 mod 2 ^ 32"
    by (simp add: unat_ucast unat_word_ariths mod_add_left_eq)
  also have "\<dots> = (unat A + unat sig) mod 2 ^ 32"
    by (rule mod_mod_cancel) (simp add: dvd_def)
  also have "\<dots> = (of_bool s * 2 ^ 31 + e * 2 ^ 23 + unat sig) mod 2 ^ 32"
    unfolding A unat_of_nat by (simp add: mod_add_left_eq)
  finally show ?thesis
    unfolding packToF32UI_def A_def [symmetric] word_unat_eq_iff unat_of_nat by simp
qed

lemma packToF64UI_nat:
  "packToF64UI s (int e) sig = of_nat (of_bool s * 2 ^ 63 + e * 2 ^ 52 + unat sig)"
  by (simp add: packToF64UI_def push_bit_eq_mult)

lemma unat_and_not_one:
  "unat (x AND NOT (of_bool b)) = (if b then unat x - unat x mod 2 else unat x)"
  using unat_and_not_mask [of x 1] by (cases b) (simp_all add: minus_mod_eq_div_mult)

lemma round_word:
  fixes sig inc :: u64
  assumes inc: "unat inc = round_inc m s (2 ^ G)" and G: "1 \<le> G"
    and lt: "unat sig + round_inc m s (2 ^ G) < 2 ^ 64"
    and b: "b \<longleftrightarrow> 2 * (unat sig mod 2 ^ G) = 2 ^ G \<and> m = RNE"
  shows "unat (drop_bit G (sig + inc) AND NOT (of_bool b)) = round_quot m s (unat sig) (2 ^ G)"
proof -
  have "unat (drop_bit G (sig + inc)) = (unat sig + round_inc m s (2 ^ G)) div 2 ^ G"
    using inc lt by (simp only: unat_drop) (simp add: unat_add_small)
  then show ?thesis
    unfolding unat_and_not_one using round_quot_inc [of "2 ^ G" m s "unat sig"] G b
    by (auto simp: Let_def)
qed

lemma round_inc_mode:
  fixes h f :: "'a::len word"
  assumes "0 < D" and h: "unat h = D div 2" and f: "unat f = D - 1"
  shows "unat (if mode \<noteq> softfloat_round_near_even \<and> mode \<noteq> softfloat_round_near_maxMag
      then if mode = (if s then softfloat_round_min else softfloat_round_max) then f else 0
      else h) = round_inc (rmode_of mode) s D"
  using assms by (auto simp: round_inc_def rmode_of_def softfloat_consts)

lemma round_inc_zero:
  assumes "2 \<le> D"
  shows "round_inc m s D = 0 \<longleftrightarrow> \<not> (m = RNE \<or> m = RMM \<or> (m = RDN \<and> s) \<or> (m = RUP \<and> \<not> s))"
  using assms by (cases m) (auto simp: round_inc_def)

lemma round_inc_less: "0 < D \<Longrightarrow> round_inc m s D < D"
  by (simp add: round_inc_def split: rmode.split)

lemma rmode_RNE: "rmode_of mode = RNE \<longleftrightarrow> mode = softfloat_round_near_even"
  by (auto simp: rmode_of_def)

lemma u16_small: "0 \<le> e \<Longrightarrow> e < 2 ^ 16 \<Longrightarrow> uint (word_of_int e :: u16) = e"
  by (simp add: uint_word_of_int)

lemma u16_negative:
  assumes "e < 0" "- (2 ^ 15) \<le> e"
  shows "uint (word_of_int e :: u16) = e + 2 ^ 16"
proof -
  have "e mod 2 ^ 16 = (e + 2 ^ 16) mod 2 ^ 16" by simp
  also have "\<dots> = e + 2 ^ 16" using assms by (intro mod_pos_pos_trivial) auto
  finally show ?thesis by (simp add: uint_word_of_int)
qed

subsection \<open>Rounding to 32 bits\<close>

lemma flag_bits_inexact [simp]:
  "flag_bits False False b = (if b then softfloat_flag_inexact else 0)"
  "flag_bits True False True = softfloat_flag_overflow OR softfloat_flag_inexact"
  "flag_bits False True True = softfloat_flag_underflow OR softfloat_flag_inexact"
  by (simp_all add: flag_bits_def)

lemma xor_zero_iff: "x XOR y = 0 \<longleftrightarrow> x = (y :: 'a::len word)"
proof
  assume "x XOR y = 0"
  then have "(x XOR y) XOR y = 0 XOR y" by (rule arg_cong)
  then show "x = y" by (simp add: xor.assoc)
qed simp

lemma raiseFlags_if:
  "softfloat_raiseFlags (if b then f else 0) st = (if b then softfloat_raiseFlags f st else st)"
  by simp

lemma roundBits32: "unat (ucast (sig AND 0x7F :: u64) :: u8) = unat sig mod 128"
  using unat_and_mask [of sig 7] by (simp add: mask_eq_exp_minus_1 unat_ucast)

lemma roundBits32_tie:
  "(ucast (sig AND 0x7F :: u64) :: u8) XOR 0x40 = 0 \<longleftrightarrow> 2 * (unat sig mod 2 ^ 7) = 2 ^ 7"
  unfolding xor_zero_iff unfolding word_unat_eq_iff roundBits32 by simp

lemma finish32:
  assumes inc: "unat inc = round_inc m s (2 ^ 7)" and rne: "rne \<longleftrightarrow> m = RNE"
    and e: "e = 0 \<or> 2 ^ 7 \<le> unat sig" and sig: "unat sig < 2 ^ 31"
  shows "roundPackToF32_finish s (int e) sig inc (ucast (sig AND 0x7F)) rne st =
    (of_nat (of_bool s * 2 ^ 31 + (e * 2 ^ 23 + round_quot m s (unat sig) (2 ^ 7))),
     softfloat_raiseFlags (flag_bits False False (unat sig mod 2 ^ 7 \<noteq> 0)) st)"
proof -
  let ?b = "(ucast (sig AND 0x7F) :: u8) XOR 0x40 = 0 \<and> rne"
  let ?z = "drop_bit 7 (sig + ucast inc) AND NOT (of_bool ?b)"
  have z: "unat ?z = round_quot m s (unat sig) (2 ^ 7)"
  proof (rule round_word)
    show "unat (ucast inc :: u64) = round_inc m s (2 ^ 7)" using inc by simp
    have "round_inc m s (2 ^ 7) < 2 ^ 8" using inc unat_less_8 [of inc] by simp
    then show "unat sig + round_inc m s (2 ^ 7) < 2 ^ 64" using sig by simp
    show "?b \<longleftrightarrow> 2 * (unat sig mod 2 ^ 7) = 2 ^ 7 \<and> m = RNE" by (simp only: roundBits32_tie rne)
  qed simp
  have nz: "?z = 0 \<Longrightarrow> e = 0"
  proof -
    assume "?z = 0"
    then have "round_quot m s (unat sig) (2 ^ 7) = 0" using z by simp
    then have "unat sig div 2 ^ 7 = 0" using round_quot_bounds(1) [of "unat sig" "2 ^ 7" m s] by linarith
    then show "e = 0" using e by (auto simp: div_eq_0_iff)
  qed
  then have "(if ?z \<noteq> 0 then int e else 0) = int e" by auto
  moreover have "(ucast (sig AND 0x7F) :: u8) \<noteq> 0 \<longleftrightarrow> unat sig mod 2 ^ 7 \<noteq> 0"
    by (simp add: word_unat_eq_iff roundBits32)
  ultimately show ?thesis
    unfolding roundPackToF32_finish_def Let_def by (simp only: packToF32UI_nat z add.assoc flag_bits_inexact raiseFlags_if)
qed

lemma inc_sum_less_32:
  fixes sig :: u64 and inc :: u8
  assumes "unat sig < 2 ^ 31" "unat inc = r"
  shows "sig + ucast inc < 0x80000000 \<longleftrightarrow> unat sig + r < 2 ^ 31"
proof -
  have "unat (sig + ucast inc) = unat sig + r"
    using assms unat_less_8 [of inc] by (subst unat_add_small) simp_all
  then show ?thesis by (simp add: word_less_nat_alt)
qed

lemma jam32_small:
  fixes sig :: u64
  assumes "unat sig < 2 ^ 31" "0 < k" "k < 2 ^ 64"
  shows "unat (ucast (softfloat_shiftRightJam32 (ucast sig) (word_of_int (int k))) :: u64) = sticky (unat sig) (2 ^ k)"
proof -
  have k: "unat (word_of_int (int k) :: u64) = k" using assms by (simp add: unat_of_nat)
  have "unat (ucast (sig :: u64) :: u32) = unat sig" using assms by (simp add: unat_ucast)
  then show ?thesis using jam32.jam_sticky_law [of "word_of_int (int k)" "ucast sig"] assms k by simp
qed

lemma sticky_le: "1 < D \<Longrightarrow> sticky x D \<le> x"
proof (cases "x = 0")
  case False
  assume "1 < D"
  then have "x div D < x" using False by (intro div_less_dividend) auto
  then show ?thesis by (simp add: sticky_def)
qed (simp add: sticky_def)

lemma overflow32:
  "(ucast (packToF32UI s 0xFF 0 - of_bool b) :: u32) =
    of_nat (of_bool s * 2 ^ 31 + (if b then inf_bits 24 8 - 1 else inf_bits 24 8))"
  by (cases s; cases b; simp add: packToF32UI_def inf_bits_def push_bit_eq_mult)

lemma roundPackToF32_correct:
  assumes lo: "2 ^ 30 \<le> unat sig" and hi: "unat sig < 2 ^ 31"
    and e: "- (2 ^ 15) \<le> exp" "exp < 2 ^ 15"
  shows "softfloat_roundPackToF32 s exp sig st =
    fp_result 24 8 st s (unat sig * 2 ^ nat exp) (2 ^ 7 * 2 ^ nat (- exp))"
proof -
  define mode where "mode = softfloat_roundingMode st"
  define m where "m = rmode_of mode"
  define inc :: u8 where "inc = (if mode \<noteq> softfloat_round_near_even \<and> mode \<noteq> softfloat_round_near_maxMag
     then if mode = (if s then softfloat_round_min else softfloat_round_max) then 0x7F else 0
     else 0x40)"
  define after where "after \<longleftrightarrow> softfloat_detectTininess st \<noteq> softfloat_tininess_beforeRounding"
  have inc: "unat inc = round_inc m s (2 ^ 7)"
    unfolding inc_def m_def by (rule round_inc_mode) simp_all
  have rne: "mode = softfloat_round_near_even \<longleftrightarrow> m = RNE" by (simp add: m_def rmode_RNE)
  have sum: "sig + ucast inc < 0x80000000 \<longleftrightarrow> unat sig + round_inc m s (2 ^ 7) < 2 ^ (24 + 7)"
    using inc_sum_less_32 [OF hi inc] by simp
  note finish = finish32 [OF inc rne]
  note code = softfloat_roundPackToF32_def Let_def mode_def [symmetric] inc_def [symmetric]
  note spec = fp_result_def mode_def [symmetric] m_def [symmetric] after_def [symmetric]
  show ?thesis
  proof (cases "exp < 0")
    case True
    define k where "k = nat (- exp)"
    have k: "exp = - int k" "0 < k" "k < 2 ^ 64" using True e by (simp_all add: k_def)
    have g: "0xFD \<le> (word_of_int exp :: u16)"
      using u16_negative [OF True e(1)] e(1) by (simp add: word_le_def)
    define z :: u64 where "z = ucast (softfloat_shiftRightJam32 (ucast sig) (word_of_int (- exp)))"
    have z: "unat z = sticky (unat sig) (2 ^ k)"
      unfolding z_def k(1) minus_minus by (rule jam32_small [OF hi k(2,3)])
    have "sticky (unat sig) (2 ^ k) \<le> unat sig"
      using k one_less_power [of "2::nat" k] by (intro sticky_le) simp
    with hi z have zhi: "unat z < 2 ^ 31" by simp
    have b: "(ucast (z AND 0x7F) :: u8) \<noteq> 0 \<longleftrightarrow> unat z mod 2 ^ 7 \<noteq> 0"
      by (simp add: word_unat_eq_iff roundBits32)
    have t: "exp < - 1 \<longleftrightarrow> 1 < k" using k by auto
    have spec1: "ieee_result 24 8 after m s (unat sig * 2 ^ nat exp) (2 ^ 7 * 2 ^ nat (- exp)) =
        (round_quot m s (unat z) (2 ^ 7), False,
         (\<not> after \<or> 1 < k \<or> unat sig + round_inc m s (2 ^ 7) < 2 ^ (24 + 7)) \<and> unat z mod 2 ^ 7 \<noteq> 0,
         unat z mod 2 ^ 7 \<noteq> 0)"
      using ieee_result_subnormal [of 24 8 7 k "unat sig" after m s] hi k z
      by (simp add: Let_def mult.commute)
    have fin: "roundPackToF32_finish s 0 z inc (ucast (z AND 0x7F)) (mode = softfloat_round_near_even) st' =
      (of_nat (of_bool s * 2 ^ 31 + round_quot m s (unat z) (2 ^ 7)),
       softfloat_raiseFlags (flag_bits False False (unat z mod 2 ^ 7 \<noteq> 0)) st')" for st'
      using finish [of 0 z st', OF _ zhi] by simp
    have tiny: "(softfloat_detectTininess st = softfloat_tininess_beforeRounding \<or> exp < - 1
        \<or> sig + ucast inc < 0x80000000) \<longleftrightarrow>
      (\<not> after \<or> 1 < k \<or> unat sig + round_inc m s (2 ^ 7) < 2 ^ (24 + 7))"
      unfolding sum t after_def by simp
    have "softfloat_roundPackToF32 s exp sig st =
      roundPackToF32_finish s 0 z inc (ucast (z AND 0x7F)) (mode = softfloat_round_near_even)
       (if (\<not> after \<or> 1 < k \<or> unat sig + round_inc m s (2 ^ 7) < 2 ^ (24 + 7)) \<and> unat z mod 2 ^ 7 \<noteq> 0
        then softfloat_raiseFlags softfloat_flag_underflow st else st)"
      unfolding code z_def [symmetric] tiny b using True g by (simp only: if_True)
    then show ?thesis unfolding fin spec spec1 by simp
  next
    case False
    define E where "E = nat exp"
    have E: "exp = int E" "nat (- exp) = 0" using False by (simp_all add: E_def)
    have u: "uint (word_of_int exp :: u16) = exp" using False e by (intro u16_small) simp_all
    have g: "0xFD \<le> (word_of_int exp :: u16) \<longleftrightarrow> 253 \<le> exp" by (simp add: word_le_def u)
    have spec1: "ieee_result 24 8 after m s (unat sig * 2 ^ E) (2 ^ 7) =
      (if 2 ^ 8 - 3 < E \<or> (E = 2 ^ 8 - 3 \<and> 2 ^ (24 + 7) \<le> unat sig + round_inc m s (2 ^ 7))
       then (overflow_bits 24 8 m s, True, False, True)
       else (E * 2 ^ (24 - 1) + round_quot m s (unat sig) (2 ^ 7), False, False, unat sig mod 2 ^ 7 \<noteq> 0))"
      using lo hi by (intro ieee_result_normal) simp_all
    have ov: "overflow_bits 24 8 m s = (if inc = 0 then inf_bits 24 8 - 1 else inf_bits 24 8)"
      using round_inc_zero [of "2 ^ 7" m s] inc by (auto simp: overflow_bits_def unat_eq_0)
    have fin: "roundPackToF32_finish s exp sig inc (ucast (sig AND 0x7F)) (mode = softfloat_round_near_even) st =
      (of_nat (of_bool s * 2 ^ 31 + (E * 2 ^ 23 + round_quot m s (unat sig) (2 ^ 7))),
       softfloat_raiseFlags (flag_bits False False (unat sig mod 2 ^ 7 \<noteq> 0)) st)"
      unfolding E using lo hi by (intro finish) simp_all
    show ?thesis
    proof (cases "253 < exp \<or> (exp = 253 \<and> \<not> sig + ucast inc < 0x80000000)")
      case True
      then have "2 ^ 8 - 3 < E \<or> (E = 2 ^ 8 - 3 \<and> 2 ^ (24 + 7) \<le> unat sig + round_inc m s (2 ^ 7))"
        unfolding sum by (auto simp: E_def)
      then show ?thesis
        unfolding code spec E(2) E_def [symmetric] power_0 mult_1_right spec1 ov
        using True False g by (auto simp: overflow32)
    next
      case F: False
      then have "\<not> (2 ^ 8 - 3 < E \<or> (E = 2 ^ 8 - 3 \<and> 2 ^ (24 + 7) \<le> unat sig + round_inc m s (2 ^ 7)))"
        unfolding sum using False by (auto simp: E_def)
      then show ?thesis
        unfolding code spec E(2) E_def [symmetric] power_0 mult_1_right spec1 
        using F False g fin by auto
    qed
  qed
qed

subsection \<open>Rounding to 64 bits\<close>

lemma roundBits64: "unat (sig AND 0x3FF :: u64) = unat sig mod 1024"
  using unat_and_mask [of sig 10] by (simp add: mask_eq_exp_minus_1 unat_ucast)

lemma roundBits64_tie:
  "(sig AND 0x3FF :: u64) XOR 0x200 = 0 \<longleftrightarrow> 2 * (unat sig mod 2 ^ 10) = 2 ^ 10"
  unfolding xor_zero_iff unfolding word_unat_eq_iff roundBits64 by simp

lemma finish64:
  assumes inc: "unat inc = round_inc m s (2 ^ 10)" and rne: "rne \<longleftrightarrow> m = RNE"
    and e: "e = 0 \<or> 2 ^ 10 \<le> unat sig" and sig: "unat sig < 2 ^ 63"
  shows "roundPackToF64_finish s (int e) sig inc (sig AND 0x3FF) rne st =
    (of_nat (of_bool s * 2 ^ 63 + (e * 2 ^ 52 + round_quot m s (unat sig) (2 ^ 10))),
     softfloat_raiseFlags (flag_bits False False (unat sig mod 2 ^ 10 \<noteq> 0)) st)"
proof -
  let ?b = "(sig AND 0x3FF) XOR 0x200 = 0 \<and> rne"
  let ?z = "drop_bit 10 (sig + inc) AND NOT (of_bool ?b)"
  have z: "unat ?z = round_quot m s (unat sig) (2 ^ 10)"
  proof (rule round_word)
    show "unat (inc) = round_inc m s (2 ^ 10)" using inc by simp
    have "round_inc m s (2 ^ 10) < 2 ^ 10" by (rule round_inc_less) simp
    then show "unat sig + round_inc m s (2 ^ 10) < 2 ^ 64" using sig by simp
    show "?b \<longleftrightarrow> 2 * (unat sig mod 2 ^ 10) = 2 ^ 10 \<and> m = RNE" by (simp only: roundBits64_tie rne)
  qed simp
  have nz: "?z = 0 \<Longrightarrow> e = 0"
  proof -
    assume "?z = 0"
    then have "round_quot m s (unat sig) (2 ^ 10) = 0" using z by simp
    then have "unat sig div 2 ^ 10 = 0" using round_quot_bounds(1) [of "unat sig" "2 ^ 10" m s] by linarith
    then show "e = 0" using e by (auto simp: div_eq_0_iff)
  qed
  then have "(if ?z \<noteq> 0 then int e else 0) = int e" by auto
  moreover have "(sig AND 0x3FF) \<noteq> 0 \<longleftrightarrow> unat sig mod 2 ^ 10 \<noteq> 0"
    by (simp add: word_unat_eq_iff roundBits64)
  ultimately show ?thesis
    unfolding roundPackToF64_finish_def Let_def by (simp only: packToF64UI_nat z add.assoc flag_bits_inexact raiseFlags_if)
qed

lemma inc_sum_less_64:
  fixes sig :: u64 and inc :: u64
  assumes "unat sig < 2 ^ 63" "unat inc = r" "r < 2 ^ 10"
  shows "sig + inc < 0x8000000000000000 \<longleftrightarrow> unat sig + r < 2 ^ 63"
proof -
  have "unat (sig + inc) = unat sig + r"
    using assms by (subst unat_add_small) simp_all
  then show ?thesis by (simp add: word_less_nat_alt)
qed

lemma jam64_small:
  assumes "0 < k" "k < 2 ^ 64"
  shows "unat (softfloat_shiftRightJam64 sig (word_of_int (int k))) = sticky (unat sig) (2 ^ k)"
  using jam64.jam_sticky_law [of "word_of_int (int k)" sig] assms by (simp add: unat_of_nat)

lemma overflow64:
  "packToF64UI s 0x7FF 0 - of_bool b =
    of_nat (of_bool s * 2 ^ 63 + (if b then inf_bits 53 11 - 1 else inf_bits 53 11))"
  by (cases s; cases b; simp add: packToF64UI_def inf_bits_def push_bit_eq_mult)

lemma roundPackToF64_correct:
  assumes lo: "2 ^ 62 \<le> unat sig" and hi: "unat sig < 2 ^ 63"
    and e: "- (2 ^ 15) \<le> exp" "exp < 2 ^ 15"
  shows "softfloat_roundPackToF64 s exp sig st =
    fp_result 53 11 st s (unat sig * 2 ^ nat exp) (2 ^ 10 * 2 ^ nat (- exp))"
proof -
  define mode where "mode = softfloat_roundingMode st"
  define m where "m = rmode_of mode"
  define inc :: u64 where "inc = (if mode \<noteq> softfloat_round_near_even \<and> mode \<noteq> softfloat_round_near_maxMag
     then if mode = (if s then softfloat_round_min else softfloat_round_max) then 0x3FF else 0
     else 0x200)"
  define after where "after \<longleftrightarrow> softfloat_detectTininess st \<noteq> softfloat_tininess_beforeRounding"
  have inc: "unat inc = round_inc m s (2 ^ 10)"
    unfolding inc_def m_def by (rule round_inc_mode) simp_all
  have rne: "mode = softfloat_round_near_even \<longleftrightarrow> m = RNE" by (simp add: m_def rmode_RNE)
  have sum: "sig + inc < 0x8000000000000000 \<longleftrightarrow> unat sig + round_inc m s (2 ^ 10) < 2 ^ (53 + 10)"
    using inc_sum_less_64 [OF hi inc round_inc_less] by simp
  note finish = finish64 [OF inc rne]
  note code = softfloat_roundPackToF64_def Let_def mode_def [symmetric] inc_def [symmetric]
  note spec = fp_result_def mode_def [symmetric] m_def [symmetric] after_def [symmetric]
  show ?thesis
  proof (cases "exp < 0")
    case True
    define k where "k = nat (- exp)"
    have k: "exp = - int k" "0 < k" "k < 2 ^ 64" using True e by (simp_all add: k_def)
    have g: "0x7FD \<le> (word_of_int exp :: u16)"
      using u16_negative [OF True e(1)] e(1) by (simp add: word_le_def)
    define z :: u64 where "z = softfloat_shiftRightJam64 sig (word_of_int (- exp))"
    have z: "unat z = sticky (unat sig) (2 ^ k)"
      unfolding z_def k(1) minus_minus by (rule jam64_small [OF k(2,3)])
    have "sticky (unat sig) (2 ^ k) \<le> unat sig"
      using k one_less_power [of "2::nat" k] by (intro sticky_le) simp
    with hi z have zhi: "unat z < 2 ^ 63" by simp
    have b: "(z AND 0x3FF) \<noteq> 0 \<longleftrightarrow> unat z mod 2 ^ 10 \<noteq> 0"
      by (simp add: word_unat_eq_iff roundBits64)
    have t: "exp < - 1 \<longleftrightarrow> 1 < k" using k by auto
    have spec1: "ieee_result 53 11 after m s (unat sig * 2 ^ nat exp) (2 ^ 10 * 2 ^ nat (- exp)) =
        (round_quot m s (unat z) (2 ^ 10), False,
         (\<not> after \<or> 1 < k \<or> unat sig + round_inc m s (2 ^ 10) < 2 ^ (53 + 10)) \<and> unat z mod 2 ^ 10 \<noteq> 0,
         unat z mod 2 ^ 10 \<noteq> 0)"
      using ieee_result_subnormal [of 53 11 10 k "unat sig" after m s] hi k z
      by (simp add: Let_def mult.commute)
    have fin: "roundPackToF64_finish s 0 z inc (z AND 0x3FF) (mode = softfloat_round_near_even) st' =
      (of_nat (of_bool s * 2 ^ 63 + round_quot m s (unat z) (2 ^ 10)),
       softfloat_raiseFlags (flag_bits False False (unat z mod 2 ^ 10 \<noteq> 0)) st')" for st'
      using finish [of 0 z st', OF _ zhi] by simp
    have tiny: "(softfloat_detectTininess st = softfloat_tininess_beforeRounding \<or> exp < - 1
        \<or> sig + inc < 0x8000000000000000) \<longleftrightarrow>
      (\<not> after \<or> 1 < k \<or> unat sig + round_inc m s (2 ^ 10) < 2 ^ (53 + 10))"
      unfolding sum t after_def by simp
    have "softfloat_roundPackToF64 s exp sig st =
      roundPackToF64_finish s 0 z inc (z AND 0x3FF) (mode = softfloat_round_near_even)
       (if (\<not> after \<or> 1 < k \<or> unat sig + round_inc m s (2 ^ 10) < 2 ^ (53 + 10)) \<and> unat z mod 2 ^ 10 \<noteq> 0
        then softfloat_raiseFlags softfloat_flag_underflow st else st)"
      unfolding code z_def [symmetric] tiny b using True g by (simp only: if_True)
    then show ?thesis unfolding fin spec spec1 by simp
  next
    case False
    define E where "E = nat exp"
    have E: "exp = int E" "nat (- exp) = 0" using False by (simp_all add: E_def)
    have u: "uint (word_of_int exp :: u16) = exp" using False e by (intro u16_small) simp_all
    have g: "0x7FD \<le> (word_of_int exp :: u16) \<longleftrightarrow> 2045 \<le> exp" by (simp add: word_le_def u)
    have spec1: "ieee_result 53 11 after m s (unat sig * 2 ^ E) (2 ^ 10) =
      (if 2 ^ 11 - 3 < E \<or> (E = 2 ^ 11 - 3 \<and> 2 ^ (53 + 10) \<le> unat sig + round_inc m s (2 ^ 10))
       then (overflow_bits 53 11 m s, True, False, True)
       else (E * 2 ^ (53 - 1) + round_quot m s (unat sig) (2 ^ 10), False, False, unat sig mod 2 ^ 10 \<noteq> 0))"
      using lo hi by (intro ieee_result_normal) simp_all
    have ov: "overflow_bits 53 11 m s = (if inc = 0 then inf_bits 53 11 - 1 else inf_bits 53 11)"
      using round_inc_zero [of "2 ^ 10" m s] inc by (auto simp: overflow_bits_def unat_eq_0)
    have fin: "roundPackToF64_finish s exp sig inc (sig AND 0x3FF) (mode = softfloat_round_near_even) st =
      (of_nat (of_bool s * 2 ^ 63 + (E * 2 ^ 52 + round_quot m s (unat sig) (2 ^ 10))),
       softfloat_raiseFlags (flag_bits False False (unat sig mod 2 ^ 10 \<noteq> 0)) st)"
      unfolding E using lo hi by (intro finish) simp_all
    show ?thesis
    proof (cases "2045 < exp \<or> (exp = 2045 \<and> \<not> sig + inc < 0x8000000000000000)")
      case True
      then have "2 ^ 11 - 3 < E \<or> (E = 2 ^ 11 - 3 \<and> 2 ^ (53 + 10) \<le> unat sig + round_inc m s (2 ^ 10))"
        unfolding sum by (auto simp: E_def)
      then show ?thesis
        unfolding code spec E(2) E_def [symmetric] power_0 mult_1_right spec1 ov
        using True False g by (auto simp: overflow64)
    next
      case F: False
      then have "\<not> (2 ^ 11 - 3 < E \<or> (E = 2 ^ 11 - 3 \<and> 2 ^ (53 + 10) \<le> unat sig + round_inc m s (2 ^ 10)))"
        unfolding sum using False by (auto simp: E_def)
      then show ?thesis
        unfolding code spec E(2) E_def [symmetric] power_0 mult_1_right spec1 
        using F False g fin by auto
    qed
  qed
qed

subsection \<open>Scaled results and normalisation\<close>

text \<open>The result for the value \<open>sig * 2 ^ (e - G)\<close>, the form in which the operations hand a
  significand with \<open>G\<close> extra bits to the rounding routine.\<close>

definition fp_scaled ::
  "nat \<Rightarrow> nat \<Rightarrow> nat \<Rightarrow> sf_state \<Rightarrow> bool \<Rightarrow> nat \<Rightarrow> int \<Rightarrow> 'a::len word \<times> sf_state" where
  "fp_scaled p w G st s sig e = fp_result p w st s (sig * 2 ^ nat e) (2 ^ G * 2 ^ nat (- e))"

lemma ieee_result_cong:
  assumes "0 < D" "0 < D'" "N * D' = N' * D"
  shows "ieee_result p w after m s N D = ieee_result p w after m s N' D'"
proof -
  have "ieee_result p w after m s N D = ieee_result p w after m s (N * D') (D * D')"
    by (rule ieee_result_scale [OF assms(1,2), symmetric])
  also have "\<dots> = ieee_result p w after m s (N' * D) (D' * D)"
    unfolding assms(3) by (simp only: mult.commute)
  also have "\<dots> = ieee_result p w after m s N' D'" by (rule ieee_result_scale [OF assms(2,1)])
  finally show ?thesis .
qed

lemma fp_result_cong:
  assumes "0 < D" "0 < D'" "N * D' = N' * D"
  shows "fp_result p w st s N D = fp_result p w st s N' D'"
  unfolding fp_result_def by (simp only: ieee_result_cong [OF assms])

lemma fp_result_sticky:
  assumes "0 < D" "3 \<le> j"
  shows "fp_result p w st s (sticky N D) (2 ^ j) = fp_result p w st s N (D * 2 ^ j)"
  unfolding fp_result_def by (simp only: ieee_result_sticky [OF assms])

lemma fp_scaled_shift:
  "fp_scaled p w G st s (sig * 2 ^ k) e = fp_scaled p w G st s sig (e + int k)"
  unfolding fp_scaled_def
proof (rule fp_result_cong)
  have "k + nat e + nat (- (e + int k)) = nat (e + int k) + nat (- e)" by linarith
  then have "(2::nat) ^ k * 2 ^ nat e * 2 ^ nat (- (e + int k)) = 2 ^ nat (e + int k) * 2 ^ nat (- e)"
    by (simp flip: power_add)
  then show "sig * 2 ^ k * 2 ^ nat e * (2 ^ G * 2 ^ nat (- (e + int k))) =
    sig * 2 ^ nat (e + int k) * (2 ^ G * 2 ^ nat (- e))"
    by (simp add: ac_simps)
qed simp_all

text \<open>A normalised significand that ends in a sticky bit rounds like the exact quotient it
  stands for, at every exponent.\<close>

lemma ieee_result_normal_sticky:
  assumes D: "0 < D" and G: "2 \<le> G" and p: "1 \<le> p"
    and lo: "2 ^ (p + G - 1) \<le> sticky N D" and hi: "sticky N D < 2 ^ (p + G)"
  shows "ieee_result p w after m s (sticky N D * 2 ^ e) (2 ^ G) =
    ieee_result p w after m s (N * 2 ^ e) (D * 2 ^ G)"
proof -
  define B where "B = D * 2 ^ G"
  have B: "0 < B" using D by (simp add: B_def)
  have pG: "2 ^ (p + G - 1) = (2::nat) ^ (p - 1) * 2 ^ G" using p by (simp flip: power_add)
  have Nlo: "2 ^ (p - 1) * B \<le> N"
    using sticky_less_iff [OF D, of G N "2 ^ (p - 1)"] G lo unfolding pG B_def
    by (simp only: not_less [symmetric]) simp
  have Nhi: "N < 2 ^ p * B"
    using sticky_less_iff [OF D, of G N "2 ^ p"] G hi by (simp add: power_add B_def)
  have q1: "fquantum p (sticky N D * 2 ^ e) (2 ^ G) = e" by (rule normal_quantum [OF p lo hi])
  have q2: "fquantum p (N * 2 ^ e) B = e"
  proof (rule fquantum_unique [OF B])
    show "N * 2 ^ e < 2 ^ p * (2 ^ e * B)" using Nhi by (simp add: ac_simps)
    have "2 ^ p * B \<le> 2 * N" using Nlo unfolding two_power_split [OF p] by simp
    then have "2 ^ p * B * 2 ^ e \<le> 2 * N * 2 ^ e" by (rule mult_le_mono1)
    then show "e = 0 \<or> 2 ^ p * (2 ^ e * B) \<le> 2 * (N * 2 ^ e)" by (simp add: ac_simps)
  qed
  have M: "ieee_round p m s (sticky N D * 2 ^ e) (2 ^ G) = ieee_round p m s (N * 2 ^ e) B"
    unfolding ieee_round_def q1 q2 Let_def using D G
    by (simp add: round_quot_scale round_quot_sticky B_def)
  have x1: "ieee_round p m s (N * 2 ^ e) B * 2 ^ G = sticky N D * 2 ^ e \<longleftrightarrow> N mod B = 0"
    using ieee_round_exact_iff [of "2 ^ G" p m s "sticky N D * 2 ^ e"] sticky_mod_zero [OF D, of G N] G
    by (simp add: M q1 mod_mult_mult2 B_def)
  have x2: "ieee_round p m s (N * 2 ^ e) B * B = N * 2 ^ e \<longleftrightarrow> N mod B = 0"
    using ieee_round_exact_iff [OF B, of p m s "N * 2 ^ e"] by (simp add: q2 mod_mult_mult2)
  have big: "\<not> x * 2 ^ e < y" if "y \<le> x" for x y :: nat
    using that by (metis le_trans mult_le_mono2 mult.right_neutral not_le one_le_numeral one_le_power)
  have t: "\<not> tiny p after m s (sticky N D * 2 ^ e) (2 ^ G)" "\<not> tiny p after m s (N * 2 ^ e) B"
    using big [OF Nlo] big [OF lo [unfolded pG]] by (simp_all add: tiny_def)
  show ?thesis
    unfolding ieee_result_def M Let_def x1 B_def [symmetric] x2 using t by simp
qed

lemma fp_scaled_sticky:
  assumes D: "0 < D" and G: "2 \<le> G" and p: "1 \<le> p"
    and lo: "2 ^ (p + G - 1) \<le> sticky N D" and hi: "sticky N D < 2 ^ (p + G)"
  shows "fp_scaled p w G st s (sticky N D) e =
    fp_result p w st s (N * 2 ^ nat e) (D * 2 ^ G * 2 ^ nat (- e))"
proof (cases "0 \<le> e")
  case True
  then show ?thesis
    unfolding fp_scaled_def fp_result_def using ieee_result_normal_sticky [OF assms] by simp
next
  case False
  then have "fp_scaled p w G st s (sticky N D) e = fp_result p w st s (sticky N D) (2 ^ (G + nat (- e)))"
    by (simp add: fp_scaled_def power_add)
  also have "\<dots> = fp_result p w st s N (D * 2 ^ (G + nat (- e)))"
    using D G False by (intro fp_result_sticky) auto
  finally show ?thesis using False by (simp add: power_add ac_simps)
qed

lemma roundPackToF32_scaled:
  assumes "2 ^ 30 \<le> unat sig" "unat sig < 2 ^ 31" "- (2 ^ 15) \<le> exp" "exp < 2 ^ 15"
  shows "softfloat_roundPackToF32 s exp sig st = fp_scaled 24 8 7 st s (unat sig) exp"
  unfolding fp_scaled_def by (rule roundPackToF32_correct [OF assms])

lemma roundPackToF64_scaled:
  assumes "2 ^ 62 \<le> unat sig" "unat sig < 2 ^ 63" "- (2 ^ 15) \<le> exp" "exp < 2 ^ 15"
  shows "softfloat_roundPackToF64 s exp sig st = fp_scaled 53 11 10 st s (unat sig) exp"
  unfolding fp_scaled_def by (rule roundPackToF64_correct [OF assms])

lemma fp_scaled_exact:
  assumes p: "1 \<le> p" and w: "2 \<le> w" and G: "1 \<le> G"
    and lo: "2 ^ (p - 1) \<le> R" and hi: "R < 2 ^ p" and e: "e < 2 ^ w - 3"
  shows "fp_scaled p w G st s (R * 2 ^ G) (int e) =
    (of_nat (of_bool s * 2 ^ (w + p - 1) + (e * 2 ^ (p - 1) + R)), st)"
proof -
  have pG: "2 ^ (p + G - 1) = (2::nat) ^ (p - 1) * 2 ^ G" using p by (simp flip: power_add)
  have "ieee_result p w after m s (R * 2 ^ G * 2 ^ e) (2 ^ G) =
      (e * 2 ^ (p - 1) + R, False, False, False)" for after m
    using ieee_result_normal [OF p w G, of "R * 2 ^ G" after m s e] lo hi e unfolding pG
    by (simp add: power_add round_quot_exact)
  then show ?thesis by (simp add: fp_scaled_def fp_result_def)
qed

lemma clz32_shift:
  fixes sig :: u64
  assumes "0 < unat sig" "unat sig < 2 ^ 31"
  obtains k where "uint (softfloat_countLeadingZeros32 (ucast sig)) = int k + 1" "k < 31"
    "2 ^ 30 \<le> unat sig * 2 ^ k" "unat sig * 2 ^ k < 2 ^ 31"
    "unat (push_bit k sig) = unat sig * 2 ^ k"
proof -
  let ?c = "unat (softfloat_countLeadingZeros32 (ucast sig))"
  have "unat (ucast sig :: u32) = unat sig" "(ucast sig :: u32) \<noteq> 0"
    using assms by (auto simp: unat_ucast word_unat_eq_iff)
  note b = countLeadingZeros32_bounds [OF this(2), unfolded this(1)]
  have "?c \<noteq> 0" using b(1) assms(2) by (auto intro: ccontr)
  then obtain k where k: "?c = Suc k" using not0_implies_Suc by blast
  have u: "uint (softfloat_countLeadingZeros32 (ucast sig)) = int k + 1" using k by (simp add: uint_nat)
  have lo: "2 ^ 30 \<le> unat sig * 2 ^ k" and hi: "unat sig * 2 ^ k < 2 ^ 31"
    using b(1,2) unfolding k by simp_all
  have "unat (push_bit k sig) = unat sig * 2 ^ k" using hi by (intro unat_push_small) simp
  then show thesis using that u lo hi b(3) k by simp
qed

lemma normRoundPackToF32_scaled:
  assumes sig: "0 < unat sig" "unat sig < 2 ^ 31" and e: "- (2 ^ 14) \<le> exp" "exp < 2 ^ 15"
  shows "softfloat_normRoundPackToF32 s exp sig st = fp_scaled 24 8 7 st s (unat sig) exp"
proof -
  obtain k where c: "uint (softfloat_countLeadingZeros32 (ucast sig)) = int k + 1" "k < 31"
    and lo: "2 ^ 30 \<le> unat sig * 2 ^ k" and hi: "unat sig * 2 ^ k < 2 ^ 31"
    and push: "unat (push_bit k sig) = unat sig * 2 ^ k"
    using clz32_shift [OF sig] by blast
  have scaled: "fp_scaled 24 8 7 st s (unat sig) exp = fp_scaled 24 8 7 st s (unat sig * 2 ^ k) (exp - int k)"
    by (simp add: fp_scaled_shift)
  have a: "int k + 1 - 1 = int k" "(7 \<le> int k) = (7 \<le> k)" "nat (int k - 7) = k - 7" "nat (int k) = k"
    by linarith+
  have code: "softfloat_normRoundPackToF32 s exp sig st =
    (if 7 \<le> k \<and> (word_of_int (exp - int k) :: u16) < 0xFD
     then (ucast (packToF32UI s (if sig \<noteq> 0 then exp - int k else 0) (push_bit (k - 7) sig)), st)
     else softfloat_roundPackToF32 s (exp - int k) (push_bit k sig) st)"
    unfolding softfloat_normRoundPackToF32_def Let_def c a by (rule refl)
  have sig0: "sig \<noteq> 0" using sig(1) by auto
  show ?thesis
  proof (cases "7 \<le> k \<and> (word_of_int (exp - int k) :: u16) < 0xFD")
    case True
    have nn: "0 \<le> exp - int k"
    proof (rule ccontr)
      assume "\<not> 0 \<le> exp - int k"
      then have "uint (word_of_int (exp - int k) :: u16) = exp - int k + 2 ^ 16"
        using e c(2) by (intro u16_negative) auto
      then show False using True e c(2) by (simp add: word_less_def)
    qed
    define E where "E = nat (exp - int k)"
    have E: "exp - int k = int E" using nn by (simp add: E_def)
    have "int E < 2 ^ 15" using e(2) E [symmetric] by simp
    then have "uint (word_of_int (int E) :: u16) = int E" by (intro u16_small) simp_all
    then have El: "E < 2 ^ 8 - 3" using True unfolding E by (simp add: word_less_def)
    have k: "k = (k - 7) + 7" using True by simp
    have R: "unat sig * 2 ^ k = unat sig * 2 ^ (k - 7) * 2 ^ 7"
      by (subst k) (simp add: power_add)
    have Rlo: "2 ^ (24 - 1) \<le> unat sig * 2 ^ (k - 7)" and Rhi: "unat sig * 2 ^ (k - 7) < 2 ^ 24"
      using lo hi unfolding R by simp_all
    have "unat (push_bit (k - 7) sig) = unat sig * 2 ^ (k - 7)"
      using Rhi by (intro unat_push_small) simp
    then have "softfloat_normRoundPackToF32 s exp sig st =
        (of_nat (of_bool s * 2 ^ 31 + (E * 2 ^ 23 + unat sig * 2 ^ (k - 7))), st)"
      unfolding code E if_P [OF True [unfolded E]] if_P [OF sig0]
      by (simp only: packToF32UI_nat add.assoc)
    also have "\<dots> = fp_scaled 24 8 7 st s (unat sig * 2 ^ (k - 7) * 2 ^ 7) (int E)"
      by (subst fp_scaled_exact [OF _ _ _ Rlo Rhi El]) simp_all
    finally show ?thesis unfolding scaled R E .
  next
    case False
    then have "softfloat_normRoundPackToF32 s exp sig st =
        softfloat_roundPackToF32 s (exp - int k) (push_bit k sig) st"
      unfolding code by (rule if_not_P)
    also have "\<dots> = fp_scaled 24 8 7 st s (unat sig * 2 ^ k) (exp - int k)"
      using lo hi e c(2) push by (subst roundPackToF32_scaled) simp_all
    finally show ?thesis unfolding scaled .
  qed
qed

lemma clz64_shift:
  fixes sig :: u64
  assumes "0 < unat sig" "unat sig < 2 ^ 63"
  obtains k where "uint (softfloat_countLeadingZeros64 sig) = int k + 1" "k < 63"
    "2 ^ 62 \<le> unat sig * 2 ^ k" "unat sig * 2 ^ k < 2 ^ 63"
    "unat (push_bit k sig) = unat sig * 2 ^ k"
proof -
  let ?c = "unat (softfloat_countLeadingZeros64 sig)"
  have "sig \<noteq> 0" using assms by auto
  note b = countLeadingZeros64_bounds [OF this]
  have "?c \<noteq> 0" using b(1) assms(2) by (auto intro: ccontr)
  then obtain k where k: "?c = Suc k" using not0_implies_Suc by blast
  have u: "uint (softfloat_countLeadingZeros64 sig) = int k + 1" using k by (simp add: uint_nat)
  have lo: "2 ^ 62 \<le> unat sig * 2 ^ k" and hi: "unat sig * 2 ^ k < 2 ^ 63"
    using b(1,2) unfolding k by simp_all
  have "unat (push_bit k sig) = unat sig * 2 ^ k" using hi by (intro unat_push_small) simp
  then show thesis using that u lo hi b(3) k by simp
qed

lemma normRoundPackToF64_scaled:
  assumes sig: "0 < unat sig" "unat sig < 2 ^ 63" and e: "- (2 ^ 14) \<le> exp" "exp < 2 ^ 15"
  shows "softfloat_normRoundPackToF64 s exp sig st = fp_scaled 53 11 10 st s (unat sig) exp"
proof -
  obtain k where c: "uint (softfloat_countLeadingZeros64 sig) = int k + 1" "k < 63"
    and lo: "2 ^ 62 \<le> unat sig * 2 ^ k" and hi: "unat sig * 2 ^ k < 2 ^ 63"
    and push: "unat (push_bit k sig) = unat sig * 2 ^ k"
    using clz64_shift [OF sig] by blast
  have scaled: "fp_scaled 53 11 10 st s (unat sig) exp = fp_scaled 53 11 10 st s (unat sig * 2 ^ k) (exp - int k)"
    by (simp add: fp_scaled_shift)
  have a: "int k + 1 - 1 = int k" "(10 \<le> int k) = (10 \<le> k)" "nat (int k - 10) = k - 10" "nat (int k) = k"
    by linarith+
  have code: "softfloat_normRoundPackToF64 s exp sig st =
    (if 10 \<le> k \<and> (word_of_int (exp - int k) :: u16) < 0x7FD
     then (packToF64UI s (if sig \<noteq> 0 then exp - int k else 0) (push_bit (k - 10) sig), st)
     else softfloat_roundPackToF64 s (exp - int k) (push_bit k sig) st)"
    unfolding softfloat_normRoundPackToF64_def Let_def c a by (rule refl)
  have sig0: "sig \<noteq> 0" using sig(1) by auto
  show ?thesis
  proof (cases "10 \<le> k \<and> (word_of_int (exp - int k) :: u16) < 0x7FD")
    case True
    have nn: "0 \<le> exp - int k"
    proof (rule ccontr)
      assume "\<not> 0 \<le> exp - int k"
      then have "uint (word_of_int (exp - int k) :: u16) = exp - int k + 2 ^ 16"
        using e c(2) by (intro u16_negative) auto
      then show False using True e c(2) by (simp add: word_less_def)
    qed
    define E where "E = nat (exp - int k)"
    have E: "exp - int k = int E" using nn by (simp add: E_def)
    have "int E < 2 ^ 15" using e(2) E [symmetric] by simp
    then have "uint (word_of_int (int E) :: u16) = int E" by (intro u16_small) simp_all
    then have El: "E < 2 ^ 11 - 3" using True unfolding E by (simp add: word_less_def)
    have k: "k = (k - 10) + 10" using True by simp
    have R: "unat sig * 2 ^ k = unat sig * 2 ^ (k - 10) * 2 ^ 10"
      by (subst k) (simp add: power_add)
    have Rlo: "2 ^ (53 - 1) \<le> unat sig * 2 ^ (k - 10)" and Rhi: "unat sig * 2 ^ (k - 10) < 2 ^ 53"
      using lo hi unfolding R by simp_all
    have "unat (push_bit (k - 10) sig) = unat sig * 2 ^ (k - 10)"
      using Rhi by (intro unat_push_small) simp
    then have "softfloat_normRoundPackToF64 s exp sig st =
        (of_nat (of_bool s * 2 ^ 63 + (E * 2 ^ 52 + unat sig * 2 ^ (k - 10))), st)"
      unfolding code E if_P [OF True [unfolded E]] if_P [OF sig0]
      by (simp only: packToF64UI_nat add.assoc)
    also have "\<dots> = fp_scaled 53 11 10 st s (unat sig * 2 ^ (k - 10) * 2 ^ 10) (int E)"
      by (subst fp_scaled_exact [OF _ _ _ Rlo Rhi El]) simp_all
    finally show ?thesis unfolding scaled R E .
  next
    case False
    then have "softfloat_normRoundPackToF64 s exp sig st =
        softfloat_roundPackToF64 s (exp - int k) (push_bit k sig) st"
      unfolding code by (rule if_not_P)
    also have "\<dots> = fp_scaled 53 11 10 st s (unat sig * 2 ^ k) (exp - int k)"
      using lo hi e c(2) push by (subst roundPackToF64_scaled) simp_all
    finally show ?thesis unfolding scaled .
  qed
qed

subsection \<open>Equal values give equal results\<close>

lemma fp_result_cong_rat:
  assumes "0 < D" "0 < D'" "(of_nat N / of_nat D :: rat) = of_nat N' / of_nat D'"
  shows "fp_result p w st s N D = fp_result p w st s N' D'"
proof (rule fp_result_cong [OF assms(1,2)])
  have "(of_nat (N * D') :: rat) = of_nat (N' * D)"
    using assms by (simp add: field_simps)
  then show "N * D' = N' * D" by (simp only: of_nat_eq_iff)
qed

lemma two_powi_split: "(2::rat) ^ nat e / 2 ^ nat (- e) = 2 powi e"
  by (cases "0 \<le> e") (simp_all add: power_int_def inverse_eq_divide power_one_over)

lemma scaled_rat:
  "(of_nat (N * 2 ^ nat e) / of_nat (D * 2 ^ nat (- e)) :: rat) = of_nat N / of_nat D * 2 powi e"
  by (simp flip: two_powi_split)

lemma fp_scaled_eq_result:
  assumes "0 < D" "(of_nat N / of_nat D :: rat) = of_nat sig * 2 powi (e - int G)"
  shows "fp_scaled p w G st s sig e = fp_result p w st s N D"
  unfolding fp_scaled_def
proof (rule fp_result_cong_rat)
  show "(of_nat (sig * 2 ^ nat e) / of_nat (2 ^ G * 2 ^ nat (- e)) :: rat) = of_nat N / of_nat D"
    unfolding scaled_rat assms(2) by (simp add: power_int_diff)
qed (use assms in auto)

lemma fp_scaled_sticky_eq:
  assumes D: "0 < D" and G: "2 \<le> G" and p: "1 \<le> p"
    and lo: "2 ^ (p + G - 1) \<le> sticky N D" and hi: "sticky N D < 2 ^ (p + G)"
    and D': "0 < D'" and eq: "(of_nat N' / of_nat D' :: rat) = of_nat N / of_nat D * 2 powi (e - int G)"
  shows "fp_scaled p w G st s (sticky N D) e = fp_result p w st s N' D'"
  unfolding fp_scaled_sticky [OF D G p lo hi]
proof (rule fp_result_cong_rat)
  show "(of_nat (N * 2 ^ nat e) / of_nat (D * 2 ^ G * 2 ^ nat (- e)) :: rat) = of_nat N' / of_nat D'"
    unfolding scaled_rat eq by (simp add: power_int_diff)
qed (use D D' in auto)

lemma fp_scaled_double:
  "fp_scaled p w (Suc G) st s sig e = fp_scaled p w G st s sig (e - 1)"
proof -
  have "fp_scaled p w (Suc G) st s sig e =
      fp_result p w st s (sig * 2 ^ nat (e - 1)) (2 ^ G * 2 ^ nat (- (e - 1)))"
    by (rule fp_scaled_eq_result, simp, unfold scaled_rat)
      (simp add: power_int_diff power_int_add field_simps)
  then show ?thesis by (simp only: fp_scaled_def)
qed

text \<open>One leading zero is harmless: the significand still carries enough bits below the last
  one that is kept.\<close>

lemma fp_scaled_sticky_result:
  assumes D: "0 < D" and G: "3 \<le> G" and p: "1 \<le> p"
    and lo: "2 ^ (p + G - 2) \<le> sticky N D" and hi: "sticky N D < 2 ^ (p + G)"
    and D': "0 < D'" and eq: "(of_nat N' / of_nat D' :: rat) = of_nat N / of_nat D * 2 powi (e - int G)"
  shows "fp_scaled p w G st s (sticky N D) e = fp_result p w st s N' D'"
proof (cases "2 ^ (p + G - 1) \<le> sticky N D")
  case True
  then show ?thesis using fp_scaled_sticky_eq [OF D _ p True hi D' eq] G by simp
next
  case False
  obtain H where H: "G = Suc H" using G by (cases G) auto
  have "fp_scaled p w G st s (sticky N D) e = fp_scaled p w H st s (sticky N D) (e - 1)"
    unfolding H by (rule fp_scaled_double)
  also have "\<dots> = fp_result p w st s N' D'"
    by (rule fp_scaled_sticky_eq [OF D _ p _ _ D'])
      (use G lo False eq in \<open>simp_all add: H algebra_simps not_le\<close>)
  finally show ?thesis .
qed

text \<open>Two significands that agree once all bits below the guard bit are jammed together round
  alike: this is why the division and square-root code computes an exact remainder only when
  those bits are all zero.\<close>

lemma sticky_normal:
  assumes "2 ^ (p + k + 1) \<le> Q" "Q < 2 ^ (p + k + 2)"
  shows "2 ^ (p + 2 - 1) \<le> sticky Q (2 ^ k)" "sticky Q (2 ^ k) < 2 ^ (p + 2)"
proof -
  have "sticky Q (2 ^ k) < 2 ^ p * 2 ^ 1 \<longleftrightarrow> Q < 2 ^ p * (2 ^ k * 2 ^ 1)"
    "sticky Q (2 ^ k) < 2 ^ p * 2 ^ 2 \<longleftrightarrow> Q < 2 ^ p * (2 ^ k * 2 ^ 2)"
    by (rule sticky_less_iff; simp)+
  moreover have "(2::nat) ^ (p + k + 1) = 2 ^ p * (2 ^ k * 2 ^ 1)" "(2::nat) ^ (p + k + 2) = 2 ^ p * (2 ^ k * 2 ^ 2)"
    "(2::nat) ^ (p + 2 - 1) = 2 ^ p * 2 ^ 1" "(2::nat) ^ (p + 2) = 2 ^ p * 2 ^ 2"
    by (simp_all add: power_add)
  ultimately show "2 ^ (p + 2 - 1) \<le> sticky Q (2 ^ k)" "sticky Q (2 ^ k) < 2 ^ (p + 2)"
    using assms by (simp_all only: not_less [symmetric] simp_thms)
qed

lemma fp_scaled_two:
  assumes p: "1 \<le> p" and X: "2 ^ (p + k + 1) \<le> X" "X < 2 ^ (p + k + 2)"
  shows "fp_scaled p w 2 st s (sticky X (2 ^ k)) e = fp_scaled p w (k + 2) st s X e"
proof -
  have "fp_scaled p w 2 st s (sticky X (2 ^ k)) e =
      fp_result p w st s (X * 2 ^ nat e) (2 ^ k * 2 ^ 2 * 2 ^ nat (- e))"
    by (rule fp_scaled_sticky [OF _ _ p sticky_normal [OF X]]) simp_all
  then show ?thesis by (simp only: fp_scaled_def power_add)
qed

lemma fp_scaled_lazy:
  assumes p: "1 \<le> p"
    and Q: "2 ^ (p + k + 1) \<le> Q" "Q < 2 ^ (p + k + 2)"
    and R: "2 ^ (p + k + 1) \<le> R" "R < 2 ^ (p + k + 2)"
    and eq: "sticky Q (2 ^ k) = sticky R (2 ^ k)"
  shows "fp_scaled p w (k + 2) st s Q e = fp_scaled p w (k + 2) st s R e"
  unfolding fp_scaled_two [OF p Q, symmetric] fp_scaled_two [OF p R, symmetric] eq ..

lemma sticky_or_one:
  assumes "even Q" "1 \<le> k" "Q mod 2 ^ Suc k \<noteq> 0"
  shows "sticky (Suc Q) (2 ^ k) = sticky Q (2 ^ k)"
proof -
  obtain j where k: "k = Suc j" using assms(2) by (cases k) auto
  have d: "Suc Q div 2 ^ k = Q div 2 ^ k"
    using assms(1) unfolding k power_Suc div_mult2_eq by simp
  have ev: "even (Q mod 2 ^ k)" using assms(1) by (simp add: k dvd_mod_iff)
  have m: "Suc Q mod 2 ^ k = Suc (Q mod 2 ^ k)"
  proof -
    have "even ((2::nat) ^ k)" by (simp add: k)
    then have "Suc (Q mod 2 ^ k) \<noteq> 2 ^ k" using ev by (metis even_Suc)
    then show ?thesis by (simp add: mod_Suc)
  qed
  have "Q mod 2 ^ Suc k = 2 ^ k * (Q div 2 ^ k mod 2) + Q mod 2 ^ k"
    using mod_mult2_eq [of Q "2 ^ k" 2] by (simp add: mult.commute)
  then have "odd (Q div 2 ^ k) \<or> Q mod 2 ^ k \<noteq> 0" using assms(3) by (auto simp: even_iff_mod_2_eq_zero)
  then show ?thesis by (auto simp: sticky_def d m)
qed

lemma round_step_F32:
  assumes "2 ^ 29 \<le> unat Z" "unat Z < 2 ^ 31" "- (2 ^ 14) \<le> e" "e < 2 ^ 15"
  shows "(let (e, Z) = (if Z < 0x40000000 then (e - 1, push_bit 1 Z) else (e, Z))
      in softfloat_roundPackToF32 s e Z st) = fp_scaled 24 8 7 st s (unat Z) e"
proof (cases "Z < 0x40000000")
  case True
  then have Z: "unat Z < 2 ^ 30" by (simp add: word_less_nat_alt)
  then have "unat (push_bit 1 Z) = unat Z * 2 ^ 1" by (intro unat_push_small) simp
  then have "softfloat_roundPackToF32 s (e - 1) (push_bit 1 Z) st = fp_scaled 24 8 7 st s (unat Z * 2 ^ 1) (e - 1)"
    using assms Z by (subst roundPackToF32_scaled) simp_all
  then show ?thesis using True unfolding fp_scaled_shift by simp
next
  case False
  then show ?thesis using assms by (simp add: roundPackToF32_scaled word_less_nat_alt)
qed

lemma round_step_F64:
  assumes "2 ^ 61 \<le> unat Z" "unat Z < 2 ^ 63" "- (2 ^ 14) \<le> e" "e < 2 ^ 15"
  shows "(let (e, Z) = (if Z < 0x4000000000000000 then (e - 1, push_bit 1 Z) else (e, Z))
      in softfloat_roundPackToF64 s e Z st) = fp_scaled 53 11 10 st s (unat Z) e"
proof (cases "Z < 0x4000000000000000")
  case True
  then have Z: "unat Z < 2 ^ 62" by (simp add: word_less_nat_alt)
  then have "unat (push_bit 1 Z) = unat Z * 2 ^ 1" by (intro unat_push_small) simp
  then have "softfloat_roundPackToF64 s (e - 1) (push_bit 1 Z) st = fp_scaled 53 11 10 st s (unat Z * 2 ^ 1) (e - 1)"
    using assms Z by (subst roundPackToF64_scaled) simp_all
  then show ?thesis using True unfolding fp_scaled_shift by simp
next
  case False
  then show ?thesis using assms by (simp add: roundPackToF64_scaled word_less_nat_alt)
qed

subsection \<open>Results for special operands\<close>

definition fp_propagate :: "nat \<Rightarrow> nat \<Rightarrow> nat \<Rightarrow> nat \<Rightarrow> sf_state \<Rightarrow> 'a::len word \<times> sf_state" where
  "fp_propagate p w a b st =
     (of_nat (inf_bits p w + 2 ^ (p - 2)),
      if fp_snan p w a \<or> fp_snan p w b then softfloat_raiseFlags softfloat_flag_invalid st else st)"

definition fp_invalid :: "nat \<Rightarrow> nat \<Rightarrow> sf_state \<Rightarrow> 'a::len word \<times> sf_state" where
  "fp_invalid p w st =
     (of_nat (inf_bits p w + 2 ^ (p - 2)), softfloat_raiseFlags softfloat_flag_invalid st)"

definition fp_infinity :: "nat \<Rightarrow> nat \<Rightarrow> bool \<Rightarrow> 'a::len word" where
  "fp_infinity p w s = of_nat (of_bool s * 2 ^ (w + p - 1) + inf_bits p w)"

definition fp_zero :: "nat \<Rightarrow> nat \<Rightarrow> bool \<Rightarrow> 'a::len word" where
  "fp_zero p w s = of_nat (of_bool s * 2 ^ (w + p - 1))"

lemma fp_result_zero:
  assumes "0 < D" "1 \<le> p" "2 \<le> w"
  shows "fp_result p w st s 0 D = (fp_zero p w s, st)"
  using ieee_result_zero [OF assms] by (simp add: fp_result_def fp_zero_def)

lemma special_F32:
  "(ucast defaultNaNF32UI :: u32) = of_nat (inf_bits 24 8 + 2 ^ (24 - 2))"
  "(ucast (packToF32UI s 0xFF 0) :: u32) = fp_infinity 24 8 s"
  "(ucast (packToF32UI s 0 0) :: u32) = fp_zero 24 8 s"
  using packToF32UI_nat [of s 255 0] packToF32UI_nat [of s 0 0]
  by (simp_all add: defaultNaNF32UI_def inf_bits_def fp_infinity_def fp_zero_def)

lemma special_F64:
  "defaultNaNF64UI = of_nat (inf_bits 53 11 + 2 ^ (53 - 2))"
  "packToF64UI s 0x7FF 0 = fp_infinity 53 11 s"
  "packToF64UI s 0 0 = fp_zero 53 11 s"
  using packToF64UI_nat [of s 2047 0] packToF64UI_nat [of s 0 0]
  by (simp_all add: defaultNaNF64UI_def inf_bits_def fp_infinity_def fp_zero_def)

lemma propagate_F32:
  "(let (uiZ, st) = softfloat_propagateNaNF32UI A B st in ((ucast uiZ :: u32), st)) =
     fp_propagate 24 8 (unat A) (unat B) st"
  by (simp add: softfloat_propagateNaNF32UI_def special_F32 fp_propagate_def f32.isSigNaN)

lemma propagate_F64:
  "softfloat_propagateNaNF64UI A B st =
     fp_propagate 53 11 (unat A) (unat B) st"
  by (simp add: softfloat_propagateNaNF64UI_def special_F64 fp_propagate_def f64.isSigNaN)

subsection \<open>Properties\<close>

text \<open>C4.  Rounding and packing: for a normalised significand with seven (ten) extra bits and any
  exponent in range, subnormal and overflowing ones included, the routine returns the correctly
  rounded pattern in all five rounding modes and raises exactly the flags of the reference, under
  both tininess conventions.\<close>

theorem roundPack_correctly_rounds:
  assumes "2 ^ 30 \<le> unat sig" "unat sig < 2 ^ 31" "- (2 ^ 15) \<le> exp" "exp < 2 ^ 15"
    and "2 ^ 62 \<le> unat sig'" "unat sig' < 2 ^ 63" "- (2 ^ 15) \<le> exp'" "exp' < 2 ^ 15"
  shows "softfloat_roundPackToF32 s exp sig st =
      fp_result 24 8 st s (unat sig * 2 ^ nat exp) (2 ^ 7 * 2 ^ nat (- exp)) \<and>
    softfloat_roundPackToF64 s exp' sig' st =
      fp_result 53 11 st s (unat sig' * 2 ^ nat exp') (2 ^ 10 * 2 ^ nat (- exp'))"
  using roundPackToF32_correct [OF assms(1-4)] roundPackToF64_correct [OF assms(5-8)] by blast

theorem roundPack_correctly_rounds_witness:
  "softfloat_roundPackToF32 True (- 3) 0x40000041 softfloat_init_state =
      fp_result 24 8 softfloat_init_state True (unat (0x40000041 :: u64) * 2 ^ nat (- 3)) (2 ^ 7 * 2 ^ nat (- (- 3))) \<and>
    softfloat_roundPackToF64 True 2046 0x4000000000000001 softfloat_init_state =
      fp_result 53 11 softfloat_init_state True (unat (0x4000000000000001 :: u64) * 2 ^ nat 2046)
      (2 ^ 10 * 2 ^ nat (- 2046))"
  by (rule roundPack_correctly_rounds) simp_all

end
