(* ===== verification/SF_AddSub.thy ===== *)
theory SF_AddSub
  imports SF_RoundPack
begin

text \<open>
  Addition and subtraction (\<open>s_addMagsF32.c\<close>, \<open>s_subMagsF32.c\<close>, \<open>f32_add.c\<close>, \<open>f32_sub.c\<close> and the
  64-bit files): alignment with a sticky bit, cancellation, the sign of an exact zero and the
  special operands, and the proof that the result is the correctly rounded sum or difference.
\<close>

subsection \<open>Definitions\<close>

definition addMagsF32_tail :: "bool \<Rightarrow> int \<Rightarrow> u64 \<Rightarrow> u64 \<Rightarrow> sf_state \<Rightarrow> u32 \<times> sf_state" where
  "addMagsF32_tail signZ expZ sigA sigB st =
     (let sigZ = 0x20000000 + sigA + sigB;
          (expZ, sigZ) = (if sigZ < 0x40000000 then (expZ - 1, push_bit 1 sigZ) else (expZ, sigZ))
      in softfloat_roundPackToF32 signZ expZ sigZ st)"

definition softfloat_addMagsF32 :: "u64 \<Rightarrow> u64 \<Rightarrow> bool \<Rightarrow> sf_state \<Rightarrow> u32 \<times> sf_state" where
  "softfloat_addMagsF32 uiA uiB signZ st =
     (let expA = expF32UI uiA; sigA = fracF32UI uiA;
          expB = expF32UI uiB; sigB = fracF32UI uiB;
          expDiff = expA - expB;
          sigA = push_bit 6 sigA; sigB = push_bit 6 sigB;
          propagateNaN =
            (let (uiZ, st) = softfloat_propagateNaNF32UI uiA uiB st in (ucast uiZ, st))
      in if expDiff = 0
         then if expA = 0xFF
              then if sigA OR sigB \<noteq> 0 then propagateNaN else (ucast uiA, st)
              else if expA = 0
              then (ucast (packToF32UI signZ 0 ((uiA + uiB) AND 0x7FFFFFFF)), st)
              else softfloat_roundPackToF32 signZ expA (0x40000000 + sigA + sigB) st
         else if expDiff < 0
         then if expB = 0xFF
              then if sigB \<noteq> 0 then propagateNaN else (ucast (packToF32UI signZ 0xFF 0), st)
              else (let sigA = sigA + (if expA \<noteq> 0 then 0x20000000 else sigA);
                        sigA = ucast (softfloat_shiftRightJam32 (ucast sigA) (word_of_int (- expDiff)))
                    in addMagsF32_tail signZ expB sigA sigB st)
         else if expA = 0xFF
         then if sigA \<noteq> 0 then propagateNaN else (ucast uiA, st)
         else (let sigB = sigB + (if expB \<noteq> 0 then 0x20000000 else sigB);
                   sigB = ucast (softfloat_shiftRightJam32 (ucast sigB) (word_of_int expDiff))
               in addMagsF32_tail signZ expA sigA sigB st))"

definition softfloat_subMagsF32 :: "u64 \<Rightarrow> u64 \<Rightarrow> bool \<Rightarrow> sf_state \<Rightarrow> u32 \<times> sf_state" where
  "softfloat_subMagsF32 uiA uiB signZ st =
     (let expA = expF32UI uiA; sigA = fracF32UI uiA;
          expB = expF32UI uiB; sigB = fracF32UI uiB;
          expDiff = expA - expB;
          sigA = push_bit 7 sigA; sigB = push_bit 7 sigB;
          propagateNaN =
            (let (uiZ, st) = softfloat_propagateNaNF32UI uiA uiB st in (ucast uiZ, st));
          aBigger = (\<lambda>expA sigA sigB.
            softfloat_normRoundPackToF32 signZ (expA - 1) (sigA - sigB) st);
          bBigger = (\<lambda>expB sigA sigB.
            softfloat_normRoundPackToF32 (\<not> signZ) (expB - 1) (sigB - sigA) st)
      in if 0 < expDiff
         then if expA = 0xFF
              then if sigA \<noteq> 0 then propagateNaN else (ucast uiA, st)
              else (let sigB = sigB + (if expB \<noteq> 0 then 0x40000000 else sigB);
                        sigB = ucast (softfloat_shiftRightJam32 (ucast sigB) (word_of_int expDiff));
                        sigA = sigA OR 0x40000000
                    in aBigger expA sigA sigB)
         else if expDiff < 0
         then if expB = 0xFF
              then if sigB \<noteq> 0 then propagateNaN
                   else (ucast (packToF32UI (\<not> signZ) 0xFF 0), st)
              else (let sigA = sigA + (if expA \<noteq> 0 then 0x40000000 else sigA);
                        sigA = ucast (softfloat_shiftRightJam32 (ucast sigA) (word_of_int (- expDiff)));
                        sigB = sigB OR 0x40000000
                    in bBigger expB sigA sigB)
         else if expA = 0xFF
         then if sigA OR sigB \<noteq> 0 then propagateNaN
              else (ucast (defaultNaNF32UI), softfloat_raiseFlags softfloat_flag_invalid st)
         else (let (expA, expB) = (if expA = 0 then (1, 1) else (expA, expB))
               in if sigB < sigA then aBigger expA sigA sigB
                  else if sigA < sigB then bBigger expB sigA sigB
                  else (ucast (packToF32UI (softfloat_roundingMode st = softfloat_round_min) 0 0), st)))"

definition f32_add :: "u32 \<Rightarrow> u32 \<Rightarrow> sf_state \<Rightarrow> u32 \<times> sf_state" where
  "f32_add a b st =
     (let uiA = ucast a; signA = signF32UI uiA; uiB = ucast b; signB = signF32UI uiB
      in if signA = signB then softfloat_addMagsF32 uiA uiB signA st
         else softfloat_subMagsF32 uiA uiB signA st)"

definition f32_sub :: "u32 \<Rightarrow> u32 \<Rightarrow> sf_state \<Rightarrow> u32 \<times> sf_state" where
  "f32_sub a b st =
     (let uiA = ucast a; signA = signF32UI uiA; uiB = ucast b; signB = signF32UI uiB
      in if signA = signB then softfloat_subMagsF32 uiA uiB signA st
         else softfloat_addMagsF32 uiA uiB signA st)"

definition addMagsF64_tail :: "bool \<Rightarrow> int \<Rightarrow> u64 \<Rightarrow> u64 \<Rightarrow> sf_state \<Rightarrow> u64 \<times> sf_state" where
  "addMagsF64_tail signZ expZ sigA sigB st =
     (let sigZ = 0x2000000000000000 + sigA + sigB;
          (expZ, sigZ) = (if sigZ < 0x4000000000000000 then (expZ - 1, push_bit 1 sigZ) else (expZ, sigZ))
      in softfloat_roundPackToF64 signZ expZ sigZ st)"

definition softfloat_addMagsF64 :: "u64 \<Rightarrow> u64 \<Rightarrow> bool \<Rightarrow> sf_state \<Rightarrow> u64 \<times> sf_state" where
  "softfloat_addMagsF64 uiA uiB signZ st =
     (let expA = expF64UI uiA; sigA = fracF64UI uiA;
          expB = expF64UI uiB; sigB = fracF64UI uiB;
          expDiff = expA - expB;
          sigA = push_bit 9 sigA; sigB = push_bit 9 sigB;
          propagateNaN =
            (let (uiZ, st) = softfloat_propagateNaNF64UI uiA uiB st in (uiZ, st))
      in if expDiff = 0
         then if expA = 0x7FF
              then if sigA OR sigB \<noteq> 0 then propagateNaN else (uiA, st)
              else if expA = 0
              then (packToF64UI signZ 0 ((uiA + uiB) AND 0x7FFFFFFFFFFFFFFF), st)
              else softfloat_roundPackToF64 signZ expA (0x4000000000000000 + sigA + sigB) st
         else if expDiff < 0
         then if expB = 0x7FF
              then if sigB \<noteq> 0 then propagateNaN else (packToF64UI signZ 0x7FF 0, st)
              else (let sigA = sigA + (if expA \<noteq> 0 then 0x2000000000000000 else sigA);
                        sigA = softfloat_shiftRightJam64 sigA (word_of_int (- expDiff))
                    in addMagsF64_tail signZ expB sigA sigB st)
         else if expA = 0x7FF
         then if sigA \<noteq> 0 then propagateNaN else (uiA, st)
         else (let sigB = sigB + (if expB \<noteq> 0 then 0x2000000000000000 else sigB);
                   sigB = softfloat_shiftRightJam64 sigB (word_of_int expDiff)
               in addMagsF64_tail signZ expA sigA sigB st))"

definition softfloat_subMagsF64 :: "u64 \<Rightarrow> u64 \<Rightarrow> bool \<Rightarrow> sf_state \<Rightarrow> u64 \<times> sf_state" where
  "softfloat_subMagsF64 uiA uiB signZ st =
     (let expA = expF64UI uiA; sigA = fracF64UI uiA;
          expB = expF64UI uiB; sigB = fracF64UI uiB;
          expDiff = expA - expB;
          sigA = push_bit 10 sigA; sigB = push_bit 10 sigB;
          propagateNaN =
            (let (uiZ, st) = softfloat_propagateNaNF64UI uiA uiB st in (uiZ, st));
          aBigger = (\<lambda>expA sigA sigB.
            softfloat_normRoundPackToF64 signZ (expA - 1) (sigA - sigB) st);
          bBigger = (\<lambda>expB sigA sigB.
            softfloat_normRoundPackToF64 (\<not> signZ) (expB - 1) (sigB - sigA) st)
      in if 0 < expDiff
         then if expA = 0x7FF
              then if sigA \<noteq> 0 then propagateNaN else (uiA, st)
              else (let sigB = sigB + (if expB \<noteq> 0 then 0x4000000000000000 else sigB);
                        sigB = softfloat_shiftRightJam64 sigB (word_of_int expDiff);
                        sigA = sigA OR 0x4000000000000000
                    in aBigger expA sigA sigB)
         else if expDiff < 0
         then if expB = 0x7FF
              then if sigB \<noteq> 0 then propagateNaN
                   else (packToF64UI (\<not> signZ) 0x7FF 0, st)
              else (let sigA = sigA + (if expA \<noteq> 0 then 0x4000000000000000 else sigA);
                        sigA = softfloat_shiftRightJam64 sigA (word_of_int (- expDiff));
                        sigB = sigB OR 0x4000000000000000
                    in bBigger expB sigA sigB)
         else if expA = 0x7FF
         then if sigA OR sigB \<noteq> 0 then propagateNaN
              else (defaultNaNF64UI, softfloat_raiseFlags softfloat_flag_invalid st)
         else (let (expA, expB) = (if expA = 0 then (1, 1) else (expA, expB))
               in if sigB < sigA then aBigger expA sigA sigB
                  else if sigA < sigB then bBigger expB sigA sigB
                  else (packToF64UI (softfloat_roundingMode st = softfloat_round_min) 0 0, st)))"

definition f64_add :: "u64 \<Rightarrow> u64 \<Rightarrow> sf_state \<Rightarrow> u64 \<times> sf_state" where
  "f64_add a b st =
     (let uiA = a; signA = signF64UI uiA; uiB = b; signB = signF64UI uiB
      in if signA = signB then softfloat_addMagsF64 uiA uiB signA st
         else softfloat_subMagsF64 uiA uiB signA st)"

definition f64_sub :: "u64 \<Rightarrow> u64 \<Rightarrow> sf_state \<Rightarrow> u64 \<times> sf_state" where
  "f64_sub a b st =
     (let uiA = a; signA = signF64UI uiA; uiB = b; signB = signF64UI uiB
      in if signA = signB then softfloat_subMagsF64 uiA uiB signA st
         else softfloat_addMagsF64 uiA uiB signA st)"

subsection \<open>The reference sum\<close>

definition fp_add_spec ::
  "nat \<Rightarrow> nat \<Rightarrow> bool \<Rightarrow> nat \<Rightarrow> bool \<Rightarrow> nat \<Rightarrow> sf_state \<Rightarrow> 'a::len word \<times> sf_state" where
  "fp_add_spec p w sa a sb b st =
     (if fp_nan p w a \<or> fp_nan p w b then fp_propagate p w a b st
      else if fp_inf p w a
      then if fp_inf p w b \<and> sa \<noteq> sb then fp_invalid p w st else (fp_infinity p w sa, st)
      else if fp_inf p w b then (fp_infinity p w sb, st)
      else (let v = (if sa then - int (fp_mag p w a) else int (fp_mag p w a)) +
                    (if sb then - int (fp_mag p w b) else int (fp_mag p w b))
            in if v = 0
               then (fp_zero p w (if sa = sb then sa
                       else rmode_of (softfloat_roundingMode st) = RDN), st)
               else fp_result p w st (v < 0) (nat \<bar>v\<bar>) 1))"

text \<open>The significand that alignment works on: a subnormal operand is doubled so that it can share
  the scale of its exponent field.\<close>

context fp_format
begin

lemma mag_scaled:
  "(of_nat (fp_mag p w (unat a)) :: rat) =
     of_nat (if expUI a = 0 then 2 * unat (fracUI a) else 2 ^ (p - 1) + unat (fracUI a)) * 2 powi (expUI a - 1)"
proof (cases "expUI a = 0")
  case True
  then show ?thesis by (simp add: mag_fields power_int_diff)
next
  case False
  then have "(2::rat) ^ (nat (expUI a) - 1) = 2 powi (expUI a - 1)"
    using exp_range [of a] by (simp add: power_int_def nat_diff_distrib)
  then show ?thesis using False by (simp add: mag_fields)
qed

lemma mag_less_exp:
  assumes "expUI a < expUI b"
  shows "fp_mag p w (unat a) < fp_mag p w (unat b)"
proof -
  have "Suc (nat (expUI a)) \<le> nat (expUI b)" using assms exp_range(1) [of a] by linarith
  then have "Suc (nat (expUI a)) * 2 ^ (p - 1) \<le> nat (expUI b) * 2 ^ (p - 1)" by (rule mult_le_mono1)
  then have "unat a mod 2 ^ (w + p - 1) < unat b mod 2 ^ (w + p - 1)"
    unfolding split_bits using frac_range [of a] by simp
  then show ?thesis unfolding fp_mag_def using p2 by (simp add: fdec_less_iff)
qed

lemma mag_same_exp:
  assumes "expUI a = expUI b"
  shows "fp_mag p w (unat a) < fp_mag p w (unat b) \<longleftrightarrow> fracUI a < fracUI b"
proof -
  have "1 \<le> p" using p2 by simp
  then show ?thesis unfolding fp_mag_def fdec_less_iff [OF \<open>1 \<le> p\<close>] split_bits assms word_less_nat_alt by simp
qed

lemma inf_bits_pattern:
  assumes "unat a < 2 ^ (w + p)" "expUI a = 2 ^ w - 1" "fracUI a = 0"
  shows "unat a = of_bool (signUI a) * 2 ^ (w + p - 1) + inf_bits p w"
proof -
  have "fp_inf p w (unat a)" using assms by (simp add: classify)
  then show ?thesis
    using mod_bits [OF assms(1)] sign_law [OF assms(1)] by (auto simp: fp_inf_def)
qed

end

lemma add_spec_same_sign:
  assumes "\<not> fp_nan p w a" "\<not> fp_nan p w b" "\<not> fp_inf p w a" "\<not> fp_inf p w b" "1 \<le> p" "2 \<le> w"
  shows "fp_add_spec p w s a s b st = fp_result p w st s (fp_mag p w a + fp_mag p w b) 1"
proof (cases "fp_mag p w a + fp_mag p w b = 0")
  case True
  then show ?thesis using assms by (simp add: fp_add_spec_def fp_result_zero)
next
  case False
  then show ?thesis using assms by (cases s) (auto simp: fp_add_spec_def Let_def nat_add_distrib add.commute)
qed

lemma add_spec_diff_sign:
  assumes "\<not> fp_nan p w a" "\<not> fp_nan p w b" "\<not> fp_inf p w a" "\<not> fp_inf p w b"
  shows "fp_mag p w b < fp_mag p w a \<Longrightarrow>
      (fp_add_spec p w s a (\<not> s) b st :: 'a::len word \<times> sf_state) = fp_result p w st s (fp_mag p w a - fp_mag p w b) 1"
    and "fp_mag p w a < fp_mag p w b \<Longrightarrow>
      (fp_add_spec p w s a (\<not> s) b st :: 'a::len word \<times> sf_state) = fp_result p w st (\<not> s) (fp_mag p w b - fp_mag p w a) 1"
    and "fp_mag p w a = fp_mag p w b \<Longrightarrow>
      (fp_add_spec p w s a (\<not> s) b st :: 'a::len word \<times> sf_state) = (fp_zero p w (rmode_of (softfloat_roundingMode st) = RDN), st)"
  using assms by (cases s; auto simp: fp_add_spec_def Let_def nat_diff_distrib)+

lemma align_sum_value:
  fixes mH mL d k :: nat
  shows "(of_nat mH * 2 powi (e - 1) + of_nat mL * 2 powi (e - 1 - int d) :: rat) =
    of_nat (mH * 2 ^ k * 2 ^ d + mL * 2 ^ k) / of_nat (2 ^ d) * 2 powi (e - int (Suc k))"
  by (simp add: power_int_diff power_int_add field_simps)

lemma align_diff_value:
  fixes mH mL d k :: nat
  assumes "mL * 2 ^ k \<le> mH * 2 ^ k * 2 ^ d"
  shows "(of_nat mH * 2 powi (e - 1) - of_nat mL * 2 powi (e - 1 - int d) :: rat) =
    of_nat (mH * 2 ^ k * 2 ^ d - mL * 2 ^ k) / of_nat (2 ^ d) * 2 powi (e - 1 - int k)"
  using assms by (simp add: of_nat_diff power_int_diff power_int_add field_simps)

lemma sticky_small:
  fixes x c d k :: nat
  assumes x: "x < c * 2 ^ k" and k: "k \<le> d"
  shows "sticky x (2 ^ d) \<le> c"
proof -
  have "c * 2 ^ k \<le> c * 2 ^ d" using k by (intro mult_le_mono2 power_increasing) simp_all
  with x have "x div 2 ^ d < c" by (intro less_mult_imp_div_less) linarith
  then show ?thesis by (simp add: sticky_def)
qed

lemma rmode_RDN: "rmode_of m = RDN \<longleftrightarrow> m = softfloat_round_min"
  by (auto simp: rmode_of_def softfloat_consts)

subsection \<open>Alignment in 32 bits\<close>

lemma jam_aligned_F32:
  fixes x :: u64
  assumes "unat x < 2 ^ 31" "0 < d" "d < 2 ^ 15"
  shows "unat (ucast (softfloat_shiftRightJam32 (ucast x) (word_of_int d)) :: u64) = sticky (unat x) (2 ^ nat d)"
  using jam32_small [of x "nat d"] assms by simp

lemma scaled_sig_F32:
  fixes X :: u64
  defines "m \<equiv> (if expF32UI X = 0 then 2 * unat (fracF32UI X) else 2 ^ 23 + unat (fracF32UI X))"
  shows "unat (push_bit 6 (fracF32UI X) + (if expF32UI X \<noteq> 0 then 0x20000000 else push_bit 6 (fracF32UI X))) = m * 2 ^ 6"
    and "unat (push_bit 7 (fracF32UI X) + (if expF32UI X \<noteq> 0 then 0x40000000 else push_bit 7 (fracF32UI X))) = m * 2 ^ 7"
    and "m < 2 * 2 ^ 23"
proof -
  have f: "unat (fracF32UI X) < 2 ^ 23" using f32.frac_range [of X] by simp
  have a: "unat (push_bit 6 (fracF32UI X)) = unat (fracF32UI X) * 2 ^ 6"
    and b: "unat (push_bit 7 (fracF32UI X)) = unat (fracF32UI X) * 2 ^ 7"
    using f by (intro unat_push_small; simp)+
  show "unat (push_bit 6 (fracF32UI X) + (if expF32UI X \<noteq> 0 then 0x20000000 else push_bit 6 (fracF32UI X))) = m * 2 ^ 6"
    using a f by (subst unat_add_small) (simp_all add: m_def)
  show "unat (push_bit 7 (fracF32UI X) + (if expF32UI X \<noteq> 0 then 0x40000000 else push_bit 7 (fracF32UI X))) = m * 2 ^ 7"
    using b f by (subst unat_add_small) (simp_all add: m_def)
  show "m < 2 * 2 ^ 23" using f by (simp add: m_def)
qed

lemma shifted_frac_F32:
  "unat (push_bit 6 (fracF32UI X)) = unat (fracF32UI X) * 2 ^ 6"
  "unat (push_bit 7 (fracF32UI X)) = unat (fracF32UI X) * 2 ^ 7"
  "unat (push_bit 7 (fracF32UI X) OR 0x40000000) = (2 ^ 23 + unat (fracF32UI X)) * 2 ^ 7"
proof -
  have f: "unat (fracF32UI X) < 2 ^ 23" using f32.frac_range [of X] by simp
  show "unat (push_bit 6 (fracF32UI X)) = unat (fracF32UI X) * 2 ^ 6"
    and b: "unat (push_bit 7 (fracF32UI X)) = unat (fracF32UI X) * 2 ^ 7"
    using f by (intro unat_push_small; simp)+
  show "unat (push_bit 7 (fracF32UI X) OR 0x40000000) = (2 ^ 23 + unat (fracF32UI X)) * 2 ^ 7"
    using unat_or_disjoint [of "0x40000000 :: u64" 30 "push_bit 7 (fracF32UI X)"] b f by (simp add: or.commute)
qed

lemma operand_value_F32:
  "0 < expF32UI X \<Longrightarrow> (of_nat (fp_mag 24 8 (unat X)) :: rat) =
     of_nat (2 ^ 23 + unat (fracF32UI X)) * 2 powi (expF32UI X - 1)"
  "(of_nat (fp_mag 24 8 (unat X)) :: rat) =
     of_nat (if expF32UI X = 0 then 2 * unat (fracF32UI X) else 2 ^ 23 + unat (fracF32UI X)) * 2 powi (expF32UI X - 1)"
  using f32.mag_scaled [of X] by simp_all

lemma addMagsF32_aligned:
  assumes lt: "expF32UI L < expF32UI H" and fin: "expF32UI H \<noteq> 255"
  defines "S \<equiv> push_bit 6 (fracF32UI L) + (if expF32UI L \<noteq> 0 then 0x20000000 else push_bit 6 (fracF32UI L))"
  shows "addMagsF32_tail s (expF32UI H) (ucast (softfloat_shiftRightJam32 (ucast S) (word_of_int (expF32UI H - expF32UI L))) :: u64) (push_bit 6 (fracF32UI H)) st =
    fp_result 24 8 st s (fp_mag 24 8 (unat H) + fp_mag 24 8 (unat L)) 1"
proof -
  define mH where "mH = 2 ^ 23 + unat (fracF32UI H)"
  define mL where "mL = (if expF32UI L = 0 then 2 * unat (fracF32UI L) else 2 ^ 23 + unat (fracF32UI L))"
  define d where "d = nat (expF32UI H - expF32UI L)"
  have r: "0 \<le> expF32UI L" "0 < expF32UI H" "expF32UI H < 255"
    using lt fin f32.exp_range [of L] f32.exp_range [of H] by simp_all
  have d: "expF32UI H - expF32UI L = int d" "0 < d" using lt by (simp_all add: d_def)
  have mH: "2 ^ 23 \<le> mH" "mH < 2 * 2 ^ 23" using f32.frac_range [of H] by (simp_all add: mH_def)
  have S: "unat S = mL * 2 ^ 6" and mL: "mL < 2 * 2 ^ 23"
    unfolding S_def mL_def by (rule scaled_sig_F32)+
  define Z where "Z = 0x20000000 + (ucast (softfloat_shiftRightJam32 (ucast S) (word_of_int (expF32UI H - expF32UI L))) :: u64) + push_bit 6 (fracF32UI H)"
  have j: "unat (ucast (softfloat_shiftRightJam32 (ucast S) (word_of_int (expF32UI H - expF32UI L))) :: u64) = sticky (mL * 2 ^ 6) (2 ^ d)"
    unfolding d_def S [symmetric] by (rule jam_aligned_F32) (use S mL lt r in simp_all)
  have one: "1 < (2::nat) ^ d" using d one_less_power [of "2::nat" d] by simp
  have jl: "sticky (mL * 2 ^ 6) (2 ^ d) \<le> mL * 2 ^ 6" by (rule sticky_le [OF one])
  have Z1: "unat Z = mH * 2 ^ 6 + sticky (mL * 2 ^ 6) (2 ^ d)"
  proof -
    have "unat (0x20000000 + (ucast (softfloat_shiftRightJam32 (ucast S) (word_of_int (expF32UI H - expF32UI L))) :: u64) :: u64) = 0x20000000 + sticky (mL * 2 ^ 6) (2 ^ d)"
      using j jl mL by (subst unat_add_small) simp_all
    then show ?thesis
      unfolding Z_def using jl mL mH shifted_frac_F32(1) [of H]
      by (subst unat_add_small) (simp_all add: mH_def)
  qed
  also have "\<dots> = sticky (mH * 2 ^ 6 * 2 ^ d + mL * 2 ^ 6) (2 ^ d)"
    by (rule sticky_add [symmetric]) simp_all
  finally have Z2: "unat Z = sticky (mH * 2 ^ 6 * 2 ^ d + mL * 2 ^ 6) (2 ^ d)" .
  have Zb: "2 ^ 29 \<le> unat Z" "unat Z < 2 ^ 31" using Z1 jl mL mH by simp_all
  note magH = operand_value_F32(1) [OF r(2), folded mH_def]
  have "expF32UI L - 1 = expF32UI H - 1 - int d" using d(1) by simp
  note magL = operand_value_F32(2) [of L, folded mL_def, unfolded this]
  have v: "(of_nat (fp_mag 24 8 (unat H) + fp_mag 24 8 (unat L)) / of_nat 1 :: rat) =
      of_nat (mH * 2 ^ 6 * 2 ^ d + mL * 2 ^ 6) / of_nat (2 ^ d) * 2 powi (expF32UI H - int 7)"
    unfolding of_nat_add magH magL using align_sum_value [of mH "expF32UI H" mL d 6] by simp
  have "fp_scaled 24 8 7 st s (unat Z) (expF32UI H) =
      fp_result 24 8 st s (fp_mag 24 8 (unat H) + fp_mag 24 8 (unat L)) 1"
    unfolding Z2 by (rule fp_scaled_sticky_result [OF _ _ _ _ _ _ v]) (use Z2 Zb in simp_all)
  moreover have "- (2 ^ 14) \<le> expF32UI H" "expF32UI H < 2 ^ 15" using r by simp_all
  note round_step_F32 [OF Zb this, of s st, unfolded Let_def]
  ultimately show ?thesis unfolding addMagsF32_tail_def Let_def Z_def [symmetric] by (simp only:)
qed

lemma addMagsF32_tail_commute:
  "addMagsF32_tail s e x y st = addMagsF32_tail s e y x st"
  by (simp add: addMagsF32_tail_def ac_simps)

lemma subMagsF32_aligned:
  assumes lt: "expF32UI L < expF32UI H" and fin: "expF32UI H \<noteq> 255"
  defines "S \<equiv> push_bit 7 (fracF32UI L) + (if expF32UI L \<noteq> 0 then 0x40000000 else push_bit 7 (fracF32UI L))"
  shows "softfloat_normRoundPackToF32 s (expF32UI H - 1) ((push_bit 7 (fracF32UI H) OR 0x40000000) - (ucast (softfloat_shiftRightJam32 (ucast S) (word_of_int (expF32UI H - expF32UI L))) :: u64)) st =
    fp_result 24 8 st s (fp_mag 24 8 (unat H) - fp_mag 24 8 (unat L)) 1"
proof -
  define mH where "mH = 2 ^ 23 + unat (fracF32UI H)"
  define mL where "mL = (if expF32UI L = 0 then 2 * unat (fracF32UI L) else 2 ^ 23 + unat (fracF32UI L))"
  define d where "d = nat (expF32UI H - expF32UI L)"
  define t where "t = sticky (mL * 2 ^ 7) (2 ^ d)"
  have r: "0 \<le> expF32UI L" "0 < expF32UI H" "expF32UI H < 255"
    using lt fin f32.exp_range [of L] f32.exp_range [of H] by simp_all
  have d: "expF32UI H - expF32UI L = int d" "0 < d" using lt by (simp_all add: d_def)
  have mH: "2 ^ 23 \<le> mH" "mH < 2 * 2 ^ 23" using f32.frac_range [of H] by (simp_all add: mH_def)
  have S: "unat S = mL * 2 ^ 7" and mL: "mL < 2 * 2 ^ 23"
    unfolding S_def mL_def by (rule scaled_sig_F32)+
  define Z where "Z = (push_bit 7 (fracF32UI H) OR 0x40000000) - (ucast (softfloat_shiftRightJam32 (ucast S) (word_of_int (expF32UI H - expF32UI L))) :: u64)"
  have j: "unat (ucast (softfloat_shiftRightJam32 (ucast S) (word_of_int (expF32UI H - expF32UI L))) :: u64) = t"
    unfolding t_def d_def S [symmetric] by (rule jam_aligned_F32) (use S mL lt r in simp_all)
  have h: "unat (push_bit 7 (fracF32UI H) OR 0x40000000) = mH * 2 ^ 7"
    unfolding mH_def by (rule shifted_frac_F32)
  have half: "t \<le> 2 ^ 30"
    unfolding t_def using d mL by (intro sticky_small [where k = 1]) simp_all
  have quarter: "t \<le> 2 ^ 29" if "1 < d"
    unfolding t_def using that mL by (intro sticky_small [where k = 2]) simp_all
  have Z1: "unat Z = mH * 2 ^ 7 - t"
    unfolding Z_def using half mH j h by (subst unat_sub_small) (simp_all add: word_le_nat_alt)
  have le: "mL * 2 ^ 7 \<le> mH * 2 ^ 7 * 2 ^ d"
  proof -
    have "mL \<le> mH * 2" using mL mH by simp
    also have "\<dots> \<le> mH * 2 ^ d" using power_increasing [of 1 d "2::nat"] d by simp
    finally show ?thesis by simp
  qed
  have Z2: "unat Z = sticky (mH * 2 ^ 7 * 2 ^ d - mL * 2 ^ 7) (2 ^ d)"
    unfolding Z1 t_def using le by (intro sticky_diff [symmetric]) simp_all
  have less: "fp_mag 24 8 (unat L) < fp_mag 24 8 (unat H)" by (rule f32.mag_less_exp [OF lt])
  note magH = operand_value_F32(1) [OF r(2), folded mH_def]
  have "expF32UI L - 1 = expF32UI H - 1 - int d" using d(1) by simp
  note magL = operand_value_F32(2) [of L, folded mL_def, unfolded this]
  have v: "(of_nat (fp_mag 24 8 (unat H) - fp_mag 24 8 (unat L)) / of_nat 1 :: rat) =
      of_nat (mH * 2 ^ 7 * 2 ^ d - mL * 2 ^ 7) / of_nat (2 ^ d) * 2 powi (expF32UI H - 1 - int 7)"
    unfolding of_nat_diff [OF less_imp_le [OF less]] magH magL
    using align_diff_value [OF le, of "expF32UI H"] by simp
  have Zb: "0 < unat Z" "unat Z < 2 ^ 31"
  proof -
    show "unat Z < 2 ^ 31" using Z1 mH by simp
    have "mH * 2 ^ 7 * 2 ^ d \<noteq> mL * 2 ^ 7"
    proof
      assume "mH * 2 ^ 7 * 2 ^ d = mL * 2 ^ 7"
      then have "(of_nat (fp_mag 24 8 (unat H) - fp_mag 24 8 (unat L)) / of_nat 1 :: rat) = 0"
        unfolding v by simp
      with less show False by simp
    qed
    then show "0 < unat Z" unfolding Z2 using le by (simp add: sticky_zero_iff flip: neq0_conv)
  qed
  have "softfloat_normRoundPackToF32 s (expF32UI H - 1) Z st =
      fp_scaled 24 8 7 st s (unat Z) (expF32UI H - 1)"
    using Zb r by (intro normRoundPackToF32_scaled) simp_all
  also have "\<dots> = fp_result 24 8 st s (fp_mag 24 8 (unat H) - fp_mag 24 8 (unat L)) 1"
  proof (cases "d = 1")
    case True
    then have "sticky (mH * 2 ^ 7 * 2 ^ d - mL * 2 ^ 7) (2 ^ d) = mH * 2 ^ 7 - mL * 2 ^ 6"
      using Z1 Z2 unfolding t_def by (simp add: sticky_def)
    moreover have "(of_nat (fp_mag 24 8 (unat H) - fp_mag 24 8 (unat L)) / of_nat 1 :: rat) =
        of_nat (mH * 2 ^ 7 - mL * 2 ^ 6) * 2 powi (expF32UI H - 1 - int 7)"
      unfolding v using True le by (simp add: of_nat_diff field_simps)
    ultimately show ?thesis unfolding Z2 by (intro fp_scaled_eq_result) simp_all
  next
    case False
    then have "2 ^ 29 \<le> unat Z" using quarter d Z1 mH by simp
    then show ?thesis
      using Zb(2) unfolding Z2 by (intro fp_scaled_sticky_result [OF _ _ _ _ _ _ v]) simp_all
  qed
  finally show ?thesis unfolding Z_def .
qed

lemma subMagsF32_same_exp:
  assumes e: "expF32UI X = expF32UI Y" and fin: "expF32UI X \<noteq> 255"
    and lt: "fracF32UI Y < fracF32UI X"
  shows "softfloat_normRoundPackToF32 s ((if expF32UI X = 0 then 1 else expF32UI X) - 1)
      (push_bit 7 (fracF32UI X) - push_bit 7 (fracF32UI Y)) st =
    fp_result 24 8 st s (fp_mag 24 8 (unat X) - fp_mag 24 8 (unat Y)) 1"
proof -
  let ?e = "if expF32UI X = 0 then 1 else expF32UI X"
  let ?Z = "push_bit 7 (fracF32UI X) - push_bit 7 (fracF32UI Y)"
  have r: "0 \<le> expF32UI X" "expF32UI X < 255" using fin f32.exp_range [of X] by simp_all
  have f: "unat (fracF32UI X) < 2 ^ 23" "unat (fracF32UI Y) < unat (fracF32UI X)"
    using f32.frac_range [of X] lt by (simp_all add: word_less_nat_alt)
  have Z: "unat ?Z = (unat (fracF32UI X) - unat (fracF32UI Y)) * 2 ^ 7"
    using f by (subst unat_sub_small) (simp_all add: word_le_nat_alt shifted_frac_F32 diff_mult_distrib)
  have "softfloat_normRoundPackToF32 s (?e - 1) ?Z st = fp_scaled 24 8 7 st s (unat ?Z) (?e - 1)"
    using Z f r by (intro normRoundPackToF32_scaled) simp_all
  also have "\<dots> = fp_result 24 8 st s (fp_mag 24 8 (unat X) - fp_mag 24 8 (unat Y)) 1"
  proof (rule fp_scaled_eq_result)
    have less: "fp_mag 24 8 (unat Y) \<le> fp_mag 24 8 (unat X)"
      using f32.mag_same_exp [of Y X] e lt by simp
    show "(of_nat (fp_mag 24 8 (unat X) - fp_mag 24 8 (unat Y)) / of_nat 1 :: rat) =
        of_nat (unat ?Z) * 2 powi (?e - 1 - int 7)"
      unfolding of_nat_diff [OF less] Z f32.mag_scaled using e f(2)
      by (auto simp: of_nat_diff power_int_diff field_simps)
  qed simp
  finally show ?thesis .
qed

lemma subnormal_sum_F32:
  assumes A: "expF32UI A = 0" and B: "expF32UI B = 0"
  shows "(ucast (packToF32UI s 0 ((A + B) AND 0x7FFFFFFF)), st) =
    (fp_result 24 8 st s (fp_mag 24 8 (unat A) + fp_mag 24 8 (unat B)) 1 :: u32 \<times> sf_state)"
proof -
  let ?n = "unat (fracF32UI A) + unat (fracF32UI B)"
  have m: "(0x7FFFFFFF :: u64) = mask 31" by (simp add: mask_eq_exp_minus_1)
  have "unat A mod 2 ^ 31 = unat (fracF32UI A)" "unat B mod 2 ^ 31 = unat (fracF32UI B)"
    using f32.split_bits [of A] f32.split_bits [of B] A B by simp_all
  moreover have f: "unat (fracF32UI A) < 2 ^ 23" "unat (fracF32UI B) < 2 ^ 23"
    using f32.frac_range [of A] f32.frac_range [of B] by simp_all
  moreover have "unat ((A + B) AND 0x7FFFFFFF) = (unat A + unat B) mod 2 ^ 31"
    unfolding m unat_and_mask unat_word_ariths by (simp add: mod_mod_cancel)
  moreover have "(unat A + unat B) mod 2 ^ 31 = (unat A mod 2 ^ 31 + unat B mod 2 ^ 31) mod 2 ^ 31"
    by (rule mod_add_eq [symmetric])
  ultimately have n: "unat ((A + B) AND 0x7FFFFFFF) = ?n" by simp
  have "ieee_result 24 8 after m s ?n 1 = (?n, False, False, False)" for after m
    using ieee_result_small [of 1 24 8 ?n after m s] f by (simp add: round_quot_exact)
  then show ?thesis
    using packToF32UI_nat [of s 0 "(A + B) AND 0x7FFFFFFF"] A B
    by (simp add: fp_result_def n f32.mag_fields)
qed

lemma inf_word_F32:
  assumes "unat A < 2 ^ (8 + 24)" "expF32UI A = 255" "fracF32UI A = 0"
  shows "ucast A = (fp_infinity 24 8 (signF32UI A) :: u32)"
  using arg_cong [OF f32.inf_bits_pattern [OF assms(1)], of "of_nat :: nat \<Rightarrow> u32"] assms(2,3)
  by (simp add: fp_infinity_def)

lemma addMagsF32_result:
  assumes l: "unat A < 2 ^ (8 + 24)" "unat B < 2 ^ (8 + 24)"
  shows "softfloat_addMagsF32 A B (signF32UI A) st =
    fp_add_spec 24 8 (signF32UI A) (unat A) (signF32UI A) (unat B) st"
proof -
  note cls = f32.classify [of A, simplified] f32.classify [of B, simplified]
  have z: "push_bit 6 (fracF32UI X) = 0 \<longleftrightarrow> fracF32UI X = 0" for X
    using shifted_frac_F32(1) [of X] by (simp add: unat_eq_0 [symmetric])
  note inf = inf_word_F32 [OF l(1)]
  have fin: "(fp_add_spec 24 8 (signF32UI A) (unat A) (signF32UI A) (unat B) st :: u32 \<times> sf_state) =
      fp_result 24 8 st (signF32UI A) (fp_mag 24 8 (unat A) + fp_mag 24 8 (unat B)) 1"
    if "expF32UI A \<noteq> 255" "expF32UI B \<noteq> 255"
    using that cls by (intro add_spec_same_sign) simp_all
  consider "expF32UI A = expF32UI B" | "expF32UI A < expF32UI B" | "expF32UI B < expF32UI A" by linarith
  then show ?thesis
  proof cases
    case 1
    consider "expF32UI A = 255" | "expF32UI A = 0" | "expF32UI A \<noteq> 255" "expF32UI A \<noteq> 0" by blast
    then show ?thesis
    proof cases
      case a: 1
      then show ?thesis
        using 1 inf by (auto simp: softfloat_addMagsF32_def Let_def fp_add_spec_def cls z or_eq_0_iff propagate_F32 [unfolded Let_def])
    next
      case a: 2
      then show ?thesis
        using 1 fin subnormal_sum_F32 [of A B "signF32UI A" st]
        by (simp add: softfloat_addMagsF32_def)
    next
      case a: 3
      let ?Z = "0x40000000 + push_bit 6 (fracF32UI A) + push_bit 6 (fracF32UI B)"
      have f: "unat (fracF32UI A) < 2 ^ 23" "unat (fracF32UI B) < 2 ^ 23"
        using f32.frac_range [of A] f32.frac_range [of B] by simp_all
      have "unat (0x40000000 + push_bit 6 (fracF32UI A)) = 2 ^ 30 + unat (fracF32UI A) * 2 ^ 6"
        using f by (subst unat_add_small) (simp_all add: shifted_frac_F32)
      then have Z: "unat ?Z = 2 ^ 30 + (unat (fracF32UI A) + unat (fracF32UI B)) * 2 ^ 6"
        using f by (subst unat_add_small) (simp_all add: shifted_frac_F32)
      have r: "0 < expF32UI A" "expF32UI A < 255" using a f32.exp_range [of A] by simp_all
      have "softfloat_roundPackToF32 (signF32UI A) (expF32UI A) ?Z st =
          fp_scaled 24 8 7 st (signF32UI A) (unat ?Z) (expF32UI A)"
        using Z f r by (intro roundPackToF32_scaled) simp_all
      also have "\<dots> = fp_result 24 8 st (signF32UI A) (fp_mag 24 8 (unat A) + fp_mag 24 8 (unat B)) 1"
        unfolding Z using r 1 operand_value_F32(1) [of A] operand_value_F32(1) [of B]
        by (intro fp_scaled_eq_result) (simp_all add: power_int_diff field_simps)
      finally show ?thesis using a 1 fin by (simp add: softfloat_addMagsF32_def)
    qed
  next
    case 2
    show ?thesis
    proof (cases "expF32UI B = 255")
      case True
      then show ?thesis
        using 2 by (auto simp: softfloat_addMagsF32_def Let_def fp_add_spec_def cls z propagate_F32 [unfolded Let_def] special_F32)
    next
      case False
      then show ?thesis
        using 2 fin f32.exp_range [of B] addMagsF32_aligned [OF 2 False, of "signF32UI A" st]
        by (simp add: softfloat_addMagsF32_def Let_def add.commute)
    qed
  next
    case 3
    show ?thesis
    proof (cases "expF32UI A = 255")
      case True
      then show ?thesis
        using 3 inf by (auto simp: softfloat_addMagsF32_def Let_def fp_add_spec_def cls z propagate_F32 [unfolded Let_def])
    next
      case False
      then show ?thesis
        using 3 fin f32.exp_range [of A] addMagsF32_aligned [OF 3 False, of "signF32UI A" st]
        by (simp add: softfloat_addMagsF32_def Let_def addMagsF32_tail_commute)
    qed
  qed
qed

lemma subMagsF32_result:
  assumes l: "unat A < 2 ^ (8 + 24)" "unat B < 2 ^ (8 + 24)"
  shows "softfloat_subMagsF32 A B (signF32UI A) st =
    fp_add_spec 24 8 (signF32UI A) (unat A) (\<not> signF32UI A) (unat B) st"
proof -
  note cls = f32.classify [of A, simplified] f32.classify [of B, simplified]
  have z: "push_bit 7 (fracF32UI X) = 0 \<longleftrightarrow> fracF32UI X = 0" for X
    using shifted_frac_F32(2) [of X] by (simp add: unat_eq_0 [symmetric])
  have lt: "push_bit 7 (fracF32UI X) < push_bit 7 (fracF32UI Y) \<longleftrightarrow> fracF32UI X < fracF32UI Y" for X Y
    by (simp add: word_less_nat_alt shifted_frac_F32)
  note inf = inf_word_F32 [OF l(1)]
  note spec = add_spec_diff_sign [where 'a = 32, of 24 8 "unat A" "unat B" "signF32UI A" st]
  consider "expF32UI A = expF32UI B" | "expF32UI A < expF32UI B" | "expF32UI B < expF32UI A" by linarith
  then show ?thesis
  proof cases
    case 1
    show ?thesis
    proof (cases "expF32UI A = 255")
      case True
      then show ?thesis
        using 1 by (auto simp: softfloat_subMagsF32_def Let_def fp_add_spec_def cls z or_eq_0_iff propagate_F32 [unfolded Let_def]
            special_F32 fp_invalid_def)
    next
      case False
      have code: "softfloat_subMagsF32 A B (signF32UI A) st =
        (if fracF32UI B < fracF32UI A
         then softfloat_normRoundPackToF32 (signF32UI A) ((if expF32UI A = 0 then 1 else expF32UI A) - 1)
           (push_bit 7 (fracF32UI A) - push_bit 7 (fracF32UI B)) st
         else if fracF32UI A < fracF32UI B
         then softfloat_normRoundPackToF32 (\<not> signF32UI A) ((if expF32UI B = 0 then 1 else expF32UI B) - 1)
           (push_bit 7 (fracF32UI B) - push_bit 7 (fracF32UI A)) st
         else (fp_zero 24 8 (softfloat_roundingMode st = softfloat_round_min), st))"
        using 1 False by (auto simp: softfloat_subMagsF32_def Let_def lt special_F32)
      consider "fracF32UI B < fracF32UI A" | "fracF32UI A < fracF32UI B" | "fracF32UI A = fracF32UI B" by force
      then show ?thesis
      proof cases
        case a: 1
        then show ?thesis
          using subMagsF32_same_exp [OF 1 False a, of "signF32UI A" st] spec(1) f32.mag_same_exp [of B A] 1 False cls
          unfolding code by simp
      next
        case a: 2
        then show ?thesis
          using subMagsF32_same_exp [OF 1 [symmetric] _ a, of "\<not> signF32UI A" st] spec(2) f32.mag_same_exp [of A B] 1 False cls
          unfolding code by auto
      next
        case a: 3
        then have "fp_mag 24 8 (unat A) = fp_mag 24 8 (unat B)" using 1 by (simp add: f32.mag_fields)
        then show ?thesis using a spec(3) 1 False cls unfolding code by (simp add: rmode_RDN)
      qed
    qed
  next
    case 2
    show ?thesis
    proof (cases "expF32UI B = 255")
      case True
      then show ?thesis
        using 2 by (auto simp: softfloat_subMagsF32_def Let_def fp_add_spec_def cls z propagate_F32 [unfolded Let_def] special_F32)
    next
      case False
      then have "expF32UI A \<noteq> 255" using 2 f32.exp_range [of B] by simp
      with False show ?thesis
        using 2 spec(2) f32.mag_less_exp [OF 2] cls subMagsF32_aligned [OF 2 False, of "\<not> signF32UI A" st]
        by (simp add: softfloat_subMagsF32_def Let_def)
    qed
  next
    case 3
    show ?thesis
    proof (cases "expF32UI A = 255")
      case True
      then show ?thesis
        using 3 inf by (auto simp: softfloat_subMagsF32_def Let_def fp_add_spec_def cls z propagate_F32 [unfolded Let_def])
    next
      case False
      then have "expF32UI B \<noteq> 255" using 3 f32.exp_range [of A] by simp
      with False show ?thesis
        using 3 spec(1) f32.mag_less_exp [OF 3] cls subMagsF32_aligned [OF 3 False, of "signF32UI A" st]
        by (simp add: softfloat_subMagsF32_def Let_def)
    qed
  qed
qed

lemma f32_add_result:
  "f32_add a b st = fp_add_spec 24 8 (fp_neg 24 8 (unat a)) (unat a) (fp_neg 24 8 (unat b)) (unat b) st"
  "f32_sub a b st = fp_add_spec 24 8 (fp_neg 24 8 (unat a)) (unat a) (\<not> fp_neg 24 8 (unat b)) (unat b) st"
proof -
  define A B where "A = (ucast a :: u64)" and "B = (ucast b :: u64)"
  have u: "unat a = unat A" "unat b = unat B" by (simp_all add: A_def B_def)
  have l: "unat A < 2 ^ (8 + 24)" "unat B < 2 ^ (8 + 24)"
    using unat_less_32 [of a] unat_less_32 [of b] unfolding u by simp_all
  note n = u f32.neg_sign [OF l(1)] f32.neg_sign [OF l(2)] A_def [symmetric] B_def [symmetric]
  show "f32_add a b st = fp_add_spec 24 8 (fp_neg 24 8 (unat a)) (unat a) (fp_neg 24 8 (unat b)) (unat b) st"
    unfolding f32_add_def n Let_def using addMagsF32_result [OF l] subMagsF32_result [OF l]
    by (cases "signF32UI A"; cases "signF32UI B"; simp)
  show "f32_sub a b st = fp_add_spec 24 8 (fp_neg 24 8 (unat a)) (unat a) (\<not> fp_neg 24 8 (unat b)) (unat b) st"
    unfolding f32_sub_def n Let_def using addMagsF32_result [OF l] subMagsF32_result [OF l]
    by (cases "signF32UI A"; cases "signF32UI B"; simp)
qed

subsection \<open>Alignment in 64 bits\<close>

lemma jam_aligned_F64:
  fixes x :: u64
  assumes "unat x < 2 ^ 63" "0 < d" "d < 2 ^ 15"
  shows "unat (softfloat_shiftRightJam64 x (word_of_int d)) = sticky (unat x) (2 ^ nat d)"
  using jam64_small [of "nat d" x] assms by simp

lemma scaled_sig_F64:
  fixes X :: u64
  defines "m \<equiv> (if expF64UI X = 0 then 2 * unat (fracF64UI X) else 2 ^ 52 + unat (fracF64UI X))"
  shows "unat (push_bit 9 (fracF64UI X) + (if expF64UI X \<noteq> 0 then 0x2000000000000000 else push_bit 9 (fracF64UI X))) = m * 2 ^ 9"
    and "unat (push_bit 10 (fracF64UI X) + (if expF64UI X \<noteq> 0 then 0x4000000000000000 else push_bit 10 (fracF64UI X))) = m * 2 ^ 10"
    and "m < 2 * 2 ^ 52"
proof -
  have f: "unat (fracF64UI X) < 2 ^ 52" using f64.frac_range [of X] by simp
  have a: "unat (push_bit 9 (fracF64UI X)) = unat (fracF64UI X) * 2 ^ 9"
    and b: "unat (push_bit 10 (fracF64UI X)) = unat (fracF64UI X) * 2 ^ 10"
    using f by (intro unat_push_small; simp)+
  show "unat (push_bit 9 (fracF64UI X) + (if expF64UI X \<noteq> 0 then 0x2000000000000000 else push_bit 9 (fracF64UI X))) = m * 2 ^ 9"
    using a f by (subst unat_add_small) (simp_all add: m_def)
  show "unat (push_bit 10 (fracF64UI X) + (if expF64UI X \<noteq> 0 then 0x4000000000000000 else push_bit 10 (fracF64UI X))) = m * 2 ^ 10"
    using b f by (subst unat_add_small) (simp_all add: m_def)
  show "m < 2 * 2 ^ 52" using f by (simp add: m_def)
qed

lemma shifted_frac_F64:
  "unat (push_bit 9 (fracF64UI X)) = unat (fracF64UI X) * 2 ^ 9"
  "unat (push_bit 10 (fracF64UI X)) = unat (fracF64UI X) * 2 ^ 10"
  "unat (push_bit 10 (fracF64UI X) OR 0x4000000000000000) = (2 ^ 52 + unat (fracF64UI X)) * 2 ^ 10"
proof -
  have f: "unat (fracF64UI X) < 2 ^ 52" using f64.frac_range [of X] by simp
  show "unat (push_bit 9 (fracF64UI X)) = unat (fracF64UI X) * 2 ^ 9"
    and b: "unat (push_bit 10 (fracF64UI X)) = unat (fracF64UI X) * 2 ^ 10"
    using f by (intro unat_push_small; simp)+
  show "unat (push_bit 10 (fracF64UI X) OR 0x4000000000000000) = (2 ^ 52 + unat (fracF64UI X)) * 2 ^ 10"
    using unat_or_disjoint [of "0x4000000000000000 :: u64" 62 "push_bit 10 (fracF64UI X)"] b f by (simp add: or.commute)
qed

lemma operand_value_F64:
  "0 < expF64UI X \<Longrightarrow> (of_nat (fp_mag 53 11 (unat X)) :: rat) =
     of_nat (2 ^ 52 + unat (fracF64UI X)) * 2 powi (expF64UI X - 1)"
  "(of_nat (fp_mag 53 11 (unat X)) :: rat) =
     of_nat (if expF64UI X = 0 then 2 * unat (fracF64UI X) else 2 ^ 52 + unat (fracF64UI X)) * 2 powi (expF64UI X - 1)"
  using f64.mag_scaled [of X] by simp_all

lemma addMagsF64_aligned:
  assumes lt: "expF64UI L < expF64UI H" and fin: "expF64UI H \<noteq> 2047"
  defines "S \<equiv> push_bit 9 (fracF64UI L) + (if expF64UI L \<noteq> 0 then 0x2000000000000000 else push_bit 9 (fracF64UI L))"
  shows "addMagsF64_tail s (expF64UI H) (softfloat_shiftRightJam64 S (word_of_int (expF64UI H - expF64UI L))) (push_bit 9 (fracF64UI H)) st =
    fp_result 53 11 st s (fp_mag 53 11 (unat H) + fp_mag 53 11 (unat L)) 1"
proof -
  define mH where "mH = 2 ^ 52 + unat (fracF64UI H)"
  define mL where "mL = (if expF64UI L = 0 then 2 * unat (fracF64UI L) else 2 ^ 52 + unat (fracF64UI L))"
  define d where "d = nat (expF64UI H - expF64UI L)"
  have r: "0 \<le> expF64UI L" "0 < expF64UI H" "expF64UI H < 2047"
    using lt fin f64.exp_range [of L] f64.exp_range [of H] by simp_all
  have d: "expF64UI H - expF64UI L = int d" "0 < d" using lt by (simp_all add: d_def)
  have mH: "2 ^ 52 \<le> mH" "mH < 2 * 2 ^ 52" using f64.frac_range [of H] by (simp_all add: mH_def)
  have S: "unat S = mL * 2 ^ 9" and mL: "mL < 2 * 2 ^ 52"
    unfolding S_def mL_def by (rule scaled_sig_F64)+
  define Z where "Z = 0x2000000000000000 + (softfloat_shiftRightJam64 S (word_of_int (expF64UI H - expF64UI L))) + push_bit 9 (fracF64UI H)"
  have j: "unat (softfloat_shiftRightJam64 S (word_of_int (expF64UI H - expF64UI L))) = sticky (mL * 2 ^ 9) (2 ^ d)"
    unfolding d_def S [symmetric] by (rule jam_aligned_F64) (use S mL lt r in simp_all)
  have one: "1 < (2::nat) ^ d" using d one_less_power [of "2::nat" d] by simp
  have jl: "sticky (mL * 2 ^ 9) (2 ^ d) \<le> mL * 2 ^ 9" by (rule sticky_le [OF one])
  have Z1: "unat Z = mH * 2 ^ 9 + sticky (mL * 2 ^ 9) (2 ^ d)"
  proof -
    have "unat (0x2000000000000000 + (softfloat_shiftRightJam64 S (word_of_int (expF64UI H - expF64UI L))) :: u64) = 0x2000000000000000 + sticky (mL * 2 ^ 9) (2 ^ d)"
      using j jl mL by (subst unat_add_small) simp_all
    then show ?thesis
      unfolding Z_def using jl mL mH shifted_frac_F64(1) [of H]
      by (subst unat_add_small) (simp_all add: mH_def)
  qed
  also have "\<dots> = sticky (mH * 2 ^ 9 * 2 ^ d + mL * 2 ^ 9) (2 ^ d)"
    by (rule sticky_add [symmetric]) simp_all
  finally have Z2: "unat Z = sticky (mH * 2 ^ 9 * 2 ^ d + mL * 2 ^ 9) (2 ^ d)" .
  have Zb: "2 ^ 61 \<le> unat Z" "unat Z < 2 ^ 63" using Z1 jl mL mH by simp_all
  note magH = operand_value_F64(1) [OF r(2), folded mH_def]
  have "expF64UI L - 1 = expF64UI H - 1 - int d" using d(1) by simp
  note magL = operand_value_F64(2) [of L, folded mL_def, unfolded this]
  have v: "(of_nat (fp_mag 53 11 (unat H) + fp_mag 53 11 (unat L)) / of_nat 1 :: rat) =
      of_nat (mH * 2 ^ 9 * 2 ^ d + mL * 2 ^ 9) / of_nat (2 ^ d) * 2 powi (expF64UI H - int 10)"
    unfolding of_nat_add magH magL using align_sum_value [of mH "expF64UI H" mL d 9] by simp
  have "fp_scaled 53 11 10 st s (unat Z) (expF64UI H) =
      fp_result 53 11 st s (fp_mag 53 11 (unat H) + fp_mag 53 11 (unat L)) 1"
    unfolding Z2 by (rule fp_scaled_sticky_result [OF _ _ _ _ _ _ v]) (use Z2 Zb in simp_all)
  moreover have "- (2 ^ 14) \<le> expF64UI H" "expF64UI H < 2 ^ 15" using r by simp_all
  note round_step_F64 [OF Zb this, of s st, unfolded Let_def]
  ultimately show ?thesis unfolding addMagsF64_tail_def Let_def Z_def [symmetric] by (simp only:)
qed

lemma addMagsF64_tail_commute:
  "addMagsF64_tail s e x y st = addMagsF64_tail s e y x st"
  by (simp add: addMagsF64_tail_def ac_simps)

lemma subMagsF64_aligned:
  assumes lt: "expF64UI L < expF64UI H" and fin: "expF64UI H \<noteq> 2047"
  defines "S \<equiv> push_bit 10 (fracF64UI L) + (if expF64UI L \<noteq> 0 then 0x4000000000000000 else push_bit 10 (fracF64UI L))"
  shows "softfloat_normRoundPackToF64 s (expF64UI H - 1) ((push_bit 10 (fracF64UI H) OR 0x4000000000000000) - (softfloat_shiftRightJam64 S (word_of_int (expF64UI H - expF64UI L)))) st =
    fp_result 53 11 st s (fp_mag 53 11 (unat H) - fp_mag 53 11 (unat L)) 1"
proof -
  define mH where "mH = 2 ^ 52 + unat (fracF64UI H)"
  define mL where "mL = (if expF64UI L = 0 then 2 * unat (fracF64UI L) else 2 ^ 52 + unat (fracF64UI L))"
  define d where "d = nat (expF64UI H - expF64UI L)"
  define t where "t = sticky (mL * 2 ^ 10) (2 ^ d)"
  have r: "0 \<le> expF64UI L" "0 < expF64UI H" "expF64UI H < 2047"
    using lt fin f64.exp_range [of L] f64.exp_range [of H] by simp_all
  have d: "expF64UI H - expF64UI L = int d" "0 < d" using lt by (simp_all add: d_def)
  have mH: "2 ^ 52 \<le> mH" "mH < 2 * 2 ^ 52" using f64.frac_range [of H] by (simp_all add: mH_def)
  have S: "unat S = mL * 2 ^ 10" and mL: "mL < 2 * 2 ^ 52"
    unfolding S_def mL_def by (rule scaled_sig_F64)+
  define Z where "Z = (push_bit 10 (fracF64UI H) OR 0x4000000000000000) - (softfloat_shiftRightJam64 S (word_of_int (expF64UI H - expF64UI L)))"
  have j: "unat (softfloat_shiftRightJam64 S (word_of_int (expF64UI H - expF64UI L))) = t"
    unfolding t_def d_def S [symmetric] by (rule jam_aligned_F64) (use S mL lt r in simp_all)
  have h: "unat (push_bit 10 (fracF64UI H) OR 0x4000000000000000) = mH * 2 ^ 10"
    unfolding mH_def by (rule shifted_frac_F64)
  have half: "t \<le> 2 ^ 62"
    unfolding t_def using d mL by (intro sticky_small [where k = 1]) simp_all
  have quarter: "t \<le> 2 ^ 61" if "1 < d"
    unfolding t_def using that mL by (intro sticky_small [where k = 2]) simp_all
  have Z1: "unat Z = mH * 2 ^ 10 - t"
    unfolding Z_def using half mH j h by (subst unat_sub_small) (simp_all add: word_le_nat_alt)
  have le: "mL * 2 ^ 10 \<le> mH * 2 ^ 10 * 2 ^ d"
  proof -
    have "mL \<le> mH * 2" using mL mH by simp
    also have "\<dots> \<le> mH * 2 ^ d" using power_increasing [of 1 d "2::nat"] d by simp
    finally show ?thesis by simp
  qed
  have Z2: "unat Z = sticky (mH * 2 ^ 10 * 2 ^ d - mL * 2 ^ 10) (2 ^ d)"
    unfolding Z1 t_def using le by (intro sticky_diff [symmetric]) simp_all
  have less: "fp_mag 53 11 (unat L) < fp_mag 53 11 (unat H)" by (rule f64.mag_less_exp [OF lt])
  note magH = operand_value_F64(1) [OF r(2), folded mH_def]
  have "expF64UI L - 1 = expF64UI H - 1 - int d" using d(1) by simp
  note magL = operand_value_F64(2) [of L, folded mL_def, unfolded this]
  have v: "(of_nat (fp_mag 53 11 (unat H) - fp_mag 53 11 (unat L)) / of_nat 1 :: rat) =
      of_nat (mH * 2 ^ 10 * 2 ^ d - mL * 2 ^ 10) / of_nat (2 ^ d) * 2 powi (expF64UI H - 1 - int 10)"
    unfolding of_nat_diff [OF less_imp_le [OF less]] magH magL
    using align_diff_value [OF le, of "expF64UI H"] by simp
  have Zb: "0 < unat Z" "unat Z < 2 ^ 63"
  proof -
    show "unat Z < 2 ^ 63" using Z1 mH by simp
    have "mH * 2 ^ 10 * 2 ^ d \<noteq> mL * 2 ^ 10"
    proof
      assume "mH * 2 ^ 10 * 2 ^ d = mL * 2 ^ 10"
      then have "(of_nat (fp_mag 53 11 (unat H) - fp_mag 53 11 (unat L)) / of_nat 1 :: rat) = 0"
        unfolding v by simp
      with less show False by simp
    qed
    then show "0 < unat Z" unfolding Z2 using le by (simp add: sticky_zero_iff flip: neq0_conv)
  qed
  have "softfloat_normRoundPackToF64 s (expF64UI H - 1) Z st =
      fp_scaled 53 11 10 st s (unat Z) (expF64UI H - 1)"
    using Zb r by (intro normRoundPackToF64_scaled) simp_all
  also have "\<dots> = fp_result 53 11 st s (fp_mag 53 11 (unat H) - fp_mag 53 11 (unat L)) 1"
  proof (cases "d = 1")
    case True
    then have "sticky (mH * 2 ^ 10 * 2 ^ d - mL * 2 ^ 10) (2 ^ d) = mH * 2 ^ 10 - mL * 2 ^ 9"
      using Z1 Z2 unfolding t_def by (simp add: sticky_def)
    moreover have "(of_nat (fp_mag 53 11 (unat H) - fp_mag 53 11 (unat L)) / of_nat 1 :: rat) =
        of_nat (mH * 2 ^ 10 - mL * 2 ^ 9) * 2 powi (expF64UI H - 1 - int 10)"
      unfolding v using True le by (simp add: of_nat_diff field_simps)
    ultimately show ?thesis unfolding Z2 by (intro fp_scaled_eq_result) simp_all
  next
    case False
    then have "2 ^ 61 \<le> unat Z" using quarter d Z1 mH by simp
    then show ?thesis
      using Zb(2) unfolding Z2 by (intro fp_scaled_sticky_result [OF _ _ _ _ _ _ v]) simp_all
  qed
  finally show ?thesis unfolding Z_def .
qed

lemma subMagsF64_same_exp:
  assumes e: "expF64UI X = expF64UI Y" and fin: "expF64UI X \<noteq> 2047"
    and lt: "fracF64UI Y < fracF64UI X"
  shows "softfloat_normRoundPackToF64 s ((if expF64UI X = 0 then 1 else expF64UI X) - 1)
      (push_bit 10 (fracF64UI X) - push_bit 10 (fracF64UI Y)) st =
    fp_result 53 11 st s (fp_mag 53 11 (unat X) - fp_mag 53 11 (unat Y)) 1"
proof -
  let ?e = "if expF64UI X = 0 then 1 else expF64UI X"
  let ?Z = "push_bit 10 (fracF64UI X) - push_bit 10 (fracF64UI Y)"
  have r: "0 \<le> expF64UI X" "expF64UI X < 2047" using fin f64.exp_range [of X] by simp_all
  have f: "unat (fracF64UI X) < 2 ^ 52" "unat (fracF64UI Y) < unat (fracF64UI X)"
    using f64.frac_range [of X] lt by (simp_all add: word_less_nat_alt)
  have Z: "unat ?Z = (unat (fracF64UI X) - unat (fracF64UI Y)) * 2 ^ 10"
    using f by (subst unat_sub_small) (simp_all add: word_le_nat_alt shifted_frac_F64 diff_mult_distrib)
  have "softfloat_normRoundPackToF64 s (?e - 1) ?Z st = fp_scaled 53 11 10 st s (unat ?Z) (?e - 1)"
    using Z f r by (intro normRoundPackToF64_scaled) simp_all
  also have "\<dots> = fp_result 53 11 st s (fp_mag 53 11 (unat X) - fp_mag 53 11 (unat Y)) 1"
  proof (rule fp_scaled_eq_result)
    have less: "fp_mag 53 11 (unat Y) \<le> fp_mag 53 11 (unat X)"
      using f64.mag_same_exp [of Y X] e lt by simp
    show "(of_nat (fp_mag 53 11 (unat X) - fp_mag 53 11 (unat Y)) / of_nat 1 :: rat) =
        of_nat (unat ?Z) * 2 powi (?e - 1 - int 10)"
      unfolding of_nat_diff [OF less] Z f64.mag_scaled using e f(2)
      by (auto simp: of_nat_diff power_int_diff field_simps)
  qed simp
  finally show ?thesis .
qed

lemma subnormal_sum_F64:
  assumes A: "expF64UI A = 0" and B: "expF64UI B = 0"
  shows "(packToF64UI s 0 ((A + B) AND 0x7FFFFFFFFFFFFFFF), st) =
    (fp_result 53 11 st s (fp_mag 53 11 (unat A) + fp_mag 53 11 (unat B)) 1 :: u64 \<times> sf_state)"
proof -
  let ?n = "unat (fracF64UI A) + unat (fracF64UI B)"
  have m: "(0x7FFFFFFFFFFFFFFF :: u64) = mask 63" by (simp add: mask_eq_exp_minus_1)
  have "unat A mod 2 ^ 63 = unat (fracF64UI A)" "unat B mod 2 ^ 63 = unat (fracF64UI B)"
    using f64.split_bits [of A] f64.split_bits [of B] A B by simp_all
  moreover have f: "unat (fracF64UI A) < 2 ^ 52" "unat (fracF64UI B) < 2 ^ 52"
    using f64.frac_range [of A] f64.frac_range [of B] by simp_all
  moreover have "unat ((A + B) AND 0x7FFFFFFFFFFFFFFF) = (unat A + unat B) mod 2 ^ 63"
    unfolding m unat_and_mask unat_word_ariths by (simp add: mod_mod_cancel)
  moreover have "(unat A + unat B) mod 2 ^ 63 = (unat A mod 2 ^ 63 + unat B mod 2 ^ 63) mod 2 ^ 63"
    by (rule mod_add_eq [symmetric])
  ultimately have n: "unat ((A + B) AND 0x7FFFFFFFFFFFFFFF) = ?n" by simp
  have "ieee_result 53 11 after m s ?n 1 = (?n, False, False, False)" for after m
    using ieee_result_small [of 1 53 11 ?n after m s] f by (simp add: round_quot_exact)
  then show ?thesis
    using packToF64UI_nat [of s 0 "(A + B) AND 0x7FFFFFFFFFFFFFFF"] A B
    by (simp add: fp_result_def n f64.mag_fields)
qed

lemma inf_word_F64:
  assumes "unat A < 2 ^ (11 + 53)" "expF64UI A = 2047" "fracF64UI A = 0"
  shows "A = (fp_infinity 53 11 (signF64UI A) :: u64)"
  using arg_cong [OF f64.inf_bits_pattern [OF assms(1)], of "of_nat :: nat \<Rightarrow> u64"] assms(2,3)
  by (simp add: fp_infinity_def)

lemma addMagsF64_result:
  assumes l: "unat A < 2 ^ (11 + 53)" "unat B < 2 ^ (11 + 53)"
  shows "softfloat_addMagsF64 A B (signF64UI A) st =
    fp_add_spec 53 11 (signF64UI A) (unat A) (signF64UI A) (unat B) st"
proof -
  note cls = f64.classify [of A, simplified] f64.classify [of B, simplified]
  have z: "push_bit 9 (fracF64UI X) = 0 \<longleftrightarrow> fracF64UI X = 0" for X
    using shifted_frac_F64(1) [of X] by (simp add: unat_eq_0 [symmetric])
  note inf = inf_word_F64 [OF l(1)]
  have fin: "(fp_add_spec 53 11 (signF64UI A) (unat A) (signF64UI A) (unat B) st :: u64 \<times> sf_state) =
      fp_result 53 11 st (signF64UI A) (fp_mag 53 11 (unat A) + fp_mag 53 11 (unat B)) 1"
    if "expF64UI A \<noteq> 2047" "expF64UI B \<noteq> 2047"
    using that cls by (intro add_spec_same_sign) simp_all
  consider "expF64UI A = expF64UI B" | "expF64UI A < expF64UI B" | "expF64UI B < expF64UI A" by linarith
  then show ?thesis
  proof cases
    case 1
    consider "expF64UI A = 2047" | "expF64UI A = 0" | "expF64UI A \<noteq> 2047" "expF64UI A \<noteq> 0" by blast
    then show ?thesis
    proof cases
      case a: 1
      then show ?thesis
        using 1 inf by (auto simp: softfloat_addMagsF64_def Let_def fp_add_spec_def cls z or_eq_0_iff propagate_F64)
    next
      case a: 2
      then show ?thesis
        using 1 fin subnormal_sum_F64 [of A B "signF64UI A" st]
        by (simp add: softfloat_addMagsF64_def)
    next
      case a: 3
      let ?Z = "0x4000000000000000 + push_bit 9 (fracF64UI A) + push_bit 9 (fracF64UI B)"
      have f: "unat (fracF64UI A) < 2 ^ 52" "unat (fracF64UI B) < 2 ^ 52"
        using f64.frac_range [of A] f64.frac_range [of B] by simp_all
      have "unat (0x4000000000000000 + push_bit 9 (fracF64UI A)) = 2 ^ 62 + unat (fracF64UI A) * 2 ^ 9"
        using f by (subst unat_add_small) (simp_all add: shifted_frac_F64)
      then have Z: "unat ?Z = 2 ^ 62 + (unat (fracF64UI A) + unat (fracF64UI B)) * 2 ^ 9"
        using f by (subst unat_add_small) (simp_all add: shifted_frac_F64)
      have r: "0 < expF64UI A" "expF64UI A < 2047" using a f64.exp_range [of A] by simp_all
      have "softfloat_roundPackToF64 (signF64UI A) (expF64UI A) ?Z st =
          fp_scaled 53 11 10 st (signF64UI A) (unat ?Z) (expF64UI A)"
        using Z f r by (intro roundPackToF64_scaled) simp_all
      also have "\<dots> = fp_result 53 11 st (signF64UI A) (fp_mag 53 11 (unat A) + fp_mag 53 11 (unat B)) 1"
        unfolding Z using r 1 operand_value_F64(1) [of A] operand_value_F64(1) [of B]
        by (intro fp_scaled_eq_result) (simp_all add: power_int_diff field_simps)
      finally show ?thesis using a 1 fin by (simp add: softfloat_addMagsF64_def)
    qed
  next
    case 2
    show ?thesis
    proof (cases "expF64UI B = 2047")
      case True
      then show ?thesis
        using 2 by (auto simp: softfloat_addMagsF64_def Let_def fp_add_spec_def cls z propagate_F64 special_F64)
    next
      case False
      then show ?thesis
        using 2 fin f64.exp_range [of B] addMagsF64_aligned [OF 2 False, of "signF64UI A" st]
        by (simp add: softfloat_addMagsF64_def Let_def add.commute)
    qed
  next
    case 3
    show ?thesis
    proof (cases "expF64UI A = 2047")
      case True
      then show ?thesis
        using 3 inf by (auto simp: softfloat_addMagsF64_def Let_def fp_add_spec_def cls z propagate_F64)
    next
      case False
      then show ?thesis
        using 3 fin f64.exp_range [of A] addMagsF64_aligned [OF 3 False, of "signF64UI A" st]
        by (simp add: softfloat_addMagsF64_def Let_def addMagsF64_tail_commute)
    qed
  qed
qed

lemma subMagsF64_result:
  assumes l: "unat A < 2 ^ (11 + 53)" "unat B < 2 ^ (11 + 53)"
  shows "softfloat_subMagsF64 A B (signF64UI A) st =
    fp_add_spec 53 11 (signF64UI A) (unat A) (\<not> signF64UI A) (unat B) st"
proof -
  note cls = f64.classify [of A, simplified] f64.classify [of B, simplified]
  have z: "push_bit 10 (fracF64UI X) = 0 \<longleftrightarrow> fracF64UI X = 0" for X
    using shifted_frac_F64(2) [of X] by (simp add: unat_eq_0 [symmetric])
  have lt: "push_bit 10 (fracF64UI X) < push_bit 10 (fracF64UI Y) \<longleftrightarrow> fracF64UI X < fracF64UI Y" for X Y
    by (simp add: word_less_nat_alt shifted_frac_F64)
  note inf = inf_word_F64 [OF l(1)]
  note spec = add_spec_diff_sign [where 'a = 64, of 53 11 "unat A" "unat B" "signF64UI A" st]
  consider "expF64UI A = expF64UI B" | "expF64UI A < expF64UI B" | "expF64UI B < expF64UI A" by linarith
  then show ?thesis
  proof cases
    case 1
    show ?thesis
    proof (cases "expF64UI A = 2047")
      case True
      then show ?thesis
        using 1 by (auto simp: softfloat_subMagsF64_def Let_def fp_add_spec_def cls z or_eq_0_iff propagate_F64
            special_F64 fp_invalid_def)
    next
      case False
      have code: "softfloat_subMagsF64 A B (signF64UI A) st =
        (if fracF64UI B < fracF64UI A
         then softfloat_normRoundPackToF64 (signF64UI A) ((if expF64UI A = 0 then 1 else expF64UI A) - 1)
           (push_bit 10 (fracF64UI A) - push_bit 10 (fracF64UI B)) st
         else if fracF64UI A < fracF64UI B
         then softfloat_normRoundPackToF64 (\<not> signF64UI A) ((if expF64UI B = 0 then 1 else expF64UI B) - 1)
           (push_bit 10 (fracF64UI B) - push_bit 10 (fracF64UI A)) st
         else (fp_zero 53 11 (softfloat_roundingMode st = softfloat_round_min), st))"
        using 1 False by (auto simp: softfloat_subMagsF64_def Let_def lt special_F64)
      consider "fracF64UI B < fracF64UI A" | "fracF64UI A < fracF64UI B" | "fracF64UI A = fracF64UI B" by force
      then show ?thesis
      proof cases
        case a: 1
        then show ?thesis
          using subMagsF64_same_exp [OF 1 False a, of "signF64UI A" st] spec(1) f64.mag_same_exp [of B A] 1 False cls
          unfolding code by simp
      next
        case a: 2
        then show ?thesis
          using subMagsF64_same_exp [OF 1 [symmetric] _ a, of "\<not> signF64UI A" st] spec(2) f64.mag_same_exp [of A B] 1 False cls
          unfolding code by auto
      next
        case a: 3
        then have "fp_mag 53 11 (unat A) = fp_mag 53 11 (unat B)" using 1 by (simp add: f64.mag_fields)
        then show ?thesis using a spec(3) 1 False cls unfolding code by (simp add: rmode_RDN)
      qed
    qed
  next
    case 2
    show ?thesis
    proof (cases "expF64UI B = 2047")
      case True
      then show ?thesis
        using 2 by (auto simp: softfloat_subMagsF64_def Let_def fp_add_spec_def cls z propagate_F64 special_F64)
    next
      case False
      then have "expF64UI A \<noteq> 2047" using 2 f64.exp_range [of B] by simp
      with False show ?thesis
        using 2 spec(2) f64.mag_less_exp [OF 2] cls subMagsF64_aligned [OF 2 False, of "\<not> signF64UI A" st]
        by (simp add: softfloat_subMagsF64_def Let_def)
    qed
  next
    case 3
    show ?thesis
    proof (cases "expF64UI A = 2047")
      case True
      then show ?thesis
        using 3 inf by (auto simp: softfloat_subMagsF64_def Let_def fp_add_spec_def cls z propagate_F64)
    next
      case False
      then have "expF64UI B \<noteq> 2047" using 3 f64.exp_range [of A] by simp
      with False show ?thesis
        using 3 spec(1) f64.mag_less_exp [OF 3] cls subMagsF64_aligned [OF 3 False, of "signF64UI A" st]
        by (simp add: softfloat_subMagsF64_def Let_def)
    qed
  qed
qed

lemma f64_add_result:
  "f64_add a b st = fp_add_spec 53 11 (fp_neg 53 11 (unat a)) (unat a) (fp_neg 53 11 (unat b)) (unat b) st"
  "f64_sub a b st = fp_add_spec 53 11 (fp_neg 53 11 (unat a)) (unat a) (\<not> fp_neg 53 11 (unat b)) (unat b) st"
proof -
  define A B where "A = a" and "B = b"
  have u: "unat a = unat A" "unat b = unat B" by (simp_all add: A_def B_def)
  have l: "unat A < 2 ^ (11 + 53)" "unat B < 2 ^ (11 + 53)"
    using unat_less_64 [of a] unat_less_64 [of b] unfolding u by simp_all
  note n = u f64.neg_sign [OF l(1)] f64.neg_sign [OF l(2)] A_def [symmetric] B_def [symmetric]
  show "f64_add a b st = fp_add_spec 53 11 (fp_neg 53 11 (unat a)) (unat a) (fp_neg 53 11 (unat b)) (unat b) st"
    unfolding f64_add_def n Let_def using addMagsF64_result [OF l] subMagsF64_result [OF l]
    by (cases "signF64UI A"; cases "signF64UI B"; simp)
  show "f64_sub a b st = fp_add_spec 53 11 (fp_neg 53 11 (unat a)) (unat a) (\<not> fp_neg 53 11 (unat b)) (unat b) st"
    unfolding f64_sub_def n Let_def using addMagsF64_result [OF l] subMagsF64_result [OF l]
    by (cases "signF64UI A"; cases "signF64UI B"; simp)
qed

subsection \<open>Properties\<close>

text \<open>C1.  Addition and subtraction, in both formats, return the correctly rounded exact sum or
  difference of finite operands with its flags, an exact zero with the sign the rounding mode asks
  for, the infinity when one operand is infinite, and the default NaN with invalid for the
  difference of like infinities; NaN operands propagate as the default NaN.\<close>

theorem add_sub_correct:
  "f32_add a b st =
     fp_add_spec 24 8 (fp_neg 24 8 (unat a)) (unat a) (fp_neg 24 8 (unat b)) (unat b) st \<and>
   f32_sub a b st =
     fp_add_spec 24 8 (fp_neg 24 8 (unat a)) (unat a) (\<not> fp_neg 24 8 (unat b)) (unat b) st \<and>
   f64_add c d st =
     fp_add_spec 53 11 (fp_neg 53 11 (unat c)) (unat c) (fp_neg 53 11 (unat d)) (unat d) st \<and>
   f64_sub c d st =
     fp_add_spec 53 11 (fp_neg 53 11 (unat c)) (unat c) (\<not> fp_neg 53 11 (unat d)) (unat d) st"
  by (simp only: f32_add_result f64_add_result simp_thms)

end
