(* ===== verification/SF_Mul.thy ===== *)
theory SF_Mul
  imports SF_RoundPack
begin

text \<open>
  Multiplication (\<open>f32_mul.c\<close>, \<open>f64_mul.c\<close>): every branch of the special operands, and the proof
  that on finite operands the result is the correctly rounded product.
\<close>

subsection \<open>Definitions\<close>

definition f32_mul :: "u32 \<Rightarrow> u32 \<Rightarrow> sf_state \<Rightarrow> u32 \<times> sf_state" where
  "f32_mul a b st =
     (let uiA = ucast a; signA = signF32UI uiA; expA = expF32UI uiA; sigA = fracF32UI uiA;
          uiB = ucast b; signB = signF32UI uiB; expB = expF32UI uiB; sigB = fracF32UI uiB;
          signZ = (signA \<noteq> signB);
          propagateNaN =
            (let (uiZ, st) = softfloat_propagateNaNF32UI uiA uiB st in (ucast uiZ, st));
          infArg = (\<lambda>magBits.
            if magBits = 0
            then (ucast defaultNaNF32UI, softfloat_raiseFlags softfloat_flag_invalid st)
            else (ucast (packToF32UI signZ 0xFF 0), st));
          zero = (ucast (packToF32UI signZ 0 0), st)
      in if expA = 0xFF
         then if sigA \<noteq> 0 \<or> (expB = 0xFF \<and> sigB \<noteq> 0) then propagateNaN
              else infArg (word_of_int expB OR sigB)
         else if expB = 0xFF
         then if sigB \<noteq> 0 then propagateNaN else infArg (word_of_int expA OR sigA)
         else if expA = 0 \<and> sigA = 0 then zero
         else (let (expA, sigA) = (if expA = 0 then softfloat_normSubnormalF32Sig sigA else (expA, sigA))
         in if expB = 0 \<and> sigB = 0 then zero
         else (let (expB, sigB) = (if expB = 0 then softfloat_normSubnormalF32Sig sigB else (expB, sigB));
                   expZ = expA + expB - 0x7F;
                   sigA = push_bit 7 (sigA OR 0x00800000);
                   sigB = push_bit 8 (sigB OR 0x00800000);
                   sigZ = softfloat_shortShiftRightJam64 (sigA * sigB) 32;
                   (expZ, sigZ) = (if sigZ < 0x40000000 then (expZ - 1, push_bit 1 sigZ) else (expZ, sigZ))
         in softfloat_roundPackToF32 signZ expZ sigZ st)))"

definition f64_mul :: "u64 \<Rightarrow> u64 \<Rightarrow> sf_state \<Rightarrow> u64 \<times> sf_state" where
  "f64_mul a b st =
     (let uiA = a; signA = signF64UI uiA; expA = expF64UI uiA; sigA = fracF64UI uiA;
          uiB = b; signB = signF64UI uiB; expB = expF64UI uiB; sigB = fracF64UI uiB;
          signZ = (signA \<noteq> signB);
          propagateNaN =
            (let (uiZ, st) = softfloat_propagateNaNF64UI uiA uiB st in (uiZ, st));
          infArg = (\<lambda>magBits.
            if magBits = 0
            then (defaultNaNF64UI, softfloat_raiseFlags softfloat_flag_invalid st)
            else (packToF64UI signZ 0x7FF 0, st));
          zero = (packToF64UI signZ 0 0, st)
      in if expA = 0x7FF
         then if sigA \<noteq> 0 \<or> (expB = 0x7FF \<and> sigB \<noteq> 0) then propagateNaN
              else infArg (word_of_int expB OR sigB)
         else if expB = 0x7FF
         then if sigB \<noteq> 0 then propagateNaN else infArg (word_of_int expA OR sigA)
         else if expA = 0 \<and> sigA = 0 then zero
         else (let (expA, sigA) = (if expA = 0 then softfloat_normSubnormalF64Sig sigA else (expA, sigA))
         in if expB = 0 \<and> sigB = 0 then zero
         else (let (expB, sigB) = (if expB = 0 then softfloat_normSubnormalF64Sig sigB else (expB, sigB));
                   expZ = expA + expB - 0x3FF;
                   sigA = push_bit 10 (sigA OR 0x0010000000000000);
                   sigB = push_bit 11 (sigB OR 0x0010000000000000);
                   sig128Z = softfloat_mul64To128 sigA sigB;
                   sigZ = v64 sig128Z OR of_bool (v0 sig128Z \<noteq> 0);
                   (expZ, sigZ) = (if sigZ < 0x4000000000000000 then (expZ - 1, push_bit 1 sigZ) else (expZ, sigZ))
         in softfloat_roundPackToF64 signZ expZ sigZ st)))"

subsection \<open>Normalised operands\<close>

lemma or_top_bit:
  fixes x :: "'a::len word"
  assumes n: "n < LENGTH('a)" and lo: "2 ^ n \<le> unat x" and hi: "unat x < 2 * 2 ^ n"
  shows "x OR push_bit n 1 = x"
proof -
  define r where "r = x - push_bit n 1"
  have b: "unat (push_bit n 1 :: 'a word) = 2 ^ n"
    using n unat_push_small [of "1 :: 'a word" n] by (simp add: power_strict_increasing)
  then have r: "unat r = unat x - 2 ^ n"
    unfolding r_def using lo by (subst unat_sub_small) (simp_all add: word_le_nat_alt)
  have "unat (push_bit n 1 OR r) = unat x"
    using unat_or_disjoint [of "push_bit n 1 :: 'a word" n r] b r lo hi by simp
  then have x: "x = push_bit n 1 OR r" by (simp add: word_unat_eq_iff)
  show ?thesis by (subst (2) x, subst x) (simp add: or.left_commute or.commute)
qed

lemma normSubnormalF32Sig_val:
  assumes "0 < unat sig" "unat sig < 2 ^ 23"
  obtains k where "softfloat_normSubnormalF32Sig sig = (1 - int k, push_bit k sig)" "k \<le> 23"
    "unat (push_bit k sig) = unat sig * 2 ^ k"
    "2 ^ 23 \<le> unat sig * 2 ^ k" "unat sig * 2 ^ k < 2 ^ 24"
proof -
  let ?c = "unat (softfloat_countLeadingZeros32 (ucast sig))"
  have s: "unat (ucast sig :: u32) = unat sig" "(ucast sig :: u32) \<noteq> 0"
    using assms by (auto simp: unat_ucast word_unat_eq_iff)
  note b = countLeadingZeros32_bounds [OF s(2), unfolded s(1)]
  have c: "8 < ?c"
  proof (rule ccontr)
    assume "\<not> 8 < ?c"
    then have "(2::nat) ^ ?c \<le> 2 ^ 8" by (intro power_increasing) auto
    then have "unat sig * 2 ^ ?c \<le> unat sig * 2 ^ 8" by (rule mult_le_mono2)
    from le_trans [OF b(1) this] assms show False by simp
  qed
  define k where "k = ?c - 8"
  have k: "?c = k + 8" using c by (simp add: k_def)
  have u: "uint (softfloat_countLeadingZeros32 (ucast sig)) - 8 = int k" using k by (simp add: uint_nat)
  have lo: "2 ^ 23 \<le> unat sig * 2 ^ k" and hi: "unat sig * 2 ^ k < 2 ^ 24"
    using b(1,2) unfolding k by (simp_all add: power_add)
  have "unat (push_bit k sig) = unat sig * 2 ^ k" using hi by (intro unat_push_small) simp
  moreover have "softfloat_normSubnormalF32Sig sig = (1 - int k, push_bit k sig)"
    unfolding softfloat_normSubnormalF32Sig_def Let_def u by simp
  moreover have "k \<le> 23" using b(3) k by simp
  ultimately show thesis using that lo hi by blast
qed

lemma norm_operand_F32:
  assumes fin: "expF32UI A \<noteq> 0xFF" and nz: "\<not> (expF32UI A = 0 \<and> fracF32UI A = 0)"
  obtains e sig where
    "(if expF32UI A = 0 then softfloat_normSubnormalF32Sig (fracF32UI A) else (expF32UI A, fracF32UI A)) = (e, sig)"
    "2 ^ 23 \<le> unat (sig OR 0x00800000)" "unat (sig OR 0x00800000) < 2 ^ 24"
    "- 23 < e" "e < 0xFF"
    "(of_nat (fp_mag 24 8 (unat A)) :: rat) = of_nat (unat (sig OR 0x00800000)) * 2 powi (e - 1)"
proof (cases "expF32UI A = 0")
  case True
  then have f: "0 < unat (fracF32UI A)" using nz by (simp add: unat_gt_0)
  obtain k where k: "softfloat_normSubnormalF32Sig (fracF32UI A) = (1 - int k, push_bit k (fracF32UI A))"
    "k \<le> 23" "unat (push_bit k (fracF32UI A)) = unat (fracF32UI A) * 2 ^ k"
    "2 ^ 23 \<le> unat (fracF32UI A) * 2 ^ k" "unat (fracF32UI A) * 2 ^ k < 2 ^ 24"
    using normSubnormalF32Sig_val [OF f] f32.frac_range [of A] by auto
  have o: "push_bit k (fracF32UI A) OR 0x00800000 = push_bit k (fracF32UI A)"
    using or_top_bit [of 23 "push_bit k (fracF32UI A)"] k(3-5) by simp
  have "(of_nat (fp_mag 24 8 (unat A)) :: rat) =
      of_nat (unat (push_bit k (fracF32UI A) OR 0x00800000)) * 2 powi (1 - int k - 1)"
    unfolding o k(3) f32.mag_fields using True by (simp add: power_int_minus field_simps)
  then show thesis using that [of "1 - int k" "push_bit k (fracF32UI A)"] True k o by simp
next
  case False
  have r: "0 < expF32UI A" "expF32UI A < 0xFF"
    using False fin f32.exp_range [of A] by simp_all
  have o: "unat (fracF32UI A OR 0x00800000) = unat (fracF32UI A) + 2 ^ 23"
    using unat_or_disjoint [of "0x00800000 :: u64" 23 "fracF32UI A"] f32.frac_range [of A]
    by (simp add: or.commute)
  have "(2::rat) ^ (nat (expF32UI A) - 1) = 2 powi (expF32UI A - 1)"
    using r by (simp add: power_int_def nat_diff_distrib)
  then have "(of_nat (fp_mag 24 8 (unat A)) :: rat) =
      of_nat (unat (fracF32UI A OR 0x00800000)) * 2 powi (expF32UI A - 1)"
    unfolding o f32.mag_fields using False by (simp add: add.commute)
  then show thesis using that [of "expF32UI A" "fracF32UI A"] False r o f32.frac_range [of A] by simp
qed

lemma normSubnormalF64Sig_val:
  assumes "0 < unat sig" "unat sig < 2 ^ 52"
  obtains k where "softfloat_normSubnormalF64Sig sig = (1 - int k, push_bit k sig)" "k \<le> 52"
    "unat (push_bit k sig) = unat sig * 2 ^ k"
    "2 ^ 52 \<le> unat sig * 2 ^ k" "unat sig * 2 ^ k < 2 ^ 53"
proof -
  let ?c = "unat (softfloat_countLeadingZeros64 sig)"
  have s: "sig \<noteq> 0" using assms by auto
  note b = countLeadingZeros64_bounds [OF s]
  have c: "11 < ?c"
  proof (rule ccontr)
    assume "\<not> 11 < ?c"
    then have "(2::nat) ^ ?c \<le> 2 ^ 11" by (intro power_increasing) auto
    then have "unat sig * 2 ^ ?c \<le> unat sig * 2 ^ 11" by (rule mult_le_mono2)
    from le_trans [OF b(1) this] assms show False by simp
  qed
  define k where "k = ?c - 11"
  have k: "?c = k + 11" using c by (simp add: k_def)
  have u: "uint (softfloat_countLeadingZeros64 sig) - 11 = int k" using k by (simp add: uint_nat)
  have lo: "2 ^ 52 \<le> unat sig * 2 ^ k" and hi: "unat sig * 2 ^ k < 2 ^ 53"
    using b(1,2) unfolding k by (simp_all add: power_add)
  have "unat (push_bit k sig) = unat sig * 2 ^ k" using hi by (intro unat_push_small) simp
  moreover have "softfloat_normSubnormalF64Sig sig = (1 - int k, push_bit k sig)"
    unfolding softfloat_normSubnormalF64Sig_def Let_def u by simp
  moreover have "k \<le> 52" using b(3) k by simp
  ultimately show thesis using that lo hi by blast
qed

lemma norm_operand_F64:
  assumes fin: "expF64UI A \<noteq> 0x7FF" and nz: "\<not> (expF64UI A = 0 \<and> fracF64UI A = 0)"
  obtains e sig where
    "(if expF64UI A = 0 then softfloat_normSubnormalF64Sig (fracF64UI A) else (expF64UI A, fracF64UI A)) = (e, sig)"
    "2 ^ 52 \<le> unat (sig OR 0x0010000000000000)" "unat (sig OR 0x0010000000000000) < 2 ^ 53"
    "- 52 < e" "e < 0x7FF"
    "(of_nat (fp_mag 53 11 (unat A)) :: rat) = of_nat (unat (sig OR 0x0010000000000000)) * 2 powi (e - 1)"
proof (cases "expF64UI A = 0")
  case True
  then have f: "0 < unat (fracF64UI A)" using nz by (simp add: unat_gt_0)
  obtain k where k: "softfloat_normSubnormalF64Sig (fracF64UI A) = (1 - int k, push_bit k (fracF64UI A))"
    "k \<le> 52" "unat (push_bit k (fracF64UI A)) = unat (fracF64UI A) * 2 ^ k"
    "2 ^ 52 \<le> unat (fracF64UI A) * 2 ^ k" "unat (fracF64UI A) * 2 ^ k < 2 ^ 53"
    using normSubnormalF64Sig_val [OF f] f64.frac_range [of A] by auto
  have o: "push_bit k (fracF64UI A) OR 0x0010000000000000 = push_bit k (fracF64UI A)"
    using or_top_bit [of 52 "push_bit k (fracF64UI A)"] k(3-5) by simp
  have "(of_nat (fp_mag 53 11 (unat A)) :: rat) =
      of_nat (unat (push_bit k (fracF64UI A) OR 0x0010000000000000)) * 2 powi (1 - int k - 1)"
    unfolding o k(3) f64.mag_fields using True by (simp add: power_int_minus field_simps)
  then show thesis using that [of "1 - int k" "push_bit k (fracF64UI A)"] True k o by simp
next
  case False
  have r: "0 < expF64UI A" "expF64UI A < 0x7FF"
    using False fin f64.exp_range [of A] by simp_all
  have o: "unat (fracF64UI A OR 0x0010000000000000) = unat (fracF64UI A) + 2 ^ 52"
    using unat_or_disjoint [of "0x0010000000000000 :: u64" 52 "fracF64UI A"] f64.frac_range [of A]
    by (simp add: or.commute)
  have "(2::rat) ^ (nat (expF64UI A) - 1) = 2 powi (expF64UI A - 1)"
    using r by (simp add: power_int_def nat_diff_distrib)
  then have "(of_nat (fp_mag 53 11 (unat A)) :: rat) =
      of_nat (unat (fracF64UI A OR 0x0010000000000000)) * 2 powi (expF64UI A - 1)"
    unfolding o f64.mag_fields using False by (simp add: add.commute)
  then show thesis using that [of "expF64UI A" "fracF64UI A"] False r o f64.frac_range [of A] by simp
qed

subsection \<open>The product is correctly rounded\<close>

definition fp_mul_spec :: "nat \<Rightarrow> nat \<Rightarrow> nat \<Rightarrow> nat \<Rightarrow> sf_state \<Rightarrow> 'a::len word \<times> sf_state" where
  "fp_mul_spec p w a b st =
     (let s = (fp_neg p w a \<noteq> fp_neg p w b); ma = fp_mag p w a; mb = fp_mag p w b
      in if fp_nan p w a \<or> fp_nan p w b then fp_propagate p w a b st
         else if fp_inf p w a \<or> fp_inf p w b
         then if ma = 0 \<or> mb = 0 then fp_invalid p w st else (fp_infinity p w s, st)
         else fp_result p w st s (ma * mb) (2 ^ (2 ^ (w - 1) + p - 3)))"

lemma mul_round_F32:
  fixes SA SB :: u64
  assumes A: "2 ^ 23 \<le> unat SA" "unat SA < 2 ^ 24" and B: "2 ^ 23 \<le> unat SB" "unat SB < 2 ^ 24"
    and e: "- 600 < e" "e < 600"
    and val: "(of_nat N / of_nat D :: rat) = of_nat (unat SA) * of_nat (unat SB) * 2 powi (e - 24)" and D: "0 < D"
  shows "(let sigZ = softfloat_shortShiftRightJam64 (push_bit 7 SA * push_bit 8 SB) 32;
         (expZ, sigZ) = (if sigZ < 0x40000000 then (e - 1, push_bit 1 sigZ) else (e, sigZ))
     in softfloat_roundPackToF32 s expZ sigZ st) = fp_result 24 8 st s N D"
proof -
  define P where "P = unat SA * unat SB * 2 ^ 15"
  have "unat (push_bit 7 SA) = unat SA * 2 ^ 7" "unat (push_bit 8 SB) = unat SB * 2 ^ 8"
    using A B by (intro unat_push_small; simp)+
  moreover have hi: "unat SA * unat SB < 2 ^ 24 * 2 ^ 24" using A B by (intro mult_strict_mono) auto
  moreover have lo: "2 ^ 23 * 2 ^ 23 \<le> unat SA * unat SB" using A B by (intro mult_le_mono) auto
  ultimately have P: "unat (push_bit 7 SA * push_bit 8 SB) = P"
    unfolding P_def by (subst unat_mult_small) simp_all
  define Z where "Z = softfloat_shortShiftRightJam64 (push_bit 7 SA * push_bit 8 SB) 32"
  have Z: "unat Z = sticky P (2 ^ 32)"
    unfolding Z_def using shortjam64.jam_sticky_law [of 32] by (simp add: P)
  have Plo: "2 ^ 61 \<le> P" and Phi: "P < 2 ^ 63" using lo hi by (simp_all add: P_def)
  have Zlo: "2 ^ 29 \<le> unat Z" and Zhi: "unat Z < 2 ^ 31"
    using sticky_less_iff [of "2 ^ 32" 29 P 1] sticky_less_iff [of "2 ^ 32" 31 P 1] Plo Phi
    by (simp_all add: Z not_less [symmetric])
  have v: "(of_nat N / of_nat D :: rat) = of_nat P / of_nat (2 ^ 32) * 2 powi (e - int 7)"
    unfolding val P_def by (simp add: power_int_diff field_simps)
  have "fp_scaled 24 8 7 st s (unat Z) e = fp_result 24 8 st s N D"
    unfolding Z by (rule fp_scaled_sticky_result [OF _ _ _ _ _ D v]) (use Z Zlo Zhi in simp_all)
  moreover have "- (2 ^ 14) \<le> e" "e < 2 ^ 15" using e by simp_all
  note round_step_F32 [OF Zlo Zhi this, of s st, unfolded Let_def]
  ultimately show ?thesis unfolding Let_def Z_def [symmetric] by (simp only:)
qed

lemma word_of_exp_zero:
  fixes e :: int
  assumes "0 \<le> e" "e < 2 ^ 64"
  shows "(word_of_int e :: u64) = 0 \<longleftrightarrow> e = 0"
  using assms by (auto simp: word_of_int_eq_0_iff dest: zdvd_imp_le)

lemma magbits_F32:
  "(word_of_int (expF32UI X) OR fracF32UI X = 0) \<longleftrightarrow> fp_mag 24 8 (unat X) = 0"
  using word_of_exp_zero [of "expF32UI X"] f32.exp_range [of X] by (simp add: f32.mag_zero or_eq_0_iff)

lemma f32_mul_result: "f32_mul a b st = fp_mul_spec 24 8 (unat a) (unat b) st"
proof -
  define A B where "A = (ucast a :: u64)" and "B = (ucast b :: u64)"
  have u: "unat a = unat A" "unat b = unat B" by (simp_all add: A_def B_def)
  have l: "unat A < 2 ^ (8 + 24)" "unat B < 2 ^ (8 + 24)"
    using unat_less_32 [of a] unat_less_32 [of b] unfolding u by simp_all
  note cls = f32.classify [of A, simplified] f32.classify [of B, simplified]
  note defs = f32_mul_def fp_mul_spec_def u A_def [symmetric] B_def [symmetric]
    f32.neg_sign [OF l(1)] f32.neg_sign [OF l(2)]
  have inf: "fp_mag 24 8 (unat X) \<noteq> 0" if "expF32UI X = 255" for X
    using that by (simp add: f32.mag_zero)
  consider "expF32UI A = 255 \<or> expF32UI B = 255"
    | "expF32UI A \<noteq> 255" "expF32UI B \<noteq> 255" "fp_mag 24 8 (unat A) = 0 \<or> fp_mag 24 8 (unat B) = 0"
    | "expF32UI A \<noteq> 255" "expF32UI B \<noteq> 255" "fp_mag 24 8 (unat A) \<noteq> 0" "fp_mag 24 8 (unat B) \<noteq> 0"
    by blast
  then show ?thesis
  proof cases
    case 1
    then show ?thesis
      unfolding defs using inf [of A] inf [of B]
      by (cases "expF32UI A = 255"; cases "expF32UI B = 255")
        (simp_all add: Let_def cls special_F32 propagate_F32 [unfolded Let_def] magbits_F32 fp_invalid_def)
  next
    case 2
    then have "fp_mag 24 8 (unat A) * fp_mag 24 8 (unat B) = 0" by auto
    then have "(fp_mul_spec 24 8 (unat A) (unat B) st :: u32 \<times> _) = (fp_zero 24 8 (signF32UI A \<noteq> signF32UI B), st)"
      unfolding defs using 2(1,2) cls by (auto simp: Let_def fp_result_zero)
    moreover have "f32_mul a b st = (fp_zero 24 8 (signF32UI A \<noteq> signF32UI B), st)"
    proof (cases "expF32UI A = 0 \<and> fracF32UI A = 0")
      case True
      then show ?thesis
        unfolding f32_mul_def A_def [symmetric] B_def [symmetric] using 2(1,2)
        by (simp add: Let_def special_F32)
    next
      case False
      then have "expF32UI B = 0" "fracF32UI B = 0" using 2(3) by (auto simp: f32.mag_zero)
      then show ?thesis
        unfolding f32_mul_def A_def [symmetric] B_def [symmetric] using 2(1) False
        by (simp add: Let_def special_F32 split: prod.split)
    qed
    ultimately show ?thesis by (simp add: u)
  next
    case 3
    obtain eA sA where A: "(if expF32UI A = 0 then softfloat_normSubnormalF32Sig (fracF32UI A)
        else (expF32UI A, fracF32UI A)) = (eA, sA)"
      "2 ^ 23 \<le> unat (sA OR 0x00800000)" "unat (sA OR 0x00800000) < 2 ^ 24" "- 23 < eA" "eA < 0xFF"
      "(of_nat (fp_mag 24 8 (unat A)) :: rat) = of_nat (unat (sA OR 0x00800000)) * 2 powi (eA - 1)"
      using norm_operand_F32 [of A] 3 by (metis f32.mag_zero)
    obtain eB sB where B: "(if expF32UI B = 0 then softfloat_normSubnormalF32Sig (fracF32UI B)
        else (expF32UI B, fracF32UI B)) = (eB, sB)"
      "2 ^ 23 \<le> unat (sB OR 0x00800000)" "unat (sB OR 0x00800000) < 2 ^ 24" "- 23 < eB" "eB < 0xFF"
      "(of_nat (fp_mag 24 8 (unat B)) :: rat) = of_nat (unat (sB OR 0x00800000)) * 2 powi (eB - 1)"
      using norm_operand_F32 [of B] 3 by (metis f32.mag_zero)
    have val: "(of_nat (fp_mag 24 8 (unat A) * fp_mag 24 8 (unat B)) / of_nat (2 ^ 149) :: rat) =
        of_nat (unat (sA OR 0x00800000)) * of_nat (unat (sB OR 0x00800000)) * 2 powi (eA + eB - 0x7F - 24)"
      unfolding of_nat_mult A(6) B(6) by (simp add: power_int_diff power_int_add)
    have "fp_mul_spec 24 8 (unat A) (unat B) st =
      fp_result 24 8 st (signF32UI A \<noteq> signF32UI B) (fp_mag 24 8 (unat A) * fp_mag 24 8 (unat B)) (2 ^ 149)"
      unfolding defs using 3 cls by simp
    also have "\<dots> = (let sigZ = softfloat_shortShiftRightJam64
           (push_bit 7 (sA OR 0x00800000) * push_bit 8 (sB OR 0x00800000)) 32;
         (expZ, sigZ) = (if sigZ < 0x40000000 then (eA + eB - 0x7F - 1, push_bit 1 sigZ) else (eA + eB - 0x7F, sigZ))
     in softfloat_roundPackToF32 (signF32UI A \<noteq> signF32UI B) expZ sigZ st)"
      by (rule mul_round_F32 [OF A(2,3) B(2,3) _ _ val, symmetric]) (use A(4,5) B(4,5) in simp_all)
    also have "\<dots> = f32_mul a b st"
      using 3 [unfolded f32.mag_zero]
      unfolding f32_mul_def Let_def A_def [symmetric] B_def [symmetric] A(1) B(1)
      by (simp only: if_False case_prod_conv simp_thms)
    finally show ?thesis by (simp add: u)
  qed
qed

lemma mul_round_F64:
  fixes SA SB :: u64
  assumes A: "2 ^ 52 \<le> unat SA" "unat SA < 2 ^ 53" and B: "2 ^ 52 \<le> unat SB" "unat SB < 2 ^ 53"
    and e: "- 4000 < e" "e < 4000"
    and val: "(of_nat N / of_nat D :: rat) = of_nat (unat SA) * of_nat (unat SB) * 2 powi (e - 53)" and D: "0 < D"
  shows "(let sig128Z = softfloat_mul64To128 (push_bit 10 SA) (push_bit 11 SB);
         sigZ = v64 sig128Z OR of_bool (v0 sig128Z \<noteq> 0);
         (expZ, sigZ) = (if sigZ < 0x4000000000000000 then (e - 1, push_bit 1 sigZ) else (e, sigZ))
     in softfloat_roundPackToF64 s expZ sigZ st) = fp_result 53 11 st s N D"
proof -
  define P where "P = unat SA * unat SB * 2 ^ 21"
  have "unat (push_bit 10 SA) = unat SA * 2 ^ 10" "unat (push_bit 11 SB) = unat SB * 2 ^ 11"
    using A B by (intro unat_push_small; simp)+
  moreover have hi: "unat SA * unat SB < 2 ^ 53 * 2 ^ 53" using A B by (intro mult_strict_mono) auto
  moreover have lo: "2 ^ 52 * 2 ^ 52 \<le> unat SA * unat SB" using A B by (intro mult_le_mono) auto
  ultimately have P: "unat (push_bit 10 SA) * unat (push_bit 11 SB) = P"
    unfolding P_def by simp
  define z where "z = softfloat_mul64To128 (push_bit 10 SA) (push_bit 11 SB)"
  define Z where "Z = v64 z OR of_bool (v0 z \<noteq> 0)"
  have z: "val128 z = P" unfolding z_def mul64To128_val by (rule P)
  have "P div 2 ^ 64 = unat (v64 z)" "P mod 2 ^ 64 = unat (v0 z)"
    using unat_less_64 [of "v0 z"] unfolding z [symmetric] val128_def by simp_all
  then have Z: "unat Z = sticky P (2 ^ 64)"
    unfolding Z_def unat_or_of_bool sticky_def by (simp add: unat_eq_0 unat_gt_0)
  have Plo: "2 ^ 125 \<le> P" and Phi: "P < 2 ^ 127" using lo hi by (simp_all add: P_def)
  have Zlo: "2 ^ 61 \<le> unat Z" and Zhi: "unat Z < 2 ^ 63"
    using sticky_less_iff [of "2 ^ 64" 61 P 1] sticky_less_iff [of "2 ^ 64" 63 P 1] Plo Phi
    by (simp_all add: Z not_less [symmetric])
  have v: "(of_nat N / of_nat D :: rat) = of_nat P / of_nat (2 ^ 64) * 2 powi (e - int 10)"
    unfolding val P_def by (simp add: power_int_diff field_simps)
  have "fp_scaled 53 11 10 st s (unat Z) e = fp_result 53 11 st s N D"
    unfolding Z by (rule fp_scaled_sticky_result [OF _ _ _ _ _ D v]) (use Z Zlo Zhi in simp_all)
  moreover have "- (2 ^ 14) \<le> e" "e < 2 ^ 15" using e by simp_all
  note round_step_F64 [OF Zlo Zhi this, of s st, unfolded Let_def]
  ultimately show ?thesis unfolding Let_def z_def [symmetric] Z_def [symmetric] by (simp only:)
qed

lemma magbits_F64:
  "(word_of_int (expF64UI X) OR fracF64UI X = 0) \<longleftrightarrow> fp_mag 53 11 (unat X) = 0"
  using word_of_exp_zero [of "expF64UI X"] f64.exp_range [of X] by (simp add: f64.mag_zero or_eq_0_iff)

lemma f64_mul_result: "f64_mul a b st = fp_mul_spec 53 11 (unat a) (unat b) st"
proof -
  define A B where "A = a" and "B = b"
  have u: "unat a = unat A" "unat b = unat B" by (simp_all add: A_def B_def)
  have l: "unat A < 2 ^ (11 + 53)" "unat B < 2 ^ (11 + 53)"
    using unat_less_64 [of a] unat_less_64 [of b] unfolding u by simp_all
  note cls = f64.classify [of A, simplified] f64.classify [of B, simplified]
  note defs = f64_mul_def fp_mul_spec_def u A_def [symmetric] B_def [symmetric]
    f64.neg_sign [OF l(1)] f64.neg_sign [OF l(2)]
  have inf: "fp_mag 53 11 (unat X) \<noteq> 0" if "expF64UI X = 2047" for X
    using that by (simp add: f64.mag_zero)
  consider "expF64UI A = 2047 \<or> expF64UI B = 2047"
    | "expF64UI A \<noteq> 2047" "expF64UI B \<noteq> 2047" "fp_mag 53 11 (unat A) = 0 \<or> fp_mag 53 11 (unat B) = 0"
    | "expF64UI A \<noteq> 2047" "expF64UI B \<noteq> 2047" "fp_mag 53 11 (unat A) \<noteq> 0" "fp_mag 53 11 (unat B) \<noteq> 0"
    by blast
  then show ?thesis
  proof cases
    case 1
    then show ?thesis
      unfolding defs using inf [of A] inf [of B]
      by (cases "expF64UI A = 2047"; cases "expF64UI B = 2047")
        (simp_all add: Let_def cls special_F64 propagate_F64 magbits_F64 fp_invalid_def)
  next
    case 2
    then have "fp_mag 53 11 (unat A) * fp_mag 53 11 (unat B) = 0" by auto
    then have "(fp_mul_spec 53 11 (unat A) (unat B) st :: u64 \<times> _) = (fp_zero 53 11 (signF64UI A \<noteq> signF64UI B), st)"
      unfolding defs using 2(1,2) cls by (auto simp: Let_def fp_result_zero)
    moreover have "f64_mul a b st = (fp_zero 53 11 (signF64UI A \<noteq> signF64UI B), st)"
    proof (cases "expF64UI A = 0 \<and> fracF64UI A = 0")
      case True
      then show ?thesis
        unfolding f64_mul_def A_def [symmetric] B_def [symmetric] using 2(1,2)
        by (simp add: Let_def special_F64)
    next
      case False
      then have "expF64UI B = 0" "fracF64UI B = 0" using 2(3) by (auto simp: f64.mag_zero)
      then show ?thesis
        unfolding f64_mul_def A_def [symmetric] B_def [symmetric] using 2(1) False
        by (simp add: Let_def special_F64 split: prod.split)
    qed
    ultimately show ?thesis by (simp add: u)
  next
    case 3
    obtain eA sA where A: "(if expF64UI A = 0 then softfloat_normSubnormalF64Sig (fracF64UI A)
        else (expF64UI A, fracF64UI A)) = (eA, sA)"
      "2 ^ 52 \<le> unat (sA OR 0x0010000000000000)" "unat (sA OR 0x0010000000000000) < 2 ^ 53" "- 52 < eA" "eA < 0x7FF"
      "(of_nat (fp_mag 53 11 (unat A)) :: rat) = of_nat (unat (sA OR 0x0010000000000000)) * 2 powi (eA - 1)"
      using norm_operand_F64 [of A] 3 by (metis f64.mag_zero)
    obtain eB sB where B: "(if expF64UI B = 0 then softfloat_normSubnormalF64Sig (fracF64UI B)
        else (expF64UI B, fracF64UI B)) = (eB, sB)"
      "2 ^ 52 \<le> unat (sB OR 0x0010000000000000)" "unat (sB OR 0x0010000000000000) < 2 ^ 53" "- 52 < eB" "eB < 0x7FF"
      "(of_nat (fp_mag 53 11 (unat B)) :: rat) = of_nat (unat (sB OR 0x0010000000000000)) * 2 powi (eB - 1)"
      using norm_operand_F64 [of B] 3 by (metis f64.mag_zero)
    have val: "(of_nat (fp_mag 53 11 (unat A) * fp_mag 53 11 (unat B)) / of_nat (2 ^ 1074) :: rat) =
        of_nat (unat (sA OR 0x0010000000000000)) * of_nat (unat (sB OR 0x0010000000000000)) * 2 powi (eA + eB - 0x3FF - 53)"
      unfolding of_nat_mult A(6) B(6) by (simp add: power_int_diff power_int_add)
    have "fp_mul_spec 53 11 (unat A) (unat B) st =
      fp_result 53 11 st (signF64UI A \<noteq> signF64UI B) (fp_mag 53 11 (unat A) * fp_mag 53 11 (unat B)) (2 ^ 1074)"
      unfolding defs using 3 cls by simp
    also have "\<dots> = (let sig128Z = softfloat_mul64To128
           (push_bit 10 (sA OR 0x0010000000000000)) (push_bit 11 (sB OR 0x0010000000000000));
         sigZ = v64 sig128Z OR of_bool (v0 sig128Z \<noteq> 0);
         (expZ, sigZ) = (if sigZ < 0x4000000000000000 then (eA + eB - 0x3FF - 1, push_bit 1 sigZ) else (eA + eB - 0x3FF, sigZ))
     in softfloat_roundPackToF64 (signF64UI A \<noteq> signF64UI B) expZ sigZ st)"
      by (rule mul_round_F64 [OF A(2,3) B(2,3) _ _ val, symmetric]) (use A(4,5) B(4,5) in simp_all)
    also have "\<dots> = f64_mul a b st"
      using 3 [unfolded f64.mag_zero]
      unfolding f64_mul_def Let_def A_def [symmetric] B_def [symmetric] A(1) B(1)
      by (simp only: if_False case_prod_conv simp_thms)
    finally show ?thesis by (simp add: u)
  qed
qed

subsection \<open>Properties\<close>

text \<open>C3.  Multiplication returns, for all operands and modes, the correctly rounded product of
  finite operands with its flags, infinity for an infinite operand, the default NaN with invalid
  for zero times infinity, and the default NaN for a NaN operand; in 64 bits through the 128-bit
  product.\<close>

theorem mul_correct:
  "f32_mul a b st = fp_mul_spec 24 8 (unat a) (unat b) st \<and>
   f64_mul c d st = fp_mul_spec 53 11 (unat c) (unat d) st"
  by (simp only: f32_mul_result f64_mul_result simp_thms)

end
