(* ===== verification/SF_Div.thy ===== *)
theory SF_Div
  imports SF_Mul
begin

text \<open>
  Division (\<open>f32_div.c\<close>, \<open>f64_div.c\<close> and the reciprocal approximation of \<open>primitives.h\<close>): the special
  operands, the integer division of the 32-bit code and the two-step quotient estimate of the
  64-bit code with its conditional remainder, and the proof that the result is the correctly
  rounded quotient.
\<close>

subsection \<open>Definitions\<close>

definition f32_div_sigs :: "bool \<Rightarrow> int \<Rightarrow> u64 \<Rightarrow> u64 \<Rightarrow> sf_state \<Rightarrow> u32 \<times> sf_state" where
  "f32_div_sigs signZ expZ sigA sigB st =
     (let (expZ, sig64A) =
            (if sigA < sigB then (expZ - 1, push_bit 31 sigA) else (expZ, push_bit 30 sigA));
          sigZ = sig64A div sigB;
          sigZ = (if sigZ AND 0x3F = 0 then sigZ OR of_bool (sigB * sigZ \<noteq> sig64A) else sigZ)
      in softfloat_roundPackToF32 signZ expZ sigZ st)"

definition f32_div :: "u32 \<Rightarrow> u32 \<Rightarrow> sf_state \<Rightarrow> u32 \<times> sf_state" where
  "f32_div a b st =
     (let uiA = ucast a; signA = signF32UI uiA; expA = expF32UI uiA; sigA = fracF32UI uiA;
          uiB = ucast b; signB = signF32UI uiB; expB = expF32UI uiB; sigB = fracF32UI uiB;
          signZ = (signA \<noteq> signB);
          propagateNaN =
            (let (uiZ, st) = softfloat_propagateNaNF32UI uiA uiB st in (ucast uiZ, st));
          invalid = (ucast (defaultNaNF32UI), softfloat_raiseFlags softfloat_flag_invalid st);
          infinity = (\<lambda>st. (ucast (packToF32UI signZ 0xFF 0), st));
          zero = (ucast (packToF32UI signZ 0 0), st)
      in if expA = 0xFF
         then if sigA \<noteq> 0 then propagateNaN
              else if expB = 0xFF
              then if sigB \<noteq> 0 then propagateNaN else invalid
              else infinity st
         else if expB = 0xFF
         then if sigB \<noteq> 0 then propagateNaN else zero
         else if expB = 0 \<and> sigB = 0
         then if word_of_int expA OR sigA = 0 then invalid
              else infinity (softfloat_raiseFlags softfloat_flag_infinite st)
         else (let (expB, sigB) = (if expB = 0 then softfloat_normSubnormalF32Sig sigB else (expB, sigB))
         in if expA = 0 \<and> sigA = 0 then zero
         else (let (expA, sigA) = (if expA = 0 then softfloat_normSubnormalF32Sig sigA else (expA, sigA))
         in f32_div_sigs signZ (expA - expB + 0x7E) (sigA OR 0x00800000) (sigB OR 0x00800000) st)))"

definition softfloat_approxRecip32_1 :: "u32 \<Rightarrow> u32" where
  "softfloat_approxRecip32_1 a = ucast ((0x7FFFFFFFFFFFFFFF :: u64) div ucast a)"

definition f64_div_quot :: "u64 \<Rightarrow> u64 \<Rightarrow> u64" where
  "f64_div_quot sigA sigB =
     (let sigB32 = (ucast (drop_bit 32 sigB) :: u32);
          recip32 = softfloat_approxRecip32_1 sigB32 - 2;
          sig32Z = (ucast (drop_bit 32 ((ucast (ucast (drop_bit 32 sigA) :: u32) :: u64) * ucast recip32)) :: u32);
          doubleTerm = push_bit 1 sig32Z;
          rem = push_bit 28 (sigA - ucast doubleTerm * ucast sigB32)
                - ucast doubleTerm * ucast (drop_bit 4 (ucast sigB :: u32));
          q = (ucast (drop_bit 32 ((ucast (ucast (drop_bit 32 rem) :: u32) :: u64) * ucast recip32) + 4) :: u32);
          sigZ = push_bit 32 (ucast sig32Z) + push_bit 4 (ucast q)
      in if sigZ AND 0x1FF < push_bit 4 4
         then (let q = q AND NOT 7;
                   sigZ = sigZ AND NOT 0x7F;
                   doubleTerm = push_bit 1 q;
                   rem = push_bit 28 (rem - ucast doubleTerm * ucast sigB32)
                         - ucast doubleTerm * ucast (drop_bit 4 (ucast sigB :: u32))
               in if rem AND 0x8000000000000000 \<noteq> 0 then sigZ - push_bit 7 1
                  else if rem \<noteq> 0 then sigZ OR 1 else sigZ)
         else sigZ)"

definition f64_div_sigs :: "bool \<Rightarrow> int \<Rightarrow> u64 \<Rightarrow> u64 \<Rightarrow> sf_state \<Rightarrow> u64 \<times> sf_state" where
  "f64_div_sigs signZ expZ sigA sigB st =
     (let (expZ, sigA) =
            (if sigA < sigB then (expZ - 1, push_bit 11 sigA) else (expZ, push_bit 10 sigA))
      in softfloat_roundPackToF64 signZ expZ (f64_div_quot sigA (push_bit 11 sigB)) st)"

definition f64_div :: "u64 \<Rightarrow> u64 \<Rightarrow> sf_state \<Rightarrow> u64 \<times> sf_state" where
  "f64_div a b st =
     (let uiA = a; signA = signF64UI uiA; expA = expF64UI uiA; sigA = fracF64UI uiA;
          uiB = b; signB = signF64UI uiB; expB = expF64UI uiB; sigB = fracF64UI uiB;
          signZ = (signA \<noteq> signB);
          propagateNaN =
            (let (uiZ, st) = softfloat_propagateNaNF64UI uiA uiB st in (uiZ, st));
          invalid = (defaultNaNF64UI, softfloat_raiseFlags softfloat_flag_invalid st);
          infinity = (\<lambda>st. (packToF64UI signZ 0x7FF 0, st));
          zero = (packToF64UI signZ 0 0, st)
      in if expA = 0x7FF
         then if sigA \<noteq> 0 then propagateNaN
              else if expB = 0x7FF
              then if sigB \<noteq> 0 then propagateNaN else invalid
              else infinity st
         else if expB = 0x7FF
         then if sigB \<noteq> 0 then propagateNaN else zero
         else if expB = 0 \<and> sigB = 0
         then if word_of_int expA OR sigA = 0 then invalid
              else infinity (softfloat_raiseFlags softfloat_flag_infinite st)
         else (let (expB, sigB) = (if expB = 0 then softfloat_normSubnormalF64Sig sigB else (expB, sigB))
         in if expA = 0 \<and> sigA = 0 then zero
         else (let (expA, sigA) = (if expA = 0 then softfloat_normSubnormalF64Sig sigA else (expA, sigA))
         in f64_div_sigs signZ (expA - expB + 0x3FE) (sigA OR 0x0010000000000000) (sigB OR 0x0010000000000000) st)))"

subsection \<open>The reference quotient\<close>

definition fp_div_spec :: "nat \<Rightarrow> nat \<Rightarrow> nat \<Rightarrow> nat \<Rightarrow> sf_state \<Rightarrow> 'a::len word \<times> sf_state" where
  "fp_div_spec p w a b st =
     (let s = (fp_neg p w a \<noteq> fp_neg p w b); ma = fp_mag p w a; mb = fp_mag p w b
      in if fp_nan p w a \<or> fp_nan p w b then fp_propagate p w a b st
         else if fp_inf p w a
         then if fp_inf p w b then fp_invalid p w st else (fp_infinity p w s, st)
         else if fp_inf p w b then (fp_zero p w s, st)
         else if mb = 0
         then if ma = 0 then fp_invalid p w st
              else (fp_infinity p w s, softfloat_raiseFlags softfloat_flag_infinite st)
         else fp_result p w st s (ma * 2 ^ (2 ^ (w - 1) + p - 3)) mb)"

lemma sticky_inexact:
  assumes "0 < D" "N mod (D * 2 ^ Suc k) \<noteq> 0"
  shows "sticky N (D * 2 ^ k) = Suc (2 * (N div (D * 2 ^ Suc k)))"
proof -
  let ?q = "N div (D * 2 ^ k)"
  have h: "N div (D * 2 ^ Suc k) = ?q div 2"
    using div_mult2_eq [of N "D * 2 ^ k" 2] by (simp add: ac_simps)
  have "N mod (D * 2 ^ Suc k) = D * 2 ^ k * (?q mod 2) + N mod (D * 2 ^ k)"
    using mod_mult2_eq [of N "D * 2 ^ k" 2] by (simp add: ac_simps)
  then have "odd ?q \<or> N mod (D * 2 ^ k) \<noteq> 0" using assms(2) by (auto simp: even_iff_mod_2_eq_zero)
  then show ?thesis unfolding h by (auto simp: sticky_def elim!: oddE evenE)
qed

text \<open>An estimate \<open>Z\<close> of a quotient that agrees with it down to the guard bit, and is inexact below
  the guard bit exactly when the quotient is, rounds like the quotient.\<close>

lemma fp_scaled_estimate:
  assumes D: "0 < D" and p: "1 \<le> p"
    and lo: "2 ^ (p + k + 1) * D \<le> N" and hi: "N < 2 ^ (p + k + 2) * D"
    and top: "Z div 2 ^ Suc k = N div (D * 2 ^ Suc k)"
    and low: "Z mod 2 ^ Suc k = 0 \<longleftrightarrow> N mod (D * 2 ^ Suc k) = 0"
    and D': "0 < D'" and eq: "(of_nat N' / of_nat D' :: rat) = of_nat N / of_nat D * 2 powi (e - int (k + 2))"
  shows "fp_scaled p w (k + 2) st s Z e = fp_result p w st s N' D'"
proof -
  have sD: "sticky N (D * 2 ^ k) = sticky Z (2 ^ k)"
  proof (cases "Z mod 2 ^ Suc k = 0")
    case False
    then have "sticky Z (1 * 2 ^ k) = Suc (2 * (Z div (1 * 2 ^ Suc k)))"
      by (intro sticky_inexact) simp_all
    moreover have "sticky N (D * 2 ^ k) = Suc (2 * (N div (D * 2 ^ Suc k)))"
      using D False low by (intro sticky_inexact) simp_all
    ultimately show ?thesis using top by simp
  next
    case True
    obtain c where c: "Z = 2 ^ Suc k * c" using True by (auto elim: dvdE)
    obtain c' where c': "N = D * 2 ^ Suc k * c'" using True low by (auto elim: dvdE)
    have "c = c'" using top c c' D by simp
    then show ?thesis using c c' D
      by (simp add: sticky_def)
  qed
  have pw: "(2::nat) ^ (p + k + 1) = 2 ^ p * 2 ^ Suc k" "(2::nat) ^ (p + k + 2) = 2 * 2 ^ p * 2 ^ Suc k"
    by (simp_all add: power_add)
  have "2 ^ p * (D * 2 ^ Suc k) \<le> N" "N < 2 * 2 ^ p * (D * 2 ^ Suc k)"
    using lo hi unfolding pw by (simp_all add: ac_simps)
  then have "2 ^ p \<le> N div (D * 2 ^ Suc k)" "N div (D * 2 ^ Suc k) < 2 * 2 ^ p"
    using D by (simp_all add: less_eq_div_iff_mult_less_eq less_mult_imp_div_less)
  then have t: "2 ^ p \<le> Z div 2 ^ Suc k" "Z div 2 ^ Suc k < 2 * 2 ^ p" using top by simp_all
  have Z: "2 ^ (p + k + 1) \<le> Z" "Z < 2 ^ (p + k + 2)"
    using t unfolding pw by (simp_all add: less_eq_div_iff_mult_less_eq div_less_iff_less_mult)
  have "fp_scaled p w (k + 2) st s Z e = fp_scaled p w 2 st s (sticky N (D * 2 ^ k)) e"
    unfolding sD by (rule fp_scaled_two [OF p Z, symmetric])
  also have "\<dots> = fp_result p w st s N' D'"
  proof (rule fp_scaled_sticky_eq [OF _ _ p _ _ D'])
    show "2 ^ (p + 2 - 1) \<le> sticky N (D * 2 ^ k)" "sticky N (D * 2 ^ k) < 2 ^ (p + 2)"
      unfolding sD using sticky_normal [OF Z] by simp_all
    show "(of_nat N' / of_nat D' :: rat) = of_nat N / of_nat (D * 2 ^ k) * 2 powi (e - int 2)"
      unfolding eq by (simp add: power_int_diff power_int_add field_simps)
  qed (use D in simp_all)
  finally show ?thesis .
qed

subsection \<open>The 32-bit quotient\<close>

lemma f32_div_sigs_result:
  fixes SA SB :: u64
  assumes A: "2 ^ 23 \<le> unat SA" "unat SA < 2 ^ 24" and B: "2 ^ 23 \<le> unat SB" "unat SB < 2 ^ 24"
    and e: "- 600 < e" "e < 600"
    and val: "(of_nat N / of_nat D :: rat) = of_nat (unat SA) / of_nat (unat SB) * 2 powi (e + 23)" and D: "0 < D"
  shows "f32_div_sigs s e SA SB st = fp_result 24 8 st s N D"
proof -
  define k :: nat where "k = (if SA < SB then 31 else 30)"
  define e' where "e' = (if SA < SB then e - 1 else e)"
  define M where "M = unat SA * 2 ^ k"
  define Q where "Q = push_bit k SA div SB"
  define Z where "Z = (if Q AND 0x3F = 0 then Q OR of_bool (SB * Q \<noteq> push_bit k SA) else Q)"
  have code: "f32_div_sigs s e SA SB st = softfloat_roundPackToF32 s e' Z st"
    by (simp add: f32_div_sigs_def Let_def Z_def Q_def k_def e'_def)
  have B0: "0 < unat SB" using B by simp
  have "unat SA * 2 ^ k < 2 ^ 64" using A by (simp add: k_def)
  then have M: "unat (push_bit k SA) = M" unfolding M_def by (intro unat_push_small) simp
  have Q: "unat Q = M div unat SB" by (simp add: Q_def unat_div M)
  have lo: "2 ^ 30 * unat SB \<le> M" and hi: "M < 2 ^ 31 * unat SB"
    using A B by (auto simp: M_def k_def word_less_nat_alt)
  have Qb: "2 ^ 30 \<le> unat Q" "unat Q < 2 ^ 31"
    using lo hi B0 unfolding Q by (simp_all add: less_eq_div_iff_mult_less_eq less_mult_imp_div_less)
  have le: "M div unat SB * unat SB \<le> M" by (rule div_times_less_eq_dividend)
  have "unat SB * unat Q \<le> M" unfolding Q using le by (simp add: mult.commute)
  moreover have "M < 2 ^ 64" using hi B by simp
  ultimately have "unat (SB * Q) = unat SB * unat Q" by (intro unat_mult_small) simp
  then have ex: "SB * Q \<noteq> push_bit k SA \<longleftrightarrow> M mod unat SB \<noteq> 0"
    unfolding word_unat_eq_iff M Q using mult_div_mod_eq [of "unat SB" M] by linarith
  have q6: "Q AND 0x3F = 0 \<longleftrightarrow> unat Q mod 2 ^ 6 = 0"
    using unat_and_mask [of Q 6] by (simp add: mask_eq_exp_minus_1 word_unat_eq_iff)
  have ev: "unat Q mod 2 ^ 6 = 0 \<Longrightarrow> even (unat Q)" by simp presburger
  have uZ: "unat Z = (if unat Q mod 2 ^ 6 = 0 \<and> M mod unat SB \<noteq> 0 then Suc (unat Q) else unat Q)"
    unfolding Z_def q6 ex using ev unat_or_of_bool [of Q True] by (cases "M mod unat SB = 0") auto
  have dv: "M div (unat SB * 2 ^ Suc 5) = unat Q div 2 ^ Suc 5"
    unfolding Q by (simp add: div_mult2_eq)
  have md: "M mod (unat SB * 2 ^ Suc 5) = 0 \<longleftrightarrow> unat Q mod 2 ^ Suc 5 = 0 \<and> M mod unat SB = 0"
    unfolding Q mod_mult2_eq using B0 by auto
  have s6: "unat Q mod 2 ^ 6 = 0 \<Longrightarrow> Suc (unat Q) div 2 ^ 6 = unat Q div 2 ^ 6 \<and> Suc (unat Q) mod 2 ^ 6 \<noteq> 0"
    by (simp add: mod_Suc div_Suc)
  have "softfloat_roundPackToF32 s e' Z st = fp_scaled 24 8 7 st s (unat Z) e'"
  proof (rule roundPackToF32_scaled)
    show "2 ^ 30 \<le> unat Z" "unat Z < 2 ^ 31" using Qb uZ s6 by (auto split: if_splits)
  qed (use e in \<open>auto simp: e'_def\<close>)
  also have "\<dots> = fp_result 24 8 st s N D"
  proof -
    have "(of_nat N / of_nat D :: rat) = of_nat M / of_nat (unat SB) * 2 powi (e' - int (5 + 2))"
      unfolding val M_def k_def e'_def by (simp add: power_int_diff power_int_add field_simps)
    then have "fp_scaled 24 8 (5 + 2) st s (unat Z) e' = fp_result 24 8 st s N D"
      using lo hi B0 D uZ s6 dv md by (intro fp_scaled_estimate [where D = "unat SB" and N = M]) auto
    then show ?thesis by simp
  qed
  finally show ?thesis unfolding code .
qed

lemma f32_div_result: "f32_div a b st = fp_div_spec 24 8 (unat a) (unat b) st"
proof -
  define A B where "A = (ucast a :: u64)" and "B = (ucast b :: u64)"
  have u: "unat a = unat A" "unat b = unat B" by (simp_all add: A_def B_def)
  have l: "unat A < 2 ^ (8 + 24)" "unat B < 2 ^ (8 + 24)"
    using unat_less_32 [of a] unat_less_32 [of b] unfolding u by simp_all
  note cls = f32.classify [of A, simplified] f32.classify [of B, simplified]
  note defs = f32_div_def fp_div_spec_def u A_def [symmetric] B_def [symmetric]
    f32.neg_sign [OF l(1)] f32.neg_sign [OF l(2)]
  consider "expF32UI A = 255 \<or> expF32UI B = 255"
    | "expF32UI A \<noteq> 255" "expF32UI B \<noteq> 255" "fp_mag 24 8 (unat B) = 0"
    | "expF32UI A \<noteq> 255" "expF32UI B \<noteq> 255" "fp_mag 24 8 (unat B) \<noteq> 0" "fp_mag 24 8 (unat A) = 0"
    | "expF32UI A \<noteq> 255" "expF32UI B \<noteq> 255" "fp_mag 24 8 (unat A) \<noteq> 0" "fp_mag 24 8 (unat B) \<noteq> 0"
    by blast
  then show ?thesis
  proof cases
    case 1
    then show ?thesis
      unfolding defs
      by (cases "expF32UI A = 255"; cases "expF32UI B = 255")
        (simp_all add: Let_def cls special_F32 propagate_F32 [unfolded Let_def] fp_invalid_def)
  next
    case 2
    then have "expF32UI B = 0" "fracF32UI B = 0" by (auto simp: f32.mag_zero)
    then show ?thesis
      unfolding defs using 2 cls
      by (simp add: Let_def special_F32 fp_invalid_def magbits_F32)
  next
    case 3
    have z: "expF32UI A = 0" "fracF32UI A = 0" using 3(4) by (auto simp: f32.mag_zero)
    have nz: "\<not> (expF32UI B = 0 \<and> fracF32UI B = 0)" using 3(3) by (auto simp: f32.mag_zero)
    have "0 < fp_mag 24 8 (unat B)" using 3 by simp
    then have "(fp_div_spec 24 8 (unat A) (unat B) st :: u32 \<times> _) = (fp_zero 24 8 (signF32UI A \<noteq> signF32UI B), st)"
      unfolding defs using 3 cls by (simp add: Let_def fp_result_zero)
    then show ?thesis
      unfolding defs(1,3-) using 3(1,2) z nz
      by (auto simp: Let_def special_F32 split: prod.split)
  next
    case 4
    obtain eA sA where A: "(if expF32UI A = 0 then softfloat_normSubnormalF32Sig (fracF32UI A)
        else (expF32UI A, fracF32UI A)) = (eA, sA)"
      "2 ^ 23 \<le> unat (sA OR 0x00800000)" "unat (sA OR 0x00800000) < 2 ^ 24" "- 23 < eA" "eA < 0xFF"
      "(of_nat (fp_mag 24 8 (unat A)) :: rat) = of_nat (unat (sA OR 0x00800000)) * 2 powi (eA - 1)"
      using norm_operand_F32 [of A] 4 by (metis f32.mag_zero)
    obtain eB sB where B: "(if expF32UI B = 0 then softfloat_normSubnormalF32Sig (fracF32UI B)
        else (expF32UI B, fracF32UI B)) = (eB, sB)"
      "2 ^ 23 \<le> unat (sB OR 0x00800000)" "unat (sB OR 0x00800000) < 2 ^ 24" "- 23 < eB" "eB < 0xFF"
      "(of_nat (fp_mag 24 8 (unat B)) :: rat) = of_nat (unat (sB OR 0x00800000)) * 2 powi (eB - 1)"
      using norm_operand_F32 [of B] 4 by (metis f32.mag_zero)
    have val: "(of_nat (fp_mag 24 8 (unat A) * 2 ^ 149) / of_nat (fp_mag 24 8 (unat B)) :: rat) =
        of_nat (unat (sA OR 0x00800000)) / of_nat (unat (sB OR 0x00800000)) * 2 powi (eA - eB + 0x7E + 23)"
      unfolding of_nat_mult A(6) B(6) by (simp add: power_int_diff power_int_add)
    have "fp_div_spec 24 8 (unat A) (unat B) st =
      fp_result 24 8 st (signF32UI A \<noteq> signF32UI B) (fp_mag 24 8 (unat A) * 2 ^ 149) (fp_mag 24 8 (unat B))"
      unfolding defs using 4 cls by simp
    also have "\<dots> = f32_div_sigs (signF32UI A \<noteq> signF32UI B) (eA - eB + 0x7E) (sA OR 0x00800000) (sB OR 0x00800000) st"
      by (rule f32_div_sigs_result [OF A(2,3) B(2,3) _ _ val, symmetric]) (use A(4,5) B(4,5) 4(4) in simp_all)
    also have "\<dots> = f32_div a b st"
      using 4(1,2) 4(3,4) [unfolded f32.mag_zero]
      unfolding f32_div_def Let_def A_def [symmetric] B_def [symmetric] A(1) B(1)
      by (simp only: if_False case_prod_conv simp_thms)
    finally show ?thesis by (simp add: u)
  qed
qed

subsection \<open>The 64-bit quotient\<close>

lemma two_powers:
  "(2 :: nat) ^ 28 = 268435456" "(2 :: nat) ^ 31 = 2147483648" "(2 :: nat) ^ 32 = 4294967296"
  "(2 :: nat) ^ 60 = 1152921504606846976" "(2 :: nat) ^ 63 = 9223372036854775808"
  "(2 :: nat) ^ 64 = 18446744073709551616"
  by simp_all

text \<open>The reciprocal of the upper half of the divisor and one step of the quotient estimate, over the
  natural numbers.\<close>

lemma recip_bounds:
  fixes bh :: nat
  assumes "2 ^ 31 \<le> bh" "bh < 2 ^ 32"
  shows "2 ^ 63 \<le> ((2 ^ 63 - 1) div bh - 2 + 3) * bh" (is "_ \<le> (?R - 2 + 3) * bh")
    and "((2 ^ 63 - 1) div bh - 2) * (bh + 1) < 2 ^ 63"
    and "2 ^ 31 \<le> (2 ^ 63 - 1) div bh" "(2 ^ 63 - 1) div bh < 2 ^ 32"
proof -
  have b: "0 < bh" using assms by simp
  have "2 ^ 31 * bh \<le> 2 ^ 63 - 1" using assms by simp
  then show lo: "2 ^ 31 \<le> ?R" using b by (simp add: less_eq_div_iff_mult_less_eq)
  have "2 ^ 63 - 1 < 2 ^ 32 * bh" using assms by simp
  then show hi: "?R < 2 ^ 32" by (rule less_mult_imp_div_less)
  have e: "?R * bh + (2 ^ 63 - 1) mod bh = 2 ^ 63 - 1" by (rule div_mult_mod_eq)
  have m: "(2 ^ 63 - 1) mod bh < bh" using b by (rule mod_less_divisor)
  have "2 ^ 63 \<le> ?R * bh + bh" using e m by linarith
  then have "2 ^ 63 \<le> (?R + 1) * bh" by simp
  moreover have "?R - 2 + 3 = ?R + 1" using lo by simp
  ultimately show "2 ^ 63 \<le> (?R - 2 + 3) * bh" by simp
  define C where "C = (?R - 2) * (bh + 1)"
  have "C + 2 * (bh + 1) = ?R * (bh + 1)" unfolding C_def
    using lo le_add_diff_inverse2 [of 2 ?R] by (simp only: add_mult_distrib [symmetric]) simp
  also have "\<dots> = ?R * bh + ?R" by simp
  finally have "C + 2 * (bh + 1) = ?R * bh + ?R" .
  moreover have "?R * bh \<le> 2 ^ 63 - 1" using e by linarith
  moreover have "C + 2 * (bh + 1) = P + R \<Longrightarrow> P \<le> 2 ^ 63 - 1 \<Longrightarrow> R < 2 ^ 32 \<Longrightarrow> C < 2 ^ 63" for P R
    using assms(1) by simp
  ultimately have "C < 2 ^ 63" using hi by blast
  then show "(?R - 2) * (bh + 1) < 2 ^ 63" unfolding C_def .
qed

lemma estimate_step:
  fixes bh bl x r :: nat
  assumes r: "2 ^ 63 \<le> (r + 3) * bh" "r * (bh + 1) < 2 ^ 63" and bl: "bl < 2 ^ 32" and bh: "0 < bh" and x: "0 < x"
  defines "q \<equiv> x div 2 ^ 32 * r div 2 ^ 32" and "B \<equiv> bh * 2 ^ 32 + bl"
  shows "q * B < x * 2 ^ 31" "x * 2 ^ 31 < (q + 1) * B + 3 * (x div 2 ^ 32 * bh) + 2 ^ 63"
proof -
  define xh where "xh = x div 2 ^ 32"
  have xd: "xh * 2 ^ 32 + x mod 2 ^ 32 = x" unfolding xh_def by (rule div_mult_mod_eq)
  have ql: "q * 2 ^ 32 \<le> xh * r" unfolding q_def xh_def by (rule div_times_less_eq_dividend)
  have qh: "xh * r < (q + 1) * 2 ^ 32"
    unfolding q_def xh_def using dividend_less_div_times [of "2 ^ 32" "x div 2 ^ 32 * r"] by (simp add: ac_simps)
  show "q * B < x * 2 ^ 31"
  proof (cases "q = 0")
    case True
    then show ?thesis using x by simp
  next
    case False
    have "q * B < q * ((bh + 1) * 2 ^ 32)" using False bl by (simp add: B_def)
    also have "\<dots> = q * 2 ^ 32 * (bh + 1)" by (simp add: algebra_simps)
    also have "\<dots> \<le> xh * r * (bh + 1)" using ql by (rule mult_right_mono) simp
    also have "\<dots> \<le> xh * 2 ^ 63" using r(2) by (simp only: mult.assoc) (rule mult_left_mono; simp)
    also have "\<dots> \<le> x * 2 ^ 31" using xd [symmetric] by simp
    finally show ?thesis .
  qed
  have "xh * r * bh * 2 ^ 32 \<le> xh * r * B" by (simp add: B_def algebra_simps)
  also have "\<dots> < (q + 1) * 2 ^ 32 * B" using qh bh by (intro mult_strict_right_mono) (simp_all add: B_def)
  finally have "xh * r * bh < (q + 1) * B" by (simp add: algebra_simps)
  moreover have "xh * 2 ^ 63 \<le> xh * ((r + 3) * bh)" using r(1) by (rule mult_left_mono) simp
  moreover have "xh * ((r + 3) * bh) = xh * r * bh + 3 * (xh * bh)" by (simp add: algebra_simps)
  moreover have "x * 2 ^ 31 < xh * 2 ^ 63 + 2 ^ 63"
    using xd pos_mod_bound [of "2 ^ 32" "int x"] mod_less_divisor [of "2 ^ 32" x] by simp
  ultimately show "x * 2 ^ 31 < (q + 1) * B + 3 * (x div 2 ^ 32 * bh) + 2 ^ 63"
    unfolding xh_def by linarith
qed

text \<open>Both steps together: the first half \<open>s\<close> of the quotient, the remainder, and the second half \<open>q\<close>,
  which is above the quotient by less than four.\<close>

lemma quotient_estimate:
  fixes A B :: nat
  assumes B: "2 ^ 63 \<le> B" "B < 2 ^ 64" "16 dvd B" and A: "A < B" "B \<le> 2 * A"
  defines "bh \<equiv> B div 2 ^ 32"
  defines "r \<equiv> (2 ^ 63 - 1) div bh - 2"
  defines "s \<equiv> A div 2 ^ 32 * r div 2 ^ 32"
  obtains R where "A * 2 ^ 32 = 2 * s * B + 16 * R" "s < 2 ^ 31" "R < 9 * 2 ^ 60"
    "R div 2 ^ 32 * r div 2 ^ 32 * B < R * 2 ^ 31"
    "R * 2 ^ 31 < (R div 2 ^ 32 * r div 2 ^ 32 + 4) * B"
    "R div 2 ^ 32 * r div 2 ^ 32 + 4 < 2 ^ 31"
proof -
  define bl where "bl = B mod 2 ^ 32"
  have Bd: "bh * 2 ^ 32 + bl = B" unfolding bh_def bl_def by (rule div_mult_mod_eq)
  have bl: "bl < 2 ^ 32" unfolding bl_def by simp
  have bh: "2 ^ 31 \<le> bh" "bh < 2 ^ 32" using B(1,2) Bd [symmetric] bl by simp_all
  note rb = recip_bounds [OF bh, folded r_def]
  have bh0: "0 < bh" and A0: "0 < A" using bh A B by simp_all
  note s1 = estimate_step [OF rb(1,2) bl bh0 A0, folded s_def, unfolded Bd]
  have "2 * s * B < 2 ^ 32 * B" using s1(1) A(1) unfolding two_powers by linarith
  then have s: "s < 2 ^ 31" by simp
  have "16 dvd A * 2 ^ 32 - 2 * s * B"
  proof -
    have "(16 :: nat) dvd A * 2 ^ 32" using dvd_mult [of 16 "2 ^ 32" A] by simp
    moreover have "16 dvd 2 * s * B" using B(3) by (rule dvd_mult)
    ultimately show ?thesis by (rule dvd_diff_nat)
  qed
  then obtain R where R: "A * 2 ^ 32 - 2 * s * B = 16 * R" by (auto elim: dvdE)
  then have e: "A * 2 ^ 32 = 2 * s * B + 16 * R" using s1(1) by simp
  have R0: "0 < R" using e s1(1) by simp
  define ah rh where "ah = A div 2 ^ 32" and "rh = R div 2 ^ 32"
  have "ah < 2 ^ 32" unfolding ah_def using less_mult_imp_div_less [of A "2 ^ 32" "2 ^ 32"] A(1) B(2) by simp
  then have "ah * bh \<le> 2 ^ 32 * bh" by (intro mult_right_mono) simp_all
  then have ab: "ah * bh \<le> B" using Bd unfolding two_powers by linarith
  have "16 * R < 2 * B + 6 * (ah * bh) + 2 ^ 64"
    using s1(2) [folded ah_def] e unfolding two_powers by (simp add: algebra_simps)
  then have Rb: "16 * R < 10 * B" "16 * R < 9 * 2 ^ 64" using ab B(1,2) by simp_all
  define q where "q = rh * r div 2 ^ 32"
  note s2 = estimate_step [OF rb(1,2) bl bh0 R0, unfolded Bd, folded rh_def q_def]
  have "rh < 9 * 2 ^ 28" unfolding rh_def using less_mult_imp_div_less [of R "9 * 2 ^ 28" "2 ^ 32"] Rb(2) by simp
  then have "rh * bh \<le> 9 * 2 ^ 28 * bh" by (intro mult_right_mono) simp_all
  then have "3 * (rh * bh) + 2 ^ 63 \<le> 3 * B" using Bd [symmetric] bh(1) unfolding two_powers by linarith
  then have q4: "R * 2 ^ 31 < (q + 4) * B" using s2(2) by (simp add: algebra_simps)
  have "16 * (q * B) < 10 * 2 ^ 31 * B" using s2(1) Rb(1) unfolding two_powers by linarith
  then have "16 * q < 10 * 2 ^ 31" by simp
  then have "q + 4 < 2 ^ 31" unfolding two_powers by linarith
  moreover have "R < 9 * 2 ^ 60" using Rb(2) by simp
  ultimately show thesis using that [OF e s] s2(1) q4 unfolding q_def rh_def by blast
qed

lemma div_mod_unique:
  fixes N M c t :: nat
  assumes "N = c * M + t" "t < M"
  shows "N div M = c \<and> N mod M = t"
  using assms by simp

text \<open>The last step: when the estimate is within four of a multiple of 32, the sign of the full
  remainder decides between the two candidates.\<close>

lemma quotient_correction:
  fixes N B R s q :: nat
  assumes N: "N = s * 2 ^ 32 * B + R * 2 ^ 35" and B: "0 < B"
    and lo: "q * B < R * 2 ^ 31 + 4 * B" and hi: "R * 2 ^ 31 < q * B" and q: "4 \<le> q"
  defines "f \<equiv> q div 32"
  defines "d \<equiv> int (R * 2 ^ 28) - int (4 * f * B)"
  defines "Z \<equiv> (if q mod 32 < 4
      then if d < 0 then s * 2 ^ 32 + 512 * f - 128 else s * 2 ^ 32 + 512 * f + of_bool (d \<noteq> 0)
      else s * 2 ^ 32 + 16 * q)"
  shows "Z div 512 = N div (B * 512) \<and> (Z mod 512 = 0 \<longleftrightarrow> N mod (B * 512) = 0)"
    and "q mod 32 < 4 \<Longrightarrow> \<bar>2 * d\<bar> < int B"
    and "q mod 32 < 4 \<Longrightarrow> 1 \<le> f"
proof -
  define m where "m = q mod 32"
  have qf: "q = 32 * f + m" and m: "m < 32" by (simp_all add: f_def m_def)
  have qB: "q * B = 32 * (f * B) + m * B" unfolding qf by (simp add: algebra_simps)
  define g where "g = f * B"
  define Y where "Y = R * 2 ^ 28"
  have Y: "R * 2 ^ 31 = 8 * Y" "R * 2 ^ 35 = 128 * Y" by (simp_all add: Y_def)
  have b: "32 * g + m * B < 8 * Y + 4 * B" "8 * Y < 32 * g + m * B"
    using lo hi unfolding qB Y g_def by simp_all
  have d: "d = int Y - int (4 * g)" by (simp add: d_def Y_def g_def)
  have c: "c * (B * 512) = s * 2 ^ 32 * B + 512 * g" if "c = s * 2 ^ 23 + f" for c
    unfolding that g_def by (simp add: algebra_simps)
  show f1: "1 \<le> f" if "q mod 32 < 4"
    using that q qf unfolding m_def [symmetric] by (cases f) simp_all
  have db: "\<bar>2 * d\<bar> < int B" if "m < 4"
  proof -
    have "m * B \<le> 3 * B" using that by (intro mult_right_mono) simp_all
    moreover have "\<bar>2 * (int Y - int (4 * g))\<bar> < int B"
      if "M \<le> 3 * B" "32 * g + M < 8 * Y + 4 * B" "8 * Y < 32 * g + M" for M using that B by (simp add: abs_less_iff)
    ultimately show ?thesis unfolding d using b by blast
  qed
  then show "\<bar>2 * d\<bar> < int B" if "q mod 32 < 4" using that unfolding m_def .
  consider "4 \<le> m" | "m < 4" "0 \<le> d" | "m < 4" "d < 0" by linarith
  then show "Z div 512 = N div (B * 512) \<and> (Z mod 512 = 0 \<longleftrightarrow> N mod (B * 512) = 0)"
  proof cases
    case 1
    have mB: "4 * B \<le> m * B" "m * B \<le> 31 * B" using 1 m by (auto intro: mult_right_mono)
    have "N = (s * 2 ^ 23 + f) * (B * 512) + (128 * Y - 512 * g)" "128 * Y - 512 * g < B * 512"
      using b mB unfolding N Y c [OF refl] by linarith+
    note n = div_mod_unique [OF this]
    have "Z = (s * 2 ^ 23 + f) * 512 + 16 * m" using 1 unfolding Z_def m_def [symmetric] by (simp add: qf)
    moreover have "16 * m < 512" using m by simp
    ultimately have "Z div 512 = s * 2 ^ 23 + f \<and> Z mod 512 = 16 * m" by (rule div_mod_unique)
    moreover have "4 * g < Y" using b mB by linarith
    ultimately show ?thesis using n 1 by simp
  next
    case 2
    have "int N = int ((s * 2 ^ 23 + f) * (B * 512)) + 128 * d"
      unfolding N Y c [OF refl] d by simp
    then have "N = (s * 2 ^ 23 + f) * (B * 512) + nat (128 * d)" "nat (128 * d) < B * 512"
      using 2 db by linarith+
    note n = div_mod_unique [OF this]
    have "Z = (s * 2 ^ 23 + f) * 512 + of_bool (d \<noteq> 0)" using 2 unfolding Z_def m_def [symmetric] by simp
    moreover have "of_bool (d \<noteq> 0) < (512 :: nat)" by simp
    ultimately have "Z div 512 = s * 2 ^ 23 + f \<and> Z mod 512 = of_bool (d \<noteq> 0)" by (rule div_mod_unique)
    then show ?thesis using n 2 by simp
  next
    case 3
    define c where "c = s * 2 ^ 23 + (f - 1)"
    have f: "s * 2 ^ 23 + f = c + 1" using f1 3 by (simp add: c_def m_def)
    have "int N = int ((c + 1) * (B * 512)) + 128 * d"
      unfolding N Y f [symmetric] c [OF refl] d by simp
    then have "int N = int (c * (B * 512)) + (int (B * 512) + 128 * d)" by (simp add: algebra_simps)
    moreover have t: "0 < int (B * 512) + 128 * d" "int (B * 512) + 128 * d < int (B * 512)"
      using 3 db by simp_all
    ultimately have "N = c * (B * 512) + nat (int (B * 512) + 128 * d)"
      "nat (int (B * 512) + 128 * d) < B * 512" by linarith+
    note n = div_mod_unique [OF this]
    have "Z = (c + 1) * 512 - 128" using 3 unfolding Z_def m_def [symmetric] f [symmetric] by simp
    then have "Z = c * 512 + 384" by simp
    then have "Z div 512 = c \<and> Z mod 512 = 384" by (rule div_mod_unique) simp
    then show ?thesis using n t by simp
  qed
qed

lemma f64_div_rem_word:
  fixes x :: u64 and t bh b4 :: u32
  shows "push_bit 28 (x - ucast t * ucast bh) - ucast t * ucast b4 =
    word_of_int ((int (unat x) - int (unat t) * int (unat bh)) * 2 ^ 28 - int (unat t) * int (unat b4))"
proof -
  have w: "(ucast y :: u64) = word_of_int (int (unat y))" for y :: u32
    by (simp add: unsigned_ucast_eq)
  have x: "x = word_of_int (int (unat x))" by simp
  show ?thesis
    unfolding w by (subst x) (simp add: push_bit_eq_mult del: of_int_of_nat_eq)
qed

lemma sign_of_word_64:
  assumes "- (2 ^ 63) \<le> d" "d < 2 ^ 63"
  shows "(word_of_int d :: u64) AND 0x8000000000000000 \<noteq> 0 \<longleftrightarrow> d < 0"
    and "(word_of_int d :: u64) \<noteq> 0 \<longleftrightarrow> d \<noteq> 0"
proof -
  have "(word_of_int d :: u64) AND 0x8000000000000000 \<noteq> 0 \<longleftrightarrow> bit (word_of_int d :: u64) 63"
    using and_exp_eq_0_iff_not_bit [of "word_of_int d :: u64" 63] by simp
  also have "\<dots> \<longleftrightarrow> bit d 63" by (simp add: bit_word_of_int_iff)
  also have "\<dots> \<longleftrightarrow> odd (d div 2 ^ 63)" by (simp add: bit_iff_odd)
  also have "\<dots> \<longleftrightarrow> d < 0"
  proof (cases "d < 0")
    case True
    then have "d div 2 ^ 63 = - 1" using assms int_div_pos_eq [of d "2 ^ 63" "- 1" "d + 2 ^ 63"] by simp
    then show ?thesis using True by simp
  next
    case False
    then have "d div 2 ^ 63 = 0" using assms by (intro div_pos_pos_trivial) simp_all
    then show ?thesis using False by simp
  qed
  finally show "(word_of_int d :: u64) AND 0x8000000000000000 \<noteq> 0 \<longleftrightarrow> d < 0" .
  have "(word_of_int d :: u64) = 0 \<longleftrightarrow> 2 ^ 64 dvd d" by (simp add: word_of_int_eq_0_iff)
  also have "\<dots> \<longleftrightarrow> d = 0" using assms zdvd_not_zless [of "\<bar>d\<bar>" "2 ^ 64"] by (cases "d = 0") auto
  finally show "(word_of_int d :: u64) \<noteq> 0 \<longleftrightarrow> d \<noteq> 0" by simp
qed

text \<open>The estimate of the code, word for word.\<close>

lemma approxRecip32_1_val:
  assumes "2 ^ 31 \<le> unat b"
  shows "unat (softfloat_approxRecip32_1 b) = (2 ^ 63 - 1) div unat b"
    and "unat (softfloat_approxRecip32_1 b - 2) = (2 ^ 63 - 1) div unat b - 2"
proof -
  note r = recip_bounds [OF assms unat_less_32 [of b]]
  show v: "unat (softfloat_approxRecip32_1 b) = (2 ^ 63 - 1) div unat b"
    unfolding softfloat_approxRecip32_1_def using r(4) unat_less_32 [of b] by (simp add: unat_ucast unat_div)
  have "(2 :: u32) \<le> softfloat_approxRecip32_1 b" using r(3) by (simp add: word_le_nat_alt v)
  then show "unat (softfloat_approxRecip32_1 b - 2) = (2 ^ 63 - 1) div unat b - 2"
    by (simp add: unat_sub_small v)
qed

lemma mul_high_32:
  fixes x y :: u32
  shows "unat (ucast (drop_bit 32 ((ucast x :: u64) * ucast y)) :: u32) = unat x * unat y div 2 ^ 32"
    and "unat (drop_bit 32 ((ucast x :: u64) * ucast y)) = unat x * unat y div 2 ^ 32"
proof -
  have "unat x * unat y < 2 ^ 32 * 2 ^ 32"
    using unat_less_32 [of x] unat_less_32 [of y] by (intro mult_strict_mono) simp_all
  then have "unat ((ucast x :: u64) * ucast y) = unat x * unat y"
    by (subst unat_mult_small) simp_all
  then show "unat (ucast (drop_bit 32 ((ucast x :: u64) * ucast y)) :: u32) = unat x * unat y div 2 ^ 32"
    "unat (drop_bit 32 ((ucast x :: u64) * ucast y)) = unat x * unat y div 2 ^ 32"
    by (simp_all add: unat_high_32 unat_drop)
qed

lemma f64_div_fixup:
  fixes Z rm :: u64 and Q B32 b4 :: u32
  assumes Z: "unat Z = s * 2 ^ 32 + 16 * q" "s < 2 ^ 31" "q < 2 ^ 31" and Q: "unat Q = q" and m: "q mod 32 < 4"
    and rm: "unat rm = R" and B: "B = unat B32 * 2 ^ 32 + 16 * unat b4" "B < 2 ^ 64"
  defines "f \<equiv> q div 32"
  defines "d \<equiv> int (R * 2 ^ 28) - int (4 * f * B)"
  assumes d: "\<bar>2 * d\<bar> < int B" and f: "1 \<le> f"
  shows "unat (let rem = push_bit 28 (rm - ucast (push_bit 1 (Q AND NOT 7)) * ucast B32) - ucast (push_bit 1 (Q AND NOT 7)) * ucast b4
           in if rem AND 0x8000000000000000 \<noteq> 0 then (Z AND NOT 0x7F) - 128
              else if rem \<noteq> 0 then (Z AND NOT 0x7F) OR 1 else Z AND NOT 0x7F) =
    (if d < 0 then s * 2 ^ 32 + 512 * f - 128 else s * 2 ^ 32 + 512 * f + of_bool (d \<noteq> 0))"
proof -
  have q: "q = 32 * f + q mod 32" by (simp add: f_def)
  have "q div 8 * 8 = 32 * f" using m q by (subst (1) q) simp
  then have "unat (Q AND NOT 7) = 32 * f"
    using unat_and_not_mask [of Q 3] by (simp add: mask_eq_exp_minus_1 Q)
  moreover have "64 * f < 2 ^ 32" using Z(3) q by simp
  ultimately have t: "unat (push_bit 1 (Q AND NOT 7)) = 64 * f" unfolding unat_push by simp
  have "unat Z = 512 * f + 16 * (q mod 32) + s * 2 ^ 32" unfolding Z by (subst (1) q) simp
  then have "unat Z = 128 * (4 * f + s * 2 ^ 25) + 16 * (q mod 32)" by simp
  then have "unat Z div 128 = 4 * f + s * 2 ^ 25" using m by simp
  then have z: "unat (Z AND NOT 0x7F) = s * 2 ^ 32 + 512 * f"
    using unat_and_not_mask [of Z 7] by (simp add: mask_eq_exp_minus_1)
  have w: "push_bit 28 (rm - ucast (push_bit 1 (Q AND NOT 7)) * ucast B32) - ucast (push_bit 1 (Q AND NOT 7)) * ucast b4 = word_of_int d"
    unfolding f64_div_rem_word t rm d_def B by (rule arg_cong [where f = word_of_int]) (simp add: algebra_simps)
  define Y where "Y = (Z AND NOT 0x7F)"
  note z = z [folded Y_def]
  have "128 \<le> Y" using f by (simp add: word_le_nat_alt z)
  then have s: "unat (Y - 128) = s * 2 ^ 32 + 512 * f - 128" by (simp add: unat_sub_small z)
  have o: "unat (Y OR 1) = s * 2 ^ 32 + 512 * f + 1"
    using unat_or_of_bool [of Y True] by (simp add: z)
  have "- (2 ^ 63) \<le> d" "d < 2 ^ 63" using d B(2) by simp_all
  note sg = sign_of_word_64 [OF this]
  show ?thesis unfolding w Let_def sg Y_def [symmetric] by (simp add: s o z)
qed

lemma f64_div_quot_correct:
  fixes SA SB :: u64
  defines "A \<equiv> unat SA" and "B \<equiv> unat SB"
  assumes B: "2 ^ 63 \<le> B" "16 dvd B" and A: "A < B" "B \<le> 2 * A"
  shows "unat (f64_div_quot SA SB) div 512 = A * 2 ^ 63 div (B * 512)"
    and "unat (f64_div_quot SA SB) mod 512 = 0 \<longleftrightarrow> A * 2 ^ 63 mod (B * 512) = 0"
proof -
  define bh where "bh = B div 2 ^ 32"
  define r where "r = (2 ^ 63 - 1) div bh - 2"
  define s where "s = A div 2 ^ 32 * r div 2 ^ 32"
  have B64: "B < 2 ^ 64" unfolding B_def by (rule unat_less_64)
  obtain R where R: "A * 2 ^ 32 = 2 * s * B + 16 * R" "s < 2 ^ 31" "R < 9 * 2 ^ 60"
    "R div 2 ^ 32 * r div 2 ^ 32 * B < R * 2 ^ 31"
    "R * 2 ^ 31 < (R div 2 ^ 32 * r div 2 ^ 32 + 4) * B"
    "R div 2 ^ 32 * r div 2 ^ 32 + 4 < 2 ^ 31"
    by (rule quotient_estimate [OF B(1) B64 B(2) A, folded bh_def, folded r_def, folded s_def])
  define q where "q = R div 2 ^ 32 * r div 2 ^ 32 + 4"
  define b4 where "b4 = B mod 2 ^ 32 div 16"
  have Bd: "B = bh * 2 ^ 32 + 16 * b4"
  proof -
    have "16 dvd B mod 2 ^ 32" using B(2) by (rule dvd_mod) simp
    then have "16 * b4 = B mod 2 ^ 32" unfolding b4_def by (rule dvd_mult_div_cancel)
    then show ?thesis unfolding bh_def using div_mult_mod_eq [of B "2 ^ 32"] by linarith
  qed
  have bh: "2 ^ 31 \<le> bh" using B(1) unfolding bh_def by (simp add: less_eq_div_iff_mult_less_eq)
  define B32 recip S where "B32 = (ucast (drop_bit 32 SB) :: u32)"
    and "recip = softfloat_approxRecip32_1 B32 - 2"
    and "S = (ucast (drop_bit 32 ((ucast (ucast (drop_bit 32 SA) :: u32) :: u64) * ucast recip)) :: u32)"
  define b4w where "b4w = drop_bit 4 (ucast SB :: u32)"
  have b32: "unat B32 = bh" by (simp add: B32_def unat_high_32 bh_def B_def)
  have bw: "unat b4w = b4" by (simp add: b4w_def b4_def unat_drop unat_low_32 B_def)
  have rec: "unat recip = r" unfolding recip_def r_def b32 [symmetric]
    by (rule approxRecip32_1_val(2)) (use bh in \<open>simp add: b32\<close>)
  have S: "unat S = s" unfolding S_def mul_high_32(1) unfolding unat_high_32 rec s_def A_def ..
  have t: "unat (push_bit 1 S) = 2 * s" unfolding unat_push S using R(2) by simp
  define rm where "rm = push_bit 28 (SA - ucast (push_bit 1 S) * ucast B32) - ucast (push_bit 1 S) * ucast b4w"
  have rR: "(int A - int (2 * s) * int bh) * 2 ^ 28 - int (2 * s) * int b4 = int R"
  proof -
    have "int A * 2 ^ 32 = 2 * int s * (int bh * 2 ^ 32 + 16 * int b4) + 16 * int R"
      using arg_cong [OF R(1), of int] unfolding Bd by simp
    then show ?thesis by (simp add: algebra_simps)
  qed
  have rmw: "rm = word_of_int (int R)"
    unfolding rm_def f64_div_rem_word t b32 bw A_def [symmetric] rR ..
  then have rm: "unat rm = R" using R(3) by (simp add: unat_of_nat)
  define Q where "Q = (ucast (drop_bit 32 ((ucast (ucast (drop_bit 32 rm) :: u32) :: u64) * ucast recip) + 4) :: u32)"
  have "unat (drop_bit 32 ((ucast (ucast (drop_bit 32 rm) :: u32) :: u64) * ucast recip) + 4) = q"
    using R(6) by (subst unat_add_small) (simp_all add: mul_high_32 unat_high_32 rec rm q_def)
  then have Q: "unat Q = q" using R(6) by (simp add: Q_def unat_ucast q_def)
  define Z where "Z = push_bit 32 (ucast S) + push_bit 4 (ucast Q :: u64)"
  have q31: "q < 2 ^ 31" using R(6) by (simp add: q_def)
  have p: "unat (push_bit 32 (ucast S :: u64)) = s * 2 ^ 32" "unat (push_bit 4 (ucast Q :: u64)) = 16 * q"
    using R(2) q31 by (simp_all add: unat_push S Q)
  have Z: "unat Z = s * 2 ^ 32 + 16 * q"
    unfolding Z_def using R(2) q31 by (subst unat_add_small) (simp_all add: p)
  define f where "f = q div 32"
  define d where "d = int (R * 2 ^ 28) - int (4 * f * B)"
  have N: "A * 2 ^ 63 = s * 2 ^ 32 * B + R * 2 ^ 35" using R(1) by simp
  have B0: "0 < B" using B(1) by simp
  have qlo: "q * B < R * 2 ^ 31 + 4 * B" using R(4) by (simp add: q_def algebra_simps)
  note corr = quotient_correction [OF N B0 qlo R(5) [folded q_def], folded f_def, folded d_def]
  have code: "f64_div_quot SA SB =
    (if Z AND 0x1FF < 64
     then (let rem = push_bit 28 (rm - ucast (push_bit 1 (Q AND NOT 7)) * ucast B32) - ucast (push_bit 1 (Q AND NOT 7)) * ucast b4w
           in if rem AND 0x8000000000000000 \<noteq> 0 then (Z AND NOT 0x7F) - 128
              else if rem \<noteq> 0 then (Z AND NOT 0x7F) OR 1 else Z AND NOT 0x7F)
     else Z)"
    unfolding f64_div_quot_def Let_def B32_def [symmetric] recip_def [symmetric] S_def [symmetric]
      b4w_def [symmetric] rm_def [symmetric] Q_def [symmetric] Z_def [symmetric] by simp
  have g: "Z AND 0x1FF < 64 \<longleftrightarrow> q mod 32 < 4"
  proof -
    have "unat (Z AND 0x1FF) = (s * 2 ^ 32 + 16 * q) mod 512"
      using unat_and_mask [of Z 9] by (simp add: mask_eq_exp_minus_1 Z)
    also have "\<dots> = 16 * q mod 512" using mod_mult_self4 [of 512 "s * 2 ^ 23" "16 * q"] by (simp add: ac_simps)
    also have "\<dots> = 16 * (q mod 32)" using mult_mod_right [of 16 q 32] by simp
    finally show ?thesis by (simp add: word_less_nat_alt)
  qed
  have uZ: "unat (f64_div_quot SA SB) = (if q mod 32 < 4
      then if d < 0 then s * 2 ^ 32 + 512 * f - 128 else s * 2 ^ 32 + 512 * f + of_bool (d \<noteq> 0)
      else s * 2 ^ 32 + 16 * q)"
    unfolding code g using f64_div_fixup [OF Z R(2) q31 Q _ rm _ B64, of B32 b4w, folded f_def, folded d_def] corr(2,3)
    by (simp add: Bd b32 bw Z q_def)
  show "unat (f64_div_quot SA SB) div 512 = A * 2 ^ 63 div (B * 512)"
    and "unat (f64_div_quot SA SB) mod 512 = 0 \<longleftrightarrow> A * 2 ^ 63 mod (B * 512) = 0"
    using corr(1) unfolding uZ by (simp_all add: q_def)
qed

lemma f64_div_sigs_result:
  fixes SA SB :: u64
  assumes A: "2 ^ 52 \<le> unat SA" "unat SA < 2 ^ 53" and B: "2 ^ 52 \<le> unat SB" "unat SB < 2 ^ 53"
    and e: "- 5000 < e" "e < 5000"
    and val: "(of_nat N / of_nat D :: rat) = of_nat (unat SA) / of_nat (unat SB) * 2 powi (e + 52)" and D: "0 < D"
  shows "f64_div_sigs s e SA SB st = fp_result 53 11 st s N D"
proof -
  define k :: nat where "k = (if SA < SB then 11 else 10)"
  define e' where "e' = (if SA < SB then e - 1 else e)"
  have code: "f64_div_sigs s e SA SB st =
      softfloat_roundPackToF64 s e' (f64_div_quot (push_bit k SA) (push_bit 11 SB)) st"
    by (simp add: f64_div_sigs_def Let_def k_def e'_def)
  have uA: "unat (push_bit k SA) = unat SA * 2 ^ k" using A by (intro unat_push_small) (simp add: k_def)
  have uB: "unat (push_bit 11 SB) = unat SB * 2 ^ 11" using B by (intro unat_push_small) simp
  let ?A = "unat SA * 2 ^ k" and ?B = "unat SB * 2 ^ 11"
  have lt: "?A < ?B" "?B \<le> 2 * ?A"
    using A B by (auto simp: k_def word_less_nat_alt)
  have B0: "0 < ?B" "2 ^ 63 \<le> ?B" "16 dvd ?B" using B dvd_mult [of 16 "2 ^ 11" "unat SB"] by simp_all
  define Z where "Z = f64_div_quot (push_bit k SA) (push_bit 11 SB)"
  note q = f64_div_quot_correct [of "push_bit 11 SB" "push_bit k SA", unfolded uA uB, OF B0(2,3) lt, folded Z_def]
  have M: "2 ^ 62 * ?B \<le> ?A * 2 ^ 63" "?A * 2 ^ 63 < 2 ^ 63 * ?B" using lt by simp_all
  have "2 ^ 53 \<le> ?A * 2 ^ 63 div (?B * 512)" "?A * 2 ^ 63 div (?B * 512) < 2 ^ 54"
    using M B0(1) by (simp_all add: less_eq_div_iff_mult_less_eq div_less_iff_less_mult)
  then have Zb: "2 ^ 62 \<le> unat Z" "unat Z < 2 ^ 63" unfolding q(1) [symmetric] by simp_all
  have "softfloat_roundPackToF64 s e' Z st = fp_scaled 53 11 10 st s (unat Z) e'"
    by (rule roundPackToF64_scaled [OF Zb]) (use e in \<open>auto simp: e'_def\<close>)
  also have "\<dots> = fp_result 53 11 st s N D"
  proof -
    have "(of_nat N / of_nat D :: rat) = of_nat (?A * 2 ^ 63) / of_nat ?B * 2 powi (e' - int (8 + 2))"
      unfolding val k_def e'_def by (simp add: power_int_diff power_int_add field_simps)
    then have "fp_scaled 53 11 (8 + 2) st s (unat Z) e' = fp_result 53 11 st s N D"
      using M B0(1) D q by (intro fp_scaled_estimate [where D = ?B and N = "?A * 2 ^ 63"]) simp_all
    then show ?thesis by simp
  qed
  finally show ?thesis unfolding code Z_def .
qed

lemma f64_div_result: "f64_div a b st = fp_div_spec 53 11 (unat a) (unat b) st"
proof -
  define A B where "A = (a :: u64)" and "B = (b :: u64)"
  have u: "unat a = unat A" "unat b = unat B" by (simp_all add: A_def B_def)
  have l: "unat A < 2 ^ (11 + 53)" "unat B < 2 ^ (11 + 53)"
    using unat_less_64 [of a] unat_less_64 [of b] unfolding u by simp_all
  note cls = f64.classify [of A, simplified] f64.classify [of B, simplified]
  note defs = f64_div_def fp_div_spec_def u A_def [symmetric] B_def [symmetric]
    f64.neg_sign [OF l(1)] f64.neg_sign [OF l(2)]
  consider "expF64UI A = 2047 \<or> expF64UI B = 2047"
    | "expF64UI A \<noteq> 2047" "expF64UI B \<noteq> 2047" "fp_mag 53 11 (unat B) = 0"
    | "expF64UI A \<noteq> 2047" "expF64UI B \<noteq> 2047" "fp_mag 53 11 (unat B) \<noteq> 0" "fp_mag 53 11 (unat A) = 0"
    | "expF64UI A \<noteq> 2047" "expF64UI B \<noteq> 2047" "fp_mag 53 11 (unat A) \<noteq> 0" "fp_mag 53 11 (unat B) \<noteq> 0"
    by blast
  then show ?thesis
  proof cases
    case 1
    then show ?thesis
      unfolding defs
      by (cases "expF64UI A = 2047"; cases "expF64UI B = 2047")
        (simp_all add: Let_def cls special_F64 propagate_F64 fp_invalid_def)
  next
    case 2
    then have "expF64UI B = 0" "fracF64UI B = 0" by (auto simp: f64.mag_zero)
    then show ?thesis
      unfolding defs using 2 cls
      by (simp add: Let_def special_F64 fp_invalid_def magbits_F64)
  next
    case 3
    have z: "expF64UI A = 0" "fracF64UI A = 0" using 3(4) by (auto simp: f64.mag_zero)
    have nz: "\<not> (expF64UI B = 0 \<and> fracF64UI B = 0)" using 3(3) by (auto simp: f64.mag_zero)
    have "0 < fp_mag 53 11 (unat B)" using 3 by simp
    then have "(fp_div_spec 53 11 (unat A) (unat B) st :: u64 \<times> _) = (fp_zero 53 11 (signF64UI A \<noteq> signF64UI B), st)"
      unfolding defs using 3 cls by (simp add: Let_def fp_result_zero)
    then show ?thesis
      unfolding defs(1,3-) using 3(1,2) z nz
      by (auto simp: Let_def special_F64 split: prod.split)
  next
    case 4
    obtain eA sA where A: "(if expF64UI A = 0 then softfloat_normSubnormalF64Sig (fracF64UI A)
        else (expF64UI A, fracF64UI A)) = (eA, sA)"
      "2 ^ 52 \<le> unat (sA OR 0x0010000000000000)" "unat (sA OR 0x0010000000000000) < 2 ^ 53" "- 52 < eA" "eA < 0x7FF"
      "(of_nat (fp_mag 53 11 (unat A)) :: rat) = of_nat (unat (sA OR 0x0010000000000000)) * 2 powi (eA - 1)"
      using norm_operand_F64 [of A] 4 by (metis f64.mag_zero)
    obtain eB sB where B: "(if expF64UI B = 0 then softfloat_normSubnormalF64Sig (fracF64UI B)
        else (expF64UI B, fracF64UI B)) = (eB, sB)"
      "2 ^ 52 \<le> unat (sB OR 0x0010000000000000)" "unat (sB OR 0x0010000000000000) < 2 ^ 53" "- 52 < eB" "eB < 0x7FF"
      "(of_nat (fp_mag 53 11 (unat B)) :: rat) = of_nat (unat (sB OR 0x0010000000000000)) * 2 powi (eB - 1)"
      using norm_operand_F64 [of B] 4 by (metis f64.mag_zero)
    have val: "(of_nat (fp_mag 53 11 (unat A) * 2 ^ 1074) / of_nat (fp_mag 53 11 (unat B)) :: rat) =
        of_nat (unat (sA OR 0x0010000000000000)) / of_nat (unat (sB OR 0x0010000000000000)) * 2 powi (eA - eB + 0x3FE + 52)"
      unfolding of_nat_mult A(6) B(6) by (simp add: power_int_diff power_int_add)
    have "fp_div_spec 53 11 (unat A) (unat B) st =
      fp_result 53 11 st (signF64UI A \<noteq> signF64UI B) (fp_mag 53 11 (unat A) * 2 ^ 1074) (fp_mag 53 11 (unat B))"
      unfolding defs using 4 cls by simp
    also have "\<dots> = f64_div_sigs (signF64UI A \<noteq> signF64UI B) (eA - eB + 0x3FE) (sA OR 0x0010000000000000) (sB OR 0x0010000000000000) st"
      by (rule f64_div_sigs_result [OF A(2,3) B(2,3) _ _ val, symmetric]) (use A(4,5) B(4,5) 4(4) in simp_all)
    also have "\<dots> = f64_div a b st"
      using 4(1,2) 4(3,4) [unfolded f64.mag_zero]
      unfolding f64_div_def Let_def A_def [symmetric] B_def [symmetric] A(1) B(1)
      by (simp only: if_False case_prod_conv simp_thms)
    finally show ?thesis by (simp add: u)
  qed
qed

subsection \<open>Properties\<close>

text \<open>C2.  Division returns, for all operands and modes, the correctly rounded quotient of finite
  operands with its flags, an exact infinity with the divide-by-zero flag for a nonzero dividend
  over zero, and the default NaN with invalid for zero over zero and infinity over infinity.  The
  64-bit quotient is estimated in two steps from a 32-bit reciprocal and corrected by the sign of
  the remainder only near a rounding boundary.\<close>

theorem div_correct:
  "f32_div a b st = fp_div_spec 24 8 (unat a) (unat b) st \<and>
   f64_div c d st = fp_div_spec 53 11 (unat c) (unat d) st"
  by (simp only: f32_div_result f64_div_result simp_thms)

end
