(* ===== verification/SF_FromInt.thy ===== *)
theory SF_FromInt
  imports SF_RoundPack
begin

text \<open>
  Conversions from integers (\<open>i32_to_f32.c\<close>, \<open>ui32_to_f32.c\<close>, \<open>i64_to_f32.c\<close>, \<open>ui64_to_f32.c\<close> and
  the four files for 64-bit results).  A signed argument is the word of its C type, read by
  \<open>sint\<close>; the cast to an unsigned 64-bit type sign-extends it.  Each conversion is shown to return
  the correctly rounded value of its argument.
\<close>

subsection \<open>Definitions\<close>

definition i32_to_f32 :: "u32 \<Rightarrow> sf_state \<Rightarrow> u32 \<times> sf_state" where
  "i32_to_f32 a st =
     (let sign = (sint a < 0)
      in if a AND 0x7FFFFFFF = 0
         then (if sign then ucast (packToF32UI True 0x9E 0) else 0, st)
         else (let absA = (if sign then - (scast a :: u64) else scast a)
               in softfloat_normRoundPackToF32 sign 0x9C absA st))"

definition ui32_to_f32 :: "u32 \<Rightarrow> sf_state \<Rightarrow> u32 \<times> sf_state" where
  "ui32_to_f32 a st =
     (if a = 0 then (0, st)
      else if a AND 0x80000000 \<noteq> 0
      then softfloat_roundPackToF32 False 0x9D (ucast (drop_bit 1 a OR (a AND 1))) st
      else softfloat_normRoundPackToF32 False 0x9C (ucast a) st)"

definition abs64_to_f32 :: "bool \<Rightarrow> u64 \<Rightarrow> sf_state \<Rightarrow> u32 \<times> sf_state" where
  "abs64_to_f32 sign absA st =
     (let shiftCount = uint (softfloat_countLeadingZeros64 absA) - 40
      in if 0 \<le> shiftCount
         then (if absA \<noteq> 0
               then ucast (packToF32UI sign (0x95 - shiftCount) (push_bit (nat shiftCount) absA))
               else 0, st)
         else (let shiftCount = shiftCount + 7;
                   sig = (if shiftCount < 0
                          then softfloat_shortShiftRightJam64 absA (word_of_int (- shiftCount))
                          else push_bit (nat shiftCount) absA)
               in softfloat_roundPackToF32 sign (0x9C - shiftCount) sig st))"

definition i64_to_f32 :: "u64 \<Rightarrow> sf_state \<Rightarrow> u32 \<times> sf_state" where
  "i64_to_f32 a st =
     (let sign = (sint a < 0); absA = (if sign then - a else a)
      in abs64_to_f32 sign absA st)"

definition ui64_to_f32 :: "u64 \<Rightarrow> sf_state \<Rightarrow> u32 \<times> sf_state" where
  "ui64_to_f32 a st = abs64_to_f32 False a st"

definition i32_to_f64 :: "u32 \<Rightarrow> sf_state \<Rightarrow> u64 \<times> sf_state" where
  "i32_to_f64 a st =
     (if a = 0 then (0, st)
      else (let sign = (sint a < 0);
                absA = (if sign then - (scast a :: u64) else scast a);
                shiftCount = uint (softfloat_countLeadingZeros32 (ucast absA)) + 21
            in (packToF64UI sign (0x432 - shiftCount) (push_bit (nat shiftCount) absA), st)))"

definition ui32_to_f64 :: "u32 \<Rightarrow> sf_state \<Rightarrow> u64 \<times> sf_state" where
  "ui32_to_f64 a st =
     (if a = 0 then (0, st)
      else (let shiftCount = uint (softfloat_countLeadingZeros32 a) + 21
            in (packToF64UI False (0x432 - shiftCount) (push_bit (nat shiftCount) (ucast a)), st)))"

definition i64_to_f64 :: "u64 \<Rightarrow> sf_state \<Rightarrow> u64 \<times> sf_state" where
  "i64_to_f64 a st =
     (let sign = (sint a < 0)
      in if a AND 0x7FFFFFFFFFFFFFFF = 0
         then (if sign then packToF64UI True 0x43E 0 else 0, st)
         else (let absA = (if sign then - a else a)
               in softfloat_normRoundPackToF64 sign 0x43C absA st))"

definition ui64_to_f64 :: "u64 \<Rightarrow> sf_state \<Rightarrow> u64 \<times> sf_state" where
  "ui64_to_f64 a st =
     (if a = 0 then (0, st)
      else if a AND 0x8000000000000000 \<noteq> 0
      then softfloat_roundPackToF64 False 0x43D (softfloat_shortShiftRightJam64 a 1) st
      else softfloat_normRoundPackToF64 False 0x43C a st)"

subsection \<open>Magnitudes of signed words\<close>

lemma and_top_bit_31: "(a :: u32) AND 0x80000000 \<noteq> 0 \<longleftrightarrow> 2 ^ 31 \<le> unat a"
proof -
  have "a AND 0x80000000 \<noteq> 0 \<longleftrightarrow> bit a 31"
    using and_exp_eq_0_iff_not_bit [of a 31] by simp
  also have "\<dots> \<longleftrightarrow> sint a < 0" using bit_last_iff [of a] by simp
  also have "\<dots> \<longleftrightarrow> 2 ^ 31 \<le> unat a" by (rule sint_neg_iff) simp
  finally show ?thesis .
qed

lemma and_top_bit_63: "(a :: u64) AND 0x8000000000000000 \<noteq> 0 \<longleftrightarrow> 2 ^ 63 \<le> unat a"
proof -
  have "a AND 0x8000000000000000 \<noteq> 0 \<longleftrightarrow> bit a 63"
    using and_exp_eq_0_iff_not_bit [of a 63] by simp
  also have "\<dots> \<longleftrightarrow> sint a < 0" using bit_last_iff [of a] by simp
  also have "\<dots> \<longleftrightarrow> 2 ^ 63 \<le> unat a" by (rule sint_neg_iff) simp
  finally show ?thesis .
qed

lemma low_bits_zero_32:
  "(a :: u32) AND 0x7FFFFFFF = 0 \<longleftrightarrow> a = 0 \<or> sint a = - (2 ^ 31)"
  "a AND 0x7FFFFFFF \<noteq> 0 \<Longrightarrow> \<bar>sint a\<bar> < 2 ^ 31"
proof -
  have "a AND 0x7FFFFFFF = 0 \<longleftrightarrow> unat a mod 2 ^ 31 = 0"
    using unat_and_mask [of a 31] by (simp add: mask_eq_exp_minus_1 word_unat_eq_iff)
  also have "\<dots> \<longleftrightarrow> unat a = 0 \<or> unat a = 2 ^ 31"
    using unat_less_32 [of a] by (auto simp: dvd_def mod_eq_0_iff_dvd)
  finally show z: "a AND 0x7FFFFFFF = 0 \<longleftrightarrow> a = 0 \<or> sint a = - (2 ^ 31)"
    unfolding unat_eq_0 [symmetric] by (cases a rule: sint_of_unat_32) auto
  show "\<bar>sint a\<bar> < 2 ^ 31" if "a AND 0x7FFFFFFF \<noteq> 0"
    using that sint_ge [of a] sint_less [of a] unfolding z by (simp add: abs_less_iff)
qed

lemma low_bits_zero_64:
  "(a :: u64) AND 0x7FFFFFFFFFFFFFFF = 0 \<longleftrightarrow> a = 0 \<or> sint a = - (2 ^ 63)"
  "a AND 0x7FFFFFFFFFFFFFFF \<noteq> 0 \<Longrightarrow> \<bar>sint a\<bar> < 2 ^ 63"
proof -
  have "a AND 0x7FFFFFFFFFFFFFFF = 0 \<longleftrightarrow> unat a mod 2 ^ 63 = 0"
    using unat_and_mask [of a 63] by (simp add: mask_eq_exp_minus_1 word_unat_eq_iff)
  also have "\<dots> \<longleftrightarrow> unat a = 0 \<or> unat a = 2 ^ 63"
    using unat_less_64 [of a] by (auto simp: dvd_def mod_eq_0_iff_dvd)
  finally show z: "a AND 0x7FFFFFFFFFFFFFFF = 0 \<longleftrightarrow> a = 0 \<or> sint a = - (2 ^ 63)"
    unfolding unat_eq_0 [symmetric] by (cases a rule: sint_of_unat_64) auto
  show "\<bar>sint a\<bar> < 2 ^ 63" if "a AND 0x7FFFFFFFFFFFFFFF \<noteq> 0"
    using that sint_ge [of a] sint_less [of a] unfolding z by (simp add: abs_less_iff)
qed

subsection \<open>Correct rounding\<close>

text \<open>The reference: the rational value of an integer is its magnitude over one.\<close>

abbreviation int_F32 :: "sf_state \<Rightarrow> bool \<Rightarrow> nat \<Rightarrow> u32 \<times> sf_state" where
  "int_F32 st s n \<equiv> fp_result 24 8 st s (n * 2 ^ 149) 1"

abbreviation int_F64 :: "sf_state \<Rightarrow> bool \<Rightarrow> nat \<Rightarrow> u64 \<times> sf_state" where
  "int_F64 st s n \<equiv> fp_result 53 11 st s (n * 2 ^ 1074) 1"

lemma int_zero: "int_F32 st False 0 = (0, st)" "int_F64 st False 0 = (0, st)"
  by (simp_all add: fp_result_zero fp_zero_def)

lemma pack_int_F32:
  assumes "n * 2 ^ k = R" "2 ^ 23 \<le> R" "R < 2 ^ 24" "k \<le> 149" "unat sig = R"
  shows "(ucast (packToF32UI s (0x95 - int k) sig), st) = int_F32 st s n"
proof -
  have e: "0x95 - int k = int (149 - k)" using assms(4) by simp
  have "int_F32 st s n = fp_scaled 24 8 7 st s (R * 2 ^ 7) (int (149 - k))"
  proof (rule fp_scaled_eq_result [symmetric])
    have "(of_nat (R * 2 ^ 7) :: rat) * 2 powi (int (149 - k) - int 7) = of_nat n * 2 ^ k * 2 powi (149 - int k)"
      unfolding assms(1) [symmetric] e [symmetric] by (simp add: power_int_diff field_simps)
    also have "\<dots> = of_nat n * 2 ^ 149" by (simp add: power_int_diff)
    finally show "(of_nat (n * 2 ^ 149) / of_nat 1 :: rat) = of_nat (R * 2 ^ 7) * 2 powi (int (149 - k) - int 7)"
      by simp
  qed simp
  also have "\<dots> = (of_nat (of_bool s * 2 ^ (8 + 24 - 1) + ((149 - k) * 2 ^ (24 - 1) + R)), st)"
    by (rule fp_scaled_exact) (use assms in simp_all)
  finally show ?thesis unfolding e packToF32UI_nat assms(5)
    by (simp add: add.assoc del: of_nat_add of_nat_mult)
qed

lemma pack_int_F64:
  assumes "n * 2 ^ k = R" "2 ^ 52 \<le> R" "R < 2 ^ 53" "k \<le> 1074" "unat sig = R"
  shows "(packToF64UI s (0x432 - int k) sig, st) = int_F64 st s n"
proof -
  have e: "0x432 - int k = int (1074 - k)" using assms(4) by simp
  have "int_F64 st s n = fp_scaled 53 11 10 st s (R * 2 ^ 10) (int (1074 - k))"
  proof (rule fp_scaled_eq_result [symmetric])
    have "(of_nat (R * 2 ^ 10) :: rat) * 2 powi (int (1074 - k) - int 10) = of_nat n * 2 ^ k * 2 powi (1074 - int k)"
      unfolding assms(1) [symmetric] e [symmetric] by (simp add: power_int_diff field_simps)
    also have "\<dots> = of_nat n * 2 ^ 1074" by (simp add: power_int_diff)
    finally show "(of_nat (n * 2 ^ 1074) / of_nat 1 :: rat) = of_nat (R * 2 ^ 10) * 2 powi (int (1074 - k) - int 10)"
      by simp
  qed simp
  also have "\<dots> = (of_nat (of_bool s * 2 ^ (11 + 53 - 1) + ((1074 - k) * 2 ^ (53 - 1) + R)), st)"
    by (rule fp_scaled_exact) (use assms in simp_all)
  finally show ?thesis unfolding e packToF64UI_nat assms(5)
    by (simp add: add.assoc del: of_nat_add of_nat_mult)
qed

lemma norm_int_F32: "0 < unat n \<Longrightarrow> unat n < 2 ^ 31 \<Longrightarrow> softfloat_normRoundPackToF32 s 0x9C n st = int_F32 st s (unat n)"
  by (subst normRoundPackToF32_scaled) (simp_all add: fp_scaled_eq_result)

lemma norm_int_F64: "0 < unat n \<Longrightarrow> unat n < 2 ^ 63 \<Longrightarrow> softfloat_normRoundPackToF64 s 0x43C n st = int_F64 st s (unat n)"
  by (subst normRoundPackToF64_scaled) (simp_all add: fp_scaled_eq_result)

lemma jammed_int_F32:
  assumes "unat sig = sticky n (2 ^ k)" "2 ^ 30 \<le> unat sig" "unat sig < 2 ^ 31" "k < 2 ^ 8"
  shows "softfloat_roundPackToF32 s (0x9C + int k) sig st = int_F32 st s n"
proof -
  have "softfloat_roundPackToF32 s (0x9C + int k) sig st = fp_scaled 24 8 7 st s (sticky n (2 ^ k)) (0x9C + int k)"
    using roundPackToF32_scaled [OF assms(2,3), of "0x9C + int k"] assms(1,4) by simp
  also have "\<dots> = int_F32 st s n"
  proof (rule fp_scaled_sticky_eq)
    show "(of_nat (n * 2 ^ 149) / of_nat 1 :: rat) = of_nat n / of_nat (2 ^ k) * 2 powi (0x9C + int k - int 7)"
      by (simp add: power_int_diff power_int_add)
  qed (use assms in simp_all)
  finally show ?thesis .
qed

lemma least_int_F32: "(ucast (packToF32UI True 0x9E 0), st) = int_F32 st True (2 ^ 31)"
proof -
  have "int_F32 st True (2 ^ 31) = fp_scaled 24 8 7 st True (2 ^ 23 * 2 ^ 7) (int 157)"
    by (rule fp_scaled_eq_result [symmetric]) (simp_all add: power_int_def)
  also have "\<dots> = (of_nat (of_bool True * 2 ^ (8 + 24 - 1) + (157 * 2 ^ (24 - 1) + 2 ^ 23)), st)"
    by (rule fp_scaled_exact) simp_all
  finally show ?thesis using packToF32UI_nat [of True 158 0] by simp
qed

lemma least_int_F64: "(packToF64UI True 0x43E 0, st) = int_F64 st True (2 ^ 63)"
proof -
  have "int_F64 st True (2 ^ 63) = fp_scaled 53 11 10 st True (2 ^ 52 * 2 ^ 10) (int 1085)"
    by (rule fp_scaled_eq_result [symmetric]) (simp_all add: power_int_def)
  also have "\<dots> = (of_nat (of_bool True * 2 ^ (11 + 53 - 1) + (1085 * 2 ^ (53 - 1) + 2 ^ 52)), st)"
    by (rule fp_scaled_exact) simp_all
  finally show ?thesis using packToF64UI_nat [of True 1086 0] by simp
qed

lemma i32_to_f32_result: "i32_to_f32 a st = int_F32 st (sint a < 0) (nat \<bar>sint a\<bar>)"
proof (cases "a AND 0x7FFFFFFF = 0")
  case True
  show ?thesis using True True [unfolded low_bits_zero_32] least_int_F32 int_zero
    by (auto simp: i32_to_f32_def Let_def)
next
  case False
  let ?n = "if sint a < 0 then - (scast a :: u64) else scast a"
  have n: "unat ?n = nat \<bar>sint a\<bar>" by (rule abs_u32_u64)
  have "0 < unat ?n" "unat ?n < 2 ^ 31" unfolding n using False low_bits_zero_32 [of a] by (auto simp: signed_eq_0_iff)
  then have "softfloat_normRoundPackToF32 (sint a < 0) 0x9C ?n st = int_F32 st (sint a < 0) (unat ?n)"
    by (rule norm_int_F32)
  then show ?thesis unfolding n using False by (simp only: i32_to_f32_def Let_def if_False)
qed

lemma i64_to_f64_result: "i64_to_f64 a st = int_F64 st (sint a < 0) (nat \<bar>sint a\<bar>)"
proof (cases "a AND 0x7FFFFFFFFFFFFFFF = 0")
  case True
  show ?thesis using True True [unfolded low_bits_zero_64] least_int_F64 int_zero
    by (auto simp: i64_to_f64_def Let_def)
next
  case False
  let ?n = "if sint a < 0 then - a else a"
  have n: "unat ?n = nat \<bar>sint a\<bar>" by (rule abs_u64)
  have "0 < unat ?n" "unat ?n < 2 ^ 63" unfolding n using False low_bits_zero_64 [of a] by (auto simp: signed_eq_0_iff)
  then have "softfloat_normRoundPackToF64 (sint a < 0) 0x43C ?n st = int_F64 st (sint a < 0) (unat ?n)"
    by (rule norm_int_F64)
  then show ?thesis unfolding n using False by (simp only: i64_to_f64_def Let_def if_False)
qed

lemma ui32_to_f32_result: "ui32_to_f32 a st = int_F32 st False (unat a)"
proof -
  consider "a = 0" | "a \<noteq> 0" "unat a < 2 ^ 31" | "2 ^ 31 \<le> unat a" by linarith
  then show ?thesis
  proof cases
    case 1
    then show ?thesis using int_zero by (simp add: ui32_to_f32_def)
  next
    case 2
    then show ?thesis using norm_int_F32 [of "ucast a"] and_top_bit_31 [of a]
      by (simp add: ui32_to_f32_def unat_gt_0)
  next
    case 3
    let ?j = "ucast (drop_bit 1 a OR (a AND 1)) :: u64"
    have "unat (a AND 1) = unat a mod 2" using unat_and_mask [of a 1] by (simp add: mask_eq_exp_minus_1)
    then have "a AND 1 = of_bool (odd (unat a))" by (simp add: word_unat_eq_iff mod_2_eq_odd)
    then have j: "unat ?j = sticky (unat a) (2 ^ 1)"
      by (auto simp: unat_or_of_bool unat_drop sticky_def odd_iff_mod_2_eq_one)
    moreover have "2 ^ 30 \<le> unat ?j" "unat ?j < 2 ^ 31"
      using sticky_normal [of 29 1 "unat a"] 3 unat_less_32 [of a] unfolding j by simp_all
    ultimately have "softfloat_roundPackToF32 False (0x9C + int 1) ?j st = int_F32 st False (unat a)"
      by (rule jammed_int_F32) simp
    then show ?thesis using 3 and_top_bit_31 [of a] by (auto simp: ui32_to_f32_def)
  qed
qed

lemma ui64_to_f64_result: "ui64_to_f64 a st = int_F64 st False (unat a)"
proof -
  consider "a = 0" | "a \<noteq> 0" "unat a < 2 ^ 63" | "2 ^ 63 \<le> unat a" by linarith
  then show ?thesis
  proof cases
    case 1
    then show ?thesis using int_zero by (simp add: ui64_to_f64_def)
  next
    case 2
    then show ?thesis using norm_int_F64 [of a] and_top_bit_63 [of a]
      by (simp add: ui64_to_f64_def unat_gt_0)
  next
    case 3
    let ?j = "softfloat_shortShiftRightJam64 a 1"
    have j: "unat ?j = sticky (unat a) (2 ^ 1)" using shortjam64.jam_sticky_law [of 1 a] by simp
    have b: "2 ^ 62 \<le> unat ?j" "unat ?j < 2 ^ 63"
      using sticky_normal [of 61 1 "unat a"] 3 unat_less_64 [of a] unfolding j by simp_all
    have "softfloat_roundPackToF64 False 0x43D ?j st = fp_scaled 53 11 10 st False (sticky (unat a) (2 ^ 1)) 0x43D"
      using roundPackToF64_scaled [OF b, of "0x43D"] j by simp
    also have "\<dots> = int_F64 st False (unat a)"
      by (rule fp_scaled_sticky_eq) (use b in \<open>simp_all add: j power_int_def\<close>)
    finally show ?thesis using 3 and_top_bit_63 [of a] by (auto simp: ui64_to_f64_def)
  qed
qed

lemma clz_window:
  fixes n k :: nat
  assumes "2 ^ m \<le> n * 2 ^ k" "n * 2 ^ k < 2 ^ Suc m" "j \<le> k" "j \<le> m"
  shows "2 ^ (m - j) \<le> n * 2 ^ (k - j)" "n * 2 ^ (k - j) < 2 ^ Suc (m - j)"
proof -
  have k: "(2::nat) ^ k = 2 ^ (k - j) * 2 ^ j" and m: "(2::nat) ^ m = 2 ^ (m - j) * 2 ^ j"
    using assms(3,4) by (simp_all flip: power_add)
  show "2 ^ (m - j) \<le> n * 2 ^ (k - j)" using assms(1) unfolding k m by (simp flip: mult.assoc)
  show "n * 2 ^ (k - j) < 2 ^ Suc (m - j)" using assms(2) unfolding k power_Suc m by (simp flip: mult.assoc)
qed

lemma ui32_to_f64_result: "ui32_to_f64 a st = int_F64 st False (unat a)"
proof (cases "a = 0")
  case False
  let ?c = "unat (softfloat_countLeadingZeros32 a)"
  note b = countLeadingZeros32_bounds [OF False]
  have R: "2 ^ 52 \<le> unat a * 2 ^ (?c + 21)" "unat a * 2 ^ (?c + 21) < 2 ^ 53"
    using b(1,2) by (simp_all add: power_add)
  have p: "unat (push_bit (?c + 21) (ucast a :: u64)) = unat a * 2 ^ (?c + 21)"
    using R by (subst unat_push_small) simp_all
  have "(packToF64UI False (0x432 - int (?c + 21)) (push_bit (?c + 21) (ucast a)), st) = int_F64 st False (unat a)"
    by (rule pack_int_F64 [OF refl R _ p]) (use b(3) in simp)
  moreover have "uint (softfloat_countLeadingZeros32 a) + 21 = int (?c + 21)" by simp
  ultimately show ?thesis using False by (simp only: ui32_to_f64_def Let_def if_False nat_int)
qed (use int_zero(2) in \<open>simp add: ui32_to_f64_def\<close>)

lemma i32_to_f64_packed:
  assumes "a \<noteq> 0"
  obtains k sig where "i32_to_f64 a st = (packToF64UI (sint a < 0) (0x432 - int k) sig, st)"
    "unat sig = nat \<bar>sint a\<bar> * 2 ^ k" "2 ^ 52 \<le> nat \<bar>sint a\<bar> * 2 ^ k" "nat \<bar>sint a\<bar> * 2 ^ k < 2 ^ 53" "k \<le> 53"
proof -
  define n :: u64 where "n = (if sint a < 0 then - (scast a :: u64) else scast a)"
  have n: "unat n = nat \<bar>sint a\<bar>" unfolding n_def by (rule abs_u32_u64)
  have "\<bar>sint a\<bar> \<le> 2 ^ 31" using sint_ge [of a] sint_less [of a] by (simp add: abs_le_iff)
  then have u: "unat (ucast n :: u32) = unat n" unfolding unat_ucast n by simp
  have "0 < nat \<bar>sint a\<bar>" using assms by (simp add: signed_eq_0_iff)
  then have "(ucast n :: u32) \<noteq> 0" unfolding n [symmetric] u [symmetric] by auto
  note b = countLeadingZeros32_bounds [OF this, unfolded u]
  let ?c = "unat (softfloat_countLeadingZeros32 (ucast n))"
  have R: "2 ^ 52 \<le> unat n * 2 ^ (?c + 21)" "unat n * 2 ^ (?c + 21) < 2 ^ 53"
    using b(1,2) by (simp_all add: power_add)
  have p: "unat (push_bit (?c + 21) n) = unat n * 2 ^ (?c + 21)"
    using R by (subst unat_push_small) simp_all
  have "uint (softfloat_countLeadingZeros32 (ucast n)) + 21 = int (?c + 21)" by simp
  then have code: "i32_to_f64 a st = (packToF64UI (sint a < 0) (0x432 - int (?c + 21)) (push_bit (?c + 21) n), st)"
    using assms by (simp only: i32_to_f64_def Let_def if_False nat_int n_def [symmetric])
  have "?c + 21 \<le> 53" using b(3) by linarith
  then show thesis by (rule that [OF code p [unfolded n] R [unfolded n]])
qed

lemma i32_to_f64_result: "i32_to_f64 a st = int_F64 st (sint a < 0) (nat \<bar>sint a\<bar>)"
proof (cases "a = 0")
  case False
  obtain k sig where k: "i32_to_f64 a st = (packToF64UI (sint a < 0) (0x432 - int k) sig, st)"
    "unat sig = nat \<bar>sint a\<bar> * 2 ^ k" "2 ^ 52 \<le> nat \<bar>sint a\<bar> * 2 ^ k" "nat \<bar>sint a\<bar> * 2 ^ k < 2 ^ 53" "k \<le> 53"
    using False by (rule i32_to_f64_packed)
  show ?thesis unfolding k(1) by (rule pack_int_F64 [OF refl k(3,4) _ k(2)]) (use k(5) in simp)
qed (use int_zero(2) in \<open>simp add: i32_to_f64_def\<close>)

lemma abs64_to_f32_result:
  assumes "n = 0 \<Longrightarrow> \<not> s"
  shows "abs64_to_f32 s n st = int_F32 st s (unat n)"
proof (cases "n = 0")
  case True
  have "softfloat_countLeadingZeros64 0 = 64" by code_simp
  then show ?thesis using True assms int_zero by (simp add: abs64_to_f32_def)
next
  case False
  define c where "c = unat (softfloat_countLeadingZeros64 n)"
  have uc: "uint (softfloat_countLeadingZeros64 n) = int c" by (simp add: c_def)
  note b = countLeadingZeros64_bounds [OF False, folded c_def]
  consider "40 \<le> c" | "33 \<le> c" "c < 40" | "c < 33" by linarith
  then show ?thesis
  proof cases
    case 1
    have R: "2 ^ 23 \<le> unat n * 2 ^ (c - 40)" "unat n * 2 ^ (c - 40) < 2 ^ 24"
      using clz_window [of 63 "unat n" c 40] b 1 by simp_all
    have p: "unat (push_bit (c - 40) n) = unat n * 2 ^ (c - 40)" using R by (intro unat_push_small) simp
    have "(ucast (packToF32UI s (0x95 - int (c - 40)) (push_bit (c - 40) n)), st) = int_F32 st s (unat n)"
      by (rule pack_int_F32 [OF refl R _ p]) (use b(3) in simp)
    moreover have "abs64_to_f32 s n st = (ucast (packToF32UI s (0x95 - int (c - 40)) (push_bit (c - 40) n)), st)"
      unfolding abs64_to_f32_def uc Let_def using False 1 by (simp add: nat_diff_distrib)
    ultimately show ?thesis by simp
  next
    case 2
    have R: "2 ^ 30 \<le> unat n * 2 ^ (c - 33)" "unat n * 2 ^ (c - 33) < 2 ^ 31"
      using clz_window [of 63 "unat n" c 33] b 2 by simp_all
    have p: "unat (push_bit (c - 33) n) = unat n * 2 ^ (c - 33)" using R by (intro unat_push_small) simp
    have "softfloat_roundPackToF32 s (0x9C - int (c - 33)) (push_bit (c - 33) n) st =
        fp_scaled 24 8 7 st s (unat n * 2 ^ (c - 33)) (0x9C - int (c - 33))"
      unfolding p [symmetric] by (rule roundPackToF32_scaled) (use R 2 in \<open>simp_all add: p\<close>)
    also have "\<dots> = int_F32 st s (unat n)" unfolding fp_scaled_shift by (simp add: fp_scaled_eq_result)
    finally have "softfloat_roundPackToF32 s (0x9C - int (c - 33)) (push_bit (c - 33) n) st = int_F32 st s (unat n)" .
    moreover have "abs64_to_f32 s n st = softfloat_roundPackToF32 s (0x9C - int (c - 33)) (push_bit (c - 33) n) st"
      unfolding abs64_to_f32_def uc Let_def using 2 by (simp add: nat_diff_distrib)
    ultimately show ?thesis by simp
  next
    case 3
    let ?k = "33 - c"
    have k: "unat (word_of_int (int ?k) :: u8) = ?k" by (simp add: unat_of_nat)
    let ?j = "softfloat_shortShiftRightJam64 n (word_of_int (int ?k))"
    have j: "unat ?j = sticky (unat n) (2 ^ ?k)"
      using shortjam64.jam_sticky_law [of "word_of_int (int ?k)" n] unfolding k by simp
    have "2 ^ (63 - c) \<le> unat n" "unat n < 2 ^ Suc (63 - c)"
      using clz_window [of 63 "unat n" c c] b 3 by simp_all
    moreover have "29 + ?k + 1 = 63 - c" "29 + ?k + 2 = Suc (63 - c)" using 3 by linarith+
    ultimately have "2 ^ 30 \<le> unat ?j" "unat ?j < 2 ^ 31"
      using sticky_normal [of 29 ?k "unat n"] unfolding j by simp_all
    then have "softfloat_roundPackToF32 s (0x9C + int ?k) ?j st = int_F32 st s (unat n)"
      by (rule jammed_int_F32 [OF j]) simp
    moreover have "abs64_to_f32 s n st = softfloat_roundPackToF32 s (0x9C + int ?k) ?j st"
      unfolding abs64_to_f32_def uc Let_def using 3 by simp
    ultimately show ?thesis by simp
  qed
qed

lemma i64_to_f32_result: "i64_to_f32 a st = int_F32 st (sint a < 0) (nat \<bar>sint a\<bar>)"
  unfolding i64_to_f32_def Let_def abs_u64 [symmetric] by (rule abs64_to_f32_result) (auto split: if_splits)

lemma ui64_to_f32_result: "ui64_to_f32 a st = int_F32 st False (unat a)"
  unfolding ui64_to_f32_def by (rule abs64_to_f32_result) simp

subsection \<open>Properties\<close>

text \<open>C19.  The eight conversions of integers to floating point return the correctly rounded value of
  their argument, signed or unsigned, the least signed values included, with the inexact flag
  exactly when the value is not representable.\<close>

theorem int_to_float_correct:
  "i32_to_f32 a st = fp_result 24 8 st (sint a < 0) (nat \<bar>sint a\<bar> * 2 ^ 149) 1 \<and>
   ui32_to_f32 a st = fp_result 24 8 st False (unat a * 2 ^ 149) 1 \<and>
   i64_to_f32 b st = fp_result 24 8 st (sint b < 0) (nat \<bar>sint b\<bar> * 2 ^ 149) 1 \<and>
   ui64_to_f32 b st = fp_result 24 8 st False (unat b * 2 ^ 149) 1 \<and>
   i32_to_f64 c st = fp_result 53 11 st (sint c < 0) (nat \<bar>sint c\<bar> * 2 ^ 1074) 1 \<and>
   ui32_to_f64 c st = fp_result 53 11 st False (unat c * 2 ^ 1074) 1 \<and>
   i64_to_f64 d st = fp_result 53 11 st (sint d < 0) (nat \<bar>sint d\<bar> * 2 ^ 1074) 1 \<and>
   ui64_to_f64 d st = fp_result 53 11 st False (unat d * 2 ^ 1074) 1"
  by (simp only: i32_to_f32_result ui32_to_f32_result i64_to_f32_result ui64_to_f32_result
    i32_to_f64_result ui32_to_f64_result i64_to_f64_result ui64_to_f64_result simp_thms)

end
