(* ===== verification/SF_ToInt.thy ===== *)
theory SF_ToInt
  imports SF_FromInt
begin

text \<open>
  Conversions to integers (\<open>s_roundPackToI32.c\<close>, \<open>s_roundPackToUI32.c\<close>, \<open>s_roundPackToI64.c\<close>,
  \<open>s_roundPackToUI64.c\<close>, the eight \<open>f*_to_*.c\<close> files with a rounding mode and the eight
  \<open>f*_to_*_r_minMag.c\<close> files that truncate).  Signed results are integers, unsigned results are words.
  Each function is shown to return the rounded value when it is in range and the saturated value
  with the invalid flag otherwise; the truncating functions agree with the general ones.
\<close>

subsection \<open>Definitions\<close>

definition ui32_fromPosOverflow :: u64 where "ui32_fromPosOverflow = 0xFFFFFFFF"
definition ui32_fromNegOverflow :: u64 where "ui32_fromNegOverflow = 0"
definition ui32_fromNaN :: u64 where "ui32_fromNaN = 0xFFFFFFFF"
definition i32_fromPosOverflow :: int where "i32_fromPosOverflow = 0x7FFFFFFF"
definition i32_fromNegOverflow :: int where "i32_fromNegOverflow = - 0x7FFFFFFF - 1"
definition i32_fromNaN :: int where "i32_fromNaN = 0x7FFFFFFF"
definition ui64_fromPosOverflow :: u64 where "ui64_fromPosOverflow = 0xFFFFFFFFFFFFFFFF"
definition ui64_fromNegOverflow :: u64 where "ui64_fromNegOverflow = 0"
definition ui64_fromNaN :: u64 where "ui64_fromNaN = 0xFFFFFFFFFFFFFFFF"
definition i64_fromPosOverflow :: int where "i64_fromPosOverflow = sint (0x7FFFFFFFFFFFFFFF :: u64)"
definition i64_fromNegOverflow :: int where "i64_fromNegOverflow = sint (- 0x7FFFFFFFFFFFFFFF - 1 :: u64)"
definition i64_fromNaN :: int where "i64_fromNaN = sint (0x7FFFFFFFFFFFFFFF :: u64)"

lemmas from_defs = ui32_fromPosOverflow_def ui32_fromNegOverflow_def ui32_fromNaN_def
  i32_fromPosOverflow_def i32_fromNegOverflow_def i32_fromNaN_def
  ui64_fromPosOverflow_def ui64_fromNegOverflow_def ui64_fromNaN_def
  i64_fromPosOverflow_def i64_fromNegOverflow_def i64_fromNaN_def

definition softfloat_roundPackToI32 :: "bool \<Rightarrow> u64 \<Rightarrow> u8 \<Rightarrow> bool \<Rightarrow> sf_state \<Rightarrow> int \<times> sf_state" where
  "softfloat_roundPackToI32 sign sig roundingMode exact st =
     (let roundNearEven = (roundingMode = softfloat_round_near_even);
          roundIncrement =
            (if roundingMode \<noteq> softfloat_round_near_even \<and> roundingMode \<noteq> softfloat_round_near_maxMag
             then if roundingMode = (if sign then softfloat_round_min else softfloat_round_max) then 0x7F else 0
             else 0x40) :: u8;
          roundBits = (ucast (sig AND 0x7F) :: u8);
          sig = sig + ucast roundIncrement;
          invalid = (if sign then i32_fromNegOverflow else i32_fromPosOverflow,
                     softfloat_raiseFlags softfloat_flag_invalid st)
      in if sig AND 0xFFFFFF8000000000 \<noteq> 0 then invalid
         else (let sig32 = drop_bit 7 sig AND NOT (of_bool (roundBits XOR 0x40 = 0 \<and> roundNearEven));
                   z = sint (ucast (if sign then - sig32 else sig32) :: u32)
               in if z \<noteq> 0 \<and> (z < 0) \<noteq> sign then invalid
                  else (z, if exact \<and> roundBits \<noteq> 0 then softfloat_raiseFlags softfloat_flag_inexact st else st)))"

definition softfloat_roundPackToUI32 :: "bool \<Rightarrow> u64 \<Rightarrow> u8 \<Rightarrow> bool \<Rightarrow> sf_state \<Rightarrow> u64 \<times> sf_state" where
  "softfloat_roundPackToUI32 sign sig roundingMode exact st =
     (let roundNearEven = (roundingMode = softfloat_round_near_even);
          roundIncrement =
            (if roundingMode \<noteq> softfloat_round_near_even \<and> roundingMode \<noteq> softfloat_round_near_maxMag
             then if roundingMode = (if sign then softfloat_round_min else softfloat_round_max) then 0x7F else 0
             else 0x40) :: u8;
          roundBits = (ucast (sig AND 0x7F) :: u8);
          sig = sig + ucast roundIncrement;
          invalid = (if sign then ui32_fromNegOverflow else ui32_fromPosOverflow,
                     softfloat_raiseFlags softfloat_flag_invalid st)
      in if sig AND 0xFFFFFF8000000000 \<noteq> 0 then invalid
         else (let z = drop_bit 7 sig AND NOT (of_bool (roundBits XOR 0x40 = 0 \<and> roundNearEven))
               in if sign \<and> z \<noteq> 0 then invalid
                  else (z, if exact \<and> roundBits \<noteq> 0 then softfloat_raiseFlags softfloat_flag_inexact st else st)))"

definition softfloat_roundPackToI64 :: "bool \<Rightarrow> u64 \<Rightarrow> u64 \<Rightarrow> u8 \<Rightarrow> bool \<Rightarrow> sf_state \<Rightarrow> int \<times> sf_state" where
  "softfloat_roundPackToI64 sign sig sigExtra roundingMode exact st =
     (let roundNearEven = (roundingMode = softfloat_round_near_even);
          doIncrement =
            (if roundingMode \<noteq> softfloat_round_near_even \<and> roundingMode \<noteq> softfloat_round_near_maxMag
             then roundingMode = (if sign then softfloat_round_min else softfloat_round_max) \<and> sigExtra \<noteq> 0
             else 0x8000000000000000 \<le> sigExtra);
          invalid = (if sign then i64_fromNegOverflow else i64_fromPosOverflow,
                     softfloat_raiseFlags softfloat_flag_invalid st)
      in if doIncrement \<and> sig + 1 = 0 then invalid
         else (let sig = (if doIncrement
                          then (sig + 1) AND NOT (of_bool (sigExtra AND 0x7FFFFFFFFFFFFFFF = 0 \<and> roundNearEven))
                          else sig);
                   z = sint (if sign then - sig else sig)
               in if z \<noteq> 0 \<and> (z < 0) \<noteq> sign then invalid
                  else (z, if exact \<and> sigExtra \<noteq> 0 then softfloat_raiseFlags softfloat_flag_inexact st else st)))"

definition softfloat_roundPackToUI64 :: "bool \<Rightarrow> u64 \<Rightarrow> u64 \<Rightarrow> u8 \<Rightarrow> bool \<Rightarrow> sf_state \<Rightarrow> u64 \<times> sf_state" where
  "softfloat_roundPackToUI64 sign sig sigExtra roundingMode exact st =
     (let roundNearEven = (roundingMode = softfloat_round_near_even);
          doIncrement =
            (if roundingMode \<noteq> softfloat_round_near_even \<and> roundingMode \<noteq> softfloat_round_near_maxMag
             then roundingMode = (if sign then softfloat_round_min else softfloat_round_max) \<and> sigExtra \<noteq> 0
             else 0x8000000000000000 \<le> sigExtra);
          invalid = (if sign then ui64_fromNegOverflow else ui64_fromPosOverflow,
                     softfloat_raiseFlags softfloat_flag_invalid st)
      in if doIncrement \<and> sig + 1 = 0 then invalid
         else (let sig = (if doIncrement
                          then (sig + 1) AND NOT (of_bool (sigExtra AND 0x7FFFFFFFFFFFFFFF = 0 \<and> roundNearEven))
                          else sig)
               in if sign \<and> sig \<noteq> 0 then invalid
                  else (sig, if exact \<and> sigExtra \<noteq> 0 then softfloat_raiseFlags softfloat_flag_inexact st else st)))"

definition f32_to_i32 :: "u32 \<Rightarrow> u8 \<Rightarrow> bool \<Rightarrow> sf_state \<Rightarrow> int \<times> sf_state" where
  "f32_to_i32 a roundingMode exact st =
     (let uiA = ucast a; exp = expF32UI uiA; sig = fracF32UI uiA;
          sign = (if exp = 0xFF \<and> sig \<noteq> 0 then False else signF32UI uiA);
          sig = (if exp \<noteq> 0 then sig OR 0x00800000 else sig);
          sig64 = push_bit 32 sig;
          shiftDist = 0xAF - exp;
          sig64 = (if 0 < shiftDist then softfloat_shiftRightJam64 sig64 (word_of_int shiftDist) else sig64)
      in softfloat_roundPackToI32 sign sig64 roundingMode exact st)"

definition f64_to_i32 :: "u64 \<Rightarrow> u8 \<Rightarrow> bool \<Rightarrow> sf_state \<Rightarrow> int \<times> sf_state" where
  "f64_to_i32 a roundingMode exact st =
     (let uiA = a; exp = expF64UI uiA; sig = fracF64UI uiA;
          sign = (if exp = 0x7FF \<and> sig \<noteq> 0 then False else signF64UI uiA);
          sig = (if exp \<noteq> 0 then sig OR 0x0010000000000000 else sig);
          shiftDist = 0x42C - exp;
          sig = (if 0 < shiftDist then softfloat_shiftRightJam64 sig (word_of_int shiftDist) else sig)
      in softfloat_roundPackToI32 sign sig roundingMode exact st)"

definition f32_to_ui32 :: "u32 \<Rightarrow> u8 \<Rightarrow> bool \<Rightarrow> sf_state \<Rightarrow> u64 \<times> sf_state" where
  "f32_to_ui32 a roundingMode exact st =
     (let uiA = ucast a; exp = expF32UI uiA; sig = fracF32UI uiA;
          sign = (if exp = 0xFF \<and> sig \<noteq> 0 then False else signF32UI uiA);
          sig = (if exp \<noteq> 0 then sig OR 0x00800000 else sig);
          sig64 = push_bit 32 sig;
          shiftDist = 0xAF - exp;
          sig64 = (if 0 < shiftDist then softfloat_shiftRightJam64 sig64 (word_of_int shiftDist) else sig64)
      in softfloat_roundPackToUI32 sign sig64 roundingMode exact st)"

definition f64_to_ui32 :: "u64 \<Rightarrow> u8 \<Rightarrow> bool \<Rightarrow> sf_state \<Rightarrow> u64 \<times> sf_state" where
  "f64_to_ui32 a roundingMode exact st =
     (let uiA = a; exp = expF64UI uiA; sig = fracF64UI uiA;
          sign = (if exp = 0x7FF \<and> sig \<noteq> 0 then False else signF64UI uiA);
          sig = (if exp \<noteq> 0 then sig OR 0x0010000000000000 else sig);
          shiftDist = 0x42C - exp;
          sig = (if 0 < shiftDist then softfloat_shiftRightJam64 sig (word_of_int shiftDist) else sig)
      in softfloat_roundPackToUI32 sign sig roundingMode exact st)"

definition f32_to_i64 :: "u32 \<Rightarrow> u8 \<Rightarrow> bool \<Rightarrow> sf_state \<Rightarrow> int \<times> sf_state" where
  "f32_to_i64 a roundingMode exact st =
     (let uiA = ucast a; sign = signF32UI uiA; exp = expF32UI uiA; sig = fracF32UI uiA;
          shiftDist = 0xBE - exp
      in if shiftDist < 0
         then (if exp = 0xFF \<and> sig \<noteq> 0 then i64_fromNaN
               else if sign then i64_fromNegOverflow else i64_fromPosOverflow,
               softfloat_raiseFlags softfloat_flag_invalid st)
         else (let sig = (if exp \<noteq> 0 then sig OR 0x00800000 else sig);
                   sig64 = push_bit 40 sig;
                   (sig64, extra) =
                     (if shiftDist \<noteq> 0
                      then (let sig64Extra = softfloat_shiftRightJam64Extra sig64 0 (word_of_int shiftDist)
                            in (ue_v sig64Extra, ue_extra sig64Extra))
                      else (sig64, 0))
               in softfloat_roundPackToI64 sign sig64 extra roundingMode exact st))"

definition f64_to_i64 :: "u64 \<Rightarrow> u8 \<Rightarrow> bool \<Rightarrow> sf_state \<Rightarrow> int \<times> sf_state" where
  "f64_to_i64 a roundingMode exact st =
     (let uiA = a; sign = signF64UI uiA; exp = expF64UI uiA; sig = fracF64UI uiA;
          sig = (if exp \<noteq> 0 then sig OR 0x0010000000000000 else sig);
          shiftDist = 0x433 - exp
      in if shiftDist < - 11
         then (if exp = 0x7FF \<and> fracF64UI uiA \<noteq> 0 then i64_fromNaN
               else if sign then i64_fromNegOverflow else i64_fromPosOverflow,
               softfloat_raiseFlags softfloat_flag_invalid st)
         else (let sigExtra =
                     (if shiftDist \<le> 0 then \<lparr>ue_extra = 0, ue_v = push_bit (nat (- shiftDist)) sig\<rparr>
                      else softfloat_shiftRightJam64Extra sig 0 (word_of_int shiftDist))
               in softfloat_roundPackToI64 sign (ue_v sigExtra) (ue_extra sigExtra) roundingMode exact st))"

definition f32_to_ui64 :: "u32 \<Rightarrow> u8 \<Rightarrow> bool \<Rightarrow> sf_state \<Rightarrow> u64 \<times> sf_state" where
  "f32_to_ui64 a roundingMode exact st =
     (let uiA = ucast a; sign = signF32UI uiA; exp = expF32UI uiA; sig = fracF32UI uiA;
          shiftDist = 0xBE - exp
      in if shiftDist < 0
         then (if exp = 0xFF \<and> sig \<noteq> 0 then ui64_fromNaN
               else if sign then ui64_fromNegOverflow else ui64_fromPosOverflow,
               softfloat_raiseFlags softfloat_flag_invalid st)
         else (let sig = (if exp \<noteq> 0 then sig OR 0x00800000 else sig);
                   sig64 = push_bit 40 sig;
                   (sig64, extra) =
                     (if shiftDist \<noteq> 0
                      then (let sig64Extra = softfloat_shiftRightJam64Extra sig64 0 (word_of_int shiftDist)
                            in (ue_v sig64Extra, ue_extra sig64Extra))
                      else (sig64, 0))
               in softfloat_roundPackToUI64 sign sig64 extra roundingMode exact st))"

definition f64_to_ui64 :: "u64 \<Rightarrow> u8 \<Rightarrow> bool \<Rightarrow> sf_state \<Rightarrow> u64 \<times> sf_state" where
  "f64_to_ui64 a roundingMode exact st =
     (let uiA = a; sign = signF64UI uiA; exp = expF64UI uiA; sig = fracF64UI uiA;
          sig = (if exp \<noteq> 0 then sig OR 0x0010000000000000 else sig);
          shiftDist = 0x433 - exp
      in if shiftDist < - 11
         then (if exp = 0x7FF \<and> fracF64UI uiA \<noteq> 0 then ui64_fromNaN
               else if sign then ui64_fromNegOverflow else ui64_fromPosOverflow,
               softfloat_raiseFlags softfloat_flag_invalid st)
         else (let sigExtra =
                     (if shiftDist \<le> 0 then \<lparr>ue_extra = 0, ue_v = push_bit (nat (- shiftDist)) sig\<rparr>
                      else softfloat_shiftRightJam64Extra sig 0 (word_of_int shiftDist))
               in softfloat_roundPackToUI64 sign (ue_v sigExtra) (ue_extra sigExtra) roundingMode exact st))"

definition f32_to_i32_r_minMag :: "u32 \<Rightarrow> bool \<Rightarrow> sf_state \<Rightarrow> int \<times> sf_state" where
  "f32_to_i32_r_minMag a exact st =
     (let uiA = ucast a; exp = expF32UI uiA; sig = fracF32UI uiA; sign = signF32UI uiA; shiftDist = 0x9E - exp
      in if 32 \<le> shiftDist
         then (0, if exact \<and> (exp \<noteq> 0 \<or> sig \<noteq> 0) then softfloat_raiseFlags softfloat_flag_inexact st else st)
         else if shiftDist \<le> 0
         then if uiA = packToF32UI True 0x9E 0 then (- 0x7FFFFFFF - 1, st)
              else (if exp = 0xFF \<and> sig \<noteq> 0 then i32_fromNaN
                 else if sign then i32_fromNegOverflow else i32_fromPosOverflow,
                 softfloat_raiseFlags softfloat_flag_invalid st)
         else (let sig = push_bit 8 (sig OR 0x00800000);
                   absZ = drop_bit (nat shiftDist) sig;
                   st = (if exact \<and> push_bit (nat shiftDist) absZ \<noteq> sig then softfloat_raiseFlags softfloat_flag_inexact st else st)
               in (if sign then - sint absZ else sint absZ, st)))"

definition f32_to_ui32_r_minMag :: "u32 \<Rightarrow> bool \<Rightarrow> sf_state \<Rightarrow> u64 \<times> sf_state" where
  "f32_to_ui32_r_minMag a exact st =
     (let uiA = ucast a; exp = expF32UI uiA; sig = fracF32UI uiA; sign = signF32UI uiA; shiftDist = 0x9E - exp
      in if 32 \<le> shiftDist
         then (0, if exact \<and> (exp \<noteq> 0 \<or> sig \<noteq> 0) then softfloat_raiseFlags softfloat_flag_inexact st else st)
         else if sign \<or> shiftDist < 0
         then (if exp = 0xFF \<and> sig \<noteq> 0 then ui32_fromNaN
                 else if sign then ui32_fromNegOverflow else ui32_fromPosOverflow,
                 softfloat_raiseFlags softfloat_flag_invalid st)
         else (let sig = push_bit 8 (sig OR 0x00800000);
                   z = drop_bit (nat shiftDist) sig
               in (z, if exact \<and> push_bit (nat shiftDist) z \<noteq> sig then softfloat_raiseFlags softfloat_flag_inexact st else st)))"

definition f32_to_i64_r_minMag :: "u32 \<Rightarrow> bool \<Rightarrow> sf_state \<Rightarrow> int \<times> sf_state" where
  "f32_to_i64_r_minMag a exact st =
     (let uiA = ucast a; exp = expF32UI uiA; sig = fracF32UI uiA; sign = signF32UI uiA; shiftDist = 0xBE - exp
      in if 64 \<le> shiftDist
         then (0, if exact \<and> (exp \<noteq> 0 \<or> sig \<noteq> 0) then softfloat_raiseFlags softfloat_flag_inexact st else st)
         else if shiftDist \<le> 0
         then if uiA = packToF32UI True 0xBE 0 then (- 0x7FFFFFFFFFFFFFFF - 1, st)
              else (if exp = 0xFF \<and> sig \<noteq> 0 then i64_fromNaN
                 else if sign then i64_fromNegOverflow else i64_fromPosOverflow,
                 softfloat_raiseFlags softfloat_flag_invalid st)
         else (let sig = sig OR 0x00800000;
                   sig64 = push_bit 40 sig;
                   absZ = drop_bit (nat shiftDist) sig64;
                   shiftDist = 40 - shiftDist;
                   st = (if exact \<and> shiftDist < 0 \<and> (ucast (push_bit (nat (shiftDist AND 31)) sig) :: u32) \<noteq> 0 then softfloat_raiseFlags softfloat_flag_inexact st else st)
               in (if sign then - sint absZ else sint absZ, st)))"

definition f32_to_ui64_r_minMag :: "u32 \<Rightarrow> bool \<Rightarrow> sf_state \<Rightarrow> u64 \<times> sf_state" where
  "f32_to_ui64_r_minMag a exact st =
     (let uiA = ucast a; exp = expF32UI uiA; sig = fracF32UI uiA; sign = signF32UI uiA; shiftDist = 0xBE - exp
      in if 64 \<le> shiftDist
         then (0, if exact \<and> (exp \<noteq> 0 \<or> sig \<noteq> 0) then softfloat_raiseFlags softfloat_flag_inexact st else st)
         else if sign \<or> shiftDist < 0
         then (if exp = 0xFF \<and> sig \<noteq> 0 then ui64_fromNaN
                 else if sign then ui64_fromNegOverflow else ui64_fromPosOverflow,
                 softfloat_raiseFlags softfloat_flag_invalid st)
         else (let sig = sig OR 0x00800000;
                   sig64 = push_bit 40 sig;
                   z = drop_bit (nat shiftDist) sig64;
                   shiftDist = 40 - shiftDist
               in (z, if exact \<and> shiftDist < 0 \<and> (ucast (push_bit (nat (shiftDist AND 31)) sig) :: u32) \<noteq> 0 then softfloat_raiseFlags softfloat_flag_inexact st else st)))"

definition f64_to_i32_r_minMag :: "u64 \<Rightarrow> bool \<Rightarrow> sf_state \<Rightarrow> int \<times> sf_state" where
  "f64_to_i32_r_minMag a exact st =
     (let uiA = a; exp = expF64UI uiA; sig = fracF64UI uiA; sign = signF64UI uiA; shiftDist = 0x433 - exp
      in if 53 \<le> shiftDist
         then (0, if exact \<and> (exp \<noteq> 0 \<or> sig \<noteq> 0) then softfloat_raiseFlags softfloat_flag_inexact st else st)
         else if shiftDist < 22
         then if sign \<and> exp = 0x41E \<and> sig < 0x0000000000200000
              then (- 0x7FFFFFFF - 1, if exact \<and> sig \<noteq> 0 then softfloat_raiseFlags softfloat_flag_inexact st else st)
              else (if exp = 0x7FF \<and> sig \<noteq> 0 then i32_fromNaN
                 else if sign then i32_fromNegOverflow else i32_fromPosOverflow,
                 softfloat_raiseFlags softfloat_flag_invalid st)
         else (let sig = sig OR 0x0010000000000000;
                   absZ = drop_bit (nat shiftDist) sig;
                   st = (if exact \<and> push_bit (nat shiftDist) absZ \<noteq> sig then softfloat_raiseFlags softfloat_flag_inexact st else st)
               in (if sign then - sint absZ else sint absZ, st)))"

definition f64_to_ui32_r_minMag :: "u64 \<Rightarrow> bool \<Rightarrow> sf_state \<Rightarrow> u64 \<times> sf_state" where
  "f64_to_ui32_r_minMag a exact st =
     (let uiA = a; exp = expF64UI uiA; sig = fracF64UI uiA; sign = signF64UI uiA; shiftDist = 0x433 - exp
      in if 53 \<le> shiftDist
         then (0, if exact \<and> (exp \<noteq> 0 \<or> sig \<noteq> 0) then softfloat_raiseFlags softfloat_flag_inexact st else st)
         else if sign \<or> shiftDist < 21
         then (if exp = 0x7FF \<and> sig \<noteq> 0 then ui32_fromNaN
                 else if sign then ui32_fromNegOverflow else ui32_fromPosOverflow,
                 softfloat_raiseFlags softfloat_flag_invalid st)
         else (let sig = sig OR 0x0010000000000000;
                   z = drop_bit (nat shiftDist) sig
               in (z, if exact \<and> push_bit (nat shiftDist) z \<noteq> sig then softfloat_raiseFlags softfloat_flag_inexact st else st)))"

definition f64_to_i64_r_minMag :: "u64 \<Rightarrow> bool \<Rightarrow> sf_state \<Rightarrow> int \<times> sf_state" where
  "f64_to_i64_r_minMag a exact st =
     (let uiA = a; exp = expF64UI uiA; sig = fracF64UI uiA; sign = signF64UI uiA; shiftDist = 0x433 - exp
      in if shiftDist \<le> 0
         then if shiftDist < - 10
              then if uiA = packToF64UI True 0x43E 0 then (- 0x7FFFFFFFFFFFFFFF - 1, st)
                   else (if exp = 0x7FF \<and> sig \<noteq> 0 then i64_fromNaN
                 else if sign then i64_fromNegOverflow else i64_fromPosOverflow,
                 softfloat_raiseFlags softfloat_flag_invalid st)
              else (let sig = sig OR 0x0010000000000000;
                        absZ = push_bit (nat (- shiftDist)) sig
                    in (if sign then - sint absZ else sint absZ, st))
         else if 53 \<le> shiftDist
         then (0, if exact \<and> (exp \<noteq> 0 \<or> sig \<noteq> 0) then softfloat_raiseFlags softfloat_flag_inexact st else st)
         else (let sig = sig OR 0x0010000000000000;
                   absZ = drop_bit (nat shiftDist) sig;
                   st = (if exact \<and> push_bit (nat shiftDist) absZ \<noteq> sig then softfloat_raiseFlags softfloat_flag_inexact st else st)
               in (if sign then - sint absZ else sint absZ, st)))"

definition f64_to_ui64_r_minMag :: "u64 \<Rightarrow> bool \<Rightarrow> sf_state \<Rightarrow> u64 \<times> sf_state" where
  "f64_to_ui64_r_minMag a exact st =
     (let uiA = a; exp = expF64UI uiA; sig = fracF64UI uiA; sign = signF64UI uiA; shiftDist = 0x433 - exp
      in if 53 \<le> shiftDist
         then (0, if exact \<and> (exp \<noteq> 0 \<or> sig \<noteq> 0) then softfloat_raiseFlags softfloat_flag_inexact st else st)
         else if sign \<or> shiftDist < - 11
         then (if exp = 0x7FF \<and> sig \<noteq> 0 then ui64_fromNaN
                 else if sign then ui64_fromNegOverflow else ui64_fromPosOverflow,
                 softfloat_raiseFlags softfloat_flag_invalid st)
         else if shiftDist \<le> 0 then (push_bit (nat (- shiftDist)) (sig OR 0x0010000000000000), st)
         else (let sig = sig OR 0x0010000000000000;
                   z = drop_bit (nat shiftDist) sig
               in (z, if exact \<and> push_bit (nat (- shiftDist AND 63)) sig \<noteq> 0 then softfloat_raiseFlags softfloat_flag_inexact st else st)))"

subsection \<open>Positions between integers\<close>

text \<open>Rounding to an integer depends on the quotient, on whether it is exact, and on which side of the
  midpoint it lies.\<close>

definition frac_class :: "nat \<Rightarrow> nat \<Rightarrow> nat \<times> bool \<times> bool \<times> bool" where
  "frac_class N D = (N div D, N mod D = 0, D \<le> 2 * (N mod D), 2 * (N mod D) = D)"

lemma round_quot_class:
  assumes "frac_class N D = frac_class N' D'" "0 < D" "0 < D'"
  shows "round_quot m s N D = round_quot m s N' D'"
proof -
  have "D < 2 * (N mod D) \<longleftrightarrow> D' < 2 * (N' mod D')"
    using assms unfolding frac_class_def by (auto simp: le_less)
  then show ?thesis
    using assms by (auto simp: frac_class_def round_quot_def round_up_def split: rmode.splits)
qed

lemma frac_class_exact:
  "frac_class N D = frac_class N' D' \<Longrightarrow> N mod D = 0 \<longleftrightarrow> N' mod D' = 0"
  by (simp add: frac_class_def)

lemma frac_class_scale: "0 < k \<Longrightarrow> frac_class (N * k) (D * k) = frac_class N D"
proof -
  assume k: "0 < k"
  have "2 * (N * k mod (D * k)) = 2 * (N mod D) * k" by simp
  then show ?thesis using k by (simp add: frac_class_def flip: mult.assoc)
qed

lemma frac_class_cong:
  assumes "N * D' = N' * D" "0 < D" "0 < D'"
  shows "frac_class N D = frac_class N' D'"
proof -
  have "frac_class N D = frac_class (N * D') (D * D')" using assms(3) by (rule frac_class_scale [symmetric])
  also have "\<dots> = frac_class (N' * D) (D' * D)" unfolding assms(1) by (simp only: mult.commute)
  also have "\<dots> = frac_class N' D'" using assms(2) by (rule frac_class_scale)
  finally show ?thesis .
qed

lemma frac_class_small:
  assumes "2 * N < D" "2 * N' < D'" "N = 0 \<longleftrightarrow> N' = 0"
  shows "frac_class N D = frac_class N' D'"
proof -
  have "N < D" "N' < D'" using assms by simp_all
  then show ?thesis using assms by (simp add: frac_class_def)
qed

lemma frac_class_sticky:
  assumes "0 < D" "2 \<le> j"
  shows "frac_class (sticky N D) (2 ^ j) = frac_class N (D * 2 ^ j)"
  using assms sticky_half [OF assms, of N] by (auto simp: frac_class_def sticky_div sticky_mod_zero not_less [symmetric])

subsection \<open>The reference conversion\<close>

definition int_result :: "int \<Rightarrow> int \<Rightarrow> bool \<Rightarrow> nat \<Rightarrow> bool \<Rightarrow> sf_state \<Rightarrow> int \<times> sf_state" where
  "int_result lo hi s r nx st =
     (let v = (if s then - int r else int r)
      in if lo \<le> v \<and> v \<le> hi then (v, if nx then softfloat_raiseFlags softfloat_flag_inexact st else st)
         else (if s then lo else hi, softfloat_raiseFlags softfloat_flag_invalid st))"

definition fp_to_int ::
  "nat \<Rightarrow> nat \<Rightarrow> int \<Rightarrow> int \<Rightarrow> nat \<Rightarrow> u8 \<Rightarrow> bool \<Rightarrow> sf_state \<Rightarrow> int \<times> sf_state" where
  "fp_to_int p w lo hi a mode exact st =
     (let s = fp_neg p w a; N = fp_mag p w a; D = 2 ^ (2 ^ (w - 1) + p - 3)
      in if fp_nan p w a then (hi, softfloat_raiseFlags softfloat_flag_invalid st)
         else if fp_inf p w a then (if s then lo else hi, softfloat_raiseFlags softfloat_flag_invalid st)
         else int_result lo hi s (round_quot (rmode_of mode) s N D) (exact \<and> N mod D \<noteq> 0) st)"

abbreviation i32_result where "i32_result \<equiv> int_result (- (2 ^ 31)) (2 ^ 31 - 1)"
abbreviation ui32_result where "ui32_result \<equiv> int_result 0 (2 ^ 32 - 1)"
abbreviation i64_result where "i64_result \<equiv> int_result (- (2 ^ 63)) (2 ^ 63 - 1)"
abbreviation ui64_result where "ui64_result \<equiv> int_result 0 (2 ^ 64 - 1)"

lemma int_result_class:
  assumes "frac_class N D = frac_class N' D'" "0 < D" "0 < D'"
  shows "int_result lo hi s (round_quot m s N D) (ex \<and> N mod D \<noteq> 0) st =
    int_result lo hi s (round_quot m s N' D') (ex \<and> N' mod D' \<noteq> 0) st"
  using round_quot_class [OF assms] frac_class_exact [OF assms(1)] by simp

lemma int_result_invalid:
  assumes "s \<Longrightarrow> - int r < lo" "\<not> s \<Longrightarrow> hi < int r"
  shows "int_result lo hi s r nx st = (if s then lo else hi, softfloat_raiseFlags softfloat_flag_invalid st)"
  using assms by (auto simp: int_result_def)

lemma int_result_large:
  assumes "K \<le> r" "- int K < lo" "hi < int K"
  shows "int_result lo hi s r nx st = (if s then lo else hi, softfloat_raiseFlags softfloat_flag_invalid st)"
  using assms by (intro int_result_invalid) linarith+

text \<open>The saturation constants of the target, as integers.\<close>

lemma from_vals:
  "i32_fromPosOverflow = 2 ^ 31 - 1" "i32_fromNegOverflow = - (2 ^ 31)" "i32_fromNaN = 2 ^ 31 - 1"
  "i64_fromPosOverflow = 2 ^ 63 - 1" "i64_fromNegOverflow = - (2 ^ 63)" "i64_fromNaN = 2 ^ 63 - 1"
  "ui32_fromPosOverflow = word_of_int (2 ^ 32 - 1)" "ui32_fromNegOverflow = word_of_int 0" "ui32_fromNaN = word_of_int (2 ^ 32 - 1)"
  "ui64_fromPosOverflow = word_of_int (2 ^ 64 - 1)" "ui64_fromNegOverflow = word_of_int 0" "ui64_fromNaN = word_of_int (2 ^ 64 - 1)"
  by (simp_all add: from_defs)

subsection \<open>Rounding and packing\<close>

lemma ucast_uminus_64_32: "(ucast (- (x :: u64)) :: u32) = - ucast x"
proof -
  have "take_bit 32 (- take_bit 64 k) = take_bit 32 (- k)" for k :: int
  proof -
    have "take_bit 32 (- take_bit 64 k) = take_bit 32 (take_bit 64 (- take_bit 64 k))" by (simp add: take_bit_take_bit)
    also have "\<dots> = take_bit 32 (take_bit 64 (- k))" by (simp only: take_bit_minus)
    finally show ?thesis by (simp add: take_bit_take_bit)
  qed
  then show ?thesis by transfer simp
qed

lemma signed_pack:
  fixes r n :: nat and s :: bool
  assumes n: "LENGTH('a::len) = Suc n" and r: "r < 2 ^ LENGTH('a)"
  defines "v \<equiv> (if s then - int r else int r)"
  defines "z \<equiv> sint (word_of_int v :: 'a word)"
  shows "z \<noteq> 0 \<and> (z < 0) \<noteq> s \<longleftrightarrow> \<not> (- (2 ^ n) \<le> v \<and> v \<le> 2 ^ n - 1)"
    and "- (2 ^ n) \<le> v \<Longrightarrow> v \<le> 2 ^ n - 1 \<Longrightarrow> z = v"
proof -
  define H :: int where "H = 2 ^ n"
  have H: "0 < H" "2 ^ LENGTH('a) = 2 * H" "(2::int) ^ (LENGTH('a) - 1) = H" by (simp_all add: H_def n)
  have r': "int r < 2 * H" using r n by (metis H(2) of_nat_less_iff of_nat_numeral of_nat_power)
  have z: "z = (v + H) mod (2 * H) - H" unfolding z_def int_word_sint H ..
  have "z = v" if "- H \<le> v" "v \<le> H - 1"
    unfolding z using that H(1) by (simp add: mod_pos_pos_trivial)
  moreover have "z = v - 2 * H" if "\<not> s" "H \<le> v"
  proof -
    have "(v + H) mod (2 * H) = (v - H + 2 * H) mod (2 * H)" by (simp add: add.commute)
    also have "\<dots> = v - H" using that r' unfolding mod_add_self2 by (intro mod_pos_pos_trivial) (simp_all add: v_def)
    finally show ?thesis unfolding z by simp
  qed
  moreover have "z = v + 2 * H" if "s" "v < - H"
  proof -
    have "(v + H) mod (2 * H) = (v + H + 2 * H) mod (2 * H)" by (simp only: mod_add_self2)
    also have "\<dots> = v + H + 2 * H" using that r' H(1) by (intro mod_pos_pos_trivial) (simp_all add: v_def)
    finally show ?thesis unfolding z by simp
  qed
  ultimately show "- (2 ^ n) \<le> v \<Longrightarrow> v \<le> 2 ^ n - 1 \<Longrightarrow> z = v"
    and "z \<noteq> 0 \<and> (z < 0) \<noteq> s \<longleftrightarrow> \<not> (- (2 ^ n) \<le> v \<and> v \<le> 2 ^ n - 1)"
    unfolding H_def [symmetric] using r' H(1) by (auto simp: v_def split: if_splits)
qed

lemma signed_result:
  assumes n: "LENGTH('a::len) = Suc n" and r: "r < 2 ^ LENGTH('a)" and w: "w = (of_nat r :: 'a word)"
  shows "(let z = sint (if s then - w else w)
      in if z \<noteq> 0 \<and> (z < 0) \<noteq> s
         then (if s then - (2 ^ n) else 2 ^ n - 1, softfloat_raiseFlags softfloat_flag_invalid st)
         else (z, if nx then softfloat_raiseFlags softfloat_flag_inexact st else st)) =
    int_result (- (2 ^ n)) (2 ^ n - 1) s r nx st"
proof -
  have "(if s then - w else w) = word_of_int (if s then - int r else int r)" unfolding w by simp
  then show ?thesis using signed_pack [OF n r, of s] by (simp only: Let_def int_result_def) auto
qed

lemma high_bits_39: "(x :: u64) AND 0xFFFFFF8000000000 \<noteq> 0 \<longleftrightarrow> 2 ^ 39 \<le> unat x"
proof -
  have "(0xFFFFFF8000000000 :: u64) = NOT (mask 39)" by code_simp
  then have "unat (x AND 0xFFFFFF8000000000) = unat x div 2 ^ 39 * 2 ^ 39"
    by (simp only: unat_and_not_mask)
  then show ?thesis by (simp add: word_unat_eq_iff div_eq_0_iff not_less)
qed

lemma round_word_7:
  fixes sig :: u64 and mode :: u8 and s :: bool
  assumes "unat sig < 2 ^ 63"
  defines "inc \<equiv> (if mode \<noteq> softfloat_round_near_even \<and> mode \<noteq> softfloat_round_near_maxMag
             then if mode = (if s then softfloat_round_min else softfloat_round_max) then 0x7F else 0
             else 0x40) :: u8"
  defines "r \<equiv> round_quot (rmode_of mode) s (unat sig) (2 ^ 7)"
  shows "(sig + ucast inc) AND 0xFFFFFF8000000000 \<noteq> 0 \<longleftrightarrow> 2 ^ 32 \<le> r"
    and "unat (drop_bit 7 (sig + ucast inc) AND
      NOT (of_bool ((ucast (sig AND 0x7F) :: u8) XOR 0x40 = 0 \<and> mode = softfloat_round_near_even))) = r"
proof -
  let ?m = "rmode_of mode"
  have inc: "unat inc = round_inc ?m s (2 ^ 7)"
    unfolding inc_def by (rule round_inc_mode) simp_all
  have il: "round_inc ?m s (2 ^ 7) < 2 ^ 7" by (rule round_inc_less) simp
  have sum: "unat (sig + ucast inc) = unat sig + round_inc ?m s (2 ^ 7)"
    using assms(1) il by (subst unat_add_small) (simp_all add: inc)
  let ?q = "(unat sig + round_inc ?m s (2 ^ 7)) div 2 ^ 7"
  have r: "r = (if ?m = RNE \<and> 2 * (unat sig mod 2 ^ 7) = 2 ^ 7 then ?q - ?q mod 2 else ?q)"
    unfolding r_def using round_quot_inc [of "2 ^ 7" ?m s "unat sig"] by (simp add: Let_def)
  have "2 ^ 32 \<le> x - x mod 2 \<longleftrightarrow> 2 ^ 32 \<le> x" for x :: nat by simp presburger
  then have "2 ^ 32 \<le> r \<longleftrightarrow> 2 ^ 32 \<le> ?q" unfolding r by simp
  also have "\<dots> \<longleftrightarrow> 2 ^ 39 \<le> unat sig + round_inc ?m s (2 ^ 7)" by (simp add: less_eq_div_iff_mult_less_eq)
  finally show "(sig + ucast inc) AND 0xFFFFFF8000000000 \<noteq> 0 \<longleftrightarrow> 2 ^ 32 \<le> r"
    unfolding high_bits_39 sum by simp
  show "unat (drop_bit 7 (sig + ucast inc) AND
      NOT (of_bool ((ucast (sig AND 0x7F) :: u8) XOR 0x40 = 0 \<and> mode = softfloat_round_near_even))) = r"
    unfolding r_def
  proof (rule round_word)
    show "unat (ucast inc :: u64) = round_inc ?m s (2 ^ 7)" using inc by simp
    show "unat sig + round_inc ?m s (2 ^ 7) < 2 ^ 64" using assms(1) il by simp
  qed (simp_all add: roundBits32_tie rmode_RNE)
qed

lemma roundPackToI32_result:
  assumes "unat sig < 2 ^ 63"
  shows "softfloat_roundPackToI32 s sig mode ex st =
    i32_result s (round_quot (rmode_of mode) s (unat sig) (2 ^ 7)) (ex \<and> unat sig mod 2 ^ 7 \<noteq> 0) st"
    (is "_ = i32_result s ?r _ st")
proof -
  note w = round_word_7 [OF assms, of mode s]
  have nz: "(ucast (sig AND 0x7F) :: u8) \<noteq> 0 \<longleftrightarrow> unat sig mod 2 ^ 7 \<noteq> 0"
    unfolding word_unat_eq_iff roundBits32 by simp
  show ?thesis
  proof (cases "2 ^ 32 \<le> ?r")
    case True
    have "i32_result s ?r (ex \<and> unat sig mod 2 ^ 7 \<noteq> 0) st =
        (if s then - (2 ^ 31) else 2 ^ 31 - 1, softfloat_raiseFlags softfloat_flag_invalid st)"
      by (rule int_result_invalid) (use True in simp_all)
    then show ?thesis using True w(1) by (simp add: softfloat_roundPackToI32_def Let_def from_vals)
  next
    case False
    define x where "x = drop_bit 7 (sig + ucast ((if mode \<noteq> softfloat_round_near_even \<and> mode \<noteq> softfloat_round_near_maxMag
             then if mode = (if s then softfloat_round_min else softfloat_round_max) then 0x7F else 0
             else 0x40) :: u8)) AND
      NOT (of_bool ((ucast (sig AND 0x7F) :: u8) XOR 0x40 = 0 \<and> mode = softfloat_round_near_even))"
    have x: "unat x = ?r" unfolding x_def by (rule w(2))
    have "(ucast x :: u32) = of_nat ?r" unfolding x [symmetric] by simp
    moreover have "(ucast (- x) :: u32) = - ucast x" by (rule ucast_uminus_64_32)
    ultimately have u: "(ucast (if s then - x else x) :: u32) = (if s then - of_nat ?r else of_nat ?r)" by simp
    have "softfloat_roundPackToI32 s sig mode ex st =
      (let z = sint (if s then - of_nat ?r else of_nat ?r :: u32)
       in if z \<noteq> 0 \<and> (z < 0) \<noteq> s
          then (if s then - (2 ^ 31) else 2 ^ 31 - 1, softfloat_raiseFlags softfloat_flag_invalid st)
          else (z, if ex \<and> unat sig mod 2 ^ 7 \<noteq> 0 then softfloat_raiseFlags softfloat_flag_inexact st else st))"
      using False w(1) unfolding softfloat_roundPackToI32_def Let_def x_def [symmetric] u from_vals nz
      by (simp only: if_False simp_thms)
    also have "\<dots> = i32_result s ?r (ex \<and> unat sig mod 2 ^ 7 \<noteq> 0) st"
      by (rule signed_result [OF _ _ refl]) (use False in simp_all)
    finally show ?thesis .
  qed
qed

lemma roundPackToUI32_result:
  assumes "unat sig < 2 ^ 63"
  shows "softfloat_roundPackToUI32 s sig mode ex st = map_prod word_of_int id
    (ui32_result s (round_quot (rmode_of mode) s (unat sig) (2 ^ 7)) (ex \<and> unat sig mod 2 ^ 7 \<noteq> 0) st)"
    (is "_ = map_prod _ _ (ui32_result s ?r _ st)")
proof -
  note w = round_word_7 [OF assms, of mode s]
  have nz: "(ucast (sig AND 0x7F) :: u8) \<noteq> 0 \<longleftrightarrow> unat sig mod 2 ^ 7 \<noteq> 0"
    unfolding word_unat_eq_iff roundBits32 by simp
  define x where "x = drop_bit 7 (sig + ucast ((if mode \<noteq> softfloat_round_near_even \<and> mode \<noteq> softfloat_round_near_maxMag
           then if mode = (if s then softfloat_round_min else softfloat_round_max) then 0x7F else 0
           else 0x40) :: u8)) AND
    NOT (of_bool ((ucast (sig AND 0x7F) :: u8) XOR 0x40 = 0 \<and> mode = softfloat_round_near_even))"
  have x: "unat x = ?r" unfolding x_def by (rule w(2))
  have xr: "x = word_of_int (int ?r)" "x \<noteq> 0 \<longleftrightarrow> ?r \<noteq> 0" unfolding x [symmetric] by (simp_all add: unat_eq_0)
  have "softfloat_roundPackToUI32 s sig mode ex st =
    (if 2 ^ 32 \<le> ?r \<or> s \<and> ?r \<noteq> 0
     then (word_of_int (if s then 0 else 2 ^ 32 - 1), softfloat_raiseFlags softfloat_flag_invalid st)
     else (x, if ex \<and> unat sig mod 2 ^ 7 \<noteq> 0 then softfloat_raiseFlags softfloat_flag_inexact st else st))"
    unfolding softfloat_roundPackToUI32_def Let_def x_def [symmetric] from_vals nz w(1) xr(2) by simp
  also have "\<dots> = map_prod word_of_int id (ui32_result s ?r (ex \<and> unat sig mod 2 ^ 7 \<noteq> 0) st)"
    by (auto simp: int_result_def Let_def xr(1))
  finally show ?thesis .
qed

text \<open>The 64-bit routines take the integer part and a word of fraction.\<close>

lemma round_extra:
  fixes v e :: u64 and mode :: u8 and s :: bool
  defines "r \<equiv> round_quot (rmode_of mode) s (unat v * 2 ^ 64 + unat e) (2 ^ 64)"
  defines "inc \<equiv> (if mode \<noteq> softfloat_round_near_even \<and> mode \<noteq> softfloat_round_near_maxMag
             then mode = (if s then softfloat_round_min else softfloat_round_max) \<and> e \<noteq> 0
             else 0x8000000000000000 \<le> e)"
  defines "z \<equiv> (if inc then (v + 1) AND NOT (of_bool (e AND 0x7FFFFFFFFFFFFFFF = 0 \<and> mode = softfloat_round_near_even)) else v)"
  shows "inc \<and> v + 1 = 0 \<longleftrightarrow> 2 ^ 64 \<le> r" and "\<not> 2 ^ 64 \<le> r \<Longrightarrow> unat z = r"
proof -
  have el: "unat e < 2 ^ 64" and vl: "unat v < 2 ^ 64" by (rule unat_less_64)+
  have dm: "(unat v * 2 ^ 64 + unat e) div 2 ^ 64 = unat v" "(unat v * 2 ^ 64 + unat e) mod 2 ^ 64 = unat e"
    using el by simp_all
  have top: "0x8000000000000000 \<le> e \<longleftrightarrow> 2 ^ 64 \<le> 2 * unat e" by (simp add: word_le_nat_alt)
  have zero: "e \<noteq> 0 \<longleftrightarrow> unat e \<noteq> 0" by (simp add: unat_eq_0)
  have "unat (e AND 0x7FFFFFFFFFFFFFFF) = unat e mod 2 ^ 63"
    using unat_and_mask [of e 63] by (simp add: mask_eq_exp_minus_1)
  then have low: "e AND 0x7FFFFFFFFFFFFFFF = 0 \<longleftrightarrow> unat e mod 2 ^ 63 = 0" by (simp add: word_unat_eq_iff)
  have tie: "unat e mod 2 ^ 63 = 0 \<and> 2 ^ 64 \<le> 2 * unat e \<longleftrightarrow> 2 * unat e = 2 ^ 64"
    using el by auto
  have r: "r = unat v + of_bool (round_up (rmode_of mode) s (unat v * 2 ^ 64 + unat e) (2 ^ 64))"
    unfolding r_def round_quot_def dm by simp
  have up: "round_up (rmode_of mode) s (unat v * 2 ^ 64 + unat e) (2 ^ 64) \<longleftrightarrow>
      inc \<and> \<not> (mode = softfloat_round_near_even \<and> unat e mod 2 ^ 63 = 0 \<and> even (unat v))"
    unfolding round_up_def dm inc_def top zero using tie
    by (auto simp: rmode_of_def softfloat_consts)
  have v1: "unat (v + 1) = (unat v + 1) mod 2 ^ 64" by (simp add: unat_word_ariths)
  have "(x + 1) mod 2 ^ 64 = 0 \<longleftrightarrow> x = 2 ^ 64 - 1" if "x < 2 ^ 64" for x :: nat
    using that by (cases "x = 2 ^ 64 - 1") simp_all
  then have ov: "v + 1 = 0 \<longleftrightarrow> unat v = 2 ^ 64 - 1"
    using vl v1 by (simp only: word_unat_eq_iff unsigned_0)
  show big: "inc \<and> v + 1 = 0 \<longleftrightarrow> 2 ^ 64 \<le> r" unfolding r up ov using vl by auto
  show "unat z = r" if "\<not> 2 ^ 64 \<le> r"
  proof (cases inc)
    case True
    then have "unat v + 1 < 2 ^ 64" using that big ov vl by auto
    then have "unat (v + 1) = unat v + 1" unfolding v1 by (rule mod_less)
    then show ?thesis unfolding r up z_def low if_P [OF True] unat_and_not_one using True
      by (auto elim!: evenE oddE)
  next
    case False
    then show ?thesis unfolding r up z_def by simp
  qed
qed

lemma roundPackToI64_result:
  "softfloat_roundPackToI64 s v e mode ex st =
    i64_result s (round_quot (rmode_of mode) s (unat v * 2 ^ 64 + unat e) (2 ^ 64)) (ex \<and> e \<noteq> 0) st"
    (is "_ = i64_result s ?r _ st")
proof (cases "2 ^ 64 \<le> ?r")
  case True
  have "i64_result s ?r (ex \<and> e \<noteq> 0) st =
      (if s then - (2 ^ 63) else 2 ^ 63 - 1, softfloat_raiseFlags softfloat_flag_invalid st)"
    by (rule int_result_invalid) (use True in simp_all)
  then show ?thesis
    unfolding softfloat_roundPackToI64_def Let_def round_extra(1) if_P [OF True] from_vals by simp
next
  case False
  define x where "x = (if (if mode \<noteq> softfloat_round_near_even \<and> mode \<noteq> softfloat_round_near_maxMag
             then mode = (if s then softfloat_round_min else softfloat_round_max) \<and> e \<noteq> 0
             else 0x8000000000000000 \<le> e)
    then (v + 1) AND NOT (of_bool (e AND 0x7FFFFFFFFFFFFFFF = 0 \<and> mode = softfloat_round_near_even)) else v)"
  have u: "unat x = ?r" unfolding x_def by (rule round_extra(2) [OF False])
  have x: "x = of_nat ?r" unfolding u [symmetric] by simp
  have "softfloat_roundPackToI64 s v e mode ex st =
    (let z = sint (if s then - x else x)
     in if z \<noteq> 0 \<and> (z < 0) \<noteq> s
        then (if s then - (2 ^ 63) else 2 ^ 63 - 1, softfloat_raiseFlags softfloat_flag_invalid st)
        else (z, if ex \<and> e \<noteq> 0 then softfloat_raiseFlags softfloat_flag_inexact st else st))"
    unfolding softfloat_roundPackToI64_def Let_def round_extra(1) if_not_P [OF False] x_def [symmetric] from_vals ..
  also have "\<dots> = i64_result s ?r (ex \<and> e \<noteq> 0) st"
    by (rule signed_result [OF _ _ x]) (use False in simp_all)
  finally show ?thesis .
qed

lemma roundPackToUI64_result:
  "softfloat_roundPackToUI64 s v e mode ex st = map_prod word_of_int id
    (ui64_result s (round_quot (rmode_of mode) s (unat v * 2 ^ 64 + unat e) (2 ^ 64)) (ex \<and> e \<noteq> 0) st)"
    (is "_ = map_prod _ _ (ui64_result s ?r _ st)")
proof (cases "2 ^ 64 \<le> ?r")
  case True
  have "ui64_result s ?r (ex \<and> e \<noteq> 0) st =
      (if s then 0 else 2 ^ 64 - 1, softfloat_raiseFlags softfloat_flag_invalid st)"
    by (rule int_result_invalid) (use True in simp_all)
  then show ?thesis
    unfolding softfloat_roundPackToUI64_def Let_def round_extra(1) if_P [OF True] from_vals by simp
next
  case False
  define x where "x = (if (if mode \<noteq> softfloat_round_near_even \<and> mode \<noteq> softfloat_round_near_maxMag
             then mode = (if s then softfloat_round_min else softfloat_round_max) \<and> e \<noteq> 0
             else 0x8000000000000000 \<le> e)
    then (v + 1) AND NOT (of_bool (e AND 0x7FFFFFFFFFFFFFFF = 0 \<and> mode = softfloat_round_near_even)) else v)"
  have x: "unat x = ?r" unfolding x_def by (rule round_extra(2) [OF False])
  have xr: "x = word_of_int (int ?r)" "x \<noteq> 0 \<longleftrightarrow> ?r \<noteq> 0" unfolding x [symmetric] by (simp_all add: unat_eq_0)
  have "softfloat_roundPackToUI64 s v e mode ex st =
    (if s \<and> ?r \<noteq> 0
     then (word_of_int (if s then 0 else 2 ^ 64 - 1), softfloat_raiseFlags softfloat_flag_invalid st)
     else (x, if ex \<and> e \<noteq> 0 then softfloat_raiseFlags softfloat_flag_inexact st else st))"
    unfolding softfloat_roundPackToUI64_def Let_def round_extra(1) if_not_P [OF False] x_def [symmetric] from_vals xr(2)
    by (cases s) simp_all
  also have "\<dots> = map_prod word_of_int id (ui64_result s ?r (ex \<and> e \<noteq> 0) st)"
    using False by (auto simp: int_result_def Let_def xr(1))
  finally show ?thesis .
qed

text \<open>The shift that feeds them.\<close>

lemma shiftRightJam64Extra_class:
  fixes a c :: u64
  assumes c: "0 < unat c"
  defines "z \<equiv> softfloat_shiftRightJam64Extra a 0 c"
  shows "frac_class (unat (ue_v z) * 2 ^ 64 + unat (ue_extra z)) (2 ^ 64) = frac_class (unat a) (2 ^ unat c)"
proof -
  have al: "unat a < 2 ^ 64" by (rule unat_less_64)
  consider "unat c < 64" | "unat c = 64" | "64 < unat c" by linarith
  then show ?thesis
  proof cases
    case 1
    have k: "unat (- c AND 63) = 64 - unat c"
      using unat_uminus_and_mask [of c 6] c 1 by (simp add: mask_eq_exp_minus_1)
    define k where "k = 64 - unat c"
    have p: "(2::nat) ^ 64 = 2 ^ unat c * 2 ^ k" using 1 by (simp add: k_def flip: power_add)
    have "ue_v z = drop_bit (unat c) a" "ue_extra z = push_bit k a"
      using 1 k by (simp_all add: z_def softfloat_shiftRightJam64Extra_def word_less_nat_alt k_def)
    then have "unat (ue_v z) * 2 ^ 64 + unat (ue_extra z) = unat a div 2 ^ unat c * 2 ^ 64 + unat a * 2 ^ k mod 2 ^ 64"
      by (simp add: unat_drop unat_push)
    also have "\<dots> = (unat a div 2 ^ unat c * 2 ^ unat c + unat a mod 2 ^ unat c) * 2 ^ k"
      unfolding p by (simp only: mult_mod_left add_mult_distrib mult.assoc)
    also have "\<dots> = unat a * 2 ^ k" by (simp only: div_mult_mod_eq)
    finally show ?thesis unfolding p using frac_class_scale [of "2 ^ k" "unat a" "2 ^ unat c"] by simp
  next
    case 2
    then have "z = \<lparr>ue_extra = a, ue_v = 0\<rparr>"
      by (simp add: z_def softfloat_shiftRightJam64Extra_def word_less_nat_alt word_unat_eq_iff)
    then show ?thesis using 2 by simp
  next
    case 3
    then have z: "z = \<lparr>ue_extra = of_bool (a \<noteq> 0), ue_v = 0\<rparr>"
      by (auto simp: z_def softfloat_shiftRightJam64Extra_def word_less_nat_alt word_unat_eq_iff)
    have "(2::nat) ^ 65 \<le> 2 ^ unat c" using 3 by (intro power_increasing) simp_all
    then have "2 * unat a < 2 ^ unat c" using al by simp
    then show ?thesis unfolding z by (intro frac_class_small) (simp_all add: unat_eq_0)
  qed
qed

lemma mag_sig_F32:
  fixes A :: u64
  defines "S \<equiv> (if expF32UI A \<noteq> 0 then fracF32UI A OR 0x00800000 else fracF32UI A)"
  shows "expF32UI A = 0 \<Longrightarrow> fp_mag 24 8 (unat A) = unat S" "expF32UI A = 0 \<Longrightarrow> unat S < 2 ^ 23"
    and "expF32UI A \<noteq> 0 \<Longrightarrow> fp_mag 24 8 (unat A) = unat S * 2 ^ (nat (expF32UI A) - 1)"
    and "expF32UI A \<noteq> 0 \<Longrightarrow> 2 ^ 23 \<le> unat S" "unat S < 2 ^ 24"
proof -
  have f: "unat (fracF32UI A) < 2 ^ 23" using f32.frac_range [of A] by simp
  have o: "unat (fracF32UI A OR 0x00800000) = 2 ^ 23 + unat (fracF32UI A)"
    using unat_or_disjoint [of "0x00800000 :: u64" 23 "fracF32UI A"] f by (simp add: or.commute)
  show "expF32UI A = 0 \<Longrightarrow> fp_mag 24 8 (unat A) = unat S" "expF32UI A = 0 \<Longrightarrow> unat S < 2 ^ 23"
    "expF32UI A \<noteq> 0 \<Longrightarrow> fp_mag 24 8 (unat A) = unat S * 2 ^ (nat (expF32UI A) - 1)"
    "expF32UI A \<noteq> 0 \<Longrightarrow> 2 ^ 23 \<le> unat S" "unat S < 2 ^ 24"
    using f o f32.mag_fields [of A] by (simp_all add: S_def)
qed

lemma mag_sig_F64:
  fixes A :: u64
  defines "S \<equiv> (if expF64UI A \<noteq> 0 then fracF64UI A OR 0x0010000000000000 else fracF64UI A)"
  shows "expF64UI A = 0 \<Longrightarrow> fp_mag 53 11 (unat A) = unat S" "expF64UI A = 0 \<Longrightarrow> unat S < 2 ^ 52"
    and "expF64UI A \<noteq> 0 \<Longrightarrow> fp_mag 53 11 (unat A) = unat S * 2 ^ (nat (expF64UI A) - 1)"
    and "expF64UI A \<noteq> 0 \<Longrightarrow> 2 ^ 52 \<le> unat S" "unat S < 2 ^ 53"
proof -
  have f: "unat (fracF64UI A) < 2 ^ 52" using f64.frac_range [of A] by simp
  have o: "unat (fracF64UI A OR 0x0010000000000000) = 2 ^ 52 + unat (fracF64UI A)"
    using unat_or_disjoint [of "0x0010000000000000 :: u64" 52 "fracF64UI A"] f by (simp add: or.commute)
  show "expF64UI A = 0 \<Longrightarrow> fp_mag 53 11 (unat A) = unat S" "expF64UI A = 0 \<Longrightarrow> unat S < 2 ^ 52"
    "expF64UI A \<noteq> 0 \<Longrightarrow> fp_mag 53 11 (unat A) = unat S * 2 ^ (nat (expF64UI A) - 1)"
    "expF64UI A \<noteq> 0 \<Longrightarrow> 2 ^ 52 \<le> unat S" "unat S < 2 ^ 53"
    using f o f64.mag_fields [of A] by (simp_all add: S_def)
qed

subsection \<open>Conversions to 32 bits\<close>

lemma jam_class:
  fixes X :: u64 and e :: int
  assumes e: "0 \<le> e" "e \<le> int B" "B < 2 ^ 16" and D: "0 < D"
    and pos: "e \<noteq> 0 \<Longrightarrow> N * 2 ^ (B + 7) = unat X * 2 ^ nat e * D"
    and zero: "e = 0 \<Longrightarrow> 2 * N < D \<and> 2 * unat X < 2 ^ (B + 7) \<and> (N = 0 \<longleftrightarrow> unat X = 0)"
  shows "frac_class (unat (if 0 < int B - e then softfloat_shiftRightJam64 X (word_of_int (int B - e)) else X)) (2 ^ 7) =
    frac_class N D"
    and "unat (if 0 < int B - e then softfloat_shiftRightJam64 X (word_of_int (int B - e)) else X) \<le> unat X"
proof -
  define d where "d = nat (int B - e)"
  have d: "int B - e = int d" "B = d + nat e" using e by (auto simp: d_def)
  have j: "unat (softfloat_shiftRightJam64 X (word_of_int (int d))) = sticky (unat X) (2 ^ d)" if "d \<noteq> 0"
    using e d that by (intro jam64_small) simp_all
  show "unat (if 0 < int B - e then softfloat_shiftRightJam64 X (word_of_int (int B - e)) else X) \<le> unat X"
    unfolding d(1) using j sticky_le [of "2 ^ d" "unat X"] one_less_power [of "2 :: nat" d] by (cases "d = 0") simp_all
  have "frac_class (unat (if 0 < int d then softfloat_shiftRightJam64 X (word_of_int (int d)) else X)) (2 ^ 7) =
      frac_class (unat X) (2 ^ d * 2 ^ 7)"
    using j frac_class_sticky [of "2 ^ d" 7 "unat X"] by (cases "d = 0") simp_all
  also have "\<dots> = frac_class N D"
  proof (cases "e = 0")
    case True
    then show ?thesis using zero d by (intro frac_class_small) (simp_all add: power_add)
  next
    case False
    have "(unat X * D) * 2 ^ nat e = (N * (2 ^ d * 2 ^ 7)) * 2 ^ nat e"
      using pos [OF False] unfolding d(2) by (simp add: power_add ac_simps)
    then have "unat X * D = N * (2 ^ d * 2 ^ 7)" by simp
    then show ?thesis using D by (intro frac_class_cong) simp_all
  qed
  finally show "frac_class (unat (if 0 < int B - e then softfloat_shiftRightJam64 X (word_of_int (int B - e)) else X)) (2 ^ 7) =
    frac_class N D" unfolding d(1) .
qed

lemma round_quot_ge: "0 < D \<Longrightarrow> K * D \<le> N \<Longrightarrow> K \<le> round_quot m s N D"
  using round_quot_bounds(1) [of N D m s] by (meson le_trans less_eq_div_iff_mult_less_eq)

lemma f32_to_i32_result:
  "f32_to_i32 a mode ex st =  (fp_to_int 24 8 (- (2 ^ 31)) (2 ^ 31 - 1) (unat a) mode ex st)"
proof -
  define A where "A = (ucast a :: u64)"
  have u: "unat a = unat A" by (simp add: A_def)
  have l: "unat A < 2 ^ (8 + 24)" using unat_less_32 [of a] unfolding u by simp
  define e where "e = expF32UI A"
  define S where "S = (if e \<noteq> 0 then fracF32UI A OR 0x00800000 else fracF32UI A)"
  define X where "X = push_bit 32 S"
  define Z where "Z = (if 0 < 0xAF - e then softfloat_shiftRightJam64 X (word_of_int (0xAF - e)) else X)"
  define N where "N = fp_mag 24 8 (unat A)"
  note m = mag_sig_F32 [of A, folded e_def, folded S_def N_def]
  have e: "0 \<le> e" "e < 2 ^ 8" using f32.exp_range [of A] by (simp_all add: e_def)
  have X: "unat X = unat S * 2 ^ 32" unfolding X_def using m(5) by (subst unat_push_small) simp_all
  have code: "f32_to_i32 a mode ex st = softfloat_roundPackToI32
      (if e = 0xFF \<and> fracF32UI A \<noteq> 0 then False else signF32UI A) Z mode ex st"
    by (simp only: f32_to_i32_def Let_def A_def [symmetric] e_def [symmetric] S_def [symmetric] X_def [symmetric] Z_def [symmetric])
  note cls = f32.classify [of A, simplified, folded e_def]
  have spec: "fp_to_int 24 8 (- (2 ^ 31)) (2 ^ 31 - 1) (unat A) mode ex st =
    (if e = 0xFF then (if signF32UI A \<and> fracF32UI A = 0 then (- (2 ^ 31)) else (2 ^ 31 - 1), softfloat_raiseFlags softfloat_flag_invalid st)
     else int_result (- (2 ^ 31)) (2 ^ 31 - 1) (signF32UI A) (round_quot (rmode_of mode) (signF32UI A) N (2 ^ 149)) (ex \<and> N mod 2 ^ 149 \<noteq> 0) st)"
    unfolding fp_to_int_def f32.neg_sign [OF l] N_def [symmetric] Let_def using cls by simp
  show ?thesis
  proof (cases "e \<le> 0xAF")
    case True
    have eq: "N * 2 ^ (0xAF + 7) = unat X * 2 ^ nat e * 2 ^ 149" if "e \<noteq> 0"
    proof -
      have "nat e \<noteq> 0" using that e by simp
      then obtain k where k: "nat e = Suc k" by (cases "nat e") simp_all
      show ?thesis unfolding m(3) [OF that] X k by (simp add: ac_simps flip: power_add)
    qed
    have zero: "2 * N < 2 ^ 149 \<and> 2 * unat X < 2 ^ (0xAF + 7) \<and> (N = 0 \<longleftrightarrow> unat X = 0)" if "e = 0"
      using m(1,2) [OF that] unfolding X by simp
    have ub: "e \<le> int 0xAF" "(0xAF :: nat) < 2 ^ 16" "(0 :: nat) < 2 ^ 149" using True by simp_all
    note jc = jam_class [OF e(1) ub eq zero, unfolded of_nat_numeral, folded Z_def]
    have "unat Z < 2 ^ 63" using jc(2) X m(5) by simp
    note r = roundPackToI32_result [OF this]
    show ?thesis unfolding code r u spec using int_result_class [OF jc(1)] True by simp
  next
    case False
    then have "e \<noteq> 0" by simp
    note m = m(3,4) [OF this] m(5)
    have Z: "Z = X" using False by (simp add: Z_def)
    have "unat Z < 2 ^ 63" unfolding Z X using m(3) by simp
    note r = roundPackToI32_result [OF this]
    have "2 ^ 33 * 2 ^ 7 \<le> unat Z" unfolding Z X using m(2) by simp
    then have "2 ^ 33 \<le> round_quot (rmode_of mode) s (unat Z) (2 ^ 7)" for s by (intro round_quot_ge) simp_all
    then have z: "int_result (- (2 ^ 31)) (2 ^ 31 - 1) s (round_quot (rmode_of mode) s (unat Z) (2 ^ 7)) nx st =
        (if s then (- (2 ^ 31)) else (2 ^ 31 - 1), softfloat_raiseFlags softfloat_flag_invalid st)" for s nx
      by (rule int_result_large) simp_all
    have "(2 :: nat) ^ (33 + 149) \<le> 2 ^ (23 + (nat e - 1))" using False by (intro power_increasing) simp_all
    also have "\<dots> \<le> N" unfolding m(1) power_add using m(2) by (rule mult_right_mono) simp
    finally have "2 ^ 33 * 2 ^ 149 \<le> N" by (simp only: power_add)
    then have "2 ^ 33 \<le> round_quot (rmode_of mode) s N (2 ^ 149)" for s by (intro round_quot_ge) simp_all
    then have n: "int_result (- (2 ^ 31)) (2 ^ 31 - 1) s (round_quot (rmode_of mode) s N (2 ^ 149)) nx st =
        (if s then (- (2 ^ 31)) else (2 ^ 31 - 1), softfloat_raiseFlags softfloat_flag_invalid st)" for s nx
      by (rule int_result_large) simp_all
    show ?thesis unfolding code r u spec z n by simp
  qed
qed

lemma f64_to_i32_result:
  "f64_to_i32 a mode ex st =  (fp_to_int 53 11 (- (2 ^ 31)) (2 ^ 31 - 1) (unat a) mode ex st)"
proof -
  define A where "A = (a :: u64)"
  have u: "unat a = unat A" by (simp add: A_def)
  have l: "unat A < 2 ^ (11 + 53)" using unat_less_64 [of a] unfolding u by simp
  define e where "e = expF64UI A"
  define S where "S = (if e \<noteq> 0 then fracF64UI A OR 0x0010000000000000 else fracF64UI A)"
  define X where "X = S"
  define Z where "Z = (if 0 < 0x42C - e then softfloat_shiftRightJam64 X (word_of_int (0x42C - e)) else X)"
  define N where "N = fp_mag 53 11 (unat A)"
  note m = mag_sig_F64 [of A, folded e_def, folded S_def N_def]
  have e: "0 \<le> e" "e < 2 ^ 11" using f64.exp_range [of A] by (simp_all add: e_def)
  have X: "unat X = unat S * 2 ^ 0" unfolding X_def by simp
  have code: "f64_to_i32 a mode ex st = softfloat_roundPackToI32
      (if e = 0x7FF \<and> fracF64UI A \<noteq> 0 then False else signF64UI A) Z mode ex st"
    by (simp only: f64_to_i32_def Let_def A_def [symmetric] e_def [symmetric] S_def [symmetric] X_def [symmetric] Z_def [symmetric])
  note cls = f64.classify [of A, simplified, folded e_def]
  have spec: "fp_to_int 53 11 (- (2 ^ 31)) (2 ^ 31 - 1) (unat A) mode ex st =
    (if e = 0x7FF then (if signF64UI A \<and> fracF64UI A = 0 then (- (2 ^ 31)) else (2 ^ 31 - 1), softfloat_raiseFlags softfloat_flag_invalid st)
     else int_result (- (2 ^ 31)) (2 ^ 31 - 1) (signF64UI A) (round_quot (rmode_of mode) (signF64UI A) N (2 ^ 1074)) (ex \<and> N mod 2 ^ 1074 \<noteq> 0) st)"
    unfolding fp_to_int_def f64.neg_sign [OF l] N_def [symmetric] Let_def using cls by simp
  show ?thesis
  proof (cases "e \<le> 0x42C")
    case True
    have eq: "N * 2 ^ (0x42C + 7) = unat X * 2 ^ nat e * 2 ^ 1074" if "e \<noteq> 0"
    proof -
      have "nat e \<noteq> 0" using that e by simp
      then obtain k where k: "nat e = Suc k" by (cases "nat e") simp_all
      show ?thesis unfolding m(3) [OF that] X k by (simp add: ac_simps flip: power_add)
    qed
    have zero: "2 * N < 2 ^ 1074 \<and> 2 * unat X < 2 ^ (0x42C + 7) \<and> (N = 0 \<longleftrightarrow> unat X = 0)" if "e = 0"
      using m(1,2) [OF that] unfolding X by simp
    have ub: "e \<le> int 0x42C" "(0x42C :: nat) < 2 ^ 16" "(0 :: nat) < 2 ^ 1074" using True by simp_all
    note jc = jam_class [OF e(1) ub eq zero, unfolded of_nat_numeral, folded Z_def]
    have "unat Z < 2 ^ 63" using jc(2) X m(5) by simp
    note r = roundPackToI32_result [OF this]
    show ?thesis unfolding code r u spec using int_result_class [OF jc(1)] True by simp
  next
    case False
    then have "e \<noteq> 0" by simp
    note m = m(3,4) [OF this] m(5)
    have Z: "Z = X" using False by (simp add: Z_def)
    have "unat Z < 2 ^ 63" unfolding Z X using m(3) by simp
    note r = roundPackToI32_result [OF this]
    have "2 ^ 33 * 2 ^ 7 \<le> unat Z" unfolding Z X using m(2) by simp
    then have "2 ^ 33 \<le> round_quot (rmode_of mode) s (unat Z) (2 ^ 7)" for s by (intro round_quot_ge) simp_all
    then have z: "int_result (- (2 ^ 31)) (2 ^ 31 - 1) s (round_quot (rmode_of mode) s (unat Z) (2 ^ 7)) nx st =
        (if s then (- (2 ^ 31)) else (2 ^ 31 - 1), softfloat_raiseFlags softfloat_flag_invalid st)" for s nx
      by (rule int_result_large) simp_all
    have "(2 :: nat) ^ (33 + 1074) \<le> 2 ^ (52 + (nat e - 1))" using False by (intro power_increasing) simp_all
    also have "\<dots> \<le> N" unfolding m(1) power_add using m(2) by (rule mult_right_mono) simp
    finally have "2 ^ 33 * 2 ^ 1074 \<le> N" by (simp only: power_add)
    then have "2 ^ 33 \<le> round_quot (rmode_of mode) s N (2 ^ 1074)" for s by (intro round_quot_ge) simp_all
    then have n: "int_result (- (2 ^ 31)) (2 ^ 31 - 1) s (round_quot (rmode_of mode) s N (2 ^ 1074)) nx st =
        (if s then (- (2 ^ 31)) else (2 ^ 31 - 1), softfloat_raiseFlags softfloat_flag_invalid st)" for s nx
      by (rule int_result_large) simp_all
    show ?thesis unfolding code r u spec z n by simp
  qed
qed

lemma f32_to_ui32_result:
  "f32_to_ui32 a mode ex st = map_prod word_of_int id (fp_to_int 24 8 0 (2 ^ 32 - 1) (unat a) mode ex st)"
proof -
  define A where "A = (ucast a :: u64)"
  have u: "unat a = unat A" by (simp add: A_def)
  have l: "unat A < 2 ^ (8 + 24)" using unat_less_32 [of a] unfolding u by simp
  define e where "e = expF32UI A"
  define S where "S = (if e \<noteq> 0 then fracF32UI A OR 0x00800000 else fracF32UI A)"
  define X where "X = push_bit 32 S"
  define Z where "Z = (if 0 < 0xAF - e then softfloat_shiftRightJam64 X (word_of_int (0xAF - e)) else X)"
  define N where "N = fp_mag 24 8 (unat A)"
  note m = mag_sig_F32 [of A, folded e_def, folded S_def N_def]
  have e: "0 \<le> e" "e < 2 ^ 8" using f32.exp_range [of A] by (simp_all add: e_def)
  have X: "unat X = unat S * 2 ^ 32" unfolding X_def using m(5) by (subst unat_push_small) simp_all
  have code: "f32_to_ui32 a mode ex st = softfloat_roundPackToUI32
      (if e = 0xFF \<and> fracF32UI A \<noteq> 0 then False else signF32UI A) Z mode ex st"
    by (simp only: f32_to_ui32_def Let_def A_def [symmetric] e_def [symmetric] S_def [symmetric] X_def [symmetric] Z_def [symmetric])
  note cls = f32.classify [of A, simplified, folded e_def]
  have spec: "fp_to_int 24 8 0 (2 ^ 32 - 1) (unat A) mode ex st =
    (if e = 0xFF then (if signF32UI A \<and> fracF32UI A = 0 then 0 else (2 ^ 32 - 1), softfloat_raiseFlags softfloat_flag_invalid st)
     else int_result 0 (2 ^ 32 - 1) (signF32UI A) (round_quot (rmode_of mode) (signF32UI A) N (2 ^ 149)) (ex \<and> N mod 2 ^ 149 \<noteq> 0) st)"
    unfolding fp_to_int_def f32.neg_sign [OF l] N_def [symmetric] Let_def using cls by simp
  show ?thesis
  proof (cases "e \<le> 0xAF")
    case True
    have eq: "N * 2 ^ (0xAF + 7) = unat X * 2 ^ nat e * 2 ^ 149" if "e \<noteq> 0"
    proof -
      have "nat e \<noteq> 0" using that e by simp
      then obtain k where k: "nat e = Suc k" by (cases "nat e") simp_all
      show ?thesis unfolding m(3) [OF that] X k by (simp add: ac_simps flip: power_add)
    qed
    have zero: "2 * N < 2 ^ 149 \<and> 2 * unat X < 2 ^ (0xAF + 7) \<and> (N = 0 \<longleftrightarrow> unat X = 0)" if "e = 0"
      using m(1,2) [OF that] unfolding X by simp
    have ub: "e \<le> int 0xAF" "(0xAF :: nat) < 2 ^ 16" "(0 :: nat) < 2 ^ 149" using True by simp_all
    note jc = jam_class [OF e(1) ub eq zero, unfolded of_nat_numeral, folded Z_def]
    have "unat Z < 2 ^ 63" using jc(2) X m(5) by simp
    note r = roundPackToUI32_result [OF this]
    show ?thesis unfolding code r u spec using int_result_class [OF jc(1)] True by simp
  next
    case False
    then have "e \<noteq> 0" by simp
    note m = m(3,4) [OF this] m(5)
    have Z: "Z = X" using False by (simp add: Z_def)
    have "unat Z < 2 ^ 63" unfolding Z X using m(3) by simp
    note r = roundPackToUI32_result [OF this]
    have "2 ^ 33 * 2 ^ 7 \<le> unat Z" unfolding Z X using m(2) by simp
    then have "2 ^ 33 \<le> round_quot (rmode_of mode) s (unat Z) (2 ^ 7)" for s by (intro round_quot_ge) simp_all
    then have z: "int_result 0 (2 ^ 32 - 1) s (round_quot (rmode_of mode) s (unat Z) (2 ^ 7)) nx st =
        (if s then 0 else (2 ^ 32 - 1), softfloat_raiseFlags softfloat_flag_invalid st)" for s nx
      by (rule int_result_large) simp_all
    have "(2 :: nat) ^ (33 + 149) \<le> 2 ^ (23 + (nat e - 1))" using False by (intro power_increasing) simp_all
    also have "\<dots> \<le> N" unfolding m(1) power_add using m(2) by (rule mult_right_mono) simp
    finally have "2 ^ 33 * 2 ^ 149 \<le> N" by (simp only: power_add)
    then have "2 ^ 33 \<le> round_quot (rmode_of mode) s N (2 ^ 149)" for s by (intro round_quot_ge) simp_all
    then have n: "int_result 0 (2 ^ 32 - 1) s (round_quot (rmode_of mode) s N (2 ^ 149)) nx st =
        (if s then 0 else (2 ^ 32 - 1), softfloat_raiseFlags softfloat_flag_invalid st)" for s nx
      by (rule int_result_large) simp_all
    show ?thesis unfolding code r u spec z n by simp
  qed
qed

lemma f64_to_ui32_result:
  "f64_to_ui32 a mode ex st = map_prod word_of_int id (fp_to_int 53 11 0 (2 ^ 32 - 1) (unat a) mode ex st)"
proof -
  define A where "A = (a :: u64)"
  have u: "unat a = unat A" by (simp add: A_def)
  have l: "unat A < 2 ^ (11 + 53)" using unat_less_64 [of a] unfolding u by simp
  define e where "e = expF64UI A"
  define S where "S = (if e \<noteq> 0 then fracF64UI A OR 0x0010000000000000 else fracF64UI A)"
  define X where "X = S"
  define Z where "Z = (if 0 < 0x42C - e then softfloat_shiftRightJam64 X (word_of_int (0x42C - e)) else X)"
  define N where "N = fp_mag 53 11 (unat A)"
  note m = mag_sig_F64 [of A, folded e_def, folded S_def N_def]
  have e: "0 \<le> e" "e < 2 ^ 11" using f64.exp_range [of A] by (simp_all add: e_def)
  have X: "unat X = unat S * 2 ^ 0" unfolding X_def by simp
  have code: "f64_to_ui32 a mode ex st = softfloat_roundPackToUI32
      (if e = 0x7FF \<and> fracF64UI A \<noteq> 0 then False else signF64UI A) Z mode ex st"
    by (simp only: f64_to_ui32_def Let_def A_def [symmetric] e_def [symmetric] S_def [symmetric] X_def [symmetric] Z_def [symmetric])
  note cls = f64.classify [of A, simplified, folded e_def]
  have spec: "fp_to_int 53 11 0 (2 ^ 32 - 1) (unat A) mode ex st =
    (if e = 0x7FF then (if signF64UI A \<and> fracF64UI A = 0 then 0 else (2 ^ 32 - 1), softfloat_raiseFlags softfloat_flag_invalid st)
     else int_result 0 (2 ^ 32 - 1) (signF64UI A) (round_quot (rmode_of mode) (signF64UI A) N (2 ^ 1074)) (ex \<and> N mod 2 ^ 1074 \<noteq> 0) st)"
    unfolding fp_to_int_def f64.neg_sign [OF l] N_def [symmetric] Let_def using cls by simp
  show ?thesis
  proof (cases "e \<le> 0x42C")
    case True
    have eq: "N * 2 ^ (0x42C + 7) = unat X * 2 ^ nat e * 2 ^ 1074" if "e \<noteq> 0"
    proof -
      have "nat e \<noteq> 0" using that e by simp
      then obtain k where k: "nat e = Suc k" by (cases "nat e") simp_all
      show ?thesis unfolding m(3) [OF that] X k by (simp add: ac_simps flip: power_add)
    qed
    have zero: "2 * N < 2 ^ 1074 \<and> 2 * unat X < 2 ^ (0x42C + 7) \<and> (N = 0 \<longleftrightarrow> unat X = 0)" if "e = 0"
      using m(1,2) [OF that] unfolding X by simp
    have ub: "e \<le> int 0x42C" "(0x42C :: nat) < 2 ^ 16" "(0 :: nat) < 2 ^ 1074" using True by simp_all
    note jc = jam_class [OF e(1) ub eq zero, unfolded of_nat_numeral, folded Z_def]
    have "unat Z < 2 ^ 63" using jc(2) X m(5) by simp
    note r = roundPackToUI32_result [OF this]
    show ?thesis unfolding code r u spec using int_result_class [OF jc(1)] True by simp
  next
    case False
    then have "e \<noteq> 0" by simp
    note m = m(3,4) [OF this] m(5)
    have Z: "Z = X" using False by (simp add: Z_def)
    have "unat Z < 2 ^ 63" unfolding Z X using m(3) by simp
    note r = roundPackToUI32_result [OF this]
    have "2 ^ 33 * 2 ^ 7 \<le> unat Z" unfolding Z X using m(2) by simp
    then have "2 ^ 33 \<le> round_quot (rmode_of mode) s (unat Z) (2 ^ 7)" for s by (intro round_quot_ge) simp_all
    then have z: "int_result 0 (2 ^ 32 - 1) s (round_quot (rmode_of mode) s (unat Z) (2 ^ 7)) nx st =
        (if s then 0 else (2 ^ 32 - 1), softfloat_raiseFlags softfloat_flag_invalid st)" for s nx
      by (rule int_result_large) simp_all
    have "(2 :: nat) ^ (33 + 1074) \<le> 2 ^ (52 + (nat e - 1))" using False by (intro power_increasing) simp_all
    also have "\<dots> \<le> N" unfolding m(1) power_add using m(2) by (rule mult_right_mono) simp
    finally have "2 ^ 33 * 2 ^ 1074 \<le> N" by (simp only: power_add)
    then have "2 ^ 33 \<le> round_quot (rmode_of mode) s N (2 ^ 1074)" for s by (intro round_quot_ge) simp_all
    then have n: "int_result 0 (2 ^ 32 - 1) s (round_quot (rmode_of mode) s N (2 ^ 1074)) nx st =
        (if s then 0 else (2 ^ 32 - 1), softfloat_raiseFlags softfloat_flag_invalid st)" for s nx
      by (rule int_result_large) simp_all
    show ?thesis unfolding code r u spec z n by simp
  qed
qed

subsection \<open>Conversions to 64 bits\<close>

lemma extra_class_shift:
  fixes X :: u64 and e :: int
  assumes e: "0 \<le> e" "e < int B" "B < 2 ^ 16" and D: "0 < D"
    and pos: "e \<noteq> 0 \<Longrightarrow> N * 2 ^ B = unat X * 2 ^ nat e * D"
    and zero: "e = 0 \<Longrightarrow> 2 * N < D \<and> 2 * unat X < 2 ^ B \<and> (N = 0 \<longleftrightarrow> unat X = 0)"
  defines "z \<equiv> softfloat_shiftRightJam64Extra X 0 (word_of_int (int B - e))"
  shows "frac_class (unat (ue_v z) * 2 ^ 64 + unat (ue_extra z)) (2 ^ 64) = frac_class N D"
proof -
  define d where "d = nat (int B - e)"
  have d: "int B - e = int d" "B = d + nat e" "0 < d" using e by (auto simp: d_def)
  have "unat (word_of_int (int d) :: u64) = d" using e d by (simp add: unat_of_nat)
  then have "frac_class (unat (ue_v z) * 2 ^ 64 + unat (ue_extra z)) (2 ^ 64) = frac_class (unat X) (2 ^ d)"
    unfolding z_def d(1) using shiftRightJam64Extra_class [of "word_of_int (int d)" X] d(3) by simp
  also have "\<dots> = frac_class N D"
  proof (cases "e = 0")
    case True
    then show ?thesis using zero d by (intro frac_class_small) (simp_all add: power_add)
  next
    case False
    have "(unat X * D) * 2 ^ nat e = (N * 2 ^ d) * 2 ^ nat e"
      using pos [OF False] unfolding d(2) by (simp add: power_add ac_simps)
    then have "unat X * D = N * 2 ^ d" by simp
    then show ?thesis using D by (intro frac_class_cong) simp_all
  qed
  finally show ?thesis .
qed

lemma extra_class_F32:
  fixes S :: u64
  assumes e: "0 \<le> e" "e \<le> 0xBE" and z: "e = 0 \<Longrightarrow> N = unat S" "e = 0 \<Longrightarrow> unat S < 2 ^ 23"
    and p: "e \<noteq> 0 \<Longrightarrow> N = unat S * 2 ^ (nat e - 1)" "unat S < 2 ^ 24"
  defines "z \<equiv> (if 0xBE - e \<noteq> 0 then softfloat_shiftRightJam64Extra (push_bit 40 S) 0 (word_of_int (0xBE - e))
       else \<lparr>ue_extra = 0, ue_v = push_bit 40 S\<rparr>)"
  shows "frac_class (unat (ue_v z) * 2 ^ 64 + unat (ue_extra z)) (2 ^ 64) = frac_class N (2 ^ 149)"
proof -
  have X: "unat (push_bit 40 S) = unat S * 2 ^ 40" using p(2) by (subst unat_push_small) simp_all
  have pos: "N * 2 ^ 0xBE = unat (push_bit 40 S) * 2 ^ nat e * 2 ^ 149" if "e \<noteq> 0"
  proof -
    have "nat e \<noteq> 0" using that e by simp
    then obtain k where k: "nat e = Suc k" by (cases "nat e") simp_all
    show ?thesis unfolding p(1) [OF that] X k by (simp add: ac_simps flip: power_add)
  qed
  show ?thesis
  proof (cases "e = 0xBE")
    case True
    have "frac_class (unat (push_bit 40 S) * 2 ^ 64) (2 ^ 64) = frac_class N (2 ^ 149)"
      using pos True by (intro frac_class_cong) simp_all
    then show ?thesis using True by (simp add: z_def)
  next
    case False
    have "2 * N < 2 ^ 149 \<and> 2 * unat (push_bit 40 S) < 2 ^ 0xBE \<and> (N = 0 \<longleftrightarrow> unat (push_bit 40 S) = 0)" if "e = 0"
      using z [OF that] unfolding X by simp
    then show ?thesis
      using extra_class_shift [where e = e and B = "0xBE" and D = "2 ^ 149" and N = N and X = "push_bit 40 S"] pos e False by (simp add: z_def)
  qed
qed

lemma extra_class_F64:
  fixes S :: u64
  assumes e: "0 \<le> e" "e \<le> 0x43E" and z: "e = 0 \<Longrightarrow> N = unat S" "e = 0 \<Longrightarrow> unat S < 2 ^ 52"
    and p: "e \<noteq> 0 \<Longrightarrow> N = unat S * 2 ^ (nat e - 1)" "unat S < 2 ^ 53"
  defines "z \<equiv> (if 0x433 - e \<le> 0 then \<lparr>ue_extra = 0, ue_v = push_bit (nat (- (0x433 - e))) S\<rparr>
       else softfloat_shiftRightJam64Extra S 0 (word_of_int (0x433 - e)))"
  shows "frac_class (unat (ue_v z) * 2 ^ 64 + unat (ue_extra z)) (2 ^ 64) = frac_class N (2 ^ 1074)"
proof (cases "e < 0x433")
  case True
  have pos: "N * 2 ^ 0x433 = unat S * 2 ^ nat e * 2 ^ 1074" if "e \<noteq> 0"
  proof -
    have "nat e \<noteq> 0" using that e by simp
    then obtain k where k: "nat e = Suc k" by (cases "nat e") simp_all
    show ?thesis unfolding p(1) [OF that] k by (simp add: ac_simps flip: power_add)
  qed
  have "2 * N < 2 ^ 1074 \<and> 2 * unat S < 2 ^ 0x433 \<and> (N = 0 \<longleftrightarrow> unat S = 0)" if "e = 0"
    using z [OF that] by simp
  then show ?thesis
    using extra_class_shift [where e = e and B = "0x433" and D = "2 ^ 1074" and N = N and X = S] pos e True by (simp add: z_def)
next
  case False
  define k where "k = nat (e - 0x433)"
  have k: "nat (- (0x433 - e)) = k" "nat e = 0x433 + k" "k \<le> 11" using False e by (simp_all add: k_def nat_diff_distrib)
  have "unat S * 2 ^ k \<le> unat S * 2 ^ 11" using k(3) by (intro mult_left_mono power_increasing) simp_all
  also have "\<dots> < 2 ^ 64" using p(2) by simp
  finally have X: "unat (push_bit k S) = unat S * 2 ^ k" by (intro unat_push_small) simp
  have k1: "nat e - 1 = 1074 + k" using k(2) by simp
  have "e \<noteq> 0" using False by simp
  then have "(unat S * 2 ^ k * 2 ^ 64) * 2 ^ 1074 = N * 2 ^ 64"
    unfolding p(1) [OF \<open>e \<noteq> 0\<close>] k1 by (simp only: power_add ac_simps)
  then have "frac_class (unat S * 2 ^ k * 2 ^ 64) (2 ^ 64) = frac_class N (2 ^ 1074)"
    by (intro frac_class_cong) simp_all
  then show ?thesis using False unfolding z_def k(1) by (simp add: X)
qed

lemma f32_to_i64_result:
  "f32_to_i64 a mode ex st =  (fp_to_int 24 8 (- (2 ^ 63)) (2 ^ 63 - 1) (unat a) mode ex st)"
proof -
  define A where "A = (ucast a :: u64)"
  have u: "unat a = unat A" by (simp add: A_def)
  have l: "unat A < 2 ^ (8 + 24)" using unat_less_32 [of a] unfolding u by simp
  define e where "e = expF32UI A"
  define S where "S = (if e \<noteq> 0 then fracF32UI A OR 0x00800000 else fracF32UI A)"
  define N where "N = fp_mag 24 8 (unat A)"
  note m = mag_sig_F32 [of A, folded e_def, folded S_def N_def]
  have e: "0 \<le> e" "e < 2 ^ 8" using f32.exp_range [of A] by (simp_all add: e_def)
  note cls = f32.classify [of A, simplified, folded e_def]
  have spec: "fp_to_int 24 8 (- (2 ^ 63)) (2 ^ 63 - 1) (unat A) mode ex st =
    (if e = 0xFF then (if signF32UI A \<and> fracF32UI A = 0 then (- (2 ^ 63)) else (2 ^ 63 - 1), softfloat_raiseFlags softfloat_flag_invalid st)
     else int_result (- (2 ^ 63)) (2 ^ 63 - 1) (signF32UI A) (round_quot (rmode_of mode) (signF32UI A) N (2 ^ 149)) (ex \<and> N mod 2 ^ 149 \<noteq> 0) st)"
    unfolding fp_to_int_def f32.neg_sign [OF l] N_def [symmetric] Let_def using cls by simp
  show ?thesis
  proof (cases "e \<le> 0xBE")
    case True
    define z where "z = (if 0xBE - e \<noteq> 0 then softfloat_shiftRightJam64Extra (push_bit 40 S) 0 (word_of_int (0xBE - e))
       else \<lparr>ue_extra = 0, ue_v = push_bit 40 S\<rparr>)"
    have code: "f32_to_i64 a mode ex st = softfloat_roundPackToI64 (signF32UI A) (ue_v z) (ue_extra z) mode ex st"
      unfolding z_def f32_to_i64_def Let_def A_def [symmetric] e_def [symmetric] S_def [symmetric]
      using True by simp
    have "frac_class (unat (ue_v z) * 2 ^ 64 + unat (ue_extra z)) (2 ^ 64) = frac_class N (2 ^ 149)"
      unfolding z_def by (rule extra_class_F32 [OF e(1) True m(1,2,3,5)])
    note c = int_result_class [OF this]
    have "(unat (ue_v z) * 2 ^ 64 + unat (ue_extra z)) mod 2 ^ 64 \<noteq> 0 \<longleftrightarrow> ue_extra z \<noteq> 0"
      using unat_less_64 [of "ue_extra z"] by (simp add: unat_eq_0)
    then show ?thesis unfolding code roundPackToI64_result u spec using c True by simp
  next
    case False
    then have "e \<noteq> 0" by simp
    note m = m(3,4) [OF this]
    have "(2 :: nat) ^ (64 + 149) \<le> 2 ^ (23 + (nat e - 1))" using False by (intro power_increasing) simp_all
    also have "\<dots> \<le> N" unfolding m(1) power_add using m(2) by (rule mult_right_mono) simp
    finally have "2 ^ 64 * 2 ^ 149 \<le> N" by (simp only: power_add)
    then have "2 ^ 64 \<le> round_quot (rmode_of mode) s N (2 ^ 149)" for s by (intro round_quot_ge) simp_all
    then have n: "int_result (- (2 ^ 63)) (2 ^ 63 - 1) s (round_quot (rmode_of mode) s N (2 ^ 149)) nx st =
        (if s then (- (2 ^ 63)) else (2 ^ 63 - 1), softfloat_raiseFlags softfloat_flag_invalid st)" for s nx
      by (rule int_result_large) simp_all
    have "f32_to_i64 a mode ex st =  (if signF32UI A \<and> (e = 0xFF \<longrightarrow> fracF32UI A = 0) then (- (2 ^ 63)) else (2 ^ 63 - 1),
        softfloat_raiseFlags softfloat_flag_invalid st)"
      unfolding f32_to_i64_def Let_def A_def [symmetric] e_def [symmetric] from_vals using False by simp
    then show ?thesis unfolding u spec n by auto
  qed
qed

lemma f64_to_i64_result:
  "f64_to_i64 a mode ex st =  (fp_to_int 53 11 (- (2 ^ 63)) (2 ^ 63 - 1) (unat a) mode ex st)"
proof -
  define A where "A = (a :: u64)"
  have u: "unat a = unat A" by (simp add: A_def)
  have l: "unat A < 2 ^ (11 + 53)" using unat_less_64 [of a] unfolding u by simp
  define e where "e = expF64UI A"
  define S where "S = (if e \<noteq> 0 then fracF64UI A OR 0x0010000000000000 else fracF64UI A)"
  define N where "N = fp_mag 53 11 (unat A)"
  note m = mag_sig_F64 [of A, folded e_def, folded S_def N_def]
  have e: "0 \<le> e" "e < 2 ^ 11" using f64.exp_range [of A] by (simp_all add: e_def)
  note cls = f64.classify [of A, simplified, folded e_def]
  have spec: "fp_to_int 53 11 (- (2 ^ 63)) (2 ^ 63 - 1) (unat A) mode ex st =
    (if e = 0x7FF then (if signF64UI A \<and> fracF64UI A = 0 then (- (2 ^ 63)) else (2 ^ 63 - 1), softfloat_raiseFlags softfloat_flag_invalid st)
     else int_result (- (2 ^ 63)) (2 ^ 63 - 1) (signF64UI A) (round_quot (rmode_of mode) (signF64UI A) N (2 ^ 1074)) (ex \<and> N mod 2 ^ 1074 \<noteq> 0) st)"
    unfolding fp_to_int_def f64.neg_sign [OF l] N_def [symmetric] Let_def using cls by simp
  show ?thesis
  proof (cases "e \<le> 0x43E")
    case True
    define z where "z = (if 0x433 - e \<le> 0 then \<lparr>ue_extra = 0, ue_v = push_bit (nat (- (0x433 - e))) S\<rparr>
       else softfloat_shiftRightJam64Extra S 0 (word_of_int (0x433 - e)))"
    have code: "f64_to_i64 a mode ex st = softfloat_roundPackToI64 (signF64UI A) (ue_v z) (ue_extra z) mode ex st"
      unfolding z_def f64_to_i64_def Let_def A_def [symmetric] e_def [symmetric] S_def [symmetric]
      using True by simp
    have "frac_class (unat (ue_v z) * 2 ^ 64 + unat (ue_extra z)) (2 ^ 64) = frac_class N (2 ^ 1074)"
      unfolding z_def by (rule extra_class_F64 [OF e(1) True m(1,2,3,5)])
    note c = int_result_class [OF this]
    have "(unat (ue_v z) * 2 ^ 64 + unat (ue_extra z)) mod 2 ^ 64 \<noteq> 0 \<longleftrightarrow> ue_extra z \<noteq> 0"
      using unat_less_64 [of "ue_extra z"] by (simp add: unat_eq_0)
    then show ?thesis unfolding code roundPackToI64_result u spec using c True by simp
  next
    case False
    then have "e \<noteq> 0" by simp
    note m = m(3,4) [OF this]
    have "(2 :: nat) ^ (64 + 1074) \<le> 2 ^ (52 + (nat e - 1))" using False by (intro power_increasing) simp_all
    also have "\<dots> \<le> N" unfolding m(1) power_add using m(2) by (rule mult_right_mono) simp
    finally have "2 ^ 64 * 2 ^ 1074 \<le> N" by (simp only: power_add)
    then have "2 ^ 64 \<le> round_quot (rmode_of mode) s N (2 ^ 1074)" for s by (intro round_quot_ge) simp_all
    then have n: "int_result (- (2 ^ 63)) (2 ^ 63 - 1) s (round_quot (rmode_of mode) s N (2 ^ 1074)) nx st =
        (if s then (- (2 ^ 63)) else (2 ^ 63 - 1), softfloat_raiseFlags softfloat_flag_invalid st)" for s nx
      by (rule int_result_large) simp_all
    have "f64_to_i64 a mode ex st =  (if signF64UI A \<and> (e = 0x7FF \<longrightarrow> fracF64UI A = 0) then (- (2 ^ 63)) else (2 ^ 63 - 1),
        softfloat_raiseFlags softfloat_flag_invalid st)"
      unfolding f64_to_i64_def Let_def A_def [symmetric] e_def [symmetric] from_vals using False by simp
    then show ?thesis unfolding u spec n by auto
  qed
qed

lemma f32_to_ui64_result:
  "f32_to_ui64 a mode ex st = map_prod word_of_int id (fp_to_int 24 8 0 (2 ^ 64 - 1) (unat a) mode ex st)"
proof -
  define A where "A = (ucast a :: u64)"
  have u: "unat a = unat A" by (simp add: A_def)
  have l: "unat A < 2 ^ (8 + 24)" using unat_less_32 [of a] unfolding u by simp
  define e where "e = expF32UI A"
  define S where "S = (if e \<noteq> 0 then fracF32UI A OR 0x00800000 else fracF32UI A)"
  define N where "N = fp_mag 24 8 (unat A)"
  note m = mag_sig_F32 [of A, folded e_def, folded S_def N_def]
  have e: "0 \<le> e" "e < 2 ^ 8" using f32.exp_range [of A] by (simp_all add: e_def)
  note cls = f32.classify [of A, simplified, folded e_def]
  have spec: "fp_to_int 24 8 0 (2 ^ 64 - 1) (unat A) mode ex st =
    (if e = 0xFF then (if signF32UI A \<and> fracF32UI A = 0 then 0 else (2 ^ 64 - 1), softfloat_raiseFlags softfloat_flag_invalid st)
     else int_result 0 (2 ^ 64 - 1) (signF32UI A) (round_quot (rmode_of mode) (signF32UI A) N (2 ^ 149)) (ex \<and> N mod 2 ^ 149 \<noteq> 0) st)"
    unfolding fp_to_int_def f32.neg_sign [OF l] N_def [symmetric] Let_def using cls by simp
  show ?thesis
  proof (cases "e \<le> 0xBE")
    case True
    define z where "z = (if 0xBE - e \<noteq> 0 then softfloat_shiftRightJam64Extra (push_bit 40 S) 0 (word_of_int (0xBE - e))
       else \<lparr>ue_extra = 0, ue_v = push_bit 40 S\<rparr>)"
    have code: "f32_to_ui64 a mode ex st = softfloat_roundPackToUI64 (signF32UI A) (ue_v z) (ue_extra z) mode ex st"
      unfolding z_def f32_to_ui64_def Let_def A_def [symmetric] e_def [symmetric] S_def [symmetric]
      using True by simp
    have "frac_class (unat (ue_v z) * 2 ^ 64 + unat (ue_extra z)) (2 ^ 64) = frac_class N (2 ^ 149)"
      unfolding z_def by (rule extra_class_F32 [OF e(1) True m(1,2,3,5)])
    note c = int_result_class [OF this]
    have "(unat (ue_v z) * 2 ^ 64 + unat (ue_extra z)) mod 2 ^ 64 \<noteq> 0 \<longleftrightarrow> ue_extra z \<noteq> 0"
      using unat_less_64 [of "ue_extra z"] by (simp add: unat_eq_0)
    then show ?thesis unfolding code roundPackToUI64_result u spec using c True by simp
  next
    case False
    then have "e \<noteq> 0" by simp
    note m = m(3,4) [OF this]
    have "(2 :: nat) ^ (64 + 149) \<le> 2 ^ (23 + (nat e - 1))" using False by (intro power_increasing) simp_all
    also have "\<dots> \<le> N" unfolding m(1) power_add using m(2) by (rule mult_right_mono) simp
    finally have "2 ^ 64 * 2 ^ 149 \<le> N" by (simp only: power_add)
    then have "2 ^ 64 \<le> round_quot (rmode_of mode) s N (2 ^ 149)" for s by (intro round_quot_ge) simp_all
    then have n: "int_result 0 (2 ^ 64 - 1) s (round_quot (rmode_of mode) s N (2 ^ 149)) nx st =
        (if s then 0 else (2 ^ 64 - 1), softfloat_raiseFlags softfloat_flag_invalid st)" for s nx
      by (rule int_result_large) simp_all
    have "f32_to_ui64 a mode ex st = map_prod word_of_int id (if signF32UI A \<and> (e = 0xFF \<longrightarrow> fracF32UI A = 0) then 0 else (2 ^ 64 - 1),
        softfloat_raiseFlags softfloat_flag_invalid st)"
      unfolding f32_to_ui64_def Let_def A_def [symmetric] e_def [symmetric] from_vals using False by simp
    then show ?thesis unfolding u spec n by auto
  qed
qed

lemma f64_to_ui64_result:
  "f64_to_ui64 a mode ex st = map_prod word_of_int id (fp_to_int 53 11 0 (2 ^ 64 - 1) (unat a) mode ex st)"
proof -
  define A where "A = (a :: u64)"
  have u: "unat a = unat A" by (simp add: A_def)
  have l: "unat A < 2 ^ (11 + 53)" using unat_less_64 [of a] unfolding u by simp
  define e where "e = expF64UI A"
  define S where "S = (if e \<noteq> 0 then fracF64UI A OR 0x0010000000000000 else fracF64UI A)"
  define N where "N = fp_mag 53 11 (unat A)"
  note m = mag_sig_F64 [of A, folded e_def, folded S_def N_def]
  have e: "0 \<le> e" "e < 2 ^ 11" using f64.exp_range [of A] by (simp_all add: e_def)
  note cls = f64.classify [of A, simplified, folded e_def]
  have spec: "fp_to_int 53 11 0 (2 ^ 64 - 1) (unat A) mode ex st =
    (if e = 0x7FF then (if signF64UI A \<and> fracF64UI A = 0 then 0 else (2 ^ 64 - 1), softfloat_raiseFlags softfloat_flag_invalid st)
     else int_result 0 (2 ^ 64 - 1) (signF64UI A) (round_quot (rmode_of mode) (signF64UI A) N (2 ^ 1074)) (ex \<and> N mod 2 ^ 1074 \<noteq> 0) st)"
    unfolding fp_to_int_def f64.neg_sign [OF l] N_def [symmetric] Let_def using cls by simp
  show ?thesis
  proof (cases "e \<le> 0x43E")
    case True
    define z where "z = (if 0x433 - e \<le> 0 then \<lparr>ue_extra = 0, ue_v = push_bit (nat (- (0x433 - e))) S\<rparr>
       else softfloat_shiftRightJam64Extra S 0 (word_of_int (0x433 - e)))"
    have code: "f64_to_ui64 a mode ex st = softfloat_roundPackToUI64 (signF64UI A) (ue_v z) (ue_extra z) mode ex st"
      unfolding z_def f64_to_ui64_def Let_def A_def [symmetric] e_def [symmetric] S_def [symmetric]
      using True by simp
    have "frac_class (unat (ue_v z) * 2 ^ 64 + unat (ue_extra z)) (2 ^ 64) = frac_class N (2 ^ 1074)"
      unfolding z_def by (rule extra_class_F64 [OF e(1) True m(1,2,3,5)])
    note c = int_result_class [OF this]
    have "(unat (ue_v z) * 2 ^ 64 + unat (ue_extra z)) mod 2 ^ 64 \<noteq> 0 \<longleftrightarrow> ue_extra z \<noteq> 0"
      using unat_less_64 [of "ue_extra z"] by (simp add: unat_eq_0)
    then show ?thesis unfolding code roundPackToUI64_result u spec using c True by simp
  next
    case False
    then have "e \<noteq> 0" by simp
    note m = m(3,4) [OF this]
    have "(2 :: nat) ^ (64 + 1074) \<le> 2 ^ (52 + (nat e - 1))" using False by (intro power_increasing) simp_all
    also have "\<dots> \<le> N" unfolding m(1) power_add using m(2) by (rule mult_right_mono) simp
    finally have "2 ^ 64 * 2 ^ 1074 \<le> N" by (simp only: power_add)
    then have "2 ^ 64 \<le> round_quot (rmode_of mode) s N (2 ^ 1074)" for s by (intro round_quot_ge) simp_all
    then have n: "int_result 0 (2 ^ 64 - 1) s (round_quot (rmode_of mode) s N (2 ^ 1074)) nx st =
        (if s then 0 else (2 ^ 64 - 1), softfloat_raiseFlags softfloat_flag_invalid st)" for s nx
      by (rule int_result_large) simp_all
    have "f64_to_ui64 a mode ex st = map_prod word_of_int id (if signF64UI A \<and> (e = 0x7FF \<longrightarrow> fracF64UI A = 0) then 0 else (2 ^ 64 - 1),
        softfloat_raiseFlags softfloat_flag_invalid st)"
      unfolding f64_to_ui64_def Let_def A_def [symmetric] e_def [symmetric] from_vals using False by simp
    then show ?thesis unfolding u spec n by auto
  qed
qed

subsection \<open>Truncating conversions\<close>

lemma RTZ_result:
  "rmode_of softfloat_round_minMag = RTZ" "round_quot RTZ s N D = N div D"
  by (simp_all add: rmode_of_def softfloat_consts round_quot_def round_up_def)

lemma trunc_in_range:
  assumes c: "frac_class X (2 ^ d) = frac_class N D"
    and v: "v = (if s then - int (X div 2 ^ d) else int (X div 2 ^ d))" "lo \<le> v" "v \<le> hi"
  shows "int_result lo hi s (N div D) (ex \<and> N mod D \<noteq> 0) st =
    (v, if ex \<and> X mod 2 ^ d \<noteq> 0 then softfloat_raiseFlags softfloat_flag_inexact st else st)"
  using assms by (auto simp: int_result_def frac_class_def)

lemma trunc_zero:
  assumes "N < D" "lo \<le> 0" "0 \<le> hi"
  shows "int_result lo hi s (N div D) (ex \<and> N mod D \<noteq> 0) st =
    (0, if ex \<and> N \<noteq> 0 then softfloat_raiseFlags softfloat_flag_inexact st else st)"
  using assms by (simp add: int_result_def)

lemma shift_back:
  fixes X :: u64
  shows "push_bit d (drop_bit d X) \<noteq> X \<longleftrightarrow> unat X mod 2 ^ d \<noteq> 0"
proof -
  have "unat X div 2 ^ d * 2 ^ d \<le> unat X" by (rule div_times_less_eq_dividend)
  also have "unat X < 2 ^ 64" by (rule unat_less_64)
  finally have eq: "unat (push_bit d (drop_bit d X)) = unat X div 2 ^ d * 2 ^ d"
    by (subst unat_push_small) (simp_all add: unat_drop)
  show ?thesis unfolding word_unat_eq_iff eq using div_mult_mod_eq [of "unat X" "2 ^ d"] by linarith
qed

lemma low_part_32:
  fixes S :: u64
  assumes "40 < d" "d < 64"
  shows "(ucast (push_bit (nat ((40 - int d) AND 31)) S) :: u32) \<noteq> 0 \<longleftrightarrow> unat S * 2 ^ 40 mod 2 ^ d \<noteq> 0"
proof -
  define k where "k = d - 40"
  have k: "d = k + 40" "0 < k" "k < 24" using assms by (simp_all add: k_def)
  have "(40 - int d) AND 31 = (- int k) mod 2 ^ 5"
    using take_bit_eq_mask [of 5 "- int k"] k(1) by (simp add: mask_eq_exp_minus_1 take_bit_eq_mod)
  also have "\<dots> = 32 - int k" using k by (subst minus_mod_int_eq) simp_all
  finally have n: "nat ((40 - int d) AND 31) = 32 - k" using k by simp
  have p: "(2::nat) ^ 32 = 2 ^ k * 2 ^ (32 - k)" using k by (simp flip: power_add)
  have "unat (ucast (push_bit (32 - k) S) :: u32) = unat S * 2 ^ (32 - k) mod 2 ^ 64 mod 2 ^ 32"
    by (simp add: unat_ucast unat_push)
  also have "\<dots> = unat S * 2 ^ (32 - k) mod 2 ^ 32" by (simp add: mod_mod_cancel)
  also have "\<dots> = unat S mod 2 ^ k * 2 ^ (32 - k)" unfolding p by (simp only: mult_mod_left)
  finally have "(ucast (push_bit (32 - k) S) :: u32) \<noteq> 0 \<longleftrightarrow> unat S mod 2 ^ k \<noteq> 0"
    by (simp add: word_unat_eq_iff)
  moreover have "unat S * 2 ^ 40 mod 2 ^ d = unat S mod 2 ^ k * 2 ^ 40" unfolding k(1) power_add by (simp only: mult_mod_left)
  ultimately show ?thesis unfolding n by simp
qed

lemma len64: "LENGTH(64) = 64" by simp

lemma low_part_64:
  fixes S :: u64
  assumes "0 < d" "d < 64"
  shows "push_bit (nat (- int d AND 63)) S \<noteq> 0 \<longleftrightarrow> unat S mod 2 ^ d \<noteq> 0"
proof -
  have "- int d AND 63 = (- int d) mod 2 ^ 6"
    using take_bit_eq_mask [of 6 "- int d"] by (simp add: mask_eq_exp_minus_1 take_bit_eq_mod)
  also have "\<dots> = 64 - int d" using assms by (subst minus_mod_int_eq) simp_all
  finally have n: "nat (- int d AND 63) = 64 - d" using assms by simp
  have p: "(2::nat) ^ 64 = 2 ^ d * 2 ^ (64 - d)" using assms by (simp flip: power_add)
  have "unat (push_bit (64 - d) S) = unat S mod 2 ^ d * 2 ^ (64 - d)"
    unfolding unat_push by (simp only: mult_mod_left p len64)
  then show ?thesis unfolding n by (simp add: word_unat_eq_iff)
qed

lemma sint_nonneg_64: "unat w < 2 ^ 63 \<Longrightarrow> sint (w :: u64) = int (unat w)"
  using sint_small [of 63 w] by simp

lemma trunc_bound:
  fixes X :: nat
  assumes "X < 2 ^ (b + c)" "c \<le> d"
  shows "X div 2 ^ d < 2 ^ b"
proof -
  have "X < 2 ^ b * 2 ^ c" using assms(1) by (simp add: power_add)
  also have "\<dots> \<le> 2 ^ b * 2 ^ d" using assms(2) by (intro mult_left_mono power_increasing) simp_all
  finally show ?thesis by (rule less_mult_imp_div_less)
qed

lemma split_21:
  fixes f :: nat
  assumes "f < 2097152"
  shows "(4503599627370496 + f) div 2097152 = 2147483648" "(4503599627370496 + f) mod 2097152 = f"
proof -
  have "(2147483648 * 2097152 + f) div 2097152 = 2147483648" "(2147483648 * 2097152 + f) mod 2097152 = f"
    using assms div_mult_self3 [of 2097152 2147483648 f] mod_mult_self3 [of 2147483648 2097152 f] by simp_all
  then show "(4503599627370496 + f) div 2097152 = 2147483648" "(4503599627370496 + f) mod 2097152 = f" by simp_all
qed

lemma or_hidden_F32: "unat (fracF32UI A OR 0x00800000) = 2 ^ 23 + unat (fracF32UI A)"
  using unat_or_disjoint [of "0x00800000 :: u64" 23 "fracF32UI A"] f32.frac_range [of A] by (simp add: or.commute)

lemma or_hidden_F64: "unat (fracF64UI A OR 0x0010000000000000) = 2 ^ 52 + unat (fracF64UI A)"
  using unat_or_disjoint [of "0x0010000000000000 :: u64" 52 "fracF64UI A"] f64.frac_range [of A] by (simp add: or.commute)

lemma fields_F32:
  fixes A :: u64
  assumes "unat A < 2 ^ (8 + 24)"
  shows "unat A = of_bool (signF32UI A) * 2 ^ 31 + nat (expF32UI A) * 2 ^ 23 + unat (fracF32UI A)"
  using f32.mod_bits [OF assms] f32.split_bits [of A] f32.sign_law [OF assms] by (cases "signF32UI A") simp_all

lemma mag_ge_F32:
  assumes "expF32UI A \<noteq> 0" "int k \<le> expF32UI A"
  shows "2 ^ (23 + k - 1) \<le> fp_mag 24 8 (unat A)"
proof -
  have "(2::nat) ^ (23 + k - 1) \<le> 2 ^ (23 + (nat (expF32UI A) - 1))"
    using assms by (intro power_increasing) linarith+
  also have "\<dots> \<le> fp_mag 24 8 (unat A)"
    unfolding mag_sig_F32(3) [OF assms(1)] power_add using mag_sig_F32(4) [OF assms(1)] by (rule mult_right_mono) simp
  finally show ?thesis .
qed

lemma mag_lt_F32:
  assumes "expF32UI A \<le> int k" "1 \<le> k"
  shows "fp_mag 24 8 (unat A) < 2 ^ (24 + k - 1)"
proof (cases "expF32UI A = 0")
  case True
  have "(2::nat) ^ 23 \<le> 2 ^ (24 + k - 1)" using assms(2) by (intro power_increasing) simp_all
  then show ?thesis using mag_sig_F32(1,2) [OF True] by simp
next
  case False
  have "fp_mag 24 8 (unat A) < 2 ^ 24 * 2 ^ (nat (expF32UI A) - 1)"
    unfolding mag_sig_F32(3) [OF False] using mag_sig_F32(5) [of A] by (intro mult_strict_right_mono) simp_all
  also have "\<dots> = 2 ^ (24 + (nat (expF32UI A) - 1))" by (simp only: power_add)
  also have "\<dots> \<le> 2 ^ (24 + k - 1)" using assms by (intro power_increasing) linarith+
  finally show ?thesis .
qed

lemma mag_class_F32:
  assumes e: "0 < expF32UI A" and d: "int d + expF32UI A = int (149 + 1 + j)"
  shows "frac_class (unat (fracF32UI A OR 0x00800000) * 2 ^ j) (2 ^ d) = frac_class (fp_mag 24 8 (unat A)) (2 ^ 149)"
proof -
  obtain k where k: "nat (expF32UI A) = Suc k" using e by (cases "nat (expF32UI A)") simp_all
  have dk: "j + 149 = k + d" using d k by linarith
  have "unat (fracF32UI A OR 0x00800000) * 2 ^ j * 2 ^ 149 = fp_mag 24 8 (unat A) * 2 ^ d"
    using mag_sig_F32(3) [of A] e k arg_cong [OF dk, of "\<lambda>i. (2 :: nat) ^ i"] by (simp add: power_add ac_simps)
  then show ?thesis by (rule frac_class_cong) simp_all
qed

lemma trunc_spec_F32:
  fixes A :: u64
  assumes l: "unat A < 2 ^ (8 + 24)"
  shows "fp_to_int 24 8 lo hi (unat A) softfloat_round_minMag ex st =
    (if expF32UI A = 0xFF then (if signF32UI A \<and> fracF32UI A = 0 then lo else hi, softfloat_raiseFlags softfloat_flag_invalid st)
     else int_result lo hi (signF32UI A) (fp_mag 24 8 (unat A) div 2 ^ 149) (ex \<and> fp_mag 24 8 (unat A) mod 2 ^ 149 \<noteq> 0) st)"
  unfolding fp_to_int_def f32.neg_sign [OF l] Let_def RTZ_result using f32.classify [of A, simplified] by simp

lemma fields_F64:
  fixes A :: u64
  assumes "unat A < 2 ^ (11 + 53)"
  shows "unat A = of_bool (signF64UI A) * 2 ^ 63 + nat (expF64UI A) * 2 ^ 52 + unat (fracF64UI A)"
  using f64.mod_bits [OF assms] f64.split_bits [of A] f64.sign_law [OF assms] by (cases "signF64UI A") simp_all

lemma mag_ge_F64:
  assumes "expF64UI A \<noteq> 0" "int k \<le> expF64UI A"
  shows "2 ^ (52 + k - 1) \<le> fp_mag 53 11 (unat A)"
proof -
  have "(2::nat) ^ (52 + k - 1) \<le> 2 ^ (52 + (nat (expF64UI A) - 1))"
    using assms by (intro power_increasing) linarith+
  also have "\<dots> \<le> fp_mag 53 11 (unat A)"
    unfolding mag_sig_F64(3) [OF assms(1)] power_add using mag_sig_F64(4) [OF assms(1)] by (rule mult_right_mono) simp
  finally show ?thesis .
qed

lemma mag_lt_F64:
  assumes "expF64UI A \<le> int k" "1 \<le> k"
  shows "fp_mag 53 11 (unat A) < 2 ^ (53 + k - 1)"
proof (cases "expF64UI A = 0")
  case True
  have "(2::nat) ^ 52 \<le> 2 ^ (53 + k - 1)" using assms(2) by (intro power_increasing) simp_all
  then show ?thesis using mag_sig_F64(1,2) [OF True] by simp
next
  case False
  have "fp_mag 53 11 (unat A) < 2 ^ 53 * 2 ^ (nat (expF64UI A) - 1)"
    unfolding mag_sig_F64(3) [OF False] using mag_sig_F64(5) [of A] by (intro mult_strict_right_mono) simp_all
  also have "\<dots> = 2 ^ (53 + (nat (expF64UI A) - 1))" by (simp only: power_add)
  also have "\<dots> \<le> 2 ^ (53 + k - 1)" using assms by (intro power_increasing) linarith+
  finally show ?thesis .
qed

lemma mag_class_F64:
  assumes e: "0 < expF64UI A" and d: "int d + expF64UI A = int (1074 + 1 + j)"
  shows "frac_class (unat (fracF64UI A OR 0x0010000000000000) * 2 ^ j) (2 ^ d) = frac_class (fp_mag 53 11 (unat A)) (2 ^ 1074)"
proof -
  obtain k where k: "nat (expF64UI A) = Suc k" using e by (cases "nat (expF64UI A)") simp_all
  have dk: "j + 1074 = k + d" using d k by linarith
  have "unat (fracF64UI A OR 0x0010000000000000) * 2 ^ j * 2 ^ 1074 = fp_mag 53 11 (unat A) * 2 ^ d"
    using mag_sig_F64(3) [of A] e k arg_cong [OF dk, of "\<lambda>i. (2 :: nat) ^ i"] by (simp add: power_add ac_simps)
  then show ?thesis by (rule frac_class_cong) simp_all
qed

lemma trunc_spec_F64:
  fixes A :: u64
  assumes l: "unat A < 2 ^ (11 + 53)"
  shows "fp_to_int 53 11 lo hi (unat A) softfloat_round_minMag ex st =
    (if expF64UI A = 0x7FF then (if signF64UI A \<and> fracF64UI A = 0 then lo else hi, softfloat_raiseFlags softfloat_flag_invalid st)
     else int_result lo hi (signF64UI A) (fp_mag 53 11 (unat A) div 2 ^ 1074) (ex \<and> fp_mag 53 11 (unat A) mod 2 ^ 1074 \<noteq> 0) st)"
  unfolding fp_to_int_def f64.neg_sign [OF l] Let_def RTZ_result using f64.classify [of A, simplified] by simp

lemma least_pattern_i32:
  assumes "unat A < 2 ^ (8 + 24)"
  shows "A = packToF32UI True 0x9E 0 \<longleftrightarrow> signF32UI A \<and> expF32UI A = 0x9E \<and> fracF32UI A = 0"
proof -
  have "packToF32UI True 0x9E 0 = 0xCF000000" by (simp add: packToF32UI_def push_bit_eq_mult)
  moreover have "nat (expF32UI A) < 256" "unat (fracF32UI A) < 2 ^ 23" using f32.exp_range [of A] f32.frac_range [of A] by simp_all
  moreover have "expF32UI A = 0x9E \<longleftrightarrow> nat (expF32UI A) = 158" using f32.exp_range(1) [of A] by (auto simp: nat_eq_iff)
  ultimately show ?thesis using fields_F32 [OF assms]
    unfolding word_unat_eq_iff by (cases "signF32UI A") auto
qed

lemma least_pattern_i64:
  assumes "unat A < 2 ^ (8 + 24)"
  shows "A = packToF32UI True 0xBE 0 \<longleftrightarrow> signF32UI A \<and> expF32UI A = 0xBE \<and> fracF32UI A = 0"
proof -
  have "packToF32UI True 0xBE 0 = 0xDF000000" by (simp add: packToF32UI_def push_bit_eq_mult)
  moreover have "nat (expF32UI A) < 256" "unat (fracF32UI A) < 2 ^ 23" using f32.exp_range [of A] f32.frac_range [of A] by simp_all
  moreover have "expF32UI A = 0xBE \<longleftrightarrow> nat (expF32UI A) = 190" using f32.exp_range(1) [of A] by (auto simp: nat_eq_iff)
  ultimately show ?thesis using fields_F32 [OF assms]
    unfolding word_unat_eq_iff by (cases "signF32UI A") auto
qed

lemma least_pattern_f64:
  assumes "unat A < 2 ^ (11 + 53)"
  shows "A = packToF64UI True 0x43E 0 \<longleftrightarrow> signF64UI A \<and> expF64UI A = 0x43E \<and> fracF64UI A = 0"
proof -
  have "packToF64UI True 0x43E 0 = 0xC3E0000000000000" by (simp add: packToF64UI_def push_bit_eq_mult)
  moreover have "nat (expF64UI A) < 2048" "unat (fracF64UI A) < 2 ^ 52" using f64.exp_range [of A] f64.frac_range [of A] by simp_all
  moreover have "expF64UI A = 0x43E \<longleftrightarrow> nat (expF64UI A) = 1086" using f64.exp_range(1) [of A] by (auto simp: nat_eq_iff)
  ultimately show ?thesis using fields_F64 [OF assms]
    unfolding word_unat_eq_iff by (cases "signF64UI A") auto
qed

lemma f32_to_i32_r_minMag_result:
  "f32_to_i32_r_minMag a ex st =  (fp_to_int 24 8 (- (2 ^ 31)) (2 ^ 31 - 1) (unat a) softfloat_round_minMag ex st)"
proof -
  define A where "A = (ucast a :: u64)"
  have u: "unat a = unat A" by (simp add: A_def)
  have l: "unat A < 2 ^ (8 + 24)" using unat_less_32 [of a] unfolding u by simp
  define e N S where "e = expF32UI A" and "N = fp_mag 24 8 (unat A)" and "S = fracF32UI A OR 0x00800000"
  have e: "0 \<le> e" "e < 2 ^ 8" using f32.exp_range [of A] by (simp_all add: e_def)
  note spec = trunc_spec_F32 [OF l, folded e_def N_def]
  note defs = f32_to_i32_r_minMag_def Let_def A_def [symmetric] e_def [symmetric] S_def [symmetric] from_vals
  have nz: "e \<noteq> 0 \<or> fracF32UI A \<noteq> 0 \<longleftrightarrow> N \<noteq> 0" unfolding N_def e_def f32.mag_zero by blast
  have S: "2 ^ 23 \<le> unat S" "unat S < 2 ^ 24" "unat S = 2 ^ 23 + unat (fracF32UI A)" if "e \<noteq> 0"
    using that mag_sig_F32(4,5) [of A] or_hidden_F32 [of A] unfolding e_def S_def by simp_all
  have cls: "frac_class (unat S * 2 ^ j) (2 ^ d) = frac_class N (2 ^ 149)" if "0 < e" "int d + e = int (149 + 1 + j)" for d j
    unfolding S_def N_def using that unfolding e_def by (rule mag_class_F32)
  consider (small) "e \<le> 0x7E" | (mid) "0x7E < e" "e \<le> 0x9D" | (big) "0x9D < e" by linarith
  then show ?thesis
  proof cases
    case small
    then have "N < 2 ^ 149" using mag_lt_F32 [of A 126] unfolding N_def e_def by simp
    then have t: "int_result (- (2 ^ 31)) (2 ^ 31 - 1) s (N div 2 ^ 149) (ex \<and> N mod 2 ^ 149 \<noteq> 0) st =
        (0, if ex \<and> N \<noteq> 0 then softfloat_raiseFlags softfloat_flag_inexact st else st)" for s
      by (rule trunc_zero) simp_all
    show ?thesis unfolding u spec t defs nz using small by simp
  next
    case mid
    from mid obtain d where d: "0x9E - e = int d" using nonneg_int_cases [of "0x9E - e"] by auto
    have ed: "e = 0x9E - int d" "e \<noteq> 0xFF" "0 < e" "1 \<le> d" "\<not> 32 \<le> int d" using d mid by simp_all
    have e0: "e \<noteq> 0" using ed(3) by simp
    define X where "X = push_bit 8 S"
    have X: "unat X = unat S * 2 ^ 8" unfolding X_def using S(2) [OF e0] by (subst unat_push_small) simp_all
    have c: "frac_class (unat X) (2 ^ d) = frac_class N (2 ^ 149)"
      unfolding X using ed by (intro cls) simp_all
    have "unat X < 2 ^ (31 + 1)" unfolding X using S(2) [OF e0] by simp
    then have lt: "unat (drop_bit d X) < 2 ^ 31" unfolding unat_drop using ed(4) by (rule trunc_bound)
    then have z: "sint (drop_bit d X) = int (unat X div 2 ^ d)"
      unfolding unat_drop [symmetric] by (intro sint_nonneg_64) simp
    have t: "int_result (- (2 ^ 31)) (2 ^ 31 - 1) s (N div 2 ^ 149) (ex \<and> N mod 2 ^ 149 \<noteq> 0) st =
        (if s then - int (unat X div 2 ^ d) else int (unat X div 2 ^ d),
         if ex \<and> unat X mod 2 ^ d \<noteq> 0 then softfloat_raiseFlags softfloat_flag_inexact st else st)" for s
      by (rule trunc_in_range [OF c refl]) (use lt in \<open>simp_all add: unat_drop\<close>)
    show ?thesis unfolding u spec defs X_def [symmetric] d t using ed z by (simp add: shift_back)
  next
    case big
    then have e0: "e \<noteq> 0" "0 < e" by simp_all
    define least where "least \<longleftrightarrow> signF32UI A \<and> e = 0x9E \<and> fracF32UI A = 0"
    have code: "f32_to_i32_r_minMag a ex st =
      (if least then (- (2 ^ 31), st)
       else (if signF32UI A \<and> (e = 0xFF \<longrightarrow> fracF32UI A = 0) then (- (2 ^ 31)) else (2 ^ 31 - 1), softfloat_raiseFlags softfloat_flag_invalid st))"
      unfolding defs least_def least_pattern_i32 [OF l, folded e_def] using big by auto
    show ?thesis
    proof (cases "e = 0x9E")
      case True
      have c: "frac_class (unat S * 2 ^ 8) (2 ^ 0) = frac_class N (2 ^ 149)"
        using True by (intro cls) simp_all
      have r: "N div 2 ^ 149 = unat S * 2 ^ 8 div 2 ^ 0" using c by (simp add: frac_class_def)
      show ?thesis
      proof (cases least)
        case l: True
        have t: "int_result (- (2 ^ 31)) (2 ^ 31 - 1) True (N div 2 ^ 149) (ex \<and> N mod 2 ^ 149 \<noteq> 0) st = (- (2 ^ 31), st)"
          using l S(3) [OF e0(1)] unfolding least_def by (subst trunc_in_range [OF c refl]) (auto simp: unat_eq_0)
        show ?thesis unfolding code u spec using l t True unfolding least_def by simp
      next
        case l: False
        have "2 ^ 31 \<le> N div 2 ^ 149" "signF32UI A \<Longrightarrow> 2 ^ 31 < N div 2 ^ 149"
          unfolding r using l True S(1,3) [OF e0(1)] unfolding least_def by (auto simp: unat_eq_0 unat_gt_0)
        then have n: "int_result (- (2 ^ 31)) (2 ^ 31 - 1) (signF32UI A) (N div 2 ^ 149) nx st =
            (if signF32UI A then (- (2 ^ 31)) else (2 ^ 31 - 1), softfloat_raiseFlags softfloat_flag_invalid st)" for nx
          by (intro int_result_invalid) simp_all
        show ?thesis unfolding code u spec n using l True by simp
      qed
    next
      case False
      have "2 ^ (23 + 159 - 1) \<le> N" using mag_ge_F32 [of A 159] big False e0 unfolding e_def N_def by simp
      then have "2 ^ Suc 31 \<le> N div 2 ^ 149" by (simp add: less_eq_div_iff_mult_less_eq)
      then have n: "int_result (- (2 ^ 31)) (2 ^ 31 - 1) s (N div 2 ^ 149) nx st = (if s then (- (2 ^ 31)) else (2 ^ 31 - 1), softfloat_raiseFlags softfloat_flag_invalid st)" for s nx
        by (rule int_result_large) simp_all
      show ?thesis unfolding code u spec n using False by (auto simp: least_def)
    qed
  qed
qed

lemma f32_to_ui32_r_minMag_result:
  "f32_to_ui32_r_minMag a ex st = map_prod word_of_int id (fp_to_int 24 8 0 (2 ^ 32 - 1) (unat a) softfloat_round_minMag ex st)"
proof -
  define A where "A = (ucast a :: u64)"
  have u: "unat a = unat A" by (simp add: A_def)
  have l: "unat A < 2 ^ (8 + 24)" using unat_less_32 [of a] unfolding u by simp
  define e N S where "e = expF32UI A" and "N = fp_mag 24 8 (unat A)" and "S = fracF32UI A OR 0x00800000"
  have e: "0 \<le> e" "e < 2 ^ 8" using f32.exp_range [of A] by (simp_all add: e_def)
  note spec = trunc_spec_F32 [OF l, folded e_def N_def]
  note defs = f32_to_ui32_r_minMag_def Let_def A_def [symmetric] e_def [symmetric] S_def [symmetric] from_vals
  have nz: "e \<noteq> 0 \<or> fracF32UI A \<noteq> 0 \<longleftrightarrow> N \<noteq> 0" unfolding N_def e_def f32.mag_zero by blast
  have S: "2 ^ 23 \<le> unat S" "unat S < 2 ^ 24" "unat S = 2 ^ 23 + unat (fracF32UI A)" if "e \<noteq> 0"
    using that mag_sig_F32(4,5) [of A] or_hidden_F32 [of A] unfolding e_def S_def by simp_all
  have cls: "frac_class (unat S * 2 ^ j) (2 ^ d) = frac_class N (2 ^ 149)" if "0 < e" "int d + e = int (149 + 1 + j)" for d j
    unfolding S_def N_def using that unfolding e_def by (rule mag_class_F32)
  consider (small) "e \<le> 0x7E" | (mid) "0x7E < e" "e \<le> 0x9E" | (big) "0x9E < e" by linarith
  then show ?thesis
  proof cases
    case small
    then have "N < 2 ^ 149" using mag_lt_F32 [of A 126] unfolding N_def e_def by simp
    then have t: "int_result 0 (2 ^ 32 - 1) s (N div 2 ^ 149) (ex \<and> N mod 2 ^ 149 \<noteq> 0) st =
        (0, if ex \<and> N \<noteq> 0 then softfloat_raiseFlags softfloat_flag_inexact st else st)" for s
      by (rule trunc_zero) simp_all
    show ?thesis unfolding u spec t defs nz using small by simp
  next
    case mid
    have one: "1 \<le> N div 2 ^ 149"
    proof -
      have "2 ^ (23 + Suc 126 - 1) \<le> N" using mag_ge_F32 [of A "Suc 126"] mid unfolding e_def N_def by simp
      then show ?thesis by (simp add: less_eq_div_iff_mult_less_eq)
    qed
    from mid obtain d where d: "0x9E - e = int d" using nonneg_int_cases [of "0x9E - e"] by auto
    have ed: "e = 0x9E - int d" "e \<noteq> 0xFF" "0 < e" "0 \<le> d" "\<not> 32 \<le> int d" using d mid by simp_all
    have e0: "e \<noteq> 0" using ed(3) by simp
    define X where "X = push_bit 8 S"
    have X: "unat X = unat S * 2 ^ 8" unfolding X_def using S(2) [OF e0] by (subst unat_push_small) simp_all
    have c: "frac_class (unat X) (2 ^ d) = frac_class N (2 ^ 149)"
      unfolding X using ed by (intro cls) simp_all
    have "unat X < 2 ^ (32 + 0)" unfolding X using S(2) [OF e0] by simp
    then have lt: "unat (drop_bit d X) < 2 ^ 32" unfolding unat_drop using ed(4) by (rule trunc_bound)
    then have lt: "unat X div 2 ^ d < 2 ^ 32" by (simp only: unat_drop)
    have q: "drop_bit d X = word_of_int (int (unat X div 2 ^ d))" unfolding unat_drop [symmetric] by simp
    have t: "int_result 0 (2 ^ 32 - 1) False (N div 2 ^ 149) (ex \<and> N mod 2 ^ 149 \<noteq> 0) st =
        (int (unat X div 2 ^ d),
         if ex \<and> unat X mod 2 ^ d \<noteq> 0 then softfloat_raiseFlags softfloat_flag_inexact st else st)"
      by (rule trunc_in_range [OF c]) (use lt in simp_all)
    have n: "int_result 0 (2 ^ 32 - 1) True (N div 2 ^ 149) nx st = (0, softfloat_raiseFlags softfloat_flag_invalid st)" for nx
      using one by (subst int_result_invalid) simp_all
    show ?thesis unfolding u spec defs X_def [symmetric] d nat_int shift_back using ed t n q by (cases "signF32UI A") simp_all
  next
    case big
    then have e0: "e \<noteq> 0" by simp
    have "2 ^ (23 + 159 - 1) \<le> N" using mag_ge_F32 [of A 159] big e0 unfolding e_def N_def by simp
    then have "2 ^ 32 \<le> N div 2 ^ 149" by (simp add: less_eq_div_iff_mult_less_eq)
    then have n: "int_result 0 (2 ^ 32 - 1) s (N div 2 ^ 149) nx st = (if s then 0 else (2 ^ 32 - 1), softfloat_raiseFlags softfloat_flag_invalid st)" for s nx
      by (rule int_result_large) simp_all
    show ?thesis unfolding u spec n defs using big by (cases "signF32UI A") auto
  qed
qed

lemma f32_to_i64_r_minMag_result:
  "f32_to_i64_r_minMag a ex st =  (fp_to_int 24 8 (- (2 ^ 63)) (2 ^ 63 - 1) (unat a) softfloat_round_minMag ex st)"
proof -
  define A where "A = (ucast a :: u64)"
  have u: "unat a = unat A" by (simp add: A_def)
  have l: "unat A < 2 ^ (8 + 24)" using unat_less_32 [of a] unfolding u by simp
  define e N S where "e = expF32UI A" and "N = fp_mag 24 8 (unat A)" and "S = fracF32UI A OR 0x00800000"
  have e: "0 \<le> e" "e < 2 ^ 8" using f32.exp_range [of A] by (simp_all add: e_def)
  note spec = trunc_spec_F32 [OF l, folded e_def N_def]
  note defs = f32_to_i64_r_minMag_def Let_def A_def [symmetric] e_def [symmetric] S_def [symmetric] from_vals
  have nz: "e \<noteq> 0 \<or> fracF32UI A \<noteq> 0 \<longleftrightarrow> N \<noteq> 0" unfolding N_def e_def f32.mag_zero by blast
  have S: "2 ^ 23 \<le> unat S" "unat S < 2 ^ 24" "unat S = 2 ^ 23 + unat (fracF32UI A)" if "e \<noteq> 0"
    using that mag_sig_F32(4,5) [of A] or_hidden_F32 [of A] unfolding e_def S_def by simp_all
  have cls: "frac_class (unat S * 2 ^ j) (2 ^ d) = frac_class N (2 ^ 149)" if "0 < e" "int d + e = int (149 + 1 + j)" for d j
    unfolding S_def N_def using that unfolding e_def by (rule mag_class_F32)
  consider (small) "e \<le> 0x7E" | (mid) "0x7E < e" "e \<le> 0xBD" | (big) "0xBD < e" by linarith
  then show ?thesis
  proof cases
    case small
    then have "N < 2 ^ 149" using mag_lt_F32 [of A 126] unfolding N_def e_def by simp
    then have t: "int_result (- (2 ^ 63)) (2 ^ 63 - 1) s (N div 2 ^ 149) (ex \<and> N mod 2 ^ 149 \<noteq> 0) st =
        (0, if ex \<and> N \<noteq> 0 then softfloat_raiseFlags softfloat_flag_inexact st else st)" for s
      by (rule trunc_zero) simp_all
    show ?thesis unfolding u spec t defs nz using small by simp
  next
    case mid
    from mid obtain d where d: "0xBE - e = int d" using nonneg_int_cases [of "0xBE - e"] by auto
    have ed: "e = 0xBE - int d" "e \<noteq> 0xFF" "0 < e" "1 \<le> d" "\<not> 64 \<le> int d" using d mid by simp_all
    have e0: "e \<noteq> 0" using ed(3) by simp
    define X where "X = push_bit 40 S"
    have X: "unat X = unat S * 2 ^ 40" unfolding X_def using S(2) [OF e0] by (subst unat_push_small) simp_all
    have c: "frac_class (unat X) (2 ^ d) = frac_class N (2 ^ 149)"
      unfolding X using ed by (intro cls) simp_all
    have "unat X < 2 ^ (63 + 1)" unfolding X using S(2) [OF e0] by simp
    then have lt: "unat (drop_bit d X) < 2 ^ 63" unfolding unat_drop using ed(4) by (rule trunc_bound)
    then have z: "sint (drop_bit d X) = int (unat X div 2 ^ d)"
      unfolding unat_drop [symmetric] by (intro sint_nonneg_64) simp
    have t: "int_result (- (2 ^ 63)) (2 ^ 63 - 1) s (N div 2 ^ 149) (ex \<and> N mod 2 ^ 149 \<noteq> 0) st =
        (if s then - int (unat X div 2 ^ d) else int (unat X div 2 ^ d),
         if ex \<and> unat X mod 2 ^ d \<noteq> 0 then softfloat_raiseFlags softfloat_flag_inexact st else st)" for s
      by (rule trunc_in_range [OF c refl]) (use lt in \<open>simp_all add: unat_drop\<close>)
    have s40: "40 - int d < 0 \<and> (ucast (push_bit (nat ((40 - int d) AND 31)) S) :: u32) \<noteq> 0 \<longleftrightarrow> unat X mod 2 ^ d \<noteq> 0"
    proof (cases "40 < d")
      case True
      then show ?thesis unfolding X using low_part_32 [of d S] ed(5) by simp
    next
      case False
      then have "(2 :: nat) ^ d dvd unat S * 2 ^ 40" by (intro dvd_mult le_imp_power_dvd) simp
      then show ?thesis unfolding X using False by simp
    qed
    show ?thesis unfolding u spec defs X_def [symmetric] d t s40 using ed z by simp
  next
    case big
    then have e0: "e \<noteq> 0" "0 < e" by simp_all
    define least where "least \<longleftrightarrow> signF32UI A \<and> e = 0xBE \<and> fracF32UI A = 0"
    have code: "f32_to_i64_r_minMag a ex st =
      (if least then (- (2 ^ 63), st)
       else (if signF32UI A \<and> (e = 0xFF \<longrightarrow> fracF32UI A = 0) then (- (2 ^ 63)) else (2 ^ 63 - 1), softfloat_raiseFlags softfloat_flag_invalid st))"
      unfolding defs least_def least_pattern_i64 [OF l, folded e_def] using big by auto
    show ?thesis
    proof (cases "e = 0xBE")
      case True
      have c: "frac_class (unat S * 2 ^ 40) (2 ^ 0) = frac_class N (2 ^ 149)"
        using True by (intro cls) simp_all
      have r: "N div 2 ^ 149 = unat S * 2 ^ 40 div 2 ^ 0" using c by (simp add: frac_class_def)
      show ?thesis
      proof (cases least)
        case l: True
        have t: "int_result (- (2 ^ 63)) (2 ^ 63 - 1) True (N div 2 ^ 149) (ex \<and> N mod 2 ^ 149 \<noteq> 0) st = (- (2 ^ 63), st)"
          using l S(3) [OF e0(1)] unfolding least_def by (subst trunc_in_range [OF c refl]) (auto simp: unat_eq_0)
        show ?thesis unfolding code u spec using l t True unfolding least_def by simp
      next
        case l: False
        have "2 ^ 63 \<le> N div 2 ^ 149" "signF32UI A \<Longrightarrow> 2 ^ 63 < N div 2 ^ 149"
          unfolding r using l True S(1,3) [OF e0(1)] unfolding least_def by (auto simp: unat_eq_0 unat_gt_0)
        then have n: "int_result (- (2 ^ 63)) (2 ^ 63 - 1) (signF32UI A) (N div 2 ^ 149) nx st =
            (if signF32UI A then (- (2 ^ 63)) else (2 ^ 63 - 1), softfloat_raiseFlags softfloat_flag_invalid st)" for nx
          by (intro int_result_invalid) simp_all
        show ?thesis unfolding code u spec n using l True by simp
      qed
    next
      case False
      have "2 ^ (23 + 191 - 1) \<le> N" using mag_ge_F32 [of A 191] big False e0 unfolding e_def N_def by simp
      then have "2 ^ Suc 63 \<le> N div 2 ^ 149" by (simp add: less_eq_div_iff_mult_less_eq)
      then have n: "int_result (- (2 ^ 63)) (2 ^ 63 - 1) s (N div 2 ^ 149) nx st = (if s then (- (2 ^ 63)) else (2 ^ 63 - 1), softfloat_raiseFlags softfloat_flag_invalid st)" for s nx
        by (rule int_result_large) simp_all
      show ?thesis unfolding code u spec n using False by (auto simp: least_def)
    qed
  qed
qed

lemma f32_to_ui64_r_minMag_result:
  "f32_to_ui64_r_minMag a ex st = map_prod word_of_int id (fp_to_int 24 8 0 (2 ^ 64 - 1) (unat a) softfloat_round_minMag ex st)"
proof -
  define A where "A = (ucast a :: u64)"
  have u: "unat a = unat A" by (simp add: A_def)
  have l: "unat A < 2 ^ (8 + 24)" using unat_less_32 [of a] unfolding u by simp
  define e N S where "e = expF32UI A" and "N = fp_mag 24 8 (unat A)" and "S = fracF32UI A OR 0x00800000"
  have e: "0 \<le> e" "e < 2 ^ 8" using f32.exp_range [of A] by (simp_all add: e_def)
  note spec = trunc_spec_F32 [OF l, folded e_def N_def]
  note defs = f32_to_ui64_r_minMag_def Let_def A_def [symmetric] e_def [symmetric] S_def [symmetric] from_vals
  have nz: "e \<noteq> 0 \<or> fracF32UI A \<noteq> 0 \<longleftrightarrow> N \<noteq> 0" unfolding N_def e_def f32.mag_zero by blast
  have S: "2 ^ 23 \<le> unat S" "unat S < 2 ^ 24" "unat S = 2 ^ 23 + unat (fracF32UI A)" if "e \<noteq> 0"
    using that mag_sig_F32(4,5) [of A] or_hidden_F32 [of A] unfolding e_def S_def by simp_all
  have cls: "frac_class (unat S * 2 ^ j) (2 ^ d) = frac_class N (2 ^ 149)" if "0 < e" "int d + e = int (149 + 1 + j)" for d j
    unfolding S_def N_def using that unfolding e_def by (rule mag_class_F32)
  consider (small) "e \<le> 0x7E" | (mid) "0x7E < e" "e \<le> 0xBE" | (big) "0xBE < e" by linarith
  then show ?thesis
  proof cases
    case small
    then have "N < 2 ^ 149" using mag_lt_F32 [of A 126] unfolding N_def e_def by simp
    then have t: "int_result 0 (2 ^ 64 - 1) s (N div 2 ^ 149) (ex \<and> N mod 2 ^ 149 \<noteq> 0) st =
        (0, if ex \<and> N \<noteq> 0 then softfloat_raiseFlags softfloat_flag_inexact st else st)" for s
      by (rule trunc_zero) simp_all
    show ?thesis unfolding u spec t defs nz using small by simp
  next
    case mid
    have one: "1 \<le> N div 2 ^ 149"
    proof -
      have "2 ^ (23 + Suc 126 - 1) \<le> N" using mag_ge_F32 [of A "Suc 126"] mid unfolding e_def N_def by simp
      then show ?thesis by (simp add: less_eq_div_iff_mult_less_eq)
    qed
    from mid obtain d where d: "0xBE - e = int d" using nonneg_int_cases [of "0xBE - e"] by auto
    have ed: "e = 0xBE - int d" "e \<noteq> 0xFF" "0 < e" "0 \<le> d" "\<not> 64 \<le> int d" using d mid by simp_all
    have e0: "e \<noteq> 0" using ed(3) by simp
    define X where "X = push_bit 40 S"
    have X: "unat X = unat S * 2 ^ 40" unfolding X_def using S(2) [OF e0] by (subst unat_push_small) simp_all
    have c: "frac_class (unat X) (2 ^ d) = frac_class N (2 ^ 149)"
      unfolding X using ed by (intro cls) simp_all
    have "unat X < 2 ^ (64 + 0)" unfolding X using S(2) [OF e0] by simp
    then have lt: "unat (drop_bit d X) < 2 ^ 64" unfolding unat_drop using ed(4) by (rule trunc_bound)
    then have lt: "unat X div 2 ^ d < 2 ^ 64" by (simp only: unat_drop)
    have q: "drop_bit d X = word_of_int (int (unat X div 2 ^ d))" unfolding unat_drop [symmetric] by simp
    have t: "int_result 0 (2 ^ 64 - 1) False (N div 2 ^ 149) (ex \<and> N mod 2 ^ 149 \<noteq> 0) st =
        (int (unat X div 2 ^ d),
         if ex \<and> unat X mod 2 ^ d \<noteq> 0 then softfloat_raiseFlags softfloat_flag_inexact st else st)"
      by (rule trunc_in_range [OF c]) (use lt in simp_all)
    have n: "int_result 0 (2 ^ 64 - 1) True (N div 2 ^ 149) nx st = (0, softfloat_raiseFlags softfloat_flag_invalid st)" for nx
      using one by (subst int_result_invalid) simp_all
    have s40: "40 - int d < 0 \<and> (ucast (push_bit (nat ((40 - int d) AND 31)) S) :: u32) \<noteq> 0 \<longleftrightarrow> unat X mod 2 ^ d \<noteq> 0"
    proof (cases "40 < d")
      case True
      then show ?thesis unfolding X using low_part_32 [of d S] ed(5) by simp
    next
      case False
      then have "(2 :: nat) ^ d dvd unat S * 2 ^ 40" by (intro dvd_mult le_imp_power_dvd) simp
      then show ?thesis unfolding X using False by simp
    qed
    show ?thesis unfolding u spec defs X_def [symmetric] d s40 using ed t n q by (cases "signF32UI A") simp_all
  next
    case big
    then have e0: "e \<noteq> 0" by simp
    have "2 ^ (23 + 191 - 1) \<le> N" using mag_ge_F32 [of A 191] big e0 unfolding e_def N_def by simp
    then have "2 ^ 64 \<le> N div 2 ^ 149" by (simp add: less_eq_div_iff_mult_less_eq)
    then have n: "int_result 0 (2 ^ 64 - 1) s (N div 2 ^ 149) nx st = (if s then 0 else (2 ^ 64 - 1), softfloat_raiseFlags softfloat_flag_invalid st)" for s nx
      by (rule int_result_large) simp_all
    show ?thesis unfolding u spec n defs using big by (cases "signF32UI A") auto
  qed
qed

lemma f64_to_i32_r_minMag_result:
  "f64_to_i32_r_minMag a ex st =  (fp_to_int 53 11 (- (2 ^ 31)) (2 ^ 31 - 1) (unat a) softfloat_round_minMag ex st)"
proof -
  define A where "A = (a :: u64)"
  have u: "unat a = unat A" by (simp add: A_def)
  have l: "unat A < 2 ^ (11 + 53)" using unat_less_64 [of a] unfolding u by simp
  define e N S where "e = expF64UI A" and "N = fp_mag 53 11 (unat A)" and "S = fracF64UI A OR 0x0010000000000000"
  have e: "0 \<le> e" "e < 2 ^ 11" using f64.exp_range [of A] by (simp_all add: e_def)
  note spec = trunc_spec_F64 [OF l, folded e_def N_def]
  note defs = f64_to_i32_r_minMag_def Let_def A_def [symmetric] e_def [symmetric] S_def [symmetric] from_vals
  have nz: "e \<noteq> 0 \<or> fracF64UI A \<noteq> 0 \<longleftrightarrow> N \<noteq> 0" unfolding N_def e_def f64.mag_zero by blast
  have S: "2 ^ 52 \<le> unat S" "unat S < 2 ^ 53" "unat S = 2 ^ 52 + unat (fracF64UI A)" if "e \<noteq> 0"
    using that mag_sig_F64(4,5) [of A] or_hidden_F64 [of A] unfolding e_def S_def by simp_all
  have cls: "frac_class (unat S * 2 ^ j) (2 ^ d) = frac_class N (2 ^ 1074)" if "0 < e" "int d + e = int (1074 + 1 + j)" for d j
    unfolding S_def N_def using that unfolding e_def by (rule mag_class_F64)
  consider (small) "e \<le> 0x3FE" | (mid) "0x3FE < e" "e \<le> 0x41D" | (big) "0x41D < e" by linarith
  then show ?thesis
  proof cases
    case small
    then have "N < 2 ^ 1074" using mag_lt_F64 [of A 1022] unfolding N_def e_def by simp
    then have t: "int_result (- (2 ^ 31)) (2 ^ 31 - 1) s (N div 2 ^ 1074) (ex \<and> N mod 2 ^ 1074 \<noteq> 0) st =
        (0, if ex \<and> N \<noteq> 0 then softfloat_raiseFlags softfloat_flag_inexact st else st)" for s
      by (rule trunc_zero) simp_all
    show ?thesis unfolding u spec t defs nz using small by simp
  next
    case mid
    from mid obtain d where d: "0x433 - e = int d" using nonneg_int_cases [of "0x433 - e"] by auto
    have ed: "e = 0x433 - int d" "e \<noteq> 0x7FF" "0 < e" "22 \<le> d" "\<not> 53 \<le> int d" using d mid by simp_all
    have e0: "e \<noteq> 0" using ed(3) by simp
    define X where "X = S"
    have X: "unat X = unat S * 2 ^ 0" unfolding X_def by simp
    have c: "frac_class (unat X) (2 ^ d) = frac_class N (2 ^ 1074)"
      unfolding X using ed by (intro cls) simp_all
    have "unat X < 2 ^ (31 + 22)" unfolding X using S(2) [OF e0] by simp
    then have lt: "unat (drop_bit d X) < 2 ^ 31" unfolding unat_drop using ed(4) by (rule trunc_bound)
    then have z: "sint (drop_bit d X) = int (unat X div 2 ^ d)"
      unfolding unat_drop [symmetric] by (intro sint_nonneg_64) simp
    have t: "int_result (- (2 ^ 31)) (2 ^ 31 - 1) s (N div 2 ^ 1074) (ex \<and> N mod 2 ^ 1074 \<noteq> 0) st =
        (if s then - int (unat X div 2 ^ d) else int (unat X div 2 ^ d),
         if ex \<and> unat X mod 2 ^ d \<noteq> 0 then softfloat_raiseFlags softfloat_flag_inexact st else st)" for s
      by (rule trunc_in_range [OF c refl]) (use lt in \<open>simp_all add: unat_drop\<close>)
    show ?thesis unfolding u spec defs X_def [symmetric] d t using ed z by (simp add: shift_back)
  next
    case big
    then have e0: "e \<noteq> 0" "0 < e" by simp_all
    define least where "least \<longleftrightarrow> signF64UI A \<and> e = 0x41E \<and> fracF64UI A < 0x200000"
    have code: "f64_to_i32_r_minMag a ex st =
      (if least then (- (2 ^ 31), if ex \<and> fracF64UI A \<noteq> 0 then softfloat_raiseFlags softfloat_flag_inexact st else st)
       else (if signF64UI A \<and> (e = 0x7FF \<longrightarrow> fracF64UI A = 0) then (- (2 ^ 31)) else (2 ^ 31 - 1), softfloat_raiseFlags softfloat_flag_invalid st))"
      unfolding defs least_def using big by auto
    show ?thesis
    proof (cases "e = 0x41E")
      case True
      have c: "frac_class (unat S * 2 ^ 0) (2 ^ 21) = frac_class N (2 ^ 1074)"
        using True by (intro cls) simp_all
      have r: "N div 2 ^ 1074 = unat S * 2 ^ 0 div 2 ^ 21" using c by (simp add: frac_class_def)
      show ?thesis
      proof (cases least)
        case l: True
        have t: "int_result (- (2 ^ 31)) (2 ^ 31 - 1) True (N div 2 ^ 1074) (ex \<and> N mod 2 ^ 1074 \<noteq> 0) st = (- (2 ^ 31), if ex \<and> fracF64UI A \<noteq> 0 then softfloat_raiseFlags softfloat_flag_inexact st else st)"
          using l S(3) [OF e0(1)] unfolding least_def by (subst trunc_in_range [OF c refl]) (auto simp: word_less_nat_alt unat_eq_0 split_21)
        show ?thesis unfolding code u spec using l t True unfolding least_def by simp
      next
        case l: False
        have "2 ^ 31 \<le> N div 2 ^ 1074" "signF64UI A \<Longrightarrow> 2 ^ 31 < N div 2 ^ 1074"
          unfolding r using l True S(1,3) [OF e0(1)] unfolding least_def by (auto simp: word_less_nat_alt not_less)
        then have n: "int_result (- (2 ^ 31)) (2 ^ 31 - 1) (signF64UI A) (N div 2 ^ 1074) nx st =
            (if signF64UI A then (- (2 ^ 31)) else (2 ^ 31 - 1), softfloat_raiseFlags softfloat_flag_invalid st)" for nx
          by (intro int_result_invalid) simp_all
        show ?thesis unfolding code u spec n using l True by simp
      qed
    next
      case False
      have "2 ^ (52 + 1055 - 1) \<le> N" using mag_ge_F64 [of A 1055] big False e0 unfolding e_def N_def by simp
      then have "2 ^ Suc 31 \<le> N div 2 ^ 1074" by (simp add: less_eq_div_iff_mult_less_eq)
      then have n: "int_result (- (2 ^ 31)) (2 ^ 31 - 1) s (N div 2 ^ 1074) nx st = (if s then (- (2 ^ 31)) else (2 ^ 31 - 1), softfloat_raiseFlags softfloat_flag_invalid st)" for s nx
        by (rule int_result_large) simp_all
      show ?thesis unfolding code u spec n using False by (auto simp: least_def)
    qed
  qed
qed

lemma f64_to_ui32_r_minMag_result:
  "f64_to_ui32_r_minMag a ex st = map_prod word_of_int id (fp_to_int 53 11 0 (2 ^ 32 - 1) (unat a) softfloat_round_minMag ex st)"
proof -
  define A where "A = (a :: u64)"
  have u: "unat a = unat A" by (simp add: A_def)
  have l: "unat A < 2 ^ (11 + 53)" using unat_less_64 [of a] unfolding u by simp
  define e N S where "e = expF64UI A" and "N = fp_mag 53 11 (unat A)" and "S = fracF64UI A OR 0x0010000000000000"
  have e: "0 \<le> e" "e < 2 ^ 11" using f64.exp_range [of A] by (simp_all add: e_def)
  note spec = trunc_spec_F64 [OF l, folded e_def N_def]
  note defs = f64_to_ui32_r_minMag_def Let_def A_def [symmetric] e_def [symmetric] S_def [symmetric] from_vals
  have nz: "e \<noteq> 0 \<or> fracF64UI A \<noteq> 0 \<longleftrightarrow> N \<noteq> 0" unfolding N_def e_def f64.mag_zero by blast
  have S: "2 ^ 52 \<le> unat S" "unat S < 2 ^ 53" "unat S = 2 ^ 52 + unat (fracF64UI A)" if "e \<noteq> 0"
    using that mag_sig_F64(4,5) [of A] or_hidden_F64 [of A] unfolding e_def S_def by simp_all
  have cls: "frac_class (unat S * 2 ^ j) (2 ^ d) = frac_class N (2 ^ 1074)" if "0 < e" "int d + e = int (1074 + 1 + j)" for d j
    unfolding S_def N_def using that unfolding e_def by (rule mag_class_F64)
  consider (small) "e \<le> 0x3FE" | (mid) "0x3FE < e" "e \<le> 0x41E" | (big) "0x41E < e" by linarith
  then show ?thesis
  proof cases
    case small
    then have "N < 2 ^ 1074" using mag_lt_F64 [of A 1022] unfolding N_def e_def by simp
    then have t: "int_result 0 (2 ^ 32 - 1) s (N div 2 ^ 1074) (ex \<and> N mod 2 ^ 1074 \<noteq> 0) st =
        (0, if ex \<and> N \<noteq> 0 then softfloat_raiseFlags softfloat_flag_inexact st else st)" for s
      by (rule trunc_zero) simp_all
    show ?thesis unfolding u spec t defs nz using small by simp
  next
    case mid
    have one: "1 \<le> N div 2 ^ 1074"
    proof -
      have "2 ^ (52 + Suc 1022 - 1) \<le> N" using mag_ge_F64 [of A "Suc 1022"] mid unfolding e_def N_def by simp
      then show ?thesis by (simp add: less_eq_div_iff_mult_less_eq)
    qed
    from mid obtain d where d: "0x433 - e = int d" using nonneg_int_cases [of "0x433 - e"] by auto
    have ed: "e = 0x433 - int d" "e \<noteq> 0x7FF" "0 < e" "21 \<le> d" "\<not> 53 \<le> int d" using d mid by simp_all
    have e0: "e \<noteq> 0" using ed(3) by simp
    define X where "X = S"
    have X: "unat X = unat S * 2 ^ 0" unfolding X_def by simp
    have c: "frac_class (unat X) (2 ^ d) = frac_class N (2 ^ 1074)"
      unfolding X using ed by (intro cls) simp_all
    have "unat X < 2 ^ (32 + 21)" unfolding X using S(2) [OF e0] by simp
    then have lt: "unat (drop_bit d X) < 2 ^ 32" unfolding unat_drop using ed(4) by (rule trunc_bound)
    then have lt: "unat X div 2 ^ d < 2 ^ 32" by (simp only: unat_drop)
    have q: "drop_bit d X = word_of_int (int (unat X div 2 ^ d))" unfolding unat_drop [symmetric] by simp
    have t: "int_result 0 (2 ^ 32 - 1) False (N div 2 ^ 1074) (ex \<and> N mod 2 ^ 1074 \<noteq> 0) st =
        (int (unat X div 2 ^ d),
         if ex \<and> unat X mod 2 ^ d \<noteq> 0 then softfloat_raiseFlags softfloat_flag_inexact st else st)"
      by (rule trunc_in_range [OF c]) (use lt in simp_all)
    have n: "int_result 0 (2 ^ 32 - 1) True (N div 2 ^ 1074) nx st = (0, softfloat_raiseFlags softfloat_flag_invalid st)" for nx
      using one by (subst int_result_invalid) simp_all
    show ?thesis unfolding u spec defs X_def [symmetric] d nat_int shift_back using ed t n q by (cases "signF64UI A") simp_all
  next
    case big
    then have e0: "e \<noteq> 0" by simp
    have "2 ^ (52 + 1055 - 1) \<le> N" using mag_ge_F64 [of A 1055] big e0 unfolding e_def N_def by simp
    then have "2 ^ 32 \<le> N div 2 ^ 1074" by (simp add: less_eq_div_iff_mult_less_eq)
    then have n: "int_result 0 (2 ^ 32 - 1) s (N div 2 ^ 1074) nx st = (if s then 0 else (2 ^ 32 - 1), softfloat_raiseFlags softfloat_flag_invalid st)" for s nx
      by (rule int_result_large) simp_all
    show ?thesis unfolding u spec n defs using big by (cases "signF64UI A") auto
  qed
qed

lemma f64_to_i64_r_minMag_result:
  "f64_to_i64_r_minMag a ex st =  (fp_to_int 53 11 (- (2 ^ 63)) (2 ^ 63 - 1) (unat a) softfloat_round_minMag ex st)"
proof -
  define A where "A = (a :: u64)"
  have u: "unat a = unat A" by (simp add: A_def)
  have l: "unat A < 2 ^ (11 + 53)" using unat_less_64 [of a] unfolding u by simp
  define e N S where "e = expF64UI A" and "N = fp_mag 53 11 (unat A)" and "S = fracF64UI A OR 0x0010000000000000"
  have e: "0 \<le> e" "e < 2 ^ 11" using f64.exp_range [of A] by (simp_all add: e_def)
  note spec = trunc_spec_F64 [OF l, folded e_def N_def]
  note defs = f64_to_i64_r_minMag_def Let_def A_def [symmetric] e_def [symmetric] S_def [symmetric] from_vals
  have nz: "e \<noteq> 0 \<or> fracF64UI A \<noteq> 0 \<longleftrightarrow> N \<noteq> 0" unfolding N_def e_def f64.mag_zero by blast
  have S: "2 ^ 52 \<le> unat S" "unat S < 2 ^ 53" "unat S = 2 ^ 52 + unat (fracF64UI A)" if "e \<noteq> 0"
    using that mag_sig_F64(4,5) [of A] or_hidden_F64 [of A] unfolding e_def S_def by simp_all
  have cls: "frac_class (unat S * 2 ^ j) (2 ^ d) = frac_class N (2 ^ 1074)" if "0 < e" "int d + e = int (1074 + 1 + j)" for d j
    unfolding S_def N_def using that unfolding e_def by (rule mag_class_F64)
  consider (small) "e \<le> 0x3FE" | (mid) "0x3FE < e" "e \<le> 0x43D" | (big) "0x43D < e" by linarith
  then show ?thesis
  proof cases
    case small
    then have "N < 2 ^ 1074" using mag_lt_F64 [of A 1022] unfolding N_def e_def by simp
    then have t: "int_result (- (2 ^ 63)) (2 ^ 63 - 1) s (N div 2 ^ 1074) (ex \<and> N mod 2 ^ 1074 \<noteq> 0) st =
        (0, if ex \<and> N \<noteq> 0 then softfloat_raiseFlags softfloat_flag_inexact st else st)" for s
      by (rule trunc_zero) simp_all
    show ?thesis unfolding u spec t defs nz using small by simp
  next
    case mid
    show ?thesis
    proof (cases "e < 0x433")
      case True
    from mid True obtain d where d: "0x433 - e = int d" using nonneg_int_cases [of "0x433 - e"] by auto
    have ed: "e = 0x433 - int d" "e \<noteq> 0x7FF" "0 < e" "1 \<le> d" "\<not> 53 \<le> int d" using d mid True by simp_all
    have e0: "e \<noteq> 0" using ed(3) by simp
    define X where "X = S"
    have X: "unat X = unat S * 2 ^ 0" unfolding X_def by simp
    have c: "frac_class (unat X) (2 ^ d) = frac_class N (2 ^ 1074)"
      unfolding X using ed by (intro cls) simp_all
    have "unat X < 2 ^ (63 + 1)" unfolding X using S(2) [OF e0] by simp
    then have lt: "unat (drop_bit d X) < 2 ^ 63" unfolding unat_drop using ed(4) by (rule trunc_bound)
    then have z: "sint (drop_bit d X) = int (unat X div 2 ^ d)"
      unfolding unat_drop [symmetric] by (intro sint_nonneg_64) simp
    have t: "int_result (- (2 ^ 63)) (2 ^ 63 - 1) s (N div 2 ^ 1074) (ex \<and> N mod 2 ^ 1074 \<noteq> 0) st =
        (if s then - int (unat X div 2 ^ d) else int (unat X div 2 ^ d),
         if ex \<and> unat X mod 2 ^ d \<noteq> 0 then softfloat_raiseFlags softfloat_flag_inexact st else st)" for s
      by (rule trunc_in_range [OF c refl]) (use lt in \<open>simp_all add: unat_drop\<close>)
    show ?thesis unfolding u spec defs X_def [symmetric] d t using ed z by (simp add: shift_back)
    next
      case False
      define k where "k = nat (e - 0x433)"
      have k: "nat (- (0x433 - e)) = k" "int 0 + e = int (1074 + 1 + k)" "k \<le> 10" "0 < e" "e \<noteq> 0x7FF" using False mid by (simp_all add: k_def)
      have e0: "e \<noteq> 0" using k(4) by simp
      have "unat S * 2 ^ k \<le> unat S * 2 ^ 10" using k(3) by (intro mult_left_mono power_increasing) simp_all
      also have "\<dots> < 2 ^ 63" using S(2) [OF e0] by simp
      finally have lt: "unat S * 2 ^ k < 2 ^ 63" .
      define Y where "Y = unat S * 2 ^ k"
      have X: "unat (push_bit k S) = Y" unfolding Y_def using lt by (intro unat_push_small) simp
      have c: "frac_class Y (2 ^ 0) = frac_class N (2 ^ 1074)" unfolding Y_def by (rule cls [OF k(4,2)])
      note lt = lt [folded Y_def]
      have t: "int_result (- (2 ^ 63)) (2 ^ 63 - 1) s (N div 2 ^ 1074) (ex \<and> N mod 2 ^ 1074 \<noteq> 0) st =
          (if s then - int Y else int Y, st)" for s
        by (subst trunc_in_range [OF c refl]) (use lt in simp_all)
      have z: "sint (push_bit k S) = int Y" unfolding X [symmetric] using lt by (intro sint_nonneg_64) (simp add: X)
      show ?thesis unfolding u spec defs k(1) z t using False mid k(5) by simp
    qed
  next
    case big
    then have e0: "e \<noteq> 0" "0 < e" by simp_all
    define least where "least \<longleftrightarrow> signF64UI A \<and> e = 0x43E \<and> fracF64UI A = 0"
    have code: "f64_to_i64_r_minMag a ex st =
      (if least then (- (2 ^ 63), st)
       else (if signF64UI A \<and> (e = 0x7FF \<longrightarrow> fracF64UI A = 0) then (- (2 ^ 63)) else (2 ^ 63 - 1), softfloat_raiseFlags softfloat_flag_invalid st))"
      unfolding defs least_def least_pattern_f64 [OF l, folded e_def] using big by auto
    show ?thesis
    proof (cases "e = 0x43E")
      case True
      have c: "frac_class (unat S * 2 ^ 11) (2 ^ 0) = frac_class N (2 ^ 1074)"
        using True by (intro cls) simp_all
      have r: "N div 2 ^ 1074 = unat S * 2 ^ 11 div 2 ^ 0" using c by (simp add: frac_class_def)
      show ?thesis
      proof (cases least)
        case l: True
        have t: "int_result (- (2 ^ 63)) (2 ^ 63 - 1) True (N div 2 ^ 1074) (ex \<and> N mod 2 ^ 1074 \<noteq> 0) st = (- (2 ^ 63), st)"
          using l S(3) [OF e0(1)] unfolding least_def by (subst trunc_in_range [OF c refl]) (auto simp: unat_eq_0)
        show ?thesis unfolding code u spec using l t True unfolding least_def by simp
      next
        case l: False
        have "2 ^ 63 \<le> N div 2 ^ 1074" "signF64UI A \<Longrightarrow> 2 ^ 63 < N div 2 ^ 1074"
          unfolding r using l True S(1,3) [OF e0(1)] unfolding least_def by (auto simp: unat_eq_0 unat_gt_0)
        then have n: "int_result (- (2 ^ 63)) (2 ^ 63 - 1) (signF64UI A) (N div 2 ^ 1074) nx st =
            (if signF64UI A then (- (2 ^ 63)) else (2 ^ 63 - 1), softfloat_raiseFlags softfloat_flag_invalid st)" for nx
          by (intro int_result_invalid) simp_all
        show ?thesis unfolding code u spec n using l True by simp
      qed
    next
      case False
      have "2 ^ (52 + 1087 - 1) \<le> N" using mag_ge_F64 [of A 1087] big False e0 unfolding e_def N_def by simp
      then have "2 ^ Suc 63 \<le> N div 2 ^ 1074" by (simp add: less_eq_div_iff_mult_less_eq)
      then have n: "int_result (- (2 ^ 63)) (2 ^ 63 - 1) s (N div 2 ^ 1074) nx st = (if s then (- (2 ^ 63)) else (2 ^ 63 - 1), softfloat_raiseFlags softfloat_flag_invalid st)" for s nx
        by (rule int_result_large) simp_all
      show ?thesis unfolding code u spec n using False by (auto simp: least_def)
    qed
  qed
qed

lemma f64_to_ui64_r_minMag_result:
  "f64_to_ui64_r_minMag a ex st = map_prod word_of_int id (fp_to_int 53 11 0 (2 ^ 64 - 1) (unat a) softfloat_round_minMag ex st)"
proof -
  define A where "A = (a :: u64)"
  have u: "unat a = unat A" by (simp add: A_def)
  have l: "unat A < 2 ^ (11 + 53)" using unat_less_64 [of a] unfolding u by simp
  define e N S where "e = expF64UI A" and "N = fp_mag 53 11 (unat A)" and "S = fracF64UI A OR 0x0010000000000000"
  have e: "0 \<le> e" "e < 2 ^ 11" using f64.exp_range [of A] by (simp_all add: e_def)
  note spec = trunc_spec_F64 [OF l, folded e_def N_def]
  note defs = f64_to_ui64_r_minMag_def Let_def A_def [symmetric] e_def [symmetric] S_def [symmetric] from_vals
  have nz: "e \<noteq> 0 \<or> fracF64UI A \<noteq> 0 \<longleftrightarrow> N \<noteq> 0" unfolding N_def e_def f64.mag_zero by blast
  have S: "2 ^ 52 \<le> unat S" "unat S < 2 ^ 53" "unat S = 2 ^ 52 + unat (fracF64UI A)" if "e \<noteq> 0"
    using that mag_sig_F64(4,5) [of A] or_hidden_F64 [of A] unfolding e_def S_def by simp_all
  have cls: "frac_class (unat S * 2 ^ j) (2 ^ d) = frac_class N (2 ^ 1074)" if "0 < e" "int d + e = int (1074 + 1 + j)" for d j
    unfolding S_def N_def using that unfolding e_def by (rule mag_class_F64)
  consider (small) "e \<le> 0x3FE" | (mid) "0x3FE < e" "e \<le> 0x43E" | (big) "0x43E < e" by linarith
  then show ?thesis
  proof cases
    case small
    then have "N < 2 ^ 1074" using mag_lt_F64 [of A 1022] unfolding N_def e_def by simp
    then have t: "int_result 0 (2 ^ 64 - 1) s (N div 2 ^ 1074) (ex \<and> N mod 2 ^ 1074 \<noteq> 0) st =
        (0, if ex \<and> N \<noteq> 0 then softfloat_raiseFlags softfloat_flag_inexact st else st)" for s
      by (rule trunc_zero) simp_all
    show ?thesis unfolding u spec t defs nz using small by simp
  next
    case mid
    have one: "1 \<le> N div 2 ^ 1074"
    proof -
      have "2 ^ (52 + Suc 1022 - 1) \<le> N" using mag_ge_F64 [of A "Suc 1022"] mid unfolding e_def N_def by simp
      then show ?thesis by (simp add: less_eq_div_iff_mult_less_eq)
    qed
    have n: "int_result 0 (2 ^ 64 - 1) True (N div 2 ^ 1074) nx st = (0, softfloat_raiseFlags softfloat_flag_invalid st)" for nx
      using one by (subst int_result_invalid) simp_all
    show ?thesis
    proof (cases "e < 0x433")
      case True
    from mid True obtain d where d: "0x433 - e = int d" using nonneg_int_cases [of "0x433 - e"] by auto
    have ed: "e = 0x433 - int d" "e \<noteq> 0x7FF" "0 < e" "1 \<le> d" "\<not> 53 \<le> int d" using d mid True by simp_all
    have e0: "e \<noteq> 0" using ed(3) by simp
    define X where "X = S"
    have X: "unat X = unat S * 2 ^ 0" unfolding X_def by simp
    have c: "frac_class (unat X) (2 ^ d) = frac_class N (2 ^ 1074)"
      unfolding X using ed by (intro cls) simp_all
    have "unat X < 2 ^ (64 + 1)" unfolding X using S(2) [OF e0] by simp
    then have lt: "unat (drop_bit d X) < 2 ^ 64" unfolding unat_drop using ed(4) by (rule trunc_bound)
    then have lt: "unat X div 2 ^ d < 2 ^ 64" by (simp only: unat_drop)
    have q: "drop_bit d X = word_of_int (int (unat X div 2 ^ d))" unfolding unat_drop [symmetric] by simp
    have t: "int_result 0 (2 ^ 64 - 1) False (N div 2 ^ 1074) (ex \<and> N mod 2 ^ 1074 \<noteq> 0) st =
        (int (unat X div 2 ^ d),
         if ex \<and> unat X mod 2 ^ d \<noteq> 0 then softfloat_raiseFlags softfloat_flag_inexact st else st)"
      by (rule trunc_in_range [OF c]) (use lt in simp_all)
    have n: "int_result 0 (2 ^ 64 - 1) True (N div 2 ^ 1074) nx st = (0, softfloat_raiseFlags softfloat_flag_invalid st)" for nx
      using one by (subst int_result_invalid) simp_all
      have d1: "0 < d" "d < 64" using ed by simp_all
      have lp: "push_bit (nat (- int d AND 63)) S \<noteq> 0 \<longleftrightarrow> unat X mod 2 ^ d \<noteq> 0"
        unfolding low_part_64 [OF d1] X_def ..
      show ?thesis unfolding u spec defs X_def [symmetric] d nat_int using ed d1 t n q lp [unfolded X_def] X_def
        by (cases "signF64UI A") simp_all
    next
      case False
      define k where "k = nat (e - 0x433)"
      have k: "nat (- (0x433 - e)) = k" "int 0 + e = int (1074 + 1 + k)" "k \<le> 11" "0 < e" "e \<noteq> 0x7FF" using False mid by (simp_all add: k_def)
      have e0: "e \<noteq> 0" using k(4) by simp
      have "unat S * 2 ^ k \<le> unat S * 2 ^ 11" using k(3) by (intro mult_left_mono power_increasing) simp_all
      also have "\<dots> < 2 ^ 64" using S(2) [OF e0] by simp
      finally have lt: "unat S * 2 ^ k < 2 ^ 64" .
      define Y where "Y = unat S * 2 ^ k"
      have X: "unat (push_bit k S) = Y" unfolding Y_def using lt by (intro unat_push_small) simp
      have c: "frac_class Y (2 ^ 0) = frac_class N (2 ^ 1074)" unfolding Y_def by (rule cls [OF k(4,2)])
      note lt = lt [folded Y_def]
      have t: "int_result 0 (2 ^ 64 - 1) False (N div 2 ^ 1074) (ex \<and> N mod 2 ^ 1074 \<noteq> 0) st = (int Y, st)"
        by (subst trunc_in_range [OF c refl]) (use lt in simp_all)
      have z: "push_bit k S = word_of_int (int Y)" unfolding X [symmetric] by simp
      show ?thesis unfolding u spec defs k(1) using False mid k(5) n t z by (cases "signF64UI A") simp_all
    qed
  next
    case big
    then have e0: "e \<noteq> 0" by simp
    have "2 ^ (52 + 1087 - 1) \<le> N" using mag_ge_F64 [of A 1087] big e0 unfolding e_def N_def by simp
    then have "2 ^ 64 \<le> N div 2 ^ 1074" by (simp add: less_eq_div_iff_mult_less_eq)
    then have n: "int_result 0 (2 ^ 64 - 1) s (N div 2 ^ 1074) nx st = (if s then 0 else (2 ^ 64 - 1), softfloat_raiseFlags softfloat_flag_invalid st)" for s nx
      by (rule int_result_large) simp_all
    show ?thesis unfolding u spec n defs using big by (cases "signF64UI A") auto
  qed
qed

subsection \<open>Integers survive the round trip\<close>

lemma packed_F64:
  fixes s :: bool
  assumes "2 ^ 52 \<le> R" "R < 2 ^ 53" "e < 2045"
  defines "z \<equiv> of_nat (of_bool s * 2 ^ 63 + e * 2 ^ 52 + R) :: u64"
  shows "fp_neg 53 11 (unat z) = s" "fp_mag 53 11 (unat z) = R * 2 ^ e" "fp_finite 53 11 (unat z)"
proof -
  have "e * 2 ^ 52 + R < 2045 * 2 ^ 52 + 2 ^ 53" using assms by simp
  then have b: "e * 2 ^ 52 + R < 2047 * 2 ^ 52" by simp
  have z: "unat z = of_bool s * 2 ^ 63 + (e * 2 ^ 52 + R)"
    unfolding z_def add.assoc unat_of_nat using b by (cases s) (simp_all add: add.assoc)
  have zm: "unat z mod 2 ^ (11 + 53 - 1) = e * 2 ^ 52 + R" unfolding z using b by (cases s) simp_all
  show "fp_neg 53 11 (unat z) = s" unfolding fp_neg_def z using b by (cases s) simp_all
  show "fp_finite 53 11 (unat z)" unfolding fp_finite_def zm inf_bits_def using b by simp
  obtain f where f: "R = 2 ^ 52 + f" "f < 2 ^ 52" using assms(1,2) le_Suc_ex by fastforce
  have "e * 2 ^ 52 + R = Suc e * 2 ^ 52 + f" unfolding f by simp
  moreover have "(x * H + y) div H = x" "(x * H + y) mod H = y" if "y < H" for x y H :: nat using that by simp_all
  ultimately have "(e * 2 ^ 52 + R) div 2 ^ (53 - 1) = Suc e" "(e * 2 ^ 52 + R) mod 2 ^ (53 - 1) = f"
    using f(2) by simp_all
  then show "fp_mag 53 11 (unat z) = R * 2 ^ e" unfolding fp_mag_def zm fdec_def Let_def by (simp add: f)
qed

lemma to_int_exact:
  assumes "fp_finite 53 11 a" "fp_mag 53 11 a = n * 2 ^ 1074" "lo \<le> v" "v \<le> hi"
    "v = (if fp_neg 53 11 a then - int n else int n)"
  shows "fp_to_int 53 11 lo hi a mode ex st = (v, st)"
  using assms unfolding fp_to_int_def
  by (auto simp: Let_def fp_class_defs int_result_def round_quot_exact split: if_splits)

lemma i32_to_f64_exact:
  obtains z where "i32_to_f64 a st = (z, st)" "fp_finite 53 11 (unat z)"
    "fp_mag 53 11 (unat z) = nat \<bar>sint a\<bar> * 2 ^ 1074" "a \<noteq> 0 \<longrightarrow> fp_neg 53 11 (unat z) = (sint a < 0)"
proof (cases "a = 0")
  case True
  then show thesis using that [of 0] by (simp add: i32_to_f64_def fp_finite_def fp_mag_def fdec_def inf_bits_def)
next
  case False
  obtain k sig where k: "i32_to_f64 a st = (packToF64UI (sint a < 0) (0x432 - int k) sig, st)"
    "unat sig = nat \<bar>sint a\<bar> * 2 ^ k" "2 ^ 52 \<le> nat \<bar>sint a\<bar> * 2 ^ k" "nat \<bar>sint a\<bar> * 2 ^ k < 2 ^ 53" "k \<le> 53"
    using False by (rule i32_to_f64_packed)
  have e: "0x432 - int k = int (1074 - k)" using k(5) by simp
  have "1074 = k + (1074 - k)" using k(5) by simp
  then have p: "(2 :: nat) ^ 1074 = 2 ^ k * 2 ^ (1074 - k)" by (metis power_add)
  have z: "packToF64UI (sint a < 0) (0x432 - int k) sig =
      of_nat (of_bool (sint a < 0) * 2 ^ 63 + (1074 - k) * 2 ^ 52 + nat \<bar>sint a\<bar> * 2 ^ k)"
    unfolding e packToF64UI_nat k(2) ..
  note P = packed_F64 [OF k(3,4), of "1074 - k" "sint a < 0", folded z]
  show thesis
  proof (rule that [OF k(1)])
    show "fp_mag 53 11 (unat (packToF64UI (sint a < 0) (0x432 - int k) sig)) = nat \<bar>sint a\<bar> * 2 ^ 1074"
      unfolding p using P(2) by (simp add: mult.assoc)
  qed (use P(1,3) in simp_all)
qed

subsection \<open>Properties\<close>

text \<open>C16.  Every conversion of a floating-point value to an integer type returns the value rounded
  in the given mode, with the inexact flag exactly when asked for and the value is not an integer,
  when it is in the range of the type, and otherwise the nearest bound (the upper one for a NaN)
  with exactly the invalid flag.\<close>

theorem float_to_int_correct:
  "f32_to_i32 a mode exact st = fp_to_int 24 8 (- (2 ^ 31)) (2 ^ 31 - 1) (unat a) mode exact st \<and>
   f32_to_ui32 a mode exact st = map_prod word_of_int id (fp_to_int 24 8 0 (2 ^ 32 - 1) (unat a) mode exact st) \<and>
   f32_to_i64 a mode exact st = fp_to_int 24 8 (- (2 ^ 63)) (2 ^ 63 - 1) (unat a) mode exact st \<and>
   f32_to_ui64 a mode exact st = map_prod word_of_int id (fp_to_int 24 8 0 (2 ^ 64 - 1) (unat a) mode exact st) \<and>
   f64_to_i32 c mode exact st = fp_to_int 53 11 (- (2 ^ 31)) (2 ^ 31 - 1) (unat c) mode exact st \<and>
   f64_to_ui32 c mode exact st = map_prod word_of_int id (fp_to_int 53 11 0 (2 ^ 32 - 1) (unat c) mode exact st) \<and>
   f64_to_i64 c mode exact st = fp_to_int 53 11 (- (2 ^ 63)) (2 ^ 63 - 1) (unat c) mode exact st \<and>
   f64_to_ui64 c mode exact st = map_prod word_of_int id (fp_to_int 53 11 0 (2 ^ 64 - 1) (unat c) mode exact st)"
  by (simp only: f32_to_i32_result f32_to_ui32_result f32_to_i64_result f32_to_ui64_result
    f64_to_i32_result f64_to_ui32_result f64_to_i64_result f64_to_ui64_result simp_thms)

text \<open>C17.  The eight dedicated truncating conversions, which shift instead of rounding, return the same
  value and raise the same flags as the general conversions in the mode that rounds toward zero.\<close>

theorem r_minMag_equivalent:
  "f32_to_i32_r_minMag a exact st = f32_to_i32 a softfloat_round_minMag exact st \<and>
   f32_to_ui32_r_minMag a exact st = f32_to_ui32 a softfloat_round_minMag exact st \<and>
   f32_to_i64_r_minMag a exact st = f32_to_i64 a softfloat_round_minMag exact st \<and>
   f32_to_ui64_r_minMag a exact st = f32_to_ui64 a softfloat_round_minMag exact st \<and>
   f64_to_i32_r_minMag b exact st = f64_to_i32 b softfloat_round_minMag exact st \<and>
   f64_to_ui32_r_minMag b exact st = f64_to_ui32 b softfloat_round_minMag exact st \<and>
   f64_to_i64_r_minMag b exact st = f64_to_i64 b softfloat_round_minMag exact st \<and>
   f64_to_ui64_r_minMag b exact st = f64_to_ui64 b softfloat_round_minMag exact st"
  by (simp only: f32_to_i32_result f32_to_ui32_result f32_to_i64_result f32_to_ui64_result
      f64_to_i32_result f64_to_ui32_result f64_to_i64_result f64_to_ui64_result
      f32_to_i32_r_minMag_result f32_to_ui32_r_minMag_result f32_to_i64_r_minMag_result f32_to_ui64_r_minMag_result
      f64_to_i32_r_minMag_result f64_to_ui32_r_minMag_result f64_to_i64_r_minMag_result f64_to_ui64_r_minMag_result)

text \<open>C18.  Every 32-bit signed integer survives the conversion to a 64-bit floating-point value and back,
  in every rounding mode and without raising a flag.\<close>

theorem i32_f64_round_trip:
  "case i32_to_f64 a st of (z, st') \<Rightarrow> f64_to_i32 z mode exact st' = (sint a, st)"
proof -
  obtain z where z: "i32_to_f64 a st = (z, st)" "fp_finite 53 11 (unat z)"
    "fp_mag 53 11 (unat z) = nat \<bar>sint a\<bar> * 2 ^ 1074" "a \<noteq> 0 \<longrightarrow> fp_neg 53 11 (unat z) = (sint a < 0)"
    by (rule i32_to_f64_exact [of a st])
  have "fp_to_int 53 11 (- (2 ^ 31)) (2 ^ 31 - 1) (unat z) mode exact st = (sint a, st)"
  proof (rule to_int_exact [OF z(2,3)])
    show "- (2 ^ 31) \<le> sint a" "sint a \<le> 2 ^ 31 - 1" using sint_ge [of a] sint_less [of a] by simp_all
    show "sint a = (if fp_neg 53 11 (unat z) then - int (nat \<bar>sint a\<bar>) else int (nat \<bar>sint a\<bar>))"
      using z(4) by (cases "a = 0") simp_all
  qed
  then show ?thesis by (simp add: z(1) f64_to_i32_result)
qed


end
