(* ===== verification/SF_FloatConv.thy ===== *)
theory SF_FloatConv
  imports SF_Mul SF_ToInt
begin

text \<open>
  Conversions between the two formats (\<open>f32_to_f64.c\<close>, \<open>f64_to_f32.c\<close>), rounding to an integral value
  (\<open>f32_roundToInt.c\<close>, \<open>f64_roundToInt.c\<close>) and classification (\<open>f32_classify.c\<close>, \<open>f64_classify.c\<close>).  Widening
  is exact, narrowing rounds correctly, a value survives widening and narrowing, and classification
  names exactly one class.
\<close>

subsection \<open>Definitions\<close>

definition f32_to_f64 :: "u32 \<Rightarrow> sf_state \<Rightarrow> u64 \<times> sf_state" where
  "f32_to_f64 a st =
     (let uiA = ucast a; sign = signF32UI uiA; exp = expF32UI uiA; sig = fracF32UI uiA
      in if exp = 0xFF
         then if sig \<noteq> 0
              then (let st = softfloat_f32UIToCommonNaN uiA st in (softfloat_commonNaNToF64UI, st))
              else (packToF64UI sign 0x7FF 0, st)
         else if exp = 0 \<and> sig = 0 then (packToF64UI sign 0 0, st)
         else (let (exp, sig) =
                 (if exp = 0
                  then (let (e, s) = softfloat_normSubnormalF32Sig sig in (e - 1, s))
                  else (exp, sig))
               in (packToF64UI sign (exp + 0x380) (push_bit 29 sig), st)))"

definition f64_to_f32 :: "u64 \<Rightarrow> sf_state \<Rightarrow> u32 \<times> sf_state" where
  "f64_to_f32 a st =
     (let uiA = a; sign = signF64UI uiA; exp = expF64UI uiA; sig = fracF64UI uiA
      in if exp = 0x7FF
         then if sig \<noteq> 0
              then (let st = softfloat_f64UIToCommonNaN uiA st in (ucast softfloat_commonNaNToF32UI, st))
              else (ucast (packToF32UI sign 0xFF 0), st)
         else (let sig32 = softfloat_shortShiftRightJam64 sig 22
               in if word_of_int exp OR sig32 = 0 then (ucast (packToF32UI sign 0 0), st)
                  else softfloat_roundPackToF32 sign (exp - 0x381) (sig32 OR 0x40000000) st))"

definition f32_roundToInt :: "u32 \<Rightarrow> u8 \<Rightarrow> bool \<Rightarrow> sf_state \<Rightarrow> u32 \<times> sf_state" where
  "f32_roundToInt a roundingMode exact st =
     (let uiA = (ucast a :: u64); exp = expF32UI uiA
      in if exp \<le> 0x7E
         then if (ucast (push_bit 1 uiA) :: u32) = 0 then (a, st)
              else (let st = (if exact then softfloat_raiseFlags softfloat_flag_inexact st else st);
                        uiZ = uiA AND packToF32UI True 0 0;
                        nearest = (if exp = 0x7E then uiZ OR packToF32UI False 0x7F 0 else uiZ);
                        uiZ =
                          (if roundingMode = softfloat_round_near_even
                           then if fracF32UI uiA = 0 then uiZ else nearest
                           else if roundingMode = softfloat_round_near_maxMag then nearest
                           else if roundingMode = softfloat_round_min
                           then if uiZ \<noteq> 0 then packToF32UI True 0x7F 0 else uiZ
                           else if roundingMode = softfloat_round_max
                           then if uiZ = 0 then packToF32UI False 0x7F 0 else uiZ
                           else uiZ)
                    in (ucast uiZ, st))
         else if 0x96 \<le> exp
         then if exp = 0xFF \<and> fracF32UI uiA \<noteq> 0
              then (let (uiZ, st) = softfloat_propagateNaNF32UI uiA 0 st in (ucast uiZ, st))
              else (a, st)
         else (let lastBitMask = push_bit (nat (0x96 - exp)) (1 :: u64);
                   roundBitsMask = lastBitMask - 1;
                   uiZ =
                     (if roundingMode = softfloat_round_near_maxMag then uiA + drop_bit 1 lastBitMask
                      else if roundingMode = softfloat_round_near_even
                      then (let uiZ = uiA + drop_bit 1 lastBitMask
                            in if uiZ AND roundBitsMask = 0 then uiZ AND NOT lastBitMask else uiZ)
                      else if roundingMode \<noteq> softfloat_round_minMag
                      then if signF32UI uiA \<noteq> (roundingMode = softfloat_round_max) then uiA + roundBitsMask else uiA
                      else uiA);
                   uiZ = uiZ AND NOT roundBitsMask
               in (ucast uiZ, if exact \<and> uiZ \<noteq> uiA then softfloat_raiseFlags softfloat_flag_inexact st else st)))"

definition f64_roundToInt :: "u64 \<Rightarrow> u8 \<Rightarrow> bool \<Rightarrow> sf_state \<Rightarrow> u64 \<times> sf_state" where
  "f64_roundToInt a roundingMode exact st =
     (let uiA = a; exp = expF64UI uiA
      in if exp \<le> 0x3FE
         then if uiA AND 0x7FFFFFFFFFFFFFFF = 0 then (a, st)
              else (let st = (if exact then softfloat_raiseFlags softfloat_flag_inexact st else st);
                        uiZ = uiA AND packToF64UI True 0 0;
                        nearest = (if exp = 0x3FE then uiZ OR packToF64UI False 0x3FF 0 else uiZ);
                        uiZ =
                          (if roundingMode = softfloat_round_near_even
                           then if fracF64UI uiA = 0 then uiZ else nearest
                           else if roundingMode = softfloat_round_near_maxMag then nearest
                           else if roundingMode = softfloat_round_min
                           then if uiZ \<noteq> 0 then packToF64UI True 0x3FF 0 else uiZ
                           else if roundingMode = softfloat_round_max
                           then if uiZ = 0 then packToF64UI False 0x3FF 0 else uiZ
                           else uiZ)
                    in (uiZ, st))
         else if 0x433 \<le> exp
         then if exp = 0x7FF \<and> fracF64UI uiA \<noteq> 0
              then softfloat_propagateNaNF64UI uiA 0 st
              else (a, st)
         else (let lastBitMask = push_bit (nat (0x433 - exp)) (1 :: u64);
                   roundBitsMask = lastBitMask - 1;
                   uiZ =
                     (if roundingMode = softfloat_round_near_maxMag then uiA + drop_bit 1 lastBitMask
                      else if roundingMode = softfloat_round_near_even
                      then (let uiZ = uiA + drop_bit 1 lastBitMask
                            in if uiZ AND roundBitsMask = 0 then uiZ AND NOT lastBitMask else uiZ)
                      else if roundingMode \<noteq> softfloat_round_minMag
                      then if signF64UI uiA \<noteq> (roundingMode = softfloat_round_max) then uiA + roundBitsMask else uiA
                      else uiA);
                   uiZ = uiZ AND NOT roundBitsMask
               in (uiZ, if exact \<and> uiZ \<noteq> uiA then softfloat_raiseFlags softfloat_flag_inexact st else st)))"

subsection \<open>The reference conversion between formats\<close>

definition fp_convert ::
  "nat \<Rightarrow> nat \<Rightarrow> nat \<Rightarrow> nat \<Rightarrow> nat \<Rightarrow> sf_state \<Rightarrow> 'a::len word \<times> sf_state" where
  "fp_convert p w p' w' a st =
     (if fp_nan p w a
      then (of_nat (inf_bits p' w' + 2 ^ (p' - 2)),
            if fp_snan p w a then softfloat_raiseFlags softfloat_flag_invalid st else st)
      else if fp_inf p w a then (fp_infinity p' w' (fp_neg p w a), st)
      else fp_result p' w' st (fp_neg p w a)
             (fp_mag p w a * 2 ^ (2 ^ (w' - 1) + p' - 3)) (2 ^ (2 ^ (w - 1) + p - 3)))"

lemma quiet_bit:
  fixes A :: u64
  assumes "n < 64"
  shows "A AND push_bit n 1 = 0 \<longleftrightarrow> unat A mod 2 ^ Suc n < 2 ^ n"
proof -
  have "A AND push_bit n 1 = 0 \<longleftrightarrow> \<not> bit A n"
    using and_exp_eq_0_iff_not_bit [of A n] by (simp add: push_bit_eq_mult)
  also have "\<dots> \<longleftrightarrow> \<not> bit (unat A) n" by (simp add: bit_unsigned_iff)
  also have "\<dots> \<longleftrightarrow> even (unat A div 2 ^ n)" by (simp only: bit_iff_odd not_not)
  also have "\<dots> \<longleftrightarrow> unat A mod 2 ^ Suc n < 2 ^ n"
  proof -
    have "unat A mod (2 ^ n * 2) = 2 ^ n * (unat A div 2 ^ n mod 2) + unat A mod 2 ^ n" by (rule mod_mult2_eq)
    moreover have "unat A mod 2 ^ n < 2 ^ n" by simp
    ultimately show ?thesis by (cases "even (unat A div 2 ^ n)") (simp_all add: odd_iff_mod_2_eq_one mult.commute)
  qed
  finally show ?thesis .
qed

lemma common_NaN_F32:
  assumes "fp_nan 24 8 (unat A)"
  shows "softfloat_f32UIToCommonNaN A st =
    (if fp_snan 24 8 (unat A) then softfloat_raiseFlags softfloat_flag_invalid st else st)"
  using assms quiet_bit [of 22 A] by (simp add: softfloat_f32UIToCommonNaN_def fp_snan_def)

lemma common_NaN_F64:
  assumes "fp_nan 53 11 (unat A)"
  shows "softfloat_f64UIToCommonNaN A st =
    (if fp_snan 53 11 (unat A) then softfloat_raiseFlags softfloat_flag_invalid st else st)"
  using assms quiet_bit [of 51 A] by (simp add: softfloat_f64UIToCommonNaN_def fp_snan_def)

subsection \<open>Widening\<close>

lemma widen_packed:
  assumes R: "2 ^ 52 \<le> R" "R < 2 ^ 53" and e: "e < 2045" and sig: "unat sig = R" and N: "N * 2 ^ 925 = R * 2 ^ e"
  shows "(packToF64UI s (int e) sig, st) = fp_result 53 11 st s (N * 2 ^ 1074) (2 ^ 149)"
proof -
  have "fp_result 53 11 st s (N * 2 ^ 1074) (2 ^ 149) = fp_scaled 53 11 10 st s (R * 2 ^ 10) (int e)"
  proof (rule fp_scaled_eq_result [symmetric])
    have "(of_nat (N * 2 ^ 925) :: rat) = of_nat (R * 2 ^ e)" using N by (rule arg_cong)
    then show "(of_nat (N * 2 ^ 1074) / of_nat (2 ^ 149) :: rat) = of_nat (R * 2 ^ 10) * 2 powi (int e - int 10)"
      by (simp add: power_int_diff)
  qed simp
  also have "\<dots> = (of_nat (of_bool s * 2 ^ (11 + 53 - 1) + (e * 2 ^ (53 - 1) + R)), st)"
    by (rule fp_scaled_exact) (use R e in simp_all)
  finally have r: "fp_result 53 11 st s (N * 2 ^ 1074) (2 ^ 149) =
      (of_nat (of_bool s * 2 ^ (11 + 53 - 1) + (e * 2 ^ (53 - 1) + R)), st)" .
  show ?thesis unfolding r packToF64UI_nat sig by (simp add: add.assoc del: of_nat_add of_nat_mult)
qed

lemma f32_to_f64_result: "f32_to_f64 a st = fp_convert 24 8 53 11 (unat a) st"
proof -
  define A where "A = (ucast a :: u64)"
  have u: "unat a = unat A" by (simp add: A_def)
  have l: "unat A < 2 ^ (8 + 24)" using unat_less_32 [of a] unfolding u by simp
  note cls = f32.classify [of A, simplified]
  define N e F where "N = fp_mag 24 8 (unat A)" and "e = expF32UI A" and "F = fracF32UI A"
  have F: "unat F < 2 ^ 23" unfolding F_def using f32.frac_range [of A] by simp
  have er: "0 \<le> e" "e < 256" unfolding e_def using f32.exp_range [of A] by simp_all
  have spec: "fp_convert 24 8 53 11 (unat A) st =
    (if e = 0xFF then if F \<noteq> 0 then (defaultNaNF64UI, softfloat_f32UIToCommonNaN A st)
                      else (packToF64UI (signF32UI A) 0x7FF 0, st)
     else fp_result 53 11 st (signF32UI A) (N * 2 ^ 1074) (2 ^ 149))"
    unfolding fp_convert_def f32.neg_sign [OF l] N_def [symmetric] e_def F_def
    using cls common_NaN_F32 [of A] by (simp add: special_F64)
  note defs = f32_to_f64_def A_def [symmetric] e_def [symmetric] F_def [symmetric] Let_def softfloat_commonNaNToF64UI_def
  consider "e = 0xFF" | "e = 0" "F = 0" | "e = 0" "F \<noteq> 0" | "e \<noteq> 0" "e \<noteq> 0xFF" by blast
  then show ?thesis
  proof cases
    case 1
    then show ?thesis unfolding u spec defs by simp
  next
    case 2
    then have "N = 0" unfolding N_def e_def F_def f32.mag_zero by simp
    then show ?thesis unfolding u spec defs using 2 by (simp add: fp_result_zero special_F64)
  next
    case 3
    then obtain k where k: "softfloat_normSubnormalF32Sig F = (1 - int k, push_bit k F)" "k \<le> 23"
      "unat (push_bit k F) = unat F * 2 ^ k" "2 ^ 23 \<le> unat F * 2 ^ k" "unat F * 2 ^ k < 2 ^ 24"
      using normSubnormalF32Sig_val [of F] F by (auto simp: unat_gt_0)
    have N: "N = unat F" unfolding N_def F_def using f32.mag_fields [of A] 3 by (simp add: e_def)
    have p: "unat (push_bit 29 (push_bit k F)) = unat F * 2 ^ k * 2 ^ 29"
      using k(3-5) by (subst unat_push_small) simp_all
    have "925 = k + 29 + (0x380 - k)" using k(2) by simp
    then have eq: "N * 2 ^ 925 = unat F * 2 ^ k * 2 ^ 29 * 2 ^ (0x380 - k)"
      unfolding N by (metis mult.assoc power_add)
    have "(packToF64UI (signF32UI A) (int (0x380 - k)) (push_bit 29 (push_bit k F)), st) =
        fp_result 53 11 st (signF32UI A) (N * 2 ^ 1074) (2 ^ 149)"
      by (rule widen_packed [OF _ _ _ p eq]) (use k in simp_all)
    moreover have "1 - int k - 1 + 0x380 = int (0x380 - k)" using k(2) by simp
    ultimately show ?thesis unfolding u spec defs using 3 k(1) by (simp only: if_True if_False case_prod_conv simp_thms)
  next
    case 4
    then obtain k where k: "e = int (Suc k)" using er by (metis nonneg_int_cases int_ops(1) not0_implies_Suc)
    have N: "N = (2 ^ 23 + unat F) * 2 ^ k" unfolding N_def F_def using f32.mag_fields [of A] 4 k by (simp add: e_def)
    define R where "R = (2 ^ 23 + unat F) * 2 ^ 29"
    have R: "2 ^ 52 \<le> R" "R < 2 ^ 53" using F by (simp_all add: R_def)
    have uR: "unat (of_nat R :: u64) = R" using R by (simp add: unat_of_nat)
    have p: "unat (push_bit 29 F) = unat F * 2 ^ 29" using F by (intro unat_push_small) simp
    have "N * 2 ^ 925 = R * 2 ^ (k + 896)" unfolding N R_def by (simp add: power_add)
    then have "(packToF64UI (signF32UI A) (int (k + 896)) (of_nat R), st) =
        fp_result 53 11 st (signF32UI A) (N * 2 ^ 1074) (2 ^ 149)"
      using R k er uR by (intro widen_packed) simp_all
    moreover have "packToF64UI (signF32UI A) (int (k + 896)) (of_nat R) = packToF64UI (signF32UI A) (e + 0x380) (push_bit 29 F)"
    proof -
      have e': "e + 0x380 = int (k + 897)" using k by simp
      have "(k + 896) * 2 ^ 52 + R = (k + 897) * 2 ^ 52 + unat F * 2 ^ 29" by (simp add: R_def)
      then show ?thesis unfolding e' packToF64UI_nat uR p by (simp only: add.assoc)
    qed
    ultimately show ?thesis unfolding u spec defs using 4 by simp
  qed
qed

subsection \<open>Narrowing\<close>

lemma fp_result_below_half:
  assumes p: "2 \<le> p" and w: "2 \<le> w" and "2 * N < D" "2 * N' < D'" "N = 0 \<longleftrightarrow> N' = 0"
  shows "fp_result p w st s N D = fp_result p w st s N' D'"
proof -
  have D: "0 < D" "0 < D'" using assms by linarith+
  have c: "frac_class N D = frac_class N' D'" by (rule frac_class_small [OF assms(3-5)])
  note r = round_quot_class [OF c D]
  have p2: "(4 :: nat) \<le> 2 ^ p" "(2 :: nat) \<le> 2 ^ (p - 1)"
    using power_increasing [of 2 p "2 :: nat"] power_increasing [of 1 "p - 1" "2 :: nat"] p by simp_all
  have t: "tiny p after m s M E" if "2 * M < E" for after m M and E :: nat
  proof -
    have "2 * M div E = 0" using that by simp
    then have "round_quot m s (2 * M) E < 2 ^ p" using round_quot_bounds(2) [of m s "2 * M" E] p2(1) by linarith
    moreover have "M < 2 ^ (p - 1) * E" using that mult_right_mono [OF p2(2), of E] by linarith
    ultimately show ?thesis by (simp add: tiny_def)
  qed
  have "M < 2 ^ p * E" if "2 * M < E" for M E :: nat using that mult_right_mono [OF p2(1), of E] by linarith
  then have "ieee_result p w after m s N D = ieee_result p w after m s N' D'" for after m
    using ieee_result_small [of D p w N after m s] ieee_result_small [of D' p w N' after m s]
      D p w assms(3-5) r [of m s] frac_class_exact [OF c] t by (auto simp: neq0_conv [symmetric] simp del: neq0_conv)
  then show ?thesis by (simp add: fp_result_def)
qed

lemma f64_to_f32_result: "f64_to_f32 a st = fp_convert 53 11 24 8 (unat a) st"
proof -
  have l: "unat a < 2 ^ (11 + 53)" using unat_less_64 [of a] by simp
  note cls = f64.classify [of a, simplified]
  define N e F J where "N = fp_mag 53 11 (unat a)" and "e = expF64UI a" and "F = fracF64UI a"
    and "J = softfloat_shortShiftRightJam64 F 22"
  have F: "unat F < 2 ^ 52" unfolding F_def using f64.frac_range [of a] by simp
  have er: "0 \<le> e" "e < 2048" unfolding e_def using f64.exp_range [of a] by simp_all
  have spec: "(fp_convert 53 11 24 8 (unat a) st :: u32 \<times> sf_state) =
    (if e = 0x7FF then if F \<noteq> 0 then (ucast defaultNaNF32UI, softfloat_f64UIToCommonNaN a st)
                       else (ucast (packToF32UI (signF64UI a) 0xFF 0), st)
     else fp_result 24 8 st (signF64UI a) (N * 2 ^ 149) (2 ^ 1074))"
    unfolding fp_convert_def f64.neg_sign [OF l] N_def [symmetric] e_def F_def
    using cls common_NaN_F64 [of a] by (simp add: special_F32)
  note defs = f64_to_f32_def e_def [symmetric] F_def [symmetric] Let_def softfloat_commonNaNToF32UI_def J_def [symmetric]
  have J: "unat J = sticky (unat F) (2 ^ 22)" unfolding J_def using shortjam64.jam_sticky_law [of 22 F] by simp
  have J30: "unat J < 2 ^ 30" unfolding J using F sticky_less_iff [of "2 ^ 22" 1 "unat F" "2 ^ 29"] by simp
  have J0: "J = 0 \<longleftrightarrow> F = 0" using J by (simp add: word_unat_eq_iff sticky_zero_iff)
  have JO: "unat (J OR 0x40000000) = 2 ^ 30 + unat J"
    using unat_or_disjoint [of "0x40000000 :: u64" 30 J] J30 by (simp add: or.commute)
  have rp: "softfloat_roundPackToF32 s (e - 0x381) (J OR 0x40000000) st = fp_scaled 24 8 7 st s (2 ^ 30 + unat J) (e - 0x381)" for s
    using roundPackToF32_scaled [of "J OR 0x40000000" "e - 0x381"] J30 er unfolding JO by simp
  have z: "word_of_int e OR J = 0 \<longleftrightarrow> e = 0 \<and> F = 0" unfolding or_eq_0_iff J0 using er word_of_exp_zero [of e] by simp
  consider "e = 0x7FF" | "e = 0" "F = 0" | "e = 0" "F \<noteq> 0" | "e \<noteq> 0" "e \<noteq> 0x7FF" by blast
  then show ?thesis
  proof cases
    case 1
    then show ?thesis unfolding spec defs by simp
  next
    case 2
    then have "N = 0" unfolding N_def e_def F_def f64.mag_zero by simp
    then show ?thesis unfolding spec defs z using 2 by (simp add: fp_result_zero special_F32)
  next
    case 3
    have N: "N = unat F" unfolding N_def F_def using f64.mag_fields [of a] 3 by (simp add: e_def)
    have "fp_scaled 24 8 7 st s (2 ^ 30 + unat J) (e - 0x381) = fp_result 24 8 st s (N * 2 ^ 149) (2 ^ 1074)" for s
      unfolding fp_scaled_def N using 3 F J30 by (intro fp_result_below_half) (simp_all add: unat_gt_0)
    then show ?thesis unfolding spec defs z rp using 3 by simp
  next
    case 4
    then obtain k where k: "e = int (Suc k)" using er by (metis nonneg_int_cases int_ops(1) not0_implies_Suc)
    define S where "S = 2 ^ 52 + unat F"
    have N: "N = S * 2 ^ k" unfolding N_def F_def S_def using f64.mag_fields [of a] 4 k by (simp add: e_def)
    have st: "2 ^ 30 + unat J = sticky S (2 ^ 22)"
      unfolding J S_def using sticky_add [of "2 ^ 22" "2 ^ 30" "unat F"] by simp
    have "fp_scaled 24 8 7 st s (2 ^ 30 + unat J) (e - 0x381) = fp_result 24 8 st s (N * 2 ^ 149) (2 ^ 1074)" for s
      unfolding st
    proof (rule fp_scaled_sticky_eq)
      show "2 ^ (24 + 7 - 1) \<le> sticky S (2 ^ 22)" "sticky S (2 ^ 22) < 2 ^ (24 + 7)"
        unfolding st [symmetric] using J30 by simp_all
      show "(of_nat (N * 2 ^ 149) / of_nat (2 ^ 1074) :: rat) = of_nat S / of_nat (2 ^ 22) * 2 powi (e - 0x381 - int 7)"
        unfolding N k by (simp add: power_int_diff power_int_add)
    qed simp_all
    then show ?thesis unfolding spec defs z rp using 4 by simp
  qed
qed

subsection \<open>Exact results and the round trip\<close>

lemma pattern_nat:
  assumes "b < 2 ^ (w + p - 1)" "1 \<le> p"
  shows "fp_neg p w (of_bool s * 2 ^ (w + p - 1) + b) = s"
    and "(of_bool s * 2 ^ (w + p - 1) + b) mod 2 ^ (w + p - 1) = b"
    and "fp_mag p w (of_bool s * 2 ^ (w + p - 1) + b) = fdec p b"
  using assms by (cases s; simp add: fp_neg_def fp_mag_def)+

lemma inf_bits_less: "1 \<le> p \<Longrightarrow> inf_bits p w < 2 ^ (w + p - 1)"
proof -
  assume p: "1 \<le> p"
  have "(2::nat) ^ (w + p - 1) = 2 ^ w * 2 ^ (p - 1)" using p by (simp flip: power_add)
  then show ?thesis by (simp add: inf_bits_def)
qed

lemma fp_result_pattern:
  assumes "1 \<le> p" "b < inf_bits p w"
  shows "fp_result p w st s (fdec p b) 1 = (of_nat (of_bool s * 2 ^ (w + p - 1) + b), st)"
proof -
  have "fdec p b < fdec p (inf_bits p w)" using assms by (simp add: fdec_less_iff)
  then show ?thesis
    unfolding fp_result_def using ieee_result_exact [OF assms(1) fdec_representable [OF assms(1)]]
    by (simp add: fenc_fdec [OF assms(1)])
qed

lemma finite_pattern:
  assumes "n < 2 ^ (w + p)" "1 \<le> p"
  shows "n = of_bool (fp_neg p w n) * 2 ^ (w + p - 1) + n mod 2 ^ (w + p - 1)"
proof -
  define H :: nat where "H = 2 ^ (w + p - 1)"
  have "n < 2 * H" using assms by (simp add: H_def flip: power_Suc)
  then show ?thesis unfolding fp_neg_def H_def [symmetric] by (cases "n < H") (simp_all add: le_mod_geq)
qed

lemma widened_pattern:
  assumes "b < inf_bits 24 8"
  obtains B where "B < inf_bits 53 11" "fdec 53 B = fdec 24 b * 2 ^ 925"
proof -
  obtain c e where c: "c < 2 ^ 24" "fdec 24 b = c * 2 ^ e"
    using fdec_representable [of 24 b] by (auto simp: representable_def)
  have "fdec 24 b * 2 ^ 925 = c * 2 ^ (e + 925)" using c(2) by (simp only: power_add mult.assoc)
  moreover have "c < 2 ^ 53" using c(1) by simp
  ultimately have r: "representable 53 (fdec 24 b * 2 ^ 925)" unfolding representable_def by blast
  have d: "fdec 53 (fenc 53 (fdec 24 b * 2 ^ 925)) = fdec 24 b * 2 ^ 925" by (rule fdec_fenc [OF _ r]) simp
  have "fdec 24 b < fdec 24 (inf_bits 24 8)" using assms by (simp add: fdec_less_iff)
  then have "fdec 24 b * 2 ^ 925 < 2 ^ 23 * 2 ^ 254 * 2 ^ 925" using fdec_inf_bits [of 24 8] by simp
  also have "\<dots> < fdec 53 (inf_bits 53 11)"
  proof -
    have "(2::nat) ^ (23 + 254 + 925) < 2 ^ (52 + 2046)" by (intro power_strict_increasing) simp_all
    then show ?thesis using fdec_inf_bits [of 53 11] by (simp add: power_add)
  qed
  finally have "fdec 53 (fenc 53 (fdec 24 b * 2 ^ 925)) < fdec 53 (inf_bits 53 11)" unfolding d .
  then have "fenc 53 (fdec 24 b * 2 ^ 925) < inf_bits 53 11" by (subst (asm) fdec_less_iff) simp_all
  then show thesis using d by (rule that)
qed

lemma f32_f64_f32:
  assumes nn: "\<not> fp_nan 24 8 (unat a)"
  shows "(case f32_to_f64 a st of (z, st') \<Rightarrow> f64_to_f32 z st') = (a, st)"
proof -
  define s b where "s = fp_neg 24 8 (unat a)" and "b = unat a mod 2 ^ 31"
  have a: "unat a = of_bool s * 2 ^ 31 + b"
    using finite_pattern [of "unat a" 8 24] unat_less_32 [of a] by (simp add: s_def b_def)
  have aw: "a = of_nat (of_bool s * 2 ^ 31 + b)" unfolding a [symmetric] by simp
  have nb: "b \<le> inf_bits 24 8" using nn unfolding fp_nan_def b_def by simp
  show ?thesis
  proof (cases "b = inf_bits 24 8")
    case True
    then have i: "fp_inf 24 8 (unat a)" by (simp add: fp_inf_def b_def)
    let ?z = "fp_infinity 53 11 s :: u64"
    have z: "unat ?z = of_bool s * 2 ^ (11 + 53 - 1) + inf_bits 53 11"
      by (cases s) (simp_all add: fp_infinity_def inf_bits_def)
    note P = pattern_nat [OF inf_bits_less, where p = 53 and w = 11 and s = s, folded z, simplified]
    have "fp_inf 53 11 (unat ?z)" "\<not> fp_nan 53 11 (unat ?z)" using P(2) by (simp_all add: fp_inf_def fp_nan_def)
    moreover have "(fp_infinity 24 8 s :: u32) = a" unfolding aw True fp_infinity_def by simp
    ultimately show ?thesis using i nn P(1)
      by (simp add: f32_to_f64_result f64_to_f32_result fp_convert_def s_def)
  next
    case False
    then have b: "b < inf_bits 24 8" using nb by simp
    then have i: "\<not> fp_inf 24 8 (unat a)" by (simp add: fp_inf_def b_def)
    have m: "fp_mag 24 8 (unat a) = fdec 24 b" by (simp add: fp_mag_def b_def)
    obtain B where B: "B < inf_bits 53 11" "fdec 53 B = fdec 24 b * 2 ^ 925"
      using b by (rule widened_pattern)
    define z :: u64 where "z = of_nat (of_bool s * 2 ^ (11 + 53 - 1) + B)"
    have B63: "B < 2 ^ (11 + 53 - 1)" using B(1) inf_bits_less [of 53 11] by linarith
    have z: "unat z = of_bool s * 2 ^ (11 + 53 - 1) + B" unfolding z_def unat_of_nat using B63 by (cases s) simp_all
    note P = pattern_nat [OF B63, where s = s, folded z, simplified]
    have "f32_to_f64 a st = fp_result 53 11 st s (fdec 24 b * 2 ^ 1074) (2 ^ 149)"
      using nn i by (simp add: f32_to_f64_result fp_convert_def m s_def)
    also have "\<dots> = fp_result 53 11 st s (fdec 53 B) 1" unfolding B(2) by (rule fp_result_cong) simp_all
    also have "\<dots> = (z, st)" unfolding z_def using B(1) by (intro fp_result_pattern) simp_all
    finally have w: "f32_to_f64 a st = (z, st)" .
    have "\<not> fp_nan 53 11 (unat z)" "\<not> fp_inf 53 11 (unat z)" using P(2) B(1) by (simp_all add: fp_inf_def fp_nan_def)
    then have "f64_to_f32 z st = fp_result 24 8 st s (fdec 53 B * 2 ^ 149) (2 ^ 1074)"
      using P(1,3) by (simp add: f64_to_f32_result fp_convert_def)
    also have "\<dots> = fp_result 24 8 st s (fdec 24 b) 1" unfolding B(2) by (rule fp_result_cong) simp_all
    also have "\<dots> = (a, st)" using fp_result_pattern [of 24 b 8 st s] b unfolding aw by simp
    finally show ?thesis unfolding w by simp
  qed
qed

subsection \<open>Rounding to an integral value\<close>

definition fp_round_to_int ::
  "nat \<Rightarrow> nat \<Rightarrow> nat \<Rightarrow> u8 \<Rightarrow> bool \<Rightarrow> sf_state \<Rightarrow> 'a::len word \<times> sf_state" where
  "fp_round_to_int p w a mode exact st =
     (let s = fp_neg p w a; N = fp_mag p w a; D = 2 ^ (2 ^ (w - 1) + p - 3)
      in if fp_nan p w a then fp_propagate p w a 0 st
         else if fp_inf p w a then (of_nat a, st)
         else (of_nat (of_bool s * 2 ^ (w + p - 1) + fenc p (round_quot (rmode_of mode) s N D * D)),
               if exact \<and> N mod D \<noteq> 0 then softfloat_raiseFlags softfloat_flag_inexact st else st))"

lemma fenc_zero: "fenc p 0 = 0" by (simp add: fenc_def fquantum.simps)

text \<open>Adding the increment of a mode and clearing the low bits rounds a word to a multiple of a
  power of two, when the part above the significand is an even multiple of it.\<close>

lemma round_low_bits:
  fixes A :: u64 and s :: bool
  assumes A: "unat A = C * 2 ^ Suc j + S" and j: "1 \<le> j" "j < 63" and lt: "unat A + 2 ^ j < 2 ^ 64"
    and m: "mode \<in> {softfloat_round_near_even, softfloat_round_minMag, softfloat_round_min,
      softfloat_round_max, softfloat_round_near_maxMag}"
  defines "L \<equiv> push_bit j (1 :: u64)"
  defines "Z \<equiv>
    (if mode = softfloat_round_near_maxMag then A + drop_bit 1 L
     else if mode = softfloat_round_near_even
     then (let uiZ = A + drop_bit 1 L in if uiZ AND (L - 1) = 0 then uiZ AND NOT L else uiZ)
     else if mode \<noteq> softfloat_round_minMag
     then if s \<noteq> (mode = softfloat_round_max) then A + (L - 1) else A
     else A) AND NOT (L - 1)"
  shows "unat Z = C * 2 ^ Suc j + round_quot (rmode_of mode) s S (2 ^ j) * 2 ^ j"
    and "Z \<noteq> A \<longleftrightarrow> S mod 2 ^ j \<noteq> 0"
proof -
  let ?m = "rmode_of mode"
  define h :: nat where "h = 2 ^ j"
  have h: "0 < h" "even h" "2 ^ Suc j = 2 * h" "2 ^ j = h" using j(1) by (simp_all add: h_def)
  have Lm: "L - 1 = mask j" by (simp add: L_def mask_eq_exp_minus_1 push_bit_eq_mult)
  have hl: "h < 2 ^ 63" unfolding h_def using j(2) by (intro power_strict_increasing) simp_all
  have uL: "unat L = h" using hl unfolding L_def unat_push h(4) by simp
  then have uM: "unat (L - 1) = h - 1" using h(1) by (subst unat_sub_small) (simp_all add: word_le_nat_alt)
  have uH: "unat (drop_bit 1 L) = h div 2" by (simp only: unat_drop uL power_one_right)
  define I where "I = (if mode \<noteq> softfloat_round_near_even \<and> mode \<noteq> softfloat_round_near_maxMag
      then if mode = (if s then softfloat_round_min else softfloat_round_max) then L - 1 else 0
      else drop_bit 1 L)"
  have I: "unat I = round_inc ?m s h" unfolding I_def by (rule round_inc_mode [OF h(1) uH uM])
  have il: "round_inc ?m s h < h" using h(1) by (rule round_inc_less)
  have AI: "unat (A + I) = C * (2 * h) + (S + round_inc ?m s h)"
    using lt il A unfolding h by (subst unat_add_small) (simp_all add: I)
  define q where "q = (S + round_inc ?m s h) div h"
  have r: "round_quot ?m s S h = (if ?m = RNE \<and> 2 * (S mod h) = h then q - q mod 2 else q)"
    using round_quot_inc [OF h(1,2), of ?m s S] by (simp add: Let_def q_def)
  have tie: "(A + I) AND (L - 1) = 0 \<longleftrightarrow> 2 * (S mod h) = h" if "mode = softfloat_round_near_even"
  proof -
    have rne: "round_inc ?m s h = h div 2" using that by (simp add: round_inc_def rmode_of_def)
    have "(A + I) AND (L - 1) = 0 \<longleftrightarrow> (C * (2 * h) + (S + h div 2)) mod h = 0"
      unfolding Lm word_unat_eq_iff unat_and_mask AI rne h by simp
    also have "\<dots> \<longleftrightarrow> (S + h div 2) mod h = 0" using mod_mult_self3 [of "C * 2" h "S + h div 2"] by (simp add: mult.assoc)
    also have "\<dots> \<longleftrightarrow> 2 * (S mod h) = h"
    proof -
      obtain g where g: "h = 2 * g" using h(2) by (auto elim: evenE)
      have x: "(x + g) mod (2 * g) = 0 \<longleftrightarrow> x = g" if "x < 2 * g" for x
      proof (cases "x < g")
        case False
        then have "(x + g) mod (2 * g) = x - g" using that by (simp add: le_mod_geq)
        then show ?thesis using False by auto
      qed (use that in simp)
      have "S mod h < h" using h(1) by simp
      then have "(S mod h + g) mod h = 0 \<longleftrightarrow> S mod h = g" unfolding g by (rule x)
      moreover have "(S mod h + g) mod h = (S + g) mod h" by (rule mod_add_left_eq)
      ultimately show ?thesis using g by simp
    qed
    finally show ?thesis .
  qed
  have Z: "Z = (if mode = softfloat_round_near_even \<and> 2 * (S mod h) = h
      then (A + I) AND NOT (mask (Suc j)) else (A + I) AND NOT (mask j))"
  proof -
    have b: "(x AND NOT L) AND NOT (mask j) = x AND NOT (mask (Suc j))" for x
      by (rule bit_word_eqI) (auto simp: L_def bit_simps less_Suc_eq)
    show ?thesis
      using m tie unfolding Z_def Lm [symmetric] I_def Let_def
      by (auto simp: b [folded Lm] softfloat_consts)
  qed
  have "unat Z = C * (2 * h) + round_quot ?m s S h * h"
  proof (cases "mode = softfloat_round_near_even \<and> 2 * (S mod h) = h")
    case True
    then have "unat Z = (C * (2 * h) + (S + round_inc ?m s h)) div (2 * h) * (2 * h)"
      unfolding Z by (simp only: if_True simp_thms unat_and_not_mask AI h)
    also have "\<dots> = C * (2 * h) + (S + round_inc ?m s h) div (2 * h) * (2 * h)"
      using h(1) div_mult_self3 [of "2 * h" C "S + round_inc ?m s h"] by (simp add: add_mult_distrib)
    also have "(S + round_inc ?m s h) div (2 * h) = q div 2" unfolding q_def by (simp add: div_mult2_eq mult.commute)
    also have "C * (2 * h) + q div 2 * (2 * h) = C * (2 * h) + (q - q mod 2) * h"
      by (simp add: minus_mod_eq_div_mult)
    finally show ?thesis unfolding r using True by (simp add: rmode_of_def)
  next
    case False
    then have "unat Z = (C * (2 * h) + (S + round_inc ?m s h)) div h * h"
      unfolding Z by (simp only: if_False unat_and_not_mask AI h)
    also have "\<dots> = (C * 2 + q) * h" unfolding q_def using h(1) div_mult_self3 [of h "C * 2" "S + round_inc ?m s h"] by (simp add: mult.assoc)
    finally show ?thesis unfolding r using False by (auto simp: rmode_RNE algebra_simps)
  qed
  then show uZ: "unat Z = C * 2 ^ Suc j + round_quot ?m s S (2 ^ j) * 2 ^ j" unfolding h .
  have "round_quot ?m s S h * h = S \<longleftrightarrow> S mod h = 0"
  proof
    assume "round_quot ?m s S h * h = S"
    then show "S mod h = 0" by (metis mod_mult_self2_is_0)
  next
    assume z: "S mod h = 0"
    then show "round_quot ?m s S h * h = S" using h(1) by (simp add: round_quot_exact dvd_div_mult_self mod_eq_0_iff_dvd)
  qed
  then show "Z \<noteq> A \<longleftrightarrow> S mod 2 ^ j \<noteq> 0" unfolding word_unat_eq_iff uZ A h by simp
qed

lemma top_bit_nat:
  fixes A :: "'a::len word"
  assumes "unat A < 2 ^ Suc n"
  shows "bit A n \<longleftrightarrow> 2 ^ n \<le> unat A"
proof -
  have "bit A n \<longleftrightarrow> bit (unat A) n" by (simp add: bit_unsigned_iff bit_imp_le_length)
  also have "\<dots> \<longleftrightarrow> odd (unat A div 2 ^ n)" by (rule bit_iff_odd)
  also have "\<dots> \<longleftrightarrow> 2 ^ n \<le> unat A"
  proof (cases "2 ^ n \<le> unat A")
    case True
    then have "unat A div 2 ^ n = 1" using assms by (intro div_nat_eqI) simp_all
    then show ?thesis using True by simp
  qed simp
  finally show ?thesis .
qed

lemma shift_out_top: "(ucast (push_bit 1 (A :: u64)) :: u32) = 0 \<longleftrightarrow> unat A mod 2 ^ 31 = 0"
proof -
  have "(ucast (push_bit n A) :: u32) = push_bit n (ucast A)" for n by (rule bit_word_eqI) (auto simp: bit_simps)
  then have "(ucast (push_bit 1 A) :: u32) = 0 \<longleftrightarrow> push_bit 1 (ucast A :: u32) = 0" by (simp only:)
  also have "\<dots> \<longleftrightarrow> unat (push_bit 1 (ucast A :: u32)) = 0" by (rule unat_eq_0 [symmetric])
  also have "unat (push_bit 1 (ucast A :: u32)) = unat A mod 2 ^ 31 * 2"
  proof -
    have "unat (ucast A :: u32) mod 2 ^ 31 = unat A mod 2 ^ 31" by (simp add: unat_ucast mod_mod_cancel)
    moreover have "unat (ucast A :: u32) * 2 mod 2 ^ 32 = unat (ucast A :: u32) mod 2 ^ 31 * 2"
      using mult_mod_left [of "unat (ucast A :: u32)" "2 ^ 31" 2] by simp
    ultimately show ?thesis unfolding unat_push by simp
  qed
  finally show ?thesis by simp
qed

lemma clear_top: "(A :: u64) AND 0x7FFFFFFFFFFFFFFF = 0 \<longleftrightarrow> unat A mod 2 ^ 63 = 0"
proof -
  have "(0x7FFFFFFFFFFFFFFF :: u64) = mask 63" by (simp add: mask_eq_exp_minus_1)
  then show ?thesis by (simp only: unat_eq_0 [symmetric] unat_and_mask)
qed

text \<open>Below one half of a unit the rounded value is zero or one, as the mode, the sign and the
  comparison with one half decide.\<close>

lemma round_quot_below_one:
  assumes "N < D" "N \<noteq> 0"
    and m: "mode \<in> {softfloat_round_near_even, softfloat_round_minMag, softfloat_round_min,
      softfloat_round_max, softfloat_round_near_maxMag}"
  shows "round_quot (rmode_of mode) s N D =
    of_bool (if mode = softfloat_round_near_even then D < 2 * N
      else if mode = softfloat_round_near_maxMag then D \<le> 2 * N
      else if mode = softfloat_round_min then s
      else if mode = softfloat_round_max then \<not> s else False)"
  using assms by (auto simp: round_quot_def round_up_def rmode_of_def softfloat_consts)

text \<open>Between one and the precision, the rounded significand keeps the exponent or carries into
  the next one; both are one pattern.\<close>

lemma round_integral_pattern:
  assumes p: "1 \<le> p" and j: "j < p" and S: "2 ^ (p - 1) \<le> S" "S < 2 ^ p" and k: "k + j = d"
  shows "fenc p (round_quot m s (S * 2 ^ k) (2 ^ d) * 2 ^ d) = k * 2 ^ (p - 1) + round_quot m s S (2 ^ j) * 2 ^ j"
    and "S * 2 ^ k mod 2 ^ d = 0 \<longleftrightarrow> S mod 2 ^ j = 0"
proof -
  have d: "(2::nat) ^ d = 2 ^ j * 2 ^ k" unfolding k [symmetric] by (simp add: power_add)
  let ?r = "round_quot m s S (2 ^ j)"
  have r: "round_quot m s (S * 2 ^ k) (2 ^ d) = ?r" unfolding d by (rule round_quot_scale) simp
  have s1: "2 ^ p = 2 ^ (p - j) * (2::nat) ^ j" using j by (simp flip: power_add)
  have s2: "2 ^ (p - 1) = 2 ^ (p - 1 - j) * (2::nat) ^ j" using j by (simp flip: power_add)
  have "S div 2 ^ j < 2 ^ (p - j)" using S(2) unfolding s1 by (simp add: less_mult_imp_div_less)
  then have hi: "?r * 2 ^ j \<le> 2 ^ p" using round_quot_bounds(2) [of m s S "2 ^ j"] unfolding s1 by (intro mult_right_mono) simp_all
  have "2 ^ (p - 1 - j) \<le> S div 2 ^ j" using S(1) unfolding s2 by (simp add: less_eq_div_iff_mult_less_eq)
  then have lo: "2 ^ (p - 1) \<le> ?r * 2 ^ j" using round_quot_bounds(1) [of S "2 ^ j" m s] unfolding s2 by (intro mult_right_mono) simp_all
  have "fdec p (k * 2 ^ (p - 1) + ?r * 2 ^ j) = ?r * 2 ^ j * 2 ^ k" using fdec_pack [OF p hi] lo by simp
  then have "fenc p (?r * 2 ^ j * 2 ^ k) = k * 2 ^ (p - 1) + ?r * 2 ^ j" using fenc_fdec [OF p] by metis
  then show "fenc p (round_quot m s (S * 2 ^ k) (2 ^ d) * 2 ^ d) = k * 2 ^ (p - 1) + ?r * 2 ^ j"
    unfolding r by (simp only: d ac_simps)
  show "S * 2 ^ k mod 2 ^ d = 0 \<longleftrightarrow> S mod 2 ^ j = 0" unfolding d by simp
qed

lemma fenc_one_F32: "fenc 24 (2 ^ 149) = 127 * 2 ^ 23"
proof -
  have "fdec 24 (127 * 2 ^ 23) = 2 ^ 149" by (simp add: fdec_def)
  then show ?thesis using fenc_fdec [of 24 "127 * 2 ^ 23"] by simp
qed

lemma small_fraction_F32:
  fixes A :: u64
  assumes e: "expF32UI A \<le> 0x7E" and N: "N = fp_mag 24 8 (unat A)"
  shows "N < 2 ^ 149" and "2 ^ 149 \<le> 2 * N \<longleftrightarrow> expF32UI A = 0x7E"
    and "2 ^ 149 < 2 * N \<longleftrightarrow> expF32UI A = 0x7E \<and> fracF32UI A \<noteq> 0"
proof -
  show "N < 2 ^ 149" using mag_lt_F32 [of A 126] e N by simp
  have hi: "N = (2 ^ 23 + unat (fracF32UI A)) * 2 ^ 125" if "expF32UI A = 0x7E"
    using f32.mag_fields [of A] that by (simp add: N)
  have lo: "2 * N < 2 ^ 149" if "expF32UI A \<noteq> 0x7E"
    using mag_lt_F32 [of A 125] that e by (simp add: N)
  have D: "(2::nat) ^ 149 = 2 * (2 ^ 23 * 2 ^ 125)" by simp
  have "2 ^ 149 \<le> 2 * N" "2 ^ 149 < 2 * N \<longleftrightarrow> fracF32UI A \<noteq> 0" if "expF32UI A = 0x7E"
    unfolding hi [OF that] D by (simp_all add: unat_gt_0 add_mult_distrib)
  then show "2 ^ 149 \<le> 2 * N \<longleftrightarrow> expF32UI A = 0x7E"
    and "2 ^ 149 < 2 * N \<longleftrightarrow> expF32UI A = 0x7E \<and> fracF32UI A \<noteq> 0"
    using lo by (metis leD, metis less_imp_le leD)
qed

lemma sign_bit_F32:
  fixes A :: u64
  assumes "unat A < 2 ^ (8 + 24)"
  shows "A AND packToF32UI True 0 0 = (if signF32UI A then packToF32UI True 0 0 else 0)"
proof -
  have "packToF32UI True 0 0 = push_bit 31 1" by (simp add: packToF32UI_def push_bit_eq_mult)
  moreover have "bit A 31 \<longleftrightarrow> signF32UI A" using top_bit_nat [of A 31] f32.sign_law [OF assms] assms by simp
  ultimately show ?thesis by (simp only: and_single_bit)
qed

lemma even_base_F32:
  assumes "1 \<le> j" "j \<le> 23" "int j = 0x96 - e"
  shows "2 ^ Suc j dvd of_bool s * 2 ^ 31 + (nat e - 1) * 2 ^ 23"
proof (rule dvd_add)
  have "(2::nat) ^ Suc j dvd 2 ^ 31" using assms(2) by (intro le_imp_power_dvd) simp
  then show "2 ^ Suc j dvd of_bool s * (2::nat) ^ 31" by (rule dvd_mult)
  show "2 ^ Suc j dvd (nat e - 1) * 2 ^ 23"
  proof (cases "j = 23")
    case True
    then have "nat e = 127" using assms(3) by simp
    then show ?thesis unfolding True by simp
  next
    case False
    then show ?thesis using assms(2) by (intro dvd_mult le_imp_power_dvd) simp
  qed
qed

lemma fenc_one_F64: "fenc 53 (2 ^ 1074) = 1023 * 2 ^ 52"
proof -
  have "fdec 53 (1023 * 2 ^ 52) = 2 ^ 1074" by (simp add: fdec_def)
  then show ?thesis using fenc_fdec [of 53 "1023 * 2 ^ 52"] by simp
qed

lemma small_fraction_F64:
  fixes A :: u64
  assumes e: "expF64UI A \<le> 0x3FE" and N: "N = fp_mag 53 11 (unat A)"
  shows "N < 2 ^ 1074" and "2 ^ 1074 \<le> 2 * N \<longleftrightarrow> expF64UI A = 0x3FE"
    and "2 ^ 1074 < 2 * N \<longleftrightarrow> expF64UI A = 0x3FE \<and> fracF64UI A \<noteq> 0"
proof -
  show "N < 2 ^ 1074" using mag_lt_F64 [of A 1022] e N by simp
  have hi: "N = (2 ^ 52 + unat (fracF64UI A)) * 2 ^ 1021" if "expF64UI A = 0x3FE"
    using f64.mag_fields [of A] that by (simp add: N)
  have lo: "2 * N < 2 ^ 1074" if "expF64UI A \<noteq> 0x3FE"
    using mag_lt_F64 [of A 1021] that e by (simp add: N)
  have D: "(2::nat) ^ 1074 = 2 * (2 ^ 52 * 2 ^ 1021)" by simp
  have "2 ^ 1074 \<le> 2 * N" "2 ^ 1074 < 2 * N \<longleftrightarrow> fracF64UI A \<noteq> 0" if "expF64UI A = 0x3FE"
    unfolding hi [OF that] D by (simp_all add: unat_gt_0 add_mult_distrib)
  then show "2 ^ 1074 \<le> 2 * N \<longleftrightarrow> expF64UI A = 0x3FE"
    and "2 ^ 1074 < 2 * N \<longleftrightarrow> expF64UI A = 0x3FE \<and> fracF64UI A \<noteq> 0"
    using lo by (metis leD, metis less_imp_le leD)
qed

lemma sign_bit_F64:
  fixes A :: u64
  assumes "unat A < 2 ^ (11 + 53)"
  shows "A AND packToF64UI True 0 0 = (if signF64UI A then packToF64UI True 0 0 else 0)"
proof -
  have "packToF64UI True 0 0 = push_bit 63 1" by (simp add: packToF64UI_def push_bit_eq_mult)
  moreover have "bit A 63 \<longleftrightarrow> signF64UI A" using top_bit_nat [of A 63] f64.sign_law [OF assms] assms by simp
  ultimately show ?thesis by (simp only: and_single_bit)
qed

lemma even_base_F64:
  assumes "1 \<le> j" "j \<le> 52" "int j = 0x433 - e"
  shows "2 ^ Suc j dvd of_bool s * 2 ^ 63 + (nat e - 1) * 2 ^ 52"
proof (rule dvd_add)
  have "(2::nat) ^ Suc j dvd 2 ^ 63" using assms(2) by (intro le_imp_power_dvd) simp
  then show "2 ^ Suc j dvd of_bool s * (2::nat) ^ 63" by (rule dvd_mult)
  show "2 ^ Suc j dvd (nat e - 1) * 2 ^ 52"
  proof (cases "j = 52")
    case True
    then have "nat e = 1023" using assms(3) by simp
    then show ?thesis unfolding True by simp
  next
    case False
    then show ?thesis using assms(2) by (intro dvd_mult le_imp_power_dvd) simp
  qed
qed

lemma f32_roundToInt_result:
  assumes m: "mode \<in> {softfloat_round_near_even, softfloat_round_minMag, softfloat_round_min,
      softfloat_round_max, softfloat_round_near_maxMag}"
  shows "f32_roundToInt a mode ex st = fp_round_to_int 24 8 (unat a) mode ex st"
proof -
  define A where "A = (ucast a :: u64)"
  have u: "unat a = unat A" by (simp add: A_def)
  have l: "unat A < 2 ^ (8 + 24)" using unat_less_32 [of a] unfolding u by simp
  define s e F N where "s = signF32UI A" and "e = expF32UI A" and "F = fracF32UI A" and "N = fp_mag 24 8 (unat A)"
  define P :: nat where "P = unat A mod 2 ^ 31"
  note cls = f32.classify [of A, simplified, folded e_def F_def]
  have ra: "of_nat (unat A) = a" unfolding u [symmetric] by simp
  have fields: "unat A = of_bool s * 2 ^ 31 + nat e * 2 ^ 23 + unat F"
    using fields_F32 [OF l] by (simp only: s_def e_def F_def)
  have Fl: "unat F < 2 ^ 23" unfolding F_def f32.frac_law by simp
  have NP: "N = fdec 24 P" by (simp add: N_def P_def fp_mag_def)
  have AP: "unat A = of_bool s * 2 ^ 31 + P" using f32.mod_bits [OF l] f32.sign_law [OF l] by (simp add: P_def s_def)
  have spec: "(fp_round_to_int 24 8 (unat a) mode ex st :: u32 \<times> sf_state) =
    (if e = 0xFF then if F \<noteq> 0 then fp_propagate 24 8 (unat A) 0 st else (a, st)
     else (of_nat (of_bool s * 2 ^ 31 + fenc 24 (round_quot (rmode_of mode) s N (2 ^ 149) * 2 ^ 149)),
           if ex \<and> N mod 2 ^ 149 \<noteq> 0 then softfloat_raiseFlags softfloat_flag_inexact st else st))"
    unfolding u fp_round_to_int_def f32.neg_sign [OF l] N_def [symmetric] s_def [symmetric] Let_def ra
    using cls by simp
  note defs = f32_roundToInt_def A_def [symmetric] e_def [symmetric] F_def [symmetric] s_def [symmetric] Let_def
  consider (small) "e \<le> 0x7E" | (mid) "0x7E < e" "e < 0x96" | (big) "0x96 \<le> e" by linarith
  then show ?thesis
  proof cases
    case small
    note sf = small_fraction_F32 [OF small [unfolded e_def] N_def, folded e_def F_def]
    have e0: "e \<noteq> 0xFF" using small by simp
    have nz: "(ucast (push_bit 1 A) :: u32) = 0 \<longleftrightarrow> N = 0"
      using shift_out_top [of A] NP fdec_inj [of 24 P 0] by (simp add: P_def fdec_def)
    show ?thesis
    proof (cases "N = 0")
      case True
      then have "P = 0" using NP fdec_inj [of 24 P 0] by (simp add: fdec_def)
      then have "(of_nat (of_bool s * 2 ^ 31) :: u32) = a" using AP ra by simp
      then show ?thesis unfolding spec using True small e0 nz by (simp add: defs round_quot_exact fenc_zero)
    next
      case False
      note sb = sign_bit_F32 [OF l, folded s_def]
      define B where "B = (if mode = softfloat_round_near_even then e = 0x7E \<and> F \<noteq> 0
        else if mode = softfloat_round_near_maxMag then e = 0x7E
        else if mode = softfloat_round_min then s
        else if mode = softfloat_round_max then \<not> s else False)"
      have rq: "round_quot (rmode_of mode) s N (2 ^ 149) = of_bool B"
        unfolding round_quot_below_one [OF sf(1) False m] B_def sf(2,3) ..
      have pk: "packToF32UI True 0 0 OR packToF32UI False 0x7F 0 = packToF32UI True 0x7F 0"
        "packToF32UI False 0 0 = 0" "packToF32UI True 0 0 \<noteq> 0" by (simp_all add: packToF32UI_def)
      have z: "(if s then packToF32UI True 0 0 else 0) = packToF32UI s 0 0" using pk by (cases s) simp_all
      have zn: "packToF32UI s 0 0 OR packToF32UI False 0x7F 0 = packToF32UI s 0x7F 0"
        "packToF32UI s 0 0 = 0 \<longleftrightarrow> \<not> s" using pk by (cases s; simp)+
      have "f32_roundToInt a mode ex st = (ucast (packToF32UI s (if B then 0x7F else 0) 0),
          if ex then softfloat_raiseFlags softfloat_flag_inexact st else st)"
        using small False nz m unfolding defs sb z zn B_def by (cases s) (auto simp: softfloat_consts)
      moreover have "ucast (packToF32UI s (if B then 0x7F else 0) 0) =
          (of_nat (of_bool s * 2 ^ 31 + fenc 24 (of_bool B * 2 ^ 149)) :: u32)"
      proof -
        have "fenc 24 (of_bool B * 2 ^ 149) = of_bool B * (127 * 2 ^ 23)"
          using fenc_one_F32 fenc_zero by (cases B) (simp_all only: of_bool_eq mult_0 mult_1)
        then show ?thesis by (cases s; cases B; simp add: packToF32UI_def)
      qed
      moreover have "N mod 2 ^ 149 = N" using sf(1) by (rule mod_less)
      ultimately show ?thesis unfolding spec rq using False e0 by (simp only: if_False simp_thms)
    qed
  next
    case mid
    define j where "j = nat (0x96 - e)"
    have j: "1 \<le> j" "j \<le> 23" "int j = 0x96 - e" using mid by (simp_all add: j_def)
    have kj: "nat e - 1 + j = 149" using mid by (simp add: j_def)
    define S where "S = 2 ^ 23 + unat F"
    have S: "2 ^ (24 - 1) \<le> S" "S < 2 ^ 24" using Fl by (simp_all add: S_def)
    have NS: "N = S * 2 ^ (nat e - 1)" using f32.mag_fields [of A] mid by (simp add: N_def S_def e_def F_def)
    obtain C where C: "of_bool s * 2 ^ 31 + (nat e - 1) * 2 ^ 23 = C * 2 ^ Suc j"
      using even_base_F32 [OF j, of s] by (metis dvd_def mult.commute)
    have "nat e = Suc (nat e - 1)" using mid by simp
    then have "nat e * 2 ^ 23 = (nat e - 1) * 2 ^ 23 + 2 ^ 23" by (metis mult_Suc add.commute)
    then have AC: "unat A = C * 2 ^ Suc j + S" unfolding fields C [symmetric] S_def by simp
    have "nat e * 2 ^ 23 \<le> 0x96 * 2 ^ 23" using mid by (intro mult_right_mono) simp_all
    moreover have "(2::nat) ^ j \<le> 2 ^ 23" using j(2) by (intro power_increasing) simp_all
    ultimately have lt: "unat A + 2 ^ j < 2 ^ 64" unfolding fields using Fl by (cases s) simp_all
    have j63: "j < 63" using j(2) by simp
    note rl = round_low_bits [OF AC j(1) j63 lt m, where s = s]
    note rp1 = round_integral_pattern(1) [OF _ _ S kj, where m = "rmode_of mode" and s = s]
    note rp2 = round_integral_pattern(2) [OF _ _ S kj]
    define L where "L = push_bit j (1 :: u64)"
    define Z where "Z =
      (if mode = softfloat_round_near_maxMag then A + drop_bit 1 L
       else if mode = softfloat_round_near_even
       then (let uiZ = A + drop_bit 1 L in if uiZ AND (L - 1) = 0 then uiZ AND NOT L else uiZ)
       else if mode \<noteq> softfloat_round_minMag
       then if s \<noteq> (mode = softfloat_round_max) then A + (L - 1) else A
       else A) AND NOT (L - 1)"
    note rZ = rl [folded L_def, folded Z_def]
    have "f32_roundToInt a mode ex st = (ucast Z, if ex \<and> Z \<noteq> A then softfloat_raiseFlags softfloat_flag_inexact st else st)"
    proof -
      have ne: "(e \<le> 0x7E) = False" "(0x96 \<le> e) = False" using mid by simp_all
      show ?thesis unfolding Z_def L_def j_def defs ne by (simp only: if_False)
    qed
    moreover have "ucast Z = (of_nat (unat Z) :: u32)" by simp
    moreover have "unat Z = of_bool s * 2 ^ 31 + fenc 24 (round_quot (rmode_of mode) s N (2 ^ 149) * 2 ^ 149)"
      using rp1 j(2) unfolding rZ(1) NS C [symmetric] by simp
    moreover have "Z \<noteq> A \<longleftrightarrow> N mod 2 ^ 149 \<noteq> 0" using rp2 j(2) unfolding rZ(2) NS by simp
    moreover have "e \<noteq> 0xFF" using mid by simp
    ultimately show ?thesis unfolding spec by (simp only: if_False simp_thms)
  next
    case big
    have NS: "N mod 2 ^ 149 = 0" if "e \<noteq> 0xFF"
    proof -
      have "(2::nat) ^ 149 dvd 2 ^ (nat e - 1)" using big by (intro le_imp_power_dvd) simp
      then show ?thesis using f32.mag_fields [of A] big by (simp add: N_def e_def [symmetric] dvd_mult)
    qed
    have "fenc 24 N = P" unfolding NP by (rule fenc_fdec) simp
    then have "round_quot (rmode_of mode) s N (2 ^ 149) * 2 ^ 149 = N" if "e \<noteq> 0xFF"
      using NS [OF that] by (simp add: round_quot_exact mod_eq_0_iff_dvd)
    moreover have "(of_nat (of_bool s * 2 ^ 31 + fenc 24 N) :: u32) = a" unfolding \<open>fenc 24 N = P\<close> AP [symmetric] by (rule ra)
    moreover have "(let (uiZ, st) = softfloat_propagateNaNF32UI A 0 st in (ucast uiZ, st)) = (fp_propagate 24 8 (unat A) 0 st :: u32 \<times> sf_state)"
      using propagate_F32 [of A 0 st] by simp
    ultimately show ?thesis unfolding spec using big NS by (simp add: defs)
  qed
qed

lemma f64_roundToInt_result:
  assumes m: "mode \<in> {softfloat_round_near_even, softfloat_round_minMag, softfloat_round_min,
      softfloat_round_max, softfloat_round_near_maxMag}"
  shows "f64_roundToInt a mode ex st = fp_round_to_int 53 11 (unat a) mode ex st"
proof -
  define A where "A = (a :: u64)"
  have u: "unat a = unat A" by (simp add: A_def)
  have l: "unat A < 2 ^ (11 + 53)" using unat_less_64 [of a] unfolding u by simp
  define s e F N where "s = signF64UI A" and "e = expF64UI A" and "F = fracF64UI A" and "N = fp_mag 53 11 (unat A)"
  define P :: nat where "P = unat A mod 2 ^ 63"
  note cls = f64.classify [of A, simplified, folded e_def F_def]
  have ra: "of_nat (unat A) = a" unfolding u [symmetric] by simp
  have fields: "unat A = of_bool s * 2 ^ 63 + nat e * 2 ^ 52 + unat F"
    using fields_F64 [OF l] by (simp only: s_def e_def F_def)
  have Fl: "unat F < 2 ^ 52" unfolding F_def f64.frac_law by simp
  have NP: "N = fdec 53 P" by (simp add: N_def P_def fp_mag_def)
  have AP: "unat A = of_bool s * 2 ^ 63 + P" using f64.mod_bits [OF l] f64.sign_law [OF l] by (simp add: P_def s_def)
  have spec: "(fp_round_to_int 53 11 (unat a) mode ex st :: u64 \<times> sf_state) =
    (if e = 0x7FF then if F \<noteq> 0 then fp_propagate 53 11 (unat A) 0 st else (a, st)
     else (of_nat (of_bool s * 2 ^ 63 + fenc 53 (round_quot (rmode_of mode) s N (2 ^ 1074) * 2 ^ 1074)),
           if ex \<and> N mod 2 ^ 1074 \<noteq> 0 then softfloat_raiseFlags softfloat_flag_inexact st else st))"
    unfolding u fp_round_to_int_def f64.neg_sign [OF l] N_def [symmetric] s_def [symmetric] Let_def ra
    using cls by simp
  note defs = f64_roundToInt_def A_def [symmetric] e_def [symmetric] F_def [symmetric] s_def [symmetric] Let_def
  consider (small) "e \<le> 0x3FE" | (mid) "0x3FE < e" "e < 0x433" | (big) "0x433 \<le> e" by linarith
  then show ?thesis
  proof cases
    case small
    note sf = small_fraction_F64 [OF small [unfolded e_def] N_def, folded e_def F_def]
    have e0: "e \<noteq> 0x7FF" using small by simp
    have nz: "A AND 0x7FFFFFFFFFFFFFFF = 0 \<longleftrightarrow> N = 0"
      using clear_top [of A] NP fdec_inj [of 53 P 0] by (simp add: P_def fdec_def)
    show ?thesis
    proof (cases "N = 0")
      case True
      then have "P = 0" using NP fdec_inj [of 53 P 0] by (simp add: fdec_def)
      then have "(of_nat (of_bool s * 2 ^ 63) :: u64) = a" using AP ra by simp
      then show ?thesis unfolding spec using True small e0 nz by (simp add: defs round_quot_exact fenc_zero)
    next
      case False
      note sb = sign_bit_F64 [OF l, folded s_def]
      define B where "B = (if mode = softfloat_round_near_even then e = 0x3FE \<and> F \<noteq> 0
        else if mode = softfloat_round_near_maxMag then e = 0x3FE
        else if mode = softfloat_round_min then s
        else if mode = softfloat_round_max then \<not> s else False)"
      have rq: "round_quot (rmode_of mode) s N (2 ^ 1074) = of_bool B"
        unfolding round_quot_below_one [OF sf(1) False m] B_def sf(2,3) ..
      have pk: "packToF64UI True 0 0 OR packToF64UI False 0x3FF 0 = packToF64UI True 0x3FF 0"
        "packToF64UI False 0 0 = 0" "packToF64UI True 0 0 \<noteq> 0" by (simp_all add: packToF64UI_def)
      have z: "(if s then packToF64UI True 0 0 else 0) = packToF64UI s 0 0" using pk by (cases s) simp_all
      have zn: "packToF64UI s 0 0 OR packToF64UI False 0x3FF 0 = packToF64UI s 0x3FF 0"
        "packToF64UI s 0 0 = 0 \<longleftrightarrow> \<not> s" using pk by (cases s; simp)+
      have "f64_roundToInt a mode ex st = (packToF64UI s (if B then 0x3FF else 0) 0,
          if ex then softfloat_raiseFlags softfloat_flag_inexact st else st)"
        using small False nz m unfolding defs sb z zn B_def by (cases s) (auto simp: softfloat_consts)
      moreover have "packToF64UI s (if B then 0x3FF else 0) 0 =
          (of_nat (of_bool s * 2 ^ 63 + fenc 53 (of_bool B * 2 ^ 1074)) :: u64)"
      proof -
        have "fenc 53 (of_bool B * 2 ^ 1074) = of_bool B * (1023 * 2 ^ 52)"
          using fenc_one_F64 fenc_zero by (cases B) (simp_all only: of_bool_eq mult_0 mult_1)
        then show ?thesis by (cases s; cases B; simp add: packToF64UI_def)
      qed
      moreover have "N mod 2 ^ 1074 = N" using sf(1) by (rule mod_less)
      ultimately show ?thesis unfolding spec rq using False e0 by (simp only: if_False simp_thms)
    qed
  next
    case mid
    define j where "j = nat (0x433 - e)"
    have j: "1 \<le> j" "j \<le> 52" "int j = 0x433 - e" using mid by (simp_all add: j_def)
    have kj: "nat e - 1 + j = 1074" using mid by (simp add: j_def)
    define S where "S = 2 ^ 52 + unat F"
    have S: "2 ^ (53 - 1) \<le> S" "S < 2 ^ 53" using Fl by (simp_all add: S_def)
    have NS: "N = S * 2 ^ (nat e - 1)" using f64.mag_fields [of A] mid by (simp add: N_def S_def e_def F_def)
    obtain C where C: "of_bool s * 2 ^ 63 + (nat e - 1) * 2 ^ 52 = C * 2 ^ Suc j"
      using even_base_F64 [OF j, of s] by (metis dvd_def mult.commute)
    have "nat e = Suc (nat e - 1)" using mid by simp
    then have "nat e * 2 ^ 52 = (nat e - 1) * 2 ^ 52 + 2 ^ 52" by (metis mult_Suc add.commute)
    then have AC: "unat A = C * 2 ^ Suc j + S" unfolding fields C [symmetric] S_def by simp
    have "nat e * 2 ^ 52 \<le> 0x433 * 2 ^ 52" using mid by (intro mult_right_mono) simp_all
    moreover have "(2::nat) ^ j \<le> 2 ^ 52" using j(2) by (intro power_increasing) simp_all
    ultimately have lt: "unat A + 2 ^ j < 2 ^ 64" unfolding fields using Fl by (cases s) simp_all
    have j63: "j < 63" using j(2) by simp
    note rl = round_low_bits [OF AC j(1) j63 lt m, where s = s]
    note rp1 = round_integral_pattern(1) [OF _ _ S kj, where m = "rmode_of mode" and s = s]
    note rp2 = round_integral_pattern(2) [OF _ _ S kj]
    define L where "L = push_bit j (1 :: u64)"
    define Z where "Z =
      (if mode = softfloat_round_near_maxMag then A + drop_bit 1 L
       else if mode = softfloat_round_near_even
       then (let uiZ = A + drop_bit 1 L in if uiZ AND (L - 1) = 0 then uiZ AND NOT L else uiZ)
       else if mode \<noteq> softfloat_round_minMag
       then if s \<noteq> (mode = softfloat_round_max) then A + (L - 1) else A
       else A) AND NOT (L - 1)"
    note rZ = rl [folded L_def, folded Z_def]
    have "f64_roundToInt a mode ex st = (Z, if ex \<and> Z \<noteq> A then softfloat_raiseFlags softfloat_flag_inexact st else st)"
    proof -
      have ne: "(e \<le> 0x3FE) = False" "(0x433 \<le> e) = False" using mid by simp_all
      show ?thesis unfolding Z_def L_def j_def defs ne by (simp only: if_False)
    qed
    moreover have "Z = (of_nat (unat Z) :: u64)" by simp
    moreover have "unat Z = of_bool s * 2 ^ 63 + fenc 53 (round_quot (rmode_of mode) s N (2 ^ 1074) * 2 ^ 1074)"
      using rp1 j(2) unfolding rZ(1) NS C [symmetric] by simp
    moreover have "Z \<noteq> A \<longleftrightarrow> N mod 2 ^ 1074 \<noteq> 0" using rp2 j(2) unfolding rZ(2) NS by simp
    moreover have "e \<noteq> 0x7FF" using mid by simp
    ultimately show ?thesis unfolding spec by (simp only: if_False simp_thms)
  next
    case big
    have NS: "N mod 2 ^ 1074 = 0" if "e \<noteq> 0x7FF"
    proof -
      have "(2::nat) ^ 1074 dvd 2 ^ (nat e - 1)" using big by (intro le_imp_power_dvd) simp
      then show ?thesis using f64.mag_fields [of A] big by (simp add: N_def e_def [symmetric] dvd_mult)
    qed
    have "fenc 53 N = P" unfolding NP by (rule fenc_fdec) simp
    then have "round_quot (rmode_of mode) s N (2 ^ 1074) * 2 ^ 1074 = N" if "e \<noteq> 0x7FF"
      using NS [OF that] by (simp add: round_quot_exact mod_eq_0_iff_dvd)
    moreover have "(of_nat (of_bool s * 2 ^ 63 + fenc 53 N) :: u64) = a" unfolding \<open>fenc 53 N = P\<close> AP [symmetric] by (rule ra)
    moreover have "softfloat_propagateNaNF64UI A 0 st = fp_propagate 53 11 (unat A) 0 st"
      using propagate_F64 [of A 0 st] by simp
    ultimately show ?thesis unfolding spec using big NS by (simp add: defs)
  qed
qed

subsection \<open>Classification\<close>

definition fp_class_bit :: "nat \<Rightarrow> nat \<Rightarrow> nat \<Rightarrow> nat" where
  "fp_class_bit p w a =
     (if fp_nan p w a then if fp_snan p w a then 8 else 9
      else if fp_inf p w a then if fp_neg p w a then 0 else 7
      else if fp_mag p w a = 0 then if fp_neg p w a then 3 else 4
      else if fp_mag p w a < 2 ^ (p - 1) then if fp_neg p w a then 2 else 5
      else if fp_neg p w a then 1 else 6)"

lemma subnormal_mag_F32: "fp_mag 24 8 (unat A) < 2 ^ 23 \<longleftrightarrow> expF32UI A = 0"
proof (cases "expF32UI A = 0")
  case True
  then show ?thesis using mag_sig_F32(1,2) [of A] by simp
next
  case False
  then have "1 \<le> expF32UI A" using f32.exp_law [of A] by linarith
  then show ?thesis using mag_ge_F32 [OF False, of 1] False by simp
qed

lemma f32_classify_result: "unat (f32_classify a) = 2 ^ fp_class_bit 24 8 (unat a)"
proof -
  define A where "A = (ucast a :: u64)"
  have u: "unat a = unat A" by (simp add: A_def)
  have l: "unat A < 2 ^ (8 + 24)" using unat_less_32 [of a] unfolding u by simp
  note cls = f32.classify(2,3) [of A, simplified] f32.isNaN f32.isSigNaN f32.mag_zero f32.neg_sign [OF l] subnormal_mag_F32
  show ?thesis
    unfolding u f32_classify_def A_def [symmetric] Let_def fp_class_bit_def cls fp_snan_def
    by (auto simp: cls subnormal_mag_F32 [simplified] push_bit_eq_mult)
qed

lemma subnormal_mag_F64: "fp_mag 53 11 (unat A) < 2 ^ 52 \<longleftrightarrow> expF64UI A = 0"
proof (cases "expF64UI A = 0")
  case True
  then show ?thesis using mag_sig_F64(1,2) [of A] by simp
next
  case False
  then have "1 \<le> expF64UI A" using f64.exp_law [of A] by linarith
  then show ?thesis using mag_ge_F64 [OF False, of 1] False by simp
qed

lemma f64_classify_result: "unat (f64_classify a) = 2 ^ fp_class_bit 53 11 (unat a)"
proof -
  define A where "A = (ucast a :: u64)"
  have u: "unat a = unat A" by (simp add: A_def)
  have l: "unat A < 2 ^ (11 + 53)" using unat_less_64 [of a] unfolding u by simp
  note cls = f64.classify(2,3) [of A, simplified] f64.isNaN f64.isSigNaN f64.mag_zero f64.neg_sign [OF l] subnormal_mag_F64
  show ?thesis
    unfolding u f64_classify_def A_def [symmetric] Let_def fp_class_bit_def cls fp_snan_def
    by (auto simp: cls subnormal_mag_F64 [simplified] push_bit_eq_mult)
qed

subsection \<open>Properties\<close>

text \<open>C20.  Conversion between the formats rounds correctly: widening and narrowing both return the
  pattern and the flags of the reference conversion for every operand, subnormals, infinities and
  NaNs included.\<close>

theorem float_conversions_correct:
  "f32_to_f64 a st = fp_convert 24 8 53 11 (unat a) st \<and> f64_to_f32 b st = fp_convert 53 11 24 8 (unat b) st"
  using f32_to_f64_result f64_to_f32_result by blast

text \<open>C21.  Widening loses nothing: a single-precision value other than a NaN comes back bit for bit
  from widening and narrowing, in every rounding mode, with no flag raised.\<close>

theorem widen_narrow_round_trip:
  assumes "\<not> fp_nan 24 8 (unat a)"
  shows "(case f32_to_f64 a st of (z, st') \<Rightarrow> f64_to_f32 z st') = (a, st)"
  using assms by (rule f32_f64_f32)

theorem widen_narrow_round_trip_witness:
  "\<not> fp_nan 24 8 (unat (0x80000001 :: u32)) \<and>
   (case f32_to_f64 0x80000001 \<lparr>softfloat_roundingMode = 0, softfloat_detectTininess = 1, softfloat_exceptionFlags = 0\<rparr> of (z, st') \<Rightarrow> f64_to_f32 z st') = (0x80000001, \<lparr>softfloat_roundingMode = 0, softfloat_detectTininess = 1, softfloat_exceptionFlags = 0\<rparr>)"
proof -
  have "\<not> fp_nan 24 8 (unat (0x80000001 :: u32))" by (simp add: fp_nan_def inf_bits_def)
  then show ?thesis using widen_narrow_round_trip by blast
qed

text \<open>C22.  Rounding to an integral value, in each of the five rounding modes: the result is the integer
  the mode selects, as a pattern with the operand's sign; inexact is raised exactly when it was asked
  for and the operand was not integral.\<close>

theorem roundToInt_correct:
  assumes "mode \<in> {softfloat_round_near_even, softfloat_round_minMag, softfloat_round_min,
      softfloat_round_max, softfloat_round_near_maxMag}"
  shows "f32_roundToInt a mode ex st = fp_round_to_int 24 8 (unat a) mode ex st \<and>
    f64_roundToInt b mode ex st = fp_round_to_int 53 11 (unat b) mode ex st"
  using f32_roundToInt_result [OF assms] f64_roundToInt_result [OF assms] by blast

theorem roundToInt_correct_witness:
  "softfloat_round_near_even \<in> {softfloat_round_near_even, softfloat_round_minMag, softfloat_round_min,
      softfloat_round_max, softfloat_round_near_maxMag} \<and>
   f32_roundToInt 0x40200000 softfloat_round_near_even True \<lparr>softfloat_roundingMode = 0, softfloat_detectTininess = 1, softfloat_exceptionFlags = 0\<rparr> =
     fp_round_to_int 24 8 (unat (0x40200000 :: u32)) softfloat_round_near_even True \<lparr>softfloat_roundingMode = 0, softfloat_detectTininess = 1, softfloat_exceptionFlags = 0\<rparr> \<and>
   f32_roundToInt 0x40200000 softfloat_round_near_even True \<lparr>softfloat_roundingMode = 0, softfloat_detectTininess = 1, softfloat_exceptionFlags = 0\<rparr> =
     (0x40000000, \<lparr>softfloat_roundingMode = 0, softfloat_detectTininess = 1, softfloat_exceptionFlags = 1\<rparr>)"
proof -
  have m: "softfloat_round_near_even \<in> {softfloat_round_near_even, softfloat_round_minMag, softfloat_round_min,
      softfloat_round_max, softfloat_round_near_maxMag}" by simp
  have "f32_roundToInt 0x40200000 softfloat_round_near_even True \<lparr>softfloat_roundingMode = 0, softfloat_detectTininess = 1, softfloat_exceptionFlags = 0\<rparr> =
     (0x40000000, \<lparr>softfloat_roundingMode = 0, softfloat_detectTininess = 1, softfloat_exceptionFlags = 1\<rparr>)" by code_simp
  then show ?thesis using m roundToInt_correct [OF m] by blast
qed

text \<open>Classification sets exactly one bit, the one of the operand's class (FCLASS of the RISC-V
  manual), in both formats.\<close>

theorem classify_one_class:
  "unat (f32_classify a) = 2 ^ fp_class_bit 24 8 (unat a) \<and> unat (f64_classify b) = 2 ^ fp_class_bit 53 11 (unat b)"
  using f32_classify_result f64_classify_result by blast

end
