(* ===== verification/CM_Util.thy ===== *)
theory CM_Util
  imports Prelude
begin

text \<open>
  The checksum of CoreMark (\<open>src/benchmarks/coremark32/core_util.c\<close>): \<open>crcu8\<close>, \<open>crcu16\<close>, \<open>crc16\<close> and
  \<open>crcu32\<close>, on the widths the source uses, and the seed selector \<open>get_seed_32\<close> of the configured
  \<open>SEED_VOLATILE\<close> method.  The bit loop is shown equal to the usual presentation of
  CRC-16 (polynomial 0xA001, reflected); the checksum is linear and injective in each 16-bit
  datum, so two messages that differ in a burst of at most 16 aligned bits have different checksums.
\<close>

subsection \<open>Definitions\<close>

text \<open>One turn of the loop of \<open>crcu8\<close> on \<open>(data, crc)\<close>.\<close>

definition crcu8_step :: "u8 \<times> u16 \<Rightarrow> u8 \<times> u16" where
  "crcu8_step s =
     (let (data, crc) = s;
          x16 = (data AND 1) XOR (ucast crc AND 1);
          data = drop_bit 1 data;
          (crc, carry) = (if x16 = 1 then (crc XOR 0x4002, True) else (crc, False));
          crc = drop_bit 1 crc;
          crc = (if carry then crc OR 0x8000 else crc AND 0x7FFF)
      in (data, crc))"

definition crcu8 :: "u8 \<Rightarrow> u16 \<Rightarrow> u16" where
  "crcu8 data crc = snd ((crcu8_step ^^ 8) (data, crc))"

definition crcu16 :: "u16 \<Rightarrow> u16 \<Rightarrow> u16" where
  "crcu16 newval crc = (let crc = crcu8 (ucast newval) crc in crcu8 (ucast (drop_bit 8 newval)) crc)"

definition crc16 :: "u16 \<Rightarrow> u16 \<Rightarrow> u16" where
  "crc16 newval crc = crcu16 newval crc"

definition crcu32 :: "u32 \<Rightarrow> u16 \<Rightarrow> u16" where
  "crcu32 newval crc =
     (let crc = crc16 (ucast newval) crc in crc16 (ucast (drop_bit 16 newval)) crc)"

definition get_seed_32 :: "(nat \<Rightarrow> u32) \<Rightarrow> int \<Rightarrow> u32" where
  "get_seed_32 seed_volatile i = (if 1 \<le> i \<and> i \<le> 5 then seed_volatile (nat i) else 0)"

subsection \<open>The reference checksum\<close>

text \<open>The shift register of CRC-16, and a byte fed through it.\<close>

definition lfsr :: "u16 \<Rightarrow> u16" where
  "lfsr c = drop_bit 1 c XOR (if bit c 0 then 0xA001 else 0)"

definition crc_byte :: "u8 \<Rightarrow> u16 \<Rightarrow> u16" where
  "crc_byte d c = (lfsr ^^ 8) (c XOR ucast d)"

definition crc_bytes :: "u8 list \<Rightarrow> u16 \<Rightarrow> u16" where
  "crc_bytes ds c = fold crcu8 ds c"

lemma unat_of_nat_small: "n < 2 ^ LENGTH('a) \<Longrightarrow> unat (of_nat n :: 'a::len word) = n"
  by (simp add: unat_of_nat)

lemma and_one_bool: "(w :: 'a::len word) AND 1 = of_bool (bit w 0)"
  by (rule bit_word_eqI) (auto simp: bit_simps)

lemma ucast_bool [simp]: "ucast (of_bool b :: 'a::len word) = (of_bool b :: 'b::len word)"
  by (cases b) simp_all

lemma xor_cancel_left: "(a :: 'a::len word) XOR b = a XOR c \<longleftrightarrow> b = c"
proof
  assume "a XOR b = a XOR c"
  then have "a XOR (a XOR b) = a XOR (a XOR c)" by simp
  then show "b = c" by (simp flip: xor.assoc)
qed simp

lemma xor_cancel_right: "(b :: 'a::len word) XOR a = c XOR a \<longleftrightarrow> b = c"
  by (simp add: xor_cancel_left xor.commute [of _ a])

lemma word_shifted_out: "(y :: u16) = drop_bit 1 c \<Longrightarrow> y AND 0x7FFF = y \<and> y AND 0x8000 = 0"
proof -
  assume y: "y = drop_bit 1 c"
  have m: "(0x7FFF :: u16) = mask 15" "(0x8000 :: u16) = push_bit 15 1" by (simp_all add: mask_eq_exp_minus_1)
  have n: "\<not> bit y n" if "15 \<le> n" for n using that by (auto simp: y bit_simps dest: bit_imp_le_length)
  have "y AND mask 15 = y"
  proof (rule bit_word_eqI)
    fix n
    show "bit (y AND mask 15) n = bit y n" using n [of n] by (cases "n < 15") (auto simp: bit_simps)
  qed
  then show ?thesis unfolding m and_single_bit using n [of 15] by simp
qed

lemma crcu8_step_lfsr: "crcu8_step (d, c) = (drop_bit 1 d, lfsr (c XOR ucast (d AND 1)))"
proof -
  define y where "y = drop_bit 1 c"
  have y: "y AND 0x7FFF = y" "y AND 0x8000 = 0" using word_shifted_out [OF y_def] by simp_all
  have "(y XOR 0x2001) XOR 0x8000 = (y XOR 0x2001) OR 0x8000"
    by (rule disjunctive_xor_eq_or) (simp add: bit.conj_xor_distrib2 y)
  then have or: "(y XOR 0x2001) OR 0x8000 = y XOR 0xA001" by (simp add: xor.assoc)
  have b: "bit (ucast c :: u8) 0 = bit c 0" by (simp add: bit_simps)
  have d: "drop_bit 1 (c XOR 0x4002) = y XOR 0x2001" "drop_bit 1 (c XOR of_bool e) = y" for e
    unfolding drop_bit_xor y_def by (cases e; simp)+
  have bc: "bit (c XOR of_bool e) 0 \<longleftrightarrow> bit c 0 \<noteq> e" for e by (cases e) (simp_all add: bit_simps)
  have "drop_bit (Suc 0) c = y" by (simp add: y_def)
  then show ?thesis
    unfolding crcu8_step_def lfsr_def and_one_bool b Let_def prod.case d y_def [symmetric] ucast_bool bc
    using y or d(1) by (cases "bit c 0"; cases "bit d 0"; simp)
qed

lemma lfsr_linear: "lfsr (a XOR b) = lfsr a XOR lfsr b"
  by (cases "bit a 0"; cases "bit b 0"; simp add: lfsr_def drop_bit_xor bit_xor_iff ac_simps)

lemma lfsr_funpow_linear: "(lfsr ^^ n) (a XOR b) = (lfsr ^^ n) a XOR (lfsr ^^ n) b"
  by (induction n) (simp_all add: lfsr_linear)

lemma lfsr_inj: "inj lfsr"
proof (rule injI)
  fix a b assume eq: "lfsr a = lfsr b"
  have t: "bit (lfsr c) 15 = bit c 0" for c
    by (auto simp: lfsr_def bit_simps dest: bit_imp_le_length)
  have z: "bit a 0 = bit b 0" using t eq by metis
  have d: "drop_bit 1 a = drop_bit 1 b" using eq z unfolding lfsr_def by (simp add: xor_cancel_right)
  show "a = b"
  proof (rule bit_word_eqI)
    fix n
    show "bit a n = bit b n"
      using z arg_cong [OF d, of "\<lambda>w. bit w (n - 1)"] by (cases n) (simp_all add: bit_simps)
  qed
qed

lemma lfsr_funpow_inj: "inj (lfsr ^^ n)"
  by (rule inj_fn [OF lfsr_inj])

lemma lfsr_funpow_push: "n < 16 \<Longrightarrow> (lfsr ^^ n) (push_bit n (of_bool b)) = of_bool b"
proof (induction n)
  case (Suc n)
  have "lfsr (push_bit (Suc n) (of_bool b)) = push_bit n (of_bool b)"
    unfolding lfsr_def using Suc.prems by (intro bit_word_eqI) (auto simp: bit_simps)
  then show ?case using Suc by (simp add: funpow_swap1 del: funpow.simps(2) add: funpow_Suc_right)
qed simp

lemma crcu8_steps:
  "n \<le> 8 \<Longrightarrow> (crcu8_step ^^ n) (d, c) = (drop_bit n d, (lfsr ^^ n) (c XOR ucast (take_bit n d)))"
proof (induction n)
  case (Suc n)
  have s: "take_bit (Suc n) d = take_bit n d XOR push_bit n (of_bool (bit d n))"
    by (rule bit_word_eqI) (auto simp: bit_simps less_Suc_eq)
  have "ucast (take_bit (Suc n) d) = ucast (take_bit n d) XOR (push_bit n (of_bool (bit d n)) :: u16)"
    unfolding s using Suc.prems by (intro bit_word_eqI) (auto simp: bit_simps)
  then have "(lfsr ^^ n) (c XOR ucast (take_bit (Suc n) d)) =
      (lfsr ^^ n) (c XOR ucast (take_bit n d)) XOR of_bool (bit d n)"
    using lfsr_funpow_push [of n "bit d n"] Suc.prems by (simp add: lfsr_funpow_linear xor.assoc [symmetric])
  then show ?case using Suc by (simp add: crcu8_step_lfsr and_one_bool bit_simps)
qed simp

lemma crcu8_eq_crc_byte: "crcu8 d c = crc_byte d c"
proof -
  have "take_bit 8 d = d" by (rule bit_word_eqI) (auto simp: bit_simps dest: bit_imp_le_length)
  then show ?thesis unfolding crcu8_def crc_byte_def crcu8_steps [OF order_refl] by simp
qed

lemma crcu8_inj: "crcu8 d c = crcu8 d c' \<longleftrightarrow> c = c'"
  unfolding crcu8_eq_crc_byte crc_byte_def inj_eq [OF lfsr_funpow_inj] by (rule xor_cancel_right)

lemma crc_bytes_inj: "crc_bytes ds c = crc_bytes ds c' \<longleftrightarrow> c = c'"
  by (induction ds arbitrary: c c') (simp_all add: crc_bytes_def crcu8_inj)

text \<open>Two bytes feed the register as one 16-bit datum.\<close>

lemma crcu8_crcu8: "crcu8 b (crcu8 a c) = (lfsr ^^ 16) (c XOR (ucast a XOR push_bit 8 (ucast b)))"
proof -
  have p: "(lfsr ^^ 8) (push_bit 8 (ucast b)) = ucast b"
  proof -
    have "(lfsr ^^ n) (push_bit n (ucast b)) = ucast b" if "n \<le> 8" for n using that
    proof (induction n)
      case (Suc n)
      have "\<not> bit (push_bit (Suc n) (ucast b :: u16)) 0" by (simp add: bit_push_bit_iff del: push_bit_Suc)
      moreover have "drop_bit 1 (push_bit (Suc n) (ucast b :: u16)) = push_bit n (ucast b)"
        using Suc.prems by (intro bit_word_eqI) (auto simp: bit_simps simp del: push_bit_Suc dest: bit_imp_le_length)
      ultimately have "lfsr (push_bit (Suc n) (ucast b)) = push_bit n (ucast b)"
        by (simp add: lfsr_def del: push_bit_Suc)
      then show ?case using Suc by (simp del: funpow.simps(2) add: funpow_Suc_right)
    qed simp
    then show ?thesis by simp
  qed
  have "crcu8 b (crcu8 a c) = (lfsr ^^ 8) ((lfsr ^^ 8) (c XOR ucast a) XOR (lfsr ^^ 8) (push_bit 8 (ucast b)))"
    by (simp only: crcu8_eq_crc_byte crc_byte_def p)
  also have "\<dots> = (lfsr ^^ (8 + 8)) (c XOR (ucast a XOR push_bit 8 (ucast b)))"
    unfolding funpow_add comp_apply lfsr_funpow_linear [symmetric] by (simp only: xor.assoc)
  finally show ?thesis by simp
qed

lemma two_bytes_inj: "crcu8 b (crcu8 a c) = crcu8 b' (crcu8 a' c) \<longleftrightarrow> a = a' \<and> b = b'"
proof
  assume "crcu8 b (crcu8 a c) = crcu8 b' (crcu8 a' c)"
  then have "c XOR (ucast a XOR push_bit 8 (ucast b)) = c XOR (ucast a' XOR push_bit 8 (ucast b' :: u16))"
    unfolding crcu8_crcu8 inj_eq [OF lfsr_funpow_inj] .
  then have e: "ucast a XOR push_bit 8 (ucast b) = ucast a' XOR push_bit 8 (ucast b' :: u16)"
    unfolding xor_cancel_left .
  have lo: "bit a n = bit (ucast a XOR push_bit 8 (ucast b) :: u16) n" if "n < 8" for a b :: u8 and n
    using that by (auto simp: bit_simps)
  have hi: "bit b n = bit (ucast a XOR push_bit 8 (ucast b) :: u16) (n + 8)" if "n < 8" for a b :: u8 and n
    using that by (auto simp: bit_simps dest: bit_imp_le_length)
  show "a = a' \<and> b = b'"
    using lo [of _ a b] lo [of _ a' b'] hi [of _ b a] hi [of _ b' a'] e by (intro conjI bit_word_eqI) simp_all
qed simp

subsection \<open>Properties\<close>

text \<open>C31.  The bit loop of \<open>crcu8\<close> is the CRC-16 shift register run for eight steps on the checksum
  combined with the byte, and the multi-byte routines feed their datum least significant byte first.\<close>

theorem crc_is_crc16_arc:
  "crcu8 d c = crc_byte d c \<and>
   crcu16 v c = crc_byte (ucast (drop_bit 8 v)) (crc_byte (ucast v) c) \<and>
   crcu32 x c = crc_bytes [ucast x, ucast (drop_bit 8 x), ucast (drop_bit 16 x), ucast (drop_bit 24 x)] c"
proof -
  have u: "ucast (ucast x :: u16) = (ucast x :: u8)" "ucast (drop_bit 8 (ucast x :: u16)) = (ucast (drop_bit 8 x) :: u8)"
    "ucast (ucast (drop_bit 16 x) :: u16) = (ucast (drop_bit 16 x) :: u8)"
    "ucast (drop_bit 8 (ucast (drop_bit 16 x) :: u16)) = (ucast (drop_bit 24 x) :: u8)"
    by (rule bit_word_eqI; auto simp: bit_simps)+
  show ?thesis
    by (simp add: crcu16_def crcu32_def crc16_def crc_bytes_def crcu8_eq_crc_byte [symmetric] u)
qed

text \<open>C32.  The checksum detects every change of two adjacent bytes: two messages that agree
  outside two adjacent positions have the same checksum only when they are equal.\<close>

theorem crc_detects_bursts:
  "crc_bytes (pre @ [a, b] @ post) c = crc_bytes (pre @ [a', b'] @ post) c \<longleftrightarrow> a = a' \<and> b = b'"
proof -
  have f: "crc_bytes (pre @ [x, y] @ post) c = crc_bytes post (crcu8 y (crcu8 x (crc_bytes pre c)))" for x y
    by (simp add: crc_bytes_def)
  show ?thesis unfolding f by (simp only: crc_bytes_inj two_bytes_inj)
qed

end
