(* ===== verification/CM_Matrix.thy ===== *)
theory CM_Matrix
  imports CM_Util "HOL-Library.Signed_Division"
begin

text \<open>
  The matrix kernel of CoreMark (\<open>src/benchmarks/coremark32/core_matrix.c\<close>).  A matrix is the flat list
  of its elements, 16 bits wide for \<open>MATDAT\<close> and 32 bits for \<open>MATRES\<close>, at the indices \<open>i*N+j\<close> of the
  code; signed elements are words read by \<open>sint\<close>, and the accumulations wrap.  The loops are folds
  over the index ranges in the order of the code.  All indices are below \<open>N * N\<close>; the lemmas about contents ask
  for lists of at least that length, so no access of the model goes past an end there.
\<close>

subsection \<open>Definitions\<close>

type_synonym MATDAT = u16
type_synonym MATRES = u32

definition matrix_clip :: "MATDAT \<Rightarrow> bool \<Rightarrow> MATDAT" where
  "matrix_clip x y = (if y then x AND 0x0FF else x AND 0xFFFF)"

definition matrix_big :: "MATDAT \<Rightarrow> MATDAT" where
  "matrix_big x = 0xF000 OR x"

definition bit_extract :: "MATRES \<Rightarrow> nat \<Rightarrow> nat \<Rightarrow> MATRES" where
  "bit_extract x from to = signed_drop_bit from x AND NOT (push_bit to 0xFFFFFFFF)"

record mat_params =
  mp_N :: nat
  mp_A :: "MATDAT list"
  mp_B :: "MATDAT list"
  mp_C :: "MATRES list"

definition matrix_sum :: "nat \<Rightarrow> MATRES list \<Rightarrow> MATDAT \<Rightarrow> u16" where
  "matrix_sum N C clipval =
     (case fold (\<lambda>i. fold (\<lambda>j (tmp, prev, ret).
          let cur = C ! (i * N + j); tmp = tmp + cur
          in if sint tmp > sint clipval then (0, cur, ret + 10)
             else (tmp, cur, ret + (if sint cur > sint prev then 1 else 0))) [0..<N]) [0..<N]
        (0 :: MATRES, 0 :: MATRES, 0 :: u16)
      of (tmp, prev, ret) \<Rightarrow> ret)"

definition matrix_mul_const :: "nat \<Rightarrow> MATRES list \<Rightarrow> MATDAT list \<Rightarrow> MATDAT \<Rightarrow> MATRES list" where
  "matrix_mul_const N C A val =
     fold (\<lambda>i. fold (\<lambda>j C. C[i * N + j := scast (A ! (i * N + j)) * scast val]) [0..<N]) [0..<N] C"

definition matrix_add_const :: "nat \<Rightarrow> MATDAT list \<Rightarrow> MATDAT \<Rightarrow> MATDAT list" where
  "matrix_add_const N A val =
     fold (\<lambda>i. fold (\<lambda>j A. A[i * N + j := A ! (i * N + j) + val]) [0..<N]) [0..<N] A"

definition matrix_mul_vect :: "nat \<Rightarrow> MATRES list \<Rightarrow> MATDAT list \<Rightarrow> MATDAT list \<Rightarrow> MATRES list" where
  "matrix_mul_vect N C A B =
     fold (\<lambda>i C. fold (\<lambda>j C. C[i := C ! i + scast (A ! (i * N + j)) * scast (B ! j)]) [0..<N] (C[i := 0])) [0..<N] C"

definition matrix_mul_matrix :: "nat \<Rightarrow> MATRES list \<Rightarrow> MATDAT list \<Rightarrow> MATDAT list \<Rightarrow> MATRES list" where
  "matrix_mul_matrix N C A B =
     fold (\<lambda>i. fold (\<lambda>j C.
       fold (\<lambda>k C. C[i * N + j := C ! (i * N + j) + scast (A ! (i * N + k)) * scast (B ! (k * N + j))])
         [0..<N] (C[i * N + j := 0])) [0..<N]) [0..<N] C"

definition matrix_mul_matrix_bitextract ::
  "nat \<Rightarrow> MATRES list \<Rightarrow> MATDAT list \<Rightarrow> MATDAT list \<Rightarrow> MATRES list" where
  "matrix_mul_matrix_bitextract N C A B =
     fold (\<lambda>i. fold (\<lambda>j C.
       fold (\<lambda>k C. (let tmp = scast (A ! (i * N + k)) * scast (B ! (k * N + j)) :: MATRES
          in C[i * N + j := C ! (i * N + j) + bit_extract tmp 2 4 * bit_extract tmp 5 7]))
         [0..<N] (C[i * N + j := 0])) [0..<N]) [0..<N] C"

definition matrix_test ::
  "nat \<Rightarrow> MATRES list \<Rightarrow> MATDAT list \<Rightarrow> MATDAT list \<Rightarrow> MATDAT \<Rightarrow> u16 \<times> MATRES list \<times> MATDAT list" where
  "matrix_test N C A B val =
     (let clipval = matrix_big val;
          A = matrix_add_const N A val;
          C = matrix_mul_const N C A val;
          crc = crc16 (matrix_sum N C clipval) 0;
          C = matrix_mul_vect N C A B;
          crc = crc16 (matrix_sum N C clipval) crc;
          C = matrix_mul_matrix N C A B;
          crc = crc16 (matrix_sum N C clipval) crc;
          C = matrix_mul_matrix_bitextract N C A B;
          crc = crc16 (matrix_sum N C clipval) crc;
          A = matrix_add_const N A (- val)
      in (crc, C, A))"

definition core_bench_matrix :: "mat_params \<Rightarrow> u16 \<Rightarrow> u16 \<Rightarrow> u16 \<times> mat_params" where
  "core_bench_matrix p seed crc =
     (case matrix_test (mp_N p) (mp_C p) (mp_A p) (mp_B p) seed of
        (r, C, A) \<Rightarrow> (crc16 r crc, p\<lparr>mp_A := A, mp_C := C\<rparr>))"

text \<open>\<open>core_init_matrix\<close>: the dimension search runs in 32-bit arithmetic and need not end for every
  block size; the placement of the three matrices and the values written follow.\<close>

partial_function (option) matrix_dim :: "u32 \<Rightarrow> u32 \<Rightarrow> u32 \<Rightarrow> u32 option" where
  [code]: "matrix_dim blksize i j =
     (if j < blksize then matrix_dim blksize (i + 1) ((i + 1) * (i + 1) * 2 * 4) else Some i)"

definition align_mem :: "u32 \<Rightarrow> u32" where
  "align_mem x = 4 + ((x - 1) AND NOT 3)"

definition init_matrix_cell :: "nat \<Rightarrow> int \<times> int \<times> MATDAT list \<times> MATDAT list \<Rightarrow> int \<times> int \<times> MATDAT list \<times> MATDAT list" where
  "init_matrix_cell k st =
     (let (seed, order, A, B) = st;
          seed = sint (word_of_int (order * seed) :: u32) smod 65536;
          val = matrix_clip (word_of_int (seed + order)) False;
          B = B[k := val];
          val = matrix_clip (word_of_int (sint val + order)) True;
          A = A[k := val]
      in (seed, order + 1, A, B))"

record mat_layout =
  ml_A :: u32
  ml_B :: u32
  ml_C :: u32

definition core_init_matrix ::
  "u32 \<Rightarrow> u32 \<Rightarrow> int \<Rightarrow> mat_params \<Rightarrow> (mat_params \<times> mat_layout) option" where
  "core_init_matrix blksize memblk seed mem =
     (let seed = (if seed = 0 then 1 else seed)
      in case matrix_dim blksize 0 0 of
           None \<Rightarrow> None
         | Some i \<Rightarrow>
             (let N = i - 1;
                  n = unat N;
                  aA = align_mem memblk;
                  aB = aA + 2 * (N * N);
                  (seed, order, A, B) =
                    fold (\<lambda>i. fold (\<lambda>j. init_matrix_cell (i * n + j)) [0..<n]) [0..<n] (seed, 1, mp_A mem, mp_B mem);
                  aC = align_mem (aB + 2 * (N * N))
              in Some (mem\<lparr>mp_N := n, mp_A := A, mp_B := B\<rparr>, \<lparr>ml_A = aA, ml_B = aB, ml_C = aC\<rparr>)))"

subsection \<open>Loops over a square of cells\<close>

lemma fold_product: "fold (\<lambda>i. fold (\<lambda>j. h i j) ys) xs = fold (\<lambda>(i, j). h i j) (List.product xs ys)"
  by (induction xs) (simp_all add: fold_map comp_def)

lemma fold_cells:
  assumes "distinct ks" "inj_on f (set ks)"
  shows "length (fold (\<lambda>k C. C[f k := u k (C ! f k)]) ks C) = length C"
    and "k \<in> set ks \<Longrightarrow> f k < length C \<Longrightarrow> fold (\<lambda>k C. C[f k := u k (C ! f k)]) ks C ! f k = u k (C ! f k)"
    and "m \<notin> f ` set ks \<Longrightarrow> fold (\<lambda>k C. C[f k := u k (C ! f k)]) ks C ! m = C ! m"
  using assms
proof (induction ks arbitrary: C k m)
  case (Cons a ks)
  {
    case 1 then show ?case using Cons.IH(1) by simp
  next
    case 2
    show ?case
    proof (cases "k = a")
      case True
      then have "f k \<notin> f ` set ks" using 2 by (auto simp: inj_on_def)
      then show ?thesis using Cons.IH(3) [of "f k" "C[f a := u a (C ! f a)]"] 2 True by simp
    next
      case False
      then have "f a \<noteq> f k" using 2 by (auto simp: inj_on_def)
      then show ?thesis using Cons.IH(2) [of k "C[f a := u a (C ! f a)]"] 2 False by simp
    qed
  next
    case 3
    then show ?case using Cons.IH(3) [of m "C[f a := u a (C ! f a)]"] by simp
  }
qed simp_all

lemma cell_inj: "j < N \<Longrightarrow> j' < N \<Longrightarrow> i * N + j = i' * N + (j' :: nat) \<longleftrightarrow> i = i' \<and> j = j'"
  by (metis add.commute div_mult_self3 div_less add_0 mod_mult_self3 mod_less not_less_zero)

lemma cell_less: "i < N \<Longrightarrow> j < N \<Longrightarrow> i * N + j < N * (N :: nat)"
  by (metis add.commute mult_Suc mult_le_mono1 Suc_leI less_le_trans nat_add_left_cancel_less)

lemma grid_cells:
  fixes C :: "'a list" and N :: nat and u :: "nat \<Rightarrow> nat \<Rightarrow> 'a \<Rightarrow> 'a"
  defines "R \<equiv> fold (\<lambda>i. fold (\<lambda>j C. C[i * N + j := u i j (C ! (i * N + j))]) [0..<N]) [0..<N] C"
  shows "length R = length C"
    and "length C = N * N \<Longrightarrow> i < N \<Longrightarrow> j < N \<Longrightarrow> R ! (i * N + j) = u i j (C ! (i * N + j))"
proof -
  define f where "f = (\<lambda>(i, j). i * N + j)"
  have R: "R = fold (\<lambda>k C. C[f k := (case k of (i, j) \<Rightarrow> u i j) (C ! f k)]) (List.product [0..<N] [0..<N]) C"
    unfolding R_def fold_product f_def by (rule arg_cong2 [where f = "\<lambda>g x. fold g x C"]) (auto simp: fun_eq_iff)
  have d: "distinct (List.product [0..<N] [0..<N])" by (simp add: distinct_product)
  have i: "inj_on f (set (List.product [0..<N] [0..<N]))" by (auto simp: f_def inj_on_def cell_inj)
  show "length R = length C" unfolding R by (rule fold_cells(1) [OF d i])
  show "R ! (i * N + j) = u i j (C ! (i * N + j))" if "length C = N * N" "i < N" "j < N"
    unfolding R using fold_cells(2) [OF d i, of "(i, j)" C "\<lambda>k. case k of (i, j) \<Rightarrow> u i j"] that cell_less [of i N j]
    by (simp add: f_def)
qed

lemma grid_eqI:
  assumes "length xs = N * N" "length ys = N * N" "\<And>i j. i < N \<Longrightarrow> j < N \<Longrightarrow> xs ! (i * N + j) = ys ! (i * N + (j :: nat))"
  shows "xs = ys"
proof (rule nth_equalityI)
  fix k assume k: "k < length xs"
  then have "0 < N" using assms(1) by (cases N) simp_all
  have "k div N < N" using k assms(1) by (simp add: less_mult_imp_div_less)
  moreover have "k mod N < N" using \<open>0 < N\<close> by simp
  ultimately have "xs ! (k div N * N + k mod N) = ys ! (k div N * N + k mod N)" by (rule assms(3))
  then show "xs ! k = ys ! k" by simp
qed (simp add: assms)

lemma fold_accumulate:
  fixes x :: "'k \<Rightarrow> 'a::comm_monoid_add"
  shows "fold (\<lambda>k C. C[p := C ! p + x k]) ks C = C[p := C ! p + sum_list (map x ks)]"
proof (induction ks arbitrary: C)
  case (Cons k ks)
  then show ?case by (cases "p < length C") (simp_all add: add.assoc list_update_beyond)
qed simp

lemma fold_accumulate_zero:
  fixes x :: "'k \<Rightarrow> 'a::comm_monoid_add"
  shows "fold (\<lambda>k C. C[p := C ! p + x k]) ks (C[p := 0]) = C[p := sum_list (map x ks)]"
  unfolding fold_accumulate by (cases "p < length C") (simp_all add: list_update_beyond)

subsection \<open>The kernels\<close>

lemma matrix_add_const_length [simp]: "length (matrix_add_const N A val) = length A"
  unfolding matrix_add_const_def by (rule grid_cells)

lemma matrix_add_const_nth:
  "length A = N * N \<Longrightarrow> i < N \<Longrightarrow> j < N \<Longrightarrow> matrix_add_const N A val ! (i * N + j) = A ! (i * N + j) + val"
  unfolding matrix_add_const_def by (rule grid_cells(2) [where u = "\<lambda>_ _ x. x + val"])

lemma matrix_add_const_undo: "length A = N * N \<Longrightarrow> matrix_add_const N (matrix_add_const N A val) (- val) = A"
  by (rule grid_eqI [where N = N]) (simp_all add: matrix_add_const_nth)

lemma matrix_mul_const_nth:
  "length C = N * N \<Longrightarrow> i < N \<Longrightarrow> j < N \<Longrightarrow>
   matrix_mul_const N C A val ! (i * N + j) = scast (A ! (i * N + j)) * scast val"
  unfolding matrix_mul_const_def
  by (rule grid_cells(2) [where u = "\<lambda>i j _. scast (A ! (i * N + j)) * scast val"])

lemma matrix_mul_matrix_grid:
  "matrix_mul_matrix N C A B = fold (\<lambda>i. fold (\<lambda>j C. C[i * N + j :=
     sum_list (map (\<lambda>k. scast (A ! (i * N + k)) * scast (B ! (k * N + j))) [0..<N])]) [0..<N]) [0..<N] C"
  unfolding matrix_mul_matrix_def fold_accumulate_zero ..

lemma matrix_mul_matrix_nth:
  "length C = N * N \<Longrightarrow> i < N \<Longrightarrow> j < N \<Longrightarrow> matrix_mul_matrix N C A B ! (i * N + j) =
     sum_list (map (\<lambda>k. scast (A ! (i * N + k)) * scast (B ! (k * N + j))) [0..<N])"
  unfolding matrix_mul_matrix_grid
  by (rule grid_cells(2) [where u = "\<lambda>i j _. sum_list (map (\<lambda>k. scast (A ! (i * N + k)) * scast (B ! (k * N + j))) [0..<N])"])

lemma matrix_mul_vect_nth:
  assumes "N \<le> length C" "i < N"
  shows "matrix_mul_vect N C A B ! i = sum_list (map (\<lambda>j. scast (A ! (i * N + j)) * scast (B ! j)) [0..<N])"
  unfolding matrix_mul_vect_def fold_accumulate_zero
  using fold_cells(2) [of "[0..<N]" id i C "\<lambda>i _. sum_list (map (\<lambda>j. scast (A ! (i * N + j)) * scast (B ! j)) [0..<N])"] assms
  by simp

lemma scast_prod: "(scast (a :: MATDAT) * scast b :: MATRES) = word_of_int (sint a * sint b)"
  unfolding scast_eq wi_hom_mult ..

lemma sum_list_word_of_int: "sum_list (map (\<lambda>k. word_of_int (f k)) ks) = (word_of_int (sum_list (map f ks)) :: 'a::len word)"
proof (induction ks)
  case (Cons k ks)
  then show ?case by (simp only: list.map sum_list.Cons wi_hom_add)
qed simp

subsection \<open>Initialisation\<close>

lemma matrix_dim_search:
  assumes b: "unat b \<le> 2 ^ 31" and n: "8 * (n * n) < unat b"
  shows "\<exists>N. matrix_dim b (of_nat n) (of_nat (8 * (n * n))) = Some (of_nat (Suc N)) \<and>
    8 * (N * N) < unat b \<and> unat b \<le> 8 * (Suc N * Suc N)"
  using n
proof (induction "unat b - 8 * (n * n)" arbitrary: n rule: less_induct)
  case less
  have "n < 2 ^ 14"
  proof (rule ccontr)
    assume "\<not> n < 2 ^ 14"
    then have "2 ^ 14 * 2 ^ 14 \<le> n * n" by (intro mult_le_mono) simp_all
    then show False using less.prems b by simp
  qed
  then have "Suc n * Suc n \<le> 2 ^ 14 * 2 ^ 14" by (intro mult_le_mono) simp_all
  then have small: "8 * (n * n) < 2 ^ 32" "8 * (Suc n * Suc n) < 2 ^ 32" by simp_all
  have j: "(of_nat n + 1) * (of_nat n + 1) * 2 * 4 = (of_nat (8 * (Suc n * Suc n)) :: u32)"
    by (simp add: algebra_simps)
  have "(of_nat (8 * (n * n)) :: u32) < b"
    using less.prems small by (simp add: word_less_nat_alt unat_of_nat_small del: of_nat_mult)
  then have step: "matrix_dim b (of_nat n) (of_nat (8 * (n * n))) = matrix_dim b (of_nat (Suc n)) (of_nat (8 * (Suc n * Suc n)))"
    unfolding matrix_dim.simps [of b "of_nat n"] j by (simp add: add.commute del: of_nat_mult)
  show ?case
  proof (cases "8 * (Suc n * Suc n) < unat b")
    case True
    then show ?thesis unfolding step by (intro less.hyps) (use less.prems in simp_all)
  next
    case False
    then have "\<not> (of_nat (8 * (Suc n * Suc n)) :: u32) < b"
    proof -
      have "8 * (Suc n * Suc n) < 2 ^ LENGTH(32)" using small(2) by simp
      then show ?thesis unfolding word_less_nat_alt using False by (simp only: unat_of_nat_small not_False_eq_True)
    qed
    then have "matrix_dim b (of_nat (Suc n)) (of_nat (8 * (Suc n * Suc n))) = Some (of_nat (Suc n))"
      by (subst matrix_dim.simps) (simp only: if_False)
    then show ?thesis unfolding step using less.prems False by (intro exI [of _ n]) simp
  qed
qed

lemma unat_align_mem:
  assumes "x \<noteq> 0" "4 dvd unat x"
  shows "align_mem x = x"
proof -
  have m: "(3 :: u32) = mask 2" by (simp add: mask_eq_exp_minus_1)
  obtain k where k: "unat x = 4 * k" using assms(2) by (auto elim: dvdE)
  have k0: "0 < k" using assms(1) k by (cases k) (simp_all add: unat_eq_0)
  have "unat (x - 1) = 4 * k - 1" using assms(1) k by (simp add: unat_minus_one)
  then have "unat ((x - 1) AND NOT 3) = 4 * (k - 1)"
    unfolding m unat_and_not_mask using k0 by (cases k) simp_all
  moreover have "unat x < 2 ^ 32" using unsigned_less [of x] by simp
  ultimately have "unat (align_mem x) = 4 * k"
    unfolding align_mem_def using k k0 by (subst unat_add_small) (simp_all add: diff_mult_distrib2)
  then show ?thesis using k by (simp add: word_unat_eq_iff)
qed

subsection \<open>Properties\<close>

text \<open>C28.  The four matrix kernels compute what they are named after: the scaled matrix, the product with
  a vector and the product of two matrices, every element being the exact integer result modulo
  \<open>2 ^ 32\<close>.\<close>

theorem matrix_products_correct:
  assumes "length C = N * N" "i < N" "j < N"
  shows "matrix_mul_const N C A val ! (i * N + j) = word_of_int (sint (A ! (i * N + j)) * sint val) \<and>
    matrix_mul_vect N C A B ! i = word_of_int (\<Sum>k<N. sint (A ! (i * N + k)) * sint (B ! k)) \<and>
    matrix_mul_matrix N C A B ! (i * N + j) = word_of_int (\<Sum>k<N. sint (A ! (i * N + k)) * sint (B ! (k * N + j)))"
proof -
  have s: "sum_list (map f [0..<N]) = (\<Sum>k<N. f k)" for f :: "nat \<Rightarrow> int"
    by (simp add: interv_sum_list_conv_sum_set_nat atLeast0LessThan)
  have "N \<le> length C" using assms by (cases N) simp_all
  then show ?thesis
    using assms by (simp only: matrix_mul_const_nth matrix_mul_vect_nth matrix_mul_matrix_nth scast_prod
      sum_list_word_of_int s)
qed

theorem matrix_products_correct_witness:
  "length [0 :: u32, 0, 0, 0] = 2 * 2 \<and>
   matrix_mul_const 2 [0, 0, 0, 0] [1, 2, 3, - 4] 5 ! (1 * 2 + 1) = word_of_int (sint ([1, 2, 3, - 4 :: u16] ! 3) * sint (5 :: u16)) \<and>
   matrix_mul_matrix 2 [0, 0, 0, 0] [1, 2, 3, - 4] [5, 6, 7, 8] ! (1 * 2 + 1) = - 14"
proof -
  have l: "length [0 :: u32, 0, 0, 0] = 2 * 2" "1 < (2 :: nat)" "1 < (2 :: nat)" by simp_all
  have "matrix_mul_matrix 2 [0, 0, 0, 0] [1, 2, 3, - 4] [5, 6, 7, 8] ! (1 * 2 + 1) = - 14" by code_simp
  then show ?thesis
    using matrix_products_correct [OF l, of "[1, 2, 3, - 4]" 5 "[5, 6, 7, 8]"] l(1) by simp
qed

text \<open>C29.  A run of the matrix benchmark leaves both input matrices as they were, whatever the seed, so
  every iteration works on the same data; only the result matrix is scratch.\<close>

theorem core_bench_matrix_restores:
  assumes "length (mp_A p) = mp_N p * mp_N p"
  shows "mp_A (snd (core_bench_matrix p seed crc)) = mp_A p \<and> mp_B (snd (core_bench_matrix p seed crc)) = mp_B p \<and>
    mp_N (snd (core_bench_matrix p seed crc)) = mp_N p"
  using assms by (simp add: core_bench_matrix_def matrix_test_def Let_def matrix_add_const_undo)

theorem core_bench_matrix_restores_witness:
  "length (mp_A \<lparr>mp_N = 1, mp_A = [7], mp_B = [9], mp_C = [0]\<rparr>) = 1 * 1 \<and>
   mp_A (snd (core_bench_matrix \<lparr>mp_N = 1, mp_A = [7], mp_B = [9], mp_C = [0]\<rparr> 3 0)) = [7]"
proof -
  let ?p = "\<lparr>mp_N = 1, mp_A = [7], mp_B = [9], mp_C = [0]\<rparr>"
  have "length (mp_A ?p) = mp_N ?p * mp_N ?p" by simp
  then show ?thesis using core_bench_matrix_restores [of ?p 3 0] by simp
qed

text \<open>C30.  Sizing the matrices, for a block that starts at a nonzero word-aligned address and whose size
  is between 1 byte and \<open>2 ^ 31\<close> bytes, inside the 32-bit address space.  The search for the dimension
  ends; the dimension is the largest one whose three matrices need strictly fewer bytes than the
  block has (\<open>8 * N * N < blksize \<le> 8 * (N + 1) * (N + 1)\<close>, so a dimension that would fill the block
  exactly is passed over), and the matrices lie one after the other inside the block.\<close>

theorem core_init_matrix_fits:
  assumes b: "0 < unat blksize" "unat blksize \<le> 2 ^ 31" and m: "memblk \<noteq> 0" "4 dvd unat memblk"
    and e: "unat memblk + unat blksize < 2 ^ 32"
  shows "\<exists>p l. core_init_matrix blksize memblk seed mem = Some (p, l) \<and>
    8 * (mp_N p * mp_N p) < unat blksize \<and> unat blksize \<le> 8 * (Suc (mp_N p) * Suc (mp_N p)) \<and>
    unat (ml_A l) = unat memblk \<and> unat (ml_B l) = unat (ml_A l) + 2 * (mp_N p * mp_N p) \<and>
    unat (ml_C l) = unat (ml_B l) + 2 * (mp_N p * mp_N p) \<and>
    unat (ml_C l) + 4 * (mp_N p * mp_N p) \<le> unat memblk + unat blksize"
proof -
  obtain N where N: "matrix_dim blksize 0 0 = Some (of_nat (Suc N))" "8 * (N * N) < unat blksize"
    "unat blksize \<le> 8 * (Suc N * Suc N)"
    using matrix_dim_search [OF b(2), of 0] b(1) by auto
  have N1: "of_nat (Suc N) - 1 = (of_nat N :: u32)" by simp
  have Nl: "N \<le> N * N" by (cases N) simp_all
  have "N < 2 ^ 31" using N(2) b(2) Nl by linarith
  then have uN: "unat (of_nat N :: u32) = N" by (intro unat_of_nat_small) simp
  define q where "q = 2 * (of_nat N * of_nat N :: u32)"
  have uq: "unat q = 2 * (N * N)"
  proof -
    have "q = of_nat (2 * (N * N))" by (simp add: q_def)
    also have "unat \<dots> = 2 * (N * N)" using N(2) b(2) by (intro unat_of_nat_small) simp
    finally show ?thesis .
  qed
  have aB: "unat (memblk + q) = unat memblk + 2 * (N * N)" using uq N(2) e by (subst unat_add_small) simp_all
  then have aC: "unat (memblk + q + q) = unat memblk + 4 * (N * N)" using uq N(2) e by (subst unat_add_small) simp_all
  have "align_mem memblk = memblk" using m by (rule unat_align_mem)
  moreover have "align_mem (memblk + q + q) = memblk + q + q"
  proof (rule unat_align_mem)
    have "0 < unat memblk" using m(1) by (simp add: unat_gt_0)
    then have "0 < unat (memblk + q + q)" unfolding aC by simp
    then show "memblk + q + q \<noteq> 0" by (metis unat_0 less_irrefl)
    show "4 dvd unat (memblk + q + q)" unfolding aC using m(2) by simp
  qed
  ultimately obtain p l where pl: "core_init_matrix blksize memblk seed mem = Some (p, l)"
    "mp_N p = N" "ml_A l = memblk" "ml_B l = memblk + q" "ml_C l = memblk + q + q"
    unfolding core_init_matrix_def N(1) option.case N1 uN Let_def q_def [symmetric]
    by (cases "fold (\<lambda>i. fold (\<lambda>j. init_matrix_cell (i * N + j)) [0..<N]) [0..<N]
      (if seed = 0 then 1 else seed, 1, mp_A mem, mp_B mem)") simp
  show ?thesis
    using pl(1) N(2,3) aB aC unfolding pl(2-)[symmetric] by (intro exI [of _ p] exI [of _ l]) (simp add: pl(2-))
qed

theorem core_init_matrix_fits_witness:
  "0 < unat (666 :: u32) \<and> (\<exists>p l. core_init_matrix 666 0x2000 0 \<lparr>mp_N = 0, mp_A = [], mp_B = [], mp_C = []\<rparr> = Some (p, l) \<and> mp_N p = 9)"
proof -
  let ?m = "\<lparr>mp_N = 0, mp_A = [], mp_B = [], mp_C = []\<rparr>"
  obtain p l where p: "core_init_matrix 666 0x2000 0 ?m = Some (p, l)" "8 * (mp_N p * mp_N p) < 666" "666 \<le> 8 * (Suc (mp_N p) * Suc (mp_N p))"
    using core_init_matrix_fits [of 666 "0x2000" 0 ?m] by (auto simp: numeral_eq_Suc [of Num.One])
  have "mp_N p < 10"
  proof (rule ccontr)
    assume "\<not> mp_N p < 10"
    then have "10 * 10 \<le> mp_N p * mp_N p" by (intro mult_le_mono) simp_all
    then show False using p(2) by simp
  qed
  moreover have "9 \<le> mp_N p"
  proof (rule ccontr)
    assume "\<not> 9 \<le> mp_N p"
    then have "Suc (mp_N p) * Suc (mp_N p) \<le> 9 * 9" by (intro mult_le_mono) simp_all
    then show False using p(3) by simp
  qed
  ultimately show ?thesis using p(1) by auto
qed

text \<open>Without the alignment the matrices may leave the block: the start is rounded up, the size is not
  reduced.\<close>

lemma unaligned_block_overruns:
  "\<exists>p l. core_init_matrix 649 0x2002 seed mem = Some (p, l) \<and> 0x2002 + 649 < unat (ml_C l) + 4 * (mp_N p * mp_N p)"
proof -
  have "matrix_dim 649 0 0 = Some 10" by (simp add: matrix_dim.simps)
  then show ?thesis
    by (cases "fold (\<lambda>i. fold (\<lambda>j. init_matrix_cell (i * 9 + j)) [0..<9]) [0..<9] (if seed = 0 then 1 else seed, 1, mp_A mem, mp_B mem)")
      (simp add: core_init_matrix_def align_mem_def)
qed

text \<open>A dimension that fills the block exactly is passed over.\<close>

lemma exact_block_passed_over: "matrix_dim 648 0 0 = Some 9" "8 * (9 * 9) = (648 :: nat)"
  by (simp_all add: matrix_dim.simps)

end
