(* ===== verification/CM_State.thy ===== *)
theory CM_State
  imports CM_Util "HOL-Library.Monad_Syntax"
begin

text \<open>
  The state-machine kernel of CoreMark (\<open>src/benchmarks/coremark32/core_state.c\<close>).  The input block is
  the list of its bytes and a pointer into it is an index; an access outside the block is \<open>None\<close>, so a
  result \<open>Some\<close> says that the code stayed inside.  The scanner is shown to recognise the grammar of
  integers, decimal fractions and scientific numbers; the buffer built by \<open>core_init_state\<close> is
  terminated, and the whole benchmark ends without leaving it.
\<close>

subsection \<open>Definitions\<close>

datatype core_state =
  CORE_START | CORE_INVALID | CORE_S1 | CORE_S2 | CORE_INT | CORE_FLOAT | CORE_EXPONENT | CORE_SCIENTIFIC

type_synonym counts = "core_state \<Rightarrow> u32"

definition core_states :: "core_state list" where
  "core_states = [CORE_START, CORE_INVALID, CORE_S1, CORE_S2, CORE_INT, CORE_FLOAT, CORE_EXPONENT, CORE_SCIENTIFIC]"

definition count_up :: "core_state \<Rightarrow> counts \<Rightarrow> counts" where
  "count_up s c = c(s := c s + 1)"

abbreviation byte_of :: "char \<Rightarrow> u8" where
  "byte_of c \<equiv> of_char c"

definition ee_isdigit :: "u8 \<Rightarrow> bool" where
  "ee_isdigit c \<longleftrightarrow> byte_of CHR ''0'' \<le> c \<and> c \<le> byte_of CHR ''9''"

definition is_sign :: "u8 \<Rightarrow> bool" where
  "is_sign c \<longleftrightarrow> c = byte_of CHR ''+'' \<or> c = byte_of CHR ''-''"

text \<open>The \<open>switch\<close> of the loop body.\<close>

definition core_switch :: "core_state \<Rightarrow> u8 \<Rightarrow> counts \<Rightarrow> core_state \<times> counts" where
  "core_switch state c transition_count =
     (case state of
        CORE_START \<Rightarrow>
          (let (state, tc) =
             (if ee_isdigit c then (CORE_INT, transition_count)
              else if is_sign c then (CORE_S1, transition_count)
              else if c = byte_of CHR ''.'' then (CORE_FLOAT, transition_count)
              else (CORE_INVALID, count_up CORE_INVALID transition_count))
           in (state, count_up CORE_START tc))
      | CORE_S1 \<Rightarrow>
          if ee_isdigit c then (CORE_INT, count_up CORE_S1 transition_count)
          else if c = byte_of CHR ''.'' then (CORE_FLOAT, count_up CORE_S1 transition_count)
          else (CORE_INVALID, count_up CORE_S1 transition_count)
      | CORE_INT \<Rightarrow>
          if c = byte_of CHR ''.'' then (CORE_FLOAT, count_up CORE_INT transition_count)
          else if \<not> ee_isdigit c then (CORE_INVALID, count_up CORE_INT transition_count)
          else (state, transition_count)
      | CORE_FLOAT \<Rightarrow>
          if c = byte_of CHR ''E'' \<or> c = byte_of CHR ''e'' then (CORE_S2, count_up CORE_FLOAT transition_count)
          else if \<not> ee_isdigit c then (CORE_INVALID, count_up CORE_FLOAT transition_count)
          else (state, transition_count)
      | CORE_S2 \<Rightarrow>
          if is_sign c then (CORE_EXPONENT, count_up CORE_S2 transition_count)
          else (CORE_INVALID, count_up CORE_S2 transition_count)
      | CORE_EXPONENT \<Rightarrow>
          if ee_isdigit c then (CORE_SCIENTIFIC, count_up CORE_EXPONENT transition_count)
          else (CORE_INVALID, count_up CORE_EXPONENT transition_count)
      | CORE_SCIENTIFIC \<Rightarrow>
          if \<not> ee_isdigit c then (CORE_INVALID, count_up CORE_INVALID transition_count)
          else (state, transition_count)
      | CORE_INVALID \<Rightarrow> (state, transition_count))"

function core_state_loop :: "u8 list \<Rightarrow> nat \<Rightarrow> core_state \<Rightarrow> counts \<Rightarrow> (core_state \<times> nat \<times> counts) option" where
  "core_state_loop mem str state tc =
     (if length mem \<le> str then None
      else if mem ! str = 0 \<or> state = CORE_INVALID then Some (state, str, tc)
      else if mem ! str = byte_of CHR '','' then Some (state, str + 1, tc)
      else (case core_switch state (mem ! str) tc of
              (state, tc) \<Rightarrow> core_state_loop mem (str + 1) state tc))"
  by pat_completeness auto
termination by (relation "measure (\<lambda>(mem, str, _). length mem - str)") auto

definition core_state_transition :: "u8 list \<Rightarrow> nat \<Rightarrow> counts \<Rightarrow> (core_state \<times> nat \<times> counts) option" where
  "core_state_transition mem instr tc = core_state_loop mem instr CORE_START tc"

declare core_state_loop.simps [simp del]

text \<open>The scan of the whole input: \<open>while (*p != 0)\<close>.\<close>

lemma core_state_loop_progress:
  "core_state_loop mem str state tc = Some (s, p, tc') \<Longrightarrow> str \<le> p \<and> p \<le> length mem"
proof (induction mem str state tc rule: core_state_loop.induct)
  case (1 mem str state tc)
  obtain s' t' where sw: "core_switch state (mem ! str) tc = (s', t')" by fastforce
  have "length mem \<le> str \<Longrightarrow> False" using 1(2) by (subst (asm) core_state_loop.simps) simp
  then show ?case using 1(2) 1(1) [OF _ _ _ sw [symmetric]]
    by (subst (asm) core_state_loop.simps) (auto simp: sw split: if_splits)
qed

lemma core_state_transition_progress:
  assumes "core_state_transition mem p tc = Some (s, p', tc')" "mem ! p \<noteq> 0"
  shows "p < p' \<and> p' \<le> length mem"
  using assms unfolding core_state_transition_def
  by (subst (asm) core_state_loop.simps)
    (fastforce split: if_splits prod.splits dest: core_state_loop_progress)

function core_state_scan :: "u8 list \<Rightarrow> nat \<Rightarrow> counts \<Rightarrow> counts \<Rightarrow> (counts \<times> counts) option" where
  "core_state_scan mem p final tc =
     (if length mem \<le> p then None
      else if mem ! p = 0 then Some (final, tc)
      else (case core_state_transition mem p tc of
              None \<Rightarrow> None
            | Some (fstate, p', tc) \<Rightarrow> core_state_scan mem p' (count_up fstate final) tc))"
  by pat_completeness auto
termination
  by (relation "measure (\<lambda>(mem, p, _). length mem - p)")
    (auto dest: core_state_transition_progress)

declare core_state_scan.simps [simp del]

text \<open>The corruption loops: every \<open>step\<close>-th byte other than a comma is combined with the seed.  A step that is
  not positive would walk out of the block.\<close>

function corrupt :: "u8 list \<Rightarrow> nat \<Rightarrow> int \<Rightarrow> u8 \<Rightarrow> nat \<Rightarrow> u8 list option" where
  "corrupt mem blksize step seed p =
     (if blksize \<le> p then Some mem
      else if length mem \<le> p \<or> step \<le> 0 then None
      else corrupt (if mem ! p \<noteq> byte_of CHR '','' then mem[p := mem ! p XOR seed] else mem)
             blksize step seed (p + nat step))"
  by pat_completeness auto
termination by (relation "measure (\<lambda>(mem, blksize, step, seed, p). blksize - p)") auto

declare corrupt.simps [simp del]

definition core_bench_state ::
  "u32 \<Rightarrow> u8 list \<Rightarrow> u16 \<Rightarrow> u16 \<Rightarrow> u16 \<Rightarrow> u16 \<Rightarrow> (u16 \<times> u8 list) option" where
  "core_bench_state blksize memblock seed1 seed2 step crc =
     do {
       let zero = (\<lambda>_. 0 :: u32);
       (final, track) \<leftarrow> core_state_scan memblock 0 zero zero;
       memblock \<leftarrow> corrupt memblock (unat blksize) (sint step) (ucast seed1) 0;
       (final, track) \<leftarrow> core_state_scan memblock 0 final track;
       memblock \<leftarrow> corrupt memblock (unat blksize) (sint step) (ucast seed2) 0;
       Some (fold (\<lambda>i crc. crcu32 (track i) (crcu32 (final i) crc)) core_states crc, memblock)
     }"

definition intpat :: "string list" where "intpat = [''5012'', ''1234'', ''-874'', ''+122'']"
definition floatpat :: "string list" where "floatpat = [''35.54400'', ''.1234500'', ''-110.700'', ''+0.64400'']"
definition scipat :: "string list" where "scipat = [''5.500e+3'', ''-.123e-2'', ''-87e+832'', ''+0.6e-12'']"
definition errpat :: "string list" where "errpat = [''T0.3e-1F'', ''-T.T++Tq'', ''1T3.4e4z'', ''34.0e-T^'']"

text \<open>The pattern the \<open>switch\<close> of \<open>core_init_state\<close> selects for a seed, with its length \<open>next\<close>.\<close>

definition init_pattern :: "u16 \<Rightarrow> u8 list \<times> nat" where
  "init_pattern seed =
     (let k = unat (seed AND 7); i = unat (signed_drop_bit 3 seed AND 3)
      in if k \<le> 2 then (map byte_of (intpat ! i), 4)
         else if k \<le> 4 then (map byte_of (floatpat ! i), 8)
         else if k \<le> 6 then (map byte_of (scipat ! i), 8)
         else (map byte_of (errpat ! i), 8))"

definition store_bytes :: "u8 list \<Rightarrow> nat \<Rightarrow> u8 list \<Rightarrow> u8 list option" where
  "store_bytes mem p bs = (if p + length bs \<le> length mem then Some (take p mem @ bs @ drop (p + length bs) mem) else None)"

lemma store_bytes_length: "store_bytes mem p bs = Some mem' \<Longrightarrow> p + length bs \<le> length mem \<and> length mem' = length mem"
  by (auto simp: store_bytes_def split: if_splits)

function core_init_fill :: "nat \<Rightarrow> u16 \<Rightarrow> u8 list \<Rightarrow> nat \<Rightarrow> u8 list \<Rightarrow> nat \<Rightarrow> (u8 list \<times> nat) option" where
  "core_init_fill sz seed p tot buf next =
     (if (tot + next + 1) mod 2 ^ 32 < sz
      then case (if 0 < next
                 then map_option (\<lambda>p. (p, tot + next + 1)) (store_bytes p tot (take next buf @ [byte_of CHR '','']))
                 else Some (p, tot)) of
             None \<Rightarrow> None
           | Some (p, tot) \<Rightarrow>
               (let seed = seed + 1
                in core_init_fill sz seed p tot (fst (init_pattern seed)) (snd (init_pattern seed)))
      else Some (p, tot))"
  by pat_completeness auto
termination
proof (relation "measures [\<lambda>(sz, seed, p, tot, buf, next). length p - tot, \<lambda>(sz, seed, p, tot, buf, next). if next = 0 then 1 else 0]")
  fix sz tot "next" tot' :: nat and p buf p' :: "u8 list" and seed seed' :: u16 and x
  assume s: "(if 0 < next then map_option (\<lambda>p. (p, tot + next + 1)) (store_bytes p tot (take next buf @ [byte_of CHR '','']))
      else Some (p, tot)) = Some x" "(p', tot') = x"
  have n: "0 < snd (init_pattern seed')" by (simp add: init_pattern_def Let_def)
  show "((sz, seed', p', tot', fst (init_pattern seed'), snd (init_pattern seed')), sz, seed, p, tot, buf, next)
      \<in> measures [\<lambda>(sz, seed, p, tot, buf, next). length p - tot, \<lambda>(sz, seed, p, tot, buf, next). if next = 0 then 1 else 0]"
    using s n by (cases "0 < next") (auto simp: case_prod_unfold dest!: store_bytes_length)
qed simp

declare core_init_fill.simps [simp del]

definition core_init_state :: "u32 \<Rightarrow> u16 \<Rightarrow> u8 list \<Rightarrow> u8 list option" where
  "core_init_state sz seed p =
     (case core_init_fill (unat (sz - 1)) seed p 0 [] 0 of
        None \<Rightarrow> None
      | Some (p, tot) \<Rightarrow> store_bytes p tot (replicate (unat sz - tot) 0))"

subsection \<open>The grammar\<close>

definition token_int :: "u8 list \<Rightarrow> bool" where
  "token_int w \<longleftrightarrow> (\<exists>sg ds. w = sg @ ds \<and> length sg \<le> 1 \<and> list_all is_sign sg \<and> ds \<noteq> [] \<and> list_all ee_isdigit ds)"

definition token_float :: "u8 list \<Rightarrow> bool" where
  "token_float w \<longleftrightarrow> (\<exists>sg ds fs. w = sg @ ds @ [byte_of CHR ''.''] @ fs \<and> length sg \<le> 1 \<and> list_all is_sign sg \<and>
     list_all ee_isdigit ds \<and> list_all ee_isdigit fs)"

definition token_scientific :: "u8 list \<Rightarrow> bool" where
  "token_scientific w \<longleftrightarrow> (\<exists>f e sg ds. w = f @ [e, sg] @ ds \<and> token_float f \<and>
     (e = byte_of CHR ''E'' \<or> e = byte_of CHR ''e'') \<and> is_sign sg \<and> ds \<noteq> [] \<and> list_all ee_isdigit ds)"

definition delta :: "core_state \<Rightarrow> u8 \<Rightarrow> core_state" where
  "delta s c = fst (core_switch s c (\<lambda>_. 0))"

lemma fst_core_switch: "fst (core_switch s c tc) = delta s c"
  by (cases s) (auto simp: delta_def core_switch_def Let_def)

lemmas ascii = of_char_def horner_sum_simps

lemma symbols_disjoint:
  "ee_isdigit c \<Longrightarrow> \<not> is_sign c \<and> c \<noteq> byte_of CHR ''.'' \<and> c \<noteq> byte_of CHR ''E'' \<and> c \<noteq> byte_of CHR ''e''"
  "is_sign c \<Longrightarrow> c \<noteq> byte_of CHR ''.'' \<and> c \<noteq> byte_of CHR ''E'' \<and> c \<noteq> byte_of CHR ''e''"
  "byte_of CHR ''.'' \<noteq> byte_of CHR ''E''" "byte_of CHR ''.'' \<noteq> byte_of CHR ''e''"
  by (auto simp: ee_isdigit_def is_sign_def ascii)

definition token_sign :: "u8 list \<Rightarrow> bool" where
  "token_sign w \<longleftrightarrow> (\<exists>c. w = [c] \<and> is_sign c)"

definition token_exp_mark :: "u8 list \<Rightarrow> bool" where
  "token_exp_mark w \<longleftrightarrow> (\<exists>f e. w = f @ [e] \<and> token_float f \<and> (e = byte_of CHR ''E'' \<or> e = byte_of CHR ''e''))"

definition token_exp_sign :: "u8 list \<Rightarrow> bool" where
  "token_exp_sign w \<longleftrightarrow> (\<exists>f sg. w = f @ [sg] \<and> token_exp_mark f \<and> is_sign sg)"

lemma short_sign: "length sg \<le> 1 \<and> list_all is_sign sg \<longleftrightarrow> sg = [] \<or> token_sign sg"
  by (cases sg) (auto simp: token_sign_def)

lemma token_int_snoc: "token_int (w @ [c]) \<longleftrightarrow> ee_isdigit c \<and> (w = [] \<or> token_sign w \<or> token_int w)"
proof
  assume "token_int (w @ [c])"
  then obtain sg ds where *: "w @ [c] = sg @ ds" "length sg \<le> 1 \<and> list_all is_sign sg" "ds \<noteq> []" "list_all ee_isdigit ds"
    unfolding token_int_def by blast
  then obtain ds' where "ds = ds' @ [c]" "w = sg @ ds'" by (cases ds rule: rev_cases) auto
  then show "ee_isdigit c \<and> (w = [] \<or> token_sign w \<or> token_int w)"
    using * short_sign [of sg] unfolding token_int_def by (cases "ds' = []") auto
next
  assume a: "ee_isdigit c \<and> (w = [] \<or> token_sign w \<or> token_int w)"
  then consider "length w \<le> 1 \<and> list_all is_sign w" | "token_int w" using short_sign [of w] by auto
  then show "token_int (w @ [c])"
  proof cases
    case 1
    then show ?thesis using a unfolding token_int_def by (intro exI [of _ w] exI [of _ "[c]"]) simp
  next
    case 2
    then obtain sg ds where "w = sg @ ds" "length sg \<le> 1" "list_all is_sign sg" "ds \<noteq> []" "list_all ee_isdigit ds"
      unfolding token_int_def by blast
    then show ?thesis using a unfolding token_int_def by (intro exI [of _ sg] exI [of _ "ds @ [c]"]) simp
  qed
qed

lemma token_float_snoc:
  "token_float (w @ [c]) \<longleftrightarrow>
     (c = byte_of CHR ''.'' \<and> (w = [] \<or> token_sign w \<or> token_int w)) \<or> (ee_isdigit c \<and> token_float w)"
proof
  assume "token_float (w @ [c])"
  then obtain sg ds fs where *: "w @ [c] = sg @ ds @ [byte_of CHR ''.''] @ fs" "length sg \<le> 1 \<and> list_all is_sign sg"
    "list_all ee_isdigit ds" "list_all ee_isdigit fs" unfolding token_float_def by blast
  show "(c = byte_of CHR ''.'' \<and> (w = [] \<or> token_sign w \<or> token_int w)) \<or> (ee_isdigit c \<and> token_float w)"
  proof (cases fs rule: rev_cases)
    case Nil
    then show ?thesis using * short_sign [of sg] unfolding token_int_def by (cases "ds = []") auto
  next
    case (snoc fs' d)
    then show ?thesis using * unfolding token_float_def by auto
  qed
next
  assume a: "(c = byte_of CHR ''.'' \<and> (w = [] \<or> token_sign w \<or> token_int w)) \<or> (ee_isdigit c \<and> token_float w)"
  then consider "c = byte_of CHR ''.''" "length w \<le> 1 \<and> list_all is_sign w" | "c = byte_of CHR ''.''" "token_int w"
    | "ee_isdigit c" "token_float w" using short_sign [of w] by auto
  then show "token_float (w @ [c])"
  proof cases
    case 1
    then show ?thesis unfolding token_float_def by (intro exI [of _ w] exI [of _ "[]"]) simp
  next
    case 2
    then obtain sg ds where "w = sg @ ds" "length sg \<le> 1" "list_all is_sign sg" "list_all ee_isdigit ds"
      unfolding token_int_def by blast
    then show ?thesis using 2 unfolding token_float_def by (intro exI [of _ sg] exI [of _ ds] exI [of _ "[]"]) simp
  next
    case 3
    then obtain sg ds fs where "w = sg @ ds @ [byte_of CHR ''.''] @ fs" "length sg \<le> 1" "list_all is_sign sg"
      "list_all ee_isdigit ds" "list_all ee_isdigit fs" unfolding token_float_def by blast
    then show ?thesis using 3 unfolding token_float_def by (intro exI [of _ sg] exI [of _ ds] exI [of _ "fs @ [c]"]) simp
  qed
qed

lemma token_scientific_snoc:
  "token_scientific (w @ [c]) \<longleftrightarrow> ee_isdigit c \<and> (token_exp_sign w \<or> token_scientific w)"
proof
  assume "token_scientific (w @ [c])"
  then obtain f e sg ds where *: "w @ [c] = f @ [e, sg] @ ds" "token_float f" "e = byte_of CHR ''E'' \<or> e = byte_of CHR ''e''"
    "is_sign sg" "ds \<noteq> []" "list_all ee_isdigit ds" unfolding token_scientific_def by blast
  then obtain ds' where ds: "ds = ds' @ [c]" "w = f @ [e, sg] @ ds'" by (cases ds rule: rev_cases) auto
  show "ee_isdigit c \<and> (token_exp_sign w \<or> token_scientific w)"
  proof (cases "ds' = []")
    case True
    then have "w = (f @ [e]) @ [sg]" using ds by simp
    moreover have "token_exp_mark (f @ [e])" using * unfolding token_exp_mark_def by blast
    ultimately show ?thesis using * ds unfolding token_exp_sign_def by auto
  next
    case False
    then show ?thesis using * ds unfolding token_scientific_def by auto
  qed
next
  assume a: "ee_isdigit c \<and> (token_exp_sign w \<or> token_scientific w)"
  show "token_scientific (w @ [c])"
  proof (cases "token_exp_sign w")
    case True
    then obtain f e sg where "w = f @ [e, sg]" "token_float f" "e = byte_of CHR ''E'' \<or> e = byte_of CHR ''e''" "is_sign sg"
      unfolding token_exp_sign_def token_exp_mark_def by auto
    then show ?thesis using a unfolding token_scientific_def by (intro exI [of _ f] exI [of _ e] exI [of _ sg] exI [of _ "[c]"]) simp
  next
    case False
    then obtain f e sg ds where "w = f @ [e, sg] @ ds" "token_float f" "e = byte_of CHR ''E'' \<or> e = byte_of CHR ''e''"
      "is_sign sg" "ds \<noteq> []" "list_all ee_isdigit ds" using a unfolding token_scientific_def by blast
    then show ?thesis using a unfolding token_scientific_def
      by (intro exI [of _ f] exI [of _ e] exI [of _ sg] exI [of _ "ds @ [c]"]) simp
  qed
qed

lemma token_snoc:
  "token_sign (w @ [c]) \<longleftrightarrow> w = [] \<and> is_sign c"
  "token_exp_mark (w @ [c]) \<longleftrightarrow> token_float w \<and> (c = byte_of CHR ''E'' \<or> c = byte_of CHR ''e'')"
  "token_exp_sign (w @ [c]) \<longleftrightarrow> token_exp_mark w \<and> is_sign c"
  by (auto simp: token_sign_def token_exp_mark_def token_exp_sign_def)

lemma delta_cases:
  "delta s c = CORE_START \<longleftrightarrow> False"
  "delta s c = CORE_S1 \<longleftrightarrow> s = CORE_START \<and> is_sign c"
  "delta s c = CORE_INT \<longleftrightarrow> ee_isdigit c \<and> (s = CORE_START \<or> s = CORE_S1 \<or> s = CORE_INT)"
  "delta s c = CORE_FLOAT \<longleftrightarrow>
     (c = byte_of CHR ''.'' \<and> (s = CORE_START \<or> s = CORE_S1 \<or> s = CORE_INT)) \<or> (ee_isdigit c \<and> s = CORE_FLOAT)"
  "delta s c = CORE_S2 \<longleftrightarrow> s = CORE_FLOAT \<and> (c = byte_of CHR ''E'' \<or> c = byte_of CHR ''e'')"
  "delta s c = CORE_EXPONENT \<longleftrightarrow> s = CORE_S2 \<and> is_sign c"
  "delta s c = CORE_SCIENTIFIC \<longleftrightarrow> ee_isdigit c \<and> (s = CORE_EXPONENT \<or> s = CORE_SCIENTIFIC)"
  by (cases s; use symbols_disjoint in \<open>auto simp: delta_def core_switch_def\<close>)+

lemma run_tokens:
  "(foldl delta CORE_START w = CORE_START \<longleftrightarrow> w = []) \<and>
   (foldl delta CORE_START w = CORE_S1 \<longleftrightarrow> token_sign w) \<and>
   (foldl delta CORE_START w = CORE_INT \<longleftrightarrow> token_int w) \<and>
   (foldl delta CORE_START w = CORE_FLOAT \<longleftrightarrow> token_float w) \<and>
   (foldl delta CORE_START w = CORE_S2 \<longleftrightarrow> token_exp_mark w) \<and>
   (foldl delta CORE_START w = CORE_EXPONENT \<longleftrightarrow> token_exp_sign w) \<and>
   (foldl delta CORE_START w = CORE_SCIENTIFIC \<longleftrightarrow> token_scientific w)"
proof (induction w rule: rev_induct)
  case Nil
  show ?case by (auto simp: token_sign_def token_int_def token_float_def token_exp_mark_def token_exp_sign_def token_scientific_def)
next
  case (snoc c w)
  then show ?case
    unfolding foldl_append foldl.simps delta_cases token_snoc token_int_snoc token_float_snoc token_scientific_snoc by blast
qed

lemma delta_invalid: "foldl delta CORE_INVALID w = CORE_INVALID"
  by (induction w) (simp_all add: delta_def core_switch_def)

lemma core_state_loop_run:
  assumes "mem = pre @ w @ t # post" "0 \<notin> set w" "byte_of CHR '','' \<notin> set w" "t = 0 \<or> t = byte_of CHR '',''"
  shows "\<exists>p tc'. core_state_loop mem (length pre) s tc = Some (foldl delta s w, p, tc')"
  using assms
proof (induction w arbitrary: pre s tc)
  case Nil
  then have "mem ! length pre = t" "length pre < length mem" by simp_all
  then show ?case using Nil by (subst core_state_loop.simps) auto
next
  case (Cons c w)
  have m: "mem ! length pre = c" "length pre < length mem" using Cons.prems(1) by (simp_all add: nth_append)
  show ?case
  proof (cases "s = CORE_INVALID")
    case True
    then show ?thesis using m delta_invalid [of "c # w"] by (subst core_state_loop.simps) auto
  next
    case False
    obtain s' t' where sw: "core_switch s c tc = (s', t')" by fastforce
    then have s': "s' = delta s c" using fst_core_switch [of s c tc] by simp
    have "core_state_loop mem (length pre) s tc = core_state_loop mem (length (pre @ [c])) s' t'"
      using m False Cons.prems(2,3) by (subst core_state_loop.simps) (auto simp: sw)
    moreover have "\<exists>p tc'. core_state_loop mem (length (pre @ [c])) s' t' = Some (foldl delta s' w, p, tc')"
      using Cons.prems by (intro Cons.IH) auto
    ultimately show ?thesis using s' by simp
  qed
qed

subsection \<open>Staying inside the block\<close>

lemma core_state_loop_terminated:
  assumes "mem ! z = 0" "z < length mem" "str \<le> z"
  shows "\<exists>s p tc'. core_state_loop mem str state tc = Some (s, p, tc') \<and> p \<le> z"
  using assms
proof (induction mem str state tc rule: core_state_loop.induct)
  case (1 mem str state tc)
  show ?case
  proof (cases "mem ! str = 0 \<or> state = CORE_INVALID \<or> mem ! str = byte_of CHR '',''")
    case True
    have "str \<noteq> z" if "mem ! str = byte_of CHR '',''" using that 1(2) by auto
    then show ?thesis using True 1(2-4) by (subst core_state_loop.simps) auto
  next
    case False
    obtain s' t' where sw: "core_switch state (mem ! str) tc = (s', t')" by fastforce
    have "str \<noteq> z" using False 1(2) by auto
    then have "\<exists>s p tc'. core_state_loop mem (str + 1) s' t' = Some (s, p, tc') \<and> p \<le> z"
      using 1(1) [OF _ _ _ sw [symmetric]] 1(2-4) False by auto
    then show ?thesis using False 1(3,4) by (subst core_state_loop.simps) (auto simp: sw)
  qed
qed

lemma core_state_scan_terminated:
  assumes "mem ! z = 0" "z < length mem" "p \<le> z"
  shows "\<exists>r. core_state_scan mem p final tc = Some r"
  using assms
proof (induction mem p final tc rule: core_state_scan.induct)
  case (1 mem p final tc)
  show ?case
  proof (cases "mem ! p = 0")
    case True
    then show ?thesis using 1(3,4) by (subst core_state_scan.simps) simp
  next
    case False
    obtain s p' tc' where t: "core_state_transition mem p tc = Some (s, p', tc')" "p' \<le> z"
      using core_state_loop_terminated [OF 1(2-4)] unfolding core_state_transition_def by blast
    have "\<exists>r. core_state_scan mem p' (count_up s final) tc' = Some r"
      by (rule 1(1) [OF _ False t(1) refl refl 1(2,3) t(2)]) (use 1(3,4) in simp)
    then show ?thesis using False 1(3,4) by (subst core_state_scan.simps) (simp add: t)
  qed
qed

lemma corrupt_total:
  assumes "blksize \<le> length mem" "0 < step"
  shows "\<exists>mem'. corrupt mem blksize step seed p = Some mem' \<and> length mem' = length mem"
  using assms
proof (induction mem blksize step seed p rule: corrupt.induct)
  case (1 mem blksize step seed p)
  show ?case
  proof (cases "blksize \<le> p")
    case True
    then show ?thesis by (subst corrupt.simps) simp
  next
    case False
    then show ?thesis using 1(1) [OF False] 1(2,3) by (subst corrupt.simps) auto
  qed
qed

text \<open>A byte is touched only at a distance from the start that is a multiple of the step; a byte
  that is touched is combined with the seed unless it is a comma.\<close>

lemma corrupt_nth:
  assumes "corrupt mem blksize step seed p = Some mem'" "blksize \<le> length mem" "q < length mem"
  shows "mem' ! q = (if p \<le> q \<and> q < blksize \<and> int (q - p) mod step = 0 \<and> mem ! q \<noteq> byte_of CHR '',''
    then mem ! q XOR seed else mem ! q)"
  using assms
proof (induction mem blksize step seed p rule: corrupt.induct)
  case (1 mem blksize step seed p)
  show ?case
  proof (cases "blksize \<le> p")
    case True
    then show ?thesis using 1(2) by (subst (asm) corrupt.simps) auto
  next
    case False
    define m where "m = (if mem ! p \<noteq> byte_of CHR '','' then mem[p := mem ! p XOR seed] else mem)"
    have st: "0 < step" "corrupt m blksize step seed (p + nat step) = Some mem'" "length m = length mem"
      using 1(2,3) False by (subst (asm) corrupt.simps, simp add: m_def split: if_splits)+
    have ih: "mem' ! q = (if p + nat step \<le> q \<and> q < blksize \<and> int (q - (p + nat step)) mod step = 0 \<and> m ! q \<noteq> byte_of CHR '',''
        then m ! q XOR seed else m ! q)"
      by (rule 1(1) [OF False _ st(2) [unfolded m_def], folded m_def]) (use st 1(3,4) False in auto)
    consider "q < p" | "q = p" | "p < q" "q < p + nat step" | "p + nat step \<le> q" by linarith
    then show ?thesis
    proof cases
      case 1
      then show ?thesis using ih by (simp add: m_def)
    next
      case 2
      then show ?thesis using ih False st(1) \<open>q < length mem\<close> by (simp add: m_def)
    next
      case 3
      then have "int (q - p) mod step \<noteq> 0" using st(1) by (auto simp: mod_pos_pos_trivial)
      then show ?thesis using ih 3 by (simp add: m_def)
    next
      case 4
      then have "int (q - p) = int (q - (p + nat step)) + step" using st(1) by simp
      then have "int (q - p) mod step = int (q - (p + nat step)) mod step" by simp
      moreover have "m ! q = mem ! q" using 4 st(1) by (simp add: m_def)
      moreover have "p \<le> q" using 4 by simp
      ultimately show ?thesis unfolding ih using 4 by (simp only: simp_thms)
    qed
  qed
qed

lemma corrupt_keeps_one:
  assumes "corrupt mem blksize step seed 0 = Some mem'" "blksize \<le> length mem" "Suc q < length mem" "2 \<le> step"
  shows "mem' ! q = mem ! q \<or> mem' ! Suc q = mem ! Suc q"
proof (rule ccontr)
  assume "\<not> ?thesis"
  then have "int q mod step = 0" "int (Suc q) mod step = 0"
    using corrupt_nth [OF assms(1,2), of q] corrupt_nth [OF assms(1,2), of "Suc q"] assms(3) by (auto split: if_splits)
  then have "step dvd int (Suc q) - int q" by (intro dvd_diff) (simp_all add: dvd_eq_mod_eq_0)
  then show False using assms(4) zdvd_imp_le [of step 1] by simp
qed

subsection \<open>The buffer that the benchmark scans\<close>

lemma init_pattern_length: "length (fst (init_pattern seed)) = snd (init_pattern seed) \<and> 0 < snd (init_pattern seed) \<and> snd (init_pattern seed) \<le> 8"
proof -
  have "unat (signed_drop_bit 3 seed AND 3) < 4"
  proof -
    have "(3 :: u16) = mask 2" by (simp add: mask_eq_exp_minus_1)
    then have "unat (signed_drop_bit 3 seed AND 3) = unat (signed_drop_bit 3 seed) mod 2 ^ 2" by (simp only: unat_and_mask)
    then show ?thesis by simp
  qed
  then have "unat (signed_drop_bit 3 seed AND 3) \<in> {0, 1, 2, 3}" by auto
  then show ?thesis
    unfolding init_pattern_def Let_def by (elim insertE) (auto simp: intpat_def floatpat_def scipat_def errpat_def)
qed

lemma core_init_fill_bounded:
  assumes "sz < 2 ^ 31" "sz < length p" "length p < 2 ^ 32" "tot + 1 \<le> sz" "next \<le> 8" "length buf = next"
  shows "\<exists>p' tot'. core_init_fill sz seed p tot buf next = Some (p', tot') \<and> length p' = length p \<and> tot' + 1 \<le> sz"
  using assms
proof (induction sz seed p tot buf "next" rule: core_init_fill.induct)
  case (1 sz seed p tot buf "next")
  have m: "(tot + next + 1) mod 2 ^ 32 = tot + next + 1" using 1(2,5,6) by simp
  let ?s = "seed + 1"
  note pl = init_pattern_length [of ?s]
  show ?case
  proof (cases "tot + next + 1 < sz")
    case False
    then show ?thesis using 1(5) m by (subst core_init_fill.simps) simp
  next
    case c: True
    show ?thesis
    proof (cases "0 < next")
      case True
      obtain p1 where p1: "store_bytes p tot (take next buf @ [byte_of CHR '','']) = Some p1" "length p1 = length p"
        using c 1(3,7) by (simp add: store_bytes_def)
      then have "\<exists>p' tot'. core_init_fill sz ?s p1 (tot + next + 1) (fst (init_pattern ?s)) (snd (init_pattern ?s)) = Some (p', tot') \<and>
          length p' = length p1 \<and> tot' + 1 \<le> sz"
        using 1(1) [of "(p1, tot + next + 1)" p1 "tot + next + 1" ?s] c True m pl 1(2-4) by simp
      then show ?thesis using c True m p1 by (subst core_init_fill.simps) (simp add: Let_def)
    next
      case False
      then have "\<exists>p' tot'. core_init_fill sz ?s p tot (fst (init_pattern ?s)) (snd (init_pattern ?s)) = Some (p', tot') \<and>
          length p' = length p \<and> tot' + 1 \<le> sz"
        using 1(1) [of "(p, tot)" p tot ?s] c m pl 1(2-5) by simp
      then show ?thesis using c False m by (subst core_init_fill.simps) (simp add: Let_def)
    qed
  qed
qed

lemma core_init_state_terminated:
  assumes "2 \<le> unat sz" "unat sz \<le> 2 ^ 31" "length p = unat sz"
  shows "\<exists>p'. core_init_state sz seed p = Some p' \<and> length p' = unat sz \<and> p' ! (unat sz - 1) = 0 \<and> p' ! (unat sz - 2) = 0"
proof -
  have "sz \<noteq> 0" using assms(1) by auto
  then have u: "unat (sz - 1) = unat sz - 1" by (rule unat_minus_one)
  obtain p1 tot where f: "core_init_fill (unat (sz - 1)) seed p 0 [] 0 = Some (p1, tot)" "length p1 = unat sz" "tot + 1 \<le> unat sz - 1"
  proof -
    have b: "unat (sz - 1) < 2 ^ 31" "unat (sz - 1) < length p" "length p < 2 ^ 32" "0 + 1 \<le> unat (sz - 1)"
      using assms unfolding u by auto
    show thesis using core_init_fill_bounded [OF b, of 0 "[]" seed] assms(3) that unfolding u by fastforce
  qed
  then have "store_bytes p1 tot (replicate (unat sz - tot) 0) = Some (take tot p1 @ replicate (unat sz - tot) 0)"
    by (simp add: store_bytes_def)
  moreover have "(take tot p1 @ replicate (unat sz - tot) 0) ! (unat sz - 1) = 0" "(take tot p1 @ replicate (unat sz - tot) 0) ! (unat sz - 2) = 0"
    using f(2,3) assms(1) by (auto simp: nth_append)
  ultimately show ?thesis unfolding core_init_state_def f(1) using f(2,3) by simp
qed

lemma corrupt_undo:
  assumes "corrupt mem (length mem) step seed 0 = Some mem1" "\<forall>b \<in> set mem. b \<noteq> byte_of CHR '','' \<longrightarrow> b XOR seed \<noteq> byte_of CHR '',''"
  shows "corrupt mem1 (length mem) step seed 0 = Some mem"
proof (cases "mem = []")
  case True
  then show ?thesis using assms(1) by (simp add: corrupt.simps)
next
  case False
  then have st: "0 < step" using assms(1) by (subst (asm) corrupt.simps) (auto split: if_splits)
  have l: "length mem1 = length mem" using corrupt_total [of "length mem" mem step seed 0] st assms(1) by auto
  obtain mem2 where c2: "corrupt mem1 (length mem) step seed 0 = Some mem2" "length mem2 = length mem1"
    using corrupt_total [of "length mem" mem1 step seed 0] st l by auto
  have "mem2 = mem"
  proof (rule nth_equalityI)
    fix q assume "q < length mem2"
    then have q: "q < length mem" using c2 l by simp
    then have "mem ! q \<noteq> byte_of CHR '','' \<Longrightarrow> mem ! q XOR seed \<noteq> byte_of CHR '',''" using assms(2) by simp
    then show "mem2 ! q = mem ! q"
      using corrupt_nth [OF assms(1) order_refl q] corrupt_nth [OF c2(1), of q] q l by (auto simp: xor.assoc)
  qed (use c2 l in simp)
  then show ?thesis using c2 by simp
qed

lemma core_bench_state_returns:
  assumes sz: "2 \<le> unat sz" and m: "length mem = unat sz" "mem ! (unat sz - 1) = 0" "mem ! (unat sz - 2) = 0" and st: "2 \<le> sint step"
  obtains crc' mem1 mem' where "core_bench_state sz mem seed1 seed2 step crc = Some (crc', mem')" "length mem' = unat sz"
    "corrupt mem (unat sz) (sint step) (ucast seed1) 0 = Some mem1" "corrupt mem1 (unat sz) (sint step) (ucast seed2) 0 = Some mem'"
proof -
  let ?z = "\<lambda>_. 0 :: u32"
  obtain f1 t1 where s1: "core_state_scan mem 0 ?z ?z = Some (f1, t1)"
    using core_state_scan_terminated [OF m(2)] m(1) sz by fastforce
  obtain mem1 where c1: "corrupt mem (unat sz) (sint step) (ucast seed1) 0 = Some mem1" "length mem1 = length mem"
    using corrupt_total [of "unat sz" mem "sint step"] m(1) st by fastforce
  have "mem1 ! (unat sz - 2) = mem ! (unat sz - 2) \<or> mem1 ! Suc (unat sz - 2) = mem ! Suc (unat sz - 2)"
    using sz st m(1) by (intro corrupt_keeps_one [OF c1(1)]) simp_all
  moreover have "Suc (unat sz - 2) = unat sz - 1" using sz by simp
  ultimately have "\<exists>z. mem1 ! z = 0 \<and> z < length mem1" using m c1(2) sz by (metis diff_less zero_less_numeral zero_less_one less_le_trans)
  then obtain f2 t2 where s2: "core_state_scan mem1 0 f1 t1 = Some (f2, t2)"
    using core_state_scan_terminated [of mem1 _ 0 f1 t1] by fastforce
  obtain mem2 where c2: "corrupt mem1 (unat sz) (sint step) (ucast seed2) 0 = Some mem2" "length mem2 = length mem1"
    using corrupt_total [of "unat sz" mem1 "sint step"] c1(2) m(1) st by fastforce
  show thesis using that [OF _ _ c1(1) c2(1)] m(1) s1 c1 s2 c2 by (simp add: core_bench_state_def)
qed

text \<open>With equal seed bytes that make no comma, the benchmark leaves the block as it was.\<close>

lemma core_bench_state_restores:
  assumes "2 \<le> unat sz" "length mem = unat sz" "mem ! (unat sz - 1) = 0" "mem ! (unat sz - 2) = 0" "2 \<le> sint step"
    and "(ucast seed1 :: u8) = ucast seed2" "\<forall>b \<in> set mem. b \<noteq> byte_of CHR '','' \<longrightarrow> b XOR ucast seed1 \<noteq> byte_of CHR '',''"
  shows "\<exists>crc'. core_bench_state sz mem seed1 seed2 step crc = Some (crc', mem)"
proof (rule core_bench_state_returns [OF assms(1-5)])
  fix crc' mem1 mem' assume "core_bench_state sz mem seed1 seed2 step crc = Some (crc', mem')"
    and c1: "corrupt mem (unat sz) (sint step) (ucast seed1) 0 = Some mem1"
    and c2: "corrupt mem1 (unat sz) (sint step) (ucast seed2) 0 = Some mem'"
  moreover have "mem' = mem" using corrupt_undo [of mem "sint step" "ucast seed1" mem1] c1 c2 assms(2,6,7) by simp
  ultimately show ?thesis by blast
qed

subsection \<open>Properties\<close>

text \<open>C26.  The scanner recognises the number grammar: on a token followed by a comma or the terminating
  zero, it reports an integer, a decimal fraction or a scientific number exactly when the token is an
  optional sign and digits, digits around a point, or a fraction with a signed exponent.\<close>

theorem core_state_transition_recognises:
  assumes "0 \<notin> set w" "byte_of CHR '','' \<notin> set w" "t = 0 \<or> t = byte_of CHR '',''"
  shows "\<exists>s p tc'. core_state_transition (pre @ w @ t # post) (length pre) tc = Some (s, p, tc') \<and>
    (s = CORE_INT \<longleftrightarrow> token_int w) \<and> (s = CORE_FLOAT \<longleftrightarrow> token_float w) \<and> (s = CORE_SCIENTIFIC \<longleftrightarrow> token_scientific w)"
  using core_state_loop_run [OF refl assms, of pre post CORE_START tc] run_tokens [of w]
  unfolding core_state_transition_def by auto

theorem core_state_transition_recognises_witness:
  "\<exists>s p tc'. core_state_transition ([] @ map byte_of ''-87e+832'' @ 0 # []) (length ([] :: u8 list)) (\<lambda>_. 0) = Some (s, p, tc') \<and>
    (s = CORE_SCIENTIFIC \<longleftrightarrow> token_scientific (map byte_of ''-87e+832''))"
  using core_state_transition_recognises [of "map byte_of ''-87e+832''" 0 "[]" "[]" "\<lambda>_. 0"] by auto

text \<open>C25.  Memory safety and termination of the state-machine benchmark: started on a block initialised by
  \<open>core_init_state\<close>, with a step of at least two (the callers use at least 0x22), it returns, never reads
  or writes outside the block, and leaves its size unchanged; the scan cannot run past the end even after
  the corruption pass, which can hit only one of the two terminating zeros.\<close>

theorem core_bench_state_safe:
  assumes "2 \<le> unat sz" "unat sz \<le> 2 ^ 31" "length p = unat sz" "2 \<le> sint step"
  shows "\<exists>mem crc' mem'. core_init_state sz seed p = Some mem \<and>
    core_bench_state sz mem seed1 seed2 step crc = Some (crc', mem') \<and> length mem' = unat sz"
proof -
  obtain mem where m: "core_init_state sz seed p = Some mem" "length mem = unat sz" "mem ! (unat sz - 1) = 0" "mem ! (unat sz - 2) = 0"
    using core_init_state_terminated [OF assms(1-3)] by blast
  show ?thesis using core_bench_state_returns [OF assms(1) m(2-4) assms(4)] m(1) by metis
qed

theorem core_bench_state_safe_witness:
  "\<exists>mem crc' mem'. core_init_state 12 0 (replicate 12 0xAA) = Some mem \<and>
    core_bench_state 12 mem 0x3415 0x3415 0x22 0 = Some (crc', mem') \<and> length mem' = 12"
  using core_bench_state_safe [of 12 "replicate 12 0xAA" "0x22" 0 "0x3415" "0x3415" 0] by simp

text \<open>C27.  The second corruption pass undoes the first when both use the same seed, provided the seed turns
  no byte of the block into a comma; commas themselves are never touched.\<close>

theorem corruption_undone:
  assumes "corrupt mem (length mem) step seed 0 = Some mem1" "\<forall>b \<in> set mem. b \<noteq> byte_of CHR '','' \<longrightarrow> b XOR seed \<noteq> byte_of CHR '',''"
  shows "corrupt mem1 (length mem) step seed 0 = Some mem"
  using assms by (rule corrupt_undo)

theorem corruption_undone_witness:
  "corrupt [0x35, 0x2C, 0x31, 0] (length [0x35 :: u8, 0x2C, 0x31, 0]) 2 0x15 0 = Some [0x20, 0x2C, 0x24, 0] \<and>
   corrupt [0x20, 0x2C, 0x24, 0] (length [0x35 :: u8, 0x2C, 0x31, 0]) 2 0x15 0 = Some [0x35, 0x2C, 0x31, 0]"
proof -
  have c: "corrupt [0x35, 0x2C, 0x31, 0] (length [0x35 :: u8, 0x2C, 0x31, 0]) 2 0x15 0 = Some [0x20, 0x2C, 0x24, 0]"
    by (simp add: corrupt.simps)
  then show ?thesis using corruption_undone [OF c] by simp
qed

text \<open>Without the proviso the block is not restored: the terminating zero itself becomes a comma under a seed
  whose low byte is the comma's code, and stays one.\<close>

lemma corruption_not_undone:
  "corrupt [0] 1 2 (byte_of CHR '','') 0 = Some [byte_of CHR '',''] \<and>
   corrupt [byte_of CHR '',''] 1 2 (byte_of CHR '','') 0 = Some [byte_of CHR '','']"
  by (simp add: corrupt.simps)

text \<open>One of the patterns listed as scientific is not recognised as a number by the scanner.\<close>

lemma scipat_not_scientific:
  "scipat ! 2 = ''-87e+832'' \<and>
   map_option fst (core_state_transition (map byte_of (scipat ! 2) @ [0]) 0 (\<lambda>_. 0)) = Some CORE_INVALID"
  by (simp add: scipat_def core_state_transition_def core_state_loop.simps core_switch_def ee_isdigit_def is_sign_def)

end
