(* ===== verification/CM_List.thy ===== *)
theory CM_List
  imports CM_Matrix CM_State "HOL-Library.Multiset"
begin

text \<open>
  The linked-list kernel of CoreMark (\<open>src/benchmarks/coremark32/core_list_join.c\<close>) on an explicit heap.
  List cells (\<open>list_head\<close>) and data items (\<open>list_data\<close>) live in two stores indexed by address; a null
  pointer is \<open>None\<close> and following it is the result \<open>None\<close> of the operation.  Loops that chase pointers
  are partial functions, so a result \<open>Some\<close> also says that they end.  The in-place merge sort is
  verified against an interface for comparison functions, which both comparison functions of the
  benchmark, the stateful and caching \<open>cmp_complex\<close> included, are shown to provide.
\<close>

subsection \<open>Data\<close>

record list_data =
  data16 :: u16
  idx :: u16

record list_head =
  l_next :: "nat option"
  l_info :: nat

type_synonym heads = "nat \<Rightarrow> list_head"

record core_results =
  r_seed1 :: u16
  r_seed2 :: u16
  r_seed3 :: u16
  r_state :: "u8 list"
  r_size :: u32
  r_iterations :: u32
  r_list :: "nat option"
  r_mat :: mat_params
  r_crc :: u16
  r_crclist :: u16
  r_crcmatrix :: u16
  r_crcstate :: u16

text \<open>What the comparison functions read and write: the data items and the results.\<close>

record cm_world =
  w_datas :: "nat \<Rightarrow> list_data"
  w_res :: core_results

definition set_next :: "heads \<Rightarrow> nat \<Rightarrow> nat option \<Rightarrow> heads" where
  "set_next h n q = h(n := h n\<lparr>l_next := q\<rparr>)"

definition set_info :: "heads \<Rightarrow> nat \<Rightarrow> nat \<Rightarrow> heads" where
  "set_info h n d = h(n := h n\<lparr>l_info := d\<rparr>)"

subsection \<open>Comparison functions\<close>

text \<open>The \<open>switch\<close> of \<open>calc_func\<close>: the value to cache for the data word \<open>d\<close>.\<close>

definition calc_value :: "u16 \<Rightarrow> core_results \<Rightarrow> (u16 \<times> core_results) option" where
  "calc_value d res =
     (let flag = d AND 0x7;
          dtype = signed_drop_bit 3 d AND 0xF;
          dtype = dtype OR push_bit 4 dtype
      in if flag = 0
         then do {
           let dtype = (if sint dtype < 0x22 then 0x22 else dtype);
           (retval, mem) \<leftarrow> core_bench_state (r_size res) (r_state res) (r_seed1 res) (r_seed2 res) dtype (r_crc res);
           let res = res\<lparr>r_state := mem\<rparr>;
           Some (retval, if r_crcstate res = 0 then res\<lparr>r_crcstate := retval\<rparr> else res)
         }
         else if flag = 1
         then (case core_bench_matrix (r_mat res) dtype (r_crc res) of
                 (retval, mat) \<Rightarrow>
                   let res = res\<lparr>r_mat := mat\<rparr>
                   in Some (retval, if r_crcmatrix res = 0 then res\<lparr>r_crcmatrix := retval\<rparr> else res))
         else Some (d, res))"

definition calc_func :: "nat \<Rightarrow> cm_world \<Rightarrow> (u16 \<times> cm_world) option" where
  "calc_func p w =
     (let d = data16 (w_datas w p); optype = signed_drop_bit 7 d AND 1
      in if optype \<noteq> 0 then Some (d AND 0x007F, w)
         else do {
           (retval, res) \<leftarrow> calc_value d (w_res w);
           let res = res\<lparr>r_crc := crcu16 retval (r_crc res)\<rparr>;
           let retval = retval AND 0x007F;
           let item = (w_datas w p)\<lparr>data16 := (d AND 0xFF00) OR 0x0080 OR retval\<rparr>;
           Some (retval, w\<lparr>w_datas := (w_datas w)(p := item), w_res := res\<rparr>)
         })"

definition cmp_complex :: "nat \<Rightarrow> nat \<Rightarrow> cm_world \<Rightarrow> (int \<times> cm_world) option" where
  "cmp_complex a b w =
     do {
       (val1, w) \<leftarrow> calc_func a w;
       (val2, w) \<leftarrow> calc_func b w;
       Some (sint val1 - sint val2, w)
     }"

definition regen :: "nat \<Rightarrow> cm_world \<Rightarrow> cm_world" where
  "regen a w =
     (let d = data16 (w_datas w a)
      in w\<lparr>w_datas := (w_datas w)(a := (w_datas w a)\<lparr>data16 := (d AND 0xFF00) OR (0x00FF AND signed_drop_bit 8 d)\<rparr>)\<rparr>)"

text \<open>\<open>cmp_idx\<close>; the flag says that \<open>res\<close> is the null pointer.\<close>

definition cmp_idx :: "bool \<Rightarrow> nat \<Rightarrow> nat \<Rightarrow> cm_world \<Rightarrow> (int \<times> cm_world) option" where
  "cmp_idx res_null a b w =
     (let w = (if res_null then regen b (regen a w) else w)
      in Some (sint (idx (w_datas w a)) - sint (idx (w_datas w b)), w))"

definition copy_info :: "nat \<Rightarrow> list_data \<Rightarrow> cm_world \<Rightarrow> cm_world" where
  "copy_info dst src w = w\<lparr>w_datas := (w_datas w)(dst := \<lparr>data16 = data16 src, idx = idx src\<rparr>)\<rparr>"

subsection \<open>Operations on the list\<close>

definition core_list_insert_new ::
  "nat \<Rightarrow> list_data \<Rightarrow> nat \<Rightarrow> nat \<Rightarrow> nat \<Rightarrow> nat \<Rightarrow> heads \<Rightarrow> cm_world \<Rightarrow> nat option \<times> nat \<times> nat \<times> heads \<times> cm_world" where
  "core_list_insert_new insert_point info memblock datablock memblock_end datablock_end h w =
     (if memblock_end \<le> memblock + 1 \<or> datablock_end \<le> datablock + 1 then (None, memblock, datablock, h, w)
      else (let newitem = memblock;
                h = set_next h newitem (l_next (h insert_point));
                h = set_next h insert_point (Some newitem);
                h = set_info h newitem datablock;
                w = copy_info datablock info w
            in (Some newitem, memblock + 1, datablock + 1, h, w)))"

definition core_list_remove :: "nat option \<Rightarrow> heads \<Rightarrow> (nat \<times> heads) option" where
  "core_list_remove p h =
     do {
       item \<leftarrow> p;
       ret \<leftarrow> l_next (h item);
       let tmp = l_info (h item);
       let h = set_info h item (l_info (h ret));
       let h = set_info h ret tmp;
       let h = set_next h item (l_next (h ret));
       let h = set_next h ret None;
       Some (ret, h)
     }"

definition core_list_undo_remove :: "nat \<Rightarrow> nat option \<Rightarrow> heads \<Rightarrow> (nat \<times> heads) option" where
  "core_list_undo_remove item_removed m h =
     do {
       item_modified \<leftarrow> m;
       let tmp = l_info (h item_removed);
       let h = set_info h item_removed (l_info (h item_modified));
       let h = set_info h item_modified tmp;
       let h = set_next h item_removed (l_next (h item_modified));
       let h = set_next h item_modified (Some item_removed);
       Some (item_removed, h)
     }"

partial_function (option) find_loop :: "(nat \<Rightarrow> bool) \<Rightarrow> heads \<Rightarrow> nat option \<Rightarrow> nat option option" where
  "find_loop stop h p =
     (case p of None \<Rightarrow> Some None
      | Some a \<Rightarrow> if stop (l_info (h a)) then Some (Some a) else find_loop stop h (l_next (h a)))"

definition core_list_find :: "nat option \<Rightarrow> list_data \<Rightarrow> heads \<Rightarrow> cm_world \<Rightarrow> nat option option" where
  "core_list_find p info h w =
     (if 0 \<le> sint (idx info) then find_loop (\<lambda>d. idx (w_datas w d) = idx info) h p
      else find_loop (\<lambda>d. data16 (w_datas w d) AND 0xFF = data16 info) h p)"

partial_function (option) reverse_loop :: "heads \<Rightarrow> nat option \<Rightarrow> nat option \<Rightarrow> (nat option \<times> heads) option" where
  "reverse_loop h p next =
     (case p of None \<Rightarrow> Some (next, h)
      | Some a \<Rightarrow> reverse_loop (set_next h a next) (l_next (h a)) (Some a))"

definition core_list_reverse :: "nat option \<Rightarrow> heads \<Rightarrow> (nat option \<times> heads) option" where
  "core_list_reverse p h = reverse_loop h p None"

subsection \<open>Merge sort\<close>

text \<open>Stepping \<open>insize\<close> places along from \<open>p\<close>.\<close>

fun advance :: "heads \<Rightarrow> nat \<Rightarrow> nat \<Rightarrow> nat \<Rightarrow> nat option \<times> nat" where
  "advance h 0 q psize = (Some q, psize)"
| "advance h (Suc n) q psize =
     (case l_next (h q) of None \<Rightarrow> (None, psize + 1) | Some q' \<Rightarrow> advance h n q' (psize + 1))"

definition append_cell :: "heads \<Rightarrow> nat option \<Rightarrow> nat option \<Rightarrow> nat \<Rightarrow> heads \<times> nat option" where
  "append_cell h lst tail e = (case tail of Some t \<Rightarrow> (set_next h t (Some e), lst) | None \<Rightarrow> (h, Some e))"

text \<open>Whether the next element of the merge comes from \<open>p\<close>.\<close>

definition choose_p ::
  "(nat \<Rightarrow> nat \<Rightarrow> 'w \<Rightarrow> (int \<times> 'w) option) \<Rightarrow> heads \<Rightarrow> nat option \<Rightarrow> nat option \<Rightarrow> nat \<Rightarrow> nat \<Rightarrow> 'w \<Rightarrow> (bool \<times> 'w) option" where
  "choose_p cmp h p q psize qsize w =
     (if psize = 0 then Some (False, w)
      else if qsize = 0 \<or> q = None then Some (True, w)
      else do {
        a \<leftarrow> p;
        b \<leftarrow> q;
        (v, w) \<leftarrow> cmp (l_info (h a)) (l_info (h b)) w;
        Some (v \<le> 0, w)
      })"

function merge_loop ::
  "(nat \<Rightarrow> nat \<Rightarrow> 'w \<Rightarrow> (int \<times> 'w) option) \<Rightarrow> heads \<Rightarrow> 'w \<Rightarrow> nat option \<Rightarrow> nat option \<Rightarrow> nat \<Rightarrow> nat \<Rightarrow>
   nat option \<Rightarrow> nat option \<Rightarrow> (heads \<times> 'w \<times> nat option \<times> nat option \<times> nat option) option" where
  "merge_loop cmp h w p q psize qsize lst tail =
     (if 0 < psize \<or> (0 < qsize \<and> q \<noteq> None)
      then case choose_p cmp h p q psize qsize w of
             None \<Rightarrow> None
           | Some (True, w) \<Rightarrow>
               (case p of None \<Rightarrow> None
                | Some e \<Rightarrow>
                    (case append_cell h lst tail e of
                       (h', lst) \<Rightarrow> merge_loop cmp h' w (l_next (h e)) q (psize - 1) qsize lst (Some e)))
           | Some (False, w) \<Rightarrow>
               (case q of None \<Rightarrow> None
                | Some e \<Rightarrow>
                    (case append_cell h lst tail e of
                       (h', lst) \<Rightarrow> merge_loop cmp h' w p (l_next (h e)) psize (qsize - 1) lst (Some e)))
      else Some (h, w, lst, tail, q))"
  by pat_completeness auto
termination
proof (relation "measure (\<lambda>(cmp, h, w, p, q, psize, qsize, lst, tail). psize + qsize)")
qed (auto simp: choose_p_def split: if_splits bind_splits option.splits)

declare merge_loop.simps [simp del]

partial_function (option) merge_pass ::
  "(nat \<Rightarrow> nat \<Rightarrow> 'w \<Rightarrow> (int \<times> 'w) option) \<Rightarrow> nat \<Rightarrow> heads \<Rightarrow> 'w \<Rightarrow> nat option \<Rightarrow> nat option \<Rightarrow> nat option \<Rightarrow> nat \<Rightarrow>
   (heads \<times> 'w \<times> nat option \<times> nat option \<times> nat) option" where
  "merge_pass cmp insize h w p lst tail nmerges =
     (case p of None \<Rightarrow> Some (h, w, lst, tail, nmerges)
      | Some a \<Rightarrow>
          (case advance h insize a 0 of (q, psize) \<Rightarrow>
             Option.bind (merge_loop cmp h w p q psize insize lst tail)
               (\<lambda>(h, w, lst, tail, q). merge_pass cmp insize h w q lst tail (nmerges + 1))))"

partial_function (option) mergesort_loop ::
  "(nat \<Rightarrow> nat \<Rightarrow> 'w \<Rightarrow> (int \<times> 'w) option) \<Rightarrow> nat \<Rightarrow> heads \<Rightarrow> 'w \<Rightarrow> nat option \<Rightarrow> (nat option \<times> heads \<times> 'w) option" where
  "mergesort_loop cmp insize h w p =
     Option.bind (merge_pass cmp insize h w p None None 0)
       (\<lambda>(h, w, lst, tail, nmerges).
          Option.bind tail (\<lambda>t.
            let h = set_next h t None
            in if nmerges \<le> 1 then Some (lst, h, w) else mergesort_loop cmp (insize * 2) h w lst))"

definition core_list_mergesort ::
  "(nat \<Rightarrow> nat \<Rightarrow> 'w \<Rightarrow> (int \<times> 'w) option) \<Rightarrow> heads \<Rightarrow> 'w \<Rightarrow> nat option \<Rightarrow> (nat option \<times> heads \<times> 'w) option" where
  "core_list_mergesort cmp h w p = mergesort_loop cmp 1 h w p"

subsection \<open>Lists in the heap\<close>

text \<open>\<open>lpath h p ns q\<close>: following the links from \<open>p\<close> visits the cells \<open>ns\<close> and arrives at \<open>q\<close>.\<close>

fun lpath :: "heads \<Rightarrow> nat option \<Rightarrow> nat list \<Rightarrow> nat option \<Rightarrow> bool" where
  "lpath h p [] q \<longleftrightarrow> p = q"
| "lpath h p (n # ns) q \<longleftrightarrow> p = Some n \<and> lpath h (l_next (h n)) ns q"

definition infos :: "heads \<Rightarrow> nat list \<Rightarrow> nat list" where
  "infos h ns = map (\<lambda>n. l_info (h n)) ns"

lemma set_next_simps [simp]:
  "l_next (set_next h n q m) = (if m = n then q else l_next (h m))" "l_info (set_next h n q m) = l_info (h m)"
  "m \<noteq> n \<Longrightarrow> set_next h n q m = h m"
  by (simp_all add: set_next_def)

lemma set_info_simps [simp]:
  "l_next (set_info h n d m) = l_next (h m)" "l_info (set_info h n d m) = (if m = n then d else l_info (h m))"
  "m \<noteq> n \<Longrightarrow> set_info h n d m = h m"
  by (simp_all add: set_info_def)

lemma lpath_append: "lpath h p (as @ bs) q \<longleftrightarrow> (\<exists>r. lpath h p as r \<and> lpath h r bs q)"
  by (induction as arbitrary: p) auto

lemma lpath_frame: "(\<And>n. n \<in> set ns \<Longrightarrow> l_next (h' n) = l_next (h n)) \<Longrightarrow> lpath h' p ns q = lpath h p ns q"
  by (induction ns arbitrary: p) auto

lemma lpath_frameI: "lpath h p ns q \<Longrightarrow> (\<And>n. n \<in> set ns \<Longrightarrow> h' n = h n) \<Longrightarrow> lpath h' p ns q"
  using lpath_frame [of ns h' h p q] by simp

lemma lpath_set_next [simp]: "n \<notin> set ns \<Longrightarrow> lpath (set_next h n r) p ns q = lpath h p ns q"
  by (rule lpath_frame) auto

lemma lpath_set_info [simp]: "lpath (set_info h n d) p ns q = lpath h p ns q"
  by (rule lpath_frame) simp

lemma lpath_Nil_None: "lpath h None ns q \<longleftrightarrow> ns = [] \<and> q = None"
  by (cases ns) auto

lemma find_loop_lpath:
  assumes "lpath h p ns None"
  shows "find_loop stop h p = Some (find (\<lambda>n. stop (l_info (h n))) ns)"
  using assms by (induction ns arbitrary: p) (subst find_loop.simps, auto)+

lemma reverse_loop_lpath:
  assumes "lpath h p ns None" "lpath h r ms None" "distinct (ns @ ms)"
  shows "\<exists>p' h'. reverse_loop h p r = Some (p', h') \<and> lpath h' p' (rev ns @ ms) None \<and>
    (\<forall>n. l_info (h' n) = l_info (h n)) \<and> (\<forall>n. n \<notin> set ns \<longrightarrow> h' n = h n)"
  using assms
proof (induction ns arbitrary: h p r ms)
  case Nil
  then show ?case by (subst reverse_loop.simps) simp
next
  case (Cons a ns)
  let ?h = "set_next h a r"
  have "\<exists>p' h'. reverse_loop ?h (l_next (h a)) (Some a) = Some (p', h') \<and> lpath h' p' (rev ns @ (a # ms)) None \<and>
    (\<forall>n. l_info (h' n) = l_info (?h n)) \<and> (\<forall>n. n \<notin> set ns \<longrightarrow> h' n = ?h n)"
    using Cons.prems by (intro Cons.IH) auto
  then show ?case using Cons.prems by (subst reverse_loop.simps) auto
qed

lemma core_list_reverse_lpath:
  assumes "lpath h p ns None" "distinct ns"
  shows "\<exists>p' h'. core_list_reverse p h = Some (p', h') \<and> lpath h' p' (rev ns) None \<and>
    (\<forall>n. l_info (h' n) = l_info (h n)) \<and> (\<forall>n. n \<notin> set ns \<longrightarrow> h' n = h n)"
  using reverse_loop_lpath [OF assms(1), of None "[]"] assms(2) by (simp add: core_list_reverse_def)

lemma remove_lpath:
  assumes "lpath h p (a # b # ns) None" "distinct (a # b # ns)"
  shows "\<exists>h'. core_list_remove p h = Some (b, h') \<and> lpath h' p (a # ns) None \<and> l_next (h' b) = None \<and>
    l_info (h' a) = l_info (h b) \<and> l_info (h' b) = l_info (h a) \<and> (\<forall>n. n \<notin> {a, b} \<longrightarrow> h' n = h n)"
  using assms by (auto simp: core_list_remove_def)

lemma undo_remove_eq:
  assumes "l_next (h a) = Some b" "a \<noteq> b" "core_list_remove (Some a) h = Some (r, h')"
  shows "core_list_undo_remove r (Some a) h' = Some (b, h)"
proof -
  have "r = b" and h': "h' = set_next (set_next (set_info (set_info h a (l_info (h b))) b (l_info (h a))) a (l_next (h b))) b None"
    using assms by (auto simp: core_list_remove_def)
  moreover have "set_next (set_next (set_info (set_info h' b (l_info (h' a))) a (l_info (h' b))) b (l_next (h' a))) a (Some b) = h"
    unfolding h' using assms(1,2) by (auto simp: fun_eq_iff set_next_def set_info_def)
  ultimately show ?thesis by (simp add: core_list_undo_remove_def)
qed

lemma undo_remove_lpath:
  assumes "lpath h p (a # ns) None" "distinct (a # b # ns)"
  shows "\<exists>h'. core_list_undo_remove b p h = Some (b, h') \<and> lpath h' p (a # b # ns) None \<and>
    l_info (h' a) = l_info (h b) \<and> l_info (h' b) = l_info (h a) \<and> (\<forall>n. n \<notin> {a, b} \<longrightarrow> h' n = h n)"
  using assms by (auto simp: core_list_undo_remove_def)

subsection \<open>The interface of a comparison function\<close>

text \<open>A comparison may change the world and settle the keys of the items it compares; settled keys stay as
  they are.  \<open>good\<close> is what the function needs of the world to return at all.\<close>

locale list_comparison =
  fixes cmp :: "nat \<Rightarrow> nat \<Rightarrow> 'w \<Rightarrow> (int \<times> 'w) option"
    and good :: "'w \<Rightarrow> bool"
    and settled :: "'w \<Rightarrow> nat \<Rightarrow> bool"
    and key :: "'w \<Rightarrow> nat \<Rightarrow> int"
  assumes returns: "good w \<Longrightarrow> \<exists>v w'. cmp a b w = Some (v, w')"
    and keeps_good: "good w \<Longrightarrow> cmp a b w = Some (v, w') \<Longrightarrow> good w'"
    and settles: "good w \<Longrightarrow> cmp a b w = Some (v, w') \<Longrightarrow> settled w' a \<and> settled w' b"
    and keeps_settled: "good w \<Longrightarrow> cmp a b w = Some (v, w') \<Longrightarrow> settled w c \<Longrightarrow> settled w' c \<and> key w' c = key w c"
    and decides: "good w \<Longrightarrow> cmp a b w = Some (v, w') \<Longrightarrow> v \<le> 0 \<longleftrightarrow> key w' a \<le> key w' b"
begin

definition le_in :: "'w \<Rightarrow> nat \<Rightarrow> nat \<Rightarrow> bool" where
  "le_in w a b \<longleftrightarrow> settled w a \<and> settled w b \<and> key w a \<le> key w b"

definition extends :: "'w \<Rightarrow> 'w \<Rightarrow> bool" where
  "extends w w' \<longleftrightarrow> good w' \<and> (\<forall>a. settled w a \<longrightarrow> settled w' a \<and> key w' a = key w a)"

abbreviation ordered :: "'w \<Rightarrow> nat list \<Rightarrow> bool" where
  "ordered w xs \<equiv> successively (le_in w) xs"

lemma extends_refl: "good w \<Longrightarrow> extends w w"
  by (simp add: extends_def)

lemma extends_trans: "extends w w' \<Longrightarrow> extends w' w'' \<Longrightarrow> extends w w''"
  by (auto simp: extends_def)

lemma extends_cmp: "good w \<Longrightarrow> cmp a b w = Some (v, w') \<Longrightarrow> extends w w'"
  using keeps_good keeps_settled unfolding extends_def by blast

lemma ordered_extends: "extends w w' \<Longrightarrow> ordered w xs \<Longrightarrow> ordered w' xs"
  by (erule successively_mono) (auto simp: extends_def le_in_def)

text \<open>The cells produced so far by a pass, with the head of the result and its last cell.\<close>

definition outp :: "heads \<Rightarrow> nat option \<Rightarrow> nat option \<Rightarrow> nat list \<Rightarrow> bool" where
  "outp h lst tail ns \<longleftrightarrow>
     (if ns = [] then lst = None \<and> tail = None else tail = Some (last ns) \<and> lpath h lst (butlast ns) (Some (last ns)))"

lemma outp_append_cell:
  assumes "outp h lst tail ns" "append_cell h lst tail e = (h', lst')" "distinct ns" "e \<notin> set ns"
  shows "outp h' lst' (Some e) (ns @ [e])" "\<forall>n. l_info (h' n) = l_info (h n)" "\<forall>n. n \<notin> set ns \<longrightarrow> h' n = h n"
proof -
  show "outp h' lst' (Some e) (ns @ [e])"
  proof (cases ns rule: rev_cases)
    case Nil
    then show ?thesis using assms by (auto simp: outp_def append_cell_def)
  next
    case (snoc ms t)
    then show ?thesis using assms by (auto simp: outp_def append_cell_def lpath_append butlast_append)
  qed
  show "\<forall>n. l_info (h' n) = l_info (h n)" "\<forall>n. n \<notin> set ns \<longrightarrow> h' n = h n"
    using assms by (auto simp: outp_def append_cell_def set_next_def split: option.splits if_splits)
qed

definition merge_pre where
  "merge_pre h p q psize qsize lst tail U M P Q \<longleftrightarrow>
     outp h lst tail (U @ M) \<and> (\<exists>x. lpath h p P x) \<and> length P = psize \<and> lpath h q Q None \<and> distinct (U @ M @ P @ Q)"

definition merge_post where
  "merge_post h w h' w' lst' tail' q' U M' Q' C \<longleftrightarrow>
     outp h' lst' tail' (U @ M') \<and> lpath h' q' Q' None \<and> distinct (U @ M' @ Q') \<and> extends w w' \<and>
     ordered w' (infos h M') \<and> (\<forall>n. l_info (h' n) = l_info (h n)) \<and> (\<forall>n. n \<notin> set C \<longrightarrow> h' n = h n)"

lemma choose_p_law:
  assumes "good w" "length P = psize" "lpath h p P x" "lpath h q Q None" "0 < psize \<or> (0 < qsize \<and> q \<noteq> None)"
    and o: "ordered w (infos h (M @ P))" "ordered w (infos h (M @ take qsize Q))"
  obtains (p) w' e P' where "choose_p cmp h p q psize qsize w = Some (True, w')" "P = e # P'" "extends w w'"
      "ordered w' (infos h ((M @ [e]) @ P'))" "ordered w' (infos h ((M @ [e]) @ take qsize Q))"
  | (q) w' e Q' where "choose_p cmp h p q psize qsize w = Some (False, w')" "Q = e # Q'" "0 < qsize" "extends w w'"
      "ordered w' (infos h ((M @ [e]) @ P))" "ordered w' (infos h ((M @ [e]) @ take (qsize - 1) Q'))"
proof -
  consider (noP) "psize = 0" | (noQ) "0 < psize" "qsize = 0 \<or> q = None" | (both) "0 < psize" "0 < qsize" "q \<noteq> None" by blast
  then show thesis
  proof cases
    case noP
    then obtain e Q' where Q: "Q = e # Q'" "P = []" "0 < qsize" using assms by (cases Q) auto
    have "ordered w (infos h ((M @ [e]) @ P))"
      using o(2) Q by (cases qsize) (auto simp: infos_def successively_append_iff)
    moreover have "ordered w (infos h ((M @ [e]) @ take (qsize - 1) Q'))" using o(2) Q by (cases qsize) auto
    ultimately show thesis using q [of w e Q'] noP Q assms(1) by (simp add: choose_p_def extends_refl)
  next
    case noQ
    then obtain e P' where P: "P = e # P'" using assms(2) by (cases P) auto
    have "take qsize Q = []" using noQ assms(4) by (auto simp: lpath_Nil_None)
    then have "ordered w (infos h ((M @ [e]) @ take qsize Q))" using o(1) P by (auto simp: infos_def successively_append_iff)
    then show thesis using p [of w e P'] noQ P assms(1) o(1) by (simp add: choose_p_def extends_refl)
  next
    case both
    then obtain a P' b Q' where P: "P = a # P'" "p = Some a" and Q: "Q = b # Q'" "q = Some b"
      using assms(2-4) by (cases P; cases Q) auto
    obtain v w' where c: "cmp (l_info (h a)) (l_info (h b)) w = Some (v, w')" using returns [OF assms(1)] by blast
    have x: "extends w w'" using assms(1) c by (rule extends_cmp)
    have ch: "choose_p cmp h p q psize qsize w = Some (v \<le> 0, w')" using both P Q c by (simp add: choose_p_def)
    obtain k where k: "qsize = Suc k" using both(2) by (cases qsize) auto
    have o': "ordered w' (infos h (M @ P))" "ordered w' (infos h (M @ take qsize Q))" using o ordered_extends [OF x] by blast+
    have s: "settled w' (l_info (h a))" "settled w' (l_info (h b))" using settles [OF assms(1) c] by auto
    show thesis
    proof (cases "v \<le> 0")
      case True
      then have "le_in w' (l_info (h a)) (l_info (h b))" using decides [OF assms(1) c] s by (simp add: le_in_def)
      then show thesis using p [of w' a P'] ch True P Q k x o' by (auto simp: infos_def successively_append_iff)
    next
      case False
      then have "le_in w' (l_info (h b)) (l_info (h a))" using decides [OF assms(1) c] s by (simp add: le_in_def)
      then show thesis using q [of w' b Q'] ch False P Q k x o' by (auto simp: infos_def successively_append_iff)
    qed
  qed
qed

lemma infos_cong: "\<forall>n. l_info (h' n) = l_info (h n) \<Longrightarrow> infos h' ns = infos h ns"
  by (simp add: infos_def)

lemma merge_post_step:
  assumes "merge_post h1 w1 h' w' lst' tail' q' U M' Q' C1" "extends w w1" "\<forall>n. l_info (h1 n) = l_info (h n)"
    "\<forall>n. n \<notin> set C \<longrightarrow> h1 n = h n" "set C1 \<subseteq> set C"
  shows "merge_post h w h' w' lst' tail' q' U M' Q' C"
  using assms extends_trans infos_cong [of h1 h M'] unfolding merge_post_def by (auto simp: subset_iff)

lemma merge_loop_law:
  assumes "good w" "merge_pre h p q psize qsize lst tail U M P Q"
    "ordered w (infos h (M @ P))" "ordered w (infos h (M @ take qsize Q))"
  shows "\<exists>h' w' lst' tail' q' M'. merge_loop cmp h w p q psize qsize lst tail = Some (h', w', lst', tail', q') \<and>
    merge_post h w h' w' lst' tail' q' U M' (drop qsize Q) (U @ M @ P @ take qsize Q) \<and>
    mset M' = mset M + mset P + mset (take qsize Q)"
  using assms
proof (induction "psize + qsize" arbitrary: h w p q psize qsize lst tail M P Q rule: less_induct)
  case less
  note pre = less.prems(2) [unfolded merge_pre_def]
  obtain x where x: "lpath h p P x" using pre by blast
  show ?case
  proof (cases "0 < psize \<or> (0 < qsize \<and> q \<noteq> None)")
    case False
    then have "P = []" "take qsize Q = []" "drop qsize Q = Q" using pre by (auto simp: lpath_Nil_None)
    then show ?thesis using False less.prems pre
      by (subst merge_loop.simps) (auto simp: merge_post_def extends_refl)
  next
    case True
    show ?thesis
    proof (rule choose_p_law [OF less.prems(1) _ x _ True less.prems(3,4)])
      show "length P = psize" "lpath h q Q None" using pre by auto
    next
      fix w1 e P' assume c: "choose_p cmp h p q psize qsize w = Some (True, w1)" "P = e # P'" "extends w w1"
        and o: "ordered w1 (infos h ((M @ [e]) @ P'))" "ordered w1 (infos h ((M @ [e]) @ take qsize Q))"
      obtain h1 lst1 where a: "append_cell h lst tail e = (h1, lst1)" by fastforce
      have e: "outp h lst tail (U @ M)" "distinct (U @ M)" "e \<notin> set (U @ M)" "p = Some e" "0 < psize"
        using pre c(2) x by auto
      note ac = outp_append_cell [OF e(1) a e(2,3)]
      have "lpath h (l_next (h e)) P' x" using x c(2) by simp
      then have "lpath h1 (l_next (h e)) P' x" by (rule lpath_frameI) (use ac(3) pre c(2) in auto)
      moreover have "lpath h1 q Q None" by (rule lpath_frameI [of h]) (use ac(3) pre in auto)
      ultimately have "merge_pre h1 (l_next (h e)) q (psize - 1) qsize lst1 (Some e) U (M @ [e]) P' Q"
        using ac(1) pre c(2) unfolding merge_pre_def by auto
      moreover have "good w1" using c(3) by (simp add: extends_def)
      ultimately obtain h' w' lst' tail' q' M' where ml:
        "merge_loop cmp h1 w1 (l_next (h e)) q (psize - 1) qsize lst1 (Some e) = Some (h', w', lst', tail', q')"
        "merge_post h1 w1 h' w' lst' tail' q' U M' (drop qsize Q) (U @ (M @ [e]) @ P' @ take qsize Q)"
        "mset M' = mset (M @ [e]) + mset P' + mset (take qsize Q)"
        using less.hyps [of "psize - 1" qsize w1 h1 "l_next (h e)" q lst1 "Some e" "M @ [e]" P' Q] e(5) o
        unfolding infos_cong [OF ac(2)] by auto
      have "merge_loop cmp h w p q psize qsize lst tail =
          merge_loop cmp h1 w1 (l_next (h e)) q (psize - 1) qsize lst1 (Some e)"
        using True c(1) a e(4) by (subst merge_loop.simps) auto
      moreover have "merge_post h w h' w' lst' tail' q' U M' (drop qsize Q) (U @ M @ P @ take qsize Q)"
        by (rule merge_post_step [OF ml(2) c(3) ac(2)]) (use ac(3) c(2) in auto)
      moreover have "mset M' = mset M + mset P + mset (take qsize Q)" using ml(3) c(2) by simp
      ultimately show ?thesis using ml(1) by auto
    next
      fix w1 e Q' assume c: "choose_p cmp h p q psize qsize w = Some (False, w1)" "Q = e # Q'" "0 < qsize" "extends w w1"
        and o: "ordered w1 (infos h ((M @ [e]) @ P))" "ordered w1 (infos h ((M @ [e]) @ take (qsize - 1) Q'))"
      obtain h1 lst1 where a: "append_cell h lst tail e = (h1, lst1)" by fastforce
      have e: "outp h lst tail (U @ M)" "distinct (U @ M)" "e \<notin> set (U @ M)" "q = Some e" using pre c(2) by auto
      note ac = outp_append_cell [OF e(1) a e(2,3)]
      have tk: "take qsize Q = e # take (qsize - 1) Q'" "drop qsize Q = drop (qsize - 1) Q'" using c(2,3) by (cases qsize; simp)+
      have "lpath h1 p P x" by (rule lpath_frameI [OF x]) (use ac(3) pre in auto)
      moreover have "lpath h1 (l_next (h e)) Q' None" by (rule lpath_frameI [of h]) (use ac(3) pre c(2) in auto)
      ultimately have "merge_pre h1 p (l_next (h e)) psize (qsize - 1) lst1 (Some e) U (M @ [e]) P Q'"
        using ac(1) pre c(2) unfolding merge_pre_def by auto
      moreover have "good w1" using c(4) by (simp add: extends_def)
      ultimately obtain h' w' lst' tail' q' M' where ml:
        "merge_loop cmp h1 w1 p (l_next (h e)) psize (qsize - 1) lst1 (Some e) = Some (h', w', lst', tail', q')"
        "merge_post h1 w1 h' w' lst' tail' q' U M' (drop (qsize - 1) Q') (U @ (M @ [e]) @ P @ take (qsize - 1) Q')"
        "mset M' = mset (M @ [e]) + mset P + mset (take (qsize - 1) Q')"
        using less.hyps [of psize "qsize - 1" w1 h1 p "l_next (h e)" lst1 "Some e" "M @ [e]" P Q'] c(3) o
        unfolding infos_cong [OF ac(2)] by auto
      have "merge_loop cmp h w p q psize qsize lst tail =
          merge_loop cmp h1 w1 p (l_next (h e)) psize (qsize - 1) lst1 (Some e)"
        using True c(1) a e(4) by (subst merge_loop.simps) auto
      moreover have "merge_post h w h' w' lst' tail' q' U M' (drop qsize Q) (U @ M @ P @ take qsize Q)"
        unfolding tk by (rule merge_post_step [OF ml(2) c(4) ac(2)]) (use ac(3) in auto)
      moreover have "mset M' = mset M + mset P + mset (take qsize Q)" unfolding tk using ml(3) by simp
      ultimately show ?thesis using ml(1) by auto
    qed
  qed
qed

text \<open>Runs of a given length, each in order.\<close>

definition runs :: "'w \<Rightarrow> nat \<Rightarrow> nat list \<Rightarrow> bool" where
  "runs w k xs \<longleftrightarrow> (\<forall>i. ordered w (take k (drop (i * k) xs)))"

lemma runs_one: "runs w 1 xs"
proof -
  have "ordered w (take 1 ys)" for ys by (cases ys) simp_all
  then show ?thesis by (simp add: runs_def)
qed

lemma runs_split:
  assumes "runs w k xs"
  shows "ordered w (take k xs)" "ordered w (take k (drop k xs))" "runs w k (drop k (drop k xs))"
proof -
  show "ordered w (take k xs)" using assms [unfolded runs_def, rule_format, of 0] by simp
  show "ordered w (take k (drop k xs))" using assms [unfolded runs_def, rule_format, of 1] by simp
  have "ordered w (take k (drop (i * k) (drop k (drop k xs))))" for i
    using assms [unfolded runs_def, rule_format, of "i + 2"] by (simp add: algebra_simps)
  then show "runs w k (drop k (drop k xs))" by (simp add: runs_def)
qed

lemma runs_append:
  assumes "ordered w xs" "runs w k ys" "length xs \<le> k" "ys \<noteq> [] \<longrightarrow> length xs = k"
  shows "runs w k (xs @ ys)"
proof -
  have "ordered w (take k (drop (i * k) (xs @ ys)))" for i
  proof (cases i)
    case 0
    then show ?thesis using assms by (cases "ys = []") auto
  next
    case (Suc j)
    show ?thesis
    proof (cases "ys = []")
      case True
      then show ?thesis using assms(3) Suc by simp
    next
      case False
      then show ?thesis using assms(4) assms(2) [unfolded runs_def, rule_format, of j] Suc by simp
    qed
  qed
  then show ?thesis by (simp add: runs_def)
qed

lemma runs_extends: "extends w w' \<Longrightarrow> runs w k xs \<Longrightarrow> runs w' k xs"
  using ordered_extends by (auto simp: runs_def)

lemma runs_whole: "runs w k xs \<Longrightarrow> length xs \<le> k \<Longrightarrow> ordered w xs"
  using runs_split(1) by fastforce

lemma advance_law:
  assumes "lpath h (Some a) ns None"
  shows "\<exists>q. advance h n a k = (q, k + length (take n ns)) \<and> lpath h (Some a) (take n ns) q \<and> lpath h q (drop n ns) None"
  using assms
proof (induction n arbitrary: a ns k)
  case (Suc n)
  then obtain ns' where ns: "ns = a # ns'" "lpath h (l_next (h a)) ns' None" by (cases ns) auto
  show ?case
  proof (cases "l_next (h a)")
    case None
    then show ?thesis using ns by (simp add: lpath_Nil_None)
  next
    case (Some b)
    then show ?thesis using ns Suc.IH [of b ns' "k + 1"] by auto
  qed
qed simp

lemma merge_pass_law:
  assumes "good w" "1 \<le> k" "outp h lst tail U" "lpath h p ns None" "distinct (U @ ns)" "runs w k (infos h ns)"
  shows "\<exists>h' w' lst' tail' m' R. merge_pass cmp k h w p lst tail m = Some (h', w', lst', tail', m + m') \<and>
    outp h' lst' tail' (U @ R) \<and> mset R = mset ns \<and> extends w w' \<and> runs w' (2 * k) (infos h R) \<and>
    (\<forall>n. l_info (h' n) = l_info (h n)) \<and> (\<forall>n. n \<notin> set (U @ ns) \<longrightarrow> h' n = h n) \<and>
    (m' = 0 \<longleftrightarrow> ns = []) \<and> (m' \<le> 1 \<longleftrightarrow> length ns \<le> 2 * k)"
  using assms
proof (induction "length ns" arbitrary: h w p lst tail U ns m rule: less_induct)
  case less
  show ?case
  proof (cases p)
    case None
    then have "ns = []" using less.prems(4) by (simp add: lpath_Nil_None)
    moreover have "runs w (2 * k) []" by (simp add: runs_def)
    ultimately show ?thesis using None less.prems by (subst merge_pass.simps) (auto simp: extends_refl infos_def)
  next
    case (Some a)
    let ?P = "take k ns" and ?Q = "drop k ns"
    have ne: "ns \<noteq> []" using less.prems(4) Some by auto
    obtain q where q: "advance h k a 0 = (q, length ?P)" "lpath h p ?P q" "lpath h q ?Q None"
      using advance_law [of h a ns k 0] less.prems(4) Some by auto
    have pre: "merge_pre h p q (length ?P) k lst tail U [] ?P ?Q"
      using q less.prems(3,5) unfolding merge_pre_def by (auto simp flip: set_append simp: distinct_append [symmetric] simp del: set_append distinct_append)
    have ord: "ordered w (infos h ([] @ ?P))" "ordered w (infos h ([] @ take k ?Q))"
      using runs_split(1,2) [OF less.prems(6)] by (simp_all add: infos_def take_map drop_map)
    obtain h1 w1 lst1 tail1 q1 M where ml: "merge_loop cmp h w p q (length ?P) k lst tail = Some (h1, w1, lst1, tail1, q1)"
      "merge_post h w h1 w1 lst1 tail1 q1 U M (drop k ?Q) (U @ [] @ ?P @ take k ?Q)"
      "mset M = mset [] + mset ?P + mset (take k ?Q)"
      using merge_loop_law [OF less.prems(1) pre ord] by blast
    note post = ml(2) [unfolded merge_post_def]
    let ?R = "drop k ?Q"
    have split: "ns = ?P @ take k ?Q @ ?R" by (simp only: append_take_drop_id)
    have info1: "\<forall>n. l_info (h1 n) = l_info (h n)" using post by blast
    have r1: "runs w1 k (infos h1 ?R)"
      using runs_extends [of w w1] runs_split(3) [OF less.prems(6)] post
      unfolding infos_cong [OF info1] by (simp add: infos_def drop_map)
    have "length ?R < length ns" using less.prems(2) ne by (cases ns) simp_all
    then obtain h' w' lst' tail' m' R where mp:
      "merge_pass cmp k h1 w1 q1 lst1 tail1 (m + 1) = Some (h', w', lst', tail', m + 1 + m')"
      "outp h' lst' tail' ((U @ M) @ R)" "mset R = mset ?R" "extends w1 w'" "runs w' (2 * k) (infos h1 R)"
      "\<forall>n. l_info (h' n) = l_info (h1 n)" "\<forall>n. n \<notin> set ((U @ M) @ ?R) \<longrightarrow> h' n = h1 n" "m' = 0 \<longleftrightarrow> ?R = []"
      using less.hyps [of ?R w1 h1 lst1 tail1 "U @ M" q1 "m + 1"] less.prems(2) post r1 by (auto simp: extends_def)
    have setM: "set M = set ?P \<union> set (take k ?Q)" using arg_cong [OF ml(3), of set_mset] by simp
    have sets: "set ns = set M \<union> set ?R" unfolding setM by (subst split) auto
    have lenM: "length M = length ?P + length (take k ?Q)" using arg_cong [OF ml(3), of size] by simp
    have "merge_pass cmp k h w p lst tail m = Some (h', w', lst', tail', m + (1 + m'))"
      using Some q(1) ml(1) mp(1) by (subst merge_pass.simps) (simp add: add.assoc)
    moreover have "mset (M @ R) = mset ns" using ml(3) mp(3) by (subst split) simp
    moreover have "runs w' (2 * k) (infos h (M @ R))"
    proof -
      have "ordered w' (infos h M)" using post mp(4) ordered_extends by blast
      moreover have "runs w' (2 * k) (infos h R)" using mp(5) infos_cong [OF info1] by simp
      moreover have "R \<noteq> [] \<longrightarrow> length M = 2 * k" using mp(3) lenM by (auto simp: min_def)
      ultimately show ?thesis using runs_append [of w' "infos h M" "2 * k" "infos h R"] lenM by (simp add: infos_def)
    qed
    moreover have "\<forall>n. n \<notin> set (U @ ns) \<longrightarrow> h' n = h n" using mp(7) post sets setM by auto
    moreover have "1 + m' = 0 \<longleftrightarrow> ns = []" "1 + m' \<le> 1 \<longleftrightarrow> length ns \<le> 2 * k" using ne mp(8) by auto
    moreover have "outp h' lst' tail' (U @ (M @ R))" using mp(2) by simp
    moreover have "extends w w'" using post mp(4) extends_trans by blast
    moreover have "\<forall>n. l_info (h' n) = l_info (h n)" using mp(6) info1 by simp
    ultimately show ?thesis
      by - (rule exI [of _ h'], rule exI [of _ w'], rule exI [of _ lst'], rule exI [of _ tail'],
        rule exI [of _ "1 + m'"], rule exI [of _ "M @ R"], intro conjI)
  qed
qed

lemma mergesort_loop_law:
  assumes "good w" "1 \<le> k" "lpath h p ns None" "distinct ns" "ns \<noteq> []" "runs w k (infos h ns)"
  shows "\<exists>p' h' w' ns'. mergesort_loop cmp k h w p = Some (p', h', w') \<and> lpath h' p' ns' None \<and> mset ns' = mset ns \<and>
    extends w w' \<and> ordered w' (infos h ns') \<and> (\<forall>n. l_info (h' n) = l_info (h n)) \<and> (\<forall>n. n \<notin> set ns \<longrightarrow> h' n = h n)"
  using assms
proof (induction "length ns - k" arbitrary: k h w p ns rule: less_induct)
  case less
  have "outp h None None []" "distinct ([] @ ns)" using less.prems(4) by (simp_all add: outp_def)
  then obtain h1 w1 lst tail m R where mp: "merge_pass cmp k h w p None None 0 = Some (h1, w1, lst, tail, m)"
    "outp h1 lst tail R" "mset R = mset ns" "extends w w1" "runs w1 (2 * k) (infos h R)"
    "\<forall>n. l_info (h1 n) = l_info (h n)" "\<forall>n. n \<notin> set ns \<longrightarrow> h1 n = h n" "m \<le> 1 \<longleftrightarrow> length ns \<le> 2 * k"
    using merge_pass_law [OF less.prems(1,2) _ less.prems(3) _ less.prems(6), of None None "[]" 0] by auto
  have R: "set R = set ns" "length R = length ns" "distinct R"
    using mset_eq_setD [OF mp(3)] mset_eq_length [OF mp(3)] mset_eq_imp_distinct_iff [OF mp(3)] less.prems(4) by simp_all
  have R1: "R \<noteq> []" using R(2) less.prems(5) by auto
  define h2 where "h2 = set_next h1 (last R) None"
  have tail: "tail = Some (last R)" using mp(2) R1 by (simp add: outp_def)
  have "lpath h1 lst (butlast R) (Some (last R))" using mp(2) R1 by (simp add: outp_def)
  moreover have "last R \<notin> set (butlast R)" using R1 R(3) by (metis append_butlast_last_id distinct_append disjoint_iff list.set_intros(1))
  ultimately have "lpath h2 lst (butlast R @ [last R]) None" by (simp add: h2_def lpath_append)
  then have l2: "lpath h2 lst R None" using R1 by simp
  have i2: "\<forall>n. l_info (h2 n) = l_info (h n)" using mp(6) by (simp add: h2_def)
  have f2: "\<forall>n. n \<notin> set ns \<longrightarrow> h2 n = h n" using mp(7) last_in_set [OF R1] R(1) by (auto simp: h2_def set_next_def)
  show ?case
  proof (cases "m \<le> 1")
    case True
    then have "ordered w1 (infos h R)" using runs_whole [OF mp(5)] mp(8) R(2) by (simp add: infos_def)
    moreover have "mergesort_loop cmp k h w p = Some (lst, h2, w1)"
      using True mp(1) tail by (subst mergesort_loop.simps) (simp add: h2_def)
    ultimately show ?thesis using l2 mp(3,4) i2 f2 by blast
  next
    case False
    have "length R - k * 2 < length ns - k" using False mp(8) R(2) less.prems(2) by simp
    moreover have "good w1" "1 \<le> k * 2" using mp(4) less.prems(2) by (simp_all add: extends_def)
    moreover have "runs w1 (k * 2) (infos h2 R)" using mp(5) infos_cong [OF i2] by (simp add: mult.commute)
    ultimately obtain p' h' w' ns' where "mergesort_loop cmp (k * 2) h2 w1 lst = Some (p', h', w')" "lpath h' p' ns' None"
      "mset ns' = mset R" "extends w1 w'" "ordered w' (infos h2 ns')" "\<forall>n. l_info (h' n) = l_info (h2 n)" "\<forall>n. n \<notin> set R \<longrightarrow> h' n = h2 n"
      using less.hyps [of R "k * 2" w1 h2 lst] l2 R1 R(3) by blast
    moreover have "mergesort_loop cmp k h w p = mergesort_loop cmp (k * 2) h2 w1 lst"
      using False mp(1) tail by (subst mergesort_loop.simps) (simp add: h2_def)
    ultimately show ?thesis using mp(3,4) i2 f2 R(1) extends_trans infos_cong [OF i2] by metis
  qed
qed

theorem core_list_mergesort_sorts:
  assumes "good w" "lpath h p ns None" "distinct ns" "ns \<noteq> []"
  shows "\<exists>p' h' w' ns'. core_list_mergesort cmp h w p = Some (p', h', w') \<and> lpath h' p' ns' None \<and> mset ns' = mset ns \<and>
    extends w w' \<and> ordered w' (infos h ns') \<and> (\<forall>n. l_info (h' n) = l_info (h n)) \<and> (\<forall>n. n \<notin> set ns \<longrightarrow> h' n = h n)"
  unfolding core_list_mergesort_def by (rule mergesort_loop_law [OF assms(1) order_refl assms(2-4) runs_one])

end

subsection \<open>Both comparison functions provide the interface\<close>

lemma regen_simps [simp]: "idx (w_datas (regen a w) d) = idx (w_datas w d)" "w_res (regen a w) = w_res w"
  by (simp_all add: regen_def Let_def)

interpretation idx_cmp: list_comparison "cmp_idx res_null" "\<lambda>w. w_res w = r0" "\<lambda>_ _. True" "\<lambda>w d. sint (idx (w_datas w d))"
  by unfold_locales (auto simp: cmp_idx_def Let_def split: if_splits)

text \<open>What \<open>cmp_complex\<close> needs: a terminated input block for the state machine, which both corruption
  passes leave as it was.\<close>

definition bench_ready :: "core_results \<Rightarrow> bool" where
  "bench_ready r \<longleftrightarrow> 2 \<le> unat (r_size r) \<and> length (r_state r) = unat (r_size r) \<and>
     r_state r ! (unat (r_size r) - 1) = 0 \<and> r_state r ! (unat (r_size r) - 2) = 0 \<and>
     (ucast (r_seed1 r) :: u8) = ucast (r_seed2 r) \<and>
     (\<forall>b \<in> set (r_state r). b \<noteq> byte_of CHR '','' \<longrightarrow> b XOR ucast (r_seed1 r) \<noteq> byte_of CHR '','')"

text \<open>The parts of the results that no comparison changes.\<close>

definition same_setup :: "core_results \<Rightarrow> core_results \<Rightarrow> bool" where
  "same_setup r r' \<longleftrightarrow> r_size r' = r_size r \<and> r_state r' = r_state r \<and> r_seed1 r' = r_seed1 r \<and> r_seed2 r' = r_seed2 r \<and>
     r_seed3 r' = r_seed3 r \<and> r_list r' = r_list r \<and> r_iterations r' = r_iterations r"

lemma same_setup_ready: "same_setup r r' \<Longrightarrow> bench_ready r \<Longrightarrow> bench_ready r'"
  by (auto simp: same_setup_def bench_ready_def)

lemma same_setup_refl [simp]: "same_setup r r" by (simp add: same_setup_def)

lemma same_setup_trans: "same_setup r r' \<Longrightarrow> same_setup r' r'' \<Longrightarrow> same_setup r r''" by (simp add: same_setup_def)

lemma cached_value:
  fixes d v :: u16
  shows "bit ((d AND 0xFF00) OR 0x0080 OR (v AND 0x7F)) 7" "((d AND 0xFF00) OR 0x0080 OR (v AND 0x7F)) AND 0x7F = v AND 0x7F"
proof -
  have "bit (0x80 :: u16) 7" by simp
  then show "bit ((d AND 0xFF00) OR 0x0080 OR (v AND 0x7F)) 7" by (simp only: bit_or_iff simp_thms)
  have "(d AND 0xFF00) AND 0x7F = 0" by (simp add: and.assoc)
  moreover have "(0x80 :: u16) AND 0x7F = 0" by simp
  moreover have "(v AND 0x7F) AND 0x7F = v AND 0x7F" by (simp add: and.assoc)
  ultimately show "((d AND 0xFF00) OR 0x0080 OR (v AND 0x7F)) AND 0x7F = v AND 0x7F"
    by (simp only: bit.conj_disj_distrib2 or.left_neutral)
qed

lemma calc_func_cached: "signed_drop_bit 7 (d :: u16) AND 1 = of_bool (bit d 7)"
  by (simp add: and_one_bool bit_signed_drop_bit_iff)

lemma calc_value_law:
  assumes "bench_ready r"
  shows "\<exists>v r'. calc_value d r = Some (v, r') \<and> same_setup r r'"
proof -
  define dt where "dt = (signed_drop_bit 3 d AND 0xF) OR push_bit 4 (signed_drop_bit 3 d AND 0xF)"
  define dt2 where "dt2 = (if sint dt < 0x22 then 0x22 else dt)"
  have "2 \<le> sint dt2" by (simp add: dt2_def)
  then obtain c where c: "core_bench_state (r_size r) (r_state r) (r_seed1 r) (r_seed2 r) dt2 (r_crc r) = Some (c, r_state r)"
    using core_bench_state_restores assms unfolding bench_ready_def by blast
  obtain rv mat where m: "core_bench_matrix (r_mat r) dt (r_crc r) = (rv, mat)" by fastforce
  show ?thesis
    unfolding calc_value_def Let_def dt_def [symmetric] dt2_def [symmetric] by (auto simp: c m same_setup_def)
qed

lemma calc_func_law:
  assumes "bench_ready (w_res w)"
  shows "\<exists>v w'. calc_func p w = Some (v, w') \<and> same_setup (w_res w) (w_res w') \<and> bit (data16 (w_datas w' p)) 7 \<and>
    v = data16 (w_datas w' p) AND 0x7F \<and> (\<forall>c. bit (data16 (w_datas w c)) 7 \<or> c \<noteq> p \<longrightarrow> w_datas w' c = w_datas w c) \<and>
    (\<forall>c. idx (w_datas w' c) = idx (w_datas w c))"
proof (cases "bit (data16 (w_datas w p)) 7")
  case True
  then show ?thesis by (simp add: calc_func_def calc_func_cached)
next
  case False
  let ?d = "data16 (w_datas w p)"
  obtain v r' where v: "calc_value ?d (w_res w) = Some (v, r')" "same_setup (w_res w) r'" using calc_value_law [OF assms] by blast
  have s: "same_setup (w_res w) (r'\<lparr>r_crc := crcu16 v (r_crc r')\<rparr>)" using v(2) by (simp add: same_setup_def)
  show ?thesis
    unfolding calc_func_def Let_def calc_func_cached using False v(1) s cached_value [of ?d v]
    by (auto simp del: One_nat_def)
qed

lemma cmp_complex_law:
  assumes "bench_ready (w_res w)"
  shows "\<exists>v w'. cmp_complex a b w = Some (v, w') \<and> same_setup (w_res w) (w_res w') \<and>
    bit (data16 (w_datas w' a)) 7 \<and> bit (data16 (w_datas w' b)) 7 \<and>
    v = sint (data16 (w_datas w' a) AND 0x7F) - sint (data16 (w_datas w' b) AND 0x7F) \<and>
    (\<forall>c. bit (data16 (w_datas w c)) 7 \<longrightarrow> w_datas w' c = w_datas w c) \<and> (\<forall>c. idx (w_datas w' c) = idx (w_datas w c))"
proof -
  obtain v1 w1 where 1: "calc_func a w = Some (v1, w1)" "same_setup (w_res w) (w_res w1)" "bit (data16 (w_datas w1 a)) 7"
    "v1 = data16 (w_datas w1 a) AND 0x7F" "\<forall>c. bit (data16 (w_datas w c)) 7 \<or> c \<noteq> a \<longrightarrow> w_datas w1 c = w_datas w c"
    "\<forall>c. idx (w_datas w1 c) = idx (w_datas w c)"
    using calc_func_law [OF assms] by blast
  obtain v2 w2 where 2: "calc_func b w1 = Some (v2, w2)" "same_setup (w_res w1) (w_res w2)" "bit (data16 (w_datas w2 b)) 7"
    "v2 = data16 (w_datas w2 b) AND 0x7F" "\<forall>c. bit (data16 (w_datas w1 c)) 7 \<or> c \<noteq> b \<longrightarrow> w_datas w2 c = w_datas w1 c"
    "\<forall>c. idx (w_datas w2 c) = idx (w_datas w1 c)"
    using calc_func_law [OF same_setup_ready [OF 1(2) assms]] by blast
  have "w_datas w2 a = w_datas w1 a" using 1(3) 2(5) by blast
  moreover have "\<forall>c. bit (data16 (w_datas w c)) 7 \<longrightarrow> w_datas w2 c = w_datas w c" using 1(5) 2(5) by metis
  ultimately show ?thesis using 1 2 same_setup_trans [OF 1(2) 2(2)] by (simp add: cmp_complex_def)
qed

interpretation complex_cmp: list_comparison cmp_complex
  "\<lambda>w. bench_ready (w_res w) \<and> same_setup r0 (w_res w) \<and> (\<forall>d. idx (w_datas w d) = i0 d)" "\<lambda>w d. bit (data16 (w_datas w d)) 7"
  "\<lambda>w d. sint (data16 (w_datas w d) AND 0x7F)"
proof unfold_locales
  fix w :: cm_world and a b v w'
  assume g: "bench_ready (w_res w) \<and> same_setup r0 (w_res w) \<and> (\<forall>d. idx (w_datas w d) = i0 d)"
  then have r: "bench_ready (w_res w)" by blast
  show "\<exists>v w'. cmp_complex a b w = Some (v, w')" using cmp_complex_law [OF r] by blast
  assume c: "cmp_complex a b w = Some (v, w')"
  note l = cmp_complex_law [OF r, of a b, unfolded c]
  show "bench_ready (w_res w') \<and> same_setup r0 (w_res w') \<and> (\<forall>d. idx (w_datas w' d) = i0 d)"
    using l g same_setup_ready [OF _ r] same_setup_trans [of r0 "w_res w" "w_res w'"] by auto
  show "bit (data16 (w_datas w' a)) 7 \<and> bit (data16 (w_datas w' b)) 7" using l by auto
  show "v \<le> 0 \<longleftrightarrow> sint (data16 (w_datas w' a) AND 0x7F) \<le> sint (data16 (w_datas w' b) AND 0x7F)" using l by auto
  show "bit (data16 (w_datas w' c)) 7 \<and> sint (data16 (w_datas w' c) AND 0x7F) = sint (data16 (w_datas w c) AND 0x7F)"
    if "bit (data16 (w_datas w c)) 7" for c using l that by auto
qed

lemma successively_key: "successively (\<lambda>a b. key a \<le> (key b :: int)) xs \<longleftrightarrow> sorted (map key xs)"
proof -
  have "transp (\<lambda>a b. key a \<le> key b)" by (auto intro: transpI)
  then show ?thesis by (simp add: successively_conv_sorted_wrt sorted_map)
qed

lemma mergesort_idx:
  assumes "lpath h p ns None" "distinct ns" "ns \<noteq> []"
  shows "\<exists>p' h' w' ns'. core_list_mergesort (cmp_idx res_null) h w p = Some (p', h', w') \<and> lpath h' p' ns' None \<and>
    mset ns' = mset ns \<and> sorted (map (\<lambda>n. sint (idx (w_datas w (l_info (h n))))) ns') \<and>
    (\<forall>d. idx (w_datas w' d) = idx (w_datas w d)) \<and> w_res w' = w_res w \<and>
    (\<forall>n. l_info (h' n) = l_info (h n)) \<and> (\<forall>n. n \<notin> set ns \<longrightarrow> h' n = h n)"
proof -
  obtain p' h' w' ns' where m: "core_list_mergesort (cmp_idx res_null) h w p = Some (p', h', w')" "lpath h' p' ns' None"
    "mset ns' = mset ns" "idx_cmp.extends (w_res w) w w'" "idx_cmp.ordered w' (infos h ns')" "\<forall>n. l_info (h' n) = l_info (h n)"
    "\<forall>n. n \<notin> set ns \<longrightarrow> h' n = h n"
    using idx_cmp.core_list_mergesort_sorts [OF refl assms] by blast
  have k: "\<forall>d. idx (w_datas w' d) = idx (w_datas w d)" "w_res w' = w_res w"
    using m(4) by (auto simp: idx_cmp.extends_def intro: signed_word_eqI)
  have "successively (\<lambda>a b. sint (idx (w_datas w a)) \<le> sint (idx (w_datas w b))) (infos h ns')"
    using m(5) k by (simp add: idx_cmp.le_in_def cong: successively_cong)
  then have "sorted (map (\<lambda>n. sint (idx (w_datas w (l_info (h n))))) ns')"
    unfolding successively_key infos_def by (simp add: comp_def)
  then show ?thesis using m k by blast
qed

lemma mergesort_value:
  assumes "bench_ready (w_res w)" "lpath h p ns None" "distinct ns" "ns \<noteq> []"
  shows "\<exists>p' h' w' ns'. core_list_mergesort cmp_complex h w p = Some (p', h', w') \<and> lpath h' p' ns' None \<and>
    mset ns' = mset ns \<and> sorted (map (\<lambda>n. sint (data16 (w_datas w' (l_info (h n))) AND 0x7F)) ns') \<and>
    bench_ready (w_res w') \<and> same_setup (w_res w) (w_res w') \<and>
    (\<forall>d. idx (w_datas w' d) = idx (w_datas w d)) \<and> (\<forall>n. l_info (h' n) = l_info (h n)) \<and> (\<forall>n. n \<notin> set ns \<longrightarrow> h' n = h n)"
proof -
  obtain p' h' w' ns' where m: "core_list_mergesort cmp_complex h w p = Some (p', h', w')" "lpath h' p' ns' None"
    "mset ns' = mset ns" "complex_cmp.extends (w_res w) (\<lambda>d. idx (w_datas w d)) w w'" "complex_cmp.ordered w' (infos h ns')" "\<forall>n. l_info (h' n) = l_info (h n)"
    "\<forall>n. n \<notin> set ns \<longrightarrow> h' n = h n"
    using complex_cmp.core_list_mergesort_sorts [of w "w_res w" "\<lambda>d. idx (w_datas w d)", OF _ assms(2-4)] assms(1) by auto
  have "successively (\<lambda>a b. sint (data16 (w_datas w' a) AND 0x7F) \<le> sint (data16 (w_datas w' b) AND 0x7F)) (infos h ns')"
    using m(5) by (rule successively_mono) (simp add: complex_cmp.le_in_def)
  then have "sorted (map (\<lambda>n. sint (data16 (w_datas w' (l_info (h n))) AND 0x7F)) ns')"
    unfolding successively_key infos_def by (simp add: comp_def)
  moreover have "bench_ready (w_res w')" "same_setup (w_res w) (w_res w')" "\<forall>d. idx (w_datas w' d) = idx (w_datas w d)"
    using m(4) by (simp_all add: complex_cmp.extends_def)
  ultimately show ?thesis using m by blast
qed

subsection \<open>Properties\<close>

lemma mergesort_empty: "core_list_mergesort cmp h w None = None"
  by (simp add: core_list_mergesort_def mergesort_loop.simps merge_pass.simps)

text \<open>C10.  The in-place merge sort by index terminates and sorts: from any finite list of at least one
  cell it returns a list of exactly the same cells, ordered by the index of their data items; it
  relinks the cells only, leaving their data pointers and all other cells alone.  The empty list,
  which a comment of the code allows, makes it write through a null pointer (\<open>None\<close>).\<close>

theorem core_list_mergesort_by_idx:
  assumes "lpath h p ns None" "distinct ns"
  shows "if ns = [] then core_list_mergesort (cmp_idx res_null) h w p = None
    else \<exists>p' h' w' ns'. core_list_mergesort (cmp_idx res_null) h w p = Some (p', h', w') \<and> lpath h' p' ns' None \<and>
      mset ns' = mset ns \<and> sorted (map (\<lambda>n. sint (idx (w_datas w (l_info (h n))))) ns') \<and>
      (\<forall>n. l_info (h' n) = l_info (h n)) \<and> (\<forall>n. n \<notin> set ns \<longrightarrow> h' n = h n)"
proof (cases "ns = []")
  case False
  then show ?thesis using mergesort_idx [OF assms, of res_null w] unfolding if_not_P [OF False] by blast
qed (use assms(1) in \<open>simp add: mergesort_empty\<close>)

text \<open>Two cells, out of order, and a small world for the witnesses.\<close>

definition two_cells :: heads where
  "two_cells n = (if n = 0 then \<lparr>l_next = Some 1, l_info = 10\<rparr> else \<lparr>l_next = None, l_info = 11\<rparr>)"

definition small_world :: cm_world where
  "small_world = \<lparr>w_datas = (\<lambda>d. \<lparr>data16 = 0, idx = (if d = 10 then 5 else 3)\<rparr>),
     w_res = \<lparr>r_seed1 = 0, r_seed2 = 0, r_seed3 = 0, r_state = [0, 0], r_size = 2, r_iterations = 1, r_list = Some 0,
       r_mat = \<lparr>mp_N = 0, mp_A = [], mp_B = [], mp_C = []\<rparr>, r_crc = 0, r_crclist = 0, r_crcmatrix = 0, r_crcstate = 0\<rparr>\<rparr>"

lemma two_cells_path: "lpath two_cells (Some 0) [0, 1] None" "distinct [0 :: nat, 1]" "[0 :: nat, 1] \<noteq> []"
  by (simp_all add: two_cells_def)

theorem core_list_mergesort_by_idx_witness:
  "\<exists>p' h' w'. core_list_mergesort (cmp_idx True) two_cells small_world (Some 0) = Some (p', h', w') \<and> lpath h' p' [1, 0] None"
proof -
  obtain p' h' w' ns' where m: "core_list_mergesort (cmp_idx True) two_cells small_world (Some 0) = Some (p', h', w')"
    "lpath h' p' ns' None" "mset ns' = mset [0, 1]" "sorted (map (\<lambda>n. sint (idx (w_datas small_world (l_info (two_cells n))))) ns')"
    using core_list_mergesort_by_idx [OF two_cells_path(1,2), of True small_world] by auto
  have "length ns' = 2" using mset_eq_length [OF m(3)] by simp
  then obtain x y where "ns' = [x, y]" by (auto simp: numeral_2_eq_2 length_Suc_conv)
  then have "ns' = [1, 0]" using m(3,4) by (auto simp: add_eq_conv_ex small_world_def two_cells_def split: if_splits)
  then show ?thesis using m(1,2) by blast
qed

text \<open>C23.  Sorting by value works although the comparison runs the other two benchmarks and caches its
  results in the items: the sort ends, permutes the cells, and leaves them ordered by the cached
  values; the input block of the state machine and the seeds are as before.\<close>

theorem core_list_mergesort_by_value:
  assumes "bench_ready (w_res w)" "lpath h p ns None" "distinct ns" "ns \<noteq> []"
  shows "\<exists>p' h' w' ns'. core_list_mergesort cmp_complex h w p = Some (p', h', w') \<and> lpath h' p' ns' None \<and>
    mset ns' = mset ns \<and> sorted (map (\<lambda>n. sint (data16 (w_datas w' (l_info (h n))) AND 0x7F)) ns') \<and>
    bench_ready (w_res w') \<and> (\<forall>n. l_info (h' n) = l_info (h n)) \<and> (\<forall>n. n \<notin> set ns \<longrightarrow> h' n = h n)"
  using mergesort_value [OF assms] by blast

theorem core_list_mergesort_by_value_witness:
  "bench_ready (w_res small_world) \<and>
   (\<exists>p' h' w' ns'. core_list_mergesort cmp_complex two_cells small_world (Some 0) = Some (p', h', w') \<and> lpath h' p' ns' None \<and>
     mset ns' = mset [0, 1])"
proof -
  have r: "bench_ready (w_res small_world)" by (simp add: bench_ready_def small_world_def)
  then show ?thesis using core_list_mergesort_by_value [OF r two_cells_path] by blast
qed

text \<open>C24.  Undoing a removal restores the list exactly: relinking the removed cell in front of the modified one
  gives back the heap from before, cell for cell.\<close>

theorem undo_remove_restores:
  assumes "l_next (h a) = Some b" "a \<noteq> b"
  shows "\<exists>h'. core_list_remove (Some a) h = Some (b, h') \<and> core_list_undo_remove b (Some a) h' = Some (b, h)"
proof -
  obtain h' where h': "core_list_remove (Some a) h = Some (b, h')" using assms(1) by (simp add: core_list_remove_def)
  then show ?thesis using undo_remove_eq [OF assms h'] by blast
qed

theorem undo_remove_restores_witness:
  "\<exists>h'. core_list_remove (Some 0) two_cells = Some (1, h') \<and> core_list_undo_remove 1 (Some 0) h' = Some (1, two_cells)"
  by (rule undo_remove_restores) (simp_all add: two_cells_def)

end
