(* ===== verification/CM_Bench.thy ===== *)
theory CM_Bench
  imports CM_List
begin

text \<open>
  The CoreMark benchmark as a whole: the list benchmark \<open>core_bench_list\<close> (\<open>core_list_join.c\<close>), which searches,
  reverses and rearranges the list, sorts it through the other two benchmarks, removes and restores a cell
  and sorts it back; and the driver \<open>iterate\<close> (\<open>core_main.c\<close>).  The driver is shown to return for every
  iteration count and to leave the list, the input block and the seeds ready for the next run.
\<close>

subsection \<open>The list benchmark\<close>

text \<open>The head of the list is followed by the cell after the found one.\<close>

definition cache_next :: "heads \<Rightarrow> nat \<Rightarrow> nat \<Rightarrow> heads" where
  "cache_next h lst this_find =
     (case l_next (h this_find) of
        None \<Rightarrow> h
      | Some finder \<Rightarrow>
          (let h = set_next h this_find (l_next (h finder));
               h = set_next h finder (l_next (h lst))
           in set_next h lst (Some finder)))"

record find_state =
  f_heads :: heads
  f_list :: "nat option"
  f_idx :: u16
  f_ret :: u16
  f_found :: u16
  f_missed :: u16

definition find_step :: "cm_world \<Rightarrow> nat \<Rightarrow> find_state \<Rightarrow> find_state option" where
  "find_step w i f =
     do {
       let info = \<lparr>data16 = of_nat i AND 0xFF, idx = f_idx f\<rparr>;
       this_find \<leftarrow> core_list_find (f_list f) info (f_heads f) w;
       (lst, h) \<leftarrow> core_list_reverse (f_list f) (f_heads f);
       head \<leftarrow> lst;
       f \<leftarrow> (case this_find of
          None \<Rightarrow> do {
            nxt \<leftarrow> l_next (h head);
            Some (f\<lparr>f_heads := h, f_list := lst, f_missed := f_missed f + 1,
              f_ret := f_ret f + (signed_drop_bit 8 (data16 (w_datas w (l_info (h nxt)))) AND 1)\<rparr>)
          }
        | Some t \<Rightarrow>
            (let d = data16 (w_datas w (l_info (h t)));
                 ret = (if d AND 1 \<noteq> 0 then f_ret f + (signed_drop_bit 9 d AND 1) else f_ret f)
             in Some (f\<lparr>f_heads := cache_next h head t, f_list := lst, f_found := f_found f + 1, f_ret := ret\<rparr>)));
       Some (if 0 \<le> sint (f_idx f) then f\<lparr>f_idx := f_idx f + 1\<rparr> else f)
     }"

fun find_steps :: "cm_world \<Rightarrow> nat \<Rightarrow> nat \<Rightarrow> find_state \<Rightarrow> find_state option" where
  "find_steps w i 0 f = Some f"
| "find_steps w i (Suc n) f = do { f \<leftarrow> find_step w i f; find_steps w (Suc i) n f }"

text \<open>\<open>while (finder) { retval = crc16(list->info->data16, retval); finder = finder->next; }\<close>\<close>

partial_function (option) crc_loop :: "u16 \<Rightarrow> heads \<Rightarrow> nat option \<Rightarrow> u16 \<Rightarrow> u16 option" where
  "crc_loop d h finder retval =
     (case finder of None \<Rightarrow> Some retval | Some a \<Rightarrow> crc_loop d h (l_next (h a)) (crc16 d retval))"

text \<open>When the search loop does not run, \<open>info.data16\<close> is read uninitialised later; that is the result \<open>None\<close>.\<close>

definition core_bench_list :: "u16 \<Rightarrow> heads \<Rightarrow> cm_world \<Rightarrow> (u16 \<times> heads \<times> cm_world) option" where
  "core_bench_list finder_idx h w =
     do {
       let find_num = nat (sint (r_seed3 (w_res w)));
       f \<leftarrow> find_steps w 0 find_num
         \<lparr>f_heads = h, f_list = r_list (w_res w), f_idx = finder_idx, f_ret = 0, f_found = 0, f_missed = 0\<rparr>;
       let retval = f_ret f + (f_found f * 4 - f_missed f);
       last_i \<leftarrow> (if find_num = 0 then None else Some (find_num - 1));
       let info = \<lparr>data16 = of_nat last_i AND 0xFF, idx = f_idx f\<rparr>;
       (lst, h, w) \<leftarrow>
         (if 0 < sint finder_idx then core_list_mergesort cmp_complex (f_heads f) w (f_list f)
          else Some (f_list f, f_heads f, w));
       head \<leftarrow> lst;
       (remover, h) \<leftarrow> core_list_remove (l_next (h head)) h;
       finder \<leftarrow> core_list_find lst info h w;
       let finder = (case finder of None \<Rightarrow> l_next (h head) | Some a \<Rightarrow> Some a);
       retval \<leftarrow> crc_loop (data16 (w_datas w (l_info (h head)))) h finder retval;
       (remover, h) \<leftarrow> core_list_undo_remove remover (l_next (h head)) h;
       (lst, h, w) \<leftarrow> core_list_mergesort (cmp_idx True) h w lst;
       head \<leftarrow> lst;
       retval \<leftarrow> crc_loop (data16 (w_datas w (l_info (h head)))) h (l_next (h head)) retval;
       Some (retval, h, w)
     }"

subsection \<open>The driver\<close>

definition set_res :: "(core_results \<Rightarrow> core_results) \<Rightarrow> cm_world \<Rightarrow> cm_world" where
  "set_res f w = w\<lparr>w_res := f (w_res w)\<rparr>"

definition iterate_step :: "nat \<Rightarrow> heads \<Rightarrow> cm_world \<Rightarrow> (heads \<times> cm_world) option" where
  "iterate_step i h w =
     do {
       (crc, h, w) \<leftarrow> core_bench_list 1 h w;
       let w = set_res (\<lambda>r. r\<lparr>r_crc := crcu16 crc (r_crc r)\<rparr>) w;
       (crc, h, w) \<leftarrow> core_bench_list (- 1) h w;
       let w = set_res (\<lambda>r. r\<lparr>r_crc := crcu16 crc (r_crc r)\<rparr>) w;
       Some (h, if i = 0 then set_res (\<lambda>r. r\<lparr>r_crclist := r_crc r\<rparr>) w else w)
     }"

fun iterate_steps :: "nat \<Rightarrow> nat \<Rightarrow> heads \<Rightarrow> cm_world \<Rightarrow> (heads \<times> cm_world) option" where
  "iterate_steps i 0 h w = Some (h, w)"
| "iterate_steps i (Suc n) h w = do { (h, w) \<leftarrow> iterate_step i h w; iterate_steps (Suc i) n h w }"

definition iterate :: "heads \<Rightarrow> cm_world \<Rightarrow> (heads \<times> cm_world) option" where
  "iterate h w =
     iterate_steps 0 (unat (r_iterations (w_res w))) h
       (set_res (\<lambda>r. r\<lparr>r_crc := 0, r_crclist := 0, r_crcmatrix := 0, r_crcstate := 0\<rparr>) w)"

subsection \<open>The list through the benchmark\<close>

text \<open>The heap \<open>h\<close> holds, from \<open>p\<close> on, a list of exactly the cells \<open>ns\<close>, with the data pointers they have in \<open>h0\<close>.\<close>

definition holds_cells :: "heads \<Rightarrow> nat list \<Rightarrow> heads \<Rightarrow> nat option \<Rightarrow> bool" where
  "holds_cells h0 ns h p \<longleftrightarrow> (\<exists>ns'. lpath h p ns' None \<and> mset ns' = mset ns \<and>
     (\<forall>n. l_info (h n) = l_info (h0 n)) \<and> (\<forall>n. n \<notin> set ns \<longrightarrow> h n = h0 n))"

lemma holds_cellsI:
  "lpath h p ns' None \<Longrightarrow> mset ns' = mset ns \<Longrightarrow> \<forall>n. l_info (h n) = l_info (h0 n) \<Longrightarrow> \<forall>n. n \<notin> set ns \<longrightarrow> h n = h0 n \<Longrightarrow>
   holds_cells h0 ns h p"
  by (auto simp: holds_cells_def)

lemma holds_cells_trans:
  assumes "holds_cells h0 ns h p" "lpath h p ns1 None" "holds_cells h ns1 h' p'"
  shows "holds_cells h0 ns h' p'"
proof -
  obtain ns0 where 0: "lpath h p ns0 None" "mset ns0 = mset ns" "\<forall>n. l_info (h n) = l_info (h0 n)" "\<forall>n. n \<notin> set ns \<longrightarrow> h n = h0 n"
    using assms(1) unfolding holds_cells_def by blast
  have "ns1 = ns0" using assms(2) 0(1)
  proof (induction ns0 arbitrary: ns1 p)
    case Nil
    then show ?case by (cases ns1) auto
  next
    case (Cons a ns0)
    then show ?case by (cases ns1) auto
  qed
  then have "set ns1 = set ns" "mset ns1 = mset ns" using 0(2) mset_eq_setD by auto
  then show ?thesis using assms(3) 0 unfolding holds_cells_def by auto
qed

lemma cache_next_law:
  assumes p: "lpath h (Some a) ns None" and d: "distinct ns" and t: "t \<in> set ns"
  shows "holds_cells h ns (cache_next h a t) (Some a)"
proof (cases "l_next (h t)")
  case None
  then show ?thesis using p by (simp add: cache_next_def holds_cells_def) blast
next
  case (Some f)
  obtain rest where ns: "ns = a # rest" using p t by (cases ns) auto
  obtain xs ys where "ns = xs @ t # ys" using t by (meson split_list)
  then obtain zs where split: "ns = xs @ t # f # zs" "lpath h (Some a) xs (Some t)" "lpath h (l_next (h f)) zs None"
    using p Some by (cases ys) (auto simp: lpath_append)
  show ?thesis
  proof (cases xs)
    case Nil
    then have ta: "t = a" using ns split(1) by simp
    then have "cache_next h a t = h"
      using Some split d Nil by (auto simp: cache_next_def Let_def set_next_def fun_eq_iff)
    then show ?thesis using p by (auto simp: holds_cells_def)
  next
    case (Cons b xs')
    then have x: "xs = a # xs'" using ns split(1) by simp
    let ?h = "cache_next h a t"
    have df: "a \<noteq> t" "a \<noteq> f" "t \<noteq> f" "a \<notin> set xs'" "t \<notin> set xs'" "f \<notin> set xs'" "a \<notin> set zs" "t \<notin> set zs" "f \<notin> set zs"
      using d split(1) x by auto
    have h: "?h = set_next (set_next (set_next h t (l_next (h f))) f (l_next (h a))) a (Some f)"
      using Some df by (simp add: cache_next_def Let_def)
    have "lpath h (l_next (h a)) xs' (Some t)" using split(2) x by simp
    then have "lpath ?h (Some a) (a # f # xs' @ t # zs) None"
      unfolding h using df split(3) by (auto simp: lpath_append)
    moreover have "mset (a # f # xs' @ t # zs) = mset ns" using split(1) x by simp
    moreover have "\<forall>n. n \<notin> set ns \<longrightarrow> ?h n = h n" unfolding h using split(1) x by auto
    moreover have "\<forall>n. l_info (?h n) = l_info (h n)" by (simp add: h)
    ultimately show ?thesis by (intro holds_cellsI [where ns' = "a # f # xs' @ t # zs"])
  qed
qed

lemma core_list_find_lpath:
  assumes "lpath h p ns None"
  shows "\<exists>g. core_list_find p info h w = Some (find g ns)"
  unfolding core_list_find_def find_loop_lpath [OF assms] by (cases "0 \<le> sint (idx info)") auto

lemma find_step_law:
  assumes h: "holds_cells h0 ns (f_heads f) (f_list f)" and d: "distinct ns" and l: "2 \<le> length ns"
  shows "\<exists>f'. find_step w i f = Some f' \<and> holds_cells h0 ns (f_heads f') (f_list f')"
proof -
  obtain ns1 where 1: "lpath (f_heads f) (f_list f) ns1 None" "mset ns1 = mset ns" using h unfolding holds_cells_def by blast
  have d1: "distinct ns1" "2 \<le> length ns1"
    using mset_eq_imp_distinct_iff [OF 1(2)] mset_eq_length [OF 1(2)] d l by simp_all
  define info where "info = \<lparr>data16 = of_nat i AND 0xFF, idx = f_idx f\<rparr>"
  obtain g where fd: "core_list_find (f_list f) info (f_heads f) w = Some (find g ns1)"
    using core_list_find_lpath [OF 1(1)] by blast
  obtain lst h1 where rv: "core_list_reverse (f_list f) (f_heads f) = Some (lst, h1)" "lpath h1 lst (rev ns1) None"
    "\<forall>n. l_info (h1 n) = l_info (f_heads f n)" "\<forall>n. n \<notin> set ns1 \<longrightarrow> h1 n = f_heads f n"
    using core_list_reverse_lpath [OF 1(1) d1(1)] by blast
  obtain a b rest where r: "rev ns1 = a # b # rest" using d1(2) by (cases "rev ns1" rule: remdups_adj.cases) (auto dest: arg_cong [of _ _ length])
  then have lst: "lst = Some a" "l_next (h1 a) = Some b" using rv(2) by auto
  have h1: "holds_cells (f_heads f) ns1 h1 lst" using rv(2-4) by (intro holds_cellsI [where ns' = "rev ns1"]) simp_all
  have c: "holds_cells (f_heads f) ns1 (cache_next h1 a t) lst" if "t \<in> set ns1" for t
    by (rule holds_cells_trans [OF h1 rv(2)], unfold lst(1), rule cache_next_law [OF rv(2) [unfolded lst(1)]]) (use d1 that in simp_all)
  note comp = holds_cells_trans [OF h 1(1)]
  show ?thesis
  proof (cases "find g ns1")
    case None
    then show ?thesis using fd rv(1) lst comp [OF h1] by (auto simp: find_step_def info_def [symmetric] Let_def)
  next
    case (Some t)
    then have "t \<in> set ns1" by (auto simp: find_Some_iff)
    then show ?thesis using fd rv(1) lst Some comp [OF c] by (auto simp: find_step_def info_def [symmetric] Let_def)
  qed
qed

lemma find_steps_law:
  assumes "holds_cells h0 ns (f_heads f) (f_list f)" "distinct ns" "2 \<le> length ns"
  shows "\<exists>f'. find_steps w i n f = Some f' \<and> holds_cells h0 ns (f_heads f') (f_list f')"
  using assms(1)
proof (induction n arbitrary: i f)
  case (Suc n)
  obtain f1 where f1: "find_step w i f = Some f1" "holds_cells h0 ns (f_heads f1) (f_list f1)"
    using find_step_law [OF Suc.prems assms(2,3)] by blast
  then show ?case using Suc.IH [OF f1(2), of "Suc i"] by simp
qed simp

lemma crc_loop_lpath: "lpath h p ns None \<Longrightarrow> \<exists>c. crc_loop d h p r = Some c"
  by (induction ns arbitrary: p r) (subst crc_loop.simps, auto)+

lemma lpath_suffix: "lpath h p ns None \<Longrightarrow> x \<in> set ns \<Longrightarrow> \<exists>ms. lpath h (Some x) ms None"
  by (metis (no_types, lifting) lpath.simps(2) lpath_append split_list)

lemma holds_cells_path:
  assumes "holds_cells h0 ns h p" "distinct ns"
  obtains ns' where "lpath h p ns' None" "mset ns' = mset ns" "distinct ns'" "length ns' = length ns"
  using assms mset_eq_imp_distinct_iff mset_eq_length unfolding holds_cells_def by metis

text \<open>The middle of the benchmark: removing a cell, searching, and putting it back leaves the heap as it was.\<close>

lemma remove_search_undo:
  assumes p: "lpath h lst ns None" and d: "distinct ns" and l: "3 \<le> length ns"
  shows "\<exists>a h3 c. lst = Some a \<and> core_list_remove (l_next (h a)) h = Some (c, h3) \<and>
    (\<exists>x. core_list_find lst info h3 w = Some x \<and>
      (\<forall>dat r. \<exists>crc. crc_loop dat h3 (case x of None \<Rightarrow> l_next (h3 a) | Some y \<Rightarrow> Some y) r = Some crc)) \<and>
    core_list_undo_remove c (l_next (h3 a)) h3 = Some (c, h)"
proof -
  obtain a b c rest where ns: "ns = a # b # c # rest"
    using l by (cases ns rule: remdups_adj.cases; cases "drop 2 ns") auto
  then have n: "lst = Some a" "l_next (h a) = Some b" "l_next (h b) = Some c" "lpath h (Some b) (b # c # rest) None" using p by auto
  obtain h3 where h3: "core_list_remove (Some b) h = Some (c, h3)" "lpath h3 (Some b) (b # rest) None"
    "\<forall>n. n \<notin> {b, c} \<longrightarrow> h3 n = h n"
    using remove_lpath [OF n(4)] d ns by auto
  have a: "h3 a = h a" using h3(3) d ns by auto
  have p3: "lpath h3 lst (a # b # rest) None" using h3(2) a n by simp
  obtain g where g: "core_list_find lst info h3 w = Some (find g (a # b # rest))" using core_list_find_lpath [OF p3] by blast
  have "\<forall>dat r. \<exists>crc. crc_loop dat h3 (case find g (a # b # rest) of None \<Rightarrow> l_next (h3 a) | Some y \<Rightarrow> Some y) r = Some crc"
  proof (cases "find g (a # b # rest)")
    case None
    then show ?thesis using crc_loop_lpath [OF h3(2)] a n(2) by simp
  next
    case (Some y)
    then have "y \<in> set (a # b # rest)" by (metis find_Some_iff nth_mem)
    then obtain ms where "lpath h3 (Some y) ms None" using lpath_suffix [OF p3] by blast
    then show ?thesis using crc_loop_lpath Some by simp
  qed
  moreover have "core_list_undo_remove c (Some b) h3 = Some (c, h)" using undo_remove_eq [OF n(3) _ h3(1)] d ns by auto
  ultimately show ?thesis using n g h3(1) a by auto
qed

lemma core_bench_list_law:
  assumes p: "lpath h (r_list (w_res w)) ns None" and d: "distinct ns" and l: "3 \<le> length ns"
    and ready: "bench_ready (w_res w)" and s3: "0 < sint (r_seed3 (w_res w))"
  shows "\<exists>crc h' w' p' ns'. core_bench_list fi h w = Some (crc, h', w') \<and> same_setup (w_res w) (w_res w') \<and>
    (\<forall>d. idx (w_datas w' d) = idx (w_datas w d)) \<and> lpath h' p' ns' None \<and> mset ns' = mset ns \<and>
    sorted (map (\<lambda>n. sint (idx (w_datas w (l_info (h n))))) ns') \<and>
    (\<forall>n. l_info (h' n) = l_info (h n)) \<and> (\<forall>n. n \<notin> set ns \<longrightarrow> h' n = h n)"
proof -
  define f0 where "f0 = \<lparr>f_heads = h, f_list = r_list (w_res w), f_idx = fi, f_ret = 0, f_found = 0, f_missed = 0\<rparr>"
  define k where "k = nat (sint (r_seed3 (w_res w)))"
  have k: "k \<noteq> 0" using s3 by (simp add: k_def)
  have "holds_cells h ns (f_heads f0) (f_list f0)" using p by (auto simp: f0_def holds_cells_def)
  then obtain f where f: "find_steps w 0 k f0 = Some f" "holds_cells h ns (f_heads f) (f_list f)"
    using find_steps_law [of h ns f0 w 0 k] d l by auto
  obtain n1 where n1: "lpath (f_heads f) (f_list f) n1 None" "mset n1 = mset ns" "distinct n1" "length n1 = length ns"
    using holds_cells_path [OF f(2) d] .
  define srt where "srt = (if 0 < sint fi then core_list_mergesort cmp_complex (f_heads f) w (f_list f) else Some (f_list f, f_heads f, w))"
  have "\<exists>lst h2 w2. srt = Some (lst, h2, w2) \<and> holds_cells (f_heads f) n1 h2 lst \<and> same_setup (w_res w) (w_res w2) \<and>
      (\<forall>d. idx (w_datas w2 d) = idx (w_datas w d))"
  proof (cases "0 < sint fi")
    case True
    then show ?thesis using mergesort_value [OF ready n1(1,3)] n1(4) l unfolding srt_def holds_cells_def by fastforce
  next
    case False
    then show ?thesis using n1(1) by (auto simp: srt_def holds_cells_def)
  qed
  then obtain lst h2 w2 where m: "srt = Some (lst, h2, w2)" "holds_cells (f_heads f) n1 h2 lst" "same_setup (w_res w) (w_res w2)"
    "\<forall>d. idx (w_datas w2 d) = idx (w_datas w d)" by blast
  have hc: "holds_cells h ns h2 lst" by (rule holds_cells_trans [OF f(2) n1(1) m(2)])
  then obtain n2 where n2: "lpath h2 lst n2 None" "mset n2 = mset ns" "distinct n2" "length n2 = length ns"
    using holds_cells_path [OF _ d] by metis
  have i2: "\<forall>n. l_info (h2 n) = l_info (h n)" "\<forall>n. n \<notin> set ns \<longrightarrow> h2 n = h n" using hc by (auto simp: holds_cells_def)
  define info where "info = \<lparr>data16 = of_nat (k - 1) AND 0xFF, idx = f_idx f\<rparr>"
  define rv where "rv = f_ret f + (f_found f * 4 - f_missed f)"
  have l2: "3 \<le> length n2" using n2(4) l by simp
  have ne: "n2 \<noteq> []" using l2 by auto
  obtain a where a: "lst = Some a" using n2(1) ne by (cases n2) auto
  obtain h3 c x crc where u: "core_list_remove (l_next (h2 a)) h2 = Some (c, h3)" "core_list_find lst info h3 w2 = Some x"
    "crc_loop (data16 (w_datas w2 (l_info (h3 a)))) h3 (case x of None \<Rightarrow> l_next (h3 a) | Some y \<Rightarrow> Some y) rv = Some crc"
    "core_list_undo_remove c (l_next (h3 a)) h3 = Some (c, h2)"
    using remove_search_undo [OF n2(1,3) l2, of info w2] a by fastforce
  obtain p4 h4 w4 n4 where s: "core_list_mergesort (cmp_idx True) h2 w2 lst = Some (p4, h4, w4)" "lpath h4 p4 n4 None" "mset n4 = mset n2"
    "sorted (map (\<lambda>n. sint (idx (w_datas w2 (l_info (h2 n))))) n4)" "\<forall>d. idx (w_datas w4 d) = idx (w_datas w2 d)" "w_res w4 = w_res w2"
    "\<forall>n. l_info (h4 n) = l_info (h2 n)" "\<forall>n. n \<notin> set n2 \<longrightarrow> h4 n = h2 n"
    using mergesort_idx [OF n2(1,3) ne, of True w2] by blast
  obtain e n5 where e: "p4 = Some e" "lpath h4 (l_next (h4 e)) n5 None"
    using s(2,3) ne by (cases n4) auto
  obtain crc2 where c2: "crc_loop (data16 (w_datas w4 (l_info (h4 e)))) h4 (l_next (h4 e)) crc = Some crc2" using crc_loop_lpath [OF e(2)] by blast
  have "core_bench_list fi h w = Some (crc2, h4, w4)"
    unfolding core_bench_list_def f0_def [symmetric] k_def [symmetric] Let_def srt_def [symmetric]
    using f(1) k m(1) a u s(1) e(1) c2 unfolding info_def rv_def srt_def by (simp add: Let_def)
  moreover have "set n2 = set ns" using n2(2) by (rule mset_eq_setD)
  ultimately show ?thesis using s n2(2) m(3,4) i2 by (intro exI [of _ crc2] exI [of _ h4] exI [of _ w4] exI [of _ p4] exI [of _ n4]) auto
qed

subsection \<open>The driver keeps the benchmark ready\<close>

text \<open>The list starts at the recorded head, whose index is below all others, and has at least three cells.\<close>

definition list_ready :: "heads \<Rightarrow> cm_world \<Rightarrow> nat list \<Rightarrow> bool" where
  "list_ready h w ns \<longleftrightarrow> lpath h (r_list (w_res w)) ns None \<and> distinct ns \<and> 3 \<le> length ns \<and>
     (\<forall>n \<in> set (tl ns). sint (idx (w_datas w (l_info (h (hd ns))))) < sint (idx (w_datas w (l_info (h n)))))"

lemma least_stays_first:
  fixes key :: "'a \<Rightarrow> int"
  assumes "mset ys = mset (x # xs)" "\<forall>n \<in> set xs. key x < key n" "sorted (map key ys)"
  shows "\<exists>zs. ys = x # zs \<and> mset zs = mset xs"
proof (cases ys)
  case (Cons y zs)
  have "x \<in> set ys" "y \<in> set (x # xs)" using mset_eq_setD [OF assms(1)] Cons by auto
  then have "key y \<le> key x" using assms(3) Cons by (cases "x = y") auto
  then have "y = x" using \<open>y \<in> set (x # xs)\<close> assms(2) by fastforce
  then show ?thesis using Cons assms(1) by simp
qed (use assms(1) in simp)

lemma core_bench_list_ready:
  assumes l: "list_ready h w ns" and r: "bench_ready (w_res w)" "0 < sint (r_seed3 (w_res w))"
  shows "\<exists>crc h' w' ns'. core_bench_list fi h w = Some (crc, h', w') \<and> list_ready h' w' ns' \<and> mset ns' = mset ns \<and>
    same_setup (w_res w) (w_res w')"
proof -
  define key where "key n = sint (idx (w_datas w (l_info (h n))))" for n
  have p: "lpath h (r_list (w_res w)) ns None" "distinct ns" "3 \<le> length ns" using l by (simp_all add: list_ready_def)
  obtain a as where ns: "ns = a # as" using p(3) by (cases ns) auto
  obtain crc h' w' p' ns' where b: "core_bench_list fi h w = Some (crc, h', w')" "same_setup (w_res w) (w_res w')"
    "\<forall>d. idx (w_datas w' d) = idx (w_datas w d)" "lpath h' p' ns' None" "mset ns' = mset ns" "sorted (map key ns')"
    "\<forall>n. l_info (h' n) = l_info (h n)"
    using core_bench_list_law [OF p r, of fi] unfolding key_def by blast
  have "\<forall>n \<in> set as. key a < key n" using l ns by (simp add: list_ready_def key_def)
  then obtain bs where bs: "ns' = a # bs" "mset bs = mset as" using least_stays_first [of ns' a as key] b(5,6) ns by auto
  have "r_list (w_res w') = p'" using b(2,4) bs(1) p(1) ns by (simp add: same_setup_def)
  moreover have "set bs = set as" using bs(2) by (rule mset_eq_setD)
  ultimately have "list_ready h' w' ns'"
    using l b ns bs mset_eq_imp_distinct_iff [OF b(5)] mset_eq_length [OF b(5)] by (simp add: list_ready_def)
  then show ?thesis using b by blast
qed

lemma set_res_simps [simp]: "w_res (set_res f w) = f (w_res w)" "w_datas (set_res f w) = w_datas w"
  by (simp_all add: set_res_def)

lemma list_ready_set_res: "r_list (f (w_res w)) = r_list (w_res w) \<Longrightarrow> list_ready h (set_res f w) ns = list_ready h w ns"
  by (simp add: list_ready_def)

lemma same_setup_update [simp]:
  "same_setup r (r'\<lparr>r_crc := c\<rparr>) = same_setup r r'" "same_setup r (r'\<lparr>r_crclist := c\<rparr>) = same_setup r r'"
  "same_setup r (r'\<lparr>r_crcmatrix := c\<rparr>) = same_setup r r'" "same_setup r (r'\<lparr>r_crcstate := c\<rparr>) = same_setup r r'"
  by (simp_all add: same_setup_def)

lemma iterate_step_ready:
  assumes l: "list_ready h w ns" and r: "bench_ready (w_res w)" "0 < sint (r_seed3 (w_res w))"
  shows "\<exists>h' w' ns'. iterate_step i h w = Some (h', w') \<and> list_ready h' w' ns' \<and> mset ns' = mset ns \<and> same_setup (w_res w) (w_res w')"
proof -
  obtain c1 h1 w1 ns1 where 1: "core_bench_list 1 h w = Some (c1, h1, w1)" "list_ready h1 w1 ns1" "mset ns1 = mset ns" "same_setup (w_res w) (w_res w1)"
    using core_bench_list_ready [OF assms] by blast
  define v where "v = set_res (\<lambda>r. r\<lparr>r_crc := crcu16 c1 (r_crc r)\<rparr>) w1"
  have v: "list_ready h1 v ns1" "same_setup (w_res w) (w_res v)" using 1 by (simp_all add: v_def list_ready_set_res)
  then have "bench_ready (w_res v)" "0 < sint (r_seed3 (w_res v))" using r same_setup_ready [OF v(2)] by (simp_all add: same_setup_def)
  then obtain c2 h2 w2 ns2 where 2: "core_bench_list (- 1) h1 v = Some (c2, h2, w2)" "list_ready h2 w2 ns2" "mset ns2 = mset ns1"
    "same_setup (w_res v) (w_res w2)" using core_bench_list_ready [OF v(1)] by blast
  have "same_setup (w_res w) (w_res w2)" using v(2) 2(4) by (rule same_setup_trans)
  then show ?thesis using 1 2 unfolding iterate_step_def v_def by (auto simp: Let_def list_ready_set_res)
qed

lemma iterate_steps_ready:
  assumes "list_ready h w ns" "bench_ready (w_res w)" "0 < sint (r_seed3 (w_res w))"
  shows "\<exists>h' w' ns'. iterate_steps i n h w = Some (h', w') \<and> list_ready h' w' ns' \<and> mset ns' = mset ns \<and> same_setup (w_res w) (w_res w')"
  using assms
proof (induction n arbitrary: i h w ns)
  case (Suc n)
  obtain h1 w1 ns1 where 1: "iterate_step i h w = Some (h1, w1)" "list_ready h1 w1 ns1" "mset ns1 = mset ns" "same_setup (w_res w) (w_res w1)"
    using iterate_step_ready [OF Suc.prems] by blast
  have "bench_ready (w_res w1)" "0 < sint (r_seed3 (w_res w1))"
    using Suc.prems(2,3) same_setup_ready [OF 1(4)] 1(4) by (simp_all add: same_setup_def)
  then obtain h2 w2 ns2 where "iterate_steps (Suc i) n h1 w1 = Some (h2, w2)" "list_ready h2 w2 ns2" "mset ns2 = mset ns1" "same_setup (w_res w1) (w_res w2)"
    using Suc.IH [OF 1(2)] by blast
  then show ?case using 1 same_setup_trans [OF 1(4)] by auto
qed auto

subsection \<open>Building the list\<close>

definition init_item :: "u16 \<Rightarrow> u32 \<Rightarrow> list_data" where
  "init_item seed i =
     (let datpat = ucast ((scast seed :: u32) XOR i) AND 0xF :: u16;
          dat = push_bit 3 datpat OR ucast (i AND 0x7)
      in \<lparr>data16 = push_bit 8 dat OR dat, idx = 0x7FFF\<rparr>)"

fun insert_items :: "u32 \<Rightarrow> u16 \<Rightarrow> nat \<Rightarrow> nat \<Rightarrow> nat \<Rightarrow> nat \<Rightarrow> heads \<Rightarrow> cm_world \<Rightarrow> heads \<times> cm_world" where
  "insert_items sz seed i 0 m d h w = (h, w)"
| "insert_items sz seed i (Suc n) m d h w =
     (case core_list_insert_new 0 (init_item seed (of_nat i)) m d (unat sz) (unat sz) h w of
        (_, m, d, h, w) \<Rightarrow> insert_items sz seed (Suc i) n m d h w)"

partial_function (option) index_items :: "u32 \<Rightarrow> u16 \<Rightarrow> u32 \<Rightarrow> heads \<Rightarrow> cm_world \<Rightarrow> nat option \<Rightarrow> cm_world option" where
  "index_items sz seed i h w finder =
     Option.bind finder (\<lambda>f.
       if l_next (h f) = None then Some w
       else (let v = (if i < sz div 5 then ucast i
                      else 0x3FFF AND (ucast (push_bit 8 ((i + 1) AND 0x07)) OR ucast (i XOR scast seed)) :: u16);
                 item = l_info (h f);
                 w = w\<lparr>w_datas := (w_datas w)(item := (w_datas w item)\<lparr>idx := v\<rparr>)\<rparr>
             in index_items sz seed (i + 1) h w (l_next (h f))))"

definition core_list_init :: "u32 \<Rightarrow> u16 \<Rightarrow> heads \<Rightarrow> cm_world \<Rightarrow> (nat option \<times> heads \<times> cm_world) option" where
  "core_list_init blksize seed h w =
     do {
       let sz = blksize div 20 - 2;
       let h = h(0 := \<lparr>l_next = None, l_info = 0\<rparr>);
       let w = w\<lparr>w_datas := (w_datas w)(0 := \<lparr>data16 = 0x8080, idx = 0\<rparr>)\<rparr>;
       (h, w) \<leftarrow> (case core_list_insert_new 0 \<lparr>data16 = 0xFFFF, idx = 0x7FFF\<rparr> 1 1 (unat sz) (unat sz) h w of
          (_, m, d, h, w) \<Rightarrow> Some (insert_items sz seed 0 (unat sz) m d h w));
       w \<leftarrow> index_items sz seed 1 h w (l_next (h 0));
       core_list_mergesort (cmp_idx True) h w (Some 0)
     }"

text \<open>The first \<open>m\<close> cells form a list from cell 0, each with its own data item.\<close>

definition built :: "nat \<Rightarrow> heads \<Rightarrow> bool" where
  "built m h \<longleftrightarrow> (\<exists>rest. lpath h (Some 0) (0 # rest) None \<and> distinct (0 # rest) \<and> set (0 # rest) = {..<m} \<and> (\<forall>n < m. l_info (h n) = n))"

lemma insert_new_built:
  assumes "built m h" "core_list_insert_new 0 info m m e e h w = (r, m', d', h', w')"
  shows "d' = m' \<and> m' = (if m + 1 < e then m + 1 else m) \<and> built m' h'"
proof (cases "m + 1 < e")
  case True
  obtain rest where r: "lpath h (Some 0) (0 # rest) None" "distinct (0 # rest)" "set (0 # rest) = {..<m}" "\<forall>n < m. l_info (h n) = n"
    using assms(1) unfolding built_def by blast
  have "0 \<in> {..<m}" unfolding r(3) [symmetric] by simp
  then have m: "m \<noteq> 0" "m \<notin> set (0 # rest)" unfolding r(3) by simp_all
  let ?h = "set_info (set_next (set_next h m (l_next (h 0))) 0 (Some m)) m m"
  have e: "m' = m + 1" "d' = m + 1" "h' = ?h" using assms(2) True by (auto simp: core_list_insert_new_def Let_def)
  have "lpath ?h (Some 0) (0 # m # rest) None" using r(1,2) m by auto
  moreover have "distinct (0 # m # rest)" using r(2) m by auto
  moreover have "set (0 # m # rest) = {..<m + 1}"
  proof -
    have "set (0 # m # rest) = insert m (set (0 # rest))" by auto
    then show ?thesis unfolding r(3) by (simp add: lessThan_Suc)
  qed
  moreover have "\<forall>n < m + 1. l_info (?h n) = n" using r(4) by (auto simp: less_Suc_eq)
  ultimately have "built (m + 1) ?h" unfolding built_def by blast
  then show ?thesis using True e by simp
next
  case False
  then show ?thesis using assms by (simp add: core_list_insert_new_def)
qed

lemma insert_items_built:
  assumes "built m h" "m + 1 \<le> unat sz" "insert_items sz seed i k m m h w = (h', w')"
  shows "built (min (m + k) (unat sz - 1)) h'"
  using assms
proof (induction k arbitrary: i m h w)
  case (Suc k)
  obtain r m1 d1 h1 w1 where n: "core_list_insert_new 0 (init_item seed (of_nat i)) m m (unat sz) (unat sz) h w = (r, m1, d1, h1, w1)"
    by (metis prod_cases5)
  note b = insert_new_built [OF Suc.prems(1) n]
  have "insert_items sz seed (Suc i) k m1 m1 h1 w1 = (h', w')" using Suc.prems(3) n b by simp
  moreover have "built m1 h1" "m1 + 1 \<le> unat sz" using b Suc.prems(2) by auto
  ultimately have "built (min (m1 + k) (unat sz - 1)) h'" by (intro Suc.IH)
  moreover have "min (m1 + k) (unat sz - 1) = min (m + Suc k) (unat sz - 1)" using b Suc.prems(2) by simp
  ultimately show ?case by simp
qed (simp add: min_absorb1)

lemma index_items_lpath: "lpath h p ns None \<Longrightarrow> ns \<noteq> [] \<Longrightarrow> \<exists>w'. index_items sz seed i h w p = Some w'"
proof (induction ns arbitrary: i w p)
  case (Cons a ns)
  then show ?case
  proof (cases "l_next (h a)")
    case None
    then show ?thesis using Cons.prems by (subst index_items.simps) simp
  next
    case (Some b)
    then have "ns \<noteq> []" using Cons.prems by auto
    then show ?thesis using Cons.prems Cons.IH [of "l_next (h a)"] Some by (subst index_items.simps) (simp add: Let_def)
  qed
qed simp

lemma core_list_init_law:
  assumes "100 \<le> unat blksize"
  shows "\<exists>p h' w' ns. core_list_init blksize seed h w = Some (p, h', w') \<and> lpath h' p ns None \<and> distinct ns \<and>
    set ns = {..<unat blksize div 20 - 3} \<and> (\<forall>n \<in> set ns. l_info (h' n) = n) \<and>
    sorted (map (\<lambda>n. sint (idx (w_datas w' n))) ns)"
proof -
  define sz where "sz = blksize div 20 - 2"
  have u: "unat sz = unat blksize div 20 - 2" unfolding sz_def using assms by (subst unat_sub_small) (simp_all add: word_le_nat_alt unat_div)
  have sz: "3 \<le> unat sz" unfolding u using assms by simp
  define h0 where "h0 = h(0 := \<lparr>l_next = None, l_info = 0\<rparr>)"
  define w0 where "w0 = w\<lparr>w_datas := (w_datas w)(0 := \<lparr>data16 = 0x8080, idx = 0\<rparr>)\<rparr>"
  have b0: "built 1 h0" unfolding built_def by (intro exI [of _ "[]"]) (auto simp: h0_def)
  obtain r m d h1 w1 where n: "core_list_insert_new 0 \<lparr>data16 = 0xFFFF, idx = 0x7FFF\<rparr> 1 1 (unat sz) (unat sz) h0 w0 = (r, m, d, h1, w1)"
    by (metis prod_cases5)
  have b1: "d = m" "m = 2" "built m h1" using insert_new_built [OF b0 n] sz by (simp, simp, blast)
  obtain h2 w2 where i: "insert_items sz seed 0 (unat sz) m m h1 w1 = (h2, w2)" by fastforce
  have b2: "built (unat sz - 1) h2" proof -
    have "min (m + unat sz) (unat sz - 1) = unat sz - 1" by simp
    moreover have "m + 1 \<le> unat sz" using b1(2) sz by simp
    ultimately show ?thesis using insert_items_built [OF b1(3) _ i] by simp
  qed
  then obtain rest where r: "lpath h2 (Some 0) (0 # rest) None" "distinct (0 # rest)" "set (0 # rest) = {..<unat sz - 1}"
    "\<forall>n < unat sz - 1. l_info (h2 n) = n" unfolding built_def by blast
  have "1 \<in> set (0 # rest)" unfolding r(3) using sz by simp
  then have "rest \<noteq> []" by auto
  then obtain w3 where w3: "index_items sz seed 1 h2 w2 (l_next (h2 0)) = Some w3" using index_items_lpath r(1) by fastforce
  obtain p h' w' ns where s: "core_list_mergesort (cmp_idx True) h2 w3 (Some 0) = Some (p, h', w')" "lpath h' p ns None"
    "mset ns = mset (0 # rest)" "sorted (map (\<lambda>n. sint (idx (w_datas w3 (l_info (h2 n))))) ns)"
    "\<forall>d. idx (w_datas w' d) = idx (w_datas w3 d)" "\<forall>n. l_info (h' n) = l_info (h2 n)"
    using mergesort_idx [OF r(1,2), of True w3] by blast
  have set: "set ns = {..<unat sz - 1}" using mset_eq_setD [OF s(3)] r(3) by simp
  have "core_list_init blksize seed h w = Some (p, h', w')"
    unfolding core_list_init_def sz_def [symmetric] h0_def [symmetric] w0_def [symmetric] Let_def
    using n b1(1) i w3 s(1) by simp
  moreover have "distinct ns" using mset_eq_imp_distinct_iff [OF s(3)] r(2) by simp
  moreover have info: "\<forall>n \<in> set ns. l_info (h' n) = n" using set r(4) s(6) by simp
  moreover have "map (\<lambda>n. sint (idx (w_datas w' n))) ns = map (\<lambda>n. sint (idx (w_datas w3 (l_info (h2 n))))) ns"
    using info s(5,6) by simp
  moreover have "unat sz - 1 = unat blksize div 20 - 3" using u by simp
  ultimately show ?thesis using s(2,4) set by metis
qed

subsection \<open>Properties\<close>

text \<open>C33.  The driver always returns: from a well-formed list whose head has the least index, a terminated input
  block and equal seeds, any number of iterations of the benchmark, each with its searches, reversals, two
  merge sorts and the nested matrix and state-machine runs, ends without following a null pointer or leaving
  a block, and hands back a list of the same cells that is ready for another run.\<close>

theorem iterate_returns:
  assumes "list_ready h w ns" "bench_ready (w_res w)" "0 < sint (r_seed3 (w_res w))"
  shows "\<exists>h' w' ns'. iterate h w = Some (h', w') \<and> list_ready h' w' ns' \<and> mset ns' = mset ns \<and> bench_ready (w_res w')"
proof -
  define v where "v = set_res (\<lambda>r. r\<lparr>r_crc := 0, r_crclist := 0, r_crcmatrix := 0, r_crcstate := 0\<rparr>) w"
  have s: "same_setup (w_res w) (w_res v)" by (simp add: v_def)
  have "list_ready h v ns" using assms(1) by (simp add: v_def list_ready_set_res)
  moreover have r: "bench_ready (w_res v)" "0 < sint (r_seed3 (w_res v))" using assms(2,3) same_setup_ready [OF s] s by (simp_all add: same_setup_def)
  ultimately obtain h' w' ns' where "iterate_steps 0 (unat (r_iterations (w_res w))) h v = Some (h', w')" "list_ready h' w' ns'"
    "mset ns' = mset ns" "same_setup (w_res v) (w_res w')" using iterate_steps_ready by blast
  then show ?thesis using same_setup_ready r unfolding iterate_def v_def [symmetric] by blast
qed

text \<open>Three cells in order, for the witness.\<close>

definition three_cells :: heads where
  "three_cells n = \<lparr>l_next = (if n < 2 then Some (n + 1) else None), l_info = n\<rparr>"

definition three_world :: cm_world where
  "three_world = \<lparr>w_datas = (\<lambda>d. \<lparr>data16 = 0, idx = of_nat d\<rparr>), w_res = (w_res small_world)\<lparr>r_seed3 := 5, r_iterations := 2\<rparr>\<rparr>"

theorem iterate_returns_witness:
  "list_ready three_cells three_world [0, 1, 2] \<and>
   (\<exists>h' w' ns'. iterate three_cells three_world = Some (h', w') \<and> mset ns' = mset [0, 1, 2])"
proof -
  have "list_ready three_cells three_world [0, 1, 2]" "bench_ready (w_res three_world)" "0 < sint (r_seed3 (w_res three_world))"
    by (simp_all add: list_ready_def three_cells_def three_world_def small_world_def bench_ready_def)
  then show ?thesis using iterate_returns by blast
qed

text \<open>C34.  Building the list stays inside the memory block: for a block of at least 100 bytes the list has exactly the
  cells below the capacity, each with its own data item, and is sorted by index.\<close>

theorem core_list_init_fits:
  assumes "100 \<le> unat blksize"
  shows "\<exists>p h' w' ns. core_list_init blksize seed h w = Some (p, h', w') \<and> lpath h' p ns None \<and> distinct ns \<and>
    set ns = {..<unat blksize div 20 - 3} \<and> (\<forall>n \<in> set ns. l_info (h' n) = n) \<and>
    sorted (map (\<lambda>n. sint (idx (w_datas w' n))) ns)"
  using assms by (rule core_list_init_law)

theorem core_list_init_fits_witness:
  "\<exists>p h' w' ns. core_list_init 666 0x3415 two_cells small_world = Some (p, h', w') \<and> lpath h' p ns None \<and> set ns = {..<30}"
  using core_list_init_fits [of 666 "0x3415" two_cells small_world] by auto

end
