(* ===== verification/CM_Main.thy ===== *)
theory CM_Main
  imports CM_Bench
begin

text \<open>
  The set-up and the verdict of the CoreMark driver (\<open>main\<close> of \<open>src/benchmarks/coremark32/core_main.c\<close>): default
  seeds, the division of the static block among the enabled algorithms, the checksum that identifies a
  known configuration, and the comparison of the results with the recorded checksums.  Timing and printing are
  left out.
\<close>

subsection \<open>Definitions\<close>

definition ID_LIST :: u32 where "ID_LIST = 1"
definition ID_MATRIX :: u32 where "ID_MATRIX = 2"
definition ID_STATE :: u32 where "ID_STATE = 4"
definition ALL_ALGORITHMS_MASK :: u32 where "ALL_ALGORITHMS_MASK = ID_LIST OR ID_MATRIX OR ID_STATE"
definition NUM_ALGORITHMS :: nat where "NUM_ALGORITHMS = 3"

definition default_execs :: "u32 \<Rightarrow> u32" where
  "default_execs execs = (if execs = 0 then ALL_ALGORITHMS_MASK else execs)"

definition default_seeds :: "u16 \<times> u16 \<times> u16 \<Rightarrow> u16 \<times> u16 \<times> u16" where
  "default_seeds s =
     (let s = (if s = (0, 0, 0) then (0, 0, 0x66) else s)
      in if s = (1, 0, 0) then (0x3415, 0x3415, 0x66) else s)"

definition enabled :: "u32 \<Rightarrow> nat \<Rightarrow> bool" where
  "enabled execs i \<longleftrightarrow> push_bit i 1 AND execs \<noteq> 0"

definition num_algorithms :: "u32 \<Rightarrow> nat" where
  "num_algorithms execs = fold (\<lambda>i n. if enabled execs i then n + 1 else n) [0..<NUM_ALGORITHMS] 0"

text \<open>The size of each part; dividing by zero, when no algorithm is enabled, is \<open>None\<close>.\<close>

definition part_size :: "nat \<Rightarrow> u32 \<Rightarrow> nat option" where
  "part_size tsize execs = (if num_algorithms execs = 0 then None else Some (tsize div num_algorithms execs))"

text \<open>\<open>memblock[i+1]\<close> for the enabled algorithms, in bytes from \<open>memblock[0]\<close>.\<close>

definition assign_blocks :: "nat \<Rightarrow> u32 \<Rightarrow> (nat \<Rightarrow> nat option) \<times> nat" where
  "assign_blocks sz execs =
     fold (\<lambda>i (memblock, j). if enabled execs i then (memblock(i + 1 := Some (sz * j)), j + 1) else (memblock, j))
       [0..<NUM_ALGORITHMS] (Map.empty, 0)"

definition seed_crc :: "u16 \<Rightarrow> u16 \<Rightarrow> u16 \<Rightarrow> u32 \<Rightarrow> u16" where
  "seed_crc seed1 seed2 seed3 sz = crc16 (ucast sz) (crc16 seed3 (crc16 seed2 (crc16 seed1 0)))"

definition known_id :: "u16 \<Rightarrow> int" where
  "known_id c =
     (if c = 0x8A02 then 0 else if c = 0x7B05 then 1 else if c = 0x4EAF then 2
      else if c = 0xE9F5 then 3 else if c = 0x18F2 then 4 else - 1)"

definition list_known_crc :: "u16 list" where "list_known_crc = [0xD4B0, 0x3340, 0x6A79, 0xE714, 0xE3C1]"
definition matrix_known_crc :: "u16 list" where "matrix_known_crc = [0xBE52, 0x1199, 0x5608, 0x1FD7, 0x0747]"
definition state_known_crc :: "u16 list" where "state_known_crc = [0x5E47, 0x39BF, 0xE5A4, 0x8E3A, 0x8D84]"

text \<open>The errors found by comparing with the recorded checksums; \<open>-1\<close> when the configuration is not known.\<close>

definition total_errors :: "u32 \<Rightarrow> int \<Rightarrow> core_results \<Rightarrow> int" where
  "total_errors execs kid res =
     (if kid < 0 then - 1
      else of_bool (enabled execs 0 \<and> r_crclist res \<noteq> list_known_crc ! nat kid) +
           of_bool (enabled execs 1 \<and> r_crcmatrix res \<noteq> matrix_known_crc ! nat kid) +
           of_bool (enabled execs 2 \<and> r_crcstate res \<noteq> state_known_crc ! nat kid))"

subsection \<open>Lemmas\<close>

lemma enabled_bit: "i < 3 \<Longrightarrow> enabled execs i \<longleftrightarrow> bit execs i"
proof -
  assume "i < 3"
  then have "i = 0 \<or> i = 1 \<or> i = 2" by auto
  then have "push_bit i (1 :: u32) \<noteq> 0" by auto
  moreover have "enabled execs i \<longleftrightarrow> execs AND push_bit i 1 \<noteq> 0" unfolding enabled_def by (subst and.commute) (rule refl)
  ultimately show ?thesis by (simp only: and_single_bit split: if_split) simp
qed

lemma upt_three: "[0..<NUM_ALGORITHMS] = [0, 1, 2]"
  by (simp add: NUM_ALGORITHMS_def upt_rec)

lemma num_algorithms_sum: "num_algorithms execs = of_bool (bit execs 0) + of_bool (bit execs 1) + of_bool (bit execs 2)"
  by (simp add: num_algorithms_def upt_three enabled_bit)

lemma assign_blocks_value:
  "fst (assign_blocks sz execs) (i + 1) =
     (if i < 3 \<and> bit execs i then Some (sz * length (filter (bit execs) [0..<i])) else None)"
proof -
  have two: "[0..<1] = [0]" "[0..<2] = [0, 1]" by (simp_all add: upt_rec)
  consider "i = 0" | "i = 1" | "i = 2" | "3 \<le> i" by linarith
  then show ?thesis by cases (simp_all add: assign_blocks_def upt_three enabled_bit two)
qed

lemma filter_upt_mono: "i < j \<Longrightarrow> P i \<Longrightarrow> length (filter P [0..<i]) + 1 \<le> length (filter P [0..<j])"
proof -
  assume ij: "i < j" and P: "P i"
  have "[0..<j] = [0..<i] @ i # [Suc i..<j]" using ij by (metis le_add_same_cancel1 less_imp_le upt_add_eq_append upt_conv_Cons le_add_diff_inverse zero_le)
  then show ?thesis using P by simp
qed

subsection \<open>Properties\<close>

text \<open>C35.  The parts handed to the algorithms lie inside the static block and do not overlap: each enabled
  algorithm has its own part of the common size, one after the other.\<close>

theorem main_blocks_disjoint:
  assumes "part_size tsize execs = Some sz" "i < j" "j < 3" "enabled execs i" "enabled execs j"
  shows "\<exists>a b. fst (assign_blocks sz execs) (i + 1) = Some a \<and> fst (assign_blocks sz execs) (j + 1) = Some b \<and>
    a + sz \<le> b \<and> b + sz \<le> tsize"
proof -
  let ?n = "\<lambda>k. length (filter (bit execs) [0..<k])"
  have b: "bit execs i" "bit execs j" using assms enabled_bit [of i execs] enabled_bit [of j execs] by simp_all
  have "?n i + 1 \<le> ?n j" using assms(2) b(1) by (rule filter_upt_mono)
  then have "sz * (?n i + 1) \<le> sz * ?n j" by (rule mult_le_mono2)
  then have ab: "sz * ?n i + sz \<le> sz * ?n j" by simp
  have "?n j + 1 \<le> ?n 3" using assms(3) b(2) by (rule filter_upt_mono)
  moreover have "?n 3 = num_algorithms execs" using upt_three by (simp add: num_algorithms_sum NUM_ALGORITHMS_def)
  ultimately have "sz * (?n j + 1) \<le> sz * num_algorithms execs" by (intro mult_le_mono2) simp
  also have "\<dots> \<le> tsize" using assms(1) by (auto simp: part_size_def split: if_splits)
  finally show ?thesis using ab assms(2,3) b assign_blocks_value [of sz execs i] assign_blocks_value [of sz execs j] by simp
qed

theorem main_blocks_disjoint_witness:
  "part_size 2000 7 = Some 666 \<and>
   (\<exists>a b. fst (assign_blocks 666 7) (0 + 1) = Some a \<and> fst (assign_blocks 666 7) (2 + 1) = Some b \<and> a + 666 \<le> b \<and> b + 666 \<le> 2000)"
proof -
  have p: "part_size 2000 7 = Some 666" "enabled 7 0" "enabled 7 2" by code_simp+
  show ?thesis using main_blocks_disjoint [OF p(1), of 0 2] p by simp
qed

text \<open>Every documented configuration is recognised: the checksum of its seeds and part size selects the entry
  of the table the comments name, and with the recorded results no error is reported.\<close>

theorem known_configurations:
  "known_id (seed_crc 0 0 0x66 2000) = 0 \<and> known_id (seed_crc 0x3415 0x3415 0x66 2000) = 1 \<and>
   known_id (seed_crc 8 8 8 400) = 2 \<and> known_id (seed_crc 0 0 0x66 666) = 3 \<and>
   known_id (seed_crc 0x3415 0x3415 0x66 666) = 4"
  by code_simp

end
