(* ===== verification/Spike_Base.thy ===== *)
theory Spike_Base
  imports Prelude "HOL-Library.Signed_Division"
begin

text \<open>
  Ground of the instruction-set simulator (\<open>riscv-isa-sim-modified/riscv\<close>): the widening
  macros, field access, the fields and immediates of an instruction word (\<open>decode.h\<close>), the high
  half of a product (\<open>mulhi.h\<close>), traps (\<open>trap.h\<close>) and the state of a hart (\<open>processor.h\<close>).

  A register is 64 bits wide whatever \<open>xlen\<close> is.  A C++ function that may throw is a function from
  a state to a sum of the trap it throws and its value, paired with the state it leaves: what an
  instruction did before it threw stays done.
\<close>

subsection \<open>Widths and fields\<close>

type_synonym reg_t = u64

definition sext32 :: "reg_t \<Rightarrow> reg_t" where
  "sext32 x = scast (ucast x :: u32)"

definition zext32 :: "reg_t \<Rightarrow> reg_t" where
  "zext32 x = ucast (ucast x :: u32)"

definition sext_xlen :: "nat \<Rightarrow> reg_t \<Rightarrow> reg_t" where
  "sext_xlen xlen x = signed_drop_bit (64 - xlen) (push_bit (64 - xlen) x)"

definition zext_xlen :: "nat \<Rightarrow> reg_t \<Rightarrow> reg_t" where
  "zext_xlen xlen x = drop_bit (64 - xlen) (push_bit (64 - xlen) x)"

definition get_field :: "reg_t \<Rightarrow> reg_t \<Rightarrow> reg_t" where
  "get_field reg msk = (reg AND msk) div (msk AND NOT (push_bit 1 msk))"

definition set_field :: "reg_t \<Rightarrow> reg_t \<Rightarrow> reg_t \<Rightarrow> reg_t" where
  "set_field reg msk val = (reg AND NOT msk) OR ((val * (msk AND NOT (push_bit 1 msk))) AND msk)"

subsection \<open>Instruction words\<close>

definition insn_length :: "u64 \<Rightarrow> u64" where
  "insn_length x =
     (if x AND 0x03 < 0x03 then 2 else if x AND 0x1F < 0x1F then 4 else if x AND 0x3F < 0x3F then 6 else 8)"

definition bits_x :: "u64 \<Rightarrow> nat \<Rightarrow> nat \<Rightarrow> u64" where
  "bits_x b lo len = drop_bit lo b AND (push_bit len 1 - 1)"

definition bits_xs :: "u64 \<Rightarrow> nat \<Rightarrow> nat \<Rightarrow> u64" where
  "bits_xs b lo len = signed_drop_bit (64 - len) (push_bit (64 - lo - len) b)"

definition imm_sign :: "u64 \<Rightarrow> u64" where "imm_sign b = bits_xs b 63 1"
definition i_imm :: "u64 \<Rightarrow> u64" where "i_imm b = signed_drop_bit 20 b"
definition s_imm :: "u64 \<Rightarrow> u64" where "s_imm b = bits_x b 7 5 + push_bit 5 (bits_xs b 25 7)"
definition sb_imm :: "u64 \<Rightarrow> u64" where
  "sb_imm b = push_bit 1 (bits_x b 8 4) + push_bit 5 (bits_x b 25 6) + push_bit 11 (bits_x b 7 1) + push_bit 12 (imm_sign b)"
definition u_imm :: "u64 \<Rightarrow> u64" where "u_imm b = push_bit 12 (signed_drop_bit 12 b)"
definition uj_imm :: "u64 \<Rightarrow> u64" where
  "uj_imm b = push_bit 1 (bits_x b 21 10) + push_bit 11 (bits_x b 20 1) + push_bit 12 (bits_x b 12 8) + push_bit 20 (imm_sign b)"
definition insn_rd :: "u64 \<Rightarrow> nat" where "insn_rd b = unat (bits_x b 7 5)"
definition insn_rs1 :: "u64 \<Rightarrow> nat" where "insn_rs1 b = unat (bits_x b 15 5)"
definition insn_rs2 :: "u64 \<Rightarrow> nat" where "insn_rs2 b = unat (bits_x b 20 5)"
definition insn_rs3 :: "u64 \<Rightarrow> nat" where "insn_rs3 b = unat (bits_x b 27 5)"
definition insn_rm :: "u64 \<Rightarrow> u64" where "insn_rm b = bits_x b 12 3"
definition insn_csr :: "u64 \<Rightarrow> u64" where "insn_csr b = bits_x b 20 12"

definition rvc_imm :: "u64 \<Rightarrow> u64" where "rvc_imm b = bits_x b 2 5 + push_bit 5 (bits_xs b 12 1)"
definition rvc_zimm :: "u64 \<Rightarrow> u64" where "rvc_zimm b = bits_x b 2 5 + push_bit 5 (bits_x b 12 1)"
definition rvc_addi4spn_imm :: "u64 \<Rightarrow> u64" where
  "rvc_addi4spn_imm b = push_bit 2 (bits_x b 6 1) + push_bit 3 (bits_x b 5 1) + push_bit 4 (bits_x b 11 2) + push_bit 6 (bits_x b 7 4)"
definition rvc_addi16sp_imm :: "u64 \<Rightarrow> u64" where
  "rvc_addi16sp_imm b = push_bit 4 (bits_x b 6 1) + push_bit 5 (bits_x b 2 1) + push_bit 6 (bits_x b 5 1) + push_bit 7 (bits_x b 3 2)
     + push_bit 9 (bits_xs b 12 1)"
definition rvc_lwsp_imm :: "u64 \<Rightarrow> u64" where
  "rvc_lwsp_imm b = push_bit 2 (bits_x b 4 3) + push_bit 5 (bits_x b 12 1) + push_bit 6 (bits_x b 2 2)"
definition rvc_ldsp_imm :: "u64 \<Rightarrow> u64" where
  "rvc_ldsp_imm b = push_bit 3 (bits_x b 5 2) + push_bit 5 (bits_x b 12 1) + push_bit 6 (bits_x b 2 3)"
definition rvc_swsp_imm :: "u64 \<Rightarrow> u64" where
  "rvc_swsp_imm b = push_bit 2 (bits_x b 9 4) + push_bit 6 (bits_x b 7 2)"
definition rvc_sdsp_imm :: "u64 \<Rightarrow> u64" where
  "rvc_sdsp_imm b = push_bit 3 (bits_x b 10 3) + push_bit 6 (bits_x b 7 3)"
definition rvc_lw_imm :: "u64 \<Rightarrow> u64" where
  "rvc_lw_imm b = push_bit 2 (bits_x b 6 1) + push_bit 3 (bits_x b 10 3) + push_bit 6 (bits_x b 5 1)"
definition rvc_ld_imm :: "u64 \<Rightarrow> u64" where
  "rvc_ld_imm b = push_bit 3 (bits_x b 10 3) + push_bit 6 (bits_x b 5 2)"
definition rvc_j_imm :: "u64 \<Rightarrow> u64" where
  "rvc_j_imm b = push_bit 1 (bits_x b 3 3) + push_bit 4 (bits_x b 11 1) + push_bit 5 (bits_x b 2 1) + push_bit 6 (bits_x b 7 1)
     + push_bit 7 (bits_x b 6 1) + push_bit 8 (bits_x b 9 2) + push_bit 10 (bits_x b 8 1) + push_bit 11 (bits_xs b 12 1)"
definition rvc_b_imm :: "u64 \<Rightarrow> u64" where
  "rvc_b_imm b = push_bit 1 (bits_x b 3 2) + push_bit 3 (bits_x b 10 2) + push_bit 5 (bits_x b 2 1) + push_bit 6 (bits_x b 5 2)
     + push_bit 8 (bits_xs b 12 1)"
definition rvc_rs2 :: "u64 \<Rightarrow> nat" where "rvc_rs2 b = unat (bits_x b 2 5)"
definition rvc_rs1s :: "u64 \<Rightarrow> nat" where "rvc_rs1s b = unat (8 + bits_x b 7 3)"
definition rvc_rs2s :: "u64 \<Rightarrow> nat" where "rvc_rs2s b = unat (8 + bits_x b 2 3)"

subsection \<open>The high half of a product\<close>

definition mulhu :: "u64 \<Rightarrow> u64 \<Rightarrow> u64" where
  "mulhu a b =
     (let a0 = ucast (ucast a :: u32); a1 = drop_bit 32 a;
          b0 = ucast (ucast b :: u32); b1 = drop_bit 32 b;
          t = a1 * b0 + drop_bit 32 (a0 * b0);
          y1 = (ucast t :: u32);
          y2 = (ucast (drop_bit 32 t) :: u32);
          t = a0 * b1 + ucast y1;
          t = a1 * b1 + ucast y2 + drop_bit 32 t;
          y2 = (ucast t :: u32);
          y3 = (ucast (drop_bit 32 t) :: u32)
      in push_bit 32 (ucast y3) OR ucast y2)"

definition mulh :: "u64 \<Rightarrow> u64 \<Rightarrow> u64" where
  "mulh a b =
     (let neg = ((a <s 0) \<noteq> (b <s 0));
          res = mulhu (if a <s 0 then - a else a) (if b <s 0 then - b else b)
      in if neg then NOT res + of_bool (a * b = 0) else res)"

definition mulhsu :: "u64 \<Rightarrow> u64 \<Rightarrow> u64" where
  "mulhsu a b =
     (let neg = (a <s 0); res = mulhu (if a <s 0 then - a else a) b
      in if neg then NOT res + of_bool (a * b = 0) else res)"

subsection \<open>Widening\<close>

lemma sext_xlen_64 [simp]: "sext_xlen 64 x = x"
  by (simp add: sext_xlen_def)

lemma zext_xlen_64 [simp]: "zext_xlen 64 x = x"
  by (simp add: zext_xlen_def)

lemma bit_sext32: "bit (sext32 x) i \<longleftrightarrow> i < 64 \<and> bit x (min i 31)"
  by (auto simp: sext32_def bit_signed_iff bit_simps min_def)

lemma bit_sext_xlen:
  "0 < n \<Longrightarrow> n \<le> 64 \<Longrightarrow> bit (sext_xlen n x) i \<longleftrightarrow> i < 64 \<and> bit x (min i (n - 1))"
  by (auto simp: sext_xlen_def bit_simps min_def)

lemma sext_xlen_32 [simp]: "sext_xlen 32 x = sext32 x"
proof (rule bit_word_eqI)
  fix n assume "n < LENGTH(64)"
  then show "bit (sext_xlen 32 x) n = bit (sext32 x) n"
    by (cases "n \<le> 31") (simp_all add: bit_sext_xlen bit_sext32 min_absorb1 min_absorb2)
qed

lemma zext_xlen_32 [simp]: "zext_xlen 32 x = zext32 x"
  by (rule bit_word_eqI) (auto simp: zext_xlen_def zext32_def bit_simps)

lemma sext32_idem [simp]: "sext32 (sext32 x) = sext32 x"
  by (rule bit_word_eqI) (simp add: bit_sext32 min.strict_coboundedI2)

subsection \<open>Products\<close>

lemma mulhu_value: "unat (mulhu a b) = unat a * unat b div 2 ^ 64"
proof -
  define A0 A1 B0 B1 where "A0 = unat a mod 2 ^ 32" and "A1 = unat a div 2 ^ 32"
    and "B0 = unat b mod 2 ^ 32" and "B1 = unat b div 2 ^ 32"
  have AB: "unat a = A1 * 2 ^ 32 + A0" "unat b = B1 * 2 ^ 32 + B0"
    by (simp_all add: A0_def A1_def B0_def B1_def)
  have lt: "A0 < 2 ^ 32" "B0 < 2 ^ 32" by (simp_all add: A0_def B0_def)
  have lt': "A1 < 2 ^ 32" "B1 < 2 ^ 32"
    using unat_less_64 [of a] unat_less_64 [of b] by (simp_all add: A1_def B1_def less_mult_imp_div_less)
  have m: "x * y \<le> (2 ^ 32 - 1) * (2 ^ 32 - 1)" if "x < 2 ^ 32" "y < 2 ^ 32" for x y :: nat
    by (rule mult_le_mono) (use that in simp_all)
  define t1 where "t1 = A1 * B0 + A0 * B0 div 2 ^ 32"
  have t1: "t1 < 2 ^ 64" using m [OF lt'(1) lt(2)] m [OF lt(1) lt(2)] by (simp add: t1_def)
  define t2 where "t2 = A0 * B1 + t1 mod 2 ^ 32"
  have t2: "t2 < 2 ^ 64" using m [OF lt(1) lt'(2)] mod_less_divisor [of "2 ^ 32" t1] by (simp add: t2_def)
  define t3 where "t3 = A1 * B1 + t1 div 2 ^ 32 + t2 div 2 ^ 32"
  have t3: "t3 < 2 ^ 64"
    using m [OF lt'(1) lt'(2)] less_mult_imp_div_less [of t1 "2 ^ 32" "2 ^ 32"]
      less_mult_imp_div_less [of t2 "2 ^ 32" "2 ^ 32"] t1 t2 by (simp add: t3_def)
  define x0 x1 y0 y1 where "x0 = (ucast (ucast a :: u32) :: u64)" and "x1 = drop_bit 32 a"
    and "y0 = (ucast (ucast b :: u32) :: u64)" and "y1 = drop_bit 32 b"
  have u: "unat x0 = A0" "unat x1 = A1" "unat y0 = B0" "unat y1 = B1"
    by (simp_all add: x0_def x1_def y0_def y1_def unat_ops unat_ucast A0_def A1_def B0_def B1_def)
  have pr: "unat (x0 * y0) = A0 * B0" "unat (x1 * y0) = A1 * B0" "unat (x0 * y1) = A0 * B1" "unat (x1 * y1) = A1 * B1"
    using m [OF lt(1) lt(2)] m [OF lt'(1) lt(2)] m [OF lt(1) lt'(2)] m [OF lt'(1) lt'(2)]
    by (simp_all add: unat_mult_small u)
  define w1 where "w1 = x1 * y0 + drop_bit 32 (x0 * y0)"
  have w1: "unat w1 = t1" unfolding w1_def
    by (subst unat_add_small) (use t1 in \<open>simp_all add: pr unat_ops t1_def\<close>)
  define w2 where "w2 = x0 * y1 + ucast (ucast w1 :: u32)"
  have w2: "unat w2 = t2" unfolding w2_def
    by (subst unat_add_small) (use t2 in \<open>simp_all add: pr unat_ucast w1 t2_def\<close>)
  define w3 where "w3 = x1 * y1 + ucast (ucast (drop_bit 32 w1) :: u32) + drop_bit 32 w2"
  have hi1: "unat (ucast (ucast (drop_bit 32 w1) :: u32) :: u64) = t1 div 2 ^ 32"
    using t1 by (simp add: unat_ucast unat_ops w1 less_mult_imp_div_less)
  have s1: "unat (x1 * y1 + ucast (ucast (drop_bit 32 w1) :: u32)) = A1 * B1 + t1 div 2 ^ 32"
    by (subst unat_add_small) (use t3 in \<open>simp_all add: hi1 pr t3_def\<close>)
  have w3: "unat w3 = t3" unfolding w3_def
    by (subst unat_add_small) (use t3 in \<open>simp_all add: s1 unat_ops w2 t3_def\<close>)
  have "mulhu a b = push_bit 32 (ucast (ucast (drop_bit 32 w3) :: u32)) OR ucast (ucast w3 :: u32)"
    unfolding mulhu_def Let_def w3_def w2_def w1_def x0_def x1_def y0_def y1_def by simp
  also have "\<dots> = w3"
    by (rule bit_word_eqI) (auto simp: bit_simps)
  finally have r: "unat (mulhu a b) = t3" by (simp add: w3)
  have e: "unat a * unat b = t3 * 2 ^ 64 + ((t2 mod 2 ^ 32) * 2 ^ 32 + A0 * B0 mod 2 ^ 32)"
  proof -
    define p1 p0 q1 q0 r1 r0 where "p1 = A0 * B0 div 2 ^ 32" and "p0 = A0 * B0 mod 2 ^ 32"
      and "q1 = t1 div 2 ^ 32" and "q0 = t1 mod 2 ^ 32" and "r1 = t2 div 2 ^ 32" and "r0 = t2 mod 2 ^ 32"
    have "A0 * B0 = p1 * 2 ^ 32 + p0" by (simp add: p1_def p0_def)
    moreover have "A1 * B0 + p1 = q1 * 2 ^ 32 + q0" unfolding q1_def q0_def p1_def t1_def [symmetric] by simp
    moreover have "A0 * B1 + q0 = r1 * 2 ^ 32 + r0" unfolding r1_def r0_def q0_def t2_def [symmetric] by simp
    moreover have "unat a * unat b = A1 * B1 * 2 ^ 64 + (A1 * B0) * 2 ^ 32 + (A0 * B1) * 2 ^ 32 + A0 * B0"
      by (simp add: AB algebra_simps)
    ultimately show ?thesis
      unfolding t3_def p0_def [symmetric] q1_def [symmetric] r1_def [symmetric] r0_def [symmetric] by simp
  qed
  have "(t2 mod 2 ^ 32) * 2 ^ 32 + A0 * B0 mod 2 ^ 32 < 2 ^ 64"
    using mod_less_divisor [of "2 ^ 32" t2] mod_less_divisor [of "2 ^ 32" "A0 * B0"] by simp
  then show ?thesis by (simp add: r e)
qed

text \<open>The high half of a negated product: \<open>- p\<close> divided by the word size is the complement of the
  high half of \<open>p\<close>, plus one when the low half is zero.\<close>

lemma neg_div_floor:
  fixes p m :: int
  assumes "0 < m"
  shows "(- p) div m = - (p div m) - (if p mod m = 0 then 0 else 1)"
  using assms by (simp add: zdiv_zminus1_eq_if)

lemma word_abs_value: "int (unat (if a <s 0 then - a else a)) = \<bar>sint (a :: u64)\<bar>"
  using abs_u64 [of a] by (simp add: word_sless_alt)

lemma signed_high_half:
  assumes v: "v = (if neg then - int (unat x * unat y) else int (unat x * unat y))"
    and small: "unat x * unat y < 2 ^ 127" and c: "c \<longleftrightarrow> 2 ^ 64 dvd v"
  shows "sint (if neg then NOT (mulhu x y) + of_bool c else mulhu x y) = v div 2 ^ 64"
proof -
  define P where "P = unat x * unat y"
  define hi where "hi = int (P div 2 ^ 64)"
  have w: "mulhu x y = word_of_int hi"
    unfolding hi_def P_def by (metis mulhu_value uint_nat word_of_int_uint)
  have "P div 2 ^ 64 < 2 ^ 63"
    using small less_mult_imp_div_less [of P "2 ^ 63" "2 ^ 64"] unfolding P_def [symmetric] by simp
  then have hi: "0 \<le> hi" "hi < 2 ^ 63" unfolding hi_def
    by (simp_all only: of_nat_less_numeral_power_cancel_iff of_nat_0_le_iff)
  have q: "int P div 2 ^ 64 = hi" by (simp add: hi_def zdiv_int)
  have c': "c \<longleftrightarrow> int P mod 2 ^ 64 = 0"
    using c v unfolding P_def [symmetric]
    by (cases neg) (simp_all only: if_True if_False dvd_minus_iff dvd_eq_mod_eq_0 [symmetric])
  have sw: "sint (word_of_int k :: u64) = k" if "- (2 ^ 63) \<le> k" "k < 2 ^ 63" for k
    using that by (simp add: sint_sbintrunc' signed_take_bit_int_eq_self)
  show ?thesis
  proof (cases neg)
    case True
    have "NOT (mulhu x y) + of_bool c = word_of_int (- hi - 1 + of_bool c)"
      unfolding w by (simp add: not_eq_complement flip: of_int_minus)
    moreover have "v div 2 ^ 64 = - hi - 1 + of_bool c"
      using True v neg_div_floor [of "2 ^ 64" "int P"] q c' unfolding P_def by simp
    moreover have "- (2 ^ 63) \<le> - hi - 1 + of_bool c" "- hi - 1 + of_bool c < 2 ^ 63" using hi by (cases c; simp)+
    ultimately show ?thesis using True by (simp only: if_True sw)
  next
    case False
    then show ?thesis using v q sw [of hi] hi w unfolding P_def by simp
  qed
qed

lemma abs_sint_64: "\<bar>sint (a :: u64)\<bar> \<le> 2 ^ 63"
  using sint_ge [of a] sint_less [of a] by simp

lemma mult_zero_dvd: "(a * b :: u64) = 0 \<longleftrightarrow> 2 ^ 64 dvd sint a * sint b"
proof -
  have "a * b = word_of_int (sint a * sint b)" by simp
  then show ?thesis by (simp only: word_of_int_eq_0_iff) simp
qed

lemma nat_le_power_of_int: "int n = k \<Longrightarrow> k \<le> 2 ^ m \<Longrightarrow> n \<le> 2 ^ m"
  by (metis of_nat_le_iff of_nat_numeral of_nat_power)

lemma mulh_value: "sint (mulh a b) = sint a * sint b div 2 ^ 64"
proof -
  define x y where "x = (if a <s 0 then - a else a)" and "y = (if b <s 0 then - b else b)"
  have xy: "int (unat x) = \<bar>sint a\<bar>" "int (unat y) = \<bar>sint b\<bar>" unfolding x_def y_def by (rule word_abs_value)+
  have "unat x * unat y \<le> 2 ^ 63 * 2 ^ 63"
    by (rule mult_le_mono [OF nat_le_power_of_int [OF xy(1) abs_sint_64] nat_le_power_of_int [OF xy(2) abs_sint_64]])
  then have small: "unat x * unat y < 2 ^ 127" by simp
  have v: "sint a * sint b = (if (a <s 0) \<noteq> (b <s 0) then - int (unat x * unat y) else int (unat x * unat y))"
    using xy by (auto simp: word_sless_alt abs_if)
  show ?thesis unfolding mulh_def Let_def
    by (rule signed_high_half [OF v [unfolded x_def y_def] small [unfolded x_def y_def] mult_zero_dvd])
qed

lemma mulhsu_value: "sint (mulhsu a b) = sint a * uint b div 2 ^ 64"
proof -
  define x where "x = (if a <s 0 then - a else a)"
  have x: "int (unat x) = \<bar>sint a\<bar>" unfolding x_def by (rule word_abs_value)
  then have "unat x \<le> 2 ^ 63"
    by (rule nat_le_power_of_int [OF _ abs_sint_64])
  moreover have "unat b \<le> 2 ^ 64 - 1"
    using unat_less_64 [of b] by simp
  ultimately have "unat x * unat b \<le> 2 ^ 63 * (2 ^ 64 - 1)" by (rule mult_le_mono)
  then have small: "unat x * unat b < 2 ^ 127" by simp
  have v: "sint a * uint b = (if a <s 0 then - int (unat x * unat b) else int (unat x * unat b))"
    using x by (auto simp: word_sless_alt abs_if)
  have z: "a * b = 0 \<longleftrightarrow> 2 ^ 64 dvd sint a * uint b"
  proof -
    have "a * b = word_of_int (sint a * uint b)" by simp
    then show ?thesis by (simp only: word_of_int_eq_0_iff) simp
  qed
  show ?thesis unfolding mulhsu_def Let_def
    by (rule signed_high_half [OF v [unfolded x_def] small [unfolded x_def] z])
qed

subsection \<open>Immediates\<close>

lemma bit_bits_x: "bit (bits_x b lo len) i \<longleftrightarrow> i < len \<and> lo + i < 64 \<and> bit b (lo + i)"
  unfolding bits_x_def mask_eq_exp_minus_1 [symmetric, folded push_bit_of_1]
  by (auto simp: bit_simps add.commute dest: bit_imp_le_length)

lemma bit_bits_xs:
  "0 < len \<Longrightarrow> lo + len \<le> 64 \<Longrightarrow> bit (bits_xs b lo len) i \<longleftrightarrow> i < 64 \<and> bit b (lo + min i (len - 1))"
  unfolding bits_xs_def by (auto simp: bit_simps min_def add.commute)

text \<open>The fields of an immediate do not overlap, so its additions are disjunctions: \<open>below x k\<close> says
  that \<open>x\<close> has no bit from \<open>k\<close> on.\<close>

definition below :: "u64 \<Rightarrow> nat \<Rightarrow> bool" where
  "below x k \<longleftrightarrow> (\<forall>n. bit x n \<longrightarrow> n < k)"

lemma bit_push64: "bit (push_bit m (a :: u64)) n \<longleftrightarrow> m \<le> n \<and> n < 64 \<and> bit a (n - m)"
  by (auto simp: bit_simps)

lemma add_field:
  assumes "below x k"
  shows "x + push_bit k y = x OR push_bit k y"
proof (rule disjunctive_add_eq_or, rule bit_word_eqI)
  fix n assume "n < LENGTH(64)"
  then show "bit (x AND push_bit k y) n = bit 0 n"
    using assms unfolding below_def by (auto simp: bit_and_iff bit_push64)
qed

lemma below_bits_x: "len \<le> k \<Longrightarrow> below (bits_x b lo len) k"
  by (auto simp: below_def bit_bits_x)

lemma below_push: "m + len \<le> k \<Longrightarrow> below (push_bit m (bits_x b lo len)) k"
  by (auto simp: below_def bit_push64 bit_bits_x)

lemma below_or: "below x k \<Longrightarrow> below y k \<Longrightarrow> below (x OR y) k"
  by (auto simp: below_def bit_or_iff)

lemmas field_bits = bit_or_iff bit_push64 bit_bits_x bit_bits_xs

lemma bit_at: "bit b (m + (i - k)) = bit b (i + m - k)" if "k \<le> i" for b :: u64
  using that by (metis add.commute Nat.add_diff_assoc)

lemma bit_s_imm:
  "bit (s_imm b) i \<longleftrightarrow> i < 64 \<and> (if i < 5 then bit b (i + 7) else bit b (min (i + 20) 31))"
  unfolding s_imm_def
  by ((subst add_field, (intro below_or below_push below_bits_x; simp)[1])+, simp only: field_bits,
      auto simp: bit_at min_def add.commute not_less le_diff_conv)

lemma bit_sb_imm:
  "bit (sb_imm b) i \<longleftrightarrow> i < 64 \<and> 0 < i \<and>
     (if i < 5 then bit b (i + 7) else if i < 11 then bit b (i + 20) else if i = 11 then bit b 7 else bit b 63)"
  unfolding sb_imm_def imm_sign_def
  by ((subst add_field, (intro below_or below_push below_bits_x; simp)[1])+, simp only: field_bits,
      auto simp: bit_at min_def add.commute not_less le_diff_conv)

lemma bit_uj_imm:
  "bit (uj_imm b) i \<longleftrightarrow> i < 64 \<and> 0 < i \<and>
     (if i < 11 then bit b (i + 20) else if i = 11 then bit b 20 else if i < 20 then bit b i else bit b 63)"
  unfolding uj_imm_def imm_sign_def
  by ((subst add_field, (intro below_or below_push below_bits_x; simp)[1])+, simp only: field_bits,
      auto simp: bit_at min_def add.commute not_less le_diff_conv)

lemma bit_i_imm: "bit (i_imm b) i \<longleftrightarrow> i < 64 \<and> (if i < 44 then bit b (i + 20) else bit b 63)"
proof -
  have "i_imm b = bits_xs b 20 44" by (simp add: i_imm_def bits_xs_def)
  then show ?thesis by (auto simp: bit_bits_xs min_def add.commute)
qed

lemma bit_u_imm: "bit (u_imm b) i \<longleftrightarrow> 12 \<le> i \<and> i < 64 \<and> bit b i"
  by (auto simp: u_imm_def bit_push64 bit_signed_drop_bit_iff)

lemma bit_rvc_imm:
  "bit (rvc_imm b) i \<longleftrightarrow> i < 64 \<and> (if i < 5 then bit b (i + 2) else bit b 12)"
  unfolding rvc_imm_def
  by ((subst add_field, (intro below_or below_push below_bits_x; simp)[1])+, simp only: field_bits,
      auto simp: bit_at min_def add.commute not_less le_diff_conv)

end
