(* ===== verification/Spike_State.thy ===== *)
theory Spike_State
  imports Spike_Base SF_Format
begin

text \<open>
  The state of a simulated hart (\<open>processor.h\<close>), with the translation caches of its memory unit
  (\<open>mmu.h\<close>), the memory and the bus of the machine (\<open>sim.h\<close>), traps (\<open>trap.h\<close>) and the constants of
  \<open>encoding.h\<close> the model uses.

  Memory is the host block \<open>mem\<close> of \<open>memsz\<close> bytes.  An operation returns \<open>None\<close> when the simulator
  would access the host outside that block or abort; otherwise it returns the trap it throws or
  its value, and the state it leaves.
\<close>

subsection \<open>Constants\<close>

definition PTE_V :: u64 where "PTE_V = 0x001"
definition PTE_R :: u64 where "PTE_R = 0x002"
definition PTE_W :: u64 where "PTE_W = 0x004"
definition PTE_X :: u64 where "PTE_X = 0x008"
definition PTE_U :: u64 where "PTE_U = 0x010"
definition PTE_A :: u64 where "PTE_A = 0x040"
definition PTE_D :: u64 where "PTE_D = 0x080"
definition PTE_TABLE :: "u64 \<Rightarrow> bool" where
  "PTE_TABLE pte \<longleftrightarrow> pte AND (PTE_V OR PTE_R OR PTE_W OR PTE_X) = PTE_V"
definition DRAM_BASE :: u64 where "DRAM_BASE = 0x80000000"

definition MSTATUS_UIE :: u64 where "MSTATUS_UIE = 0x1"
definition MSTATUS_SIE :: u64 where "MSTATUS_SIE = 0x2"
definition MSTATUS_MIE :: u64 where "MSTATUS_MIE = 0x8"
definition MSTATUS_SPIE :: u64 where "MSTATUS_SPIE = 0x20"
definition MSTATUS_MPIE :: u64 where "MSTATUS_MPIE = 0x80"
definition MSTATUS_SPP :: u64 where "MSTATUS_SPP = 0x100"
definition MSTATUS_MPP :: u64 where "MSTATUS_MPP = 0x1800"
definition MSTATUS_FS :: u64 where "MSTATUS_FS = 0x6000"
definition MSTATUS_XS :: u64 where "MSTATUS_XS = 0x18000"
definition MSTATUS_MPRV :: u64 where "MSTATUS_MPRV = 0x20000"
definition MSTATUS_PUM :: u64 where "MSTATUS_PUM = 0x40000"
definition MSTATUS_MXR :: u64 where "MSTATUS_MXR = 0x80000"
definition MSTATUS_VM :: u64 where "MSTATUS_VM = 0x1F000000"
definition MSTATUS32_SD :: u64 where "MSTATUS32_SD = 0x80000000"
definition MSTATUS64_SD :: u64 where "MSTATUS64_SD = 0x8000000000000000"

definition PRV_U :: u64 where "PRV_U = 0"
definition PRV_S :: u64 where "PRV_S = 1"
definition PRV_H :: u64 where "PRV_H = 2"
definition PRV_M :: u64 where "PRV_M = 3"
definition VM_MBARE :: u64 where "VM_MBARE = 0"
definition VM_SV32 :: u64 where "VM_SV32 = 8"
definition VM_SV39 :: u64 where "VM_SV39 = 9"
definition VM_SV48 :: u64 where "VM_SV48 = 10"

subsection \<open>Traps\<close>

datatype trap =
    trap_instruction_address_misaligned reg_t
  | trap_instruction_access_fault reg_t
  | trap_illegal_instruction
  | trap_breakpoint
  | trap_load_address_misaligned reg_t
  | trap_store_address_misaligned reg_t
  | trap_load_access_fault reg_t
  | trap_store_access_fault reg_t
  | trap_user_ecall
  | trap_supervisor_ecall
  | trap_hypervisor_ecall
  | trap_machine_ecall
  | trap_interrupt reg_t

fun trap_cause :: "trap \<Rightarrow> reg_t" where
  "trap_cause (trap_instruction_address_misaligned _) = 0x0"
| "trap_cause (trap_instruction_access_fault _) = 0x1"
| "trap_cause trap_illegal_instruction = 0x2"
| "trap_cause trap_breakpoint = 0x3"
| "trap_cause (trap_load_address_misaligned _) = 0x4"
| "trap_cause (trap_load_access_fault _) = 0x5"
| "trap_cause (trap_store_address_misaligned _) = 0x6"
| "trap_cause (trap_store_access_fault _) = 0x7"
| "trap_cause trap_user_ecall = 0x8"
| "trap_cause trap_supervisor_ecall = 0x9"
| "trap_cause trap_hypervisor_ecall = 0xA"
| "trap_cause trap_machine_ecall = 0xB"
| "trap_cause (trap_interrupt which) = which"

fun trap_badaddr :: "trap \<Rightarrow> reg_t option" where
  "trap_badaddr (trap_instruction_address_misaligned a) = Some a"
| "trap_badaddr (trap_instruction_access_fault a) = Some a"
| "trap_badaddr (trap_load_address_misaligned a) = Some a"
| "trap_badaddr (trap_store_address_misaligned a) = Some a"
| "trap_badaddr (trap_load_access_fault a) = Some a"
| "trap_badaddr (trap_store_access_fault a) = Some a"
| "trap_badaddr _ = None"

subsection \<open>State\<close>

record dcsr_t =
  dcsr_prv :: u8
  dcsr_step :: bool
  dcsr_ebreakm :: bool
  dcsr_ebreakh :: bool
  dcsr_ebreaks :: bool
  dcsr_ebreaku :: bool
  dcsr_halt :: bool
  dcsr_cause :: u8

text \<open>A debug trigger; the action and the match kind keep the field's number.\<close>

record mcontrol_t =
  mc_type :: u8
  mc_dmode :: bool
  mc_maskmax :: u8
  mc_select :: bool
  mc_timing :: bool
  mc_action :: u64
  mc_chain :: bool
  mc_match :: u64
  mc_m :: bool
  mc_h :: bool
  mc_s :: bool
  mc_u :: bool
  mc_execute :: bool
  mc_store :: bool
  mc_load :: bool

datatype step_t = STEP_NONE | STEP_STEPPING | STEP_STEPPED

definition num_triggers :: nat where "num_triggers = 4"

record state_t =
  st_pc :: reg_t
  XPR :: "nat \<Rightarrow> reg_t"
  FPR :: "nat \<Rightarrow> u64"
  prv :: reg_t
  mstatus :: reg_t
  mepc :: reg_t
  mbadaddr :: reg_t
  mscratch :: reg_t
  mtvec :: reg_t
  mcause :: reg_t
  minstret :: reg_t
  mie :: reg_t
  mip :: reg_t
  medeleg :: reg_t
  mideleg :: reg_t
  mucounteren :: u32
  mscounteren :: u32
  sepc :: reg_t
  sbadaddr :: reg_t
  sscratch :: reg_t
  stvec :: reg_t
  sptbr :: reg_t
  scause :: reg_t
  dpc :: reg_t
  dscratch :: reg_t
  dcsr :: dcsr_t
  tselect :: reg_t
  mcontrol :: "nat \<Rightarrow> mcontrol_t"
  tdata2 :: "nat \<Rightarrow> reg_t"
  fflags :: u32
  frm :: u32
  serialized :: bool
  single_step :: step_t
  load_reservation :: reg_t
  misa :: reg_t
  max_isa :: reg_t
  max_xlen :: nat
  has_ext :: bool
  hart :: u32
  softfloat :: sf_state

record tlb_t =
  tlb_data :: "nat \<Rightarrow> u64"
  tlb_insn_tag :: "nat \<Rightarrow> reg_t"
  tlb_load_tag :: "nat \<Rightarrow> reg_t"
  tlb_store_tag :: "nat \<Rightarrow> reg_t"

text \<open>The devices on the bus, keyed by the negated address they were added at in ascending order, as
  the map of \<open>bus_t\<close> is; their contents; and the interrupt-pending registers of the other harts.  The
  hart under simulation is processor number \<open>hart\<close>.\<close>

datatype device = Debug_module | Rtc | Proc nat | Rom

record bus_t =
  bus_devices :: "(reg_t \<times> device) list"
  rtc_regs :: "u64 list"
  other_mip :: "nat \<Rightarrow> reg_t"
  boot_rom :: "u8 list"
  debug_ram :: "u8 list"
  debug_interrupts :: "u32 set"
  halt_notifications :: "u32 set"

record machine =
  st :: state_t
  tlb :: tlb_t
  mem :: "u64 \<Rightarrow> u8"
  memsz :: u64
  bus :: bus_t

type_synonym 'a run = "machine \<Rightarrow> ((trap + 'a) \<times> machine) option"

definition ret :: "'a \<Rightarrow> 'a run" where
  "ret a m = Some (Inr a, m)"

definition throw :: "trap \<Rightarrow> 'a run" where
  "throw t m = Some (Inl t, m)"

definition and_then :: "'a run \<Rightarrow> ('a \<Rightarrow> 'b run) \<Rightarrow> 'b run" where
  "and_then c k m = (case c m of None \<Rightarrow> None | Some (Inl t, m) \<Rightarrow> Some (Inl t, m) | Some (Inr a, m) \<Rightarrow> k a m)"

definition supports_extension :: "char \<Rightarrow> state_t \<Rightarrow> bool" where
  "supports_extension c s = bit (misa s) (of_char c - 65)"

subsection \<open>Reading the combinators\<close>

lemma and_then_ret [simp]: "and_then (ret a) k = k a"
  by (simp add: fun_eq_iff and_then_def ret_def)

lemma and_then_throw [simp]: "and_then (throw t) k = throw t"
  by (simp add: fun_eq_iff and_then_def throw_def)

text \<open>An outcome is fine for an invariant and a condition on the value when the simulator has not
  faulted, the state satisfies the invariant, also after a throw, and the value the condition; a run
  keeps an invariant when its outcome is fine from every state that satisfies it.\<close>

definition fine ::
  "(machine \<Rightarrow> bool) \<Rightarrow> ('a \<Rightarrow> bool) \<Rightarrow> ((trap + 'a) \<times> machine) option \<Rightarrow> bool" where
  "fine I Q x = (case x of None \<Rightarrow> False | Some (r, m) \<Rightarrow> I m \<and> (case r of Inl _ \<Rightarrow> True | Inr a \<Rightarrow> Q a))"

definition keeps :: "(machine \<Rightarrow> bool) \<Rightarrow> 'a run \<Rightarrow> ('a \<Rightarrow> bool) \<Rightarrow> bool" where
  "keeps I c Q \<longleftrightarrow> (\<forall>m. I m \<longrightarrow> fine I Q (c m))"

lemma fine_simps [simp]:
  "fine I Q None = False"
  "fine I Q (Some (Inl t, m)) = I m"
  "fine I Q (Some (Inr a, m)) = (I m \<and> Q a)"
  by (simp_all add: fine_def)

lemma fine_ret [simp]: "fine I Q (ret a m) = (I m \<and> Q a)"
  by (simp add: ret_def)

lemma fine_throw [simp]: "fine I Q (throw t m) = I m"
  by (simp add: throw_def)

lemma fine_then:
  assumes "fine I Q (c m)" "\<And>a m'. I m' \<Longrightarrow> Q a \<Longrightarrow> fine I R (k a m')"
  shows "fine I R (and_then c k m)"
  using assms unfolding and_then_def fine_def [of I Q] by (auto split: option.splits sum.splits)

lemma fine_then':
  assumes "fine I Q (c m)" "\<And>a m'. I m' \<Longrightarrow> Q a \<Longrightarrow> fine J R (k a m')" "\<And>m'. I m' \<Longrightarrow> J m'"
  shows "fine J R (and_then c k m)"
  using assms unfolding and_then_def fine_def [of I Q] by (auto split: option.splits sum.splits)

lemma fine_weaken: "fine I Q x \<Longrightarrow> (\<And>m. I m \<Longrightarrow> J m) \<Longrightarrow> fine J Q x"
  unfolding fine_def by (auto split: option.splits sum.splits)

lemma fine_mono: "fine I Q x \<Longrightarrow> (\<And>a. Q a \<Longrightarrow> R a) \<Longrightarrow> fine I R x"
  unfolding fine_def by (auto split: option.splits sum.splits)

lemma fine_if: "(b \<Longrightarrow> fine I Q x) \<Longrightarrow> (\<not> b \<Longrightarrow> fine I Q y) \<Longrightarrow> fine I Q (if b then x else y)"
  by simp

lemma keepsI: "(\<And>m. I m \<Longrightarrow> fine I Q (c m)) \<Longrightarrow> keeps I c Q"
  unfolding keeps_def by blast

lemma keepsD: "keeps I c Q \<Longrightarrow> I m \<Longrightarrow> fine I Q (c m)"
  unfolding keeps_def by blast

lemma keeps_ret: "Q a \<Longrightarrow> keeps I (ret a) Q"
  by (simp add: keeps_def)

lemma keeps_throw: "keeps I (throw t) Q"
  by (simp add: keeps_def)

lemma keeps_then:
  assumes "keeps I c Q" "\<And>a. Q a \<Longrightarrow> keeps I (k a) R"
  shows "keeps I (and_then c k) R"
  by (rule keepsI, rule fine_then [OF keepsD [OF assms(1)]], assumption, rule keepsD [OF assms(2)])

lemma keeps_mono: "keeps I c Q \<Longrightarrow> (\<And>a. Q a \<Longrightarrow> R a) \<Longrightarrow> keeps I c R"
  unfolding keeps_def using fine_mono by blast

end
