(* ===== verification/Spike_Bus.thy ===== *)
theory Spike_Bus
  imports Spike_State
begin

text \<open>
  The bus of the simulator and its devices (\<open>devices.cc\<close>, \<open>rom.cc\<close>, \<open>rtc.cc\<close>, \<open>debug_module.cc\<close>, the
  bus side of \<open>processor.cc\<close>, \<open>sim.cc\<close>): an access outside the memory block goes to the device with
  the greatest address not above it.  A device may change the simulated hart, because the timer and
  the inter-processor interrupt write its interrupt-pending register, and nothing else of it.

  A copy into or out of a device that would leave the array behind it is a fault of the simulator
  (\<open>None\<close>); \<open>bus_ok\<close> is the invariant that excludes it.
\<close>

subsection \<open>Bytes\<close>

definition bytes_value :: "u8 list \<Rightarrow> u64" where
  "bytes_value bytes = foldr (\<lambda>b v. push_bit 8 v OR ucast b) bytes 0"

definition value_bytes :: "nat \<Rightarrow> u64 \<Rightarrow> u8 list" where
  "value_bytes len v = map (\<lambda>i. ucast (drop_bit (8 * i) v)) [0..<len]"

lemma length_value_bytes [simp]: "length (value_bytes len v) = len"
  by (simp add: value_bytes_def)

lemma bytes_value_bytes: "len \<le> 8 \<Longrightarrow> bytes_value (value_bytes len v) = take_bit (8 * len) v"
proof -
  have "foldr (\<lambda>b v. push_bit 8 v OR ucast b) (map (\<lambda>i. ucast (drop_bit (8 * i) v) :: u8) [k..<k + n]) 0
      = take_bit (8 * n) (drop_bit (8 * k) v)" for k n
  proof (induction n arbitrary: k)
    case (Suc n)
    have "[k..<k + Suc n] = k # [Suc k..<Suc k + n]" by (simp add: upt_conv_Cons)
    then have "foldr (\<lambda>b v. push_bit 8 v OR ucast b) (map (\<lambda>i. ucast (drop_bit (8 * i) v) :: u8) [k..<k + Suc n]) 0
        = push_bit 8 (take_bit (8 * n) (drop_bit (8 * Suc k) v)) OR ucast (ucast (drop_bit (8 * k) v) :: u8)"
      using Suc.IH [of "Suc k"] by simp
    also have "\<dots> = take_bit (8 * Suc n) (drop_bit (8 * k) v)"
      by (rule bit_word_eqI) (auto simp: bit_simps algebra_simps)
    finally show ?case .
  qed simp
  from this [of 0 len] show ?thesis by (simp add: bytes_value_def value_bytes_def)
qed

text \<open>\<open>memcpy\<close> out of an array and into it.\<close>

definition copy_out :: "reg_t \<Rightarrow> nat \<Rightarrow> u8 list \<Rightarrow> u8 list option" where
  "copy_out off len data = (if unat off + len \<le> length data then Some (take len (drop (unat off) data)) else None)"

definition copy_in :: "reg_t \<Rightarrow> u8 list \<Rightarrow> u8 list \<Rightarrow> u8 list option" where
  "copy_in off bytes data =
     (if unat off + length bytes \<le> length data
      then Some (take (unat off) data @ bytes @ drop (unat off + length bytes) data) else None)"

definition copied :: "u8 list option \<Rightarrow> (u8 list \<Rightarrow> 'a run) \<Rightarrow> 'a run" where
  "copied r k m = (case r of None \<Rightarrow> None | Some bytes \<Rightarrow> k bytes m)"

subsection \<open>The read-only memory\<close>

definition rom_load :: "reg_t \<Rightarrow> nat \<Rightarrow> (u8 list option) run" where
  "rom_load addr len m =
     (let data = boot_rom (bus m)
      in if of_nat (length data) < addr + of_nat len then ret None m
         else copied (copy_out addr len data) (\<lambda>bytes. ret (Some bytes)) m)"

definition rom_store :: "reg_t \<Rightarrow> u8 list \<Rightarrow> bool run" where
  "rom_store addr bytes = ret False"

subsection \<open>The harts on the bus and the timer\<close>

definition MIP_MSIP :: u64 where "MIP_MSIP = 0x8"
definition MIP_MTIP :: u64 where "MIP_MTIP = 0x80"

text \<open>The interrupt-pending register of processor \<open>i\<close>.\<close>

definition update_mip :: "nat \<Rightarrow> (reg_t \<Rightarrow> reg_t) \<Rightarrow> machine \<Rightarrow> machine" where
  "update_mip i f m =
     (if i = unat (hart (st m)) then m\<lparr>st := (st m)\<lparr>mip := f (mip (st m))\<rparr>\<rparr>
      else m\<lparr>bus := (bus m)\<lparr>other_mip := (other_mip (bus m))(i := f (other_mip (bus m) i))\<rparr>\<rparr>)"

definition processor_load :: "reg_t \<Rightarrow> nat \<Rightarrow> (u8 list option) run" where
  "processor_load addr len = ret None"

definition processor_store :: "nat \<Rightarrow> reg_t \<Rightarrow> u8 list \<Rightarrow> bool run" where
  "processor_store i addr bytes m =
     (if addr = 0
      then ret True (update_mip i (\<lambda>p. let p = p AND NOT MIP_MSIP in if bytes ! 0 AND 1 \<noteq> 0 then p OR MIP_MSIP else p) m)
      else ret False m)"

text \<open>The timer: the time in register 0, the comparator of processor \<open>i\<close> in register \<open>1 + i\<close>.\<close>

definition rtc_size :: "bus_t \<Rightarrow> reg_t" where
  "rtc_size b = of_nat (length (rtc_regs b)) * 8"

definition regs_bytes :: "u64 list \<Rightarrow> u8 list" where
  "regs_bytes regs = concat (map (value_bytes 8) regs)"

definition bytes_regs :: "u8 list \<Rightarrow> u64 list" where
  "bytes_regs bytes = map (\<lambda>i. bytes_value (take 8 (drop (8 * i) bytes))) [0..<length bytes div 8]"

definition rtc_load :: "reg_t \<Rightarrow> nat \<Rightarrow> (u8 list option) run" where
  "rtc_load addr len m =
     (if rtc_size (bus m) < addr + of_nat len then ret None m
      else copied (copy_out addr len (regs_bytes (rtc_regs (bus m)))) (\<lambda>bytes. ret (Some bytes)) m)"

definition timer_pending :: "u64 \<Rightarrow> u64 \<Rightarrow> reg_t \<Rightarrow> reg_t" where
  "timer_pending time timecmp p =
     (let p = p AND NOT MIP_MTIP in if timecmp \<le> time then p OR MIP_MTIP else p)"

definition rtc_increment :: "reg_t \<Rightarrow> machine \<Rightarrow> machine" where
  "rtc_increment inc m =
     (let regs = (rtc_regs (bus m))[0 := rtc_regs (bus m) ! 0 + inc]
      in fold (\<lambda>i. update_mip i (timer_pending (regs ! 0) (regs ! (1 + i)))) [0..<length regs - 1]
           (m\<lparr>bus := (bus m)\<lparr>rtc_regs := regs\<rparr>\<rparr>))"

definition rtc_store :: "reg_t \<Rightarrow> u8 list \<Rightarrow> bool run" where
  "rtc_store addr bytes m =
     (if rtc_size (bus m) < addr + of_nat (length bytes) \<or> addr < 8 then ret False m
      else copied (copy_in addr bytes (regs_bytes (rtc_regs (bus m)))) (\<lambda>new m.
             ret True (rtc_increment 0 (m\<lparr>bus := (bus m)\<lparr>rtc_regs := bytes_regs new\<rparr>\<rparr>))) m)"

subsection \<open>The debug module\<close>

definition DEBUG_START :: reg_t where "DEBUG_START = 0x100"
definition DEBUG_ROM_START :: reg_t where "DEBUG_ROM_START = 0x800"
definition DEBUG_RAM_START :: reg_t where "DEBUG_RAM_START = 0x400"
definition DEBUG_RAM_SIZE :: nat where "DEBUG_RAM_SIZE = 64"
definition DEBUG_RAM_END :: reg_t where "DEBUG_RAM_END = DEBUG_RAM_START + of_nat DEBUG_RAM_SIZE"
definition DEBUG_CLEARDEBINT :: reg_t where "DEBUG_CLEARDEBINT = 0x100"
definition DEBUG_SETHALTNOT :: reg_t where "DEBUG_SETHALTNOT = 0x10c"

definition debug_rom_raw :: "u8 list" where
  "debug_rom_raw =
     [0x6f, 0x00, 0xc0, 0x04, 0x6f, 0x00, 0xc0, 0x00, 0x13, 0x04, 0xf0, 0xff,
      0x6f, 0x00, 0x80, 0x00, 0x13, 0x04, 0x00, 0x00, 0x0f, 0x00, 0xf0, 0x0f,
      0xf3, 0x24, 0x10, 0x30, 0x63, 0xc6, 0x04, 0x00, 0x83, 0x24, 0xc0, 0x43,
      0x6f, 0x00, 0x80, 0x00, 0x83, 0x34, 0x80, 0x43, 0x23, 0x2e, 0x80, 0x42,
      0x73, 0x24, 0x40, 0xf1, 0x23, 0x20, 0x80, 0x10, 0x73, 0x24, 0x00, 0x7b,
      0x13, 0x74, 0x84, 0x00, 0x63, 0x12, 0x04, 0x04, 0x73, 0x24, 0x20, 0x7b,
      0x73, 0x00, 0x20, 0x7b, 0x73, 0x10, 0x24, 0x7b, 0x73, 0x24, 0x00, 0x7b,
      0x13, 0x74, 0x04, 0x1c, 0x13, 0x04, 0x04, 0xf4, 0x63, 0x1e, 0x04, 0x00,
      0x73, 0x24, 0x10, 0x30, 0x63, 0x46, 0x04, 0x00, 0x23, 0x2e, 0x90, 0x42,
      0x67, 0x00, 0x00, 0x40, 0x23, 0x3c, 0x90, 0x42, 0x67, 0x00, 0x00, 0x40,
      0x73, 0x24, 0x40, 0xf1, 0x23, 0x26, 0x80, 0x10, 0x73, 0x60, 0x04, 0x7b,
      0x73, 0x24, 0x00, 0x7b, 0x13, 0x74, 0x04, 0x02, 0xe3, 0x0c, 0x04, 0xfe,
      0x6f, 0xf0, 0x1f, 0xfd]"

definition DEBUG_ROM_END :: reg_t where "DEBUG_ROM_END = DEBUG_ROM_START + of_nat (length debug_rom_raw)"

definition set_halt_notification :: "u32 \<Rightarrow> bus_t \<Rightarrow> bus_t" where
  "set_halt_notification hartid b = b\<lparr>halt_notifications := insert hartid (halt_notifications b)\<rparr>"

definition clear_interrupt :: "u32 \<Rightarrow> bus_t \<Rightarrow> bus_t" where
  "clear_interrupt hartid b = b\<lparr>debug_interrupts := debug_interrupts b - {hartid}\<rparr>"

definition get_interrupt :: "u32 \<Rightarrow> bus_t \<Rightarrow> bool" where
  "get_interrupt hartid b \<longleftrightarrow> hartid \<in> debug_interrupts b"

definition set_interrupt :: "u32 \<Rightarrow> bus_t \<Rightarrow> bus_t" where
  "set_interrupt hartid b = b\<lparr>debug_interrupts := insert hartid (debug_interrupts b)\<rparr>"

definition clear_halt_notification :: "u32 \<Rightarrow> bus_t \<Rightarrow> bus_t" where
  "clear_halt_notification hartid b = b\<lparr>halt_notifications := halt_notifications b - {hartid}\<rparr>"

definition get_halt_notification :: "u32 \<Rightarrow> bus_t \<Rightarrow> bool" where
  "get_halt_notification hartid b \<longleftrightarrow> hartid \<in> halt_notifications b"

text \<open>The debugger's side of the debug memory.\<close>

definition ram_write32 :: "u32 \<Rightarrow> u32 \<Rightarrow> bus_t \<Rightarrow> bus_t option" where
  "ram_write32 index val b =
     map_option (\<lambda>new. b\<lparr>debug_ram := new\<rparr>) (copy_in (ucast (index * 4)) (value_bytes 4 (ucast val)) (debug_ram b))"

definition ram_read32 :: "u32 \<Rightarrow> bus_t \<Rightarrow> u32 option" where
  "ram_read32 index b = map_option (\<lambda>bytes. ucast (bytes_value bytes)) (copy_out (ucast (index * 4)) 4 (debug_ram b))"

definition debug_load :: "reg_t \<Rightarrow> nat \<Rightarrow> (u8 list option) run" where
  "debug_load off len m =
     (let addr = DEBUG_START + off
      in if DEBUG_RAM_START \<le> addr \<and> addr + of_nat len \<le> DEBUG_RAM_END
         then copied (copy_out (addr - DEBUG_RAM_START) len (debug_ram (bus m))) (\<lambda>bytes. ret (Some bytes)) m
         else if DEBUG_ROM_START \<le> addr \<and> addr + of_nat len \<le> DEBUG_ROM_END
         then copied (copy_out (addr - DEBUG_ROM_START) len debug_rom_raw) (\<lambda>bytes. ret (Some bytes)) m
         else ret None m)"

definition debug_store :: "reg_t \<Rightarrow> u8 list \<Rightarrow> bool run" where
  "debug_store off bytes m =
     (let addr = DEBUG_START + off; len = length bytes
      in if addr AND (of_nat len - 1) \<noteq> 0 then ret False m
         else if DEBUG_RAM_START \<le> addr \<and> addr + of_nat len \<le> DEBUG_RAM_END
         then copied (copy_in (addr - DEBUG_RAM_START) bytes (debug_ram (bus m)))
                (\<lambda>new m. ret True (m\<lparr>bus := (bus m)\<lparr>debug_ram := new\<rparr>\<rparr>)) m
         else if len = 4 \<and> addr = DEBUG_CLEARDEBINT
         then ret True (m\<lparr>bus := clear_interrupt (ucast (bytes_value bytes)) (bus m)\<rparr>)
         else if len = 4 \<and> addr = DEBUG_SETHALTNOT
         then ret True (m\<lparr>bus := set_halt_notification (ucast (bytes_value bytes)) (bus m)\<rparr>)
         else ret False m)"

subsection \<open>The bus\<close>

definition add_device :: "reg_t \<Rightarrow> device \<Rightarrow> bus_t \<Rightarrow> bus_t" where
  "add_device addr dev b =
     b\<lparr>bus_devices := insort_key fst (- addr, dev) (filter (\<lambda>e. fst e \<noteq> - addr) (bus_devices b))\<rparr>"

text \<open>\<open>lower_bound\<close>: the first entry whose key is not below the negated address.\<close>

definition lower_bound :: "reg_t \<Rightarrow> bus_t \<Rightarrow> (reg_t \<times> device) option" where
  "lower_bound key b = find (\<lambda>e. key \<le> fst e) (bus_devices b)"

fun device_load :: "device \<Rightarrow> reg_t \<Rightarrow> nat \<Rightarrow> (u8 list option) run" where
  "device_load Debug_module = debug_load"
| "device_load Rtc = rtc_load"
| "device_load (Proc i) = processor_load"
| "device_load Rom = rom_load"

fun device_store :: "device \<Rightarrow> reg_t \<Rightarrow> u8 list \<Rightarrow> bool run" where
  "device_store Debug_module = debug_store"
| "device_store Rtc = rtc_store"
| "device_store (Proc i) = processor_store i"
| "device_store Rom = rom_store"

definition bus_load :: "reg_t \<Rightarrow> nat \<Rightarrow> (u8 list option) run" where
  "bus_load addr len m =
     (case lower_bound (- addr) (bus m) of None \<Rightarrow> ret None m
      | Some (k, dev) \<Rightarrow> device_load dev (addr - - k) len m)"

definition bus_store :: "reg_t \<Rightarrow> u8 list \<Rightarrow> bool run" where
  "bus_store addr bytes m =
     (case lower_bound (- addr) (bus m) of None \<Rightarrow> ret False m
      | Some (k, dev) \<Rightarrow> device_store dev (addr - - k) bytes m)"

definition mmio_load :: "reg_t \<Rightarrow> nat \<Rightarrow> (u8 list option) run" where
  "mmio_load addr len m = (if addr + of_nat len < addr then ret None m else bus_load addr len m)"

definition mmio_store :: "reg_t \<Rightarrow> u8 list \<Rightarrow> bool run" where
  "mmio_store addr bytes m = (if addr + of_nat (length bytes) < addr then ret False m else bus_store addr bytes m)"

text \<open>The devices of a simulator with \<open>n\<close> processors: the constructor of \<open>sim_t\<close> and
  \<open>make_config_string\<close>.  The bytes of the configuration string and what the debug memory holds at the
  start, which the constructor leaves open, are arguments.\<close>

definition EXT_IO_BASE :: reg_t where "EXT_IO_BASE = 0x40000000"
definition DEFAULT_RSTVEC :: reg_t where "DEFAULT_RSTVEC = 0x1000"

definition reset_vec :: "u32 list" where
  "reset_vec = [0x297 + ucast DRAM_BASE - ucast DEFAULT_RSTVEC, 0x00028067, 0, ucast DEFAULT_RSTVEC + 32, 0, 0, 0, 0]"

definition rom_contents :: "u8 list \<Rightarrow> u8 list" where
  "rom_contents config =
     (let rom = concat (map (\<lambda>w. value_bytes 4 (ucast w)) reset_vec) @ config
      in rom @ replicate ((length rom div 0x1000 + 1) * 0x1000 - length rom) 0)"

definition sim_bus :: "u8 list \<Rightarrow> nat \<Rightarrow> u8 list \<Rightarrow> bus_t" where
  "sim_bus ram n config =
     (let b = \<lparr>bus_devices = [], rtc_regs = replicate (1 + n) 0, other_mip = \<lambda>_. 0, boot_rom = rom_contents config,
                debug_ram = ram, debug_interrupts = {}, halt_notifications = {}\<rparr>;
          b = add_device DEBUG_START Debug_module b;
          b = add_device EXT_IO_BASE Rtc b;
          cpu_addr = EXT_IO_BASE + ((rtc_size b - 1) div 0x1000 + 1) * 0x1000;
          b = fold (\<lambda>i. add_device (cpu_addr + of_nat i * 0x1000) (Proc i)) [0..<n] b
      in add_device DEFAULT_RSTVEC Rom b)"

subsection \<open>The invariant of the bus\<close>

text \<open>No device sits in the last bytes before the end of the address space, the debug module sits at
  its address, and the arrays behind the devices have a size the host can have.\<close>

definition bus_ok :: "bus_t \<Rightarrow> bool" where
  "bus_ok b \<longleftrightarrow> (\<forall>(k, dev) \<in> set (bus_devices b). unat k + 8 < 2 ^ 64 \<and> (dev = Debug_module \<longrightarrow> k = - DEBUG_START)) \<and>
     length (debug_ram b) = DEBUG_RAM_SIZE \<and> rtc_regs b \<noteq> [] \<and> length (rtc_regs b) < 2 ^ 60 \<and> length (boot_rom b) < 2 ^ 63"

text \<open>What devices may change of the hart: the bits of the software and the timer interrupt.\<close>

definition device_frame :: "state_t \<Rightarrow> state_t" where
  "device_frame s = s\<lparr>mip := mip s AND NOT (MIP_MSIP OR MIP_MTIP)\<rparr>"

definition same_but_devices :: "machine \<Rightarrow> machine \<Rightarrow> bool" where
  "same_but_devices m m' \<longleftrightarrow> device_frame (st m') = device_frame (st m) \<and> bus_ok (bus m') \<and>
     tlb m' = tlb m \<and> mem m' = mem m \<and> memsz m' = memsz m"


lemma same_but_devices_refl: "bus_ok (bus m) \<Longrightarrow> same_but_devices m m"
  by (simp add: same_but_devices_def)

lemma same_but_devices_trans: "same_but_devices m m' \<Longrightarrow> same_but_devices m' m'' \<Longrightarrow> same_but_devices m m''"
  by (simp add: same_but_devices_def)

lemma length_regs_bytes [simp]: "length (regs_bytes regs) = 8 * length regs"
  by (simp add: regs_bytes_def length_concat comp_def sum_list_triv)

lemma length_bytes_regs [simp]: "length (bytes_regs bytes) = length bytes div 8"
  by (simp add: bytes_regs_def)

lemma copy_out_length: "copy_out off len data = Some bytes \<Longrightarrow> length bytes = len"
  by (auto simp: copy_out_def split: if_splits)

lemma copy_in_length: "copy_in off bytes data = Some new \<Longrightarrow> length new = length data"
  by (auto simp: copy_in_def split: if_splits)

text \<open>The checks of the devices bound the copies.\<close>

lemma no_wrap: "unat (a :: u64) + len < 2 ^ 64 \<Longrightarrow> unat (a + of_nat len) = unat a + len"
  by (subst unat_add_small) (simp_all add: unat_of_nat)

lemma in_array:
  assumes "\<not> of_nat n < a + of_nat len" "unat (a :: u64) + len < 2 ^ 64" "n < 2 ^ 64"
  shows "unat a + len \<le> n"
  using assms(1) no_wrap [OF assms(2)] assms(3) by (simp add: word_less_nat_alt unat_of_nat)

lemma in_window:
  assumes "lo \<le> a" "a + of_nat len \<le> lo + of_nat n" "unat (a :: u64) + len < 2 ^ 64" "unat lo + n < 2 ^ 64"
  shows "unat (a - lo) + len \<le> n"
  using assms(1,2) no_wrap [OF assms(3)] no_wrap [OF assms(4)] by (simp add: word_le_nat_alt unat_sub_small)

lemma copy_out_in: "copy_in off bytes data = Some new \<Longrightarrow> copy_out off (length bytes) new = Some bytes"
  by (auto simp: copy_in_def copy_out_def split: if_splits)

lemma ram_read_write:
  assumes "ram_write32 index val b = Some b'"
  shows "ram_read32 index b' = Some val"
proof -
  obtain new where n: "copy_in (ucast (index * 4)) (value_bytes 4 (ucast val)) (debug_ram b) = Some new" "b' = b\<lparr>debug_ram := new\<rparr>"
    using assms by (auto simp: ram_write32_def)
  have "ucast (take_bit 32 (ucast val :: u64)) = val" by (rule bit_word_eqI) (auto simp: bit_simps)
  then show ?thesis
    using copy_out_in [OF n(1)] n(2) bytes_value_bytes [of 4 "ucast val"] by (simp add: ram_read32_def)
qed

text \<open>Loads leave the machine alone and yield as many bytes as asked for.\<close>

definition loads :: "nat \<Rightarrow> machine \<Rightarrow> ((trap + u8 list option) \<times> machine) option \<Rightarrow> bool" where
  "loads len m x \<longleftrightarrow> (\<exists>r. x = Some (Inr r, m) \<and> (\<forall>bytes. r = Some bytes \<longrightarrow> length bytes = len))"

lemma loads_none: "loads len m (ret None m)"
  by (simp add: loads_def ret_def)

lemma loads_copied: "unat off + len \<le> length data \<Longrightarrow> loads len m (copied (copy_out off len data) (\<lambda>bytes. ret (Some bytes)) m)"
  by (simp add: loads_def copied_def copy_out_def ret_def)

lemma rom_loads: "bus_ok (bus m) \<Longrightarrow> unat off + len < 2 ^ 64 \<Longrightarrow> loads len m (rom_load off len m)"
  unfolding rom_load_def Let_def
  using in_array [of "length (boot_rom (bus m))" off len] by (auto simp: bus_ok_def intro!: loads_none loads_copied)

lemma rtc_in_array:
  assumes "bus_ok b" "\<not> rtc_size b < off + of_nat len" "unat off + len < 2 ^ 64"
  shows "unat off + len \<le> 8 * length (rtc_regs b)"
  by (rule in_array) (use assms in \<open>simp_all add: rtc_size_def bus_ok_def mult.commute\<close>)

lemma rtc_loads: "bus_ok (bus m) \<Longrightarrow> unat off + len < 2 ^ 64 \<Longrightarrow> loads len m (rtc_load off len m)"
  unfolding rtc_load_def using rtc_in_array [of "bus m" off len] by (auto intro!: loads_none loads_copied)

lemma debug_windows:
  assumes "unat a + len < 2 ^ 64"
  shows "DEBUG_RAM_START \<le> a \<Longrightarrow> a + of_nat len \<le> DEBUG_RAM_END \<Longrightarrow> unat (a - DEBUG_RAM_START) + len \<le> DEBUG_RAM_SIZE"
    and "DEBUG_ROM_START \<le> a \<Longrightarrow> a + of_nat len \<le> DEBUG_ROM_END \<Longrightarrow> unat (a - DEBUG_ROM_START) + len \<le> length debug_rom_raw"
proof -
  show "DEBUG_RAM_START \<le> a \<Longrightarrow> a + of_nat len \<le> DEBUG_RAM_END \<Longrightarrow> unat (a - DEBUG_RAM_START) + len \<le> DEBUG_RAM_SIZE"
    by (rule in_window) (use assms in \<open>simp_all add: DEBUG_RAM_END_def DEBUG_RAM_START_def DEBUG_RAM_SIZE_def\<close>)
  show "DEBUG_ROM_START \<le> a \<Longrightarrow> a + of_nat len \<le> DEBUG_ROM_END \<Longrightarrow> unat (a - DEBUG_ROM_START) + len \<le> length debug_rom_raw"
    by (rule in_window) (use assms in \<open>simp_all add: DEBUG_ROM_END_def DEBUG_ROM_START_def debug_rom_raw_def\<close>)
qed

lemma debug_loads:
  "bus_ok (bus m) \<Longrightarrow> unat (DEBUG_START + off) + len < 2 ^ 64 \<Longrightarrow> loads len m (debug_load off len m)"
  unfolding debug_load_def Let_def
  using debug_windows [of "DEBUG_START + off" len] by (auto simp: bus_ok_def intro!: loads_none loads_copied)

text \<open>Stores keep everything but what the devices may change.\<close>

definition stores :: "machine \<Rightarrow> ((trap + bool) \<times> machine) option \<Rightarrow> bool" where
  "stores m x \<longleftrightarrow> (\<exists>r m'. x = Some (Inr r, m') \<and> same_but_devices m m')"

lemma stores_ret: "same_but_devices m m' \<Longrightarrow> stores m (ret r m')"
  by (simp add: stores_def ret_def)

lemma stores_copied:
  assumes "unat off + length bytes \<le> length data" "\<And>new. length new = length data \<Longrightarrow> stores m (g new m)"
  shows "stores m (copied (copy_in off bytes data) g m)"
  using assms(1) assms(2) [of "take (unat off) data @ bytes @ drop (unat off + length bytes) data"]
  by (simp add: copied_def copy_in_def)

lemma stores_if: "(b \<Longrightarrow> stores m x) \<Longrightarrow> (\<not> b \<Longrightarrow> stores m y) \<Longrightarrow> stores m (if b then x else y)"
  by simp

lemma update_mip_same:
  assumes "bus_ok (bus m)" "\<And>p. f p AND NOT (MIP_MSIP OR MIP_MTIP) = p AND NOT (MIP_MSIP OR MIP_MTIP)"
  shows "same_but_devices m (update_mip i f m)" "rtc_regs (bus (update_mip i f m)) = rtc_regs (bus m)"
  using assms by (simp_all add: update_mip_def same_but_devices_def device_frame_def bus_ok_def)

lemma masked_mip:
  assumes "k \<in> {MIP_MSIP, MIP_MTIP}"
  shows "(let p = p AND NOT k in if b then p OR k else p) AND NOT (MIP_MSIP OR MIP_MTIP) = p AND NOT (MIP_MSIP OR MIP_MTIP)"
  using assms by (auto intro!: bit_word_eqI simp: Let_def bit_and_iff bit_or_iff bit_not_iff)

lemma timer_mip: "timer_pending time c p AND NOT (MIP_MSIP OR MIP_MTIP) = p AND NOT (MIP_MSIP OR MIP_MTIP)"
  unfolding timer_pending_def by (rule masked_mip) simp

lemma fold_mip_same:
  assumes "\<And>i p. f i p AND NOT (MIP_MSIP OR MIP_MTIP) = p AND NOT (MIP_MSIP OR MIP_MTIP)"
  shows "bus_ok (bus m) \<Longrightarrow> same_but_devices m (fold (\<lambda>i. update_mip i (f i)) is m)"
proof (induction "is" arbitrary: m)
  case (Cons i "is")
  have s: "same_but_devices m (update_mip i (f i) m)" by (rule update_mip_same [OF Cons.prems assms])
  then have "bus_ok (bus (update_mip i (f i) m))" by (simp add: same_but_devices_def)
  from same_but_devices_trans [OF s Cons.IH [OF this]] show ?case by simp
qed (simp add: same_but_devices_refl)

lemma rtc_increment_same: "bus_ok (bus m) \<Longrightarrow> same_but_devices m (rtc_increment inc m)"
proof -
  assume a: "bus_ok (bus m)"
  define regs m0 where "regs = (rtc_regs (bus m))[0 := rtc_regs (bus m) ! 0 + inc]"
    and "m0 = m\<lparr>bus := (bus m)\<lparr>rtc_regs := regs\<rparr>\<rparr>"
  have s: "same_but_devices m m0" using a by (auto simp: m0_def regs_def same_but_devices_def bus_ok_def)
  then have "bus_ok (bus m0)" by (simp add: same_but_devices_def)
  from same_but_devices_trans [OF s fold_mip_same [OF timer_mip this]] show ?thesis
    unfolding rtc_increment_def Let_def regs_def [symmetric] m0_def .
qed

lemma rtc_stores:
  assumes "bus_ok (bus m)" "unat off + length bytes < 2 ^ 64"
  shows "stores m (rtc_store off bytes m)"
proof (cases "rtc_size (bus m) < off + of_nat (length bytes) \<or> off < 8")
  case False
  then have b: "unat off + length bytes \<le> length (regs_bytes (rtc_regs (bus m)))"
    using rtc_in_array [OF assms(1) _ assms(2)] by simp
  have k: "same_but_devices m (rtc_increment 0 (m\<lparr>bus := (bus m)\<lparr>rtc_regs := bytes_regs new\<rparr>\<rparr>))"
    if "length new = length (regs_bytes (rtc_regs (bus m)))" for new
  proof -
    have "length (bytes_regs new) = length (rtc_regs (bus m))" using that by simp
    then have "bytes_regs new \<noteq> []" using assms(1) unfolding bus_ok_def by (metis length_0_conv)
    then have s: "same_but_devices m (m\<lparr>bus := (bus m)\<lparr>rtc_regs := bytes_regs new\<rparr>\<rparr>)"
      using assms(1) that by (simp add: same_but_devices_def bus_ok_def)
    then have "bus_ok (bus (m\<lparr>bus := (bus m)\<lparr>rtc_regs := bytes_regs new\<rparr>\<rparr>))"
      unfolding same_but_devices_def by blast
    from same_but_devices_trans [OF s rtc_increment_same [OF this]] show ?thesis .
  qed
  show ?thesis unfolding rtc_store_def if_not_P [OF False] by (intro stores_copied [OF b] stores_ret k)
qed (simp add: rtc_store_def stores_ret same_but_devices_refl assms)

lemma debug_stores:
  assumes "bus_ok (bus m)" "unat (DEBUG_START + off) + length bytes < 2 ^ 64"
  shows "stores m (debug_store off bytes m)"
proof -
  have same: "stores m (ret r (m\<lparr>bus := f (bus m)\<rparr>))" if "bus_ok (f (bus m))" for r f
    by (rule stores_ret) (simp add: same_but_devices_def that)
  have ram: "stores m (copied (copy_in (DEBUG_START + off - DEBUG_RAM_START) bytes (debug_ram (bus m)))
      (\<lambda>new m. ret True (m\<lparr>bus := (bus m)\<lparr>debug_ram := new\<rparr>\<rparr>)) m)"
    if "DEBUG_RAM_START \<le> DEBUG_START + off \<and> DEBUG_START + off + of_nat (length bytes) \<le> DEBUG_RAM_END"
  proof (intro stores_copied stores_ret)
    show "unat (DEBUG_START + off - DEBUG_RAM_START) + length bytes \<le> length (debug_ram (bus m))"
      using debug_windows(1) [OF assms(2)] that assms(1) unfolding bus_ok_def by metis
    show "length new = length (debug_ram (bus m)) \<Longrightarrow> same_but_devices m (m\<lparr>bus := (bus m)\<lparr>debug_ram := new\<rparr>\<rparr>)" for new
      using assms(1) by (simp add: bus_ok_def same_but_devices_def)
  qed
  have no: "stores m (ret False m)" by (rule stores_ret) (simp add: same_but_devices_refl assms)
  have "bus_ok (clear_interrupt h (bus m))" "bus_ok (set_halt_notification h (bus m))" for h
    using assms(1) by (simp_all add: bus_ok_def clear_interrupt_def set_halt_notification_def)
  then show ?thesis
    unfolding debug_store_def Let_def by (intro stores_if ram no same)
qed

lemma processor_stores: "bus_ok (bus m) \<Longrightarrow> stores m (processor_store i off bytes m)"
  unfolding processor_store_def
  by (intro stores_if stores_ret same_but_devices_refl update_mip_same(1) masked_mip) simp_all

text \<open>The offset the bus hands to a device.\<close>

lemma sum_mod: "N \<le> s \<Longrightarrow> s < 2 * N \<Longrightarrow> s mod N = s - N" for s N :: nat
  by (simp add: le_mod_geq)

lemma unat_neg: "(a :: u64) \<noteq> 0 \<Longrightarrow> unat (- a) = 2 ^ 64 - unat a"
proof -
  assume "a \<noteq> 0"
  then have p: "0 < unat a" by (simp add: unat_gt_0)
  have "unat (a + - a) = (unat a + unat (- a)) mod 2 ^ 64" by (simp only: unat_word_ariths len_of_numeral_defs) simp
  then have z: "(unat a + unat (- a)) mod 2 ^ 64 = 0" by simp
  then have "\<not> unat a + unat (- a) < 2 ^ 64" using p by auto
  then show ?thesis
    using z sum_mod [of "2 ^ 64" "unat a + unat (- a)"] unat_less_64 [of a] unat_less_64 [of "- a"] by simp
qed

lemma unat_carry: "2 ^ 64 \<le> unat (a :: u64) + unat b \<Longrightarrow> unat (a + b) = unat a + unat b - 2 ^ 64"
  using sum_mod [of "2 ^ 64" "unat a + unat b"] unat_less_64 [of a] unat_less_64 [of b] by (simp add: unat_word_ariths)

lemma offset_bound:
  assumes "- addr \<le> k" "unat k + 8 < 2 ^ 64"
  shows "unat (addr - - k :: u64) + 8 < 2 ^ 64"
proof (cases "addr = 0")
  case False
  then have "unat (- addr) = 2 ^ 64 - unat addr" by (rule unat_neg)
  then have "2 ^ 64 \<le> unat addr + unat k" using assms(1) by (simp add: word_le_nat_alt)
  then have "unat (addr + k) = unat addr + unat k - 2 ^ 64"
    by (rule unat_carry)
  then show ?thesis using assms(2) unat_less_64 [of addr] by simp
qed (use assms in simp)

lemma no_wrap_check: "\<not> a + of_nat len < (a :: u64) \<Longrightarrow> 0 < len \<Longrightarrow> len < 2 ^ 64 \<Longrightarrow> unat a + len < 2 ^ 64"
proof -
  assume a: "\<not> a + of_nat len < a" "0 < len" "len < 2 ^ 64"
  show "unat a + len < 2 ^ 64"
  proof (rule ccontr)
    assume n: "\<not> unat a + len < 2 ^ 64"
    have "unat (of_nat len :: u64) = len" using a(3) by (simp add: unat_of_nat)
    then have "unat (a + of_nat len) = unat a + len - 2 ^ 64"
      using unat_carry [of a "of_nat len"] n by simp
    then show False using a n unat_less_64 [of a] unfolding word_less_nat_alt by linarith
  qed
qed

lemma found_device:
  assumes "bus_ok b" "lower_bound (- addr) b = Some (k, dev)"
  shows "unat (addr - - k) + 8 < 2 ^ 64" "dev = Debug_module \<Longrightarrow> DEBUG_START + (addr - - k) = addr"
proof -
  have f: "(k, dev) \<in> set (bus_devices b)" "- addr \<le> k"
    using assms(2) unfolding lower_bound_def find_Some_iff by (auto simp: in_set_conv_nth, metis fst_conv)
  then have k: "unat k + 8 < 2 ^ 64" "dev = Debug_module \<Longrightarrow> k = - DEBUG_START" using assms(1) by (auto simp: bus_ok_def)
  show "unat (addr - - k) + 8 < 2 ^ 64" by (rule offset_bound [OF f(2) k(1)])
  show "dev = Debug_module \<Longrightarrow> DEBUG_START + (addr - - k) = addr" using k(2) by simp
qed

lemma mmio_loads:
  assumes "bus_ok (bus m)" "len \<in> {1..8}"
  shows "loads len m (mmio_load addr len m)"
proof (cases "addr + of_nat len < addr \<or> lower_bound (- addr) (bus m) = None")
  case False
  then obtain k dev where f: "lower_bound (- addr) (bus m) = Some (k, dev)" "\<not> addr + of_nat len < addr" by auto
  note d = found_device [OF assms(1) f(1)] and w = no_wrap_check [OF f(2)]
  define off where "off = addr - - k"
  have "loads len m (device_load dev off len m)"
    using d [folded off_def] w assms by (cases dev) (auto intro!: debug_loads rtc_loads rom_loads simp: processor_load_def loads_none simp del: diff_minus_eq_add)
  then show ?thesis unfolding off_def using f by (simp add: mmio_load_def bus_load_def)
qed (auto simp: mmio_load_def bus_load_def loads_none)

lemma mmio_stores:
  assumes "bus_ok (bus m)" "length bytes \<in> {1..8}"
  shows "stores m (mmio_store addr bytes m)"
proof (cases "addr + of_nat (length bytes) < addr \<or> lower_bound (- addr) (bus m) = None")
  case False
  then obtain k dev where f: "lower_bound (- addr) (bus m) = Some (k, dev)" "\<not> addr + of_nat (length bytes) < addr" by auto
  have w: "unat addr + length bytes < 2 ^ 64" by (rule no_wrap_check [OF f(2)]) (use assms(2) in auto)
  note d = found_device [OF assms(1) f(1)]
  define off where "off = addr - - k"
  have "stores m (device_store dev off bytes m)"
    using d [folded off_def] w assms by (cases dev) (auto intro!: debug_stores rtc_stores processor_stores stores_ret simp: rom_store_def same_but_devices_refl
        simp del: diff_minus_eq_add)
  then show ?thesis unfolding off_def using f by (simp add: mmio_store_def bus_store_def)
qed (auto simp: mmio_store_def bus_store_def intro!: stores_ret same_but_devices_refl assms)

text \<open>The simulator's own bus satisfies the invariant.\<close>

lemma add_device_ok:
  assumes "bus_ok b" "unat addr > 8" "dev = Debug_module \<longrightarrow> addr = DEBUG_START"
  shows "bus_ok (add_device addr dev b)"
proof -
  have "addr \<noteq> 0" using assms(2) by auto
  then have "unat (- addr) + 8 < 2 ^ 64" using assms(2) unat_less_64 [of addr] by (simp add: unat_neg)
  then show ?thesis using assms by (auto simp: bus_ok_def add_device_def set_insort_key)
qed

lemma add_devices_ok:
  assumes "\<And>i. i \<in> set is \<Longrightarrow> unat (c + of_nat i * 0x1000 :: u64) > 8"
  shows "bus_ok b \<Longrightarrow> bus_ok (fold (\<lambda>i. add_device (c + of_nat i * 0x1000) (Proc i)) is b)"
  using assms by (induction "is" arbitrary: b) (simp_all add: add_device_ok)

lemma length_rom_contents: "length (rom_contents config) = ((32 + length config) div 0x1000 + 1) * 0x1000"
proof -
  have l: "length (concat (map (\<lambda>w. value_bytes 4 (ucast w)) reset_vec)) = 32" by (simp add: reset_vec_def)
  have "length (rom_contents config) = (32 + length config) + (((32 + length config) div 0x1000 + 1) * 0x1000 - (32 + length config))"
    unfolding rom_contents_def Let_def length_append length_replicate l by simp
  moreover have "a \<le> (a div 0x1000 + 1) * 0x1000" for a :: nat using div_mult_mod_eq [of a 4096] mod_less_divisor [of 4096 a] by simp
  ultimately show ?thesis by simp
qed

lemma sim_bus_ok:
  assumes "length ram = DEBUG_RAM_SIZE" "n < 2 ^ 32" "length config < 2 ^ 62"
  shows "bus_ok (sim_bus ram n config)"
proof -
  define b where "b = \<lparr>bus_devices = [], rtc_regs = replicate (1 + n) 0, other_mip = \<lambda>_. 0, boot_rom = rom_contents config,
    debug_ram = ram, debug_interrupts = {}, halt_notifications = {}\<rparr>"
  define b2 where "b2 = add_device EXT_IO_BASE Rtc (add_device DEBUG_START Debug_module b)"
  define c where "c = EXT_IO_BASE + ((rtc_size b2 - 1) div 0x1000 + 1) * 0x1000"
  have "length (rom_contents config) < 2 ^ 63"
    using assms(3) div_le_dividend [of "32 + length config" 4096] div_times_less_eq_dividend [of "32 + length config" 4096]
    unfolding length_rom_contents by simp
  then have "bus_ok b" using assms by (simp add: b_def bus_ok_def)
  then have b2: "bus_ok b2" unfolding b2_def by (intro add_device_ok) (simp_all add: EXT_IO_BASE_def DEBUG_START_def)
  have s: "rtc_size b2 = (1 + of_nat n) * 8" by (simp add: b2_def b_def add_device_def rtc_size_def)
  have un: "unat (of_nat n :: u64) = n" using assms(2) by (simp add: unat_of_nat)
  have "unat (1 + of_nat n :: u64) = 1 + n" using assms(2) by (subst unat_add_small) (simp_all add: un)
  then have u: "unat (rtc_size b2) = (1 + n) * 8"
    unfolding s using assms(2) by (subst unat_mult_small) simp_all
  then have q: "unat ((rtc_size b2 - 1) div 0x1000) < 2 ^ 24"
    using assms(2) by (simp add: unat_div unat_sub_small word_le_nat_alt less_mult_imp_div_less)
  then have "unat ((rtc_size b2 - 1) div 0x1000 + 1) \<le> 2 ^ 24" by (subst unat_add_small) simp_all
  then have x: "unat (((rtc_size b2 - 1) div 0x1000 + 1) * 0x1000) \<le> 2 ^ 36"
    by (subst unat_mult_small) simp_all
  have c: "2 ^ 30 \<le> unat (EXT_IO_BASE + y)" "unat (EXT_IO_BASE + y) \<le> 2 ^ 37" if "unat y \<le> 2 ^ 36" for y :: u64
    using that by (subst unat_add_small, simp_all add: EXT_IO_BASE_def)+
  note c = c [OF x, folded c_def]
  have "8 < unat (c + of_nat i * 0x1000)" if "i \<in> set [0..<n]" for i
  proof -
    have "unat (of_nat i :: u64) = i" using assms(2) that by (simp add: unat_of_nat)
    then have "unat (of_nat i * 0x1000 :: u64) = i * 0x1000" using assms(2) that by (subst unat_mult_small) simp_all
    then have "unat (c + of_nat i * 0x1000) = unat c + i * 0x1000"
      using assms(2) that c by (subst unat_add_small) simp_all
    then show ?thesis using c(1) by simp
  qed
  from add_devices_ok [OF this b2] show ?thesis
    unfolding sim_bus_def Let_def b_def [symmetric] b2_def [symmetric] c_def [symmetric]
    by (rule add_device_ok) (simp_all add: DEFAULT_RSTVEC_def)
qed

end
