(* ===== verification/Spike_MMU.thy ===== *)
theory Spike_MMU
  imports Spike_Bus
begin

text \<open>
  The memory unit of the simulator (\<open>mmu.h\<close>, \<open>mmu.cc\<close>): the page-table walk with the update of the
  accessed and dirty bits, address translation, the translation caches and the loads, stores,
  atomic operations and fetches on top of them.  A cached translation is an offset that turns a
  simulated address into a host address, so a wrong entry would let the simulated program touch the
  memory of the simulator; the invariant \<open>mmu_ok\<close> rules that out.

  The memory tracers (attached only for cache simulation) and the debug triggers are left out: no
  tracer is interested and no trigger matches.
\<close>

subsection \<open>Host memory\<close>

definition host_read :: "u64 \<Rightarrow> nat \<Rightarrow> (u8 list) run" where
  "host_read off len m =
     (if unat off + len \<le> unat (memsz m) then Some (Inr (map (\<lambda>i. mem m (off + of_nat i)) [0..<len]), m) else None)"

definition host_write :: "u64 \<Rightarrow> u8 list \<Rightarrow> unit run" where
  "host_write off bytes m =
     (if unat off + length bytes \<le> unat (memsz m)
      then Some (Inr (), m\<lparr>mem := fold (\<lambda>i f. f(off + of_nat i := bytes ! i)) [0..<length bytes] (mem m)\<rparr>)
      else None)"

definition addr_is_mem :: "reg_t \<Rightarrow> machine \<Rightarrow> bool" where
  "addr_is_mem addr m \<longleftrightarrow> DRAM_BASE \<le> addr \<and> addr < DRAM_BASE + memsz m"

definition addr_to_mem :: "reg_t \<Rightarrow> u64" where
  "addr_to_mem addr = addr - DRAM_BASE"

subsection \<open>Translation\<close>

datatype access_type = LOAD | STORE | FETCH

definition pte_denied :: "access_type \<Rightarrow> bool \<Rightarrow> bool \<Rightarrow> bool \<Rightarrow> u64 \<Rightarrow> bool" where
  "pte_denied ty supervisor pum mxr pte \<longleftrightarrow>
     (if pte AND PTE_U \<noteq> 0 then supervisor \<and> pum else \<not> supervisor) \<or>
     (pte AND PTE_V = 0 \<or> (pte AND PTE_R = 0 \<and> pte AND PTE_W \<noteq> 0)) \<or>
     (case ty of
        FETCH \<Rightarrow> pte AND PTE_X = 0
      | LOAD \<Rightarrow> pte AND PTE_R = 0 \<and> \<not> (mxr \<and> pte AND PTE_X \<noteq> 0)
      | STORE \<Rightarrow> \<not> (pte AND PTE_R \<noteq> 0 \<and> pte AND PTE_W \<noteq> 0))"

fun walk_levels :: "nat \<Rightarrow> nat \<Rightarrow> nat \<Rightarrow> reg_t \<Rightarrow> access_type \<Rightarrow> bool \<Rightarrow> bool \<Rightarrow> bool \<Rightarrow> reg_t \<Rightarrow> reg_t run" where
  "walk_levels 0 ptidxbits ptesize addr ty supervisor pum mxr base = ret (- 1)"
| "walk_levels (Suc i) ptidxbits ptesize addr ty supervisor pum mxr base =
     (let ptshift = i * ptidxbits;
          idx = drop_bit (12 + ptshift) addr AND (push_bit ptidxbits 1 - 1);
          pte_addr = base + idx * of_nat ptesize
      in (\<lambda>m. if \<not> addr_is_mem pte_addr m then ret (- 1) m
              else and_then (host_read (addr_to_mem pte_addr) ptesize) (\<lambda>bytes.
                (let pte = bytes_value bytes;
                     ppn = drop_bit 10 pte
                 in if PTE_TABLE pte
                    then walk_levels i ptidxbits ptesize addr ty supervisor pum mxr (push_bit 12 ppn)
                    else if pte_denied ty supervisor pum mxr pte then ret (- 1)
                    else and_then (host_write (addr_to_mem pte_addr)
                             (value_bytes 4 (pte OR PTE_A OR (if ty = STORE then PTE_D else 0)))) (\<lambda>_.
                           (let vpn = drop_bit 12 addr
                            in ret (push_bit 12 (ppn OR (vpn AND (push_bit ptshift 1 - 1)))))))) m))"

definition walk :: "reg_t \<Rightarrow> access_type \<Rightarrow> reg_t \<Rightarrow> reg_t run" where
  "walk addr ty mode m =
     (let vm = get_field (mstatus (st m)) MSTATUS_VM;
          supervisor = (mode = PRV_S);
          pum = (get_field (mstatus (st m)) MSTATUS_PUM \<noteq> 0);
          mxr = (get_field (mstatus (st m)) MSTATUS_MXR \<noteq> 0);
          go = (\<lambda>levels ptidxbits ptesize.
            (let va_bits = 12 + levels * ptidxbits;
                 msk = push_bit (max_xlen (st m) - (va_bits - 1)) 1 - 1;
                 masked_msbs = drop_bit (va_bits - 1) addr AND msk
             in if masked_msbs \<noteq> 0 \<and> masked_msbs \<noteq> msk then ret (- 1) m
                else walk_levels levels ptidxbits ptesize addr ty supervisor pum mxr (push_bit 12 (sptbr (st m))) m))
      in if vm = VM_SV32 then go 2 10 4
         else if vm = VM_SV39 then go 3 9 8
         else if vm = VM_SV48 then go 4 9 8
         else None)"

definition translate :: "reg_t \<Rightarrow> access_type \<Rightarrow> reg_t run" where
  "translate addr ty m =
     (let mode = prv (st m);
          mode = (if ty \<noteq> FETCH \<and> dcsr_cause (dcsr (st m)) = 0 \<and> get_field (mstatus (st m)) MSTATUS_MPRV \<noteq> 0
                  then get_field (mstatus (st m)) MSTATUS_MPP else mode);
          mode = (if get_field (mstatus (st m)) MSTATUS_VM = VM_MBARE then PRV_M else mode)
      in if mode = PRV_M then ret (addr AND (push_bit (max_xlen (st m) - 1) 2 - 1)) m
         else and_then (walk addr ty mode) (\<lambda>pa. ret (pa OR (addr AND 0xFFF))) m)"

subsection \<open>Translation caches\<close>

definition TLB_ENTRIES :: nat where "TLB_ENTRIES = 256"

definition tlb_index :: "reg_t \<Rightarrow> nat" where
  "tlb_index vpn = unat vpn mod TLB_ENTRIES"

definition flush_tlb :: "machine \<Rightarrow> machine" where
  "flush_tlb m = m\<lparr>tlb := (tlb m)\<lparr>tlb_insn_tag := \<lambda>_. - 1, tlb_load_tag := \<lambda>_. - 1, tlb_store_tag := \<lambda>_. - 1\<rparr>\<rparr>"

definition refill_tlb :: "reg_t \<Rightarrow> reg_t \<Rightarrow> access_type \<Rightarrow> machine \<Rightarrow> machine" where
  "refill_tlb vaddr paddr ty m =
     (let expected = drop_bit 12 vaddr;
          idx = tlb_index expected;
          t = tlb m;
          t = (if tlb_load_tag t idx \<noteq> expected then t\<lparr>tlb_load_tag := (tlb_load_tag t)(idx := - 1)\<rparr> else t);
          t = (if tlb_store_tag t idx \<noteq> expected then t\<lparr>tlb_store_tag := (tlb_store_tag t)(idx := - 1)\<rparr> else t);
          t = (if tlb_insn_tag t idx \<noteq> expected then t\<lparr>tlb_insn_tag := (tlb_insn_tag t)(idx := - 1)\<rparr> else t);
          t = (case ty of
                 FETCH \<Rightarrow> t\<lparr>tlb_insn_tag := (tlb_insn_tag t)(idx := expected)\<rparr>
               | STORE \<Rightarrow> t\<lparr>tlb_store_tag := (tlb_store_tag t)(idx := expected)\<rparr>
               | LOAD \<Rightarrow> t\<lparr>tlb_load_tag := (tlb_load_tag t)(idx := expected)\<rparr>)
      in m\<lparr>tlb := t\<lparr>tlb_data := (tlb_data t)(idx := addr_to_mem paddr - vaddr)\<rparr>\<rparr>)"

subsection \<open>Accesses\<close>

definition load_slow_path :: "reg_t \<Rightarrow> nat \<Rightarrow> (u8 list) run" where
  "load_slow_path addr len =
     and_then (translate addr LOAD) (\<lambda>paddr m.
       if addr_is_mem paddr m
       then and_then (host_read (addr_to_mem paddr) len) (\<lambda>bytes m. ret bytes (refill_tlb addr paddr LOAD m)) m
       else and_then (mmio_load paddr len) (\<lambda>r. case r of None \<Rightarrow> throw (trap_load_access_fault addr) | Some bytes \<Rightarrow> ret bytes) m)"

definition store_slow_path :: "reg_t \<Rightarrow> u8 list \<Rightarrow> unit run" where
  "store_slow_path addr bytes =
     and_then (translate addr STORE) (\<lambda>paddr m.
       if addr_is_mem paddr m
       then and_then (host_write (addr_to_mem paddr) bytes) (\<lambda>_ m. ret () (refill_tlb addr paddr STORE m)) m
       else and_then (mmio_store paddr bytes) (\<lambda>r. if r then ret () else throw (trap_store_access_fault addr)) m)"

definition load_mem :: "nat \<Rightarrow> reg_t \<Rightarrow> u64 run" where
  "load_mem len addr m =
     (if addr AND (of_nat len - 1) \<noteq> 0 then throw (trap_load_address_misaligned addr) m
      else let vpn = drop_bit 12 addr; idx = tlb_index vpn
           in and_then (if tlb_load_tag (tlb m) idx = vpn then host_read (tlb_data (tlb m) idx + addr) len
                        else load_slow_path addr len) (\<lambda>bytes. ret (bytes_value bytes)) m)"

definition store_mem :: "nat \<Rightarrow> reg_t \<Rightarrow> u64 \<Rightarrow> unit run" where
  "store_mem len addr val m =
     (if addr AND (of_nat len - 1) \<noteq> 0 then throw (trap_store_address_misaligned addr) m
      else let vpn = drop_bit 12 addr; idx = tlb_index vpn
           in if tlb_store_tag (tlb m) idx = vpn then host_write (tlb_data (tlb m) idx + addr) (value_bytes len val) m
              else store_slow_path addr (value_bytes len val) m)"

definition amo_mem :: "nat \<Rightarrow> reg_t \<Rightarrow> (u64 \<Rightarrow> u64) \<Rightarrow> u64 run" where
  "amo_mem len addr f m =
     (if addr AND (of_nat len - 1) \<noteq> 0 then throw (trap_store_address_misaligned addr) m
      else case and_then (load_mem len addr) (\<lambda>lhs. and_then (store_mem len addr (f lhs)) (\<lambda>_. ret lhs)) m of
             Some (Inl (trap_load_access_fault a), m) \<Rightarrow> Some (Inl (trap_store_access_fault a), m)
           | r \<Rightarrow> r)"

definition fetch_slow_path :: "reg_t \<Rightarrow> u64 run" where
  "fetch_slow_path vaddr =
     and_then (translate vaddr FETCH) (\<lambda>paddr m.
       if paddr = - 1 \<and> vaddr \<noteq> - 1 then throw (trap_instruction_access_fault vaddr) m
       else if addr_is_mem paddr m
       then (let m = refill_tlb vaddr paddr FETCH m
             in and_then (host_read (addr_to_mem paddr) 2) (\<lambda>bytes. ret (bytes_value bytes)) m)
       else and_then (mmio_load paddr 2)
              (\<lambda>r. case r of None \<Rightarrow> throw (trap_instruction_access_fault vaddr) | Some bytes \<Rightarrow> ret (bytes_value bytes)) m)"

definition translate_insn_addr :: "reg_t \<Rightarrow> u64 run" where
  "translate_insn_addr addr m =
     (let vpn = drop_bit 12 addr; idx = tlb_index vpn
      in if tlb_insn_tag (tlb m) idx = vpn
         then and_then (host_read (tlb_data (tlb m) idx + addr) 2) (\<lambda>bytes. ret (bytes_value bytes)) m
         else fetch_slow_path addr m)"

definition sext16 :: "u64 \<Rightarrow> u64" where
  "sext16 x = scast (ucast x :: u16)"

definition load_insn :: "reg_t \<Rightarrow> u64 run" where
  "load_insn addr =
     and_then (translate_insn_addr addr) (\<lambda>insn.
       (let len = insn_length insn
        in if len = 4
           then and_then (translate_insn_addr (addr + 2)) (\<lambda>hi. ret (insn OR push_bit 16 (sext16 hi)))
           else if len = 2 then ret (sext16 insn)
           else if len = 6
           then and_then (translate_insn_addr (addr + 4)) (\<lambda>h2.
                and_then (translate_insn_addr (addr + 2)) (\<lambda>h1.
                  ret (insn OR push_bit 32 (sext16 h2) OR push_bit 16 h1)))
           else and_then (translate_insn_addr (addr + 6)) (\<lambda>h3.
                and_then (translate_insn_addr (addr + 4)) (\<lambda>h2.
                and_then (translate_insn_addr (addr + 2)) (\<lambda>h1.
                  ret (insn OR push_bit 48 (sext16 h3) OR push_bit 32 h2 OR push_bit 16 h1))))))"

subsection \<open>The invariant of the caches\<close>

text \<open>The block is a whole number of pages and does not wrap around the address space; every valid
  cache entry sits at its own index and its offset leads to a whole page of the block; the
  translation mode is one the walk knows.\<close>

definition page_offset :: "u64 \<Rightarrow> nat" where "page_offset x = unat x mod 4096"

definition mem_ok :: "u64 \<Rightarrow> bool" where
  "mem_ok sz \<longleftrightarrow> 4096 dvd unat sz \<and> unat sz < 2 ^ 63"

definition entry_ok :: "u64 \<Rightarrow> (nat \<Rightarrow> u64) \<Rightarrow> nat \<Rightarrow> reg_t \<Rightarrow> bool" where
  "entry_ok sz data i tag \<longleftrightarrow>
     tag = - 1 \<or> (tlb_index tag = i \<and> page_offset (data i + push_bit 12 tag) = 0 \<and>
       unat (data i + push_bit 12 tag) + 4096 \<le> unat sz)"

definition tlb_ok :: "u64 \<Rightarrow> tlb_t \<Rightarrow> bool" where
  "tlb_ok sz t \<longleftrightarrow> (\<forall>i. entry_ok sz (tlb_data t) i (tlb_insn_tag t i) \<and>
     entry_ok sz (tlb_data t) i (tlb_load_tag t i) \<and> entry_ok sz (tlb_data t) i (tlb_store_tag t i))"

definition vm_ok :: "reg_t \<Rightarrow> bool" where
  "vm_ok s \<longleftrightarrow> get_field s MSTATUS_VM \<in> {VM_MBARE, VM_SV32, VM_SV39, VM_SV48}"

definition mmu_ok :: "machine \<Rightarrow> bool" where
  "mmu_ok m \<longleftrightarrow> mem_ok (memsz m) \<and> tlb_ok (memsz m) (tlb m) \<and> vm_ok (mstatus (st m)) \<and> bus_ok (bus m)"

text \<open>Translations, loads and fetches leave the hart alone, so they are followed at a fixed hart state;
  a store may reach a device, and leaves the hart alone up to what devices may change.\<close>

definition mmu_in :: "state_t \<Rightarrow> machine \<Rightarrow> bool" where
  "mmu_in s m \<longleftrightarrow> mmu_ok m \<and> st m = s"

definition mmu_dev :: "state_t \<Rightarrow> machine \<Rightarrow> bool" where
  "mmu_dev s m \<longleftrightarrow> mmu_ok m \<and> device_frame (st m) = device_frame s"

lemma mmu_in_dev: "mmu_in s m \<Longrightarrow> mmu_dev s m"
  by (simp add: mmu_in_def mmu_dev_def)

lemma device_frameD: "device_frame s' = device_frame s \<Longrightarrow> s' = s\<lparr>mip := mip s'\<rparr>"
proof -
  assume "device_frame s' = device_frame s"
  then have "(device_frame s')\<lparr>mip := mip s'\<rparr> = (device_frame s)\<lparr>mip := mip s'\<rparr>" by simp
  then show ?thesis by (simp add: device_frame_def)
qed

lemma page_offset_add: "page_offset (x + y) = (page_offset x + page_offset y) mod 4096"
proof -
  have "unat (x + y) = (unat x + unat y) mod 2 ^ 64" by (simp add: unat_word_ariths)
  moreover have "n mod 2 ^ 64 mod 4096 = n mod 4096" for n :: nat
    by (rule mod_mod_cancel) simp
  ultimately show ?thesis by (simp add: page_offset_def mod_add_eq)
qed

lemma page_offset_push [simp]: "page_offset (push_bit 12 x) = 0"
proof -
  have "n mod 2 ^ 64 mod 4096 = n mod 4096" for n :: nat by (rule mod_mod_cancel) simp
  then show ?thesis by (simp add: page_offset_def unat_push)
qed

lemma page_split: "unat (x :: u64) = unat (push_bit 12 (drop_bit 12 x)) + page_offset x"
proof -
  have "unat (push_bit 12 (drop_bit 12 x)) = unat x div 4096 * 4096"
    using div_times_less_eq_dividend [of "unat x" 4096] unat_less_64 [of x]
    by (subst unat_push_small) (simp_all add: unat_drop)
  then show ?thesis by (simp add: page_offset_def)
qed

lemma low_bits: "x AND 0xFFF = take_bit 12 (x :: u64)"
  by (simp add: take_bit_eq_mask mask_eq_exp_minus_1)

lemma page_offset_mask: "page_offset x = unat (x AND 0xFFF)"
  unfolding low_bits unat_take page_offset_def by simp

lemma page_offset_word: "push_bit 12 (drop_bit 12 x) + (x AND 0xFFF) = (x :: u64)"
  unfolding low_bits by (rule bits_ident)

text \<open>An aligned access of at most eight bytes stays inside its page.\<close>

lemma aligned_in_page:
  assumes "addr AND (of_nat len - 1) = 0" "len \<in> {1, 2, 4, 8}"
  shows "len dvd page_offset addr" "page_offset addr + len \<le> 4096"
proof -
  obtain k where k: "len = 2 ^ k" "k \<le> 3"
    using assms(2) that [of 0] that [of 1] that [of 2] that [of 3] by auto
  have "(of_nat len - 1 :: u64) = mask k" by (simp add: k mask_eq_exp_minus_1)
  then have "unat addr mod 2 ^ k = 0" using assms(1) by (metis unat_and_mask unsigned_0)
  moreover have "unat addr mod 4096 mod 2 ^ k = unat addr mod 2 ^ k"
    by (rule mod_mod_cancel) (use k in \<open>simp add: le_imp_power_dvd [of k 12 2, simplified]\<close>)
  ultimately show d: "len dvd page_offset addr" by (simp add: page_offset_def k(1) dvd_eq_mod_eq_0)
  have "page_offset addr < 4096" by (simp add: page_offset_def)
  moreover have "len dvd 4096" using assms(2) by auto
  ultimately show "page_offset addr + len \<le> 4096"
    using d by (metis dvd_add_right_iff dvd_imp_le dvd_diff_nat le_add_diff_inverse less_imp_le_nat nat_add_left_cancel_le zero_less_diff)
qed

lemma block_page:
  assumes "mem_ok sz" "n < unat sz"
  shows "n div 4096 * 4096 + 4096 \<le> unat sz"
proof -
  obtain k where k: "unat sz = 4096 * k" using assms(1) unfolding mem_ok_def by (auto elim: dvdE)
  then have "n div 4096 < k" using assms(2) by (simp add: less_mult_imp_div_less)
  then have "(n div 4096 + 1) * 4096 \<le> k * 4096" by (intro mult_le_mono1) simp
  then show ?thesis using k by simp
qed

lemma aligned_in_block:
  assumes "mem_ok sz" "page_offset off + len \<le> 4096" "unat off < unat sz"
  shows "unat off + len \<le> unat sz"
  using block_page [OF assms(1,3)] assms(2) div_mult_mod_eq [of "unat off" 4096]
  unfolding page_offset_def by linarith

lemma unat_minus_one_64: "unat (- 1 :: u64) = 2 ^ 64 - 1"
  by (simp add: unsigned_minus_1_eq_mask mask_eq_exp_minus_1)

lemma page_offset_DRAM: "page_offset DRAM_BASE = 0"
  by (simp add: page_offset_def DRAM_BASE_def)

lemma page_offset_to_mem: "page_offset (addr_to_mem a) = page_offset a"
  using page_offset_add [of "addr_to_mem a" DRAM_BASE] unfolding addr_to_mem_def
  by (simp add: page_offset_DRAM) (simp add: page_offset_def)

lemma addr_to_mem_less:
  assumes "mem_ok (memsz m)" "addr_is_mem a m"
  shows "unat (addr_to_mem a) < unat (memsz m)"
proof -
  have "unat (DRAM_BASE + memsz m) = unat DRAM_BASE + unat (memsz m)"
    by (rule unat_add_small) (use assms(1) in \<open>simp add: mem_ok_def DRAM_BASE_def\<close>)
  moreover have "DRAM_BASE \<le> a" "unat a < unat (DRAM_BASE + memsz m)"
    using assms(2) unfolding addr_is_mem_def word_less_nat_alt by auto
  ultimately show ?thesis unfolding addr_to_mem_def
    by (simp add: unat_sub_small word_le_nat_alt)
qed

lemma not_mem_minus_1: "mem_ok (memsz m) \<Longrightarrow> \<not> addr_is_mem (- 1) m"
proof -
  assume a: "mem_ok (memsz m)"
  have "unat (DRAM_BASE + memsz m) < 2 ^ 64 - 1"
    by (subst unat_add_small) (use a in \<open>simp_all add: mem_ok_def DRAM_BASE_def\<close>)
  then show ?thesis unfolding addr_is_mem_def word_less_nat_alt by (simp add: unat_minus_one_64)
qed

lemma tlb_hit:
  assumes e: "entry_ok sz data i (drop_bit 12 addr)" and l: "page_offset addr + len \<le> 4096"
  shows "unat (data i + addr) + len \<le> unat sz"
proof -
  have "unat (drop_bit 12 addr) < 2 ^ 52"
    using unat_less_64 [of addr] by (simp add: unat_drop less_mult_imp_div_less)
  moreover have "unat (- 1 :: u64) = 2 ^ 64 - 1" by (simp add: unat_minus_one_64)
  ultimately have "drop_bit 12 addr \<noteq> - 1" by auto
  then have t: "page_offset (data i + push_bit 12 (drop_bit 12 addr)) = 0"
    "unat (data i + push_bit 12 (drop_bit 12 addr)) + 4096 \<le> unat sz"
    using e unfolding entry_ok_def by auto
  have eq: "data i + addr = (data i + push_bit 12 (drop_bit 12 addr)) + (addr AND 0xFFF)"
    by (simp only: add.assoc page_offset_word)
  have "unat (data i + addr) = unat (data i + push_bit 12 (drop_bit 12 addr)) + unat (addr AND 0xFFF)"
    unfolding eq by (rule unat_add_small) (use t(2) l unat_less_64 [of sz] in \<open>simp add: page_offset_mask\<close>)
  then have "unat (data i + addr) = unat (data i + push_bit 12 (drop_bit 12 addr)) + page_offset addr"
    by (simp only: page_offset_mask)
  then show ?thesis using t(2) l by linarith
qed

lemma fresh_entry:
  assumes m: "mem_ok (memsz m)" "addr_is_mem paddr m" and pg: "page_offset paddr = page_offset vaddr"
  shows "entry_ok (memsz m) ((tlb_data t)(tlb_index (drop_bit 12 vaddr) := addr_to_mem paddr - vaddr))
    (tlb_index (drop_bit 12 vaddr)) (drop_bit 12 vaddr)"
proof -
  define off lo where "off = addr_to_mem paddr" and "lo = vaddr AND 0xFFF"
  have lo: "unat lo = unat off mod 4096"
    using pg page_offset_to_mem [of paddr] page_offset_mask [of vaddr] by (simp add: off_def lo_def page_offset_def)
  have e: "off - vaddr + push_bit 12 (drop_bit 12 vaddr) = off - lo"
    using page_offset_word [of vaddr] unfolding lo_def by (simp add: algebra_simps)
  have "unat (off - lo) = unat off - unat lo"
    by (rule unat_sub_small) (simp add: word_le_nat_alt lo)
  then have u: "unat (off - lo) = unat off div 4096 * 4096"
    using div_mult_mod_eq [of "unat off" 4096] lo by linarith
  have "unat off div 4096 * 4096 + 4096 \<le> unat (memsz m)"
    unfolding off_def by (rule block_page [OF m(1) addr_to_mem_less [OF m]])
  then show ?thesis unfolding off_def [symmetric] by (simp add: entry_ok_def page_offset_def e u)
qed

lemma refill_keeps:
  assumes "mmu_ok m" "addr_is_mem paddr m" "page_offset paddr = page_offset vaddr"
  shows "mmu_ok (refill_tlb vaddr paddr ty m)"
proof -
  have t: "tlb_ok (memsz m) (tlb m)" and s: "mem_ok (memsz m)" using assms(1) by (simp_all add: mmu_ok_def)
  note fresh = fresh_entry [OF s assms(2,3)]
  have other: "entry_ok (memsz m) (d(k := v)) i x = entry_ok (memsz m) d i x" if "i \<noteq> k" for d i k v x
    using that by (simp add: entry_ok_def)
  have none: "entry_ok z d i (- 1)" for z d i by (simp add: entry_ok_def)
  have "tlb_ok (memsz m) (tlb (refill_tlb vaddr paddr ty m))"
    unfolding tlb_ok_def
  proof (intro allI)
    fix i
    show "entry_ok (memsz m) (tlb_data (tlb (refill_tlb vaddr paddr ty m))) i (tlb_insn_tag (tlb (refill_tlb vaddr paddr ty m)) i) \<and>
      entry_ok (memsz m) (tlb_data (tlb (refill_tlb vaddr paddr ty m))) i (tlb_load_tag (tlb (refill_tlb vaddr paddr ty m)) i) \<and>
      entry_ok (memsz m) (tlb_data (tlb (refill_tlb vaddr paddr ty m))) i (tlb_store_tag (tlb (refill_tlb vaddr paddr ty m)) i)"
      using t [unfolded tlb_ok_def, rule_format, of i] fresh [of "tlb m"]
      by (cases "i = tlb_index (drop_bit 12 vaddr)"; cases ty)
        (auto simp: refill_tlb_def Let_def other none)
  qed
  then show ?thesis using assms(1) by (simp add: mmu_ok_def refill_tlb_def Let_def)
qed

subsection \<open>Every access stays inside the block\<close>

lemma mmu_in_mem [simp]: "mmu_in s (m\<lparr>mem := f\<rparr>) = mmu_in s m"
  by (simp add: mmu_in_def mmu_ok_def)

lemma st_refill [simp]: "st (refill_tlb v p ty m) = st m"
  by (simp add: refill_tlb_def Let_def)

lemma memsz_refill [simp]: "memsz (refill_tlb v p ty m) = memsz m"
  by (simp add: refill_tlb_def Let_def)

lemma refill_in:
  "mmu_in s m \<Longrightarrow> addr_is_mem paddr m \<Longrightarrow> page_offset paddr = page_offset vaddr \<Longrightarrow>
    mmu_in s (refill_tlb vaddr paddr ty m)"
  using refill_keeps unfolding mmu_in_def by (metis st_refill)

lemma aligned_pte:
  assumes b: "page_offset base = 0" and i: "unat idx < 2 ^ k" and l: "2 ^ k * len = 4096"
  shows "page_offset (base + idx * of_nat len) + len \<le> 4096"
proof -
  have "unat idx + 1 \<le> 2 ^ k" using i by simp
  then have "(unat idx + 1) * len \<le> 2 ^ k * len" by (rule mult_le_mono1)
  then have le: "unat idx * len + len \<le> 4096" using l by simp
  have "0 < len" using l by (cases len) simp_all
  have "len \<le> 4096" using le by linarith
  then have ul: "unat (of_nat len :: u64) = len" by (simp add: unat_of_nat)
  have "unat (idx * of_nat len) = unat idx * len"
    by (subst unat_mult_small) (use le in \<open>simp_all add: ul\<close>)
  then have "page_offset (idx * of_nat len) = unat idx * len"
    unfolding page_offset_def using le \<open>0 < len\<close> by simp
  then show ?thesis using le \<open>0 < len\<close> by (simp add: page_offset_add b)
qed

lemma unat_and_low: "k < 64 \<Longrightarrow> unat (x AND (push_bit k 1 - 1) :: u64) < 2 ^ k"
  using unat_and_mask [of x k] by (simp add: mask_eq_exp_minus_1)

lemma walk_levels_keeps:
  assumes "page_offset base = 0" "2 ^ ptidxbits * ptesize = 4096" "4 \<le> ptesize" "ptidxbits < 64"
  shows "keeps (mmu_in s :: machine \<Rightarrow> bool) (walk_levels i ptidxbits ptesize addr ty supervisor pum mxr base)
    (\<lambda>v. v = - 1 \<or> page_offset v = 0)"
  using assms(1)
proof (induction i arbitrary: base)
  case 0
  show ?case by (simp add: keeps_ret)
next
  case (Suc i)
  define idx where "idx = drop_bit (12 + i * ptidxbits) addr AND (push_bit ptidxbits 1 - 1)"
  define pte_addr where "pte_addr = base + idx * of_nat ptesize"
  have "page_offset pte_addr + ptesize \<le> 4096"
    unfolding pte_addr_def idx_def by (rule aligned_pte [OF Suc.prems unat_and_low [OF assms(4)] assms(2)])
  then have pg: "page_offset (addr_to_mem pte_addr) + ptesize \<le> 4096" by (simp add: page_offset_to_mem)
  have inb: "unat (addr_to_mem pte_addr) + ptesize \<le> unat (memsz m)" if "mmu_in s m" "addr_is_mem pte_addr m" for m :: "machine"
    using that aligned_in_block [OF _ pg] addr_to_mem_less unfolding mmu_ok_def mmu_in_def by blast
  show ?case
  proof (rule keepsI)
    fix m :: "machine" assume m: "mmu_in s m"
    show "fine (mmu_in s) (\<lambda>v. v = - 1 \<or> page_offset v = 0)
      (walk_levels (Suc i) ptidxbits ptesize addr ty supervisor pum mxr base m)"
      unfolding walk_levels.simps(2) Let_def idx_def [symmetric] pte_addr_def [symmetric]
    proof (rule fine_if)
      assume mem: "\<not> \<not> addr_is_mem pte_addr m"
      show "fine (mmu_in s) (\<lambda>v. v = - 1 \<or> page_offset v = 0)
        (and_then (host_read (addr_to_mem pte_addr) ptesize) (\<lambda>bytes.
          if PTE_TABLE (bytes_value bytes)
          then walk_levels i ptidxbits ptesize addr ty supervisor pum mxr (push_bit 12 (drop_bit 10 (bytes_value bytes)))
          else if pte_denied ty supervisor pum mxr (bytes_value bytes) then ret (- 1)
          else and_then (host_write (addr_to_mem pte_addr)
                 (value_bytes 4 (bytes_value bytes OR PTE_A OR (if ty = STORE then PTE_D else 0)))) (\<lambda>_.
                 ret (push_bit 12 (drop_bit 10 (bytes_value bytes) OR drop_bit 12 addr AND push_bit (i * ptidxbits) 1 - 1)))) m)"
        using inb [OF m] mem m assms(3) keepsD [OF Suc.IH [OF page_offset_push] m]
        by (auto simp: and_then_def host_read_def host_write_def value_bytes_def ret_def
            simp del: push_bit_or push_bit_and)
    qed (use m in simp)
  qed
qed

lemma page_offset_low: "page_offset (x OR (addr AND 0xFFF)) = page_offset addr" if "page_offset x = 0"
proof -
  have "take_bit 12 x = 0"
    using that unfolding page_offset_mask low_bits by (simp add: unsigned_eq_0_iff)
  then have "take_bit 12 (x OR take_bit 12 addr) = take_bit 12 addr" by simp
  then show ?thesis unfolding page_offset_mask low_bits by simp
qed

lemma minus_1_or [simp]: "(- 1 :: u64) OR x = - 1"
  by (rule bit_word_eqI) (simp add: bit_simps)

lemma walk_keeps:
  assumes m: "mmu_in s m" and vm: "get_field (mstatus s) MSTATUS_VM \<noteq> VM_MBARE"
  shows "fine (mmu_in s) (\<lambda>v. v = - 1 \<or> page_offset v = 0) (walk addr ty mode m)"
proof -
  have go: "fine (mmu_in s) (\<lambda>v. v = - 1 \<or> page_offset v = 0) (if c then ret (- 1) m
      else walk_levels levels ptidxbits ptesize addr ty a b d (push_bit 12 base) m)"
    if "2 ^ ptidxbits * ptesize = 4096" "4 \<le> ptesize" "ptidxbits < 64" for levels ptidxbits ptesize a b c d base
    using keepsD [OF walk_levels_keeps [OF page_offset_push that] m] m by simp
  have "get_field (mstatus (st m)) MSTATUS_VM \<in> {VM_SV32, VM_SV39, VM_SV48}"
    using m vm unfolding mmu_in_def mmu_ok_def vm_ok_def by blast
  moreover have "fine (mmu_in s) (\<lambda>v. v = - 1 \<or> page_offset v = 0) (walk addr ty mode m)"
    if "get_field (mstatus (st m)) MSTATUS_VM = v" "v \<in> {VM_SV32, VM_SV39, VM_SV48}" for v
    unfolding walk_def Let_def that(1)
    by ((rule fine_if, (rule go; simp)[1])+) (use that(2) in blast)
  ultimately show ?thesis by blast
qed

lemma low_mask: "12 \<le> k \<Longrightarrow> page_offset (addr AND (push_bit (k - 1) 2 - 1)) = page_offset (addr :: u64)"
proof -
  assume k: "12 \<le> k"
  then obtain j where j: "k = Suc j" by (cases k) auto
  have e: "push_bit (k - 1) 2 - 1 = (mask k :: u64)"
    unfolding j by (simp add: mask_eq_exp_minus_1 push_bit_eq_mult)
  show ?thesis unfolding page_offset_mask e low_bits
    by (rule arg_cong [of _ _ unat]) (rule bit_word_eqI, use k in \<open>auto simp: bit_simps\<close>)
qed

lemma translate_keeps:
  assumes m: "mmu_in s m" and x: "12 \<le> max_xlen s"
  shows "fine (mmu_in s) (\<lambda>p. p = - 1 \<or> page_offset p = page_offset addr) (translate addr ty m)"
proof -
  have w: "fine (mmu_in s) (\<lambda>p. p = - 1 \<or> page_offset p = page_offset addr)
      (and_then (walk addr ty mode) (\<lambda>pa. ret (pa OR (addr AND 0xFFF))) m)"
    if "get_field (mstatus s) MSTATUS_VM \<noteq> VM_MBARE" for mode
    by (rule fine_then, rule walk_keeps [OF m that]) (auto simp: page_offset_low)
  have "st m = s" using m by (simp add: mmu_in_def)
  then show ?thesis
    unfolding translate_def Let_def
    by (intro fine_if) (use m low_mask [OF x, of addr] w in \<open>auto simp: PRV_M_def\<close>)
qed

text \<open>What a translation yields is either no memory or leads an access that stays in its page to the
  block.\<close>

lemma translated_in_block:
  assumes m: "mmu_in s m" and p: "addr_is_mem paddr m" "paddr = - 1 \<or> page_offset paddr = page_offset addr"
    and l: "page_offset addr + len \<le> 4096"
  shows "unat (addr_to_mem paddr) + len \<le> unat (memsz m)" "page_offset paddr = page_offset addr"
proof -
  have ok: "mem_ok (memsz m)" using m by (simp add: mmu_in_def mmu_ok_def)
  show pg: "page_offset paddr = page_offset addr" using p not_mem_minus_1 [OF ok] by auto
  show "unat (addr_to_mem paddr) + len \<le> unat (memsz m)"
    by (rule aligned_in_block [OF ok _ addr_to_mem_less [OF ok p(1)]]) (use pg l in \<open>simp add: page_offset_to_mem\<close>)
qed

lemma mmio_load_keeps:
  assumes "mmu_in s m" "len \<in> {1..8}"
  shows "fine (mmu_in s) (\<lambda>r. \<forall>bytes. r = Some bytes \<longrightarrow> length bytes = len) (mmio_load addr len m)"
proof -
  have "loads len m (mmio_load addr len m)" by (rule mmio_loads) (use assms in \<open>simp_all add: mmu_in_def mmu_ok_def\<close>)
  then show ?thesis using assms(1) by (auto simp: loads_def)
qed

lemma mmio_store_keeps:
  assumes "mmu_in s m" "length bytes \<in> {1..8}"
  shows "fine (mmu_dev s) (\<lambda>_. True) (mmio_store addr bytes m)"
proof -
  have "stores m (mmio_store addr bytes m)" by (rule mmio_stores) (use assms in \<open>simp_all add: mmu_in_def mmu_ok_def\<close>)
  then obtain r m' where r: "mmio_store addr bytes m = Some (Inr r, m')" "same_but_devices m m'"
    by (auto simp: stores_def)
  have e: "st m' = (st m)\<lparr>mip := mip (st m')\<rparr>"
    by (rule device_frameD) (use r(2) in \<open>simp add: same_but_devices_def\<close>)
  have "mstatus (st m') = mstatus (st m)" by (subst e) simp
  then show ?thesis using r assms(1) by (auto simp: mmu_dev_def mmu_in_def mmu_ok_def same_but_devices_def)
qed

lemma load_slow_keeps:
  assumes m: "mmu_in s m" and x: "12 \<le> max_xlen s" and l: "page_offset addr + len \<le> 4096" and l8: "len \<in> {1..8}"
  shows "fine (mmu_in s) (\<lambda>bytes. length bytes = len) (load_slow_path addr len m)"
  unfolding load_slow_path_def
proof (rule fine_then, rule translate_keeps [OF m x, of addr LOAD])
  fix paddr and m' :: "machine"
  assume m': "mmu_in s m'" and p: "paddr = - 1 \<or> page_offset paddr = page_offset addr"
  show "fine (mmu_in s) (\<lambda>bytes. length bytes = len)
     (if addr_is_mem paddr m'
      then and_then (host_read (addr_to_mem paddr) len) (\<lambda>bytes m. ret bytes (refill_tlb addr paddr LOAD m)) m'
      else and_then (mmio_load paddr len)
            (\<lambda>r. case r of None \<Rightarrow> throw (trap_load_access_fault addr) | Some bytes \<Rightarrow> ret bytes) m')"
  proof (rule fine_if)
    assume a: "addr_is_mem paddr m'"
    note t = translated_in_block [OF m' a p l]
    show "fine (mmu_in s) (\<lambda>bytes. length bytes = len)
      (and_then (host_read (addr_to_mem paddr) len) (\<lambda>bytes m. ret bytes (refill_tlb addr paddr LOAD m)) m')"
      using t(1) refill_in [OF m' a t(2)] by (simp add: and_then_def host_read_def)
  next
    show "fine (mmu_in s) (\<lambda>bytes. length bytes = len) (and_then (mmio_load paddr len)
            (\<lambda>r. case r of None \<Rightarrow> throw (trap_load_access_fault addr) | Some bytes \<Rightarrow> ret bytes) m')"
      by (rule fine_then, rule mmio_load_keeps [OF m' l8]) (simp split: option.split)
  qed
qed

lemma mem_write_dev: "mmu_dev s (refill_tlb v p ty (m\<lparr>mem := f\<rparr>)) = mmu_dev s (refill_tlb v p ty m)"
  by (simp add: mmu_dev_def mmu_ok_def refill_tlb_def Let_def)

lemma mmu_dev_mem [simp]: "mmu_dev s (m\<lparr>mem := f\<rparr>) = mmu_dev s m"
  by (simp add: mmu_dev_def mmu_ok_def)

lemma store_slow_keeps:
  assumes m: "mmu_in s m" and x: "12 \<le> max_xlen s" and l: "page_offset addr + length bytes \<le> 4096"
    and l8: "length bytes \<in> {1..8}"
  shows "fine (mmu_dev s) (\<lambda>_. True) (store_slow_path addr bytes m)"
  unfolding store_slow_path_def
proof (rule fine_then', rule translate_keeps [OF m x, of addr STORE])
  fix paddr and m' :: "machine"
  assume m': "mmu_in s m'" and p: "paddr = - 1 \<or> page_offset paddr = page_offset addr"
  show "fine (mmu_dev s) (\<lambda>_. True)
     (if addr_is_mem paddr m'
      then and_then (host_write (addr_to_mem paddr) bytes) (\<lambda>_ m. ret () (refill_tlb addr paddr STORE m)) m'
      else and_then (mmio_store paddr bytes) (\<lambda>r. if r then ret () else throw (trap_store_access_fault addr)) m')"
  proof (rule fine_if)
    assume a: "addr_is_mem paddr m'"
    note t = translated_in_block [OF m' a p l]
    show "fine (mmu_dev s) (\<lambda>_. True)
      (and_then (host_write (addr_to_mem paddr) bytes) (\<lambda>_ m. ret () (refill_tlb addr paddr STORE m)) m')"
      using t(1) mmu_in_dev [OF refill_in [OF m' a t(2)]] by (simp add: and_then_def host_write_def mem_write_dev)
  next
    show "fine (mmu_dev s) (\<lambda>_. True)
      (and_then (mmio_store paddr bytes) (\<lambda>r. if r then ret () else throw (trap_store_access_fault addr)) m')"
      by (rule fine_then, rule mmio_store_keeps [OF m' l8]) simp
  qed
qed (rule mmu_in_dev)

text \<open>The hit path: the cached entry for the page of an access.\<close>

lemma hit_in_block:
  assumes "mmu_in s m" "page_offset addr + len \<le> 4096"
    and "tag \<in> {tlb_insn_tag (tlb m), tlb_load_tag (tlb m), tlb_store_tag (tlb m)}"
    and "tag (tlb_index (drop_bit 12 addr)) = drop_bit 12 addr"
  shows "unat (tlb_data (tlb m) (tlb_index (drop_bit 12 addr)) + addr) + len \<le> unat (memsz m)"
  by (rule tlb_hit [OF _ assms(2)])
    (use assms(1,3,4) in \<open>unfold mmu_in_def mmu_ok_def tlb_ok_def, metis insertE emptyE\<close>)

lemma bit_bytes_value: "bit (bytes_value bs) i \<Longrightarrow> i < 8 * length bs"
proof (induction bs arbitrary: i)
  case (Cons b bs)
  show ?case
  proof (cases "i < 8")
    case False
    then have "bit (bytes_value bs) (i - 8)"
      using Cons.prems by (auto simp: bytes_value_def bit_simps dest: bit_imp_le_length)
    then show ?thesis using Cons.IH [of "i - 8"] False by simp
  qed simp
qed (simp add: bytes_value_def)

lemma load_keeps:
  assumes m: "mmu_in s m" and x: "12 \<le> max_xlen s" and l: "len \<in> {1, 2, 4, 8}"
  shows "fine (mmu_in s) (\<lambda>v. \<forall>i. bit v i \<longrightarrow> i < 8 * len) (load_mem len addr m)"
  unfolding load_mem_def Let_def
proof (rule fine_if)
  have l8: "len \<in> {1..8}" using l by auto
  assume "\<not> addr AND (of_nat len - 1) \<noteq> 0"
  then have p: "page_offset addr + len \<le> 4096" using aligned_in_page l by blast
  show "fine (mmu_in s) (\<lambda>v. \<forall>i. bit v i \<longrightarrow> i < 8 * len)
     (and_then (if tlb_load_tag (tlb m) (tlb_index (drop_bit 12 addr)) = drop_bit 12 addr
                then host_read (tlb_data (tlb m) (tlb_index (drop_bit 12 addr)) + addr) len
                else load_slow_path addr len) (\<lambda>bytes. ret (bytes_value bytes)) m)"
  proof (rule fine_then [where Q = "\<lambda>bytes. length bytes = len"])
    show "fine (mmu_in s) (\<lambda>bytes. length bytes = len)
      ((if tlb_load_tag (tlb m) (tlb_index (drop_bit 12 addr)) = drop_bit 12 addr
        then host_read (tlb_data (tlb m) (tlb_index (drop_bit 12 addr)) + addr) len else load_slow_path addr len) m)"
      using hit_in_block [OF m p, of "tlb_load_tag (tlb m)"] m load_slow_keeps [OF m x p l8] by (simp add: host_read_def)
  qed (auto dest: bit_bytes_value)
qed (use m in simp)

lemma store_keeps:
  assumes m: "mmu_in s m" and x: "12 \<le> max_xlen s" and l: "len \<in> {1, 2, 4, 8}"
  shows "fine (mmu_dev s) (\<lambda>_. True) (store_mem len addr val m)"
  unfolding store_mem_def Let_def
proof (rule fine_if)
  assume "\<not> addr AND (of_nat len - 1) \<noteq> 0"
  then have p: "page_offset addr + length (value_bytes len val) \<le> 4096"
    using aligned_in_page(2) l by (fastforce simp: value_bytes_def)
  show "fine (mmu_dev s) (\<lambda>_. True)
     (if tlb_store_tag (tlb m) (tlb_index (drop_bit 12 addr)) = drop_bit 12 addr
      then host_write (tlb_data (tlb m) (tlb_index (drop_bit 12 addr)) + addr) (value_bytes len val) m
      else store_slow_path addr (value_bytes len val) m)"
    using hit_in_block [OF m p, of "tlb_store_tag (tlb m)"] mmu_in_dev [OF m] store_slow_keeps [OF m x p] l by (auto simp: host_write_def)
qed (use mmu_in_dev [OF m] in simp)

lemma amo_keeps:
  assumes m: "mmu_in s m" and x: "12 \<le> max_xlen s" and l: "len \<in> {1, 2, 4, 8}"
  shows "fine (mmu_dev s) (\<lambda>_. True) (amo_mem len addr f m)"
proof -
  have "fine (mmu_dev s) (\<lambda>_. True) (and_then (load_mem len addr) (\<lambda>lhs. and_then (store_mem len addr (f lhs)) (\<lambda>_. ret lhs)) m)"
    by (rule fine_then', rule load_keeps [OF m x l], rule fine_then, rule store_keeps [OF _ x l]) (simp_all add: mmu_in_dev)
  then show ?thesis
    unfolding amo_mem_def by (intro fine_if) (use mmu_in_dev [OF m] in \<open>auto simp: fine_def throw_def split: option.splits sum.splits trap.splits\<close>)
qed

lemma even_in_page: "addr AND 1 = 0 \<Longrightarrow> page_offset addr + 2 \<le> 4096"
  by (rule aligned_in_page(2)) simp_all

lemma fetch_slow_keeps:
  assumes m: "mmu_in s m" and x: "12 \<le> max_xlen s" and e: "addr AND 1 = 0"
  shows "fine (mmu_in s) (\<lambda>_. True) (fetch_slow_path addr m)"
  unfolding fetch_slow_path_def
proof (rule fine_then, rule translate_keeps [OF m x, of addr FETCH])
  fix paddr and m' :: "machine"
  assume m': "mmu_in s m'" and p: "paddr = - 1 \<or> page_offset paddr = page_offset addr"
  show "fine (mmu_in s) (\<lambda>_. True)
     (if paddr = - 1 \<and> addr \<noteq> - 1 then throw (trap_instruction_access_fault addr) m'
      else if addr_is_mem paddr m'
      then (let m = refill_tlb addr paddr FETCH m'
            in and_then (host_read (addr_to_mem paddr) 2) (\<lambda>bytes. ret (bytes_value bytes)) m)
      else and_then (mmio_load paddr 2) (\<lambda>r. case r of None \<Rightarrow> throw (trap_instruction_access_fault addr)
              | Some bytes \<Rightarrow> ret (bytes_value bytes)) m')"
  proof (intro fine_if)
    assume a: "addr_is_mem paddr m'"
    note t = translated_in_block [OF m' a p even_in_page [OF e]]
    show "fine (mmu_in s) (\<lambda>_. True) (let m = refill_tlb addr paddr FETCH m'
            in and_then (host_read (addr_to_mem paddr) 2) (\<lambda>bytes. ret (bytes_value bytes)) m)"
      using t(1) refill_in [OF m' a t(2)] by (simp add: and_then_def host_read_def Let_def)
  next
    show "fine (mmu_in s) (\<lambda>_. True) (and_then (mmio_load paddr 2)
       (\<lambda>r. case r of None \<Rightarrow> throw (trap_instruction_access_fault addr) | Some bytes \<Rightarrow> ret (bytes_value bytes)) m')"
      by (rule fine_then, rule mmio_load_keeps [OF m']) (simp_all split: option.split)
  qed (use m' in simp)
qed

lemma translate_insn_keeps:
  assumes m: "mmu_in s m" and x: "12 \<le> max_xlen s" and e: "addr AND 1 = 0"
  shows "fine (mmu_in s) (\<lambda>_. True) (translate_insn_addr addr m)"
  unfolding translate_insn_addr_def Let_def
proof (rule fine_if)
  assume "tlb_insn_tag (tlb m) (tlb_index (drop_bit 12 addr)) = drop_bit 12 addr"
  then show "fine (mmu_in s) (\<lambda>_. True) (and_then (host_read (tlb_data (tlb m) (tlb_index (drop_bit 12 addr)) + addr) 2)
      (\<lambda>bytes. ret (bytes_value bytes)) m)"
    using hit_in_block [OF m even_in_page [OF e], of "tlb_insn_tag (tlb m)"] m by (simp add: and_then_def host_read_def)
qed (rule fetch_slow_keeps [OF m x e])

lemma even_add: "addr AND 1 = 0 \<Longrightarrow> even n \<Longrightarrow> (addr + of_nat n) AND 1 = (0 :: u64)"
  by (simp add: and_one_eq odd_iff_mod_2_eq_one even_iff_mod_2_eq_zero flip: even_iff_mod_2_eq_zero)

lemma load_insn_keeps:
  assumes m: "mmu_in s m" and x: "12 \<le> max_xlen s" and e: "addr AND 1 = 0"
  shows "fine (mmu_in s) (\<lambda>_. True) (load_insn addr m)"
proof -
  have t: "fine (mmu_in s) (\<lambda>_. True) (translate_insn_addr (addr + k) m')" if "mmu_in s m'" "k \<in> {0, 2, 4, 6}" for k m'
    using translate_insn_keeps [OF that(1) x, of "addr + k"] that(2)
      even_add [OF e, of 0] even_add [OF e, of 2] even_add [OF e, of 4] even_add [OF e, of 6] by auto
  have t0: "fine (mmu_in s) (\<lambda>_. True) (translate_insn_addr addr m)" using t [OF m, of 0] by simp
  show ?thesis
    unfolding load_insn_def Let_def
    by (rule fine_then, rule t0)
      (auto split: if_split intro!: fine_then [where Q = "\<lambda>_. True" and I = "mmu_in s"] t)
qed

text \<open>The same from a state of the hart whatever it is.\<close>

lemma fine_same_hart:
  "fine (mmu_in (st m)) Q x \<Longrightarrow> fine (\<lambda>m'. mmu_ok m' \<and> st m' = st m) Q x"
  unfolding fine_def mmu_in_def by (auto split: option.splits)

lemma fine_same_but_pending:
  "fine (mmu_dev (st m)) Q x \<Longrightarrow> fine (\<lambda>m'. mmu_ok m' \<and> device_frame (st m') = device_frame (st m)) Q x"
  unfolding fine_def mmu_dev_def by (auto split: option.splits)

subsection \<open>Reading back what was stored\<close>

definition write_bytes :: "u64 \<Rightarrow> u8 list \<Rightarrow> (u64 \<Rightarrow> u8) \<Rightarrow> u64 \<Rightarrow> u8" where
  "write_bytes off bytes f = fold (\<lambda>i f. f(off + of_nat i := bytes ! i)) [0..<length bytes] f"

definition read_bytes :: "u64 \<Rightarrow> nat \<Rightarrow> (u64 \<Rightarrow> u8) \<Rightarrow> u8 list" where
  "read_bytes off len f = map (\<lambda>i. f (off + of_nat i)) [0..<len]"

lemma write_bytes_at:
  assumes "length bytes < 2 ^ 64"
  shows "i < length bytes \<Longrightarrow> write_bytes off bytes f (off + of_nat i) = bytes ! i"
proof -
  have un: "unat (of_nat j :: u64) = j" if "j < length bytes" for j
    using that assms by (simp add: unat_of_nat)
  have inj: "(of_nat j :: u64) = of_nat k \<longleftrightarrow> j = k" if "j < length bytes" "k < length bytes" for j k
    using un [OF that(1)] un [OF that(2)] by metis
  have "i < n \<Longrightarrow> n \<le> length bytes \<Longrightarrow> fold (\<lambda>i f. f(off + of_nat i := bytes ! i)) [0..<n] f (off + of_nat i) = bytes ! i" for n
    by (induction n) (auto simp: less_Suc_eq inj)
  then show "i < length bytes \<Longrightarrow> write_bytes off bytes f (off + of_nat i) = bytes ! i"
    by (simp add: write_bytes_def)
qed

lemma read_write_bytes: "length bytes < 2 ^ 64 \<Longrightarrow> read_bytes off (length bytes) (write_bytes off bytes f) = bytes"
  by (rule nth_equalityI) (simp_all add: read_bytes_def write_bytes_at)

text \<open>Without translation (\<open>VM_MBARE\<close>) an access goes to the address cut to \<open>xlen\<close> bits, and so do the
  cached entries.\<close>

definition bare_pa :: "state_t \<Rightarrow> reg_t \<Rightarrow> reg_t" where
  "bare_pa s a = a AND (push_bit (max_xlen s - 1) 2 - 1)"

definition bare_entry :: "state_t \<Rightarrow> (nat \<Rightarrow> u64) \<Rightarrow> nat \<Rightarrow> reg_t \<Rightarrow> bool" where
  "bare_entry s data i tag \<longleftrightarrow> tag = - 1 \<or> data i = addr_to_mem (bare_pa s (push_bit 12 tag)) - push_bit 12 tag"

definition bare :: "state_t \<Rightarrow> machine \<Rightarrow> bool" where
  "bare s m \<longleftrightarrow> mmu_in s m \<and> get_field (mstatus s) MSTATUS_VM = VM_MBARE \<and> 12 \<le> max_xlen s \<and>
     (\<forall>i. bare_entry s (tlb_data (tlb m)) i (tlb_load_tag (tlb m) i) \<and>
          bare_entry s (tlb_data (tlb m)) i (tlb_store_tag (tlb m) i))"

lemma bare_page:
  assumes "12 \<le> max_xlen s"
  shows "addr_to_mem (bare_pa s (push_bit 12 (drop_bit 12 a))) - push_bit 12 (drop_bit 12 a) = addr_to_mem (bare_pa s a) - a"
proof -
  obtain j where j: "max_xlen s = Suc j" "12 \<le> Suc j" using assms by (cases "max_xlen s") auto
  have e: "push_bit (max_xlen s - 1) 2 - 1 = (mask (max_xlen s) :: u64)"
    unfolding j by (simp add: mask_eq_exp_minus_1 push_bit_eq_mult)
  have "take_bit (max_xlen s) (push_bit 12 (drop_bit 12 a)) + take_bit 12 a
      = take_bit (max_xlen s) (push_bit 12 (drop_bit 12 a)) OR take_bit 12 a"
    by (rule disjunctive_add_eq_or) (rule bit_word_eqI, auto simp: bit_simps)
  also have "\<dots> = take_bit (max_xlen s) a"
    by (rule bit_word_eqI) (use assms in \<open>auto simp: bit_simps\<close>)
  finally have "bare_pa s a = bare_pa s (push_bit 12 (drop_bit 12 a)) + (a AND 0xFFF)"
    unfolding bare_pa_def e low_bits by (simp flip: take_bit_eq_mask)
  then show ?thesis using page_offset_word [of a] unfolding addr_to_mem_def by (simp add: algebra_simps)
qed

lemma bare_refill:
  assumes "bare s m" "addr_is_mem (bare_pa s addr) m" "page_offset (bare_pa s addr) = page_offset addr"
  shows "bare s (refill_tlb addr (bare_pa s addr) ty m)"
proof -
  have b: "bare_entry s (tlb_data (tlb m)) i (tlb_load_tag (tlb m) i)"
    "bare_entry s (tlb_data (tlb m)) i (tlb_store_tag (tlb m) i)" for i
    using assms(1) unfolding bare_def by blast+
  have x: "12 \<le> max_xlen s" using assms(1) by (simp add: bare_def)
  have other: "bare_entry s (d(k := v)) i y = bare_entry s d i y" if "i \<noteq> k" for d i k v y
    using that by (simp add: bare_entry_def)
  have fresh: "bare_entry s (d(i := addr_to_mem (bare_pa s addr) - addr)) i (drop_bit 12 addr)" for d i
    by (simp add: bare_entry_def bare_page [OF x])
  have none: "bare_entry s d i (- 1)" for d i by (simp add: bare_entry_def)
  have "bare_entry s (tlb_data (tlb (refill_tlb addr (bare_pa s addr) ty m))) i (tlb_load_tag (tlb (refill_tlb addr (bare_pa s addr) ty m)) i) \<and>
        bare_entry s (tlb_data (tlb (refill_tlb addr (bare_pa s addr) ty m))) i (tlb_store_tag (tlb (refill_tlb addr (bare_pa s addr) ty m)) i)" for i
    using b [of i] by (cases "i = tlb_index (drop_bit 12 addr)"; cases ty)
      (auto simp: refill_tlb_def Let_def other none fresh)
  moreover have "mmu_in s (refill_tlb addr (bare_pa s addr) ty m)"
    using refill_in [of s m "bare_pa s addr" addr ty] assms unfolding bare_def by blast
  ultimately show ?thesis using assms(1) unfolding bare_def by blast
qed

lemma bare_translate: "bare s m \<Longrightarrow> translate addr ty m = ret (bare_pa s addr) m"
  by (simp add: translate_def Let_def bare_def mmu_in_def bare_pa_def)

lemma bare_hit:
  assumes "bare s m" "tag \<in> {tlb_load_tag (tlb m), tlb_store_tag (tlb m)}"
    "tag (tlb_index (drop_bit 12 addr)) = drop_bit 12 addr"
  shows "tlb_data (tlb m) (tlb_index (drop_bit 12 addr)) + addr = addr_to_mem (bare_pa s addr)"
proof -
  have "unat (drop_bit 12 addr) < 2 ^ 52"
    using unat_less_64 [of addr] by (simp add: unat_drop less_mult_imp_div_less)
  then have "drop_bit 12 addr \<noteq> - 1" using unat_minus_one_64 by auto
  moreover have "bare_entry s (tlb_data (tlb m)) (tlb_index (drop_bit 12 addr)) (drop_bit 12 addr)"
    using assms unfolding bare_def by (metis insertE emptyE)
  ultimately show ?thesis using assms(1) bare_page [of s addr] unfolding bare_entry_def bare_def by simp
qed

lemma bare_load:
  assumes b: "bare s m" and a: "addr_is_mem (bare_pa s addr) m" and l: "len \<in> {1, 2, 4, 8}"
    and al: "addr AND (of_nat len - 1) = 0"
  shows "\<exists>m'. load_mem len addr m = Some (Inr (bytes_value (read_bytes (addr_to_mem (bare_pa s addr)) len (mem m))), m') \<and>
    bare s m' \<and> mem m' = mem m \<and> memsz m' = memsz m"
proof -
  have m: "mmu_in s m" and x: "12 \<le> max_xlen s" using b by (simp_all add: bare_def)
  have pg: "page_offset (bare_pa s addr) = page_offset addr" unfolding bare_pa_def by (rule low_mask [OF x])
  have inb: "unat (addr_to_mem (bare_pa s addr)) + len \<le> unat (memsz m)"
    by (rule translated_in_block(1) [OF m a _ aligned_in_page(2) [OF al l]]) (simp add: pg)
  have r: "bare s (refill_tlb addr (bare_pa s addr) LOAD m)" by (rule bare_refill [OF b a pg])
  have rm: "mem (refill_tlb addr (bare_pa s addr) LOAD m) = mem m" by (simp add: refill_tlb_def Let_def)
  show ?thesis
  proof (cases "tlb_load_tag (tlb m) (tlb_index (drop_bit 12 addr)) = drop_bit 12 addr")
    case True
    note h = bare_hit [where tag = "tlb_load_tag (tlb m)", OF b _ True, simplified]
    show ?thesis using b inb al
      by (simp add: load_mem_def Let_def True h and_then_def host_read_def ret_def read_bytes_def)
  next
    case False
    then show ?thesis using b inb al a r rm
      by (simp add: load_mem_def Let_def load_slow_path_def bare_translate [OF b] and_then_def ret_def host_read_def read_bytes_def)
  qed
qed

lemma bare_store:
  assumes b: "bare s m" and a: "addr_is_mem (bare_pa s addr) m" and l: "len \<in> {1, 2, 4, 8}"
    and al: "addr AND (of_nat len - 1) = 0"
  shows "\<exists>m'. store_mem len addr v m = Some (Inr (), m') \<and> bare s m' \<and>
    mem m' = write_bytes (addr_to_mem (bare_pa s addr)) (value_bytes len v) (mem m) \<and> memsz m' = memsz m"
proof -
  have m: "mmu_in s m" and x: "12 \<le> max_xlen s" using b by (simp_all add: bare_def)
  have pg: "page_offset (bare_pa s addr) = page_offset addr" unfolding bare_pa_def by (rule low_mask [OF x])
  have inb: "unat (addr_to_mem (bare_pa s addr)) + len \<le> unat (memsz m)"
    by (rule translated_in_block(1) [OF m a _ aligned_in_page(2) [OF al l]]) (simp add: pg)
  have bm: "bare s (m\<lparr>mem := f\<rparr>)" for f using b by (simp add: bare_def)
  have r: "bare s (refill_tlb addr (bare_pa s addr) STORE (m\<lparr>mem := f\<rparr>))" for f
    by (rule bare_refill [OF bm _ pg]) (use a in \<open>simp add: addr_is_mem_def\<close>)
  have rm: "mem (refill_tlb addr (bare_pa s addr) STORE m') = mem m'" for m' :: "machine"
    by (simp add: refill_tlb_def Let_def)
  show ?thesis
  proof (cases "tlb_store_tag (tlb m) (tlb_index (drop_bit 12 addr)) = drop_bit 12 addr")
    case True
    note h = bare_hit [where tag = "tlb_store_tag (tlb m)", OF b _ True, simplified]
    show ?thesis using bm inb al
      by (simp add: store_mem_def Let_def True h host_write_def write_bytes_def)
  next
    case False
    then show ?thesis using inb al a r rm
      by (simp add: store_mem_def Let_def store_slow_path_def bare_translate [OF b] and_then_def ret_def host_write_def write_bytes_def)
  qed
qed

lemma load_after_store:
  assumes b: "bare s m" and a: "addr_is_mem (bare_pa s addr) m" and l: "len \<in> {1, 2, 4, 8}"
    and al: "addr AND (of_nat len - 1) = 0"
  shows "\<exists>m' m''. store_mem len addr v m = Some (Inr (), m') \<and> bare s m' \<and>
    load_mem len addr m' = Some (Inr (take_bit (8 * len) v), m'') \<and> bare s m''"
proof -
  obtain m' where m': "store_mem len addr v m = Some (Inr (), m')" "bare s m'"
    "mem m' = write_bytes (addr_to_mem (bare_pa s addr)) (value_bytes len v) (mem m)" "memsz m' = memsz m"
    using bare_store [OF b a l al, of v] by blast
  have "addr_is_mem (bare_pa s addr) m'" using a m'(4) by (simp add: addr_is_mem_def)
  from bare_load [OF m'(2) this l al] obtain m'' where
    "load_mem len addr m' = Some (Inr (bytes_value (read_bytes (addr_to_mem (bare_pa s addr)) len (mem m'))), m'')" "bare s m''" by blast
  moreover have "read_bytes (addr_to_mem (bare_pa s addr)) len (mem m') = value_bytes len v"
    using read_write_bytes [of "value_bytes len v"] l m'(3) by auto
  ultimately show ?thesis using m'(1,2) l bytes_value_bytes [of len v] by auto
qed

subsection \<open>Properties\<close>

text \<open>An example machine: one page of memory, no translation, empty caches, the bus of a simulator with one
  hart.\<close>

definition no_trigger :: mcontrol_t where
  "no_trigger = \<lparr>mc_type = 0, mc_dmode = False, mc_maskmax = 0, mc_select = False, mc_timing = False, mc_action = 0,
     mc_chain = False, mc_match = 0, mc_m = False, mc_h = False, mc_s = False, mc_u = False, mc_execute = False,
     mc_store = False, mc_load = False\<rparr>"

definition example_hart :: "nat \<Rightarrow> state_t" where
  "example_hart xlen =
     \<lparr>st_pc = DRAM_BASE, XPR = \<lambda>_. 0, FPR = \<lambda>_. 0, prv = PRV_M, mstatus = 0, mepc = 0, mbadaddr = 0, mscratch = 0,
      mtvec = 0, mcause = 0, minstret = 0, mie = 0, mip = 0, medeleg = 0, mideleg = 0, mucounteren = 0, mscounteren = 0,
      sepc = 0, sbadaddr = 0, sscratch = 0, stvec = 0, sptbr = 0, scause = 0, dpc = 0, dscratch = 0,
      dcsr = \<lparr>dcsr_prv = 0, dcsr_step = False, dcsr_ebreakm = False, dcsr_ebreakh = False, dcsr_ebreaks = False,
        dcsr_ebreaku = False, dcsr_halt = False, dcsr_cause = 0\<rparr>,
      tselect = 0, mcontrol = \<lambda>_. no_trigger\<lparr>mc_type := 2\<rparr>, tdata2 = \<lambda>_. 0,
      fflags = 0, frm = 0, serialized = False, single_step = STEP_NONE, load_reservation = - 1, misa = 0x14112D, max_isa = 0x14112D, max_xlen = xlen,
      has_ext = False, hart = 0, softfloat = softfloat_init_state\<rparr>"

definition example_machine :: "nat \<Rightarrow> machine" where
  "example_machine xlen =
     \<lparr>st = example_hart xlen,
      tlb = \<lparr>tlb_data = \<lambda>_. 0, tlb_insn_tag = \<lambda>_. - 1, tlb_load_tag = \<lambda>_. - 1, tlb_store_tag = \<lambda>_. - 1\<rparr>,
      mem = \<lambda>_. 0, memsz = 4096,
      bus = sim_bus (replicate DEBUG_RAM_SIZE 0) 1 []\<rparr>"

lemma get_field_0 [simp]: "get_field 0 msk = 0"
  by (simp add: get_field_def)

lemma example_mmu_ok: "mmu_ok (example_machine xlen)"
  by (simp add: mmu_ok_def mem_ok_def tlb_ok_def entry_ok_def vm_ok_def VM_MBARE_def example_machine_def example_hart_def sim_bus_ok)

lemma example_bare: "12 \<le> xlen \<Longrightarrow> bare (st (example_machine xlen)) (example_machine xlen)"
  using example_mmu_ok [of xlen]
  by (simp add: bare_def mmu_in_def bare_entry_def VM_MBARE_def example_machine_def example_hart_def)

text \<open>C7.  The simulated program cannot reach the memory of the simulator.  In a state whose block,
  translation caches and bus satisfy the invariant \<open>mmu_ok\<close>, and whatever the page tables and the
  contents of the devices are, loads, stores, atomic operations and fetches at even addresses access
  the host only inside the memory block and the arrays of the devices (they never yield the fault
  outcome), throw at most a trap, and keep the invariant, so the next access is safe too.  Loads and
  fetches leave the hart unchanged; stores and atomic operations change nothing of it but the
  software and the timer bit of its interrupt-pending register, through the devices.\<close>

theorem memory_unit_safe:
  assumes "mmu_ok m" "12 \<le> max_xlen (st m)" "len \<in> {1, 2, 4, 8}" "pc AND 1 = 0"
  shows "fine (\<lambda>m'. mmu_ok m' \<and> st m' = st m) (\<lambda>_. True) (load_mem len addr m) \<and>
    fine (\<lambda>m'. mmu_ok m' \<and> device_frame (st m') = device_frame (st m)) (\<lambda>_. True) (store_mem len addr v m) \<and>
    fine (\<lambda>m'. mmu_ok m' \<and> device_frame (st m') = device_frame (st m)) (\<lambda>_. True) (amo_mem len addr f m) \<and>
    fine (\<lambda>m'. mmu_ok m' \<and> st m' = st m) (\<lambda>_. True) (load_insn pc m)"
proof -
  have m: "mmu_in (st m) m" using assms(1) by (simp add: mmu_in_def)
  have "fine (mmu_in (st m)) (\<lambda>_. True) (load_mem len addr m)"
    by (rule fine_mono, rule load_keeps [OF m assms(2,3)]) simp
  then show ?thesis
    using store_keeps [OF m assms(2,3)] amo_keeps [OF m assms(2,3)]
      load_insn_keeps [OF m assms(2,4)]
    by (intro conjI fine_same_hart fine_same_but_pending)
qed

theorem memory_unit_safe_witness:
  "fine (\<lambda>m'. mmu_ok m' \<and> st m' = st (example_machine 32)) (\<lambda>_. True) (load_mem 4 0x40001000 (example_machine 32)) \<and>
    fine (\<lambda>m'. mmu_ok m' \<and> device_frame (st m') = device_frame (st (example_machine 32))) (\<lambda>_. True)
      (store_mem 4 0x40001000 1 (example_machine 32)) \<and>
    fine (\<lambda>m'. mmu_ok m' \<and> device_frame (st m') = device_frame (st (example_machine 32))) (\<lambda>_. True)
      (amo_mem 4 0x40001000 (\<lambda>x. x + 1) (example_machine 32)) \<and>
    fine (\<lambda>m'. mmu_ok m' \<and> st m' = st (example_machine 32)) (\<lambda>_. True) (load_insn 0x80000000 (example_machine 32))"
  by (rule memory_unit_safe) (simp_all add: example_mmu_ok, simp add: example_machine_def example_hart_def)

text \<open>The exception is real: a store to the address of the hart on the bus sends it a software interrupt.\<close>

lemma interrupt_through_bus:
  "\<exists>m'. store_mem 4 0x40001000 1 (example_machine 32) = Some (Inr (), m') \<and> mip (st m') = MIP_MSIP"
proof -
  have b: "bus_devices (sim_bus ram (Suc 0) config) = [(- 0x40001000, Proc 0), (- 0x40000000, Rtc), (- 0x1000, Rom), (- 0x100, Debug_module)]"
    for ram config
    by (simp add: sim_bus_def Let_def add_device_def rtc_size_def DEBUG_START_def EXT_IO_BASE_def DEFAULT_RSTVEC_def)
  have t: "translate 0x40001000 STORE (example_machine 32) = ret 0x40001000 (example_machine 32)"
    by (simp add: translate_def Let_def example_machine_def example_hart_def VM_MBARE_def)
  have l: "lower_bound (- 0x40001000) (bus (example_machine 32)) = Some (- 0x40001000, Proc 0)"
    by (simp add: lower_bound_def example_machine_def b)
  have n: "tlb_store_tag (tlb (example_machine 32)) i = - 1" "memsz (example_machine 32) = 4096"
    "hart (st (example_machine 32)) = 0" "mip (st (example_machine 32)) = 0" for i
    by (simp_all add: example_machine_def example_hart_def)
  show ?thesis
    by (simp add: store_mem_def Let_def n store_slow_path_def and_then_def t ret_def addr_is_mem_def DRAM_BASE_def
        mmio_store_def bus_store_def l processor_store_def update_mip_def value_bytes_def MIP_MSIP_def)
qed

text \<open>The restriction to even addresses is needed: the last byte of the block is a legal odd address
  whose fetch reads one byte past the block.\<close>

lemma odd_fetch_leaves_block: "load_insn (DRAM_BASE + 4095) (example_machine 32) = None"
proof -
  have t: "translate a FETCH (example_machine 32) = ret (a AND 0xFFFFFFFF) (example_machine 32)" for a
    by (simp add: translate_def Let_def example_machine_def example_hart_def VM_MBARE_def)
  have n: "tlb_insn_tag (tlb (example_machine 32)) i = - 1" "memsz (example_machine 32) = 4096" for i
    by (simp_all add: example_machine_def)
  show ?thesis
    by (simp add: load_insn_def translate_insn_addr_def Let_def n fetch_slow_path_def and_then_def t ret_def
        addr_is_mem_def DRAM_BASE_def addr_to_mem_def host_read_def)
qed

text \<open>Emptied caches agree with the untranslated addresses.\<close>

lemma flush_bare:
  assumes "mmu_ok m" "get_field (mstatus (st m)) MSTATUS_VM = VM_MBARE" "12 \<le> max_xlen (st m)"
  shows "bare (st m) (flush_tlb m)"
  using assms by (simp add: bare_def mmu_in_def mmu_ok_def tlb_ok_def entry_ok_def bare_entry_def flush_tlb_def)

text \<open>C36.  A machine that satisfies the safety invariant \<open>mmu_ok\<close>, whose hart has no translation (the mode of
  its status register is \<open>VM_MBARE\<close>) and addresses of at least 12 bits, and whose load and store caches hold, for every page they cache, the offset of the untranslated address, as they do
  when they are empty and after every flush.  At an aligned address in memory a store and the load
  of the same width after it both complete, the load returns what was stored, cut to the width,
  whether the accesses hit or miss the caches, and the caches keep that property, so the next pair of
  accesses behaves the same.\<close>

theorem store_then_load:
  assumes "bare (st m) m" "addr_is_mem (bare_pa (st m) addr) m" "len \<in> {1, 2, 4, 8}" "addr AND (of_nat len - 1) = 0"
  shows "\<exists>m' m''. store_mem len addr v m = Some (Inr (), m') \<and> bare (st m) m' \<and>
    load_mem len addr m' = Some (Inr (take_bit (8 * len) v), m'') \<and> bare (st m) m''"
  by (rule load_after_store [OF assms])

theorem store_then_load_witness:
  "\<exists>m' m''. store_mem 2 0x80000006 0x12345 (example_machine 64) = Some (Inr (), m') \<and> bare (st (example_machine 64)) m' \<and>
    load_mem 2 0x80000006 m' = Some (Inr (take_bit (8 * 2) 0x12345), m'') \<and> bare (st (example_machine 64)) m''"
  by (rule store_then_load [OF example_bare])
    (simp_all add: bare_pa_def addr_is_mem_def DRAM_BASE_def example_machine_def example_hart_def)

end
