(* ===== verification/Spike_Insns.thy ===== *)
theory Spike_Insns
  imports Spike_MMU
begin

text \<open>
  The integer instructions of the simulator, one definition per file of \<open>riscv/insns\<close>: base
  instructions, the M and A extensions and the compressed forms.  An instruction takes the width
  \<open>xlen\<close> it is compiled for, its bits, its address and the address of the next instruction
  (\<open>insn_template.cc\<close>) and returns the address to continue at.
\<close>

subsection \<open>Registers and control\<close>

type_synonym insn_func = "nat \<Rightarrow> u64 \<Rightarrow> reg_t \<Rightarrow> reg_t \<Rightarrow> reg_t run"

definition READ_REG :: "nat \<Rightarrow> machine \<Rightarrow> reg_t" where
  "READ_REG i m = XPR (st m) i"

definition WRITE_REG :: "nat \<Rightarrow> reg_t \<Rightarrow> machine \<Rightarrow> machine" where
  "WRITE_REG i v m = (if i \<noteq> 0 then m\<lparr>st := (st m)\<lparr>XPR := (XPR (st m))(i := v)\<rparr>\<rparr> else m)"

definition RS1 :: "u64 \<Rightarrow> machine \<Rightarrow> reg_t" where "RS1 insn = READ_REG (insn_rs1 insn)"
definition RS2 :: "u64 \<Rightarrow> machine \<Rightarrow> reg_t" where "RS2 insn = READ_REG (insn_rs2 insn)"
definition WRITE_RD :: "u64 \<Rightarrow> reg_t \<Rightarrow> machine \<Rightarrow> machine" where "WRITE_RD insn = WRITE_REG (insn_rd insn)"
definition RVC_RS2 :: "u64 \<Rightarrow> machine \<Rightarrow> reg_t" where "RVC_RS2 insn = READ_REG (rvc_rs2 insn)"
definition RVC_RS1 :: "u64 \<Rightarrow> machine \<Rightarrow> reg_t" where "RVC_RS1 insn = READ_REG (insn_rd insn)"
definition RVC_RS1S :: "u64 \<Rightarrow> machine \<Rightarrow> reg_t" where "RVC_RS1S insn = READ_REG (rvc_rs1s insn)"
definition RVC_RS2S :: "u64 \<Rightarrow> machine \<Rightarrow> reg_t" where "RVC_RS2S insn = READ_REG (rvc_rs2s insn)"
definition RVC_SP :: "machine \<Rightarrow> reg_t" where "RVC_SP = READ_REG 2"
definition WRITE_RVC_RS1S :: "u64 \<Rightarrow> reg_t \<Rightarrow> machine \<Rightarrow> machine" where "WRITE_RVC_RS1S insn = WRITE_REG (rvc_rs1s insn)"
definition WRITE_RVC_RS2S :: "u64 \<Rightarrow> reg_t \<Rightarrow> machine \<Rightarrow> machine" where "WRITE_RVC_RS2S insn = WRITE_REG (rvc_rs2s insn)"

definition require_that :: "bool \<Rightarrow> 'a run \<Rightarrow> 'a run" where
  "require_that b k = (if b then k else throw trap_illegal_instruction)"

definition require_extension :: "char \<Rightarrow> 'a run \<Rightarrow> 'a run" where
  "require_extension c k m = require_that (supports_extension c (st m)) k m"

text \<open>The floating-point registers, for the compressed forms whose meaning depends on the width.  The
  width an instruction is compiled for is the width of the hart.\<close>

definition MSTATUS_SD :: "nat \<Rightarrow> u64" where
  "MSTATUS_SD xlen = (if xlen = 64 then MSTATUS64_SD else MSTATUS32_SD)"

definition dirty_fp_state :: "state_t \<Rightarrow> state_t" where
  "dirty_fp_state s = s\<lparr>mstatus := mstatus s OR (MSTATUS_FS OR MSTATUS_SD (max_xlen s))\<rparr>"

definition READ_FREG :: "nat \<Rightarrow> machine \<Rightarrow> u64" where
  "READ_FREG i m = FPR (st m) i"

definition WRITE_FREG :: "nat \<Rightarrow> u64 \<Rightarrow> machine \<Rightarrow> machine" where
  "WRITE_FREG i v m = m\<lparr>st := dirty_fp_state ((st m)\<lparr>FPR := (FPR (st m))(i := v)\<rparr>)\<rparr>"

definition RVC_FRS2 :: "u64 \<Rightarrow> machine \<Rightarrow> u64" where "RVC_FRS2 insn = READ_FREG (rvc_rs2 insn)"
definition RVC_FRS2S :: "u64 \<Rightarrow> machine \<Rightarrow> u64" where "RVC_FRS2S insn = READ_FREG (rvc_rs2s insn)"
definition WRITE_FRD :: "u64 \<Rightarrow> u64 \<Rightarrow> machine \<Rightarrow> machine" where "WRITE_FRD insn = WRITE_FREG (insn_rd insn)"
definition WRITE_RVC_FRS2S :: "u64 \<Rightarrow> u64 \<Rightarrow> machine \<Rightarrow> machine" where "WRITE_RVC_FRS2S insn = WRITE_FREG (rvc_rs2s insn)"

definition require_fp :: "'a run \<Rightarrow> 'a run" where
  "require_fp k m = require_that (mstatus (st m) AND MSTATUS_FS \<noteq> 0) k m"

definition set_pc :: "nat \<Rightarrow> reg_t \<Rightarrow> reg_t run" where
  "set_pc xlen x m =
     (if x AND 2 \<noteq> 0 \<and> \<not> supports_extension CHR ''C'' (st m)
      then throw (trap_instruction_address_misaligned x) m else ret (sext_xlen xlen x) m)"

definition SHAMT :: "u64 \<Rightarrow> u64" where "SHAMT insn = i_imm insn AND 0x3F"

definition insn_length_pc :: "nat \<Rightarrow> u64 \<Rightarrow> reg_t \<Rightarrow> reg_t" where
  "insn_length_pc xlen opcode pc = sext_xlen xlen (pc + insn_length opcode)"

subsection \<open>Base instructions\<close>

definition insn_add :: "insn_func" where
  "insn_add xlen insn pc npc m =
     ret npc (WRITE_RD insn (sext_xlen xlen (RS1 insn m + RS2 insn m)) m)"

definition insn_addi :: "insn_func" where
  "insn_addi xlen insn pc npc m =
     ret npc (WRITE_RD insn (sext_xlen xlen (RS1 insn m + i_imm insn)) m)"

definition insn_addiw :: "insn_func" where
  "insn_addiw xlen insn pc npc m =
     require_that (xlen = 64) (\<lambda>m. ret npc (WRITE_RD insn (sext32 (i_imm insn + RS1 insn m)) m)) m"

definition insn_addw :: "insn_func" where
  "insn_addw xlen insn pc npc m =
     require_that (xlen = 64) (\<lambda>m. ret npc (WRITE_RD insn (sext32 (RS1 insn m + RS2 insn m)) m)) m"

definition insn_and :: "insn_func" where
  "insn_and xlen insn pc npc m =
     ret npc (WRITE_RD insn (RS1 insn m AND RS2 insn m) m)"

definition insn_andi :: "insn_func" where
  "insn_andi xlen insn pc npc m =
     ret npc (WRITE_RD insn (i_imm insn AND RS1 insn m) m)"

definition insn_auipc :: "insn_func" where
  "insn_auipc xlen insn pc npc m =
     ret npc (WRITE_RD insn (sext_xlen xlen (u_imm insn + pc)) m)"

definition insn_beq :: "insn_func" where
  "insn_beq xlen insn pc npc m =
     (if RS1 insn m = RS2 insn m then set_pc xlen (pc + sb_imm insn) m else ret npc m)"

definition insn_bge :: "insn_func" where
  "insn_bge xlen insn pc npc m =
     (if RS2 insn m <=s RS1 insn m then set_pc xlen (pc + sb_imm insn) m else ret npc m)"

definition insn_bgeu :: "insn_func" where
  "insn_bgeu xlen insn pc npc m =
     (if RS2 insn m \<le> RS1 insn m then set_pc xlen (pc + sb_imm insn) m else ret npc m)"

definition insn_blt :: "insn_func" where
  "insn_blt xlen insn pc npc m =
     (if RS1 insn m <s RS2 insn m then set_pc xlen (pc + sb_imm insn) m else ret npc m)"

definition insn_bltu :: "insn_func" where
  "insn_bltu xlen insn pc npc m =
     (if RS1 insn m < RS2 insn m then set_pc xlen (pc + sb_imm insn) m else ret npc m)"

definition insn_bne :: "insn_func" where
  "insn_bne xlen insn pc npc m =
     (if RS1 insn m \<noteq> RS2 insn m then set_pc xlen (pc + sb_imm insn) m else ret npc m)"

definition insn_jal :: "insn_func" where
  "insn_jal xlen insn pc npc m =
     and_then (set_pc xlen (pc + uj_imm insn)) (\<lambda>npc' m. ret npc' (WRITE_RD insn npc m)) m"

definition insn_jalr :: "insn_func" where
  "insn_jalr xlen insn pc npc m =
     and_then (set_pc xlen ((RS1 insn m + i_imm insn) AND NOT 1)) (\<lambda>npc' m. ret npc' (WRITE_RD insn npc m)) m"

definition insn_lb :: "insn_func" where
  "insn_lb xlen insn pc npc m =
     and_then (load_mem 1 (RS1 insn m + i_imm insn)) (\<lambda>v m. ret npc (WRITE_RD insn (scast (ucast v :: u8)) m)) m"

definition insn_lbu :: "insn_func" where
  "insn_lbu xlen insn pc npc m =
     and_then (load_mem 1 (RS1 insn m + i_imm insn)) (\<lambda>v m. ret npc (WRITE_RD insn (v) m)) m"

definition insn_ld :: "insn_func" where
  "insn_ld xlen insn pc npc m =
     require_that (xlen = 64) (\<lambda>m. and_then (load_mem 8 (RS1 insn m + i_imm insn)) (\<lambda>v m. ret npc (WRITE_RD insn (v) m)) m) m"

definition insn_lh :: "insn_func" where
  "insn_lh xlen insn pc npc m =
     and_then (load_mem 2 (RS1 insn m + i_imm insn)) (\<lambda>v m. ret npc (WRITE_RD insn (sext16 v) m)) m"

definition insn_lhu :: "insn_func" where
  "insn_lhu xlen insn pc npc m =
     and_then (load_mem 2 (RS1 insn m + i_imm insn)) (\<lambda>v m. ret npc (WRITE_RD insn (v) m)) m"

definition insn_lui :: "insn_func" where
  "insn_lui xlen insn pc npc m =
     ret npc (WRITE_RD insn (u_imm insn) m)"

definition insn_lw :: "insn_func" where
  "insn_lw xlen insn pc npc m =
     and_then (load_mem 4 (RS1 insn m + i_imm insn)) (\<lambda>v m. ret npc (WRITE_RD insn (sext32 v) m)) m"

definition insn_lwu :: "insn_func" where
  "insn_lwu xlen insn pc npc m =
     require_that (xlen = 64) (\<lambda>m. and_then (load_mem 4 (RS1 insn m + i_imm insn)) (\<lambda>v m. ret npc (WRITE_RD insn (v) m)) m) m"

definition insn_or :: "insn_func" where
  "insn_or xlen insn pc npc m =
     ret npc (WRITE_RD insn (RS1 insn m OR RS2 insn m) m)"

definition insn_ori :: "insn_func" where
  "insn_ori xlen insn pc npc m =
     ret npc (WRITE_RD insn (i_imm insn OR RS1 insn m) m)"

definition insn_sb :: "insn_func" where
  "insn_sb xlen insn pc npc m =
     and_then (store_mem 1 (RS1 insn m + s_imm insn) (RS2 insn m)) (\<lambda>_. ret npc) m"

definition insn_sd :: "insn_func" where
  "insn_sd xlen insn pc npc m =
     require_that (xlen = 64) (\<lambda>m. and_then (store_mem 8 (RS1 insn m + s_imm insn) (RS2 insn m)) (\<lambda>_. ret npc) m) m"

definition insn_sh :: "insn_func" where
  "insn_sh xlen insn pc npc m =
     and_then (store_mem 2 (RS1 insn m + s_imm insn) (RS2 insn m)) (\<lambda>_. ret npc) m"

definition insn_sw :: "insn_func" where
  "insn_sw xlen insn pc npc m =
     and_then (store_mem 4 (RS1 insn m + s_imm insn) (RS2 insn m)) (\<lambda>_. ret npc) m"

definition insn_sll :: "insn_func" where
  "insn_sll xlen insn pc npc m =
     ret npc (WRITE_RD insn (sext_xlen xlen (push_bit (unat (RS2 insn m AND (of_nat xlen - 1))) (RS1 insn m))) m)"

definition insn_slli :: "insn_func" where
  "insn_slli xlen insn pc npc m =
     require_that (SHAMT insn < of_nat xlen) (\<lambda>m. ret npc (WRITE_RD insn (sext_xlen xlen (push_bit (unat (SHAMT insn)) (RS1 insn m))) m)) m"

definition insn_slliw :: "insn_func" where
  "insn_slliw xlen insn pc npc m =
     require_that (xlen = 64) (\<lambda>m. ret npc (WRITE_RD insn (sext32 (push_bit (unat (SHAMT insn)) (RS1 insn m))) m)) m"

definition insn_sllw :: "insn_func" where
  "insn_sllw xlen insn pc npc m =
     require_that (xlen = 64) (\<lambda>m. ret npc (WRITE_RD insn (sext32 (push_bit (unat (RS2 insn m AND 0x1F)) (RS1 insn m))) m)) m"

definition insn_slt :: "insn_func" where
  "insn_slt xlen insn pc npc m =
     ret npc (WRITE_RD insn (of_bool (RS1 insn m <s RS2 insn m)) m)"

definition insn_slti :: "insn_func" where
  "insn_slti xlen insn pc npc m =
     ret npc (WRITE_RD insn (of_bool (RS1 insn m <s i_imm insn)) m)"

definition insn_sltiu :: "insn_func" where
  "insn_sltiu xlen insn pc npc m =
     ret npc (WRITE_RD insn (of_bool (RS1 insn m < i_imm insn)) m)"

definition insn_sltu :: "insn_func" where
  "insn_sltu xlen insn pc npc m =
     ret npc (WRITE_RD insn (of_bool (RS1 insn m < RS2 insn m)) m)"

definition insn_sra :: "insn_func" where
  "insn_sra xlen insn pc npc m =
     ret npc (WRITE_RD insn (sext_xlen xlen (signed_drop_bit (unat (RS2 insn m AND (of_nat xlen - 1))) (sext_xlen xlen (RS1 insn m)))) m)"

definition insn_srai :: "insn_func" where
  "insn_srai xlen insn pc npc m =
     require_that (SHAMT insn < of_nat xlen) (\<lambda>m. ret npc (WRITE_RD insn (sext_xlen xlen (signed_drop_bit (unat (SHAMT insn)) (sext_xlen xlen (RS1 insn m)))) m)) m"

definition insn_sraiw :: "insn_func" where
  "insn_sraiw xlen insn pc npc m =
     require_that (xlen = 64) (\<lambda>m. ret npc (WRITE_RD insn (scast (signed_drop_bit (unat (SHAMT insn)) (ucast (RS1 insn m) :: u32))) m)) m"

definition insn_sraw :: "insn_func" where
  "insn_sraw xlen insn pc npc m =
     require_that (xlen = 64) (\<lambda>m. ret npc (WRITE_RD insn (scast (signed_drop_bit (unat (RS2 insn m AND 0x1F)) (ucast (RS1 insn m) :: u32))) m)) m"

definition insn_srl :: "insn_func" where
  "insn_srl xlen insn pc npc m =
     ret npc (WRITE_RD insn (sext_xlen xlen (drop_bit (unat (RS2 insn m AND (of_nat xlen - 1))) (zext_xlen xlen (RS1 insn m)))) m)"

definition insn_srli :: "insn_func" where
  "insn_srli xlen insn pc npc m =
     require_that (SHAMT insn < of_nat xlen) (\<lambda>m. ret npc (WRITE_RD insn (sext_xlen xlen (drop_bit (unat (SHAMT insn)) (zext_xlen xlen (RS1 insn m)))) m)) m"

definition insn_srliw :: "insn_func" where
  "insn_srliw xlen insn pc npc m =
     require_that (xlen = 64) (\<lambda>m. ret npc (WRITE_RD insn (scast (drop_bit (unat (SHAMT insn)) (ucast (RS1 insn m) :: u32))) m)) m"

definition insn_srlw :: "insn_func" where
  "insn_srlw xlen insn pc npc m =
     require_that (xlen = 64) (\<lambda>m. ret npc (WRITE_RD insn (scast (drop_bit (unat (RS2 insn m AND 0x1F)) (ucast (RS1 insn m) :: u32))) m)) m"

definition insn_sub :: "insn_func" where
  "insn_sub xlen insn pc npc m =
     ret npc (WRITE_RD insn (sext_xlen xlen (RS1 insn m - RS2 insn m)) m)"

definition insn_subw :: "insn_func" where
  "insn_subw xlen insn pc npc m =
     require_that (xlen = 64) (\<lambda>m. ret npc (WRITE_RD insn (sext32 (RS1 insn m - RS2 insn m)) m)) m"

definition insn_xor :: "insn_func" where
  "insn_xor xlen insn pc npc m =
     ret npc (WRITE_RD insn (RS1 insn m XOR RS2 insn m) m)"

definition insn_xori :: "insn_func" where
  "insn_xori xlen insn pc npc m =
     ret npc (WRITE_RD insn (i_imm insn XOR RS1 insn m) m)"

definition insn_fence :: "insn_func" where
  "insn_fence xlen insn pc npc m =
     ret npc m"

definition insn_wfi :: "insn_func" where
  "insn_wfi xlen insn pc npc m =
     ret npc m"

definition insn_ebreak :: "insn_func" where
  "insn_ebreak xlen insn pc npc m =
     throw trap_breakpoint m"

definition insn_ecall :: "insn_func" where
  "insn_ecall xlen insn pc npc m =
     (if prv (st m) = PRV_U then throw trap_user_ecall m
      else if prv (st m) = PRV_S then throw trap_supervisor_ecall m
      else if prv (st m) = PRV_H then throw trap_hypervisor_ecall m
      else if prv (st m) = PRV_M then throw trap_machine_ecall m
      else ret npc m)"

subsection \<open>Multiplication and division\<close>

definition sdiv_trunc :: "u64 \<Rightarrow> u64 \<Rightarrow> u64" where
  "sdiv_trunc a b = word_of_int (sint a sdiv sint b)"

definition smod_trunc :: "u64 \<Rightarrow> u64 \<Rightarrow> u64" where
  "smod_trunc a b = word_of_int (sint a smod sint b)"

definition insn_mul :: "insn_func" where
  "insn_mul xlen insn pc npc m =
     require_extension CHR ''M'' (\<lambda>m. ret npc (WRITE_RD insn (sext_xlen xlen (RS1 insn m * RS2 insn m)) m)) m"

definition insn_mulh :: "insn_func" where
  "insn_mulh xlen insn pc npc m =
     require_extension CHR ''M'' (\<lambda>m. ret npc (WRITE_RD insn (if xlen = 64 then mulh (RS1 insn m) (RS2 insn m)
        else sext32 (signed_drop_bit 32 (sext32 (RS1 insn m) * sext32 (RS2 insn m)))) m)) m"

definition insn_mulhsu :: "insn_func" where
  "insn_mulhsu xlen insn pc npc m =
     require_extension CHR ''M'' (\<lambda>m. ret npc (WRITE_RD insn (if xlen = 64 then mulhsu (RS1 insn m) (RS2 insn m)
        else sext32 (drop_bit 32 (sext32 (RS1 insn m) * zext32 (RS2 insn m)))) m)) m"

definition insn_mulhu :: "insn_func" where
  "insn_mulhu xlen insn pc npc m =
     require_extension CHR ''M'' (\<lambda>m. ret npc (WRITE_RD insn (if xlen = 64 then mulhu (RS1 insn m) (RS2 insn m)
        else sext32 (drop_bit 32 (zext32 (RS1 insn m) * zext32 (RS2 insn m)))) m)) m"

definition insn_mulw :: "insn_func" where
  "insn_mulw xlen insn pc npc m =
     require_extension CHR ''M'' (\<lambda>m. require_that (xlen = 64) (\<lambda>m. ret npc (WRITE_RD insn (sext32 (RS1 insn m * RS2 insn m)) m)) m) m"

definition insn_div :: "insn_func" where
  "insn_div xlen insn pc npc m =
     require_extension CHR ''M'' (\<lambda>m. (let lhs = sext_xlen xlen (RS1 insn m); rhs = sext_xlen xlen (RS2 insn m)
        in ret npc (WRITE_RD insn (if rhs = 0 then - 1 else if lhs = 0x8000000000000000 \<and> rhs = - 1 then lhs
             else sext_xlen xlen (sdiv_trunc lhs rhs)) m))) m"

definition insn_divu :: "insn_func" where
  "insn_divu xlen insn pc npc m =
     require_extension CHR ''M'' (\<lambda>m. (let lhs = zext_xlen xlen (RS1 insn m); rhs = zext_xlen xlen (RS2 insn m)
        in ret npc (WRITE_RD insn (if rhs = 0 then - 1 else sext_xlen xlen (lhs div rhs)) m))) m"

definition insn_divuw :: "insn_func" where
  "insn_divuw xlen insn pc npc m =
     require_extension CHR ''M'' (\<lambda>m. require_that (xlen = 64) (\<lambda>m. (let lhs = zext32 (RS1 insn m); rhs = zext32 (RS2 insn m)
        in ret npc (WRITE_RD insn (if rhs = 0 then - 1 else sext32 (lhs div rhs)) m))) m) m"

definition insn_divw :: "insn_func" where
  "insn_divw xlen insn pc npc m =
     require_extension CHR ''M'' (\<lambda>m. require_that (xlen = 64) (\<lambda>m. (let lhs = sext32 (RS1 insn m); rhs = sext32 (RS2 insn m)
        in ret npc (WRITE_RD insn (if rhs = 0 then - 1 else sext32 (sdiv_trunc lhs rhs)) m))) m) m"

definition insn_rem :: "insn_func" where
  "insn_rem xlen insn pc npc m =
     require_extension CHR ''M'' (\<lambda>m. (let lhs = sext_xlen xlen (RS1 insn m); rhs = sext_xlen xlen (RS2 insn m)
        in ret npc (WRITE_RD insn (if rhs = 0 then lhs else if lhs = 0x8000000000000000 \<and> rhs = - 1 then 0
             else sext_xlen xlen (smod_trunc lhs rhs)) m))) m"

definition insn_remu :: "insn_func" where
  "insn_remu xlen insn pc npc m =
     require_extension CHR ''M'' (\<lambda>m. (let lhs = zext_xlen xlen (RS1 insn m); rhs = zext_xlen xlen (RS2 insn m)
        in ret npc (WRITE_RD insn (if rhs = 0 then sext_xlen xlen (RS1 insn m) else sext_xlen xlen (lhs mod rhs)) m))) m"

definition insn_remuw :: "insn_func" where
  "insn_remuw xlen insn pc npc m =
     require_extension CHR ''M'' (\<lambda>m. require_that (xlen = 64) (\<lambda>m. (let lhs = zext32 (RS1 insn m); rhs = zext32 (RS2 insn m)
        in ret npc (WRITE_RD insn (if rhs = 0 then sext32 lhs else sext32 (lhs mod rhs)) m))) m) m"

definition insn_remw :: "insn_func" where
  "insn_remw xlen insn pc npc m =
     require_extension CHR ''M'' (\<lambda>m. require_that (xlen = 64) (\<lambda>m. (let lhs = sext32 (RS1 insn m); rhs = sext32 (RS2 insn m)
        in ret npc (WRITE_RD insn (if rhs = 0 then lhs else sext32 (smod_trunc lhs rhs)) m))) m) m"

subsection \<open>Atomic operations\<close>

definition smax32 :: "u64 \<Rightarrow> u64 \<Rightarrow> u64" where
  "smax32 a b = (if sext32 a <s sext32 b then zext32 b else zext32 a)"
definition smin32 :: "u64 \<Rightarrow> u64 \<Rightarrow> u64" where
  "smin32 a b = (if sext32 b <s sext32 a then zext32 b else zext32 a)"
definition umax32 :: "u64 \<Rightarrow> u64 \<Rightarrow> u64" where
  "umax32 a b = (if zext32 a < zext32 b then zext32 b else zext32 a)"
definition umin32 :: "u64 \<Rightarrow> u64 \<Rightarrow> u64" where
  "umin32 a b = (if zext32 b < zext32 a then zext32 b else zext32 a)"
definition smax64 :: "u64 \<Rightarrow> u64 \<Rightarrow> u64" where "smax64 a b = (if a <s b then b else a)"
definition smin64 :: "u64 \<Rightarrow> u64 \<Rightarrow> u64" where "smin64 a b = (if b <s a then b else a)"

definition insn_amoadd_w :: "insn_func" where
  "insn_amoadd_w xlen insn pc npc m =
     require_extension CHR ''A'' (\<lambda>m. let rhs = RS2 insn m in and_then (amo_mem 4 (RS1 insn m) (\<lambda>lhs. lhs + rhs)) (\<lambda>v m. ret npc (WRITE_RD insn (sext32 v) m)) m) m"

definition insn_amoadd_d :: "insn_func" where
  "insn_amoadd_d xlen insn pc npc m =
     require_extension CHR ''A'' (\<lambda>m. require_that (xlen = 64) (\<lambda>m. let rhs = RS2 insn m in and_then (amo_mem 8 (RS1 insn m) (\<lambda>lhs. lhs + rhs)) (\<lambda>v m. ret npc (WRITE_RD insn v m)) m) m) m"

definition insn_amoand_w :: "insn_func" where
  "insn_amoand_w xlen insn pc npc m =
     require_extension CHR ''A'' (\<lambda>m. let rhs = RS2 insn m in and_then (amo_mem 4 (RS1 insn m) (\<lambda>lhs. lhs AND rhs)) (\<lambda>v m. ret npc (WRITE_RD insn (sext32 v) m)) m) m"

definition insn_amoand_d :: "insn_func" where
  "insn_amoand_d xlen insn pc npc m =
     require_extension CHR ''A'' (\<lambda>m. require_that (xlen = 64) (\<lambda>m. let rhs = RS2 insn m in and_then (amo_mem 8 (RS1 insn m) (\<lambda>lhs. lhs AND rhs)) (\<lambda>v m. ret npc (WRITE_RD insn v m)) m) m) m"

definition insn_amomax_w :: "insn_func" where
  "insn_amomax_w xlen insn pc npc m =
     require_extension CHR ''A'' (\<lambda>m. let rhs = RS2 insn m in and_then (amo_mem 4 (RS1 insn m) (\<lambda>lhs. smax32 lhs rhs)) (\<lambda>v m. ret npc (WRITE_RD insn (sext32 v) m)) m) m"

definition insn_amomax_d :: "insn_func" where
  "insn_amomax_d xlen insn pc npc m =
     require_extension CHR ''A'' (\<lambda>m. require_that (xlen = 64) (\<lambda>m. let rhs = RS2 insn m in and_then (amo_mem 8 (RS1 insn m) (\<lambda>lhs. smax64 lhs rhs)) (\<lambda>v m. ret npc (WRITE_RD insn v m)) m) m) m"

definition insn_amomaxu_w :: "insn_func" where
  "insn_amomaxu_w xlen insn pc npc m =
     require_extension CHR ''A'' (\<lambda>m. let rhs = RS2 insn m in and_then (amo_mem 4 (RS1 insn m) (\<lambda>lhs. umax32 lhs rhs)) (\<lambda>v m. ret npc (WRITE_RD insn (sext32 v) m)) m) m"

definition insn_amomaxu_d :: "insn_func" where
  "insn_amomaxu_d xlen insn pc npc m =
     require_extension CHR ''A'' (\<lambda>m. require_that (xlen = 64) (\<lambda>m. let rhs = RS2 insn m in and_then (amo_mem 8 (RS1 insn m) (\<lambda>lhs. max lhs rhs)) (\<lambda>v m. ret npc (WRITE_RD insn v m)) m) m) m"

definition insn_amomin_w :: "insn_func" where
  "insn_amomin_w xlen insn pc npc m =
     require_extension CHR ''A'' (\<lambda>m. let rhs = RS2 insn m in and_then (amo_mem 4 (RS1 insn m) (\<lambda>lhs. smin32 lhs rhs)) (\<lambda>v m. ret npc (WRITE_RD insn (sext32 v) m)) m) m"

definition insn_amomin_d :: "insn_func" where
  "insn_amomin_d xlen insn pc npc m =
     require_extension CHR ''A'' (\<lambda>m. require_that (xlen = 64) (\<lambda>m. let rhs = RS2 insn m in and_then (amo_mem 8 (RS1 insn m) (\<lambda>lhs. smin64 lhs rhs)) (\<lambda>v m. ret npc (WRITE_RD insn v m)) m) m) m"

definition insn_amominu_w :: "insn_func" where
  "insn_amominu_w xlen insn pc npc m =
     require_extension CHR ''A'' (\<lambda>m. let rhs = RS2 insn m in and_then (amo_mem 4 (RS1 insn m) (\<lambda>lhs. umin32 lhs rhs)) (\<lambda>v m. ret npc (WRITE_RD insn (sext32 v) m)) m) m"

definition insn_amominu_d :: "insn_func" where
  "insn_amominu_d xlen insn pc npc m =
     require_extension CHR ''A'' (\<lambda>m. require_that (xlen = 64) (\<lambda>m. let rhs = RS2 insn m in and_then (amo_mem 8 (RS1 insn m) (\<lambda>lhs. min lhs rhs)) (\<lambda>v m. ret npc (WRITE_RD insn v m)) m) m) m"

definition insn_amoor_w :: "insn_func" where
  "insn_amoor_w xlen insn pc npc m =
     require_extension CHR ''A'' (\<lambda>m. let rhs = RS2 insn m in and_then (amo_mem 4 (RS1 insn m) (\<lambda>lhs. lhs OR rhs)) (\<lambda>v m. ret npc (WRITE_RD insn (sext32 v) m)) m) m"

definition insn_amoor_d :: "insn_func" where
  "insn_amoor_d xlen insn pc npc m =
     require_extension CHR ''A'' (\<lambda>m. require_that (xlen = 64) (\<lambda>m. let rhs = RS2 insn m in and_then (amo_mem 8 (RS1 insn m) (\<lambda>lhs. lhs OR rhs)) (\<lambda>v m. ret npc (WRITE_RD insn v m)) m) m) m"

definition insn_amoswap_w :: "insn_func" where
  "insn_amoswap_w xlen insn pc npc m =
     require_extension CHR ''A'' (\<lambda>m. let rhs = RS2 insn m in and_then (amo_mem 4 (RS1 insn m) (\<lambda>lhs. rhs)) (\<lambda>v m. ret npc (WRITE_RD insn (sext32 v) m)) m) m"

definition insn_amoswap_d :: "insn_func" where
  "insn_amoswap_d xlen insn pc npc m =
     require_extension CHR ''A'' (\<lambda>m. require_that (xlen = 64) (\<lambda>m. let rhs = RS2 insn m in and_then (amo_mem 8 (RS1 insn m) (\<lambda>lhs. rhs)) (\<lambda>v m. ret npc (WRITE_RD insn v m)) m) m) m"

definition insn_amoxor_w :: "insn_func" where
  "insn_amoxor_w xlen insn pc npc m =
     require_extension CHR ''A'' (\<lambda>m. let rhs = RS2 insn m in and_then (amo_mem 4 (RS1 insn m) (\<lambda>lhs. lhs XOR rhs)) (\<lambda>v m. ret npc (WRITE_RD insn (sext32 v) m)) m) m"

definition insn_amoxor_d :: "insn_func" where
  "insn_amoxor_d xlen insn pc npc m =
     require_extension CHR ''A'' (\<lambda>m. require_that (xlen = 64) (\<lambda>m. let rhs = RS2 insn m in and_then (amo_mem 8 (RS1 insn m) (\<lambda>lhs. lhs XOR rhs)) (\<lambda>v m. ret npc (WRITE_RD insn v m)) m) m) m"

definition insn_lr_w :: "insn_func" where
  "insn_lr_w xlen insn pc npc m =
     require_extension CHR ''A'' (\<lambda>m. and_then (load_mem 4 (RS1 insn m)) (\<lambda>v m. ret npc (WRITE_RD insn (sext32 v) m)) (m\<lparr>st := (st m)\<lparr>load_reservation := RS1 insn m\<rparr>\<rparr>)) m"

definition insn_lr_d :: "insn_func" where
  "insn_lr_d xlen insn pc npc m =
     require_extension CHR ''A'' (\<lambda>m. require_that (xlen = 64) (\<lambda>m. and_then (load_mem 8 (RS1 insn m)) (\<lambda>v m. ret npc (WRITE_RD insn v m)) (m\<lparr>st := (st m)\<lparr>load_reservation := RS1 insn m\<rparr>\<rparr>)) m) m"

definition insn_sc_w :: "insn_func" where
  "insn_sc_w xlen insn pc npc m =
     require_extension CHR ''A'' (\<lambda>m. if RS1 insn m = load_reservation (st m)
        then and_then (store_mem 4 (RS1 insn m) (RS2 insn m)) (\<lambda>_ m. ret npc (WRITE_RD insn 0 m)) m
        else ret npc (WRITE_RD insn 1 m)) m"

definition insn_sc_d :: "insn_func" where
  "insn_sc_d xlen insn pc npc m =
     require_extension CHR ''A'' (\<lambda>m. require_that (xlen = 64) (\<lambda>m. if RS1 insn m = load_reservation (st m)
        then and_then (store_mem 8 (RS1 insn m) (RS2 insn m)) (\<lambda>_ m. ret npc (WRITE_RD insn 0 m)) m
        else ret npc (WRITE_RD insn 1 m)) m) m"

subsection \<open>Compressed instructions\<close>

definition insn_c_add :: "insn_func" where
  "insn_c_add xlen insn pc npc m =
     require_extension CHR ''C'' (\<lambda>m. require_that (rvc_rs2 insn \<noteq> 0) (\<lambda>m. ret npc (WRITE_RD insn (sext_xlen xlen (RVC_RS1 insn m + RVC_RS2 insn m)) m)) m) m"

definition insn_c_addi :: "insn_func" where
  "insn_c_addi xlen insn pc npc m =
     require_extension CHR ''C'' (\<lambda>m. ret npc (WRITE_RD insn (sext_xlen xlen (RVC_RS1 insn m + rvc_imm insn)) m)) m"

definition insn_c_addi4spn :: "insn_func" where
  "insn_c_addi4spn xlen insn pc npc m =
     require_extension CHR ''C'' (\<lambda>m. require_that (rvc_addi4spn_imm insn \<noteq> 0) (\<lambda>m. ret npc (WRITE_RVC_RS2S insn (sext_xlen xlen (RVC_SP m + rvc_addi4spn_imm insn)) m)) m) m"

definition insn_c_addw :: "insn_func" where
  "insn_c_addw xlen insn pc npc m =
     require_extension CHR ''C'' (\<lambda>m. require_that (xlen = 64) (\<lambda>m. ret npc (WRITE_RVC_RS1S insn (sext32 (RVC_RS1S insn m + RVC_RS2S insn m)) m)) m) m"

definition insn_c_and :: "insn_func" where
  "insn_c_and xlen insn pc npc m =
     require_extension CHR ''C'' (\<lambda>m. ret npc (WRITE_RVC_RS1S insn (RVC_RS1S insn m AND RVC_RS2S insn m) m)) m"

definition insn_c_andi :: "insn_func" where
  "insn_c_andi xlen insn pc npc m =
     require_extension CHR ''C'' (\<lambda>m. ret npc (WRITE_RVC_RS1S insn (RVC_RS1S insn m AND rvc_imm insn) m)) m"

definition insn_c_beqz :: "insn_func" where
  "insn_c_beqz xlen insn pc npc m =
     require_extension CHR ''C'' (\<lambda>m. (if RVC_RS1S insn m = 0 then set_pc xlen (pc + rvc_b_imm insn) m else ret npc m)) m"

definition insn_c_bnez :: "insn_func" where
  "insn_c_bnez xlen insn pc npc m =
     require_extension CHR ''C'' (\<lambda>m. (if RVC_RS1S insn m \<noteq> 0 then set_pc xlen (pc + rvc_b_imm insn) m else ret npc m)) m"

definition insn_c_ebreak :: "insn_func" where
  "insn_c_ebreak xlen insn pc npc m =
     require_extension CHR ''C'' (\<lambda>m. throw trap_breakpoint m) m"

definition insn_c_j :: "insn_func" where
  "insn_c_j xlen insn pc npc m =
     require_extension CHR ''C'' (\<lambda>m. set_pc xlen (pc + rvc_j_imm insn) m) m"

definition insn_c_jal :: "insn_func" where
  "insn_c_jal xlen insn pc npc m =
     require_extension CHR ''C'' (\<lambda>m. if xlen = 32
        then and_then (set_pc xlen (pc + rvc_j_imm insn)) (\<lambda>npc' m. ret npc' (WRITE_REG 1 npc m)) m
        else require_that (insn_rd insn \<noteq> 0) (\<lambda>m. ret npc (WRITE_RD insn (sext32 (RVC_RS1 insn m + rvc_imm insn)) m)) m) m"

definition insn_c_jalr :: "insn_func" where
  "insn_c_jalr xlen insn pc npc m =
     require_extension CHR ''C'' (\<lambda>m. require_that (insn_rd insn \<noteq> 0) (\<lambda>m. and_then (set_pc xlen (RVC_RS1 insn m AND NOT 1)) (\<lambda>npc' m. ret npc' (WRITE_REG 1 npc m)) m) m) m"

definition insn_c_jr :: "insn_func" where
  "insn_c_jr xlen insn pc npc m =
     require_extension CHR ''C'' (\<lambda>m. require_that (insn_rd insn \<noteq> 0) (\<lambda>m. set_pc xlen (RVC_RS1 insn m AND NOT 1) m) m) m"

definition insn_c_li :: "insn_func" where
  "insn_c_li xlen insn pc npc m =
     require_extension CHR ''C'' (\<lambda>m. require_that (insn_rd insn \<noteq> 0) (\<lambda>m. ret npc (WRITE_RD insn (rvc_imm insn) m)) m) m"

definition insn_c_lui :: "insn_func" where
  "insn_c_lui xlen insn pc npc m =
     require_extension CHR ''C'' (\<lambda>m. if insn_rd insn = 2
        then require_that (rvc_addi16sp_imm insn \<noteq> 0) (\<lambda>m. ret npc (WRITE_REG 2 (sext_xlen xlen (RVC_SP m + rvc_addi16sp_imm insn)) m)) m
        else require_that (insn_rd insn \<noteq> 0) (\<lambda>m. ret npc (WRITE_RD insn (push_bit 12 (rvc_imm insn)) m)) m) m"

definition insn_c_lw :: "insn_func" where
  "insn_c_lw xlen insn pc npc m =
     require_extension CHR ''C'' (\<lambda>m. and_then (load_mem 4 (RVC_RS1S insn m + rvc_lw_imm insn)) (\<lambda>v m. ret npc (WRITE_RVC_RS2S insn (sext32 v) m)) m) m"

definition insn_c_lwsp :: "insn_func" where
  "insn_c_lwsp xlen insn pc npc m =
     require_extension CHR ''C'' (\<lambda>m. require_that (insn_rd insn \<noteq> 0) (\<lambda>m. and_then (load_mem 4 (RVC_SP m + rvc_lwsp_imm insn)) (\<lambda>v m. ret npc (WRITE_RD insn (sext32 v) m)) m) m) m"

definition insn_c_mv :: "insn_func" where
  "insn_c_mv xlen insn pc npc m =
     require_extension CHR ''C'' (\<lambda>m. require_that (rvc_rs2 insn \<noteq> 0) (\<lambda>m. ret npc (WRITE_RD insn (RVC_RS2 insn m) m)) m) m"

definition insn_c_or :: "insn_func" where
  "insn_c_or xlen insn pc npc m =
     require_extension CHR ''C'' (\<lambda>m. ret npc (WRITE_RVC_RS1S insn (RVC_RS1S insn m OR RVC_RS2S insn m) m)) m"

definition insn_c_slli :: "insn_func" where
  "insn_c_slli xlen insn pc npc m =
     require_extension CHR ''C'' (\<lambda>m. require_that (rvc_zimm insn < of_nat xlen) (\<lambda>m. ret npc (WRITE_RD insn (sext_xlen xlen (push_bit (unat (rvc_zimm insn)) (RVC_RS1 insn m))) m)) m) m"

definition insn_c_srai :: "insn_func" where
  "insn_c_srai xlen insn pc npc m =
     require_extension CHR ''C'' (\<lambda>m. require_that (rvc_zimm insn < of_nat xlen) (\<lambda>m. ret npc (WRITE_RVC_RS1S insn (sext_xlen xlen (signed_drop_bit (unat (rvc_zimm insn)) (sext_xlen xlen (RVC_RS1S insn m)))) m)) m) m"

definition insn_c_srli :: "insn_func" where
  "insn_c_srli xlen insn pc npc m =
     require_extension CHR ''C'' (\<lambda>m. require_that (rvc_zimm insn < of_nat xlen) (\<lambda>m. ret npc (WRITE_RVC_RS1S insn (sext_xlen xlen (drop_bit (unat (rvc_zimm insn)) (zext_xlen xlen (RVC_RS1S insn m)))) m)) m) m"

definition insn_c_sub :: "insn_func" where
  "insn_c_sub xlen insn pc npc m =
     require_extension CHR ''C'' (\<lambda>m. ret npc (WRITE_RVC_RS1S insn (sext_xlen xlen (RVC_RS1S insn m - RVC_RS2S insn m)) m)) m"

definition insn_c_subw :: "insn_func" where
  "insn_c_subw xlen insn pc npc m =
     require_extension CHR ''C'' (\<lambda>m. require_that (xlen = 64) (\<lambda>m. ret npc (WRITE_RVC_RS1S insn (sext32 (RVC_RS1S insn m - RVC_RS2S insn m)) m)) m) m"

definition insn_c_sw :: "insn_func" where
  "insn_c_sw xlen insn pc npc m =
     require_extension CHR ''C'' (\<lambda>m. and_then (store_mem 4 (RVC_RS1S insn m + rvc_lw_imm insn) (RVC_RS2S insn m)) (\<lambda>_. ret npc) m) m"

definition insn_c_swsp :: "insn_func" where
  "insn_c_swsp xlen insn pc npc m =
     require_extension CHR ''C'' (\<lambda>m. and_then (store_mem 4 (RVC_SP m + rvc_swsp_imm insn) (RVC_RS2 insn m)) (\<lambda>_. ret npc) m) m"

definition insn_c_xor :: "insn_func" where
  "insn_c_xor xlen insn pc npc m =
     require_extension CHR ''C'' (\<lambda>m. ret npc (WRITE_RVC_RS1S insn (RVC_RS1S insn m XOR RVC_RS2S insn m) m)) m"

text \<open>Four compressed encodings are floating-point loads and stores at width 32 and loads and stores of
  double words at width 64 (\<open>c.ld\<close>, \<open>c.sd\<close>, \<open>c.ldsp\<close>, \<open>c.sdsp\<close>).\<close>

definition insn_c_flw :: "insn_func" where
  "insn_c_flw xlen insn pc npc m =
     require_extension CHR ''C'' (\<lambda>m. if xlen = 32
        then require_extension CHR ''F'' (require_fp (\<lambda>m.
               and_then (load_mem 4 (RVC_RS1S insn m + rvc_lw_imm insn)) (\<lambda>v m. ret npc (WRITE_RVC_FRS2S insn (sext32 v) m)) m)) m
        else and_then (load_mem 8 (RVC_RS1S insn m + rvc_ld_imm insn)) (\<lambda>v m. ret npc (WRITE_RVC_RS2S insn v m)) m) m"

definition insn_c_fsw :: "insn_func" where
  "insn_c_fsw xlen insn pc npc m =
     require_extension CHR ''C'' (\<lambda>m. if xlen = 32
        then require_extension CHR ''F'' (require_fp (\<lambda>m.
               and_then (store_mem 4 (RVC_RS1S insn m + rvc_lw_imm insn) (RVC_FRS2S insn m)) (\<lambda>_. ret npc) m)) m
        else and_then (store_mem 8 (RVC_RS1S insn m + rvc_ld_imm insn) (RVC_RS2S insn m)) (\<lambda>_. ret npc) m) m"

definition insn_c_flwsp :: "insn_func" where
  "insn_c_flwsp xlen insn pc npc m =
     require_extension CHR ''C'' (\<lambda>m. if xlen = 32
        then require_extension CHR ''F'' (require_fp (\<lambda>m.
               and_then (load_mem 4 (RVC_SP m + rvc_lwsp_imm insn)) (\<lambda>v m. ret npc (WRITE_FRD insn (sext32 v) m)) m)) m
        else require_that (insn_rd insn \<noteq> 0) (\<lambda>m.
               and_then (load_mem 8 (RVC_SP m + rvc_ldsp_imm insn)) (\<lambda>v m. ret npc (WRITE_RD insn v m)) m) m) m"

definition insn_c_fswsp :: "insn_func" where
  "insn_c_fswsp xlen insn pc npc m =
     require_extension CHR ''C'' (\<lambda>m. if xlen = 32
        then require_extension CHR ''F'' (require_fp (\<lambda>m.
               and_then (store_mem 4 (RVC_SP m + rvc_swsp_imm insn) (RVC_FRS2 insn m)) (\<lambda>_. ret npc) m)) m
        else and_then (store_mem 8 (RVC_SP m + rvc_sdsp_imm insn) (RVC_RS2 insn m)) (\<lambda>_. ret npc) m) m"

text \<open>All of them, by group; the last group is one of integer instructions at width 64 only.\<close>
definition base_instructions :: "insn_func list" where
  "base_instructions =
     [insn_add, insn_addi, insn_addiw, insn_addw, insn_and, insn_andi, insn_auipc, insn_beq,
      insn_bge, insn_bgeu, insn_blt, insn_bltu, insn_bne, insn_jal, insn_jalr, insn_lb,
      insn_lbu, insn_ld, insn_lh, insn_lhu, insn_lui, insn_lw, insn_lwu, insn_or,
      insn_ori, insn_sb, insn_sd, insn_sh, insn_sw, insn_sll, insn_slli, insn_slliw,
      insn_sllw, insn_slt, insn_slti, insn_sltiu, insn_sltu, insn_sra, insn_srai, insn_sraiw,
      insn_sraw, insn_srl, insn_srli, insn_srliw, insn_srlw, insn_sub, insn_subw, insn_xor,
      insn_xori, insn_fence, insn_wfi, insn_ebreak, insn_ecall]"

definition mul_instructions :: "insn_func list" where
  "mul_instructions =
     [insn_mul, insn_mulh, insn_mulhsu, insn_mulhu, insn_mulw, insn_div, insn_divu, insn_divuw,
      insn_divw, insn_rem, insn_remu, insn_remuw, insn_remw]"

definition atomic_instructions :: "insn_func list" where
  "atomic_instructions =
     [insn_amoadd_w, insn_amoadd_d, insn_amoand_w, insn_amoand_d, insn_amomax_w, insn_amomax_d, insn_amomaxu_w, insn_amomaxu_d,
      insn_amomin_w, insn_amomin_d, insn_amominu_w, insn_amominu_d, insn_amoor_w, insn_amoor_d, insn_amoswap_w, insn_amoswap_d,
      insn_amoxor_w, insn_amoxor_d, insn_lr_w, insn_lr_d, insn_sc_w, insn_sc_d]"

definition compressed_instructions :: "insn_func list" where
  "compressed_instructions =
     [insn_c_add, insn_c_addi, insn_c_addi4spn, insn_c_addw, insn_c_and, insn_c_andi, insn_c_beqz, insn_c_bnez,
      insn_c_ebreak, insn_c_j, insn_c_jal, insn_c_jalr, insn_c_jr, insn_c_li, insn_c_lui, insn_c_lw,
      insn_c_lwsp, insn_c_mv, insn_c_or, insn_c_slli, insn_c_srai, insn_c_srli, insn_c_sub, insn_c_subw,
      insn_c_sw, insn_c_swsp, insn_c_xor]"

definition width_instructions :: "insn_func list" where
  "width_instructions = [insn_c_flw, insn_c_fsw, insn_c_flwsp, insn_c_fswsp]"

definition integer_instructions :: "nat \<Rightarrow> insn_func list" where
  "integer_instructions xlen =
     base_instructions @ mul_instructions @ atomic_instructions @ compressed_instructions
     @ (if xlen = 64 then width_instructions else [])"

subsection \<open>The invariant of the hart\<close>

text \<open>A register value is canonical for a width when it is the sign extension of its low bits; the
  zero register holds zero.\<close>

definition canon :: "nat \<Rightarrow> reg_t \<Rightarrow> bool" where
  "canon xlen v \<longleftrightarrow> sext_xlen xlen v = v"

definition machine_ok :: "nat \<Rightarrow> machine \<Rightarrow> bool" where
  "machine_ok xlen m \<longleftrightarrow> mmu_ok m \<and> max_xlen (st m) = xlen \<and> xlen \<in> {32, 64} \<and>
     XPR (st m) 0 = 0 \<and> (\<forall>i. canon xlen (XPR (st m) i))"

text \<open>An integer instruction changes the registers and the reservation of the hart, through a device the
  software and the timer bit of its pending interrupts, and nothing else; \<open>hart_frame\<close> masks those.\<close>

definition hart_frame :: "state_t \<Rightarrow> state_t" where
  "hart_frame s = (device_frame s)\<lparr>XPR := \<lambda>_. 0, load_reservation := 0\<rparr>"

definition hart_in :: "nat \<Rightarrow> state_t \<Rightarrow> machine \<Rightarrow> bool" where
  "hart_in xlen s m \<longleftrightarrow> machine_ok xlen m \<and> hart_frame (st m) = s"

definition insn_ok :: "insn_func \<Rightarrow> bool" where
  "insn_ok f \<longleftrightarrow> (\<forall>xlen s insn pc npc m. hart_in xlen s m \<longrightarrow> sext32 insn = insn \<longrightarrow> canon xlen npc \<longrightarrow>
     fine (hart_in xlen s) (canon xlen) (f xlen insn pc npc m))"

lemma insn_okI:
  "(\<And>xlen s insn pc npc m. hart_in xlen s m \<Longrightarrow> sext32 insn = insn \<Longrightarrow> canon xlen npc \<Longrightarrow>
     fine (hart_in xlen s) (canon xlen) (f xlen insn pc npc m)) \<Longrightarrow> insn_ok f"
  unfolding insn_ok_def by blast

lemma sext32_iff: "sext32 v = v \<longleftrightarrow> (\<forall>i\<in>{32..<64}. bit v i = bit v 31)"
proof -
  have "sext32 v = v \<longleftrightarrow> (\<forall>i<64. bit v (min i 31) = bit v i)"
    unfolding bit_eq_iff [of "sext32 v"] bit_sext32 by (auto dest: bit_imp_le_length)
  also have "\<dots> \<longleftrightarrow> (\<forall>i\<in>{32..<64}. bit v i = bit v 31)"
    by (intro iffI ballI allI impI; (case_tac "i < 32")?) (force simp: min_def)+
  finally show ?thesis .
qed

lemma canon_iff: "xlen \<in> {32, 64} \<Longrightarrow> canon xlen v \<longleftrightarrow> (xlen = 32 \<longrightarrow> (\<forall>i\<in>{32..<64}. bit v i = bit v 31))"
  by (auto simp: canon_def sext32_iff)

named_theorems canonical \<open>values that are canonical\<close>

lemma ok_xlen: "hart_in xlen s m \<Longrightarrow> xlen \<in> {32, 64}"
  by (simp add: hart_in_def machine_ok_def)

lemma canon_sext: "xlen \<in> {32, 64} \<Longrightarrow> canon xlen (sext_xlen xlen v)"
  by (auto simp: canon_def)

lemma canon_sext32: "xlen \<in> {32, 64} \<Longrightarrow> canon xlen (sext32 v)"
  by (auto simp: canon_def)

lemma canon_scast32: "xlen \<in> {32, 64} \<Longrightarrow> canon xlen (scast (w :: u32))"
  by (subst canon_iff) (auto simp: bit_signed_iff)

lemma canon_small: "xlen \<in> {32, 64} \<Longrightarrow> (\<And>i. bit v i \<Longrightarrow> i < 31) \<Longrightarrow> canon xlen v"
  by (subst canon_iff) fastforce+

lemma canon_scast8: "xlen \<in> {32, 64} \<Longrightarrow> canon xlen (scast (w :: u8))"
  by (subst canon_iff) (auto simp: bit_signed_iff)

lemma canon_sext16: "xlen \<in> {32, 64} \<Longrightarrow> canon xlen (sext16 v)"
  by (subst canon_iff) (auto simp: bit_signed_iff sext16_def)

lemma canon_consts:
  assumes "xlen \<in> {32, 64}"
  shows "canon xlen 0" "canon xlen 1" "canon xlen (- 1)" "canon xlen (of_bool b)"
  unfolding canon_iff [OF assms] by (auto simp: bit_1_iff)

lemma canon_logic:
  assumes "xlen \<in> {32, 64}" "canon xlen a" "canon xlen b"
  shows "canon xlen (a AND b)" "canon xlen (a OR b)" "canon xlen (a XOR b)"
  using assms(2,3) unfolding canon_iff [OF assms(1)] by (auto simp: bit_and_iff bit_or_iff bit_xor_iff)

lemma canon_imm:
  assumes "xlen \<in> {32, 64}" "sext32 insn = insn"
  shows "canon xlen (i_imm insn)" "canon xlen (u_imm insn)" "canon xlen (rvc_imm insn)"
    "canon xlen (push_bit 12 (rvc_imm insn))"
  using assms(2) unfolding canon_iff [OF assms(1)] sext32_iff
  by (auto simp: bit_i_imm bit_u_imm bit_rvc_imm bit_push64)

lemma canon_64 [simp]: "canon 64 v"
  by (simp add: canon_def)

lemma canon_if: "(b \<Longrightarrow> canon xlen u) \<Longrightarrow> (\<not> b \<Longrightarrow> canon xlen v) \<Longrightarrow> canon xlen (if b then u else v)"
  by simp

lemma canon_READ: "hart_in xlen s m \<Longrightarrow> canon xlen (READ_REG i m)"
  by (simp add: hart_in_def machine_ok_def READ_REG_def)

lemmas reg_defs = RS1_def RS2_def RVC_RS1_def RVC_RS2_def RVC_RS1S_def RVC_RS2S_def RVC_SP_def
  WRITE_RD_def WRITE_RVC_RS1S_def WRITE_RVC_RS2S_def

subsection \<open>The invariant under the building blocks of instructions\<close>

lemma write_ok: "hart_in xlen s m \<Longrightarrow> canon xlen v \<Longrightarrow> hart_in xlen s (WRITE_REG i v m)"
  by (auto simp: hart_in_def hart_frame_def device_frame_def machine_ok_def WRITE_REG_def mmu_ok_def)

lemma fine_write:
  "hart_in xlen s m \<Longrightarrow> canon xlen v \<Longrightarrow> canon xlen npc \<Longrightarrow>
    fine (hart_in xlen s) (canon xlen) (ret npc (WRITE_REG i v m))"
  by (simp add: write_ok)

lemma fine_ret_npc: "hart_in xlen s m \<Longrightarrow> canon xlen npc \<Longrightarrow> fine (hart_in xlen s) (canon xlen) (ret npc m)"
  by simp

lemma fine_throw_ok: "hart_in xlen s m \<Longrightarrow> fine (hart_in xlen s) Q (throw t m)"
  by simp

lemma fine_require: "hart_in xlen s m \<Longrightarrow> (b \<Longrightarrow> fine (hart_in xlen s) Q (k m)) \<Longrightarrow> fine (hart_in xlen s) Q (require_that b k m)"
  by (simp add: require_that_def)

lemma fine_fp: "hart_in xlen s m \<Longrightarrow> fine (hart_in xlen s) Q (k m) \<Longrightarrow> fine (hart_in xlen s) Q (require_fp k m)"
  by (simp add: require_fp_def require_that_def)

lemma fine_extension: "hart_in xlen s m \<Longrightarrow> fine (hart_in xlen s) Q (k m) \<Longrightarrow> fine (hart_in xlen s) Q (require_extension c k m)"
  by (simp add: require_extension_def require_that_def)

lemma fine_set_pc: "hart_in xlen s m \<Longrightarrow> fine (hart_in xlen s) (canon xlen) (set_pc xlen x m)"
  by (simp add: set_pc_def canon_sext [OF ok_xlen])

lemma fine_set_pc_then:
  "hart_in xlen s m \<Longrightarrow> (\<And>n m. hart_in xlen s m \<Longrightarrow> canon xlen n \<Longrightarrow> fine (hart_in xlen s) Q (k n m)) \<Longrightarrow>
    fine (hart_in xlen s) Q (and_then (set_pc xlen x) k m)"
  by (rule fine_then, rule fine_set_pc)

text \<open>A load of the memory unit leaves the hart alone, a store up to what the devices may change.\<close>

lemma in_machine:
  assumes "hart_in xlen s m" "fine (mmu_in (st m)) Q x"
  shows "fine (hart_in xlen s) Q x"
  using assms unfolding fine_def mmu_in_def hart_in_def machine_ok_def by (auto split: option.splits)

lemma in_machine_dev:
  assumes "hart_in xlen s m" "fine (mmu_dev (st m)) Q x"
  shows "fine (hart_in xlen s) Q x"
proof (rule fine_weaken [OF assms(2)])
  fix m' assume d: "mmu_dev (st m) m'"
  then have f: "device_frame (st m') = device_frame (st m)" by (simp add: mmu_dev_def)
  have e: "XPR (st m') = XPR (st m)" "max_xlen (st m') = max_xlen (st m)" by (subst device_frameD [OF f], simp)+
  show "hart_in xlen s m'"
    using assms(1) d e by (simp add: hart_in_def machine_ok_def mmu_dev_def hart_frame_def)
qed

lemma machine_mmu: "hart_in xlen s m \<Longrightarrow> mmu_in (st m) m \<and> 12 \<le> max_xlen (st m)"
  by (auto simp: hart_in_def machine_ok_def mmu_in_def)

lemma fine_load:
  assumes "hart_in xlen s m" "len \<in> {1, 2, 4, 8}"
    and "\<And>v m. hart_in xlen s m \<Longrightarrow> (\<And>i. bit v i \<Longrightarrow> i < 8 * len) \<Longrightarrow> fine (hart_in xlen s) Q (k v m)"
  shows "fine (hart_in xlen s) Q (and_then (load_mem len addr) k m)"
  by (rule fine_then, rule in_machine [OF assms(1) load_keeps])
    (use machine_mmu [OF assms(1)] assms(2,3) in auto)

lemma fine_store:
  assumes "hart_in xlen s m" "len \<in> {1, 2, 4, 8}"
    and "\<And>v m. hart_in xlen s m \<Longrightarrow> fine (hart_in xlen s) Q (k v m)"
  shows "fine (hart_in xlen s) Q (and_then (store_mem len addr v) k m)"
  by (rule fine_then, rule in_machine_dev [OF assms(1) store_keeps])
    (use machine_mmu [OF assms(1)] assms(2,3) in auto)

lemma fine_amo:
  assumes "hart_in xlen s m" "len \<in> {1, 2, 4, 8}"
    and "\<And>v m. hart_in xlen s m \<Longrightarrow> fine (hart_in xlen s) Q (k v m)"
  shows "fine (hart_in xlen s) Q (and_then (amo_mem len addr f) k m)"
  by (rule fine_then, rule in_machine_dev [OF assms(1) amo_keeps])
    (use machine_mmu [OF assms(1)] assms(2,3) in auto)

lemma reservation_ok: "hart_in xlen s m \<Longrightarrow> hart_in xlen s (m\<lparr>st := (st m)\<lparr>load_reservation := v\<rparr>\<rparr>)"
  by (auto simp: hart_in_def hart_frame_def device_frame_def machine_ok_def mmu_ok_def)

lemmas insn_rules = fine_write fine_ret_npc fine_throw_ok fine_require fine_extension fine_fp fine_set_pc fine_set_pc_then
  fine_load fine_store fine_amo fine_if reservation_ok canon_if canon_READ canon_logic canon_sext canon_sext32 canon_scast32
  canon_scast8 canon_sext16 canon_consts canon_imm ok_xlen

lemmas base_defs = insn_add_def insn_addi_def insn_addiw_def insn_addw_def insn_and_def insn_andi_def
  insn_auipc_def insn_beq_def insn_bge_def insn_bgeu_def insn_blt_def insn_bltu_def
  insn_bne_def insn_jal_def insn_jalr_def insn_lb_def insn_lbu_def insn_ld_def
  insn_lh_def insn_lhu_def insn_lui_def insn_lw_def insn_lwu_def insn_or_def
  insn_ori_def insn_sb_def insn_sd_def insn_sh_def insn_sw_def insn_sll_def
  insn_slli_def insn_slliw_def insn_sllw_def insn_slt_def insn_slti_def insn_sltiu_def
  insn_sltu_def insn_sra_def insn_srai_def insn_sraiw_def insn_sraw_def insn_srl_def
  insn_srli_def insn_srliw_def insn_srlw_def insn_sub_def insn_subw_def insn_xor_def
  insn_xori_def insn_fence_def insn_wfi_def insn_ebreak_def insn_ecall_def

lemma base_instructions_ok: "list_all insn_ok base_instructions"
  unfolding base_instructions_def list.pred_inject(2)
  by (intro conjI list.pred_inject(1); rule insn_okI; unfold base_defs reg_defs Let_def)
    ((assumption | rule insn_rules | (simp; fail) | (rule canon_small, erule ok_xlen, fastforce))+)

lemmas mul_defs = insn_mul_def insn_mulh_def insn_mulhsu_def insn_mulhu_def insn_mulw_def insn_div_def
  insn_divu_def insn_divuw_def insn_divw_def insn_rem_def insn_remu_def insn_remuw_def
  insn_remw_def

lemma mul_instructions_ok: "list_all insn_ok mul_instructions"
  unfolding mul_instructions_def list.pred_inject(2)
  by (intro conjI list.pred_inject(1); rule insn_okI; unfold mul_defs reg_defs Let_def)
    ((assumption | rule insn_rules | (simp; fail) | (rule canon_small, erule ok_xlen, fastforce))+)

lemmas atomic_defs = insn_amoadd_w_def insn_amoadd_d_def insn_amoand_w_def insn_amoand_d_def insn_amomax_w_def insn_amomax_d_def
  insn_amomaxu_w_def insn_amomaxu_d_def insn_amomin_w_def insn_amomin_d_def insn_amominu_w_def insn_amominu_d_def
  insn_amoor_w_def insn_amoor_d_def insn_amoswap_w_def insn_amoswap_d_def insn_amoxor_w_def insn_amoxor_d_def
  insn_lr_w_def insn_lr_d_def insn_sc_w_def insn_sc_d_def

lemma atomic_instructions_ok: "list_all insn_ok atomic_instructions"
  unfolding atomic_instructions_def list.pred_inject(2)
  by (intro conjI list.pred_inject(1); rule insn_okI; unfold atomic_defs reg_defs Let_def)
    ((assumption | rule insn_rules | (simp; fail) | (rule canon_small, erule ok_xlen, fastforce))+)

lemmas compressed_defs = insn_c_add_def insn_c_addi_def insn_c_addi4spn_def insn_c_addw_def insn_c_and_def insn_c_andi_def
  insn_c_beqz_def insn_c_bnez_def insn_c_ebreak_def insn_c_j_def insn_c_jal_def insn_c_jalr_def
  insn_c_jr_def insn_c_li_def insn_c_lui_def insn_c_lw_def insn_c_lwsp_def insn_c_mv_def
  insn_c_or_def insn_c_slli_def insn_c_srai_def insn_c_srli_def insn_c_sub_def insn_c_subw_def
  insn_c_sw_def insn_c_swsp_def insn_c_xor_def

lemma compressed_instructions_ok: "list_all insn_ok compressed_instructions"
  unfolding compressed_instructions_def list.pred_inject(2)
  by (intro conjI list.pred_inject(1); rule insn_okI; unfold compressed_defs reg_defs Let_def)
    ((assumption | rule insn_rules | (simp; fail) | (rule canon_small, erule ok_xlen, fastforce))+)

lemmas width_defs = insn_c_flw_def insn_c_fsw_def insn_c_flwsp_def insn_c_fswsp_def

lemma width_instructions_ok:
  assumes "f \<in> set width_instructions" "hart_in 64 s m"
  shows "fine (hart_in 64 s) (canon 64) (f 64 insn pc npc m)"
proof -
  have "fine (hart_in 64 s) (canon 64) (insn_c_flw 64 insn pc npc m) \<and> fine (hart_in 64 s) (canon 64) (insn_c_fsw 64 insn pc npc m) \<and>
    fine (hart_in 64 s) (canon 64) (insn_c_flwsp 64 insn pc npc m) \<and> fine (hart_in 64 s) (canon 64) (insn_c_fswsp 64 insn pc npc m)"
    using assms(2) unfolding width_defs reg_defs
    by (intro conjI) ((assumption | rule insn_rules | (simp; fail))+)
  then show ?thesis using assms(1) by (auto simp: width_instructions_def)
qed

lemma integer_instructions_ok:
  assumes "f \<in> set (integer_instructions xlen)" "hart_in xlen s m" "sext32 insn = insn" "canon xlen npc"
  shows "fine (hart_in xlen s) (canon xlen) (f xlen insn pc npc m)"
proof (cases "f \<in> set (base_instructions @ mul_instructions @ atomic_instructions @ compressed_instructions)")
  case True
  then have "insn_ok f"
    using base_instructions_ok mul_instructions_ok atomic_instructions_ok compressed_instructions_ok by (auto simp: list_all_iff)
  then show ?thesis using assms(2-4) unfolding insn_ok_def by blast
next
  case False
  then have "xlen = 64" "f \<in> set width_instructions" using assms(1) by (auto simp: integer_instructions_def split: if_splits)
  then show ?thesis using width_instructions_ok assms(2) by blast
qed

end
