(* ===== verification/Spike_MExt.thy ===== *)
theory Spike_MExt
  imports Spike_Insns
begin

text \<open>Properties of the integer instructions as a whole, and the multiplication and division instructions (riscv/insns/mul*.h, div*.h, rem*.h) against the
products and quotients of the integers, for both register widths.\<close>

section \<open>Multiplication and division against the integers\<close>

definition div_spec :: "nat \<Rightarrow> int \<Rightarrow> int \<Rightarrow> int" where
  "div_spec xlen a b = (if b = 0 then - 1 else if a = - (2 ^ (xlen - 1)) \<and> b = - 1 then a else a sdiv b)"

definition rem_spec :: "nat \<Rightarrow> int \<Rightarrow> int \<Rightarrow> int" where
  "rem_spec xlen a b = (if b = 0 then a else if a = - (2 ^ (xlen - 1)) \<and> b = - 1 then 0 else a smod b)"

lemma sext32_of_int:
  assumes "- (2 ^ 31) \<le> k" "k < 2 ^ 31"
  shows "sext32 (word_of_int k) = word_of_int k"
proof -
  have s: "signed_take_bit 31 k = k" using assms by (simp add: signed_take_bit_int_eq_self)
  have b: "bit k i = bit k 31" if "31 \<le> i" for i
  proof -
    have "bit k i = bit (signed_take_bit 31 k) i" by (simp only: s)
    also have "\<dots> = bit k 31" using that by (simp add: bit_signed_take_bit_iff min_absorb1)
    finally show ?thesis .
  qed
  have "bit (word_of_int k :: u64) i = bit (word_of_int k :: u64) 31" if "31 < i" "i < 64" for i
    using b [of i] that by (simp add: bit_word_of_int_iff)
  then have "\<forall>i\<in>{32..<64}. bit (word_of_int k :: u64) i = bit (word_of_int k :: u64) 31" by simp
  then show ?thesis by (rule sext32_iff [THEN iffD2])
qed

lemma canon_32_sint:
  assumes "canon 32 a"
  shows "- (2 ^ 31) \<le> sint a" "sint a < 2 ^ 31"
proof -
  have b: "bit a i = bit a 31" if "31 \<le> i" "i < 64" for i
    using assms that unfolding canon_def by (cases "i = 31") (simp_all add: sext32_iff)
  have "bit (sint a) i = bit (sint a) (min i 31)" for i
    using b [of i] b [of 63] by (cases "i < 64"; cases "i \<le> 31") (auto simp: bit_sint_iff dest: bit_imp_le_length)
  then have e: "bit (sint a) (min 31 i) = bit (sint a) i" for i by (simp only: min.commute [of 31])
  have "signed_take_bit 31 (sint a) = sint a"
    by (rule bit_eqI) (simp only: bit_signed_take_bit_iff e simp_thms)
  then show "- (2 ^ 31) \<le> sint a" "sint a < 2 ^ 31"
    by (metis signed_take_bit_int_greater_eq_minus_exp, metis signed_take_bit_int_less_exp)
qed

lemma div_in_range:
  assumes "- (2 ^ n) \<le> a" "a < (2 :: int) ^ n" "b \<noteq> 0" "\<not> (a = - (2 ^ n) \<and> b = - 1)"
  shows "- (2 ^ n) \<le> a sdiv b" "a sdiv b < 2 ^ n"
proof -
  have r: "- \<bar>a\<bar> \<le> a sdiv b" "a sdiv b \<le> \<bar>a\<bar>" using sdiv_int_range [of a b] by auto
  show "- (2 ^ n) \<le> a sdiv b" using r(1) assms(1,2) by linarith
  show "a sdiv b < 2 ^ n"
  proof (rule ccontr)
    assume "\<not> a sdiv b < 2 ^ n"
    then have e: "a = - (2 ^ n)" "a sdiv b = - a" using r(2) assms(1,2) by linarith+
    then have "b = - 1" using int_sdiv_negated_is_minus1 [of a b] by simp
    then show False using e assms(4) by blast
  qed
qed

lemma rem_in_range:
  assumes "- (2 ^ n) \<le> a" "a < (2 :: int) ^ n"
  shows "- (2 ^ n) \<le> a smod b" "a smod b < 2 ^ n"
proof -
  have "\<bar>a smod b\<bar> \<le> \<bar>a\<bar>"
    by (cases "b = 0") (simp_all add: smod_int_alt_def abs_mult zmod_le_nonneg_dividend mult_le_cancel_right1 sgn_if)
  moreover have "a smod b < 2 ^ n"
  proof (cases "0 \<le> a")
    case False
    then have "a smod b \<le> 0" by (cases "b = 0") (simp_all add: smod_int_alt_def mult_le_0_iff)
    then show ?thesis by (smt (verit) zero_less_power)
  qed (use calculation assms in linarith)
  ultimately show "- (2 ^ n) \<le> a smod b" "a smod b < 2 ^ n" using assms by linarith+
qed

lemma word_sint_eqs:
  fixes a :: u64
  shows "sint a = 0 \<longleftrightarrow> a = 0" "sint a = - 1 \<longleftrightarrow> a = - 1" "sint a = - (2 ^ 63) \<longleftrightarrow> a = 0x8000000000000000"
proof -
  have "a = word_of_int (sint a)" by simp
  moreover have "sint (0 :: u64) = 0" "sint (- 1 :: u64) = - 1" "sint (0x8000000000000000 :: u64) = - (2 ^ 63)"
    by simp_all
  ultimately show "sint a = 0 \<longleftrightarrow> a = 0" "sint a = - 1 \<longleftrightarrow> a = - 1" "sint a = - (2 ^ 63) \<longleftrightarrow> a = 0x8000000000000000"
    by (metis signed_word_eqI)+
qed

lemma sext32_min: "sext32 (word_of_int (2 ^ 31)) = word_of_int (- (2 ^ 31))"
  by (simp add: sext32_def)

lemma div_value:
  assumes "xlen \<in> {32, 64}" "canon xlen a" "canon xlen b"
  shows "(if b = 0 then - 1 else if a = 0x8000000000000000 \<and> b = - 1 then a else sext_xlen xlen (sdiv_trunc a b))
    = word_of_int (div_spec xlen (sint a) (sint b))"
proof (cases "xlen = 64")
  case True
  then show ?thesis using word_sint_eqs [of a] word_sint_eqs(1,2) [of b] by (auto simp: div_spec_def sdiv_trunc_def)
next
  case False
  then have x: "xlen = 32" and c: "canon 32 a" "canon 32 b" using assms by auto
  note r = canon_32_sint [OF c(1)]
  have "a \<noteq> 0x8000000000000000" using r word_sint_eqs(3) [of a] by auto
  moreover have "sext32 (sdiv_trunc a b) = word_of_int (div_spec 32 (sint a) (sint b))" if "b \<noteq> 0"
  proof (cases "sint a = - (2 ^ 31) \<and> sint b = - 1")
    case True
    then show ?thesis using sext32_min by (simp add: div_spec_def sdiv_trunc_def)
  next
    case False
    then have "sext32 (word_of_int (sint a sdiv sint b)) = word_of_int (sint a sdiv sint b)"
      using r that word_sint_eqs(1) [of b] by (intro sext32_of_int div_in_range) auto
    then show ?thesis using False that word_sint_eqs(1) [of b] by (auto simp: div_spec_def sdiv_trunc_def)
  qed
  ultimately show ?thesis using x word_sint_eqs(1) [of b] by (auto simp: div_spec_def)
qed

lemma rem_value:
  assumes "xlen \<in> {32, 64}" "canon xlen a" "canon xlen b"
  shows "(if b = 0 then a else if a = 0x8000000000000000 \<and> b = - 1 then 0 else sext_xlen xlen (smod_trunc a b))
    = word_of_int (rem_spec xlen (sint a) (sint b))"
proof (cases "xlen = 64")
  case True
  then show ?thesis using word_sint_eqs [of a] word_sint_eqs(1,2) [of b] by (auto simp: rem_spec_def smod_trunc_def)
next
  case False
  then have x: "xlen = 32" and c: "canon 32 a" "canon 32 b" using assms by auto
  note r = canon_32_sint [OF c(1)]
  have "a \<noteq> 0x8000000000000000" using r word_sint_eqs(3) [of a] by auto
  moreover have "sext32 (word_of_int (sint a smod sint b)) = word_of_int (sint a smod sint b)"
    by (intro sext32_of_int rem_in_range) (use r in simp_all)
  moreover have "sint a smod sint b = 0" if "sint b = - 1" using that by (simp add: smod_int_alt_def)
  ultimately show ?thesis using x word_sint_eqs(1) [of b] by (auto simp: rem_spec_def smod_trunc_def)
qed

lemma high_half_32:
  "sext32 (drop_bit 32 (word_of_int p)) = sext32 (word_of_int (p div 2 ^ 32))"
  "sext32 (signed_drop_bit 32 (word_of_int p)) = sext32 (word_of_int (p div 2 ^ 32))"
  unfolding drop_bit_eq_div [symmetric] by (rule bit_word_eqI; simp add: bit_sext32 bit_simps min_def)+

section \<open>The instructions\<close>

text \<open>What the architecture asks of the quotient and the remainder of signed operands.\<close>

definition divides :: "nat \<Rightarrow> int \<Rightarrow> int \<Rightarrow> int \<Rightarrow> int \<Rightarrow> bool" where
  "divides xlen a b q r \<longleftrightarrow>
     (if b = 0 then q = - 1 \<and> r = a
      else if a = - (2 ^ (xlen - 1)) \<and> b = - 1 then q = a \<and> r = 0
      else a = b * q + r \<and> \<bar>r\<bar> < \<bar>b\<bar> \<and> (r = 0 \<or> sgn r = sgn a))"

definition divides_unsigned :: "nat \<Rightarrow> int \<Rightarrow> int \<Rightarrow> int \<Rightarrow> int \<Rightarrow> bool" where
  "divides_unsigned xlen a b q r \<longleftrightarrow>
     (if b = 0 then q = 2 ^ xlen - 1 \<and> r = a else a = b * q + r \<and> 0 \<le> r \<and> r < b)"

lemma trunc_division:
  fixes a b :: int
  assumes "b \<noteq> 0"
  shows "a = b * (a sdiv b) + a smod b" "\<bar>a smod b\<bar> < \<bar>b\<bar>" "a smod b = 0 \<or> sgn (a smod b) = sgn a"
proof -
  show "a = b * (a sdiv b) + a smod b" by (simp add: mult_sdiv_smod_eq)
  have r: "a smod b = sgn a * (\<bar>a\<bar> mod \<bar>b\<bar>)" by (simp add: smod_int_alt_def)
  have m: "0 \<le> \<bar>a\<bar> mod \<bar>b\<bar>" "\<bar>a\<bar> mod \<bar>b\<bar> < \<bar>b\<bar>" using assms by simp_all
  show "\<bar>a smod b\<bar> < \<bar>b\<bar>" using m by (auto simp: r abs_mult sgn_if)
  show "a smod b = 0 \<or> sgn (a smod b) = sgn a"
    using m(1) by (cases "\<bar>a\<bar> mod \<bar>b\<bar> = 0") (auto simp: r sgn_mult)
qed

lemma divides_spec: "divides xlen a b (div_spec xlen a b) (rem_spec xlen a b)"
  unfolding divides_def div_spec_def rem_spec_def using trunc_division [of b a] by simp

lemma machine_xlen: "machine_ok xlen m \<Longrightarrow> xlen \<in> {32, 64}"
  by (simp add: machine_ok_def)

lemma machine_canon: "machine_ok xlen m \<Longrightarrow> canon xlen (RS1 insn m)" "machine_ok xlen m \<Longrightarrow> canon xlen (RS2 insn m)"
  by (simp_all add: machine_ok_def RS1_def RS2_def READ_REG_def)

lemma canonD: "canon xlen v \<Longrightarrow> sext_xlen xlen v = v"
  by (simp add: canon_def)

lemma sext_zext_xlen: "xlen \<in> {32, 64} \<Longrightarrow> sext_xlen xlen (zext_xlen xlen v) = sext_xlen xlen v"
  by (auto intro!: bit_word_eqI simp: bit_sext32 zext32_def bit_simps min_def)

lemma sext_zext_one: "xlen \<in> {32, 64} \<Longrightarrow> sext_xlen xlen (2 ^ xlen - 1) = - 1"
  by (auto simp: sext32_def)

lemma sext_zext_div:
  "xlen \<in> {32, 64} \<Longrightarrow> sext_xlen xlen (a div b) = sext_xlen xlen (word_of_int (uint a div uint b))"
  by (simp add: word_div_def)

lemma sext_zext_mod:
  "xlen \<in> {32, 64} \<Longrightarrow> sext_xlen xlen (a mod b) = sext_xlen xlen (word_of_int (uint a mod uint b))"
  by (simp add: word_mod_def)

lemma divisions:
  assumes "machine_ok xlen m" "supports_extension CHR ''M'' (st m)"
  shows "\<exists>q r. divides xlen (sint (RS1 insn m)) (sint (RS2 insn m)) q r \<and>
      insn_div xlen insn pc npc m = Some (Inr npc, WRITE_RD insn (word_of_int q) m) \<and>
      insn_rem xlen insn pc npc m = Some (Inr npc, WRITE_RD insn (word_of_int r) m)"
    and "\<exists>q r. divides_unsigned xlen (uint (zext_xlen xlen (RS1 insn m))) (uint (zext_xlen xlen (RS2 insn m))) q r \<and>
      insn_divu xlen insn pc npc m = Some (Inr npc, WRITE_RD insn (sext_xlen xlen (word_of_int q)) m) \<and>
      insn_remu xlen insn pc npc m = Some (Inr npc, WRITE_RD insn (sext_xlen xlen (word_of_int r)) m)"
proof -
  define a b where "a = RS1 insn m" and "b = RS2 insn m"
  note x = machine_xlen [OF assms(1)]
  have c: "canon xlen a" "canon xlen b" unfolding a_def b_def by (rule machine_canon [OF assms(1)])+
  note enter = require_extension_def require_that_def assms(2) ret_def Let_def
  have "insn_div xlen insn pc npc m
      = Some (Inr npc, WRITE_RD insn (word_of_int (div_spec xlen (sint a) (sint b))) m)"
    unfolding div_value [OF x c, symmetric]
    by (simp only: insn_div_def enter if_True canonD [OF c(1)] canonD [OF c(2)] flip: a_def b_def)
  moreover have "insn_rem xlen insn pc npc m
      = Some (Inr npc, WRITE_RD insn (word_of_int (rem_spec xlen (sint a) (sint b))) m)"
    unfolding rem_value [OF x c, symmetric]
    by (simp only: insn_rem_def enter if_True canonD [OF c(1)] canonD [OF c(2)] flip: a_def b_def)
  ultimately show "\<exists>q r. divides xlen (sint (RS1 insn m)) (sint (RS2 insn m)) q r \<and>
      insn_div xlen insn pc npc m = Some (Inr npc, WRITE_RD insn (word_of_int q) m) \<and>
      insn_rem xlen insn pc npc m = Some (Inr npc, WRITE_RD insn (word_of_int r) m)"
    using divides_spec [of xlen "sint a" "sint b"] unfolding a_def b_def by blast
  define A B where "A = zext_xlen xlen a" and "B = zext_xlen xlen b"
  define q r where "q = (if B = 0 then 2 ^ xlen - 1 else uint A div uint B)"
    and "r = (if B = 0 then uint A else uint A mod uint B)"
  have "0 < uint B" if "B \<noteq> 0" using that by (simp add: word_neq_0_conv [symmetric] uint_0_iff order.strict_iff_order)
  then have "divides_unsigned xlen (uint A) (uint B) q r"
    unfolding divides_unsigned_def q_def r_def by (simp add: uint_0_iff)
  moreover have "insn_divu xlen insn pc npc m = Some (Inr npc, WRITE_RD insn (sext_xlen xlen (word_of_int q)) m)"
    using x by (simp add: insn_divu_def enter q_def sext_zext_one sext_zext_div flip: a_def b_def A_def B_def)
  moreover have "insn_remu xlen insn pc npc m = Some (Inr npc, WRITE_RD insn (sext_xlen xlen (word_of_int r)) m)"
    using x by (simp add: insn_remu_def enter r_def sext_zext_mod A_def sext_zext_xlen flip: a_def b_def B_def)
  ultimately show "\<exists>q r. divides_unsigned xlen (uint (zext_xlen xlen (RS1 insn m))) (uint (zext_xlen xlen (RS2 insn m))) q r \<and>
      insn_divu xlen insn pc npc m = Some (Inr npc, WRITE_RD insn (sext_xlen xlen (word_of_int q)) m) \<and>
      insn_remu xlen insn pc npc m = Some (Inr npc, WRITE_RD insn (sext_xlen xlen (word_of_int r)) m)"
    unfolding A_def B_def a_def b_def by blast
qed

lemma words_product: "a * b = (word_of_int (sint a * sint b) :: u64)" "a * b = (word_of_int (sint a * uint b) :: u64)"
  "a * b = (word_of_int (uint a * uint b) :: u64)"
  by (simp_all add: of_int_mult)

lemma products:
  assumes "machine_ok xlen m" "supports_extension CHR ''M'' (st m)" "a = RS1 insn m" "b = RS2 insn m"
    "\<And>p. result p = Some (Inr npc, WRITE_RD insn (sext_xlen xlen (word_of_int p)) m)"
  shows "insn_mul xlen insn pc npc m = result (sint a * sint b)"
    and "insn_mulh xlen insn pc npc m = result (sint a * sint b div 2 ^ xlen)"
    and "insn_mulhsu xlen insn pc npc m = result (sint a * uint (zext_xlen xlen b) div 2 ^ xlen)"
    and "insn_mulhu xlen insn pc npc m = result (uint (zext_xlen xlen a) * uint (zext_xlen xlen b) div 2 ^ xlen)"
proof -
  note x = machine_xlen [OF assms(1)]
  note enter = require_extension_def require_that_def assms(2,5) ret_def
  have c: "canon xlen a" "canon xlen b" unfolding assms(3,4) by (rule machine_canon [OF assms(1)])+
  show "insn_mul xlen insn pc npc m = result (sint a * sint b)"
    by (simp add: insn_mul_def enter assms(3,4))
  show "insn_mulh xlen insn pc npc m = result (sint a * sint b div 2 ^ xlen)"
  proof (cases "xlen = 64")
    case True
    have "mulh a b = word_of_int (sint a * sint b div 2 ^ 64)" unfolding mulh_value [symmetric] by simp
    then show ?thesis using True by (simp add: insn_mulh_def enter assms(3,4))
  next
    case False
    then have "xlen = 32" "sext32 a = a" "sext32 b = b" using x c by (auto simp: canon_def)
    moreover have "sext32 (signed_drop_bit 32 (a * b)) = sext32 (word_of_int (sint a * sint b div 2 ^ 32))"
      by (simp only: words_product(1) [of a b] high_half_32)
    ultimately show ?thesis by (simp add: insn_mulh_def enter flip: assms(3,4))
  qed
  show "insn_mulhsu xlen insn pc npc m = result (sint a * uint (zext_xlen xlen b) div 2 ^ xlen)"
  proof (cases "xlen = 64")
    case True
    have "mulhsu a b = word_of_int (sint a * uint b div 2 ^ 64)" unfolding mulhsu_value [symmetric] by simp
    then show ?thesis using True by (simp add: insn_mulhsu_def enter assms(3,4))
  next
    case False
    then have "xlen = 32" "sext32 a = a" using x c by (auto simp: canon_def)
    moreover have "sext32 (drop_bit 32 (a * zext32 b)) = sext32 (word_of_int (sint a * uint (zext32 b) div 2 ^ 32))"
      by (simp only: words_product(2) [of a "zext32 b"] high_half_32)
    ultimately show ?thesis by (simp add: insn_mulhsu_def enter flip: assms(3,4))
  qed
  show "insn_mulhu xlen insn pc npc m = result (uint (zext_xlen xlen a) * uint (zext_xlen xlen b) div 2 ^ xlen)"
  proof (cases "xlen = 64")
    case True
    have "uint (mulhu a b) = uint a * uint b div 2 ^ 64"
      using arg_cong [OF mulhu_value [of a b], of int] by (simp add: zdiv_int)
    then have "mulhu a b = word_of_int (uint a * uint b div 2 ^ 64)" by (metis word_of_int_uint)
    then show ?thesis using True by (simp add: insn_mulhu_def enter assms(3,4))
  next
    case False
    then have "xlen = 32" using x by auto
    moreover have "sext32 (drop_bit 32 (zext32 a * zext32 b)) = sext32 (word_of_int (uint (zext32 a) * uint (zext32 b) div 2 ^ 32))"
      by (simp only: words_product(3) [of "zext32 a" "zext32 b"] high_half_32)
    ultimately show ?thesis by (simp add: insn_mulhu_def enter flip: assms(3,4))
  qed
qed

text \<open>An example: a hart with M whose first registers hold a dividend and a divisor.\<close>

definition example_operands :: "nat \<Rightarrow> machine" where
  "example_operands xlen = (example_machine xlen)\<lparr>st := (example_hart xlen)\<lparr>XPR := (\<lambda>_. 0)(1 := - 7, 2 := 2)\<rparr>\<rparr>"

lemma example_operands_ok: "xlen \<in> {32, 64} \<Longrightarrow> machine_ok xlen (example_operands xlen)"
  using example_mmu_ok [of xlen] canon_consts [of xlen]
  by (auto simp: machine_ok_def mmu_ok_def example_operands_def example_machine_def example_hart_def canon_def sext32_def)

lemma example_operands_M: "supports_extension CHR ''M'' (st (example_operands xlen))"
  by (simp add: supports_extension_def example_operands_def example_hart_def)

text \<open>C12. Division on a hart of either width.  With M present, \<open>div\<close> and \<open>rem\<close> write the truncated
  quotient and the remainder with the sign of the dividend, all ones and the dividend for a zero
  divisor, the dividend and zero for the one overflow; \<open>divu\<close> and \<open>remu\<close> write the quotient and the
  remainder of the operands read unsigned, sign-extended into the register.\<close>

theorem m_extension_divides:
  assumes "machine_ok xlen m" "supports_extension CHR ''M'' (st m)"
  shows "(\<exists>q r. divides xlen (sint (RS1 insn m)) (sint (RS2 insn m)) q r \<and>
      insn_div xlen insn pc npc m = Some (Inr npc, WRITE_RD insn (word_of_int q) m) \<and>
      insn_rem xlen insn pc npc m = Some (Inr npc, WRITE_RD insn (word_of_int r) m)) \<and>
    (\<exists>q r. divides_unsigned xlen (uint (zext_xlen xlen (RS1 insn m))) (uint (zext_xlen xlen (RS2 insn m))) q r \<and>
      insn_divu xlen insn pc npc m = Some (Inr npc, WRITE_RD insn (sext_xlen xlen (word_of_int q)) m) \<and>
      insn_remu xlen insn pc npc m = Some (Inr npc, WRITE_RD insn (sext_xlen xlen (word_of_int r)) m))"
  using divisions [OF assms] by blast

theorem m_extension_divides_witness:
  "(\<exists>q r. divides 32 (sint (RS1 0x0220C1B3 (example_operands 32))) (sint (RS2 0x0220C1B3 (example_operands 32))) q r \<and>
     insn_div 32 0x0220C1B3 0 4 (example_operands 32) = Some (Inr 4, WRITE_RD 0x0220C1B3 (word_of_int q) (example_operands 32)) \<and>
     insn_rem 32 0x0220C1B3 0 4 (example_operands 32) = Some (Inr 4, WRITE_RD 0x0220C1B3 (word_of_int r) (example_operands 32)))"
  by (rule m_extension_divides [OF example_operands_ok example_operands_M, THEN conjunct1]) simp

text \<open>C37. Multiplication on a hart of either width.  With M present, \<open>mul\<close> writes the low half of
  the product, and \<open>mulh\<close>, \<open>mulhsu\<close> and \<open>mulhu\<close> the high half of the exact product of the operands,
  both read signed, the second read unsigned, and both read unsigned.\<close>

theorem m_extension_multiplies:
  assumes "machine_ok xlen m" "supports_extension CHR ''M'' (st m)" "a = RS1 insn m" "b = RS2 insn m"
    "\<And>p. result p = Some (Inr npc, WRITE_RD insn (sext_xlen xlen (word_of_int p)) m)"
  shows "insn_mul xlen insn pc npc m = result (sint a * sint b) \<and>
    insn_mulh xlen insn pc npc m = result (sint a * sint b div 2 ^ xlen) \<and>
    insn_mulhsu xlen insn pc npc m = result (sint a * uint (zext_xlen xlen b) div 2 ^ xlen) \<and>
    insn_mulhu xlen insn pc npc m = result (uint (zext_xlen xlen a) * uint (zext_xlen xlen b) div 2 ^ xlen)"
  using products [OF assms] by blast

theorem m_extension_multiplies_witness:
  "insn_mul 32 0x022081B3 0 4 (example_operands 32)
     = Some (Inr 4, WRITE_RD 0x022081B3
         (sext_xlen 32 (word_of_int (sint (RS1 0x022081B3 (example_operands 32)) * sint (RS2 0x022081B3 (example_operands 32)))))
         (example_operands 32))"
  by (rule m_extension_multiplies [OF example_operands_ok example_operands_M refl refl refl, THEN conjunct1]) simp

text \<open>C11. Every integer instruction of either width (the base set, multiplication and division,
  atomics and compressed forms, with \<open>c.ld\<close>, \<open>c.sd\<close>, \<open>c.ldsp\<close> and \<open>c.sdsp\<close> at width 64), applied to a
  well-formed hart, ends without a fault of the simulator.  Whether it traps or completes, the
  registers stay canonical for the register width, the zero register stays zero, the translation
  caches and the bus stay safe, and nothing of the hart has changed but the registers, the
  reservation and, when a store or an atomic operation reaches a device, the software and the timer
  bit of the pending interrupts: no integer instruction alters the privilege level, another control
  register or the program counter behind the back of the trap mechanism.  The instruction word is the
  sign extension of its low 32 bits, as the fetch delivers instructions of two and four bytes, and the
  address of the next instruction is canonical.\<close>

theorem integer_instructions_keep_hart:
  assumes "f \<in> set (integer_instructions xlen)" "machine_ok xlen m" "sext32 insn = insn" "canon xlen npc"
  shows "fine (\<lambda>m'. machine_ok xlen m' \<and> hart_frame (st m') = hart_frame (st m)) (canon xlen) (f xlen insn pc npc m)"
proof -
  have "fine (hart_in xlen (hart_frame (st m))) (canon xlen) (f xlen insn pc npc m)"
    by (rule integer_instructions_ok [OF assms(1) _ assms(3,4)]) (simp add: hart_in_def assms(2))
  then show ?thesis by (simp add: hart_in_def [abs_def])
qed

theorem integer_instructions_keep_hart_witness:
  "fine (\<lambda>m'. machine_ok 64 m' \<and> hart_frame (st m') = hart_frame (st (example_operands 64))) (canon 64)
     (insn_div 64 0x0220C1B3 0 4 (example_operands 64))"
  by (rule integer_instructions_keep_hart [OF _ example_operands_ok])
    (simp_all add: integer_instructions_def mul_instructions_def sext32_def)

end
