(* ===== verification/Spike_Priv.thy ===== *)
theory Spike_Priv
  imports Spike_MExt
begin

text \<open>
  Control registers, privilege and traps of the simulator (\<open>processor.cc\<close>, \<open>insns/csr*.h\<close>,
  \<open>mret.h\<close>, \<open>sret.h\<close>, \<open>dret.h\<close>, \<open>sfence_vm.h\<close>, \<open>fence_i.h\<close>).  The register width \<open>xlen\<close> of the
  hart is its \<open>max_xlen\<close>, which the reset makes them both.  Printing of the debug mode is left out;
  arming a trigger flushes the translation caches as in \<open>trigger_updated\<close>, the flags that make the
  memory unit consult the triggers are not part of the model.
\<close>

subsection \<open>Numbers of the control registers\<close>

definition CSR_FFLAGS :: u64 where "CSR_FFLAGS = 0x1"
definition CSR_FRM :: u64 where "CSR_FRM = 0x2"
definition CSR_FCSR :: u64 where "CSR_FCSR = 0x3"
definition CSR_CYCLE :: u64 where "CSR_CYCLE = 0xc00"
definition CSR_INSTRET :: u64 where "CSR_INSTRET = 0xc02"
definition CSR_SSTATUS :: u64 where "CSR_SSTATUS = 0x100"
definition CSR_SIE :: u64 where "CSR_SIE = 0x104"
definition CSR_STVEC :: u64 where "CSR_STVEC = 0x105"
definition CSR_SSCRATCH :: u64 where "CSR_SSCRATCH = 0x140"
definition CSR_SEPC :: u64 where "CSR_SEPC = 0x141"
definition CSR_SCAUSE :: u64 where "CSR_SCAUSE = 0x142"
definition CSR_SBADADDR :: u64 where "CSR_SBADADDR = 0x143"
definition CSR_SIP :: u64 where "CSR_SIP = 0x144"
definition CSR_SPTBR :: u64 where "CSR_SPTBR = 0x180"
definition CSR_MSTATUS :: u64 where "CSR_MSTATUS = 0x300"
definition CSR_MISA :: u64 where "CSR_MISA = 0x301"
definition CSR_MEDELEG :: u64 where "CSR_MEDELEG = 0x302"
definition CSR_MIDELEG :: u64 where "CSR_MIDELEG = 0x303"
definition CSR_MIE :: u64 where "CSR_MIE = 0x304"
definition CSR_MTVEC :: u64 where "CSR_MTVEC = 0x305"
definition CSR_MUCOUNTEREN :: u64 where "CSR_MUCOUNTEREN = 0x320"
definition CSR_MSCOUNTEREN :: u64 where "CSR_MSCOUNTEREN = 0x321"
definition CSR_MSCRATCH :: u64 where "CSR_MSCRATCH = 0x340"
definition CSR_MEPC :: u64 where "CSR_MEPC = 0x341"
definition CSR_MCAUSE :: u64 where "CSR_MCAUSE = 0x342"
definition CSR_MBADADDR :: u64 where "CSR_MBADADDR = 0x343"
definition CSR_MIP :: u64 where "CSR_MIP = 0x344"
definition CSR_TSELECT :: u64 where "CSR_TSELECT = 0x7a0"
definition CSR_TDATA1 :: u64 where "CSR_TDATA1 = 0x7a1"
definition CSR_TDATA2 :: u64 where "CSR_TDATA2 = 0x7a2"
definition CSR_TDATA3 :: u64 where "CSR_TDATA3 = 0x7a3"
definition CSR_DCSR :: u64 where "CSR_DCSR = 0x7b0"
definition CSR_DPC :: u64 where "CSR_DPC = 0x7b1"
definition CSR_DSCRATCH :: u64 where "CSR_DSCRATCH = 0x7b2"
definition CSR_MCYCLE :: u64 where "CSR_MCYCLE = 0xb00"
definition CSR_MINSTRET :: u64 where "CSR_MINSTRET = 0xb02"
definition CSR_MCYCLEH :: u64 where "CSR_MCYCLEH = 0xb80"
definition CSR_MINSTRETH :: u64 where "CSR_MINSTRETH = 0xb82"
definition CSR_MVENDORID :: u64 where "CSR_MVENDORID = 0xf11"
definition CSR_MARCHID :: u64 where "CSR_MARCHID = 0xf12"
definition CSR_MIMPID :: u64 where "CSR_MIMPID = 0xf13"
definition CSR_MHARTID :: u64 where "CSR_MHARTID = 0xf14"

lemmas csr_numbers =
  CSR_FFLAGS_def CSR_FRM_def CSR_FCSR_def CSR_CYCLE_def CSR_INSTRET_def CSR_SSTATUS_def
  CSR_SIE_def CSR_STVEC_def CSR_SSCRATCH_def CSR_SEPC_def CSR_SCAUSE_def CSR_SBADADDR_def
  CSR_SIP_def CSR_SPTBR_def CSR_MSTATUS_def CSR_MISA_def CSR_MEDELEG_def CSR_MIDELEG_def
  CSR_MIE_def CSR_MTVEC_def CSR_MUCOUNTEREN_def CSR_MSCOUNTEREN_def CSR_MSCRATCH_def CSR_MEPC_def
  CSR_MCAUSE_def CSR_MBADADDR_def CSR_MIP_def CSR_TSELECT_def CSR_TDATA1_def CSR_TDATA2_def
  CSR_TDATA3_def CSR_DCSR_def CSR_DPC_def CSR_DSCRATCH_def CSR_MCYCLE_def CSR_MINSTRET_def
  CSR_MCYCLEH_def CSR_MINSTRETH_def CSR_MVENDORID_def CSR_MARCHID_def CSR_MIMPID_def CSR_MHARTID_def

subsection \<open>Writing a control register\<close>

text \<open>\<open>MIP_SSIP | MIP_STIP | MIP_SEIP | (1 << IRQ_COP)\<close>, the same with \<open>MIP_MSIP | MIP_MTIP\<close>, and the
  bits of all the causes \<open>encoding.h\<close> declares.\<close>

definition delegable_ints :: u64 where "delegable_ints = 0x1222"
definition all_ints :: u64 where "all_ints = delegable_ints OR 0x88"
definition all_causes :: u64 where "all_causes = 0xFFF"
definition sstatus_mask :: u64 where
  "sstatus_mask = MSTATUS_SIE OR MSTATUS_SPIE OR MSTATUS_SPP OR MSTATUS_FS OR MSTATUS_XS OR MSTATUS_PUM"

definition on_st :: "(state_t \<Rightarrow> state_t) \<Rightarrow> machine \<Rightarrow> machine" where
  "on_st f m = m\<lparr>st := f (st m)\<rparr>"

definition validate_vm :: "nat \<Rightarrow> reg_t \<Rightarrow> bool" where
  "validate_vm xlen vm =
     (if xlen = 64 \<and> (vm = VM_SV39 \<or> vm = VM_SV48) then True
      else if xlen = 32 \<and> vm = VM_SV32 then True
      else vm = VM_MBARE)"

definition paddr_bits :: "nat \<Rightarrow> nat" where
  "paddr_bits xlen = (if xlen = 64 then 50 else 34)"

definition mstatus_write_mask :: "state_t \<Rightarrow> reg_t \<Rightarrow> reg_t" where
  "mstatus_write_mask s val =
     (MSTATUS_SIE OR MSTATUS_SPIE OR MSTATUS_MIE OR MSTATUS_MPIE OR MSTATUS_SPP OR MSTATUS_FS OR MSTATUS_MPRV
      OR MSTATUS_PUM OR MSTATUS_MPP OR MSTATUS_MXR OR (if has_ext s then MSTATUS_XS else 0))
     OR (if validate_vm (max_xlen s) (get_field val MSTATUS_VM) then MSTATUS_VM else 0)"

definition status_after :: "state_t \<Rightarrow> reg_t \<Rightarrow> reg_t" where
  "status_after s val =
     (let msk = mstatus_write_mask s val;
          v = (mstatus s AND NOT msk) OR (val AND msk);
          dirty = (v AND MSTATUS_FS = MSTATUS_FS \<or> v AND MSTATUS_XS = MSTATUS_XS)
      in set_field v (if max_xlen s = 32 then MSTATUS32_SD else MSTATUS64_SD) (of_bool dirty))"

definition set_mstatus :: "reg_t \<Rightarrow> machine \<Rightarrow> machine" where
  "set_mstatus val m =
     on_st (\<lambda>s. s\<lparr>mstatus := status_after s val\<rparr>)
       (if (val XOR mstatus (st m)) AND (MSTATUS_VM OR MSTATUS_MPP OR MSTATUS_MPRV OR MSTATUS_PUM OR MSTATUS_MXR) \<noteq> 0
        then flush_tlb m else m)"

definition set_mip :: "reg_t \<Rightarrow> state_t \<Rightarrow> state_t" where
  "set_mip val s = s\<lparr>mip := (mip s AND NOT 0x22) OR (val AND 0x22)\<rparr>"

definition set_mie :: "reg_t \<Rightarrow> state_t \<Rightarrow> state_t" where
  "set_mie val s = s\<lparr>mie := (mie s AND NOT all_ints) OR (val AND all_ints)\<rparr>"

definition set_misa :: "reg_t \<Rightarrow> state_t \<Rightarrow> state_t" where
  "set_misa val s =
     (let val = (if \<not> bit val 5 then val AND NOT (push_bit 3 1) else val);
          msk = (push_bit 12 1 OR push_bit 0 1 OR push_bit 5 1 OR push_bit 3 1 OR push_bit 2 1) AND max_isa s
      in s\<lparr>misa := (val AND msk) OR (misa s AND NOT msk)\<rparr>)"

definition MCONTROL_TYPE :: "nat \<Rightarrow> u64" where "MCONTROL_TYPE xlen = push_bit (xlen - 4) 0xf"
definition MCONTROL_DMODE :: "nat \<Rightarrow> u64" where "MCONTROL_DMODE xlen = push_bit (xlen - 5) 1"
definition MCONTROL_MASKMAX :: "nat \<Rightarrow> u64" where "MCONTROL_MASKMAX xlen = push_bit (xlen - 11) 0x3f"
definition MCONTROL_SELECT :: u64 where "MCONTROL_SELECT = 0x80000"
definition MCONTROL_TIMING :: u64 where "MCONTROL_TIMING = 0x40000"
definition MCONTROL_ACTION :: u64 where "MCONTROL_ACTION = 0x3f000"
definition MCONTROL_CHAIN :: u64 where "MCONTROL_CHAIN = 0x800"
definition MCONTROL_MATCH :: u64 where "MCONTROL_MATCH = 0x780"
definition MCONTROL_M :: u64 where "MCONTROL_M = 0x40"
definition MCONTROL_H :: u64 where "MCONTROL_H = 0x20"
definition MCONTROL_S :: u64 where "MCONTROL_S = 0x10"
definition MCONTROL_U :: u64 where "MCONTROL_U = 0x8"
definition MCONTROL_EXECUTE :: u64 where "MCONTROL_EXECUTE = 0x4"
definition MCONTROL_STORE :: u64 where "MCONTROL_STORE = 0x2"
definition MCONTROL_LOAD :: u64 where "MCONTROL_LOAD = 0x1"

definition set_tdata1 :: "reg_t \<Rightarrow> machine \<Rightarrow> machine" where
  "set_tdata1 val m =
     (let s = st m; i = unat (tselect s); mc = mcontrol s i; xlen = max_xlen s; flag = (\<lambda>msk. get_field val msk \<noteq> 0)
      in if mc_dmode mc \<and> dcsr_cause (dcsr s) = 0 then m
         else flush_tlb (on_st (\<lambda>s. s\<lparr>mcontrol := (mcontrol s)(i :=
           mc\<lparr>mc_dmode := flag (MCONTROL_DMODE xlen), mc_select := flag MCONTROL_SELECT,
              mc_timing := flag MCONTROL_TIMING \<and> \<not> flag MCONTROL_EXECUTE, mc_action := get_field val MCONTROL_ACTION,
              mc_chain := flag MCONTROL_CHAIN, mc_match := get_field val MCONTROL_MATCH, mc_m := flag MCONTROL_M,
              mc_h := flag MCONTROL_H, mc_s := flag MCONTROL_S, mc_u := flag MCONTROL_U,
              mc_execute := flag MCONTROL_EXECUTE, mc_store := flag MCONTROL_STORE, mc_load := flag MCONTROL_LOAD\<rparr>)\<rparr>) m))"

definition DCSR_PRV :: u64 where "DCSR_PRV = 3"
definition DCSR_STEP :: u64 where "DCSR_STEP = 0x4"
definition DCSR_HALT :: u64 where "DCSR_HALT = 0x8"
definition DCSR_DEBUGINT :: u64 where "DCSR_DEBUGINT = 0x20"
definition DCSR_CAUSE :: u64 where "DCSR_CAUSE = 0x1C0"
definition DCSR_EBREAKU :: u64 where "DCSR_EBREAKU = 0x1000"
definition DCSR_EBREAKS :: u64 where "DCSR_EBREAKS = 0x2000"
definition DCSR_EBREAKH :: u64 where "DCSR_EBREAKH = 0x4000"
definition DCSR_EBREAKM :: u64 where "DCSR_EBREAKM = 0x8000"
definition DCSR_XDEBUGVER :: u64 where "DCSR_XDEBUGVER = 0xC0000000"

definition set_dcsr :: "reg_t \<Rightarrow> state_t \<Rightarrow> state_t" where
  "set_dcsr val s = s\<lparr>dcsr := (dcsr s)\<lparr>dcsr_prv := ucast (get_field val DCSR_PRV), dcsr_step := get_field val DCSR_STEP \<noteq> 0,
     dcsr_ebreakm := get_field val DCSR_EBREAKM \<noteq> 0, dcsr_ebreakh := get_field val DCSR_EBREAKH \<noteq> 0,
     dcsr_ebreaks := get_field val DCSR_EBREAKS \<noteq> 0, dcsr_ebreaku := get_field val DCSR_EBREAKU \<noteq> 0,
     dcsr_halt := get_field val DCSR_HALT \<noteq> 0\<rparr>\<rparr>"

definition set_csr :: "u64 \<Rightarrow> reg_t \<Rightarrow> machine \<Rightarrow> machine" where
  "set_csr which v m =
     (let s = st m; xlen = max_xlen s; val = zext_xlen xlen v in
      if which = CSR_FFLAGS then on_st (\<lambda>s. (dirty_fp_state s)\<lparr>fflags := ucast (val AND 31)\<rparr>) m
      else if which = CSR_FRM then on_st (\<lambda>s. (dirty_fp_state s)\<lparr>frm := ucast (val AND 7)\<rparr>) m
      else if which = CSR_FCSR then
        on_st (\<lambda>s. (dirty_fp_state s)\<lparr>fflags := ucast (val AND 31), frm := ucast (drop_bit 5 (val AND 0xE0))\<rparr>) m
      else if which = CSR_MSTATUS then set_mstatus val m
      else if which = CSR_MIP then on_st (set_mip val) m
      else if which = CSR_MIE then on_st (set_mie val) m
      else if which = CSR_MIDELEG then
        on_st (\<lambda>s. s\<lparr>mideleg := (mideleg s AND NOT delegable_ints) OR (val AND delegable_ints)\<rparr>) m
      else if which = CSR_MEDELEG then
        on_st (\<lambda>s. s\<lparr>medeleg := (medeleg s AND NOT all_causes) OR (val AND all_causes)\<rparr>) m
      else if which = CSR_MINSTRET \<or> which = CSR_MCYCLE then
        on_st (\<lambda>s. s\<lparr>minstret := if xlen = 32 then push_bit 32 (drop_bit 32 (minstret s)) OR (val AND 0xffffffff) else val\<rparr>) m
      else if which = CSR_MINSTRETH \<or> which = CSR_MCYCLEH then
        on_st (\<lambda>s. s\<lparr>minstret := push_bit 32 val OR drop_bit 32 (push_bit 32 (minstret s))\<rparr>) m
      else if which = CSR_MUCOUNTEREN then on_st (\<lambda>s. s\<lparr>mucounteren := ucast val\<rparr>) m
      else if which = CSR_MSCOUNTEREN then on_st (\<lambda>s. s\<lparr>mscounteren := ucast val\<rparr>) m
      else if which = CSR_SSTATUS then
        set_mstatus (zext_xlen xlen ((mstatus s AND NOT sstatus_mask) OR (val AND sstatus_mask))) m
      else if which = CSR_SIP then on_st (set_mip (zext_xlen xlen ((mip s AND NOT (mideleg s)) OR (val AND mideleg s)))) m
      else if which = CSR_SIE then on_st (set_mie (zext_xlen xlen ((mie s AND NOT (mideleg s)) OR (val AND mideleg s)))) m
      else if which = CSR_SPTBR then on_st (\<lambda>s. s\<lparr>sptbr := val AND (2 ^ (paddr_bits xlen - 12) - 1)\<rparr>) m
      else if which = CSR_SEPC then on_st (\<lambda>s. s\<lparr>sepc := val\<rparr>) m
      else if which = CSR_STVEC then on_st (\<lambda>s. s\<lparr>stvec := push_bit 2 (drop_bit 2 val)\<rparr>) m
      else if which = CSR_SSCRATCH then on_st (\<lambda>s. s\<lparr>sscratch := val\<rparr>) m
      else if which = CSR_SCAUSE then on_st (\<lambda>s. s\<lparr>scause := val\<rparr>) m
      else if which = CSR_SBADADDR then on_st (\<lambda>s. s\<lparr>sbadaddr := val\<rparr>) m
      else if which = CSR_MEPC then on_st (\<lambda>s. s\<lparr>mepc := val\<rparr>) m
      else if which = CSR_MTVEC then on_st (\<lambda>s. s\<lparr>mtvec := push_bit 2 (drop_bit 2 val)\<rparr>) m
      else if which = CSR_MSCRATCH then on_st (\<lambda>s. s\<lparr>mscratch := val\<rparr>) m
      else if which = CSR_MCAUSE then on_st (\<lambda>s. s\<lparr>mcause := val\<rparr>) m
      else if which = CSR_MBADADDR then on_st (\<lambda>s. s\<lparr>mbadaddr := val\<rparr>) m
      else if which = CSR_MISA then on_st (set_misa val) m
      else if which = CSR_TSELECT then (if val < of_nat num_triggers then on_st (\<lambda>s. s\<lparr>tselect := val\<rparr>) m else m)
      else if which = CSR_TDATA1 then set_tdata1 val m
      else if which = CSR_TDATA2 then
        (if mc_dmode (mcontrol s (unat (tselect s))) \<and> dcsr_cause (dcsr s) = 0 then m
         else if tselect s < of_nat num_triggers then on_st (\<lambda>s. s\<lparr>tdata2 := (tdata2 s)(unat (tselect s) := val)\<rparr>) m
         else m)
      else if which = CSR_DCSR then on_st (set_dcsr val) m
      else if which = CSR_DPC then on_st (\<lambda>s. s\<lparr>dpc := val\<rparr>) m
      else if which = CSR_DSCRATCH then on_st (\<lambda>s. s\<lparr>dscratch := val\<rparr>) m
      else m)"

subsection \<open>Reading a control register\<close>

definition get_tdata1 :: "state_t \<Rightarrow> reg_t" where
  "get_tdata1 s =
     (if tselect s < of_nat num_triggers
      then let mc = mcontrol s (unat (tselect s)); xlen = max_xlen s; v = 0;
               v = set_field v (MCONTROL_TYPE xlen) (ucast (mc_type mc));
               v = set_field v (MCONTROL_DMODE xlen) (of_bool (mc_dmode mc));
               v = set_field v (MCONTROL_MASKMAX xlen) (ucast (mc_maskmax mc));
               v = set_field v MCONTROL_SELECT (of_bool (mc_select mc));
               v = set_field v MCONTROL_TIMING (of_bool (mc_timing mc));
               v = set_field v MCONTROL_ACTION (mc_action mc);
               v = set_field v MCONTROL_CHAIN (of_bool (mc_chain mc));
               v = set_field v MCONTROL_MATCH (mc_match mc);
               v = set_field v MCONTROL_M (of_bool (mc_m mc));
               v = set_field v MCONTROL_H (of_bool (mc_h mc));
               v = set_field v MCONTROL_S (of_bool (mc_s mc));
               v = set_field v MCONTROL_U (of_bool (mc_u mc));
               v = set_field v MCONTROL_EXECUTE (of_bool (mc_execute mc));
               v = set_field v MCONTROL_STORE (of_bool (mc_store mc))
           in set_field v MCONTROL_LOAD (of_bool (mc_load mc))
      else 0)"

definition get_dcsr :: "bool \<Rightarrow> dcsr_t \<Rightarrow> reg_t" where
  "get_dcsr debugint d =
     (let v = set_field 0 DCSR_XDEBUGVER 1;
          v = set_field v DCSR_PRV (ucast (dcsr_prv d));
          v = set_field v DCSR_STEP (of_bool (dcsr_step d));
          v = set_field v DCSR_DEBUGINT (of_bool debugint);
          v = set_field v DCSR_EBREAKM (of_bool (dcsr_ebreakm d));
          v = set_field v DCSR_EBREAKH (of_bool (dcsr_ebreakh d));
          v = set_field v DCSR_EBREAKS (of_bool (dcsr_ebreaks d));
          v = set_field v DCSR_EBREAKU (of_bool (dcsr_ebreaku d));
          v = set_field v DCSR_HALT (of_bool (dcsr_halt d))
      in set_field v DCSR_CAUSE (ucast (dcsr_cause d)))"

definition counter_enabled :: "u64 \<Rightarrow> state_t \<Rightarrow> bool" where
  "counter_enabled which s =
     bit (if prv s = PRV_U then ucast (mucounteren s) else if prv s = PRV_S then ucast (mscounteren s) else (0xFFFFFFFF :: u64))
       (unat (which AND 31))"

definition get_sstatus :: "state_t \<Rightarrow> reg_t" where
  "get_sstatus s =
     (let v = mstatus s AND sstatus_mask
      in if v AND MSTATUS_FS = MSTATUS_FS \<or> v AND MSTATUS_XS = MSTATUS_XS
         then v OR (if max_xlen s = 32 then MSTATUS32_SD else MSTATUS64_SD) else v)"

definition get_csr :: "u64 \<Rightarrow> reg_t run" where
  "get_csr which m =
     (let s = st m; xlen = max_xlen s; illegal = throw trap_illegal_instruction;
          fp = (\<lambda>v. require_fp (if supports_extension CHR ''F'' s then ret v else illegal) m) in
      if counter_enabled which s \<and> (0xc03 \<le> which \<and> which \<le> 0xc1f \<or> xlen = 32 \<and> 0xc83 \<le> which \<and> which \<le> 0xc9f)
      then ret 0 m
      else if 0xb03 \<le> which \<and> which \<le> 0xb1f then ret 0 m
      else if xlen = 32 \<and> 0xb03 \<le> which \<and> which \<le> 0xb1f then ret 0 m
      else if 0x323 \<le> which \<and> which \<le> 0x33f then ret 0 m
      else if which = CSR_FFLAGS then fp (ucast (fflags s))
      else if which = CSR_FRM then fp (ucast (frm s))
      else if which = CSR_FCSR then fp (ucast (fflags s OR push_bit 5 (frm s)))
      else if which = CSR_INSTRET \<or> which = CSR_CYCLE then (if counter_enabled which s then ret (minstret s) m else illegal m)
      else if which = CSR_MINSTRET \<or> which = CSR_MCYCLE then ret (minstret s) m
      else if which = CSR_MINSTRETH \<or> which = CSR_MCYCLEH then
        (if xlen = 32 then ret (drop_bit 32 (minstret s)) m else illegal m)
      else if which = CSR_MUCOUNTEREN then ret (ucast (mucounteren s)) m
      else if which = CSR_MSCOUNTEREN then ret (ucast (mscounteren s)) m
      else if which = CSR_SSTATUS then ret (get_sstatus s) m
      else if which = CSR_SIP then ret (mip s AND mideleg s) m
      else if which = CSR_SIE then ret (mie s AND mideleg s) m
      else if which = CSR_SEPC then ret (sepc s) m
      else if which = CSR_SBADADDR then ret (sbadaddr s) m
      else if which = CSR_STVEC then ret (stvec s) m
      else if which = CSR_SCAUSE then ret (scause s) m
      else if which = CSR_SPTBR then ret (sptbr s) m
      else if which = CSR_SSCRATCH then ret (sscratch s) m
      else if which = CSR_MSTATUS then ret (mstatus s) m
      else if which = CSR_MIP then ret (mip s) m
      else if which = CSR_MIE then ret (mie s) m
      else if which = CSR_MEPC then ret (mepc s) m
      else if which = CSR_MSCRATCH then ret (mscratch s) m
      else if which = CSR_MCAUSE then ret (mcause s) m
      else if which = CSR_MBADADDR then ret (mbadaddr s) m
      else if which = CSR_MISA then ret (misa s) m
      else if which = CSR_MARCHID \<or> which = CSR_MIMPID \<or> which = CSR_MVENDORID then ret 0 m
      else if which = CSR_MHARTID then ret (ucast (hart s)) m
      else if which = CSR_MTVEC then ret (mtvec s) m
      else if which = CSR_MEDELEG then ret (medeleg s) m
      else if which = CSR_MIDELEG then ret (mideleg s) m
      else if which = CSR_TSELECT then ret (tselect s) m
      else if which = CSR_TDATA1 then ret (get_tdata1 s) m
      else if which = CSR_TDATA2 then ret (if tselect s < of_nat num_triggers then tdata2 s (unat (tselect s)) else 0) m
      else if which = CSR_TDATA3 then ret 0 m
      else if which = CSR_DCSR then ret (get_dcsr (get_interrupt (hart s) (bus m)) (dcsr s)) m
      else if which = CSR_DPC then ret (dpc s) m
      else if which = CSR_DSCRATCH then ret (dscratch s) m
      else illegal m)"

subsection \<open>Privilege, traps and interrupts\<close>

definition set_privilege :: "reg_t \<Rightarrow> unit run" where
  "set_privilege p m =
     (if p \<le> PRV_M then ret () (on_st (\<lambda>s. s\<lparr>prv := if p = PRV_H then PRV_U else p\<rparr>) (flush_tlb m)) else None)"

definition enter_debug_mode :: "u8 \<Rightarrow> unit run" where
  "enter_debug_mode cause m =
     and_then (set_privilege PRV_M) (\<lambda>_ m. ret () (on_st (\<lambda>s. s\<lparr>dpc := st_pc s, st_pc := 0x800\<rparr>) m))
       (on_st (\<lambda>s. s\<lparr>dcsr := (dcsr s)\<lparr>dcsr_cause := cause, dcsr_prv := ucast (prv s)\<rparr>\<rparr>) m)"

definition yield_load_reservation :: "machine \<Rightarrow> machine" where
  "yield_load_reservation m = on_st (\<lambda>s. s\<lparr>load_reservation := - 1\<rparr>) m"

definition ebreak_to_debug :: "state_t \<Rightarrow> bool" where
  "ebreak_to_debug s \<longleftrightarrow> prv s = PRV_M \<and> dcsr_ebreakm (dcsr s) \<or> prv s = PRV_H \<and> dcsr_ebreakh (dcsr s) \<or>
     prv s = PRV_S \<and> dcsr_ebreaks (dcsr s) \<or> prv s = PRV_U \<and> dcsr_ebreaku (dcsr s)"

definition delegated :: "reg_t \<Rightarrow> state_t \<Rightarrow> bool" where
  "delegated cause s =
     (let intr = push_bit (max_xlen s - 1) 1;
          deleg = (if cause AND intr \<noteq> 0 then mideleg s else medeleg s);
          b = (if cause AND intr \<noteq> 0 then cause AND NOT intr else cause)
      in prv s \<le> PRV_S \<and> b < of_nat (max_xlen s) \<and> bit deleg (unat b))"

definition take_trap :: "trap \<Rightarrow> reg_t \<Rightarrow> unit run" where
  "take_trap t epc m =
     (let s = st m in
      if trap_cause t = 3 \<and> ebreak_to_debug s then enter_debug_mode 1 m
      else if dcsr_cause (dcsr s) \<noteq> 0 then ret () (on_st (\<lambda>s. s\<lparr>st_pc := 0x808\<rparr>) m)
      else if delegated (trap_cause t) s then
        let m = on_st (\<lambda>s. s\<lparr>st_pc := stvec s, scause := trap_cause t, sepc := epc,
                     sbadaddr := (case trap_badaddr t of None \<Rightarrow> sbadaddr s | Some a \<Rightarrow> a)\<rparr>) m;
            v = mstatus s;
            v = set_field v MSTATUS_SPIE (get_field v (push_bit (unat (prv s)) MSTATUS_UIE));
            v = set_field v MSTATUS_SPP (prv s);
            v = set_field v MSTATUS_SIE 0
        in and_then (set_privilege PRV_S) (\<lambda>_ m. ret () (yield_load_reservation m)) (set_csr CSR_MSTATUS v m)
      else
        let m = on_st (\<lambda>s. s\<lparr>st_pc := mtvec s, mepc := epc, mcause := trap_cause t,
                     mbadaddr := (case trap_badaddr t of None \<Rightarrow> mbadaddr s | Some a \<Rightarrow> a)\<rparr>) m;
            v = mstatus s;
            v = set_field v MSTATUS_MPIE (get_field v (push_bit (unat (prv s)) MSTATUS_UIE));
            v = set_field v MSTATUS_MPP (prv s);
            v = set_field v MSTATUS_MIE 0
        in and_then (set_privilege PRV_M) (\<lambda>_ m. ret () (yield_load_reservation m)) (set_csr CSR_MSTATUS v m))"

text \<open>The loop of \<open>ctz\<close> shifts a nonzero word until its low bit is set, at most 63 times.\<close>

primrec ctz_loop :: "nat \<Rightarrow> u64 \<Rightarrow> nat" where
  "ctz_loop 0 val = 0"
| "ctz_loop (Suc n) val = (if val AND 1 = 0 then Suc (ctz_loop n (drop_bit 1 val)) else 0)"

definition ctz :: "u64 \<Rightarrow> nat" where
  "ctz val = (if val \<noteq> 0 then ctz_loop 64 val else 0)"

definition raise_interrupt :: "reg_t \<Rightarrow> 'a run" where
  "raise_interrupt which m = throw (trap_interrupt (push_bit (max_xlen (st m) - 1) 1 OR which)) m"

definition enabled_interrupts :: "state_t \<Rightarrow> reg_t" where
  "enabled_interrupts s =
     (let pending = mip s AND mie s;
          m_enabled = (prv s < PRV_M \<or> prv s = PRV_M \<and> get_field (mstatus s) MSTATUS_MIE \<noteq> 0);
          s_enabled = (prv s < PRV_S \<or> prv s = PRV_S \<and> get_field (mstatus s) MSTATUS_SIE \<noteq> 0)
      in (pending AND NOT (mideleg s) AND - of_bool m_enabled) OR (pending AND mideleg s AND - of_bool s_enabled))"

definition take_interrupt :: "unit run" where
  "take_interrupt m =
     (if enabled_interrupts (st m) \<noteq> 0 then raise_interrupt (of_nat (ctz (enabled_interrupts (st m)))) m else ret () m)"

definition state_reset :: "state_t \<Rightarrow> state_t" where
  "state_reset s =
     s\<lparr>st_pc := 0x1000, XPR := \<lambda>_. 0, FPR := \<lambda>_. 0, prv := PRV_M, mstatus := 0, mepc := 0, mbadaddr := 0, mscratch := 0,
       mtvec := 0x1010, mcause := 0, minstret := 0, mie := 0, mip := 0, medeleg := 0, mideleg := 0, mucounteren := 0,
       mscounteren := 0, sepc := 0, sbadaddr := 0, sscratch := 0, stvec := 0, sptbr := 0, scause := 0, dpc := 0,
       dscratch := 0,
       dcsr := \<lparr>dcsr_prv = 0, dcsr_step = False, dcsr_ebreakm = False, dcsr_ebreakh = False, dcsr_ebreaks = False,
         dcsr_ebreaku = False, dcsr_halt = False, dcsr_cause = 0\<rparr>,
       tselect := 0, mcontrol := \<lambda>_. no_trigger\<lparr>mc_type := 2\<rparr>, tdata2 := \<lambda>_. 0, fflags := 0, frm := 0, serialized := False,
       single_step := STEP_NONE, load_reservation := - 1\<rparr>"

definition processor_reset :: "bool \<Rightarrow> machine \<Rightarrow> machine" where
  "processor_reset halt_on_reset m =
     (let m = on_st (\<lambda>s. let s = state_reset s in s\<lparr>dcsr := (dcsr s)\<lparr>dcsr_halt := halt_on_reset\<rparr>\<rparr>) m
      in set_csr CSR_MSTATUS (mstatus (st m)) m)"

subsection \<open>System instructions\<close>

definition require_privilege :: "reg_t \<Rightarrow> 'a run \<Rightarrow> 'a run" where
  "require_privilege p k m = require_that (p \<le> prv (st m)) k m"

definition PC_SERIALIZE_BEFORE :: reg_t where "PC_SERIALIZE_BEFORE = 3"
definition PC_SERIALIZE_AFTER :: reg_t where "PC_SERIALIZE_AFTER = 5"

definition set_pc_and_serialize :: "nat \<Rightarrow> reg_t \<Rightarrow> reg_t run" where
  "set_pc_and_serialize xlen x =
     and_then (set_pc xlen x) (\<lambda>_ m. ret PC_SERIALIZE_AFTER (on_st (\<lambda>s. s\<lparr>st_pc := x\<rparr>) m))"

definition with_csr :: "u64 \<Rightarrow> bool \<Rightarrow> reg_t run \<Rightarrow> reg_t run" where
  "with_csr which writes k m =
     (if \<not> serialized (st m) then ret PC_SERIALIZE_BEFORE m
      else let m = on_st (\<lambda>s. s\<lparr>serialized := False\<rparr>) m
           in require_that (\<not> (writes \<and> get_field which 0xC00 = 3) \<and> get_field which 0x300 \<le> prv (st m)) k m)"

definition csr_update :: "nat \<Rightarrow> u64 \<Rightarrow> bool \<Rightarrow> (reg_t \<Rightarrow> reg_t) \<Rightarrow> reg_t \<Rightarrow> reg_t run" where
  "csr_update xlen insn writes f npc =
     with_csr (insn_csr insn) writes
       (and_then (get_csr (insn_csr insn)) (\<lambda>old m.
          let m = (if writes then set_csr (insn_csr insn) (f old) m else m)
          in ret npc (WRITE_RD insn (sext_xlen xlen old) m)))"

definition insn_csrrw :: "insn_func" where
  "insn_csrrw xlen insn pc npc m = csr_update xlen insn True (\<lambda>_. RS1 insn m) npc m"

definition insn_csrrs :: "insn_func" where
  "insn_csrrs xlen insn pc npc m = csr_update xlen insn (insn_rs1 insn \<noteq> 0) (\<lambda>old. old OR RS1 insn m) npc m"

definition insn_csrrc :: "insn_func" where
  "insn_csrrc xlen insn pc npc m = csr_update xlen insn (insn_rs1 insn \<noteq> 0) (\<lambda>old. old AND NOT (RS1 insn m)) npc m"

definition insn_csrrwi :: "insn_func" where
  "insn_csrrwi xlen insn pc npc m = csr_update xlen insn True (\<lambda>_. of_nat (insn_rs1 insn)) npc m"

definition insn_csrrsi :: "insn_func" where
  "insn_csrrsi xlen insn pc npc m = csr_update xlen insn (insn_rs1 insn \<noteq> 0) (\<lambda>old. old OR of_nat (insn_rs1 insn)) npc m"

definition insn_csrrci :: "insn_func" where
  "insn_csrrci xlen insn pc npc m =
     csr_update xlen insn (insn_rs1 insn \<noteq> 0) (\<lambda>old. old AND NOT (of_nat (insn_rs1 insn))) npc m"

definition insn_mret :: "insn_func" where
  "insn_mret xlen insn pc npc m =
     require_privilege PRV_M (\<lambda>m. and_then (set_pc_and_serialize xlen (mepc (st m))) (\<lambda>npc m.
       let v = mstatus (st m); prev = get_field v MSTATUS_MPP;
           v = set_field v (push_bit (unat prev) MSTATUS_UIE) (get_field v MSTATUS_MPIE);
           v = set_field v MSTATUS_MPIE 0;
           v = set_field v MSTATUS_MPP PRV_U
       in and_then (set_privilege prev) (\<lambda>_ m. ret npc (set_csr CSR_MSTATUS v m)) m) m) m"

definition insn_sret :: "insn_func" where
  "insn_sret xlen insn pc npc m =
     require_privilege PRV_S (\<lambda>m. and_then (set_pc_and_serialize xlen (sepc (st m))) (\<lambda>npc m.
       let v = mstatus (st m); prev = get_field v MSTATUS_SPP;
           v = set_field v (push_bit (unat prev) MSTATUS_UIE) (get_field v MSTATUS_SPIE);
           v = set_field v MSTATUS_SPIE 0;
           v = set_field v MSTATUS_SPP PRV_U
       in and_then (set_privilege prev) (\<lambda>_ m. ret npc (set_csr CSR_MSTATUS v m)) m) m) m"

definition insn_dret :: "insn_func" where
  "insn_dret xlen insn pc npc m =
     require_privilege PRV_M (\<lambda>m. and_then (set_pc_and_serialize xlen (dpc (st m))) (\<lambda>npc m.
       and_then (set_privilege (ucast (dcsr_prv (dcsr (st m))))) (\<lambda>_ m.
         ret npc (on_st (\<lambda>s. s\<lparr>dcsr := (dcsr s)\<lparr>dcsr_cause := 0\<rparr>,
           single_step := if dcsr_step (dcsr s) then STEP_STEPPING else single_step s\<rparr>) m)) m) m) m"

definition insn_sfence_vm :: "insn_func" where
  "insn_sfence_vm xlen insn pc npc m = require_privilege PRV_S (\<lambda>m. ret npc (flush_tlb m)) m"

text \<open>\<open>fence.i\<close> empties the cache of decoded instructions, which is not part of the state.\<close>

definition insn_fence_i :: "insn_func" where
  "insn_fence_i xlen insn pc npc m = ret npc m"

definition system_instructions :: "insn_func list" where
  "system_instructions =
     [insn_csrrw, insn_csrrs, insn_csrrc, insn_csrrwi, insn_csrrsi, insn_csrrci, insn_mret, insn_sret, insn_dret,
      insn_sfence_vm, insn_fence_i]"

subsection \<open>Fields bit by bit\<close>

definition field :: "nat \<Rightarrow> nat \<Rightarrow> u64" where "field k w = push_bit k (mask w)"

lemma bit_field: "bit (field k w) n \<longleftrightarrow> k \<le> n \<and> n < k + w \<and> n < 64"
  by (auto simp: field_def bit_simps)

lemma field_low: "0 < w \<Longrightarrow> k + w \<le> 64 \<Longrightarrow> field k w AND NOT (push_bit 1 (field k w)) = push_bit k 1"
  by (rule bit_word_eqI, simp only: bit_and_iff bit_not_iff bit_push_bit_iff bit_field bit_1_iff possible_bit_word) auto

lemma get_field_field: "0 < w \<Longrightarrow> k + w \<le> 64 \<Longrightarrow> get_field v (field k w) = take_bit w (drop_bit k v)"
proof -
  assume w: "0 < w" "k + w \<le> 64"
  then have "get_field v (field k w) = drop_bit k (v AND field k w)"
    unfolding get_field_def field_low [OF w] by (simp only: drop_bit_eq_div push_bit_eq_mult mult_1)
  moreover have "drop_bit k (v AND field k w) = take_bit w (drop_bit k v)"
    by (rule bit_word_eqI, simp only: bit_take_bit_iff bit_drop_bit_eq bit_and_iff bit_field o_def)
      (auto dest: bit_imp_le_length)
  ultimately show ?thesis by simp
qed

lemma bit_set_field:
  "0 < w \<Longrightarrow> k + w \<le> 64 \<Longrightarrow>
    bit (set_field v (field k w) x) n \<longleftrightarrow> (if k \<le> n \<and> n < k + w then bit x (n - k) else bit v n)"
  unfolding set_field_def field_low
  by (auto simp: bit_field bit_simps push_bit_eq_mult [symmetric] mult.commute [of x] dest: bit_imp_le_length)

lemma mstatus_fields:
  "MSTATUS_UIE = field 0 1" "MSTATUS_SIE = field 1 1" "MSTATUS_MIE = field 3 1" "MSTATUS_SPIE = field 5 1"
  "MSTATUS_MPIE = field 7 1" "MSTATUS_SPP = field 8 1" "MSTATUS_MPP = field 11 2" "MSTATUS_FS = field 13 2"
  "MSTATUS_XS = field 15 2" "MSTATUS_MPRV = field 17 1" "MSTATUS_PUM = field 18 1" "MSTATUS_MXR = field 19 1"
  "MSTATUS_VM = field 24 5" "MSTATUS32_SD = field 31 1" "MSTATUS64_SD = field 63 1"
  by (simp_all add: field_def MSTATUS_UIE_def MSTATUS_SIE_def MSTATUS_MIE_def MSTATUS_SPIE_def MSTATUS_MPIE_def MSTATUS_SPP_def
      MSTATUS_MPP_def MSTATUS_FS_def MSTATUS_XS_def MSTATUS_MPRV_def MSTATUS_PUM_def MSTATUS_MXR_def MSTATUS_VM_def
      MSTATUS32_SD_def MSTATUS64_SD_def mask_eq_exp_minus_1)

lemma field_covered: "k + w \<le> 64 \<Longrightarrow> v AND field k w = field k w \<longleftrightarrow> (\<forall>n\<in>{k..<k + w}. bit v n)"
  unfolding bit_eq_iff bit_and_iff bit_field by (auto dest: bit_imp_le_length) (meson le_trans less_le_trans)

lemma bit_field1: "k < 64 \<Longrightarrow> bit (field k (Suc 0)) n \<longleftrightarrow> n = k"
  by (auto simp: bit_field)

lemma bit_field2: "k < 63 \<Longrightarrow> bit (field k 2) n \<longleftrightarrow> n = k \<or> n = k + 1"
  by (auto simp: bit_field)

lemma bit_set_field1: "k < 64 \<Longrightarrow> bit (set_field v (field k (Suc 0)) x) n \<longleftrightarrow> (if n = k then bit x 0 else bit v n)"
  by (subst bit_set_field) auto

lemma get_field1: "k < 64 \<Longrightarrow> get_field v (field k (Suc 0)) = of_bool (bit v k)"
  by (subst get_field_field) (simp_all add: bit_iff_odd_drop_bit take_bit_Suc mod_2_eq_odd)

lemma two_bits: "{13..<13 + 2} = {13, 14 :: nat}" "{15..<15 + 2} = {15, 16 :: nat}"
  by auto

subsection \<open>The status register after a write\<close>

definition sd_bit :: "nat \<Rightarrow> nat" where "sd_bit xlen = (if xlen = 32 then 31 else 63)"

definition fs_dirty :: "u64 \<Rightarrow> bool" where
  "fs_dirty v \<longleftrightarrow> bit v 13 \<and> bit v 14 \<or> bit v 15 \<and> bit v 16"

lemma fs_dirty_iff: "v AND MSTATUS_FS = MSTATUS_FS \<or> v AND MSTATUS_XS = MSTATUS_XS \<longleftrightarrow> fs_dirty v"
  unfolding mstatus_fields fs_dirty_def by (subst field_covered, simp)+ (simp only: two_bits, simp)

text \<open>The bits a write of the status register changes.\<close>

definition status_writable :: "state_t \<Rightarrow> reg_t \<Rightarrow> nat \<Rightarrow> bool" where
  "status_writable s val i \<longleftrightarrow> i \<in> {1, 3, 5, 7, 8, 11, 12, 13, 14, 17, 18, 19} \<or> (has_ext s \<and> i \<in> {15, 16}) \<or>
     (validate_vm (max_xlen s) (get_field val MSTATUS_VM) \<and> i \<in> {24..<29})"

lemma bit_status_mask: "bit (mstatus_write_mask s val) i \<longleftrightarrow> i < 64 \<and> status_writable s val i"
  unfolding mstatus_write_mask_def status_writable_def mstatus_fields
  by (simp add: bit_or_iff bit_field1 bit_field2 if_distrib [where f = "\<lambda>v. bit v i"] bit_field [of 24]) fastforce

lemma bit_status_after:
  assumes "max_xlen s \<in> {32, 64}"
  shows "i \<noteq> sd_bit (max_xlen s) \<Longrightarrow>
      bit (status_after s val) i \<longleftrightarrow> bit (if status_writable s val i then val else mstatus s) i"
    and "bit (status_after s val) (sd_bit (max_xlen s)) \<longleftrightarrow> fs_dirty (status_after s val)"
proof -
  define u where "u = (mstatus s AND NOT (mstatus_write_mask s val)) OR (val AND mstatus_write_mask s val)"
  have u: "bit u i \<longleftrightarrow> bit (if status_writable s val i then val else mstatus s) i" for i
    by (auto simp: u_def bit_or_iff bit_and_iff bit_not_iff bit_status_mask dest: bit_imp_le_length)
  have v: "status_after s val = set_field u (field (sd_bit (max_xlen s)) 1) (of_bool (fs_dirty u))"
    using assms unfolding u_def status_after_def fs_dirty_iff Let_def
    by (auto simp: sd_bit_def mstatus_fields)
  have bv: "bit (status_after s val) i \<longleftrightarrow> (if i = sd_bit (max_xlen s) then fs_dirty u else bit u i)" for i
    unfolding v using bit_set_field [of 1 "sd_bit (max_xlen s)" u "of_bool (fs_dirty u)" i]
    by (auto simp: sd_bit_def bit_simps split: if_splits)
  show "i \<noteq> sd_bit (max_xlen s) \<Longrightarrow>
      bit (status_after s val) i \<longleftrightarrow> bit (if status_writable s val i then val else mstatus s) i"
    using bv u by simp
  show "bit (status_after s val) (sd_bit (max_xlen s)) \<longleftrightarrow> fs_dirty (status_after s val)"
    unfolding bv fs_dirty_def by (simp add: sd_bit_def)
qed

lemma bit_zext_xlen: "xlen \<in> {32, 64} \<Longrightarrow> bit (zext_xlen xlen v) i \<longleftrightarrow> i < xlen \<and> bit v i"
  by (auto simp: zext32_def bit_simps dest: bit_imp_le_length)

text \<open>A value that differs from the register only in writable bits is what the register becomes, the
  summary bit aside.\<close>

lemma status_after_zext:
  assumes "max_xlen s \<in> {32, 64}" "bit v i \<noteq> bit (mstatus s) i \<Longrightarrow> i \<in> {1, 3, 5, 7, 8, 11, 12, 13, 14, 17, 18, 19}"
    and "i \<noteq> sd_bit (max_xlen s)"
  shows "bit (status_after s (zext_xlen (max_xlen s) v)) i \<longleftrightarrow> bit v i"
proof -
  have "i < max_xlen s" if "status_writable s (zext_xlen (max_xlen s) v) i"
    using assms(1) that by (auto simp: status_writable_def)
  moreover have "status_writable s (zext_xlen (max_xlen s) v) i" if "bit v i \<noteq> bit (mstatus s) i"
    using assms(2) [OF that] by (auto simp: status_writable_def)
  ultimately show ?thesis
    using bit_status_after(1) [OF assms(1,3), of "zext_xlen (max_xlen s) v"] bit_zext_xlen [OF assms(1), of v i] by auto
qed

subsection \<open>A trap and the return from it\<close>

lemma set_csr_mstatus: "set_csr CSR_MSTATUS v m = set_mstatus (zext_xlen (max_xlen (st m)) v) m"
  by (simp add: set_csr_def csr_numbers Let_def)

lemma st_flush_tlb [simp]: "st (flush_tlb m) = st m" "mem (flush_tlb m) = mem m" "memsz (flush_tlb m) = memsz m"
    "bus (flush_tlb m) = bus m"
  by (simp_all add: flush_tlb_def)

lemma on_st_simps [simp]: "st (on_st f m) = f (st m)" "mem (on_st f m) = mem m" "memsz (on_st f m) = memsz m"
    "bus (on_st f m) = bus m" "tlb (on_st f m) = tlb m"
  by (simp_all add: on_st_def)

lemma set_mstatus_simps [simp]: "st (set_mstatus val m) = (st m)\<lparr>mstatus := status_after (st m) val\<rparr>"
    "mem (set_mstatus val m) = mem m" "memsz (set_mstatus val m) = memsz m" "bus (set_mstatus val m) = bus m"
  by (simp_all add: set_mstatus_def)

lemma set_privilege_simps:
  "p \<le> PRV_M \<Longrightarrow> set_privilege p m = Some (Inr (), on_st (\<lambda>s. s\<lparr>prv := if p = PRV_H then PRV_U else p\<rparr>) (flush_tlb m))"
  by (simp add: set_privilege_def ret_def)

text \<open>The stacked interrupt enable.\<close>

definition status_in :: "nat \<Rightarrow> nat \<Rightarrow> nat \<Rightarrow> nat \<Rightarrow> u64 \<Rightarrow> u64 \<Rightarrow> u64" where
  "status_in pie pp w ie p v =
     set_field (set_field (set_field v (field pie 1) (get_field v (push_bit (unat p) MSTATUS_UIE))) (field pp w) p) (field ie 1) 0"

definition status_out :: "nat \<Rightarrow> nat \<Rightarrow> nat \<Rightarrow> u64 \<Rightarrow> u64 \<Rightarrow> u64" where
  "status_out pie pp w p v =
     set_field (set_field (set_field v (push_bit (unat p) MSTATUS_UIE) (get_field v (field pie 1))) (field pie 1) 0) (field pp w) PRV_U"

lemma push_uie: "push_bit k MSTATUS_UIE = field k 1"
  by (simp add: MSTATUS_UIE_def field_def)

lemma bit_status_in:
  assumes "pie < 64" "0 < w" "pp + w \<le> 64" "ie < 64" "unat p < 64"
  shows "bit (status_in pie pp w ie p v) i \<longleftrightarrow>
    (if i = ie then False else if pp \<le> i \<and> i < pp + w then bit p (i - pp) else if i = pie then bit v (unat p) else bit v i)"
  using assms unfolding status_in_def push_uie
  by (simp add: bit_set_field bit_set_field1 get_field1)

lemma bit_status_out:
  assumes "pie < 64" "0 < w" "pp + w \<le> 64" "unat p < 64"
  shows "bit (status_out pie pp w p v) i \<longleftrightarrow>
    (if pp \<le> i \<and> i < pp + w then False else if i = pie then False else if i = unat p then bit v pie else bit v i)"
  using assms unfolding status_out_def push_uie
  by (simp add: bit_set_field bit_set_field1 get_field1 PRV_U_def)

text \<open>The hart after a trap into the machine or the supervisor mode.\<close>

definition trap_into_m :: "trap \<Rightarrow> reg_t \<Rightarrow> state_t \<Rightarrow> state_t" where
  "trap_into_m t epc s =
     s\<lparr>st_pc := mtvec s, mepc := epc, mcause := trap_cause t,
       mbadaddr := (case trap_badaddr t of None \<Rightarrow> mbadaddr s | Some a \<Rightarrow> a),
       mstatus := status_after s (zext_xlen (max_xlen s) (status_in 7 11 2 3 (prv s) (mstatus s))),
       prv := PRV_M, load_reservation := - 1\<rparr>"

definition trap_into_s :: "trap \<Rightarrow> reg_t \<Rightarrow> state_t \<Rightarrow> state_t" where
  "trap_into_s t epc s =
     s\<lparr>st_pc := stvec s, scause := trap_cause t, sepc := epc,
       sbadaddr := (case trap_badaddr t of None \<Rightarrow> sbadaddr s | Some a \<Rightarrow> a),
       mstatus := status_after s (zext_xlen (max_xlen s) (status_in 5 8 1 1 (prv s) (mstatus s))),
       prv := PRV_S, load_reservation := - 1\<rparr>"

lemma status_after_cong: "mstatus s = mstatus s' \<Longrightarrow> has_ext s = has_ext s' \<Longrightarrow> max_xlen s = max_xlen s' \<Longrightarrow>
    status_after s v = status_after s' v"
  by (simp add: status_after_def mstatus_write_mask_def)

lemma prv_numbers: "PRV_S \<le> PRV_M" "PRV_S \<noteq> PRV_H" "PRV_M \<noteq> PRV_H" "PRV_U \<noteq> PRV_H" "PRV_U \<le> PRV_M"
  by (simp_all add: PRV_S_def PRV_M_def PRV_H_def PRV_U_def)

lemma take_trap_m:
  assumes "\<not> (trap_cause t = 3 \<and> ebreak_to_debug (st m))" "dcsr_cause (dcsr (st m)) = 0" "\<not> delegated (trap_cause t) (st m)"
  obtains m' where "take_trap t epc m = Some (Inr (), m')" "st m' = trap_into_m t epc (st m)" "mem m' = mem m" "memsz m' = memsz m"
proof -
  have "\<exists>m'. take_trap t epc m = Some (Inr (), m') \<and> st m' = trap_into_m t epc (st m) \<and> mem m' = mem m \<and> memsz m' = memsz m"
    using assms
    by (auto simp: take_trap_def Let_def set_csr_mstatus and_then_def set_privilege_simps prv_numbers ret_def
        yield_load_reservation_def trap_into_m_def status_in_def mstatus_fields intro!: state_t.equality status_after_cong)
  then show ?thesis using that by blast
qed

lemma take_trap_s:
  assumes "\<not> (trap_cause t = 3 \<and> ebreak_to_debug (st m))" "dcsr_cause (dcsr (st m)) = 0" "delegated (trap_cause t) (st m)"
  obtains m' where "take_trap t epc m = Some (Inr (), m')" "st m' = trap_into_s t epc (st m)" "mem m' = mem m" "memsz m' = memsz m"
proof -
  have "\<exists>m'. take_trap t epc m = Some (Inr (), m') \<and> st m' = trap_into_s t epc (st m) \<and> mem m' = mem m \<and> memsz m' = memsz m"
    using assms
    by (auto simp: take_trap_def Let_def set_csr_mstatus and_then_def set_privilege_simps prv_numbers ret_def
        yield_load_reservation_def trap_into_s_def status_in_def mstatus_fields intro!: state_t.equality status_after_cong)
  then show ?thesis using that by blast
qed

lemma mret_returns:
  assumes "prv (st m) = PRV_M" "mepc (st m) AND 2 = 0 \<or> supports_extension CHR ''C'' (st m)"
    "get_field (mstatus (st m)) MSTATUS_MPP = p" "p \<in> {PRV_U, PRV_S, PRV_M}" "xlen = max_xlen (st m)"
  obtains m' where "insn_mret xlen insn pc npc m = Some (Inr PC_SERIALIZE_AFTER, m')" "mem m' = mem m" "memsz m' = memsz m"
    "st m' = (st m)\<lparr>st_pc := mepc (st m), prv := p,
       mstatus := status_after (st m) (zext_xlen xlen (status_out 7 11 2 p (mstatus (st m))))\<rparr>"
proof -
  have p: "p \<le> PRV_M" "p \<noteq> PRV_H" using assms(4) prv_numbers by auto
  have "\<exists>m'. insn_mret xlen insn pc npc m = Some (Inr PC_SERIALIZE_AFTER, m') \<and> mem m' = mem m \<and> memsz m' = memsz m \<and>
      st m' = (st m)\<lparr>st_pc := mepc (st m), prv := p,
       mstatus := status_after (st m) (zext_xlen xlen (status_out 7 11 2 p (mstatus (st m))))\<rparr>"
    using assms(1-3,5) p
    by (auto simp: insn_mret_def require_privilege_def require_that_def set_pc_and_serialize_def set_pc_def ret_def
        Let_def set_csr_mstatus and_then_def set_privilege_simps status_out_def mstatus_fields
        intro!: state_t.equality status_after_cong)
  then show ?thesis using that by blast
qed

lemma sret_returns:
  assumes "prv (st m) = PRV_S" "sepc (st m) AND 2 = 0 \<or> supports_extension CHR ''C'' (st m)"
    "get_field (mstatus (st m)) MSTATUS_SPP = p" "p \<in> {PRV_U, PRV_S}" "xlen = max_xlen (st m)"
  obtains m' where "insn_sret xlen insn pc npc m = Some (Inr PC_SERIALIZE_AFTER, m')" "mem m' = mem m" "memsz m' = memsz m"
    "st m' = (st m)\<lparr>st_pc := sepc (st m), prv := p,
       mstatus := status_after (st m) (zext_xlen xlen (status_out 5 8 1 p (mstatus (st m))))\<rparr>"
proof -
  have p: "p \<le> PRV_M" "p \<noteq> PRV_H" using assms(4) prv_numbers by auto
  have "\<exists>m'. insn_sret xlen insn pc npc m = Some (Inr PC_SERIALIZE_AFTER, m') \<and> mem m' = mem m \<and> memsz m' = memsz m \<and>
      st m' = (st m)\<lparr>st_pc := sepc (st m), prv := p,
       mstatus := status_after (st m) (zext_xlen xlen (status_out 5 8 1 p (mstatus (st m))))\<rparr>"
    using assms(1-3,5) p
    by (auto simp: insn_sret_def require_privilege_def require_that_def set_pc_and_serialize_def set_pc_def ret_def
        Let_def set_csr_mstatus and_then_def set_privilege_simps status_out_def mstatus_fields
        intro!: state_t.equality status_after_cong)
  then show ?thesis using that by blast
qed

text \<open>The status register across the two writes.\<close>

definition levels :: "reg_t set" where "levels = {PRV_U, PRV_S, PRV_M}"

lemma level_numbers: "p \<in> levels \<Longrightarrow> unat p < 4 \<and> unat p \<noteq> 2"
  by (auto simp: levels_def PRV_U_def PRV_S_def PRV_M_def)

definition summary_ok :: "state_t \<Rightarrow> bool" where
  "summary_ok s \<longleftrightarrow> (bit (mstatus s) (sd_bit (max_xlen s)) \<longleftrightarrow> fs_dirty (mstatus s))"

lemma sd_bit_cases: "sd_bit xlen = 31 \<or> sd_bit xlen = 63"
  by (simp add: sd_bit_def)

lemma level_bits: "p \<in> levels \<Longrightarrow> bit p i \<Longrightarrow> i < 2"
  using bit_imp_le_length [of p i]
  by (auto simp: levels_def PRV_U_def PRV_S_def PRV_M_def bit_1_iff bit_numeral_rec split: nat.splits)

lemma status_in_bits:
  assumes "max_xlen s \<in> {32, 64}" "p \<in> levels" "i \<noteq> sd_bit (max_xlen s)" "i \<noteq> 0"
  shows "bit (status_after s (zext_xlen (max_xlen s) (status_in 7 11 2 3 p (mstatus s)))) i = bit (status_in 7 11 2 3 p (mstatus s)) i"
    "bit (status_after s (zext_xlen (max_xlen s) (status_in 5 8 1 1 p (mstatus s)))) i = bit (status_in 5 8 1 1 p (mstatus s)) i"
    "bit (status_after s (zext_xlen (max_xlen s) (status_out 7 11 2 p (mstatus s)))) i = bit (status_out 7 11 2 p (mstatus s)) i"
    "bit (status_after s (zext_xlen (max_xlen s) (status_out 5 8 1 p (mstatus s)))) i = bit (status_out 5 8 1 p (mstatus s)) i"
proof -
  note p = level_numbers [OF assms(2)]
  show "bit (status_after s (zext_xlen (max_xlen s) (status_in 7 11 2 3 p (mstatus s)))) i = bit (status_in 7 11 2 3 p (mstatus s)) i"
    by (rule status_after_zext [OF assms(1) _ assms(3)]) (use p assms(4) in \<open>auto simp: bit_status_in split: if_splits\<close>)
  show "bit (status_after s (zext_xlen (max_xlen s) (status_in 5 8 1 1 p (mstatus s)))) i = bit (status_in 5 8 1 1 p (mstatus s)) i"
    by (rule status_after_zext [OF assms(1) _ assms(3)]) (use p assms(4) in \<open>auto simp: bit_status_in split: if_splits\<close>)
  show "bit (status_after s (zext_xlen (max_xlen s) (status_out 7 11 2 p (mstatus s)))) i = bit (status_out 7 11 2 p (mstatus s)) i"
    by (rule status_after_zext [OF assms(1) _ assms(3)]) (use p assms(4) in \<open>auto simp: bit_status_out split: if_splits\<close>)
  show "bit (status_after s (zext_xlen (max_xlen s) (status_out 5 8 1 p (mstatus s)))) i = bit (status_out 5 8 1 p (mstatus s)) i"
    by (rule status_after_zext [OF assms(1) _ assms(3)]) (use p assms(4) in \<open>auto simp: bit_status_out split: if_splits\<close>)
qed

lemma status_bit_0: "max_xlen s \<in> {32, 64} \<Longrightarrow> bit (status_after s val) 0 = bit (mstatus s) 0"
  using bit_status_after(1) [of s 0 val] sd_bit_cases [of "max_xlen s"] by (auto simp: status_writable_def)

lemma fs_dirty_cong: "(\<And>i. i \<in> {13, 14, 15, 16} \<Longrightarrow> bit v i = bit w i) \<Longrightarrow> fs_dirty v = fs_dirty w"
  by (simp add: fs_dirty_def)

text \<open>Into a mode and back: every bit but the saved enable, the saved level and, for a trap from below,
  the enable of the mode itself is what it was.\<close>

lemma status_round_trip_m:
  assumes "max_xlen s \<in> {32, 64}" "prv s \<in> levels" "summary_ok s"
  defines "x \<equiv> max_xlen s"
  defines "v \<equiv> status_after s (zext_xlen x (status_in 7 11 2 3 (prv s) (mstatus s)))"
  assumes s': "mstatus s' = v" "max_xlen s' = x" "has_ext s' = has_ext s"
  defines "w \<equiv> status_after s' (zext_xlen x (status_out 7 11 2 (prv s) v))"
  shows "get_field v MSTATUS_MPP = prv s"
    and "i \<notin> {7, 11, 12} \<Longrightarrow> i \<noteq> 3 \<or> prv s = PRV_M \<Longrightarrow> bit w i = bit (mstatus s) i"
proof -
  note x = assms(1) [folded x_def]
  have sd: "sd_bit x \<notin> {0, 7, 11, 12, 13, 14, 15, 16}" "prv s \<in> levels \<Longrightarrow> sd_bit x \<noteq> unat (prv s)"
    using sd_bit_cases [of x] level_numbers [of "prv s"] by auto
  note p = level_numbers [OF assms(2)] and pb = level_bits [OF assms(2)]
  have vi: "bit v i = bit (status_in 7 11 2 3 (prv s) (mstatus s)) i" if "i \<noteq> 0" "i \<noteq> sd_bit x" for i
    unfolding v_def x_def by (rule status_in_bits(1) [OF assms(1,2)]) (use that in \<open>auto simp: x_def\<close>)
  have wi: "bit w i = bit (status_out 7 11 2 (prv s) v) i" if "i \<noteq> 0" "i \<noteq> sd_bit x" for i
    using status_in_bits(3) [of s' "prv s" i] assms(2) x that unfolding w_def s' by simp
  have mpp: "bit v (11 + n) = bit (prv s) n" if "n < 2" for n
  proof -
    have "sd_bit x \<noteq> 11 + n" using sd that by (auto simp: less_2_cases_iff)
    then show ?thesis using vi [of "11 + n"] that p by (auto simp: bit_status_in)
  qed
  show "get_field v MSTATUS_MPP = prv s"
    unfolding mstatus_fields get_field_field [of 2 11 v, simplified]
    using pb by (intro bit_word_eqI) (auto simp: bit_take_bit_iff bit_drop_bit_eq mpp)
  have mid: "bit w i = bit (mstatus s) i" if "i \<notin> {0, 7, 11, 12, sd_bit x}" "i \<noteq> 3 \<or> prv s = PRV_M" for i
  proof -
    have q: "unat (prv s) = 3" if "prv s = PRV_M" using that by (simp add: PRV_M_def)
    have "\<not> (11 \<le> i \<and> i < 13)" using that(1) by auto
    then show ?thesis using that sd p q by (auto simp: wi vi bit_status_in bit_status_out)
  qed
  show "bit w i = bit (mstatus s) i" if "i \<notin> {7, 11, 12}" "i \<noteq> 3 \<or> prv s = PRV_M"
  proof (cases "i = 0 \<or> i = sd_bit x")
    case False then show ?thesis using mid that by blast
  next
    case True
    moreover have "bit w 0 = bit (mstatus s) 0"
      using status_bit_0 [of s'] status_bit_0 [OF assms(1)] x unfolding w_def s' by (simp add: s' v_def)
    moreover have "bit w (sd_bit x) = fs_dirty w"
      using bit_status_after(2) [of s'] x unfolding w_def s' by simp
    moreover have "fs_dirty w = fs_dirty (mstatus s)" by (rule fs_dirty_cong, rule mid) (use sd in auto)
    ultimately show ?thesis using assms(3) unfolding summary_ok_def x_def by metis
  qed
qed

lemma status_round_trip_s:
  assumes "max_xlen s \<in> {32, 64}" "prv s \<in> {PRV_U, PRV_S}" "summary_ok s"
  defines "x \<equiv> max_xlen s"
  defines "v \<equiv> status_after s (zext_xlen x (status_in 5 8 1 1 (prv s) (mstatus s)))"
  assumes s': "mstatus s' = v" "max_xlen s' = x" "has_ext s' = has_ext s"
  defines "w \<equiv> status_after s' (zext_xlen x (status_out 5 8 1 (prv s) v))"
  shows "get_field v MSTATUS_SPP = prv s"
    and "i \<notin> {5, 8} \<Longrightarrow> i \<noteq> 1 \<or> prv s = PRV_S \<Longrightarrow> bit w i = bit (mstatus s) i"
proof -
  note x = assms(1) [folded x_def]
  have l: "prv s \<in> levels" using assms(2) by (auto simp: levels_def)
  have sd: "sd_bit x \<notin> {0, 5, 8, 13, 14, 15, 16}" "sd_bit x \<noteq> unat (prv s)"
    using sd_bit_cases [of x] level_numbers [OF l] by auto
  have p: "unat (prv s) = of_bool (prv s = PRV_S)" "bit (prv s) 0 = (prv s = PRV_S)"
    using assms(2) by (auto simp: PRV_U_def PRV_S_def)
  have vi: "bit v i = bit (status_in 5 8 1 1 (prv s) (mstatus s)) i" if "i \<noteq> 0" "i \<noteq> sd_bit x" for i
    unfolding v_def x_def by (rule status_in_bits(2) [OF assms(1) l]) (use that in \<open>auto simp: x_def\<close>)
  have wi: "bit w i = bit (status_out 5 8 1 (prv s) v) i" if "i \<noteq> 0" "i \<noteq> sd_bit x" for i
    using status_in_bits(4) [of s' "prv s" i] l x that unfolding w_def s' by simp
  have "get_field v MSTATUS_SPP = of_bool (bit v 8)" using get_field1 [of 8 v] by (simp add: mstatus_fields)
  also have "bit v 8 = (prv s = PRV_S)" using sd vi [of 8] p by (auto simp: bit_status_in)
  finally show "get_field v MSTATUS_SPP = prv s" using assms(2) by (auto simp: PRV_U_def PRV_S_def)
  have mid: "bit w i = bit (mstatus s) i" if "i \<notin> {0, 5, 8, sd_bit x}" "i \<noteq> 1 \<or> prv s = PRV_S" for i
  proof -
    have i: "i \<noteq> 0" "i \<noteq> sd_bit x" "i \<noteq> 5" "i \<noteq> 8" "\<not> (8 \<le> i \<and> i < 8 + 1)" using that by auto
    have u: "unat (prv s) < 64" using p by simp
    have v5: "bit v 5 = bit (mstatus s) (unat (prv s))"
      using vi [of 5] sd bit_status_in [of 5 1 8 1 "prv s" "mstatus s" 5] u by simp
    have vii: "bit v i = (if i = 1 then False else bit (mstatus s) i)"
      using vi [OF i(1,2)] bit_status_in [of 5 1 8 1 "prv s" "mstatus s" i] i u by auto
    have "bit w i = (if i = unat (prv s) then bit v 5 else bit v i)"
      unfolding wi [OF i(1,2)] by (subst bit_status_out) (use i u in auto)
    also have "\<dots> = (if i = unat (prv s) then bit (mstatus s) i else if i = 1 then False else bit (mstatus s) i)"
      unfolding v5 vii by (cases "i = unat (prv s)") simp_all
    also have "\<dots> = bit (mstatus s) i" using that(2) p(1) by (cases "prv s = PRV_S"; cases "i = 1"; simp)
    finally show ?thesis .
  qed
  show "bit w i = bit (mstatus s) i" if "i \<notin> {5, 8}" "i \<noteq> 1 \<or> prv s = PRV_S"
  proof (cases "i = 0 \<or> i = sd_bit x")
    case False then show ?thesis using mid that by blast
  next
    case True
    moreover have "bit w 0 = bit (mstatus s) 0"
      using status_bit_0 [of s'] status_bit_0 [OF assms(1)] x unfolding w_def s' by (simp add: s' v_def)
    moreover have "bit w (sd_bit x) = fs_dirty w"
      using bit_status_after(2) [of s'] x unfolding w_def s' by simp
    moreover have "fs_dirty w = fs_dirty (mstatus s)" by (rule fs_dirty_cong, rule mid) (use sd in auto)
    ultimately show ?thesis using assms(3) unfolding summary_ok_def x_def by metis
  qed
qed

text \<open>C8.  A trap and the return from it.  Outside debug mode, a trap taken from any level saves the
  program counter, the level and the interrupt enable of the level, and continues at the trap
  vector in machine mode, or in supervisor mode when the cause is delegated; the matching return
  instruction then restores the program counter, the level, the registers and the memory, and every
  bit of the status register except the saved enable, the saved level and, for a trap from a lower
  level, the enable of the mode that handled it.\<close>

theorem trap_return:
  fixes m :: "machine"
  assumes "xlen = max_xlen (st m)" "xlen \<in> {32, 64}" "prv (st m) \<in> levels" "summary_ok (st m)"
    "dcsr_cause (dcsr (st m)) = 0" "\<not> (trap_cause t = 3 \<and> ebreak_to_debug (st m))"
    "epc AND 2 = 0 \<or> supports_extension CHR ''C'' (st m)"
  shows "\<exists>m1 m2. take_trap t epc m = Some (Inr (), m1) \<and>
    (if delegated (trap_cause t) (st m)
     then prv (st m1) = PRV_S \<and> st_pc (st m1) = stvec (st m) \<and> scause (st m1) = trap_cause t \<and>
       insn_sret xlen insn pc npc m1 = Some (Inr PC_SERIALIZE_AFTER, m2)
     else prv (st m1) = PRV_M \<and> st_pc (st m1) = mtvec (st m) \<and> mcause (st m1) = trap_cause t \<and>
       insn_mret xlen insn pc npc m1 = Some (Inr PC_SERIALIZE_AFTER, m2)) \<and>
    st_pc (st m2) = epc \<and> prv (st m2) = prv (st m) \<and> XPR (st m2) = XPR (st m) \<and> mem m2 = mem m \<and>
    (\<forall>i. i \<notin> (if delegated (trap_cause t) (st m)
                then {5, 8} \<union> (if prv (st m) = PRV_S then {} else {1})
                else {7, 11, 12} \<union> (if prv (st m) = PRV_M then {} else {3})) \<longrightarrow>
      bit (mstatus (st m2)) i = bit (mstatus (st m)) i)"
proof (cases "delegated (trap_cause t) (st m)")
  case False
  obtain m1 where m1: "take_trap t epc m = Some (Inr (), m1)" "st m1 = trap_into_m t epc (st m)" "mem m1 = mem m"
    by (rule take_trap_m [OF assms(6,5) False])
  note r = status_round_trip_m [of "st m" "st m1"]
  have f: "mstatus (st m1) = status_after (st m) (zext_xlen xlen (status_in 7 11 2 3 (prv (st m)) (mstatus (st m))))"
    "max_xlen (st m1) = xlen" "has_ext (st m1) = has_ext (st m)" "prv (st m1) = PRV_M" "mepc (st m1) = epc"
    "misa (st m1) = misa (st m)" "XPR (st m1) = XPR (st m)" "st_pc (st m1) = mtvec (st m)" "mcause (st m1) = trap_cause t"
    using assms(1) by (simp_all add: m1(2) trap_into_m_def)
  note r = status_round_trip_m [of "st m" "st m1", OF assms(2) [unfolded assms(1)] assms(3,4), folded assms(1), OF f(1-3), folded f(1)]
  obtain m2 where "insn_mret xlen insn pc npc m1 = Some (Inr PC_SERIALIZE_AFTER, m2)" "mem m2 = mem m1" "memsz m2 = memsz m1"
    "st m2 = (st m1)\<lparr>st_pc := mepc (st m1), prv := prv (st m),
       mstatus := status_after (st m1) (zext_xlen xlen (status_out 7 11 2 (prv (st m)) (mstatus (st m1))))\<rparr>"
    by (rule mret_returns [OF f(4) _ r(1) assms(3) [unfolded levels_def] f(2) [symmetric]])
      (use assms(7) f in \<open>auto simp: supports_extension_def\<close>)
  then show ?thesis using False m1 f r(2) by auto
next
  case True
  then have "prv (st m) \<le> PRV_S" by (simp add: delegated_def Let_def)
  then have p: "prv (st m) \<in> {PRV_U, PRV_S}"
    using assms(3) by (auto simp: levels_def PRV_U_def PRV_S_def PRV_M_def word_le_nat_alt)
  obtain m1 where m1: "take_trap t epc m = Some (Inr (), m1)" "st m1 = trap_into_s t epc (st m)" "mem m1 = mem m"
    by (rule take_trap_s [OF assms(6,5) True])
  have f: "mstatus (st m1) = status_after (st m) (zext_xlen xlen (status_in 5 8 1 1 (prv (st m)) (mstatus (st m))))"
    "max_xlen (st m1) = xlen" "has_ext (st m1) = has_ext (st m)" "prv (st m1) = PRV_S" "sepc (st m1) = epc"
    "misa (st m1) = misa (st m)" "XPR (st m1) = XPR (st m)" "st_pc (st m1) = stvec (st m)" "scause (st m1) = trap_cause t"
    using assms(1) by (simp_all add: m1(2) trap_into_s_def)
  note r = status_round_trip_s [of "st m" "st m1", OF assms(2) [unfolded assms(1)] p assms(4), folded assms(1), OF f(1-3), folded f(1)]
  obtain m2 where "insn_sret xlen insn pc npc m1 = Some (Inr PC_SERIALIZE_AFTER, m2)" "mem m2 = mem m1" "memsz m2 = memsz m1"
    "st m2 = (st m1)\<lparr>st_pc := sepc (st m1), prv := prv (st m),
       mstatus := status_after (st m1) (zext_xlen xlen (status_out 5 8 1 (prv (st m)) (mstatus (st m1))))\<rparr>"
    by (rule sret_returns [OF f(4) _ r(1) p f(2) [symmetric]])
      (use assms(7) f in \<open>auto simp: supports_extension_def\<close>)
  then show ?thesis using True m1 f r(2) by auto
qed

text \<open>An example: a hart in user mode.\<close>

definition example_user :: "machine" where
  "example_user = (example_machine 32)\<lparr>st := (example_hart 32)\<lparr>prv := PRV_U\<rparr>\<rparr>"

theorem trap_return_witness:
  "\<exists>m1 m2. take_trap trap_user_ecall 0x80000010 example_user = Some (Inr (), m1) \<and>
    insn_mret 32 0 0 0 m1 = Some (Inr PC_SERIALIZE_AFTER, m2) \<and> st_pc (st m2) = 0x80000010 \<and> prv (st m2) = PRV_U"
proof -
  have e: "max_xlen (st example_user) = 32" "prv (st example_user) = PRV_U" "PRV_U \<in> levels" "summary_ok (st example_user)"
    "dcsr_cause (dcsr (st example_user)) = 0"
    by (simp_all add: example_user_def example_hart_def levels_def summary_ok_def fs_dirty_def)
  have "\<not> delegated 8 (st example_user)" by (simp add: example_user_def example_hart_def delegated_def Let_def)
  then show ?thesis
    using trap_return [of 32 example_user trap_user_ecall "0x80000010" 0 0 0] e by auto
qed

subsection \<open>The invariant of the privileged state\<close>

definition csr_ok :: "state_t \<Rightarrow> bool" where
  "csr_ok s \<longleftrightarrow> prv s \<in> levels \<and> summary_ok s \<and> take_bit 2 (mtvec s) = 0 \<and> take_bit 2 (stvec s) = 0 \<and>
     mideleg s AND delegable_ints = mideleg s \<and> medeleg s AND all_causes = medeleg s \<and> mie s AND all_ints = mie s \<and>
     take_bit 5 (fflags s) = fflags s \<and> take_bit 3 (frm s) = frm s \<and> tselect s < of_nat num_triggers \<and>
     take_bit (paddr_bits (max_xlen s) - 12) (sptbr s) = sptbr s \<and>
     misa s AND max_isa s = misa s \<and> (bit (max_isa s) 3 \<longrightarrow> bit (max_isa s) 5) \<and> (bit (misa s) 3 \<longrightarrow> bit (misa s) 5) \<and>
     take_bit 2 (dcsr_prv (dcsr s)) = dcsr_prv (dcsr s)"

definition hart_ok :: "nat \<Rightarrow> machine \<Rightarrow> bool" where
  "hart_ok xlen m \<longleftrightarrow> machine_ok xlen m \<and> csr_ok (st m)"

lemma masked_write: "a AND k = a \<Longrightarrow> ((a AND NOT k) OR (v AND k)) AND k = (a AND NOT k) OR (v AND k)" for a :: "'a :: len word"
  by (simp add: bit_eq_iff bit_simps) blast

lemma masked_values:
  "(31 :: u64) = mask 5" "(7 :: u64) = mask 3" "(0xE0 :: u64) = push_bit 5 (mask 3)" "2 ^ k - 1 = (mask k :: u64)"
  by (simp_all add: mask_eq_exp_minus_1)

lemma small_values:
  "take_bit 5 (ucast (val AND 31) :: u32) = ucast (val AND 31)" "take_bit 3 (ucast (val AND 7) :: u32) = ucast (val AND 7)"
  "take_bit 3 (ucast (drop_bit 5 (val AND 0xE0)) :: u32) = ucast (drop_bit 5 (val AND 0xE0))"
  "take_bit k (val AND (2 ^ k - 1)) = val AND (2 ^ k - 1)"
  "take_bit 2 (push_bit 2 (drop_bit 2 val)) = 0" for val :: u64
  unfolding masked_values
  by (rule bit_word_eqI; simp only: bit_take_bit_iff bit_ucast_iff bit_and_iff bit_mask_iff bit_drop_bit_eq bit_push_bit_iff bit_0_eq
      o_def; auto)+

lemma vm_after:
  assumes "max_xlen s \<in> {32, 64}"
  shows "get_field (status_after s val) MSTATUS_VM =
    (if validate_vm (max_xlen s) (get_field val MSTATUS_VM) then get_field val MSTATUS_VM else get_field (mstatus s) MSTATUS_VM)"
proof -
  have "bit (status_after s val) (24 + i) =
      bit (if validate_vm (max_xlen s) (get_field val MSTATUS_VM) then val else mstatus s) (24 + i)" if "i < 5" for i
    using bit_status_after(1) [OF assms, of "24 + i" val] sd_bit_cases [of "max_xlen s"] that
    by (auto simp: status_writable_def)
  then have "get_field (status_after s val) MSTATUS_VM =
      get_field (if validate_vm (max_xlen s) (get_field val MSTATUS_VM) then val else mstatus s) MSTATUS_VM"
    unfolding mstatus_fields get_field_field [of 5 24, simplified]
    by (intro bit_word_eqI, simp only: bit_take_bit_iff bit_drop_bit_eq o_def) blast
  then show ?thesis by (simp split: if_splits)
qed

lemma vm_ok_after: "max_xlen s \<in> {32, 64} \<Longrightarrow> vm_ok (mstatus s) \<Longrightarrow> vm_ok (status_after s val)"
  unfolding vm_ok_def vm_after by (auto simp: validate_vm_def)

lemma vm_ok_dirty: "xlen \<in> {32, 64} \<Longrightarrow> vm_ok v \<Longrightarrow> vm_ok (v OR (MSTATUS_FS OR MSTATUS_SD xlen))"
proof -
  assume x: "xlen \<in> {32, 64}" and v: "vm_ok v"
  have "get_field (v OR (MSTATUS_FS OR MSTATUS_SD xlen)) MSTATUS_VM = get_field v MSTATUS_VM"
    using x unfolding MSTATUS_SD_def mstatus_fields get_field_field [of 5 24, simplified]
    by (intro bit_word_eqI) (auto simp: bit_take_bit_iff bit_drop_bit_eq bit_or_iff bit_field)
  then show ?thesis using v by (simp add: vm_ok_def)
qed

lemma summary_dirty: "max_xlen s \<in> {32, 64} \<Longrightarrow> summary_ok (dirty_fp_state s)"
  by (auto simp: summary_ok_def dirty_fp_state_def fs_dirty_def MSTATUS_SD_def sd_bit_def mstatus_fields bit_or_iff bit_field1 bit_field2)

lemma csr_ok_status:
  "csr_ok s \<Longrightarrow> max_xlen s \<in> {32, 64} \<Longrightarrow> csr_ok (s\<lparr>mstatus := status_after s val\<rparr>)"
  using bit_status_after(2) [of s val] by (simp add: csr_ok_def summary_ok_def)

lemma csr_ok_dirty:
  "csr_ok s \<Longrightarrow> max_xlen s \<in> {32, 64} \<Longrightarrow> csr_ok (dirty_fp_state s)"
  using summary_dirty [of s] by (simp add: csr_ok_def dirty_fp_state_def)

lemma flush_mmu_ok: "mmu_ok m \<Longrightarrow> mmu_ok (flush_tlb m)"
  by (simp add: mmu_ok_def flush_tlb_def tlb_ok_def entry_ok_def)

lemma hart_flush: "hart_ok xlen m \<Longrightarrow> hart_ok xlen (flush_tlb m)"
  by (simp add: hart_ok_def machine_ok_def flush_mmu_ok)

text \<open>An update of the hart keeps the invariant when it keeps the width and the registers and its
  result satisfies the conditions on the control registers.\<close>

lemma hart_on_st:
  assumes "hart_ok xlen m" "max_xlen (f (st m)) = max_xlen (st m)" "XPR (f (st m)) = XPR (st m)"
    "vm_ok (mstatus (f (st m)))" "csr_ok (f (st m))"
  shows "hart_ok xlen (on_st f m)"
  using assms by (simp add: hart_ok_def machine_ok_def mmu_ok_def)

lemma hartD:
  assumes "hart_ok xlen m"
  shows "max_xlen (st m) = xlen" "xlen \<in> {32, 64}" "vm_ok (mstatus (st m))" "csr_ok (st m)"
  using assms by (simp_all add: hart_ok_def machine_ok_def mmu_ok_def)

lemma hart_set_mstatus:
  fixes m :: "machine"
  assumes "hart_ok xlen m"
  shows "hart_ok xlen (set_mstatus val m)"
proof -
  have "hart_ok xlen (on_st (\<lambda>s. s\<lparr>mstatus := status_after s val\<rparr>) n)" if "hart_ok xlen n" for n :: "machine"
    by (rule hart_on_st [OF that])
      (use hartD [OF that] in \<open>simp_all add: vm_ok_after csr_ok_status\<close>)
  then show ?thesis using assms hart_flush [OF assms] by (simp add: set_mstatus_def)
qed

lemma hart_if: "(b \<Longrightarrow> hart_ok xlen x) \<Longrightarrow> (\<not> b \<Longrightarrow> hart_ok xlen y) \<Longrightarrow> hart_ok xlen (if b then x else y)"
  by simp

text \<open>Most cases of a write replace one register and leave the summary bit, the mode and the widths.\<close>

lemma hart_plain:
  assumes "hart_ok xlen m" "max_xlen (f (st m)) = max_xlen (st m)" "XPR (f (st m)) = XPR (st m)"
    "mstatus (f (st m)) = mstatus (st m)" "csr_ok (st m) \<Longrightarrow> csr_ok (f (st m))"
  shows "hart_ok xlen (on_st f m)"
  using hartD [OF assms(1)] assms by (intro hart_on_st) auto

lemma csr_ok_misa: "csr_ok s \<Longrightarrow> csr_ok (set_misa val s)"
proof -
  assume a: "csr_ok s"
  define k where "k = (push_bit 12 1 OR push_bit 0 1 OR push_bit 5 1 OR push_bit 3 1 OR push_bit 2 1) AND max_isa s"
  have k: "bit k i \<longleftrightarrow> i \<in> {12, 0, 5, 3, 2} \<and> bit (max_isa s) i" for i
    unfolding k_def by (simp only: bit_or_iff bit_and_iff bit_push_bit_iff bit_1_iff) (auto dest: bit_imp_le_length)
  define w where "w = (if \<not> bit val 5 then val AND NOT (push_bit 3 1) else val)"
  have w: "bit w i \<longleftrightarrow> bit val i \<and> (i = 3 \<longrightarrow> bit val 5)" for i
    unfolding w_def by (simp only: bit_and_iff bit_not_iff bit_push_bit_iff bit_1_iff split: if_split) (auto dest: bit_imp_le_length)
  define v where "v = (w AND k) OR (misa s AND NOT k)"
  have v: "bit v i \<longleftrightarrow> (if bit k i then bit w i else bit (misa s) i)" for i
    by (auto simp: v_def bit_or_iff bit_and_iff bit_not_iff dest: bit_imp_le_length)
  have s: "set_misa val s = s\<lparr>misa := v\<rparr>" by (simp add: set_misa_def Let_def v_def w_def k_def)
  have in_max: "bit (misa s) i \<Longrightarrow> bit (max_isa s) i" for i
    using a unfolding csr_ok_def by (metis bit_and_iff)
  have "v AND max_isa s = v" using in_max by (auto intro!: bit_word_eqI simp: bit_and_iff v k)
  moreover have "bit v 3 \<longrightarrow> bit v 5"
    using a in_max [of 3] by (auto simp: v k w csr_ok_def)
  ultimately show ?thesis using a unfolding s csr_ok_def summary_ok_def by simp
qed

lemma csr_ok_dcsr: "csr_ok s \<Longrightarrow> csr_ok (set_dcsr val s)"
proof -
  have f: "DCSR_PRV = field 0 2" by (simp add: DCSR_PRV_def field_def mask_eq_exp_minus_1)
  have "take_bit 2 (ucast (get_field val DCSR_PRV) :: u8) = ucast (get_field val DCSR_PRV)"
    unfolding f get_field_field [of 2 0, simplified] by (rule bit_word_eqI) (auto simp: bit_take_bit_iff bit_ucast_iff)
  then show "csr_ok s \<Longrightarrow> csr_ok (set_dcsr val s)"
    by (simp add: csr_ok_def set_dcsr_def summary_ok_def)
qed

lemma csr_ok_fields [simp]:
  "csr_ok (s\<lparr>minstret := v\<rparr>) = csr_ok s" "csr_ok (s\<lparr>mip := v\<rparr>) = csr_ok s" "csr_ok (s\<lparr>mucounteren := c\<rparr>) = csr_ok s"
  "csr_ok (s\<lparr>mscounteren := c\<rparr>) = csr_ok s" "csr_ok (s\<lparr>sepc := v\<rparr>) = csr_ok s" "csr_ok (s\<lparr>sscratch := v\<rparr>) = csr_ok s"
  "csr_ok (s\<lparr>scause := v\<rparr>) = csr_ok s" "csr_ok (s\<lparr>sbadaddr := v\<rparr>) = csr_ok s" "csr_ok (s\<lparr>mepc := v\<rparr>) = csr_ok s"
  "csr_ok (s\<lparr>mscratch := v\<rparr>) = csr_ok s" "csr_ok (s\<lparr>mcause := v\<rparr>) = csr_ok s" "csr_ok (s\<lparr>mbadaddr := v\<rparr>) = csr_ok s"
  "csr_ok (s\<lparr>mcontrol := t\<rparr>) = csr_ok s" "csr_ok (s\<lparr>tdata2 := d\<rparr>) = csr_ok s" "csr_ok (s\<lparr>dpc := v\<rparr>) = csr_ok s"
  "csr_ok (s\<lparr>dscratch := v\<rparr>) = csr_ok s" "csr_ok (s\<lparr>st_pc := v\<rparr>) = csr_ok s" "csr_ok (s\<lparr>XPR := r\<rparr>) = csr_ok s"
  "csr_ok (s\<lparr>load_reservation := v\<rparr>) = csr_ok s" "csr_ok (s\<lparr>serialized := b\<rparr>) = csr_ok s"
  "csr_ok (s\<lparr>single_step := q\<rparr>) = csr_ok s"
  by (simp_all add: csr_ok_def summary_ok_def)

lemma csr_ok_masked:
  "csr_ok s \<Longrightarrow> csr_ok (s\<lparr>mie := (mie s AND NOT all_ints) OR (v AND all_ints)\<rparr>)"
  "csr_ok s \<Longrightarrow> csr_ok (s\<lparr>mideleg := (mideleg s AND NOT delegable_ints) OR (v AND delegable_ints)\<rparr>)"
  "csr_ok s \<Longrightarrow> csr_ok (s\<lparr>medeleg := (medeleg s AND NOT all_causes) OR (v AND all_causes)\<rparr>)"
  "csr_ok s \<Longrightarrow> csr_ok (s\<lparr>stvec := push_bit 2 (drop_bit 2 v)\<rparr>)"
  "csr_ok s \<Longrightarrow> csr_ok (s\<lparr>mtvec := push_bit 2 (drop_bit 2 v)\<rparr>)"
  "csr_ok s \<Longrightarrow> csr_ok (s\<lparr>sptbr := v AND (2 ^ (paddr_bits (max_xlen s) - 12) - 1)\<rparr>)"
  "csr_ok s \<Longrightarrow> v < of_nat num_triggers \<Longrightarrow> csr_ok (s\<lparr>tselect := v\<rparr>)"
  unfolding csr_ok_def summary_ok_def
  by (simp_all add: masked_write small_values del: take_bit_and)

lemma set_misa_simps [simp]: "max_xlen (set_misa v s) = max_xlen s" "XPR (set_misa v s) = XPR s" "mstatus (set_misa v s) = mstatus s"
  by (simp_all add: set_misa_def Let_def)

lemma set_dcsr_simps [simp]: "max_xlen (set_dcsr v s) = max_xlen s" "XPR (set_dcsr v s) = XPR s" "mstatus (set_dcsr v s) = mstatus s"
  by (simp_all add: set_dcsr_def)

lemma hart_fp:
  assumes "hart_ok xlen m"
  shows "take_bit 5 fl = fl \<Longrightarrow> hart_ok xlen (on_st (\<lambda>s. (dirty_fp_state s)\<lparr>fflags := fl\<rparr>) m)"
    "take_bit 3 r = r \<Longrightarrow> hart_ok xlen (on_st (\<lambda>s. (dirty_fp_state s)\<lparr>frm := r\<rparr>) m)"
    "take_bit 5 fl = fl \<Longrightarrow> take_bit 3 r = r \<Longrightarrow> hart_ok xlen (on_st (\<lambda>s. (dirty_fp_state s)\<lparr>fflags := fl, frm := r\<rparr>) m)"
proof -
  note h = hartD [OF assms(1)]
  have c: "csr_ok (dirty_fp_state (st m))" using csr_ok_dirty h by simp
  have d: "max_xlen (dirty_fp_state (st m)) = max_xlen (st m)" "XPR (dirty_fp_state (st m)) = XPR (st m)"
    "vm_ok (mstatus (dirty_fp_state (st m)))"
    using vm_ok_dirty h by (simp_all add: dirty_fp_state_def)
  show "take_bit 5 fl = fl \<Longrightarrow> hart_ok xlen (on_st (\<lambda>s. (dirty_fp_state s)\<lparr>fflags := fl\<rparr>) m)"
    "take_bit 3 r = r \<Longrightarrow> hart_ok xlen (on_st (\<lambda>s. (dirty_fp_state s)\<lparr>frm := r\<rparr>) m)"
    "take_bit 5 fl = fl \<Longrightarrow> take_bit 3 r = r \<Longrightarrow> hart_ok xlen (on_st (\<lambda>s. (dirty_fp_state s)\<lparr>fflags := fl, frm := r\<rparr>) m)"
    by (rule hart_on_st [OF assms(1)]; use c d in \<open>simp add: csr_ok_def summary_ok_def\<close>)+
qed

lemma hart_tdata1: "hart_ok xlen m \<Longrightarrow> hart_ok xlen (set_tdata1 v m)"
  unfolding set_tdata1_def Let_def by (intro hart_if hart_flush; (rule hart_plain)?; simp)

lemma hart_set_csr:
  assumes "hart_ok xlen m"
  shows "hart_ok xlen (set_csr which v m)"
  unfolding set_csr_def Let_def
  by (intro hart_if assms hart_set_mstatus hart_tdata1 hart_fp small_values;
      (rule hart_plain [OF assms]; simp add: csr_ok_misa csr_ok_dcsr csr_ok_masked set_mip_def set_mie_def)?)

subsection \<open>The invariant under system instructions, traps and interrupts\<close>

lemma hart_set_privilege: "hart_ok xlen m \<Longrightarrow> p \<le> PRV_M \<Longrightarrow> fine (hart_ok xlen) (\<lambda>_. True) (set_privilege p m)"
proof -
  assume h: "hart_ok xlen m" and p: "p \<le> PRV_M"
  have "unat p \<le> 3" using p by (simp add: PRV_M_def word_le_nat_alt)
  then have "unat p \<in> {0, 1, 2, 3}" by auto
  then have "p \<in> {0, 1, 2, 3}" by (auto dest: arg_cong [where f = "of_nat :: nat \<Rightarrow> u64"])
  then have l: "(if p = PRV_H then PRV_U else p) \<in> levels" by (auto simp: levels_def PRV_U_def PRV_S_def PRV_M_def PRV_H_def)
  have "hart_ok xlen (on_st (\<lambda>s. s\<lparr>prv := if p = PRV_H then PRV_U else p\<rparr>) (flush_tlb m))"
    by (rule hart_plain [OF hart_flush [OF h]]) (use l in \<open>simp_all add: csr_ok_def summary_ok_def\<close>)
  then show ?thesis using p by (simp add: set_privilege_simps)
qed

lemma hart_yield: "hart_ok xlen m \<Longrightarrow> hart_ok xlen (yield_load_reservation m)"
  unfolding yield_load_reservation_def by (rule hart_plain) simp_all

lemma hart_enter_debug: "hart_ok xlen m \<Longrightarrow> fine (hart_ok xlen) (\<lambda>_. True) (enter_debug_mode c m)"
proof -
  assume h: "hart_ok xlen m"
  have b: "take_bit 2 (ucast (prv (st m)) :: u8) = ucast (prv (st m))"
    using hartD(4) [OF h] level_bits [of "prv (st m)"]
    by (auto intro!: bit_word_eqI simp: csr_ok_def bit_take_bit_iff bit_ucast_iff)
  have "hart_ok xlen (on_st (\<lambda>s. s\<lparr>dcsr := (dcsr s)\<lparr>dcsr_cause := c, dcsr_prv := ucast (prv s)\<rparr>\<rparr>) m)"
    by (rule hart_plain [OF h]) (use b in \<open>simp_all add: csr_ok_def summary_ok_def\<close>)
  then have "fine (hart_ok xlen) (\<lambda>_. True) (set_privilege PRV_M (on_st (\<lambda>s. s\<lparr>dcsr := (dcsr s)\<lparr>dcsr_cause := c, dcsr_prv := ucast (prv s)\<rparr>\<rparr>) m))"
    by (rule hart_set_privilege) simp
  then show ?thesis unfolding enter_debug_mode_def
    by (rule fine_then) (simp, rule hart_plain, simp_all)
qed

lemma hart_take_trap:
  assumes "hart_ok xlen m"
  shows "fine (hart_ok xlen) (\<lambda>_. True) (take_trap t epc m)"
proof -
  have trap: "fine (hart_ok xlen) (\<lambda>_. True)
      (and_then (set_privilege p) (\<lambda>_ m. ret () (yield_load_reservation m)) (set_csr CSR_MSTATUS v (on_st f m)))"
    if "p \<le> PRV_M" "\<And>s. max_xlen (f s) = max_xlen s \<and> XPR (f s) = XPR s \<and> mstatus (f s) = mstatus s \<and> (csr_ok s \<longrightarrow> csr_ok (f s))"
    for p v f
  proof -
    have "hart_ok xlen (on_st f m)" by (rule hart_plain [OF assms]) (use that(2) in auto)
    then have "fine (hart_ok xlen) (\<lambda>_. True) (set_privilege p (set_csr CSR_MSTATUS v (on_st f m)))"
      by (rule hart_set_privilege [OF hart_set_csr that(1)])
    then show ?thesis by (rule fine_then) (simp add: hart_yield)
  qed
  have pc: "hart_ok xlen (on_st (\<lambda>s. s\<lparr>st_pc := 0x808\<rparr>) m)"
    by (rule hart_plain [OF assms]) simp_all
  show ?thesis
    unfolding take_trap_def Let_def
    by (intro fine_if hart_enter_debug assms trap) (use pc in \<open>simp_all add: prv_numbers\<close>)
qed

lemma hart_take_interrupt: "hart_ok xlen m \<Longrightarrow> fine (hart_ok xlen) (\<lambda>_. True) (take_interrupt m)"
  by (simp add: take_interrupt_def raise_interrupt_def)

definition answers :: "machine \<Rightarrow> ((trap + 'a) \<times> machine) option \<Rightarrow> bool" where
  "answers m x \<longleftrightarrow> (\<exists>r. x = Some (r, m))"

lemma answersI:
  "answers m (ret v m)" "answers m (throw t m)" "answers m x \<Longrightarrow> answers m y \<Longrightarrow> answers m (if b then x else y)"
  by (simp_all add: answers_def ret_def throw_def)

lemma answers_fp: "answers m (require_fp (if b then ret v else throw t) m)"
  by (simp add: require_fp_def require_that_def answersI)

lemma get_csr_keeps: "\<exists>r. get_csr which m = Some (r, m)"
proof -
  have "answers m (get_csr which m)"
    unfolding get_csr_def Let_def by (intro answersI answers_fp)
  then show ?thesis by (simp add: answers_def)
qed

text \<open>Every access to a control register by an instruction goes through one lemma.\<close>

lemma csr_update_fine:
  assumes "I m" "I (on_st (\<lambda>s. s\<lparr>serialized := False\<rparr>) m)" "Q PC_SERIALIZE_BEFORE" "Q npc"
    and step: "\<And>old. get_field (insn_csr insn) 0x300 \<le> prv (st m) \<Longrightarrow>
      I (WRITE_RD insn (sext_xlen xlen old)
        (if writes then set_csr (insn_csr insn) (f old) (on_st (\<lambda>s. s\<lparr>serialized := False\<rparr>) m)
         else on_st (\<lambda>s. s\<lparr>serialized := False\<rparr>) m))"
  shows "fine I Q (csr_update xlen insn writes f npc m)"
proof -
  obtain r where r: "get_csr (insn_csr insn) (on_st (\<lambda>s. s\<lparr>serialized := False\<rparr>) m) = Some (r, on_st (\<lambda>s. s\<lparr>serialized := False\<rparr>) m)"
    using get_csr_keeps by blast
  show ?thesis
    using assms(1-4) step r
    by (cases r) (simp_all add: csr_update_def with_csr_def require_that_def and_then_def Let_def)
qed

lemma hart_write_reg: "hart_ok xlen m \<Longrightarrow> canon xlen v \<Longrightarrow> hart_ok xlen (WRITE_RD insn v m)"
  by (auto simp: hart_ok_def machine_ok_def mmu_ok_def WRITE_RD_def WRITE_REG_def)

lemma hart_csr_update:
  assumes "hart_ok xlen m" "canon xlen npc"
  shows "fine (hart_ok xlen) (canon xlen) (csr_update xlen insn writes f npc m)"
proof -
  note x = hartD(2) [OF assms(1)]
  have h: "hart_ok xlen (on_st (\<lambda>s. s\<lparr>serialized := False\<rparr>) m)" by (rule hart_plain [OF assms(1)]) simp_all
  have c: "canon xlen PC_SERIALIZE_BEFORE" using x by (auto simp: canon_def sext32_def PC_SERIALIZE_BEFORE_def)
  show ?thesis
    by (rule csr_update_fine [OF assms(1) h c assms(2)], rule hart_write_reg)
      (use h hart_set_csr [OF h] canon_sext [OF x] in auto)
qed

lemma hart_serialize: "hart_ok xlen m \<Longrightarrow> fine (hart_ok xlen) (canon xlen) (set_pc_and_serialize xlen x m)"
proof -
  assume h: "hart_ok xlen m"
  have c: "canon xlen PC_SERIALIZE_AFTER" using hartD(2) [OF h] by (auto simp: canon_def sext32_def PC_SERIALIZE_AFTER_def)
  have "hart_ok xlen (on_st (\<lambda>s. s\<lparr>st_pc := x\<rparr>) m)" by (rule hart_plain [OF h]) simp_all
  then show ?thesis using h c by (simp add: set_pc_and_serialize_def and_then_def set_pc_def ret_def throw_def)
qed

lemma fine_require_priv:
  "I m \<Longrightarrow> (p \<le> prv (st m) \<Longrightarrow> fine I Q (k m)) \<Longrightarrow> fine I Q (require_privilege p k m)"
  by (simp add: require_privilege_def require_that_def)

lemma two_bits_level: "take_bit 2 w = w \<Longrightarrow> w \<le> PRV_M"
proof -
  assume "take_bit 2 w = w"
  moreover have "take_bit 2 w \<le> mask 2" by (simp add: take_bit_eq_mask word_and_le1)
  ultimately show ?thesis by (simp add: PRV_M_def mask_eq_exp_minus_1)
qed

lemma get_field_levels: "get_field v MSTATUS_MPP \<le> PRV_M" "get_field v MSTATUS_SPP \<le> PRV_S"
proof -
  have "get_field v (field 11 2) \<le> mask 2" unfolding get_field_field [of 2 11, simplified] by (simp add: take_bit_eq_mask word_and_le1)
  then show "get_field v MSTATUS_MPP \<le> PRV_M" by (simp add: mstatus_fields PRV_M_def mask_eq_exp_minus_1)
  show "get_field v MSTATUS_SPP \<le> PRV_S" using get_field1 [of 8 v] by (simp add: mstatus_fields PRV_S_def)
qed

lemma hart_return:
  assumes "hart_ok xlen m" "p \<le> PRV_M" "canon xlen npc"
  shows "fine (hart_ok xlen) (canon xlen) (and_then (set_privilege p) (\<lambda>_ m. ret npc (set_csr CSR_MSTATUS v m)) m)"
  by (rule fine_then, rule hart_set_privilege [OF assms(1,2)]) (simp add: hart_set_csr assms(3))

lemma hart_returns:
  assumes h: "hart_ok xlen m" and n: "canon xlen npc"
  shows "fine (hart_ok xlen) (canon xlen) (insn_mret xlen insn pc npc m)"
    "fine (hart_ok xlen) (canon xlen) (insn_sret xlen insn pc npc m)"
    "fine (hart_ok xlen) (canon xlen) (insn_dret xlen insn pc npc m)"
proof -
  have s: "get_field v MSTATUS_SPP \<le> PRV_M" for v using get_field_levels(2) [of v] by (auto simp: PRV_S_def PRV_M_def word_le_nat_alt)
  show "fine (hart_ok xlen) (canon xlen) (insn_mret xlen insn pc npc m)" unfolding insn_mret_def
    by (rule fine_require_priv, rule h, rule fine_then, rule hart_serialize [OF h]) (simp add: Let_def hart_return get_field_levels)
  show "fine (hart_ok xlen) (canon xlen) (insn_sret xlen insn pc npc m)" unfolding insn_sret_def
    by (rule fine_require_priv, rule h, rule fine_then, rule hart_serialize [OF h]) (simp add: Let_def hart_return s)
  show "fine (hart_ok xlen) (canon xlen) (insn_dret xlen insn pc npc m)" unfolding insn_dret_def
  proof (rule fine_require_priv, rule h, rule fine_then, rule hart_serialize [OF h])
    fix a :: reg_t and n :: "machine"
    assume n: "hart_ok xlen n" "canon xlen a"
    have "bit (ucast (dcsr_prv (dcsr (st n))) :: reg_t) i \<Longrightarrow> i < 2" for i
      using hartD(4) [OF n(1)] unfolding csr_ok_def by (metis bit_take_bit_iff bit_ucast_iff)
    then have "take_bit 2 (ucast (dcsr_prv (dcsr (st n))) :: reg_t) = ucast (dcsr_prv (dcsr (st n)))"
      by (auto intro!: bit_word_eqI simp: bit_take_bit_iff)
    then have "(ucast (dcsr_prv (dcsr (st n))) :: reg_t) \<le> PRV_M"
      by (rule two_bits_level)
    then have "fine (hart_ok xlen) (\<lambda>_. True) (set_privilege (ucast (dcsr_prv (dcsr (st n)))) n)"
      by (rule hart_set_privilege [OF n(1)])
    then show "fine (hart_ok xlen) (canon xlen) (and_then (set_privilege (ucast (dcsr_prv (dcsr (st n))))) (\<lambda>_ m.
         ret a (on_st (\<lambda>s. s\<lparr>dcsr := (dcsr s)\<lparr>dcsr_cause := 0\<rparr>,
           single_step := if dcsr_step (dcsr s) then STEP_STEPPING else single_step s\<rparr>) m)) n)"
      by (rule fine_then) (simp add: n(2), rule hart_plain, simp_all add: csr_ok_def summary_ok_def)
  qed
qed

lemma system_instructions_ok:
  assumes "f \<in> set system_instructions" "hart_ok xlen m" "canon xlen npc"
  shows "fine (hart_ok xlen) (canon xlen) (f xlen insn pc npc m)"
proof -
  have "fine (hart_ok xlen) (canon xlen) (insn_sfence_vm xlen insn pc npc m)"
    unfolding insn_sfence_vm_def by (rule fine_require_priv, rule assms(2)) (simp add: hart_flush assms)
  then show ?thesis
    using assms(1) hart_returns [OF assms(2,3)] hart_csr_update [OF assms(2,3)] assms(2,3)
    unfolding system_instructions_def
    by (auto simp: insn_csrrw_def insn_csrrs_def insn_csrrc_def insn_csrrwi_def insn_csrrsi_def insn_csrrci_def insn_fence_i_def)
qed

lemma csr_ok_frame: "csr_ok (hart_frame s) = csr_ok s"
  by (simp add: hart_frame_def device_frame_def)

lemma integer_hart_ok:
  assumes "f \<in> set (integer_instructions xlen)" "hart_ok xlen m" "sext32 insn = insn" "canon xlen npc"
  shows "fine (\<lambda>m'. hart_ok xlen m' \<and> hart_frame (st m') = hart_frame (st m)) (canon xlen) (f xlen insn pc npc m)"
proof -
  have "fine (hart_in xlen (hart_frame (st m))) (canon xlen) (f xlen insn pc npc m)"
    by (rule integer_instructions_ok [OF assms(1) _ assms(3,4)]) (use assms(2) in \<open>simp add: hart_in_def hart_ok_def\<close>)
  then show ?thesis
    by (rule fine_weaken) (metis hart_in_def hart_ok_def csr_ok_frame assms(2))
qed

text \<open>What a program in user mode may change of the hart: registers, reservation, floating-point
  registers, flags and rounding mode, the serialisation mark, the dirty state of the status register
  and, through the devices, the software and the timer bit of the pending interrupts.\<close>

definition user_frame :: "state_t \<Rightarrow> state_t" where
  "user_frame s = (hart_frame s)\<lparr>FPR := \<lambda>_. 0, fflags := 0, frm := 0, serialized := False,
     mstatus := mstatus s AND NOT (MSTATUS_FS OR MSTATUS_SD (max_xlen s))\<rparr>"

lemma user_frame_fields [simp]:
  "user_frame (s\<lparr>XPR := r\<rparr>) = user_frame s" "user_frame (s\<lparr>load_reservation := v\<rparr>) = user_frame s"
  "user_frame (s\<lparr>fflags := c\<rparr>) = user_frame s" "user_frame (s\<lparr>frm := c\<rparr>) = user_frame s"
  "user_frame (s\<lparr>serialized := b\<rparr>) = user_frame s" "user_frame (s\<lparr>FPR := d\<rparr>) = user_frame s"
  by (simp_all add: user_frame_def hart_frame_def device_frame_def)

lemma user_frame_dirty [simp]: "user_frame (dirty_fp_state s) = user_frame s"
proof -
  have "(v OR a OR b) AND NOT a AND NOT b = v AND NOT a AND NOT b" for v a b :: u64
    by (auto intro!: bit_word_eqI simp: bit_and_iff bit_or_iff bit_not_iff)
  then show ?thesis by (simp add: user_frame_def hart_frame_def device_frame_def dirty_fp_state_def)
qed

lemma user_frame_hart: "hart_frame s = hart_frame s' \<Longrightarrow> user_frame s = user_frame s'"
proof -
  assume e: "hart_frame s = hart_frame s'"
  have "mstatus s = mstatus s'" "max_xlen s = max_xlen s'"
    using arg_cong [OF e, of mstatus] arg_cong [OF e, of max_xlen] by (simp_all add: hart_frame_def device_frame_def)
  then show ?thesis by (simp add: user_frame_def e)
qed


text \<open>The four forms that are floating-point loads and stores at width 32.\<close>

lemma fp_write:
  assumes "hart_ok xlen m"
  shows "hart_ok xlen (WRITE_FREG i v m)" "user_frame (st (WRITE_FREG i v m)) = user_frame (st m)"
proof -
  note h = hartD [OF assms]
  have "csr_ok ((st m)\<lparr>FPR := (FPR (st m))(i := v)\<rparr>)" using h(4) by (simp add: csr_ok_def summary_ok_def)
  then have c: "csr_ok (dirty_fp_state ((st m)\<lparr>FPR := (FPR (st m))(i := v)\<rparr>))" by (rule csr_ok_dirty) (use h in simp)
  have "hart_ok xlen (on_st (\<lambda>s. dirty_fp_state (s\<lparr>FPR := (FPR s)(i := v)\<rparr>)) m)"
    by (rule hart_on_st [OF assms]) (use c h vm_ok_dirty in \<open>simp_all add: dirty_fp_state_def\<close>)
  then show "hart_ok xlen (WRITE_FREG i v m)" by (simp add: WRITE_FREG_def on_st_def)
  show "user_frame (st (WRITE_FREG i v m)) = user_frame (st m)" by (simp add: WRITE_FREG_def)
qed

lemma width_hart_ok:
  assumes "f \<in> set width_instructions" "hart_ok xlen m" "sext32 insn = insn" "canon xlen npc"
  shows "fine (\<lambda>m'. hart_ok xlen m' \<and> user_frame (st m') = user_frame (st m)) (canon xlen) (f xlen insn pc npc m)"
proof (cases "xlen = 64")
  case True
  then have "f \<in> set (integer_instructions xlen)" using assms(1) by (simp add: integer_instructions_def)
  from integer_hart_ok [OF this assms(2-4)] show ?thesis by (rule fine_weaken) (auto dest: user_frame_hart)
next
  case False
  then have x: "xlen = 32" using hartD(2) [OF assms(2)] by simp
  define J where "J m' \<longleftrightarrow> hart_ok 32 m' \<and> user_frame (st m') = user_frame (st m)" for m'
  have n: "canon 32 npc" using assms(4) x by simp
  have m: "hart_in 32 (hart_frame (st m)) m" using assms(2) x by (simp add: hart_in_def hart_ok_def)
  have j: "J m'" if "hart_in 32 (hart_frame (st m)) m'" for m'
    using that assms(2) x user_frame_hart csr_ok_frame unfolding J_def hart_in_def hart_ok_def by metis
  have load: "fine J (canon 32) (and_then (load_mem 4 a) (\<lambda>v m. ret npc (WRITE_FREG i (sext32 v) m)) m)" for a i
  proof (rule fine_then')
    show "fine (hart_in 32 (hart_frame (st m))) (\<lambda>_. True) (load_mem 4 a m)"
      by (rule fine_mono, rule in_machine [OF m load_keeps]) (use machine_mmu [OF m] in auto)
    show "fine J (canon 32) (ret npc (WRITE_FREG i (sext32 v) m'))" if "hart_in 32 (hart_frame (st m)) m'" for v m'
    proof -
      have o: "hart_ok 32 m'" "user_frame (st m') = user_frame (st m)" using j [OF that] by (simp_all add: J_def)
      show ?thesis using fp_write(1) [OF o(1)] trans [OF fp_write(2) [OF o(1)] o(2)] n by (simp add: J_def)
    qed
  qed (rule j)
  have store: "fine J (canon 32) (and_then (store_mem 4 a v) (\<lambda>_. ret npc) m)" for a v
    by (rule fine_weaken [where I = "hart_in 32 (hart_frame (st m))"], rule fine_store [OF m]) (simp_all add: n j)
  have "J m" by (rule j [OF m])
  then have "fine J (canon 32) (f 32 insn pc npc m)"
    using assms(1) load store
    by (auto simp: width_instructions_def width_defs require_extension_def require_fp_def require_that_def
        WRITE_RVC_FRS2S_def WRITE_FRD_def)
  then show ?thesis unfolding x J_def .
qed

text \<open>C5.  The invariant of the privileged state.  The control registers of a hart are well-formed when
  the level is user, supervisor or machine, the summary bit of the status register says whether its
  floating-point or extension state is dirty, the translation mode is one the walk knows, the trap
  vectors are aligned, the delegation, enable, flag, rounding and page-table registers hold only
  legal bits, the extensions are among those of the hart and D comes with F, and the debug and
  trigger selectors are in range.  Every integer instruction of the width of the hart, the four
  compressed forms that are floating-point loads and stores at width 32, and every system
  instruction, with any operands, every trap and every interrupt check keep this, keep the registers
  canonical and the translation caches and the bus safe, and never fault the simulator; accesses to
  the devices, which raise and clear pending interrupts, are included.  Instruction words are sign
  extensions of 32 bits, as the fetch delivers them, and the next address is canonical.\<close>

theorem privileged_state_invariant:
  assumes "hart_ok xlen m" "f \<in> set (integer_instructions xlen) \<union> set width_instructions \<union> set system_instructions"
    "sext32 insn = insn" "canon xlen npc"
  shows "fine (hart_ok xlen) (canon xlen) (f xlen insn pc npc m) \<and>
    fine (hart_ok xlen) (\<lambda>_. True) (take_trap t epc m) \<and> fine (hart_ok xlen) (\<lambda>_. True) (take_interrupt m)"
  using fine_weaken [OF integer_hart_ok [OF _ assms(1,3,4)]] fine_weaken [OF width_hart_ok [OF _ assms(1,3,4)]]
    system_instructions_ok [OF _ assms(1,4)] assms(2)
    hart_take_trap [OF assms(1)] hart_take_interrupt [OF assms(1)]
  by blast

subsection \<open>Isolation of the user mode\<close>






text \<open>No instruction raises the level.\<close>

lemma prv_set_csr [simp]: "prv (st (set_csr which v m)) = prv (st m)"
  unfolding set_csr_def Let_def by (simp add: dirty_fp_state_def set_tdata1_def Let_def set_mip_def set_mie_def set_misa_def set_dcsr_def)



text \<open>The interrupt that is raised is the lowest pending one that is enabled.\<close>

lemma ctz_loop_lowest:
  "bit v i \<Longrightarrow> i < n \<Longrightarrow> bit v (ctz_loop n v) \<and> (\<forall>j<ctz_loop n v. \<not> bit v j)"
proof (induction n arbitrary: v i)
  case (Suc n)
  have even: "(v AND 1 = 0) = (\<not> bit v 0)" by (simp add: and_one_eq mod2_eq_if bit_0)
  show ?case
  proof (cases "bit v 0")
    case False
    then obtain i' where i: "i = Suc i'" using Suc.prems(1) by (cases i) auto
    then have "bit (drop_bit 1 v) i'" using Suc.prems(1) by (simp add: bit_drop_bit_eq)
    from Suc.IH [OF this] i Suc.prems(2)
    have "bit (drop_bit 1 v) (ctz_loop n (drop_bit 1 v))" "\<forall>j<ctz_loop n (drop_bit 1 v). \<not> bit (drop_bit 1 v) j" by simp_all
    then show ?thesis using False even by (auto simp: bit_drop_bit_eq less_Suc_eq_0_disj)
  qed (simp add: even)
qed simp

lemma ctz_lowest: "v \<noteq> 0 \<Longrightarrow> bit v (ctz v) \<and> (\<forall>j<ctz v. \<not> bit v j)"
  using ctz_loop_lowest [of v _ 64] bit_imp_le_length [of v] by (auto simp: ctz_def bit_eq_iff)


lemma example_user_ok: "hart_ok 32 example_user"
proof -
  have "machine_ok 32 example_user"
    using example_mmu_ok [of 32] canon_consts(1) [of 32]
    by (auto simp: machine_ok_def mmu_ok_def example_user_def example_machine_def example_hart_def canon_def sext32_def)
  moreover have "csr_ok (st example_user)"
    by (simp add: csr_ok_def summary_ok_def fs_dirty_def levels_def num_triggers_def example_user_def example_hart_def)
  ultimately show ?thesis by (simp add: hart_ok_def)
qed

theorem privileged_state_invariant_witness:
  "fine (hart_ok 32) (canon 32) (insn_csrrw 32 0x30529073 0 4 example_user) \<and>
    fine (hart_ok 32) (\<lambda>_. True) (take_trap trap_illegal_instruction 0x80000000 example_user) \<and>
    fine (hart_ok 32) (\<lambda>_. True) (take_interrupt example_user)"
  by (rule privileged_state_invariant [OF example_user_ok]) (simp_all add: system_instructions_def sext32_def canon_def)


end
