(* ===== verification/BM_Sort.thy ===== *)
theory BM_Sort
  imports Prelude "HOL-Library.Multiset"
begin

text \<open>
  The quick sort of the c-class benchmarks with its explicit stack
  (\<open>src/cores/cclass/32bit/benchmarks/qsort/qsort_main.c\<close>), and the checked array accesses the benchmarks share.

  An array is a list, a pointer into it an index; an access outside the array, or to a stack slot
  outside the 50 of \<open>NSTACK\<close>, is \<open>None\<close>.  The elements of the quick sort are C integers that are only
  compared and moved, so they are integers of HOL.
\<close>

subsection \<open>Arrays\<close>

definition get_at :: "'a list \<Rightarrow> nat \<Rightarrow> 'a option" where
  "get_at arr i = (if i < length arr then Some (arr ! i) else None)"

definition put_at :: "'a list \<Rightarrow> nat \<Rightarrow> 'a \<Rightarrow> 'a list option" where
  "put_at arr i x = (if i < length arr then Some (arr[i := x]) else None)"

definition SWAP :: "nat \<Rightarrow> nat \<Rightarrow> 'a list \<Rightarrow> 'a list option" where
  "SWAP i j arr =
     (if i < length arr \<and> j < length arr then Some (arr[i := arr ! j, j := arr ! i]) else None)"

definition SWAP_IF_GREATER :: "nat \<Rightarrow> nat \<Rightarrow> int list \<Rightarrow> int list option" where
  "SWAP_IF_GREATER i j arr =
     (if i < length arr \<and> j < length arr then if arr ! i > arr ! j then SWAP i j arr else Some arr else None)"

fun for_each :: "('i \<Rightarrow> 's \<Rightarrow> 's option) \<Rightarrow> 'i list \<Rightarrow> 's \<Rightarrow> 's option" where
  "for_each f [] s = Some s"
| "for_each f (i # is) s = (case f i s of None \<Rightarrow> None | Some s \<Rightarrow> for_each f is s)"

subsection \<open>The quick sort\<close>

definition INSERTION_THRESHOLD :: nat where "INSERTION_THRESHOLD = 10"
definition NSTACK :: nat where "NSTACK = 50"

text \<open>The inner loop of \<open>insertion_sort\<close>: move larger elements up until the place of the value is free.\<close>

fun insert_down :: "nat \<Rightarrow> int \<Rightarrow> nat \<Rightarrow> int list \<Rightarrow> (nat \<times> int list) option" where
  "insert_down base value 0 arr = None"
| "insert_down base value (Suc j) arr =
     (case get_at arr j of
        None \<Rightarrow> None
      | Some x \<Rightarrow>
          if value < x
          then (case put_at arr (Suc j) x of
                  None \<Rightarrow> None
                | Some arr \<Rightarrow> if j = base then Some (j, arr) else insert_down base value j arr)
          else Some (Suc j, arr))"

definition insert_step :: "nat \<Rightarrow> nat \<Rightarrow> int list \<Rightarrow> int list option" where
  "insert_step base i arr =
     (case get_at arr i of
        None \<Rightarrow> None
      | Some value \<Rightarrow> (case insert_down base value i arr of None \<Rightarrow> None | Some (j, arr) \<Rightarrow> put_at arr j value))"

definition insertion_sort :: "nat \<Rightarrow> nat \<Rightarrow> int list \<Rightarrow> int list option" where
  "insertion_sort n base arr = for_each (insert_step base) [base + 1..<base + n] arr"

definition selection_sort :: "nat \<Rightarrow> int list \<Rightarrow> int list option" where
  "selection_sort n arr =
     for_each (\<lambda>i. for_each (\<lambda>j. SWAP_IF_GREATER i j) [i + 1..<n]) [0..<n - 1] arr"

text \<open>\<open>while (*i++ < a)\<close> and \<open>while (*(j-- - 2) > a)\<close>.\<close>

function scan_up :: "int \<Rightarrow> nat \<Rightarrow> int list \<Rightarrow> nat option" where
  "scan_up a i arr =
     (if i < length arr then if arr ! i < a then scan_up a (i + 1) arr else Some (i + 1) else None)"
  by pat_completeness auto
termination by (relation "measure (\<lambda>(a, i, arr). length arr - i)") auto

fun scan_down :: "int \<Rightarrow> nat \<Rightarrow> int list \<Rightarrow> nat option" where
  "scan_down a (Suc (Suc k)) arr =
     (if k < length arr then if arr ! k > a then scan_down a (Suc k) arr else Some (Suc k) else None)"
| "scan_down a _ arr = None"

declare scan_up.simps [simp del]

lemma scan_up_bounds: "scan_up a i arr = Some i' \<Longrightarrow> i < i' \<and> i' \<le> length arr"
proof (induction a i arr rule: scan_up.induct)
  case (1 a i arr)
  have "i < length arr" "if arr ! i < a then scan_up a (i + 1) arr = Some i' else i' = i + 1"
    using 1(2) by (subst (asm) scan_up.simps; simp split: if_splits)+
  then show ?case using 1(1) by (auto split: if_splits)
qed

function partition_loop :: "int \<Rightarrow> nat \<Rightarrow> nat \<Rightarrow> int list \<Rightarrow> (nat \<times> nat \<times> int list) option" where
  "partition_loop a i j arr =
     (case scan_up a i arr of
        None \<Rightarrow> None
      | Some i' \<Rightarrow>
          (case scan_down a j arr of
             None \<Rightarrow> None
           | Some j' \<Rightarrow>
               if j' < i' then Some (i', j', arr)
               else (case SWAP (i' - 1) (j' - 1) arr of
                       None \<Rightarrow> None
                     | Some arr' \<Rightarrow> partition_loop a i' j' arr')))"
  by pat_completeness auto
termination
  by (relation "measure (\<lambda>(a, i, j, arr). length arr - i)")
    (auto simp: SWAP_def dest!: scan_up_bounds split: if_splits)

declare partition_loop.simps [simp del]

text \<open>One partitioning of the elements from \<open>l - 1\<close> to \<open>ir - 1\<close>: the median of three, the scans, the
  insertion of the partitioning element.\<close>

definition median_of_three :: "nat \<Rightarrow> nat \<Rightarrow> int list \<Rightarrow> int list option" where
  "median_of_three l ir arr =
     Option.bind (SWAP ((l + ir) div 2 - 1) l arr) (\<lambda>arr.
     Option.bind (SWAP_IF_GREATER (l - 1) (ir - 1) arr) (\<lambda>arr.
     Option.bind (SWAP_IF_GREATER l (ir - 1) arr) (\<lambda>arr.
     SWAP_IF_GREATER (l - 1) l arr)))"

definition partition_step :: "nat \<Rightarrow> nat \<Rightarrow> int list \<Rightarrow> (nat \<times> nat \<times> int list) option" where
  "partition_step l ir arr =
     Option.bind (median_of_three l ir arr) (\<lambda>arr.
     Option.bind (get_at arr l) (\<lambda>a.
     Option.bind (partition_loop a (l + 1) ir arr) (\<lambda>(i, j, arr).
     Option.bind (get_at arr (j - 1)) (\<lambda>x.
     Option.bind (put_at arr l x) (\<lambda>arr.
     Option.bind (put_at arr (j - 1) a) (\<lambda>arr. Some (i, j, arr)))))))"

text \<open>The main loop.  A stack entry is a pair of pointers; the stack pointer advances by two per entry
  from slot 0, so the entry \<open>k\<close> occupies the slots \<open>2 k + 1\<close> and \<open>2 k + 2\<close> of the stack.\<close>

partial_function (option) sort_loop :: "nat \<Rightarrow> nat \<Rightarrow> (nat \<times> nat) list \<Rightarrow> int list \<Rightarrow> int list option" where
  "sort_loop l ir stack arr =
     (if l = 0 \<or> ir + 1 < l then None
      else if int ir - int l < int INSERTION_THRESHOLD
      then Option.bind (insertion_sort (ir + 1 - l) (l - 1) arr) (\<lambda>arr.
             case stack of
               [] \<Rightarrow> Some arr
             | (l, ir) # stack \<Rightarrow> sort_loop l ir stack arr)
      else Option.bind (partition_step l ir arr) (\<lambda>(i, j, arr).
             if 2 * length stack + 2 < NSTACK
             then if int ir - int i + 1 \<ge> int j - int l
                  then sort_loop l (j - 1) ((i, ir) # stack) arr
                  else sort_loop i ir ((l, j - 1) # stack) arr
             else None))"

definition qsort_sort :: "nat \<Rightarrow> int list \<Rightarrow> int list option" where
  "qsort_sort n arr = sort_loop 1 n [] arr"

subsection \<open>Insertion sort\<close>

lemma insert_down_correct:
  "sorted ys \<Longrightarrow> ys \<noteq> [] \<Longrightarrow>
    \<exists>j arr'. insert_down (length xs) v (length xs + length ys) (xs @ ys @ w # zs) = Some (j, arr') \<and>
      j < length arr' \<and> arr'[j := v] = xs @ insort v ys @ zs"
proof (induction ys arbitrary: w zs rule: rev_induct)
  case (snoc y ys)
  have n: "length xs + length (ys @ [y]) = Suc (length xs + length ys)" by simp
  have g: "get_at (xs @ (ys @ [y]) @ w # zs) (length xs + length ys) = Some y"
    by (simp add: get_at_def nth_append)
  show ?case
  proof (cases "v < y")
    case True
    have p: "put_at (xs @ (ys @ [y]) @ w # zs) (Suc (length xs + length ys)) y = Some (xs @ ys @ y # y # zs)"
      by (simp add: put_at_def list_update_append)
    have i: "insort v (ys @ [y]) = insort v ys @ [y]"
      using True snoc.prems(1) by (induction ys) (auto simp: sorted_append)
    show ?thesis
    proof (cases "ys = []")
      case True
      then show ?thesis using g p n \<open>v < y\<close> by (simp add: list_update_append)
    next
      case False
      from snoc.IH [OF _ this, of y "y # zs"] snoc.prems(1) obtain j arr' where
        "insert_down (length xs) v (length xs + length ys) (xs @ ys @ y # y # zs) = Some (j, arr')"
        "j < length arr'" "arr'[j := v] = xs @ insort v ys @ y # zs"
        by (auto simp: sorted_append)
      then show ?thesis using g p n \<open>v < y\<close> False i by simp
    qed
  next
    case False
    then have "insort v (ys @ [y]) = (ys @ [y]) @ [v]"
      using snoc.prems(1) by (intro sorted_insort_is_snoc) (auto simp: sorted_append)
    then show ?thesis using g n False by (simp add: list_update_append)
  qed
qed simp

lemma for_each_append: "for_each f (is @ js) s = Option.bind (for_each f is s) (for_each f js)"
  by (induction "is" arbitrary: s) (auto split: option.splits)

lemma insertion_sort_correct:
  "insertion_sort (length ys) (length xs) (xs @ ys @ zs) = Some (xs @ sort ys @ zs)"
proof (induction ys arbitrary: zs rule: rev_induct)
  case (snoc y ys)
  show ?case
  proof (cases "ys = []")
    case True
    then show ?thesis by (simp add: insertion_sort_def)
  next
    case False
    then have r: "[length xs + 1..<length xs + length (ys @ [y])] = [length xs + 1..<length xs + length ys] @ [length xs + length ys]"
      by (simp add: Suc_le_eq)
    have s: "sort (ys @ [y]) = insort y (sort ys)"
      by (rule properties_for_sort) (simp_all add: sorted_insort)
    have ne: "sort ys \<noteq> []" using False by (metis length_sort length_0_conv)
    obtain j arr' where
      "insert_down (length xs) y (length xs + length (sort ys)) (xs @ sort ys @ y # zs) = Some (j, arr')"
      "j < length arr'" "arr'[j := y] = xs @ insort y (sort ys) @ zs"
      using insert_down_correct [where ys = "sort ys" and xs = xs and v = y and w = y and zs = zs, OF sorted_sort ne] by blast
    then have "insert_step (length xs) (length xs + length ys) (xs @ sort ys @ y # zs) = Some (xs @ insort y (sort ys) @ zs)"
      by (simp add: insert_step_def get_at_def put_at_def nth_append)
    then show ?thesis
      using snoc.IH [of "y # zs"] unfolding insertion_sort_def r for_each_append s by simp
  qed
qed (simp add: insertion_sort_def)

subsection \<open>Selection sort\<close>

lemma mset_SWAP: "SWAP i j arr = Some arr' \<Longrightarrow> mset arr' = mset arr \<and> length arr' = length arr"
  by (auto simp: SWAP_def mset_swap split: if_splits)

text \<open>One pass puts a minimum of the rest at the front of the rest.\<close>

lemma selection_pass:
  assumes "i < length arr" "k \<le> length arr" "i < k"
  shows "\<exists>arr'. for_each (\<lambda>j. SWAP_IF_GREATER i j) [i + 1..<k] arr = Some arr' \<and> mset arr' = mset arr \<and> length arr' = length arr \<and>
    (\<forall>p. p < i \<or> k \<le> p \<longrightarrow> arr' ! p = arr ! p) \<and> (\<forall>p\<in>{i..<k}. arr' ! i \<le> arr' ! p)"
  using assms(2,3)
proof (induction k)
  case (Suc k)
  show ?case
  proof (cases "i = k")
    case True
    then show ?thesis by (intro exI [of _ arr]) auto
  next
    case False
    then obtain brr where b: "for_each (\<lambda>j. SWAP_IF_GREATER i j) [i + 1..<k] arr = Some brr" "mset brr = mset arr" "length brr = length arr"
      "\<forall>p. p < i \<or> k \<le> p \<longrightarrow> brr ! p = arr ! p" "\<forall>p\<in>{i..<k}. brr ! i \<le> brr ! p"
      using Suc by auto
    have r: "[i + 1..<Suc k] = [i + 1..<k] @ [k]" using Suc.prems(2) False by simp
    define crr where "crr = (if brr ! i > brr ! k then brr[i := brr ! k, k := brr ! i] else brr)"
    have s: "SWAP_IF_GREATER i k brr = Some crr"
      using b(3) Suc.prems(1) assms(1) by (simp add: SWAP_IF_GREATER_def SWAP_def crr_def)
    have "mset crr = mset arr" "length crr = length arr"
      using b(2,3) Suc.prems(1) assms(1) by (simp_all add: crr_def mset_swap)
    moreover have "\<forall>p. p < i \<or> Suc k \<le> p \<longrightarrow> crr ! p = arr ! p" using b(4) Suc.prems(2) False by (auto simp: crr_def nth_list_update_neq)
    moreover have "\<forall>p\<in>{i..<Suc k}. crr ! i \<le> crr ! p"
      using b(3,5) Suc.prems(1) assms(1) False by (force simp: crr_def nth_list_update less_Suc_eq)
    ultimately show ?thesis using b(1) s unfolding r for_each_append by auto
  qed
qed simp

lemma selection_sort_correct: "\<exists>arr'. selection_sort (length arr) arr = Some arr' \<and> sorted arr' \<and> mset arr' = mset arr"
proof -
  have "\<exists>arr'. for_each (\<lambda>i. for_each (\<lambda>j. SWAP_IF_GREATER i j) [i + 1..<length arr]) [0..<k] arr = Some arr' \<and> mset arr' = mset arr \<and>
      length arr' = length arr \<and> (\<forall>p<k. \<forall>q. p < q \<and> q < length arr \<longrightarrow> arr' ! p \<le> arr' ! q)" if "k \<le> length arr - 1" for k
    using that
  proof (induction k)
    case (Suc k)
    then obtain brr where b: "for_each (\<lambda>i. for_each (\<lambda>j. SWAP_IF_GREATER i j) [i + 1..<length arr]) [0..<k] arr = Some brr"
      "mset brr = mset arr" "length brr = length arr" "\<forall>p<k. \<forall>q. p < q \<and> q < length arr \<longrightarrow> brr ! p \<le> brr ! q"
      by auto
    have kl: "k < length arr" using Suc.prems by simp
    obtain crr where c: "for_each (\<lambda>j. SWAP_IF_GREATER k j) [k + 1..<length arr] brr = Some crr" "mset crr = mset brr" "length crr = length brr"
      "\<forall>p. p < k \<or> length arr \<le> p \<longrightarrow> crr ! p = brr ! p" "\<forall>p\<in>{k..<length arr}. crr ! k \<le> crr ! p"
      using selection_pass [of k brr "length arr"] b(3) kl by auto
    have front: "crr ! p \<le> crr ! q" if "p < k" "p < q" "q < length arr" for p q
    proof -
      have "take k crr = take k brr" using c(3,4) by (intro nth_equalityI) auto
      then have "mset (drop k crr) = mset (drop k brr)"
        using c(2) by (metis append_take_drop_id mset_append add_left_cancel)
      then have m: "set (drop k crr) = set (drop k brr)" by (rule mset_eq_setD)
      show ?thesis
      proof (cases "q < k")
        case True then show ?thesis using that c(4) b(4) by auto
      next
        case False
        then have "crr ! q \<in> set (drop k crr)" using that c(3) b(3) by (auto simp: in_set_conv_nth intro!: exI [of _ "q - k"])
        then obtain r where "r < length arr" "k \<le> r" "crr ! q = brr ! r"
          unfolding m using b(3) by (auto simp: in_set_conv_nth) (metis add.commute le_add2 less_diff_conv)
        then show ?thesis using that c(4) b(4) by auto
      qed
    qed
    moreover have "crr ! k \<le> crr ! q" if "k < q" "q < length arr" for q using c(5) that by auto
    ultimately have "\<forall>p<Suc k. \<forall>q. p < q \<and> q < length arr \<longrightarrow> crr ! p \<le> crr ! q" by (auto simp: less_Suc_eq)
    then show ?case using b c by (simp add: for_each_append)
  qed simp
  from this [of "length arr - 1"] obtain arr' where
    a: "selection_sort (length arr) arr = Some arr'" "mset arr' = mset arr" "length arr' = length arr"
      "\<forall>p<length arr - 1. \<forall>q. p < q \<and> q < length arr \<longrightarrow> arr' ! p \<le> arr' ! q"
    by (auto simp: selection_sort_def)
  then have "sorted arr'" by (auto simp: sorted_iff_nth_mono_less)
  then show ?thesis using a by blast
qed

subsection \<open>Partitioning\<close>

lemma scan_up_correct:
  "i \<le> q \<Longrightarrow> q < length arr \<Longrightarrow> a \<le> arr ! q \<Longrightarrow>
    \<exists>k. scan_up a i arr = Some (Suc k) \<and> i \<le> k \<and> k \<le> q \<and> a \<le> arr ! k \<and> (\<forall>p\<in>{i..<k}. arr ! p < a)"
proof (induction a i arr rule: scan_up.induct)
  case (1 a i arr)
  show ?case
  proof (cases "arr ! i < a")
    case True
    then have "i \<noteq> q" using 1(4) by auto
    then obtain k where "scan_up a (i + 1) arr = Some (Suc k)" "i + 1 \<le> k" "k \<le> q" "a \<le> arr ! k" "\<forall>p\<in>{i + 1..<k}. arr ! p < a"
      using 1 True by force
    then show ?thesis using True 1(2,3) by (subst scan_up.simps) (auto simp: Suc_le_eq le_less intro!: exI [of _ k])
  next
    case False
    then show ?thesis using 1(2,3) by (subst scan_up.simps) auto
  qed
qed

lemma scan_down_correct:
  "q \<le> k \<Longrightarrow> k < length arr \<Longrightarrow> arr ! q \<le> a \<Longrightarrow>
    \<exists>j. scan_down a (Suc (Suc k)) arr = Some (Suc j) \<and> q \<le> j \<and> j \<le> k \<and> arr ! j \<le> a \<and> (\<forall>p. j < p \<and> p \<le> k \<longrightarrow> a < arr ! p)"
proof (induction k)
  case (Suc k)
  show ?case
  proof (cases "a < arr ! Suc k")
    case True
    then have "q \<le> k" using Suc.prems by (metis le_Suc_eq not_le)
    then obtain j where "scan_down a (Suc (Suc k)) arr = Some (Suc j)" "q \<le> j" "j \<le> k" "arr ! j \<le> a" "\<forall>p. j < p \<and> p \<le> k \<longrightarrow> a < arr ! p"
      using Suc by auto
    then show ?thesis using True Suc.prems(2) by (auto simp: le_Suc_eq intro!: exI [of _ j])
  qed (use Suc.prems in auto)
qed auto

lemma partition_loop_correct:
  "\<lbrakk>arr ! l = a; \<forall>p. l \<le> p + 1 \<and> p < i \<longrightarrow> arr ! p \<le> a; \<forall>p. j \<le> p + 1 \<and> p < ir \<longrightarrow> a \<le> arr ! p;
    l < i; i \<le> j; j \<le> ir; i < ir; l + 2 \<le> j; ir \<le> length arr\<rbrakk> \<Longrightarrow>
   \<exists>i' j' arr'. partition_loop a i j arr = Some (Suc i', Suc j', arr') \<and> l \<le> j' \<and> j' < i' \<and> i' < ir \<and>
     length arr' = length arr \<and> mset arr' = mset arr \<and> arr' ! l = a \<and> (\<forall>p. p < l \<or> ir \<le> p \<longrightarrow> arr' ! p = arr ! p) \<and>
     (\<forall>p. l \<le> p + 1 \<and> p < i' \<longrightarrow> arr' ! p \<le> a) \<and> (\<forall>p. j' < p \<and> p < ir \<longrightarrow> a \<le> arr' ! p) \<and> arr' ! j' \<le> a"
proof (induction a i j arr rule: partition_loop.induct)
  case (1 a i j arr)
  note h = 1(2-10)
  have "j - 1 \<le> max i (j - 1)" "max i (j - 1) < ir" using h by auto
  then have mq: "a \<le> arr ! max i (j - 1)" "max i (j - 1) < length arr" using h(3,9) by auto
  then obtain k where k: "scan_up a i arr = Some (Suc k)" "i \<le> k" "k \<le> max i (j - 1)" "a \<le> arr ! k" "\<forall>p\<in>{i..<k}. arr ! p < a"
    using scan_up_correct [OF max.cobounded1 mq(2,1)] by blast
  define j2 where "j2 = j - 2"
  then have j2: "j = Suc (Suc j2)" "l \<le> j2" using h(8) by linarith+
  obtain m where m: "scan_down a j arr = Some (Suc m)" "l \<le> m" "m \<le> j2" "arr ! m \<le> a" "\<forall>p. m < p \<and> p \<le> j2 \<longrightarrow> a < arr ! p"
    using scan_down_correct [of l j2 arr a] h j2 by auto
  have lo: "arr ! p \<le> a" if "l \<le> p + 1" "p < k" for p
    using h(2) k(5) that by (cases "p < i") (auto simp: less_imp_le)
  have hi: "a \<le> arr ! p" if "m < p" "p < ir" for p
    using h(3) m(5) that j2(1) by (cases "j \<le> p + 1") (auto simp: less_imp_le)
  have kir: "k < ir" using k(3) h by auto
  show ?case
  proof (cases "m < k")
    case True
    then have "partition_loop a i j arr = Some (Suc k, Suc m, arr)"
      using k(1) m(1) by (subst partition_loop.simps) simp
    then show ?thesis using True m kir lo hi h(1) by (intro exI [of _ k] exI [of _ m] exI [of _ arr]) simp
  next
    case False
    define brr where "brr = arr[k := arr ! m, m := arr ! k]"
    have sw: "SWAP k m arr = Some brr" using False m j2 h by (simp add: SWAP_def brr_def)
    have n: "k < length arr" "m < length arr" using False m j2 h by auto
    have step: "partition_loop a i j arr = partition_loop a (Suc k) (Suc m) brr"
      using k(1) m(1) False sw by (subst partition_loop.simps) simp
    have b: "brr ! p = (if p = m then arr ! k else if p = k then arr ! m else arr ! p)" for p
      using n by (cases "p = m"; cases "p = k") (simp_all add: brr_def)
    have lk: "l < k" using h(4) k(2) by simp
    have ih: "\<exists>i' j' arr'. partition_loop a (Suc k) (Suc m) brr = Some (Suc i', Suc j', arr') \<and> l \<le> j' \<and> j' < i' \<and> i' < ir \<and>
     length arr' = length brr \<and> mset arr' = mset brr \<and> arr' ! l = a \<and> (\<forall>p. p < l \<or> ir \<le> p \<longrightarrow> arr' ! p = brr ! p) \<and>
     (\<forall>p. l \<le> p + 1 \<and> p < i' \<longrightarrow> arr' ! p \<le> a) \<and> (\<forall>p. j' < p \<and> p < ir \<longrightarrow> a \<le> arr' ! p) \<and> arr' ! j' \<le> a"
    proof (rule 1(1))
      show "scan_up a i arr = Some (Suc k)" "scan_down a j arr = Some (Suc m)" "\<not> Suc m < Suc k" "SWAP (Suc k - 1) (Suc m - 1) arr = Some brr"
        using k m False sw by simp_all
      show "brr ! l = a" using b lk False h(1) by auto
      show "\<forall>p. l \<le> p + 1 \<and> p < Suc k \<longrightarrow> brr ! p \<le> a"
      proof (intro allI impI)
        fix p assume p: "l \<le> p + 1 \<and> p < Suc k"
        show "brr ! p \<le> a"
        proof (cases "p = k")
          case True
          show ?thesis
          proof (cases "k = m")
            case True
            then show ?thesis using b m(4) \<open>p = k\<close> by simp
          qed (use b m(4) True in simp)
        next
          case False
          then have "p < k" using p by simp
          moreover from this have "p \<noteq> m" using \<open>\<not> m < k\<close> by simp
          ultimately show ?thesis using b lo p False by simp
        qed
      qed
      show "\<forall>p. Suc m \<le> p + 1 \<and> p < ir \<longrightarrow> a \<le> brr ! p"
        using b hi k(4) False by auto
      show "l < Suc k" "Suc k \<le> Suc m" "Suc m \<le> ir" "Suc k < ir" "l + 2 \<le> Suc m" "ir \<le> length brr"
        using lk False m(3) j2 h by (auto simp: brr_def)
    qed
    moreover have "length brr = length arr" "mset brr = mset arr" using n by (simp_all add: brr_def mset_swap)
    moreover have "brr ! p = arr ! p" if "p < l \<or> ir \<le> p" for p
      using b that lk False m(3) j2 h(6) kir by auto
    ultimately show ?thesis unfolding step by metis
  qed
qed

text \<open>Same elements, and the same array outside a range.\<close>

definition same_outside :: "nat \<Rightarrow> nat \<Rightarrow> 'a list \<Rightarrow> 'a list \<Rightarrow> bool" where
  "same_outside lo hi arr brr \<longleftrightarrow> length brr = length arr \<and> mset brr = mset arr \<and> (\<forall>p. p < lo \<or> hi \<le> p \<longrightarrow> brr ! p = arr ! p)"

lemma same_outside_refl: "same_outside lo hi arr arr"
  by (simp add: same_outside_def)

lemma same_outside_trans: "same_outside lo hi a b \<Longrightarrow> same_outside lo hi b c \<Longrightarrow> same_outside lo hi a c"
  by (simp add: same_outside_def)

lemma SWAP_ok:
  assumes "i < length arr" "j < length arr"
  obtains brr where "SWAP i j arr = Some brr" "length brr = length arr" "mset brr = mset arr" "brr ! i = arr ! j" "brr ! j = arr ! i"
    "\<forall>p. p \<noteq> i \<and> p \<noteq> j \<longrightarrow> brr ! p = arr ! p"
proof (rule that [of "arr[i := arr ! j, j := arr ! i]"])
  show "SWAP i j arr = Some (arr[i := arr ! j, j := arr ! i])" using assms by (simp add: SWAP_def)
  show "mset (arr[i := arr ! j, j := arr ! i]) = mset arr" using assms by (simp add: mset_swap)
  show "arr[i := arr ! j, j := arr ! i] ! i = arr ! j" using assms by (cases "i = j") simp_all
  show "arr[i := arr ! j, j := arr ! i] ! j = arr ! i" using assms by simp
  show "\<forall>p. p \<noteq> i \<and> p \<noteq> j \<longrightarrow> arr[i := arr ! j, j := arr ! i] ! p = arr ! p" by simp
qed simp

lemma SWAP_IF_GREATER_ok:
  assumes "i < length arr" "j < length arr" "i \<noteq> j"
  obtains brr where "SWAP_IF_GREATER i j arr = Some brr" "length brr = length arr" "mset brr = mset arr"
    "brr ! i = min (arr ! i) (arr ! j)" "brr ! j = max (arr ! i) (arr ! j)" "\<forall>p. p \<noteq> i \<and> p \<noteq> j \<longrightarrow> brr ! p = arr ! p"
proof (cases "arr ! i > arr ! j")
  case True
  obtain brr where b: "SWAP i j arr = Some brr" "length brr = length arr" "mset brr = mset arr" "brr ! i = arr ! j" "brr ! j = arr ! i"
    "\<forall>p. p \<noteq> i \<and> p \<noteq> j \<longrightarrow> brr ! p = arr ! p"
    using SWAP_ok [OF assms(1,2)] .
  show ?thesis
    by (rule that [of brr]) (use b True assms in \<open>simp_all add: SWAP_IF_GREATER_def\<close>)
next
  case False
  show ?thesis
    by (rule that [of arr]) (use False assms in \<open>simp_all add: SWAP_IF_GREATER_def\<close>)
qed

lemma median_order: "max (min a b) (min c (max a b)) \<le> max c (max a b)" for a b c :: int
  by (auto simp: max_def min_def)

lemma median_of_three_ok:
  assumes "1 \<le> l" "l + 10 \<le> ir" "ir \<le> length arr"
  obtains brr where "median_of_three l ir arr = Some brr" "same_outside (l - 1) ir arr brr"
    "brr ! (l - 1) \<le> brr ! l" "brr ! l \<le> brr ! (ir - 1)"
proof -
  have b: "(l + ir) div 2 - 1 < length arr" "l < length arr" "l - 1 < length arr" "ir - 1 < length arr" "l - 1 \<noteq> ir - 1" "l \<noteq> ir - 1" "l - 1 \<noteq> l"
    "l - 1 \<le> (l + ir) div 2 - 1" "(l + ir) div 2 - 1 < ir"
    using assms by linarith+
  obtain b1 where b1: "SWAP ((l + ir) div 2 - 1) l arr = Some b1" "length b1 = length arr" "mset b1 = mset arr"
    "b1 ! ((l + ir) div 2 - 1) = arr ! l" "b1 ! l = arr ! ((l + ir) div 2 - 1)"
    "\<forall>p. p \<noteq> (l + ir) div 2 - 1 \<and> p \<noteq> l \<longrightarrow> b1 ! p = arr ! p"
    using SWAP_ok [OF b(1,2)] .
  have c1: "l - 1 < length b1" "ir - 1 < length b1" "l < length b1" using b b1(2) by simp_all
  obtain b2 where b2: "SWAP_IF_GREATER (l - 1) (ir - 1) b1 = Some b2" "length b2 = length b1" "mset b2 = mset b1"
    "b2 ! (l - 1) = min (b1 ! (l - 1)) (b1 ! (ir - 1))" "b2 ! (ir - 1) = max (b1 ! (l - 1)) (b1 ! (ir - 1))"
    "\<forall>p. p \<noteq> l - 1 \<and> p \<noteq> ir - 1 \<longrightarrow> b2 ! p = b1 ! p"
    using SWAP_IF_GREATER_ok [OF c1(1,2) b(5)] .
  have c2: "l < length b2" "ir - 1 < length b2" using c1 b2(2) by simp_all
  obtain b3 where b3: "SWAP_IF_GREATER l (ir - 1) b2 = Some b3" "length b3 = length b2" "mset b3 = mset b2"
    "b3 ! l = min (b2 ! l) (b2 ! (ir - 1))" "b3 ! (ir - 1) = max (b2 ! l) (b2 ! (ir - 1))"
    "\<forall>p. p \<noteq> l \<and> p \<noteq> ir - 1 \<longrightarrow> b3 ! p = b2 ! p"
    using SWAP_IF_GREATER_ok [OF c2 b(6)] .
  have c3: "l - 1 < length b3" "l < length b3" using c1 b2(2) b3(2) by simp_all
  obtain b4 where b4: "SWAP_IF_GREATER (l - 1) l b3 = Some b4" "length b4 = length b3" "mset b4 = mset b3"
    "b4 ! (l - 1) = min (b3 ! (l - 1)) (b3 ! l)" "b4 ! l = max (b3 ! (l - 1)) (b3 ! l)"
    "\<forall>p. p \<noteq> l - 1 \<and> p \<noteq> l \<longrightarrow> b4 ! p = b3 ! p"
    using SWAP_IF_GREATER_ok [OF c3 b(7)] .
  have "median_of_three l ir arr = Some b4"
    by (simp only: median_of_three_def b1(1) b2(1) b3(1) b4(1) Option.bind.bind_lunit)
  moreover have "same_outside (l - 1) ir arr b4"
    unfolding same_outside_def
  proof (intro conjI allI impI)
    fix p assume p: "p < l - 1 \<or> ir \<le> p"
    then have "p \<noteq> l - 1" "p \<noteq> l" "p \<noteq> ir - 1" "p \<noteq> (l + ir) div 2 - 1" using assms b by linarith+
    then show "b4 ! p = arr ! p" using b1(6) b2(6) b3(6) b4(6) by simp
  qed (simp_all only: b1(2,3) b2(2,3) b3(2,3) b4(2,3))
  moreover have "b4 ! (l - 1) \<le> b4 ! l" unfolding b4(4,5) by simp
  moreover have "b4 ! l \<le> b4 ! (ir - 1)"
  proof -
    have "b4 ! (ir - 1) = b3 ! (ir - 1)" "b3 ! (l - 1) = b2 ! (l - 1)" using b4(6) b3(6) b by metis+
    then have "b4 ! (ir - 1) = max (b2 ! l) (max (b1 ! (l - 1)) (b1 ! (ir - 1)))"
      "b4 ! l = max (min (b1 ! (l - 1)) (b1 ! (ir - 1))) (min (b2 ! l) (max (b1 ! (l - 1)) (b1 ! (ir - 1))))"
      by (simp_all only: b4(5) b3(4,5) b2(4,5))
    then show ?thesis using median_order [of "b1 ! (l - 1)" "b1 ! (ir - 1)" "b2 ! l"] by (simp only:)
  qed
  ultimately show ?thesis using that by blast
qed

lemma partition_step_ok:
  assumes "1 \<le> l" "l + 10 \<le> ir" "ir \<le> length arr"
  obtains i j brr a where "partition_step l ir arr = Some (Suc i, Suc j, brr)" "l \<le> j" "j < i" "i < ir" "same_outside (l - 1) ir arr brr"
    "\<forall>p. l \<le> p + 1 \<and> p < i \<longrightarrow> brr ! p \<le> a" "\<forall>p. j \<le> p \<and> p < ir \<longrightarrow> a \<le> brr ! p"
proof -
  obtain b1 where b1: "median_of_three l ir arr = Some b1" "same_outside (l - 1) ir arr b1" "b1 ! (l - 1) \<le> b1 ! l" "b1 ! l \<le> b1 ! (ir - 1)"
    by (rule median_of_three_ok [OF assms])
  have n: "length b1 = length arr" using b1(2) by (simp add: same_outside_def)
  have lo: "b1 ! p \<le> b1 ! l" if "l \<le> p + 1" "p < l + 1" for p
  proof -
    have "p = l - 1 \<or> p = l" using that assms(1) by linarith
    then show ?thesis using b1(3) by auto
  qed
  have hi: "b1 ! l \<le> b1 ! p" if "ir \<le> p + 1" "p < ir" for p
  proof -
    have "p = ir - 1" using that by linarith
    then show ?thesis using b1(4) by simp
  qed
  obtain i j b2 where b2: "partition_loop (b1 ! l) (l + 1) ir b1 = Some (Suc i, Suc j, b2)" "l \<le> j" "j < i" "i < ir"
    "length b2 = length b1" "mset b2 = mset b1" "b2 ! l = b1 ! l" "\<forall>p. p < l \<or> ir \<le> p \<longrightarrow> b2 ! p = b1 ! p"
    "\<forall>p. l \<le> p + 1 \<and> p < i \<longrightarrow> b2 ! p \<le> b1 ! l" "\<forall>p. j < p \<and> p < ir \<longrightarrow> b1 ! l \<le> b2 ! p" "b2 ! j \<le> b1 ! l"
    using partition_loop_correct [of b1 l "b1 ! l" "l + 1" ir ir] lo hi assms n by auto
  define b3 where "b3 = b2[l := b2 ! j, j := b1 ! l]"
  have ln: "l < length b2" "j < length b2" using b2 assms n by auto
  have v: "b3 ! p = (if p = j then b1 ! l else if p = l then b2 ! j else b2 ! p)" for p
    using ln by (cases "p = j"; cases "p = l") (simp_all add: b3_def)
  have "partition_step l ir arr = Some (Suc i, Suc j, b3)"
    using b1(1) b2(1) ln b2(5) n assms by (simp add: partition_step_def get_at_def put_at_def b3_def)
  moreover have "same_outside (l - 1) ir b1 b3"
  proof -
    have "mset b3 = mset b2" using ln b2(7) mset_swap [of j b2 l] by (simp add: b3_def)
    moreover have "b3 ! p = b1 ! p" if "p < l - 1 \<or> ir \<le> p" for p
      using that b2(2-4,8) assms(1) by (auto simp: b3_def)
    ultimately show ?thesis using b2(5,6) by (simp add: same_outside_def b3_def)
  qed
  moreover have "\<forall>p. l \<le> p + 1 \<and> p < i \<longrightarrow> b3 ! p \<le> b1 ! l"
    using b2(9,11) by (simp add: v)
  moreover have "\<forall>p. j \<le> p \<and> p < ir \<longrightarrow> b1 ! l \<le> b3 ! p"
    using b2(2,10) by (auto simp: v)
  ultimately show ?thesis using that [of i j b3 "b1 ! l"] b2(2-4) same_outside_trans [OF b1(2)] by blast
qed

subsection \<open>The whole sort\<close>

text \<open>Positions of a segment \<open>(l, ir)\<close>, its size, and what the loop keeps: the pending segments are disjoint,
  two positions of the array that lie in no common pending segment are in order already, and the
  segment with \<open>k\<close> segments below it on the stack has at most \<open>n / 2 ^ k\<close> elements.\<close>

definition in_seg :: "nat \<times> nat \<Rightarrow> nat \<Rightarrow> bool" where
  "in_seg s p \<longleftrightarrow> fst s \<le> p + 1 \<and> p < snd s"

definition seg_size :: "nat \<times> nat \<Rightarrow> nat" where
  "seg_size s = snd s + 1 - fst s"

definition in_order :: "(nat \<times> nat) list \<Rightarrow> int list \<Rightarrow> bool" where
  "in_order segs arr \<longleftrightarrow>
     (\<forall>p q. p < q \<and> q < length arr \<longrightarrow> (\<exists>s\<in>set segs. in_seg s p \<and> in_seg s q) \<or> arr ! p \<le> arr ! q)"

definition segs_ok :: "nat \<Rightarrow> (nat \<times> nat) list \<Rightarrow> bool" where
  "segs_ok n segs \<longleftrightarrow> (\<forall>s\<in>set segs. 1 \<le> fst s \<and> fst s \<le> snd s + 1 \<and> snd s \<le> n) \<and>
     sorted_wrt (\<lambda>s t. \<forall>p. \<not> (in_seg s p \<and> in_seg t p)) segs"

fun stack_small :: "nat \<Rightarrow> (nat \<times> nat) list \<Rightarrow> bool" where
  "stack_small n [] \<longleftrightarrow> True"
| "stack_small n (s # segs) \<longleftrightarrow> seg_size s * 2 ^ length segs \<le> n \<and> stack_small n segs"

lemma same_outside_moved:
  assumes "same_outside lo hi arr brr" "lo \<le> p" "p < hi" "hi \<le> length arr"
  shows "\<exists>p'. lo \<le> p' \<and> p' < hi \<and> brr ! p = arr ! p'"
proof -
  have split: "xs = take lo xs @ take (hi - lo) (drop lo xs) @ drop hi xs" if "length xs = length arr" for xs :: "'a list"
    using assms(2-4) that by (metis append_take_drop_id drop_drop le_add_diff_inverse2 less_imp_le order_trans)
  have n: "length brr = length arr" using assms(1) by (simp add: same_outside_def)
  have "take lo brr = take lo arr" "drop hi brr = drop hi arr"
    using assms n by (auto simp: same_outside_def intro!: nth_equalityI)
  then have "mset (take (hi - lo) (drop lo brr)) = mset (take (hi - lo) (drop lo arr))"
    using assms(1) split [OF n] split [of arr] unfolding same_outside_def
    by (metis add_left_cancel add_right_cancel mset_append)
  then have "set (take (hi - lo) (drop lo brr)) = set (take (hi - lo) (drop lo arr))"
    by (rule mset_eq_setD)
  moreover have "brr ! p \<in> set (take (hi - lo) (drop lo brr))"
    using assms(2-4) n by (auto simp: in_set_conv_nth intro!: exI [of _ "p - lo"])
  ultimately obtain k where "k < hi - lo" "brr ! p = arr ! (lo + k)"
    using assms(2-4) by (auto simp: in_set_conv_nth)
  then show ?thesis by (intro exI [of _ "lo + k"]) simp
qed

text \<open>Work inside one pending segment, which leaves the segments \<open>new\<close> of it pending.\<close>

lemma in_order_step:
  assumes o: "in_order (s # segs) arr" and ok: "segs_ok (length arr) (s # segs)"
    and same: "same_outside (fst s - 1) (snd s) arr brr"
    and inner: "\<And>p q. in_seg s p \<Longrightarrow> in_seg s q \<Longrightarrow> p < q \<Longrightarrow> (\<exists>t\<in>set new. in_seg t p \<and> in_seg t q) \<or> brr ! p \<le> brr ! q"
  shows "in_order (new @ segs) brr"
  unfolding in_order_def
proof (intro allI impI)
  fix p q assume pq: "p < q \<and> q < length brr"
  have n: "length brr = length arr" using same by (simp add: same_outside_def)
  have s: "1 \<le> fst s" "snd s \<le> length arr" using ok by (auto simp: segs_ok_def)
  have moved: "\<exists>r'. in_seg s r' \<and> brr ! r = arr ! r'" if "in_seg s r" for r
  proof -
    have "fst s - 1 \<le> r" "r < snd s" using that by (auto simp: in_seg_def)
    then obtain r' where "fst s - 1 \<le> r'" "r' < snd s" "brr ! r = arr ! r'" using same_outside_moved [OF same _ _ s(2)] by blast
    then show ?thesis by (intro exI [of _ r']) (auto simp: in_seg_def)
  qed
  have kept: "brr ! r = arr ! r" if "\<not> in_seg s r" for r
    using same that s by (auto simp: same_outside_def in_seg_def)
  have apart: "\<not> in_seg t r" if "t \<in> set segs" "in_seg s r" for t r
    using ok that by (auto simp: segs_ok_def)
  have cases: "(\<exists>t\<in>set segs. in_seg t p' \<and> in_seg t q') \<or> arr ! p' \<le> arr ! q'"
    if "p' < q'" "q' < length arr" "\<not> (in_seg s p' \<and> in_seg s q')" for p' q'
    using o that by (auto simp: in_order_def)
  show "(\<exists>t\<in>set (new @ segs). in_seg t p \<and> in_seg t q) \<or> brr ! p \<le> brr ! q"
  proof (cases "in_seg s p"; cases "in_seg s q")
    assume "in_seg s p" "in_seg s q"
    then show ?thesis using inner [of p q] pq by auto
  next
    assume a: "in_seg s p" "\<not> in_seg s q"
    then obtain p' where p': "in_seg s p'" "brr ! p = arr ! p'" using moved by blast
    then have "p' < q" using a pq by (auto simp: in_seg_def)
    then show ?thesis using cases [of p' q] p' a apart kept [of q] pq n by auto
  next
    assume a: "\<not> in_seg s p" "in_seg s q"
    then obtain q' where q': "in_seg s q'" "brr ! q = arr ! q'" using moved by blast
    then have "p < q'" "q' < length arr" using a pq s by (auto simp: in_seg_def)
    then show ?thesis using cases [of p q'] q' a apart kept [of p] by auto
  next
    assume a: "\<not> in_seg s p" "\<not> in_seg s q"
    then show ?thesis using cases [of p q] kept pq n by auto
  qed
qed

lemma insertion_sort_segment:
  assumes "1 \<le> l" "l \<le> ir + 1" "ir \<le> length arr"
  obtains brr where "insertion_sort (ir + 1 - l) (l - 1) arr = Some brr" "same_outside (l - 1) ir arr brr"
    "\<forall>p q. in_seg (l, ir) p \<and> in_seg (l, ir) q \<and> p < q \<longrightarrow> brr ! p \<le> brr ! q"
proof -
  define xs ys zs where "xs = take (l - 1) arr" and "ys = take (ir + 1 - l) (drop (l - 1) arr)" and "zs = drop ir arr"
  have n: "length xs = l - 1" "length ys = ir + 1 - l" using assms by (simp_all add: xs_def ys_def)
  have arr: "arr = xs @ ys @ zs"
  proof -
    have "drop ir arr = drop (ir + 1 - l) (drop (l - 1) arr)" using assms by simp
    then show ?thesis unfolding xs_def ys_def zs_def by (metis append_take_drop_id)
  qed
  have "insertion_sort (ir + 1 - l) (l - 1) arr = Some (xs @ sort ys @ zs)"
    using insertion_sort_correct [of ys xs zs] n arr by simp
  moreover have "same_outside (l - 1) ir arr (xs @ sort ys @ zs)"
    using n assms unfolding arr same_outside_def by (auto simp: nth_append)
  moreover have "\<forall>p q. in_seg (l, ir) p \<and> in_seg (l, ir) q \<and> p < q \<longrightarrow> (xs @ sort ys @ zs) ! p \<le> (xs @ sort ys @ zs) ! q"
    using n assms sorted_sort [of ys] by (auto simp: in_seg_def nth_append intro!: sorted_nth_mono)
  ultimately show ?thesis using that by blast
qed

lemma partition_step_segment:
  assumes "1 \<le> l" "l + 10 \<le> ir" "ir \<le> length arr"
  obtains i j brr where "partition_step l ir arr = Some (i, j, brr)" "l < j" "j < i" "i \<le> ir" "same_outside (l - 1) ir arr brr"
    "\<forall>p q. in_seg (l, ir) p \<and> in_seg (l, ir) q \<and> p < q \<longrightarrow>
        (\<exists>t\<in>{(l, j - 1), (i, ir)}. in_seg t p \<and> in_seg t q) \<or> brr ! p \<le> brr ! q"
proof -
  obtain i j brr a where p: "partition_step l ir arr = Some (Suc i, Suc j, brr)" "l \<le> j" "j < i" "i < ir" "same_outside (l - 1) ir arr brr"
    "\<forall>p. l \<le> p + 1 \<and> p < i \<longrightarrow> brr ! p \<le> a" "\<forall>p. j \<le> p \<and> p < ir \<longrightarrow> a \<le> brr ! p"
    using partition_step_ok [OF assms] .
  show ?thesis
  proof (rule that [of "Suc i" "Suc j" brr]; (intro allI impI)?)
    fix p q assume h: "in_seg (l, ir) p \<and> in_seg (l, ir) q \<and> p < q"
    consider "q < j" | "i \<le> p" | "j \<le> q" "p < i" by linarith
    then show "(\<exists>t\<in>{(l, Suc j - 1), (Suc i, ir)}. in_seg t p \<and> in_seg t q) \<or> brr ! p \<le> brr ! q"
    proof cases
      case 3
      then have "brr ! p \<le> a" "a \<le> brr ! q" using p(6,7) h by (auto simp: in_seg_def)
      then show ?thesis by simp
    qed (use h in \<open>auto simp: in_seg_def\<close>)
  qed (use p in auto)
qed

lemma segs_ok_split:
  assumes "segs_ok n ((l, ir) # segs)" "l < j" "j < i" "i \<le> ir"
  shows "segs_ok n ((l, j - 1) # (i, ir) # segs)" "segs_ok n ((i, ir) # (l, j - 1) # segs)"
proof -
  have h: "1 \<le> l" "ir \<le> n" "\<forall>s\<in>set segs. 1 \<le> fst s \<and> fst s \<le> snd s + 1 \<and> snd s \<le> n"
    "sorted_wrt (\<lambda>s t. \<forall>p. \<not> (in_seg s p \<and> in_seg t p)) segs" "\<And>s p. s \<in> set segs \<Longrightarrow> in_seg (l, ir) p \<Longrightarrow> \<not> in_seg s p"
    using assms(1) by (auto simp: segs_ok_def)
  have sub: "in_seg (l, j - 1) p \<Longrightarrow> in_seg (l, ir) p" "in_seg (i, ir) p \<Longrightarrow> in_seg (l, ir) p"
    "\<not> (in_seg (l, j - 1) p \<and> in_seg (i, ir) p)" for p
    using assms(2-4) by (auto simp: in_seg_def)
  show "segs_ok n ((l, j - 1) # (i, ir) # segs)" "segs_ok n ((i, ir) # (l, j - 1) # segs)"
    using h sub assms(2-4) by (auto simp: segs_ok_def)
qed

text \<open>The loop returns, within the stack, for every array of fewer than \<open>11 * 2 ^ 24\<close> elements.\<close>

lemma sort_loop_correct:
  "\<lbrakk>segs_ok (length arr) ((l, ir) # stack); in_order ((l, ir) # stack) arr; stack_small (length arr) ((l, ir) # stack);
    length arr < 11 * 2 ^ 24; stack = [] \<or> l \<le> ir; \<forall>s\<in>set stack. fst s \<le> snd s\<rbrakk> \<Longrightarrow>
   \<exists>brr. sort_loop l ir stack arr = Some brr \<and> sorted brr \<and> mset brr = mset arr"
proof (induction "sum_list (map seg_size ((l, ir) # stack))" arbitrary: l ir stack arr rule: less_induct)
  case less
  have l: "1 \<le> l" "l \<le> ir + 1" "ir \<le> length arr" using less.prems(1) by (auto simp: segs_ok_def)
  note unf = sort_loop.simps [of l ir stack arr]
  show ?case
  proof (cases "int ir - int l < int INSERTION_THRESHOLD")
    case True
    obtain brr where b: "insertion_sort (ir + 1 - l) (l - 1) arr = Some brr" "same_outside (l - 1) ir arr brr"
      "\<forall>p q. in_seg (l, ir) p \<and> in_seg (l, ir) q \<and> p < q \<longrightarrow> brr ! p \<le> brr ! q"
      using insertion_sort_segment [OF l] .
    have n: "length brr = length arr" "mset brr = mset arr" using b(2) by (simp_all add: same_outside_def)
    have "in_order ([] @ stack) brr"
      by (rule in_order_step [OF less.prems(2,1)]) (use b(2,3) in auto)
    then have o: "in_order stack brr" by simp
    show ?thesis
    proof (cases stack)
      case Nil
      have "sorted brr" using o by (auto simp: Nil in_order_def sorted_iff_nth_mono_less)
      then show ?thesis using unf True b(1) n(2) l Nil by simp
    next
      case (Cons s rest)
      obtain l2 ir2 where s: "s = (l2, ir2)" by fastforce
      have "\<exists>crr. sort_loop l2 ir2 rest brr = Some crr \<and> sorted crr \<and> mset crr = mset brr"
      proof (rule less.hyps)
        show "sum_list (map seg_size ((l2, ir2) # rest)) < sum_list (map seg_size ((l, ir) # stack))"
          using less.prems(5) by (auto simp: Cons s seg_size_def)
        show "segs_ok (length brr) ((l2, ir2) # rest)" using less.prems(1) unfolding n by (simp add: Cons s segs_ok_def)
        show "in_order ((l2, ir2) # rest) brr" using o by (simp add: Cons s)
        show "stack_small (length brr) ((l2, ir2) # rest)" using less.prems(3) unfolding n by (simp add: Cons s)
      qed (use less.prems(4,6) n in \<open>auto simp: Cons s\<close>)
      then show ?thesis using unf True b(1) n(2) l Cons s by simp
    qed
  next
    case False
    then have l10: "l + 10 \<le> ir" by (simp add: INSERTION_THRESHOLD_def)
    obtain i j brr where b: "partition_step l ir arr = Some (i, j, brr)" "l < j" "j < i" "i \<le> ir" "same_outside (l - 1) ir arr brr"
      "\<forall>p q. in_seg (l, ir) p \<and> in_seg (l, ir) q \<and> p < q \<longrightarrow>
        (\<exists>t\<in>{(l, j - 1), (i, ir)}. in_seg t p \<and> in_seg t q) \<or> brr ! p \<le> brr ! q"
      using partition_step_segment [OF l(1) l10 l(3)] .
    have n: "length brr = length arr" "mset brr = mset arr" using b(5) by (simp_all add: same_outside_def)
    have "11 * 2 ^ length stack \<le> length arr"
    proof -
      have "11 \<le> seg_size (l, ir)" using l10 by (simp add: seg_size_def)
      then have "11 * 2 ^ length stack \<le> seg_size (l, ir) * 2 ^ length stack" by (rule mult_le_mono1)
      also have "\<dots> \<le> length arr" using less.prems(3) by (simp only: stack_small.simps)
      finally show ?thesis .
    qed
    then have "(2::nat) ^ length stack < 2 ^ 24" using less.prems(4) by linarith
    then have "length stack < 24" by (rule power_less_imp_less_exp [rotated]) simp
    then have k: "2 * length stack + 2 < NSTACK" by (simp add: NSTACK_def)
    have small: "seg_size s * 2 ^ Suc (length stack) \<le> length arr" if "2 * seg_size s \<le> seg_size (l, ir)" for s
    proof -
      have "seg_size s * 2 ^ Suc (length stack) = 2 * seg_size s * 2 ^ length stack" by simp
      also have "\<dots> \<le> seg_size (l, ir) * 2 ^ length stack" using that by (rule mult_le_mono1)
      also have "\<dots> \<le> length arr" using less.prems(3) by (simp only: stack_small.simps)
      finally show ?thesis .
    qed
    have big: "seg_size s * 2 ^ length stack \<le> length arr" if "seg_size s \<le> seg_size (l, ir)" for s
    proof -
      have "seg_size s * 2 ^ length stack \<le> seg_size (l, ir) * 2 ^ length stack" using that by (rule mult_le_mono1)
      also have "\<dots> \<le> length arr" using less.prems(3) by (simp only: stack_small.simps)
      finally show ?thesis .
    qed
    show ?thesis
    proof (cases "int ir - int i + 1 \<ge> int j - int l")
      case True
      have o: "in_order ([(l, j - 1), (i, ir)] @ stack) brr"
        by (rule in_order_step [OF less.prems(2,1)]) (use b(5,6) in auto)
      have "\<exists>crr. sort_loop l (j - 1) ((i, ir) # stack) brr = Some crr \<and> sorted crr \<and> mset crr = mset brr"
      proof (rule less.hyps)
        show "sum_list (map seg_size ((l, j - 1) # (i, ir) # stack)) < sum_list (map seg_size ((l, ir) # stack))"
          using b(2-4) by (simp add: seg_size_def)
        show "segs_ok (length brr) ((l, j - 1) # (i, ir) # stack)" using segs_ok_split(1) [OF less.prems(1) b(2-4)] n by simp
        show "in_order ((l, j - 1) # (i, ir) # stack) brr" using o by simp
        have "2 * seg_size (l, j - 1) \<le> seg_size (l, ir)" "seg_size (i, ir) \<le> seg_size (l, ir)"
          using True b(2-4) by (auto simp: seg_size_def)
        then show "stack_small (length brr) ((l, j - 1) # (i, ir) # stack)"
          using small [of "(l, j - 1)"] big [of "(i, ir)"] less.prems(3) n by simp
      qed (use less.prems(4,6) n b(2-4) in auto)
      then show ?thesis using unf False b(1) n(2) l k True by simp
    next
      case F: False
      have o: "in_order ([(i, ir), (l, j - 1)] @ stack) brr"
        by (rule in_order_step [OF less.prems(2,1)]) (use b(5,6) in auto)
      have "\<exists>crr. sort_loop i ir ((l, j - 1) # stack) brr = Some crr \<and> sorted crr \<and> mset crr = mset brr"
      proof (rule less.hyps)
        show "sum_list (map seg_size ((i, ir) # (l, j - 1) # stack)) < sum_list (map seg_size ((l, ir) # stack))"
          using b(2-4) by (simp add: seg_size_def)
        show "segs_ok (length brr) ((i, ir) # (l, j - 1) # stack)" using segs_ok_split(2) [OF less.prems(1) b(2-4)] n by simp
        show "in_order ((i, ir) # (l, j - 1) # stack) brr" using o by simp
        have "2 * seg_size (i, ir) \<le> seg_size (l, ir)" "seg_size (l, j - 1) \<le> seg_size (l, ir)"
          using F b(2-4) by (auto simp: seg_size_def)
        then show "stack_small (length brr) ((i, ir) # (l, j - 1) # stack)"
          using small [of "(i, ir)"] big [of "(l, j - 1)"] less.prems(3) n by simp
      qed (use less.prems(4,6) n b(2-4) in auto)
      then show ?thesis using unf False b(1) n(2) l k F by simp
    qed
  qed
qed

lemma qsort_sort_correct:
  "length arr < 11 * 2 ^ 24 \<Longrightarrow> qsort_sort (length arr) arr = Some (sort arr)"
proof -
  assume n: "length arr < 11 * 2 ^ 24"
  have "\<exists>brr. sort_loop 1 (length arr) [] arr = Some brr \<and> sorted brr \<and> mset brr = mset arr"
    by (rule sort_loop_correct) (use n in \<open>auto simp: segs_ok_def in_order_def in_seg_def seg_size_def\<close>)
  then obtain brr where b: "sort_loop 1 (length arr) [] arr = Some brr" "sorted brr" "mset brr = mset arr" by blast
  then have "sort arr = brr" by (intro properties_for_sort) simp_all
  then show ?thesis using b(1) by (simp add: qsort_sort_def)
qed

text \<open>
  C9. The quick sort of \<open>qsort_main.c\<close> returns on every array of fewer than \<open>11 * 2 ^ 24\<close> elements, without reading or writing outside the array and without overrunning its stack of 50 pointers, and
  leaves the elements of the array in ascending order.
\<close>

theorem quick_sort_sorts:
  "length arr < 11 * 2 ^ 24 \<Longrightarrow> qsort_sort (length arr) arr = Some (sort arr)"
  by (rule qsort_sort_correct)

theorem quick_sort_sorts_witness:
  "qsort_sort 12 [9, 3, 7, -1, 3, 12, 0, 5, 4, 11, 2, 8] = Some [-1, 0, 2, 3, 3, 4, 5, 7, 8, 9, 11, 12]"
proof -
  have "length ([9, 3, 7, -1, 3, 12, 0, 5, 4, 11, 2, 8] :: int list) = 12" "sort ([9, 3, 7, -1, 3, 12, 0, 5, 4, 11, 2, 8] :: int list) = [-1, 0, 2, 3, 3, 4, 5, 7, 8, 9, 11, 12]"
    by simp_all
  then show ?thesis using quick_sort_sorts [of "[9, 3, 7, -1, 3, 12, 0, 5, 4, 11, 2, 8]"] by (simp only:) simp
qed

end
