(* ===== verification/BM_Radix.thy ===== *)
theory BM_Radix
  imports BM_Sort
begin

text \<open>
  The radix sort of the c-class benchmarks (\<open>src/cores/cclass/32bit/benchmarks/rsort/rsort.c\<close>): four
  passes over the bytes of the 32-bit elements, each a counting sort from \<open>arr\<close> into \<open>scratch\<close>, after
  which the two pointers change places.  The counters are \<open>size_t\<close>, 32 bits on the core.  A pointer \<open>p\<close> that
  runs downwards is the index one above it, so that the end of the loops at \<open>arr - 1\<close> is 0.
\<close>

subsection \<open>The code\<close>

definition LOG_BASE :: nat where "LOG_BASE = 8"
definition BASE :: nat where "BASE = 256"

definition bucket_index :: "nat \<Rightarrow> 32 word \<Rightarrow> nat" where
  "bucket_index log_exp a = unat (drop_bit log_exp a) mod BASE"

definition fetch_add :: "nat \<Rightarrow> 32 word \<Rightarrow> 32 word list \<Rightarrow> 32 word \<times> 32 word list" where
  "fetch_add k inc bucket = (let v = bucket ! k + inc in (v - inc, bucket[k := v]))"

text \<open>The histogram: four elements at a time, then the rest.\<close>

definition count_at :: "nat \<Rightarrow> 32 word \<Rightarrow> 32 word list \<Rightarrow> 32 word list" where
  "count_at log_exp a bucket = snd (fetch_add (bucket_index log_exp a) 1 bucket)"

function count_fours :: "nat \<Rightarrow> nat \<Rightarrow> 32 word list \<Rightarrow> nat \<Rightarrow> 32 word list \<Rightarrow> (nat \<times> 32 word list) option" where
  "count_fours log_exp n arr p bucket =
     (if p + 3 < n
      then Option.bind (get_at arr p) (\<lambda>a0. Option.bind (get_at arr (p + 1)) (\<lambda>a1.
           Option.bind (get_at arr (p + 2)) (\<lambda>a2. Option.bind (get_at arr (p + 3)) (\<lambda>a3.
           count_fours log_exp n arr (p + 4)
             (count_at log_exp a3 (count_at log_exp a2 (count_at log_exp a1 (count_at log_exp a0 bucket))))))))
      else Some (p, bucket))"
  by pat_completeness auto
termination by (relation "measure (\<lambda>(log_exp, n, arr, p, bucket). n - p)") auto

definition count_rest :: "nat \<Rightarrow> nat \<Rightarrow> 32 word list \<Rightarrow> nat \<Rightarrow> 32 word list \<Rightarrow> 32 word list option" where
  "count_rest log_exp n arr p bucket =
     for_each (\<lambda>p bucket. Option.bind (get_at arr p) (\<lambda>a. Some (count_at log_exp a bucket))) [p..<n] bucket"

text \<open>The running sums.\<close>

definition prefix_at :: "nat \<Rightarrow> 32 word \<times> 32 word list \<Rightarrow> 32 word \<times> 32 word list" where
  "prefix_at k = (\<lambda>(prev, bucket). let (old, bucket) = fetch_add k prev bucket in (prev + old, bucket))"

definition prefix_sums :: "32 word list \<Rightarrow> 32 word list" where
  "prefix_sums bucket =
     snd (fold (\<lambda>m s. prefix_at (2 * m + 1) (prefix_at (2 * m) s)) [1..<BASE div 2] (prefix_at 1 (bucket ! 0, bucket)))"

text \<open>The scatter from the end of the array.\<close>

definition put_before :: "32 word list \<Rightarrow> 32 word \<Rightarrow> 32 word \<Rightarrow> 32 word list option" where
  "put_before scratch s a = (if s = 0 then None else put_at scratch (unat s - 1) a)"

function scatter_fours ::
  "nat \<Rightarrow> 32 word list \<Rightarrow> nat \<Rightarrow> 32 word list \<Rightarrow> 32 word list \<Rightarrow> (nat \<times> 32 word list \<times> 32 word list) option" where
  "scatter_fours log_exp arr p bucket scratch =
     (if p \<ge> 4
      then Option.bind (get_at arr (p - 1)) (\<lambda>a0. Option.bind (get_at arr (p - 2)) (\<lambda>a1.
           Option.bind (get_at arr (p - 3)) (\<lambda>a2. Option.bind (get_at arr (p - 4)) (\<lambda>a3.
           let (s0, bucket) = fetch_add (bucket_index log_exp a0) (-1) bucket;
               (s1, bucket) = fetch_add (bucket_index log_exp a1) (-1) bucket;
               (s2, bucket) = fetch_add (bucket_index log_exp a2) (-1) bucket;
               (s3, bucket) = fetch_add (bucket_index log_exp a3) (-1) bucket
           in Option.bind (put_before scratch s0 a0) (\<lambda>scratch. Option.bind (put_before scratch s1 a1) (\<lambda>scratch.
              Option.bind (put_before scratch s2 a2) (\<lambda>scratch. Option.bind (put_before scratch s3 a3) (\<lambda>scratch.
              scatter_fours log_exp arr (p - 4) bucket scratch))))))))
      else Some (p, bucket, scratch))"
  by pat_completeness auto
termination by (relation "measure (\<lambda>(log_exp, arr, p, bucket, scratch). p)") auto

definition scatter_one ::
  "nat \<Rightarrow> 32 word list \<Rightarrow> nat \<Rightarrow> 32 word list \<times> 32 word list \<Rightarrow> (32 word list \<times> 32 word list) option" where
  "scatter_one log_exp arr p = (\<lambda>(bucket, scratch).
     Option.bind (get_at arr p) (\<lambda>a.
     let k = bucket_index log_exp a; v = bucket ! k - 1
     in Option.bind (put_at scratch (unat v) a) (\<lambda>scratch. Some (bucket[k := v], scratch))))"

definition scatter_rest ::
  "nat \<Rightarrow> 32 word list \<Rightarrow> nat \<Rightarrow> 32 word list \<times> 32 word list \<Rightarrow> (32 word list \<times> 32 word list) option" where
  "scatter_rest log_exp arr p s = for_each (scatter_one log_exp arr) (rev [0..<p]) s"

text \<open>One pass, and the loop over the passes.  The third component tells whether \<open>arr\<close> is \<open>arrIn\<close>.\<close>

definition radix_pass :: "nat \<Rightarrow> nat \<Rightarrow> 32 word list \<Rightarrow> 32 word list \<Rightarrow> 32 word list option" where
  "radix_pass log_exp n arr scratch =
     Option.bind (count_fours log_exp n arr 0 (replicate BASE 0)) (\<lambda>(p, bucket).
     Option.bind (count_rest log_exp n arr p bucket) (\<lambda>bucket.
     Option.bind (scatter_fours log_exp arr n (prefix_sums bucket) scratch) (\<lambda>(p, bucket, scratch).
     Option.bind (scatter_rest log_exp arr p (bucket, scratch)) (\<lambda>(bucket, scratch). Some scratch))))"

function radix_loop :: "nat \<Rightarrow> nat \<Rightarrow> 32 word list \<times> 32 word list \<times> bool \<Rightarrow> (32 word list \<times> 32 word list \<times> bool) option" where
  "radix_loop log_exp n (arr, scratch, in_place) =
     (if log_exp < 32
      then Option.bind (radix_pass log_exp n arr scratch) (\<lambda>scratch.
             radix_loop (log_exp + LOG_BASE) n (scratch, arr, \<not> in_place))
      else Some (arr, scratch, in_place))"
  by pat_completeness auto
termination by (relation "measure (\<lambda>(log_exp, n, s). 32 - log_exp)") (auto simp: LOG_BASE_def)

text \<open>The contents of \<open>arrIn\<close> and \<open>scratchIn\<close> in the end: after an odd number of passes the code copies
  \<open>scratch\<close>, which is then \<open>arrIn\<close>, over \<open>arr\<close>.\<close>

definition rsort_sort :: "nat \<Rightarrow> 32 word list \<Rightarrow> 32 word list \<Rightarrow> (32 word list \<times> 32 word list) option" where
  "rsort_sort n arrIn scratchIn =
     Option.bind (radix_loop 0 n (arrIn, scratchIn, True)) (\<lambda>(arr, scratch, in_place).
       if in_place then Some (arr, scratch) else Some (scratch, take n scratch @ drop n arr))"

subsection \<open>A reference: sorting by one byte\<close>

definition below :: "('a \<Rightarrow> nat) \<Rightarrow> 'a list \<Rightarrow> nat \<Rightarrow> nat" where
  "below f xs d = length (filter (\<lambda>x. f x < d) xs)"

definition equal_to :: "('a \<Rightarrow> nat) \<Rightarrow> 'a list \<Rightarrow> nat \<Rightarrow> nat" where
  "equal_to f xs d = length (filter (\<lambda>x. f x = d) xs)"

definition place :: "('a \<Rightarrow> nat) \<Rightarrow> 'a list \<Rightarrow> nat \<Rightarrow> nat" where
  "place f xs i = below f xs (f (xs ! i)) + equal_to f (take i xs) (f (xs ! i))"

lemma below_Suc: "below f xs (Suc d) = below f xs d + equal_to f xs d"
  by (induction xs) (auto simp: below_def equal_to_def less_Suc_eq)

lemma below_mono: "d \<le> e \<Longrightarrow> below f xs d \<le> below f xs e"
  by (induction xs) (auto simp: below_def)

lemma below_le: "below f xs d \<le> length xs"
  by (simp add: below_def)

lemma equal_to_take_Suc: "i < length xs \<Longrightarrow> equal_to f (take (Suc i) xs) d = equal_to f (take i xs) d + (if f (xs ! i) = d then 1 else 0)"
  by (simp add: take_Suc_conv_app_nth equal_to_def)

lemma equal_to_take_mono: "i \<le> j \<Longrightarrow> equal_to f (take i xs) d \<le> equal_to f (take j xs) d"
proof -
  assume "i \<le> j"
  then have "take j xs = take i xs @ take (j - i) (drop i xs)" by (metis le_add_diff_inverse take_add)
  then show ?thesis by (simp add: equal_to_def)
qed

lemma place_before:
  assumes "i < length xs"
  shows "place f xs i < below f xs (Suc (f (xs ! i)))"
proof -
  have "equal_to f (take i xs) (f (xs ! i)) < equal_to f (take (Suc i) xs) (f (xs ! i))"
    using assms by (simp add: equal_to_take_Suc)
  also have "\<dots> \<le> equal_to f (take (length xs) xs) (f (xs ! i))" by (rule equal_to_take_mono) (use assms in simp)
  finally show ?thesis by (simp add: place_def below_Suc)
qed

lemma place_less: "i < length xs \<Longrightarrow> place f xs i < length xs"
  using place_before below_le order_less_le_trans by metis

lemma place_inj: "inj_on (place f xs) {..<length xs}"
proof (rule inj_onI)
  fix i j assume h: "i \<in> {..<length xs}" "j \<in> {..<length xs}" "place f xs i = place f xs j"
  have apart: "place f xs i < place f xs j" if "f (xs ! i) < f (xs ! j)" "i < length xs" for i j
  proof -
    have "place f xs i < below f xs (Suc (f (xs ! i)))" by (rule place_before) (rule that)
    also have "\<dots> \<le> below f xs (f (xs ! j))" by (rule below_mono) (use that in simp)
    also have "\<dots> \<le> place f xs j" by (simp add: place_def)
    finally show ?thesis .
  qed
  have later: "place f xs i < place f xs j" if "f (xs ! i) = f (xs ! j)" "i < j" "j < length xs" for i j
  proof -
    have "equal_to f (take i xs) (f (xs ! j)) < equal_to f (take (Suc i) xs) (f (xs ! j))" using that by (simp add: equal_to_take_Suc)
    also have "\<dots> \<le> equal_to f (take j xs) (f (xs ! j))" by (rule equal_to_take_mono) (use that in simp)
    finally show ?thesis using that(1) by (simp add: place_def)
  qed
  show "i = j"
  proof (rule ccontr)
    assume "i \<noteq> j"
    then consider "f (xs ! i) < f (xs ! j)" | "f (xs ! j) < f (xs ! i)" | "f (xs ! i) = f (xs ! j)" "i < j" | "f (xs ! i) = f (xs ! j)" "j < i"
      by linarith
    then show False by cases (use h apart [of i j] apart [of j i] later [of i j] later [of j i] in simp_all)
  qed
qed

lemma place_image: "place f xs ` {..<length xs} = {..<length xs}"
  by (rule endo_inj_surj) (auto simp: place_less place_inj)

text \<open>The stable sort puts the element \<open>i\<close> at its place.\<close>

lemma sorted_split:
  "sorted (map f xs) \<Longrightarrow> xs = filter (\<lambda>x. f x < d) xs @ filter (\<lambda>x. f x = d) xs @ filter (\<lambda>x. d < f x) xs" for d :: nat
proof (induction xs)
  case (Cons x xs)
  then have le: "\<forall>y\<in>set xs. f x \<le> f y" by simp
  have ih: "xs = filter (\<lambda>x. f x < d) xs @ filter (\<lambda>x. f x = d) xs @ filter (\<lambda>x. d < f x) xs" using Cons by simp
  consider "f x < d" | "f x = d" | "d < f x" by linarith
  then show ?case
  proof cases
    case 1
    then show ?thesis using ih by simp
  next
    case 2
    then have "filter (\<lambda>x. f x < d) xs = []" using le by (auto simp: filter_empty_conv)
    then show ?thesis using ih 2 by simp
  next
    case 3
    then have "filter (\<lambda>x. f x < d) xs = []" "filter (\<lambda>x. f x = d) xs = []" using le by (auto simp: filter_empty_conv)
    then show ?thesis using ih 3 by simp
  qed
qed simp

lemma nth_filter_take:
  assumes "i < length xs" "P (xs ! i)"
  shows "filter P xs ! length (filter P (take i xs)) = xs ! i" "length (filter P (take i xs)) < length (filter P xs)"
proof -
  have "filter P xs = filter P (take i xs) @ xs ! i # filter P (drop (Suc i) xs)"
    using assms by (subst id_take_nth_drop [OF assms(1)]) simp
  then show "filter P xs ! length (filter P (take i xs)) = xs ! i" "length (filter P (take i xs)) < length (filter P xs)"
    by simp_all
qed

lemma sort_key_place:
  assumes "i < length xs"
  shows "sort_key f xs ! place f xs i = xs ! i"
proof -
  define d where "d = f (xs ! i)"
  define T where "T = sort_key f xs"
  have T: "T = filter (\<lambda>x. f x < d) T @ filter (\<lambda>x. f x = d) T @ filter (\<lambda>x. d < f x) T"
    by (rule sorted_split) (simp add: T_def)
  have "mset (filter (\<lambda>x. f x < d) T) = mset (filter (\<lambda>x. f x < d) xs)" by (simp add: T_def)
  then have n: "length (filter (\<lambda>x. f x < d) T) = below f xs d" unfolding below_def by (metis size_mset)
  have e: "filter (\<lambda>x. f x = d) T = filter (\<lambda>x. f x = d) xs" by (simp add: T_def sort_key_stable)
  have "T ! (below f xs d + k) = filter (\<lambda>x. f x = d) xs ! k" if "k < length (filter (\<lambda>x. f x = d) xs)" for k
    by (subst T) (use that n e in \<open>simp add: nth_append\<close>)
  then show ?thesis
    using nth_filter_take [of i xs "\<lambda>x. f x = d"] assms by (simp add: place_def T_def [symmetric] d_def [symmetric] equal_to_def)
qed

subsection \<open>One pass\<close>

definition table :: "(nat \<Rightarrow> nat) \<Rightarrow> 32 word list" where
  "table g = map (\<lambda>d. of_nat (g d)) [0..<BASE]"

lemma bucket_index_less: "bucket_index e a < BASE"
  by (simp add: bucket_index_def BASE_def)

lemma table_nth: "k < BASE \<Longrightarrow> table g ! k = of_nat (g k)"
  by (simp add: table_def)

lemma table_update: "k < BASE \<Longrightarrow> v = of_nat c \<Longrightarrow> (table g)[k := v] = table (g(k := c))"
  by (rule nth_equalityI) (auto simp: table_def nth_list_update)

lemma table_cong: "(\<And>d. d < BASE \<Longrightarrow> g d = h d) \<Longrightarrow> table g = table h"
  by (simp add: table_def)

lemma count_at_table:
  "p < length arr \<Longrightarrow> count_at e (arr ! p) (table (equal_to (bucket_index e) (take p arr))) = table (equal_to (bucket_index e) (take (Suc p) arr))"
  unfolding count_at_def fetch_add_def Let_def snd_conv
  by (subst table_update [where c = "equal_to (bucket_index e) (take p arr) (bucket_index e (arr ! p)) + 1"])
    (auto simp: table_nth bucket_index_less equal_to_take_Suc intro!: table_cong)

declare count_fours.simps [simp del] scatter_fours.simps [simp del]

lemma count_fours_correct:
  "p \<le> length arr \<Longrightarrow>
    \<exists>q \<le> length arr. count_fours e (length arr) arr p (table (equal_to (bucket_index e) (take p arr))) =
      Some (q, table (equal_to (bucket_index e) (take q arr)))"
proof (induction "length arr - p" arbitrary: p rule: less_induct)
  case less
  show ?case
  proof (cases "p + 3 < length arr")
    case True
    have "count_fours e (length arr) arr p (table (equal_to (bucket_index e) (take p arr))) =
        count_fours e (length arr) arr (p + 4) (table (equal_to (bucket_index e) (take (p + 4) arr)))"
      using True count_at_table [of p arr e] count_at_table [of "p + 1" arr e] count_at_table [of "p + 2" arr e] count_at_table [of "p + 3" arr e]
      by (subst count_fours.simps) (simp add: get_at_def eval_nat_numeral)
    then show ?thesis using less(1) [of "p + 4"] True by simp
  next
    case False
    then show ?thesis using less.prems by (subst count_fours.simps) auto
  qed
qed

lemma count_rest_correct:
  "p \<le> q \<Longrightarrow> q \<le> length arr \<Longrightarrow>
    count_rest e q arr p (table (equal_to (bucket_index e) (take p arr))) = Some (table (equal_to (bucket_index e) (take q arr)))"
proof (induction q)
  case (Suc q)
  show ?case
  proof (cases "p = Suc q")
    case False
    then have "[p..<Suc q] = [p..<q] @ [q]" "p \<le> q" using Suc.prems by simp_all
    then show ?thesis using Suc count_at_table [of q arr e] by (simp add: count_rest_def for_each_append get_at_def)
  qed (simp add: count_rest_def)
qed (simp add: count_rest_def)

lemma prefix_at_table:
  assumes "k < BASE"
  shows "prefix_at k (of_nat (below f arr k), table (\<lambda>d. if d < k then below f arr (Suc d) else equal_to f arr d)) =
    (of_nat (below f arr (Suc k)), table (\<lambda>d. if d < Suc k then below f arr (Suc d) else equal_to f arr d))"
  using assms unfolding prefix_at_def fetch_add_def Let_def split
  by (subst table_update [where c = "below f arr (Suc k)"])
    (auto simp: table_nth below_Suc intro!: table_cong)

lemma prefix_sums_table: "prefix_sums (table (equal_to f arr)) = table (\<lambda>d. below f arr (Suc d))"
proof -
  define st where "st k = (of_nat (below f arr k) :: 32 word, table (\<lambda>d. if d < k then below f arr (Suc d) else equal_to f arr d))" for k
  have step: "prefix_at k (st k) = st (Suc k)" if "k < BASE" for k
    using prefix_at_table [OF that] by (simp add: st_def)
  have "(table (equal_to f arr) ! 0, table (equal_to f arr)) = st 1"
    by (simp add: st_def table_nth BASE_def below_Suc) (auto simp: below_def equal_to_def below_Suc intro!: table_cong)
  then have start: "prefix_at 1 (table (equal_to f arr) ! 0, table (equal_to f arr)) = st 2"
    using step [of 1] by (simp add: BASE_def eval_nat_numeral)
  have "fold (\<lambda>m s. prefix_at (2 * m + 1) (prefix_at (2 * m) s)) [1..<m] (st 2) = st (2 * m)" if "1 \<le> m" "2 * m \<le> BASE" for m
    using that
  proof (induction m rule: dec_induct)
    case (step m)
    then show ?case using \<open>\<And>k. k < BASE \<Longrightarrow> prefix_at k (st k) = st (Suc k)\<close> by simp
  qed (simp add: eval_nat_numeral)
  from this [of "BASE div 2"] show ?thesis
    unfolding prefix_sums_def start by (simp add: st_def BASE_def) (auto simp: BASE_def intro!: table_cong)
qed

text \<open>The scatter: with the elements before \<open>p\<close> still to place, every counter is one past the place of the last
  of them with its byte, and every element from \<open>p\<close> on is at its place.\<close>

definition scatter_buckets :: "nat \<Rightarrow> 32 word list \<Rightarrow> nat \<Rightarrow> 32 word list" where
  "scatter_buckets e arr p = table (\<lambda>d. below (bucket_index e) arr d + equal_to (bucket_index e) (take p arr) d)"

definition placed :: "nat \<Rightarrow> 32 word list \<Rightarrow> nat \<Rightarrow> 32 word list \<Rightarrow> bool" where
  "placed e arr p scratch \<longleftrightarrow> length scratch = length arr \<and>
     (\<forall>i. p \<le> i \<and> i < length arr \<longrightarrow> scratch ! place (bucket_index e) arr i = sort_key (bucket_index e) arr ! place (bucket_index e) arr i)"

lemma fetch_scatter:
  assumes "i < length arr"
  shows "fetch_add (bucket_index e (arr ! i)) (-1) (scatter_buckets e arr (Suc i)) =
    (of_nat (Suc (place (bucket_index e) arr i)), scatter_buckets e arr i)"
proof -
  have "scatter_buckets e arr (Suc i) ! bucket_index e (arr ! i) = of_nat (Suc (place (bucket_index e) arr i))"
    using assms by (simp add: scatter_buckets_def table_nth bucket_index_less equal_to_take_Suc place_def)
  moreover have "(scatter_buckets e arr (Suc i)) [bucket_index e (arr ! i) := of_nat (Suc (place (bucket_index e) arr i)) - 1] = scatter_buckets e arr i"
    unfolding scatter_buckets_def
    by (subst table_update [where c = "place (bucket_index e) arr i"])
      (use assms in \<open>auto simp: bucket_index_less equal_to_take_Suc place_def intro!: table_cong\<close>)
  ultimately show ?thesis unfolding fetch_add_def Let_def by simp
qed

lemma placed_step:
  assumes "i < length arr" "placed e arr (Suc i) scratch"
  shows "placed e arr i (scratch[place (bucket_index e) arr i := arr ! i])"
  unfolding placed_def
proof (intro conjI allI impI)
  show "length (scratch[place (bucket_index e) arr i := arr ! i]) = length arr" using assms by (simp add: placed_def)
  fix j assume j: "i \<le> j \<and> j < length arr"
  show "scratch[place (bucket_index e) arr i := arr ! i] ! place (bucket_index e) arr j = sort_key (bucket_index e) arr ! place (bucket_index e) arr j"
  proof (cases "place (bucket_index e) arr i = place (bucket_index e) arr j")
    case True
    then show ?thesis
      using assms(2) place_less [OF assms(1), of "bucket_index e"] sort_key_place [OF assms(1), of "bucket_index e"] by (simp add: placed_def)
  next
    case False
    then have "Suc i \<le> j" using j by (auto simp: le_less)
    then show ?thesis using assms(2) j False by (simp add: placed_def)
  qed
qed

lemma unat_place:
  assumes "i < length arr" "length arr < 2 ^ 32"
  shows "unat (of_nat (Suc (place f arr i)) :: 32 word) = Suc (place f arr i)" "unat (of_nat (place f arr i) :: 32 word) = place f arr i"
    "of_nat (Suc (place f arr i)) \<noteq> (0 :: 32 word)"
proof -
  have p: "Suc (place f arr i) < 2 ^ 32" using place_less [OF assms(1), of f] assms(2) by linarith
  then show u: "unat (of_nat (Suc (place f arr i)) :: 32 word) = Suc (place f arr i)"
    "unat (of_nat (place f arr i) :: 32 word) = place f arr i"
    by (simp_all only: unat_of_nat take_bit_nat_eq_self_iff len_bit0 len_num1) (simp_all add: take_bit_nat_eq_self)
  from u(1) show "of_nat (Suc (place f arr i)) \<noteq> (0 :: 32 word)" by (metis unat_0 nat.simps(3))
qed

lemma put_scatter:
  assumes "i < length arr" "length arr < 2 ^ 32" "length scratch = length arr"
  shows "put_before scratch (of_nat (Suc (place f arr i))) a = Some (scratch[place f arr i := a])"
  using unat_place [OF assms(1,2), of f] place_less [OF assms(1), of f] assms(3)
  unfolding put_before_def put_at_def by simp

lemma scatter_one_correct:
  assumes "i < length arr" "length arr < 2 ^ 32" "placed e arr (Suc i) scratch"
  shows "\<exists>scratch'. scatter_one e arr i (scatter_buckets e arr (Suc i), scratch) = Some (scatter_buckets e arr i, scratch') \<and> placed e arr i scratch'"
proof -
  have "bucket_index e (arr ! i) < BASE" by (rule bucket_index_less)
  then have "scatter_buckets e arr (Suc i) ! bucket_index e (arr ! i) - 1 = of_nat (place (bucket_index e) arr i)"
    using assms(1) by (simp add: scatter_buckets_def table_nth equal_to_take_Suc place_def)
  moreover from this have "(scatter_buckets e arr (Suc i)) [bucket_index e (arr ! i) := of_nat (place (bucket_index e) arr i)] = scatter_buckets e arr i"
    using fetch_scatter [OF assms(1), of e] by (simp add: fetch_add_def Let_def)
  ultimately show ?thesis
    using assms placed_step [OF assms(1,3)] unat_place(2) [OF assms(1,2)] place_less [OF assms(1), of "bucket_index e"]
    by (simp add: scatter_one_def get_at_def put_at_def Let_def placed_def)
qed

lemma scatter_rest_correct:
  "p \<le> length arr \<Longrightarrow> length arr < 2 ^ 32 \<Longrightarrow> placed e arr p scratch \<Longrightarrow>
    \<exists>bucket scratch'. scatter_rest e arr p (scatter_buckets e arr p, scratch) = Some (bucket, scratch') \<and> placed e arr 0 scratch'"
proof (induction p arbitrary: scratch)
  case (Suc p)
  then obtain s' where "scatter_one e arr p (scatter_buckets e arr (Suc p), scratch) = Some (scatter_buckets e arr p, s')" "placed e arr p s'"
    using scatter_one_correct [of p arr e scratch] by auto
  then show ?case using Suc by (simp add: scatter_rest_def)
qed (simp add: scatter_rest_def)

lemma scatter_fours_correct:
  "p \<le> length arr \<Longrightarrow> length arr < 2 ^ 32 \<Longrightarrow> placed e arr p scratch \<Longrightarrow>
    \<exists>q scratch'. scatter_fours e arr p (scatter_buckets e arr p) scratch = Some (q, scatter_buckets e arr q, scratch') \<and>
      q \<le> length arr \<and> placed e arr q scratch'"
proof (induction p arbitrary: scratch rule: less_induct)
  case (less p)
  show ?case
  proof (cases "p \<ge> 4")
    case True
    then have "p = Suc (Suc (Suc (Suc (p - 4))))" by simp
    then obtain k where p: "p = Suc (Suc (Suc (Suc k)))" by blast
    have n: "k < length arr" "Suc k < length arr" "Suc (Suc k) < length arr" "Suc (Suc (Suc k)) < length arr" using less.prems(1) p by simp_all
    note ix = p less.prems(2)
    define put where "put i s = s[place (bucket_index e) arr i := arr ! i]" for i s
    have step: "placed e arr i (put i s)" if "placed e arr (Suc i) s" "i < length arr" for i s
      unfolding put_def by (rule placed_step [OF that(2,1)])
    have pb: "put_before s (of_nat (Suc (place (bucket_index e) arr i))) (arr ! i) = Some (put i s)" if "placed e arr j s" "i < length arr" for i j s
      using put_scatter [OF that(2) less.prems(2)] that(1) by (simp add: placed_def put_def)
    define s1 s2 s3 s4 where "s1 = put (Suc (Suc (Suc k))) scratch" and "s2 = put (Suc (Suc k)) s1" and "s3 = put (Suc k) s2" and "s4 = put k s3"
    have s: "placed e arr (Suc (Suc (Suc k))) s1" "placed e arr (Suc (Suc k)) s2" "placed e arr (Suc k) s3" "placed e arr k s4"
      unfolding s1_def s2_def s3_def s4_def using step n less.prems(3) p by simp_all
    have "scatter_fours e arr p (scatter_buckets e arr p) scratch = scatter_fours e arr k (scatter_buckets e arr k) s4"
      using True n fetch_scatter [OF n(1), of e] fetch_scatter [OF n(2), of e] fetch_scatter [OF n(3), of e] fetch_scatter [OF n(4), of e]
        pb [OF less.prems(3) n(4)] pb [OF s(1) n(3)] pb [OF s(2) n(2)] pb [OF s(3) n(1)]
      by (subst scatter_fours.simps)
        (simp add: p get_at_def Let_def s1_def [symmetric] s2_def [symmetric] s3_def [symmetric] s4_def [symmetric] del: of_nat_Suc)
    then show ?thesis using less.IH [of k s4] s(4) less.prems(2) n(1) p by simp
  next
    case False
    then show ?thesis using less.prems by (subst scatter_fours.simps) auto
  qed
qed

lemma placed_all: "placed e arr 0 scratch \<Longrightarrow> scratch = sort_key (bucket_index e) arr"
proof (rule nth_equalityI)
  assume h: "placed e arr 0 scratch"
  then show "length scratch = length (sort_key (bucket_index e) arr)" by (simp add: placed_def)
  fix p assume "p < length scratch"
  then have "p \<in> place (bucket_index e) arr ` {..<length arr}" using h by (simp add: place_image placed_def)
  then show "scratch ! p = sort_key (bucket_index e) arr ! p" using h by (auto simp: placed_def)
qed

lemma radix_pass_correct:
  assumes "length arr < 2 ^ 32" "length scratch = length arr"
  shows "radix_pass e (length arr) arr scratch = Some (sort_key (bucket_index e) arr)"
proof -
  have zero: "replicate BASE 0 = table (equal_to (bucket_index e) (take 0 arr))"
    by (rule nth_equalityI) (simp_all add: table_def equal_to_def)
  obtain p where p: "p \<le> length arr" "count_fours e (length arr) arr 0 (replicate BASE 0) = Some (p, table (equal_to (bucket_index e) (take p arr)))"
    unfolding zero using count_fours_correct [of 0 arr e] by auto
  have c: "count_rest e (length arr) arr p (table (equal_to (bucket_index e) (take p arr))) = Some (table (equal_to (bucket_index e) arr))"
    using count_rest_correct [OF p(1) order_refl] by simp
  have b: "prefix_sums (table (equal_to (bucket_index e) arr)) = scatter_buckets e arr (length arr)"
    by (simp add: prefix_sums_table scatter_buckets_def below_Suc)
  have "placed e arr (length arr) scratch" using assms(2) by (auto simp: placed_def)
  then obtain q s where s: "scatter_fours e arr (length arr) (scatter_buckets e arr (length arr)) scratch = Some (q, scatter_buckets e arr q, s)"
    "q \<le> length arr" "placed e arr q s"
    using scatter_fours_correct [OF order_refl assms(1)] by blast
  obtain bucket t where t: "scatter_rest e arr q (scatter_buckets e arr q, s) = Some (bucket, t)" "placed e arr 0 t"
    using scatter_rest_correct [OF s(2) assms(1) s(3)] by blast
  show ?thesis using p(2) c s(1) t(1) placed_all [OF t(2)] by (simp add: radix_pass_def b)
qed

subsection \<open>The four passes\<close>

declare radix_loop.simps [simp del]

lemma radix_loop_step:
  "e < 32 \<Longrightarrow> length arr < 2 ^ 32 \<Longrightarrow> length scratch = length arr \<Longrightarrow>
    radix_loop e (length arr) (arr, scratch, b) = radix_loop (e + LOG_BASE) (length arr) (sort_key (bucket_index e) arr, arr, \<not> b)"
  by (subst radix_loop.simps) (simp add: radix_pass_correct)

lemma insort_key_lex:
  fixes f g :: "'a \<Rightarrow> nat"
  shows
  "\<lbrakk>sorted_wrt (\<lambda>x y. f x \<le> f y \<and> (f x = f y \<longrightarrow> g x \<le> g y)) xs; \<forall>y\<in>set xs. g x \<le> g y\<rbrakk> \<Longrightarrow>
    sorted_wrt (\<lambda>x y. f x \<le> f y \<and> (f x = f y \<longrightarrow> g x \<le> g y)) (insort_key f x xs)"
  by (induction xs) (auto simp: set_insort_key)

text \<open>Sorting by one key after another orders by the last key first.\<close>

lemma sort_key_lex:
  fixes f g :: "'a \<Rightarrow> nat"
  shows
  "sorted (map g xs) \<Longrightarrow> sorted_wrt (\<lambda>x y. f x \<le> f y \<and> (f x = f y \<longrightarrow> g x \<le> g y)) (sort_key f xs)"
  by (induction xs) (auto intro!: insort_key_lex)

lemma sort_key_digits:
  fixes f g :: "'a \<Rightarrow> nat"
  assumes "\<forall>x. g x < B"
  shows "sort_key f (sort_key g xs) = sort_key (\<lambda>x. f x * B + g x) xs"
proof (rule properties_for_sort_key [symmetric])
  show "mset (sort_key f (sort_key g xs)) = mset xs" by simp
  have high: "(f z * B + g z) div B = f z" for z
    using assms [rule_format, of z] by (simp add: div_mult_self3)
  show "filter (\<lambda>y. f x * B + g x = f y * B + g y) (sort_key f (sort_key g xs)) = filter (\<lambda>y. f x * B + g x = f y * B + g y) xs"
    if "x \<in> set (sort_key f (sort_key g xs))" for x
  proof -
    have "(f x * B + g x = f y * B + g y) \<longleftrightarrow> f y = f x \<and> g y = g x" for y
    proof
      assume h: "f x * B + g x = f y * B + g y"
      then have "f x = f y" using high [of x] high [of y] by simp
      then show "f y = f x \<and> g y = g x" using h by simp
    qed simp
    then have e: "filter (\<lambda>y. f x * B + g x = f y * B + g y) zs = filter (\<lambda>y. g y = g x) (filter (\<lambda>y. f y = f x) zs)" for zs
      by (induction zs) auto
    have c: "filter (\<lambda>y. g y = g x) (filter (\<lambda>y. f y = f x) zs) = filter (\<lambda>y. f y = f x) (filter (\<lambda>y. g y = g x) zs)" for zs
      by (induction zs) auto
    show ?thesis unfolding e unfolding sort_key_stable c unfolding sort_key_stable ..
  qed
  show "sorted (map (\<lambda>x. f x * B + g x) (sort_key f (sort_key g xs)))"
    unfolding sorted_map
  proof (rule sorted_wrt_mono_rel [OF _ sort_key_lex [OF sorted_sort_key]])
    fix x y assume h: "f x \<le> f y \<and> (f x = f y \<longrightarrow> g x \<le> g y)"
    show "f x * B + g x \<le> f y * B + g y"
    proof (cases "f x = f y")
      case False
      then have "Suc (f x) * B \<le> f y * B" using h by (intro mult_le_mono1) simp
      then show ?thesis using assms [rule_format, of x] by simp
    qed (use h in simp)
  qed
qed

lemma bytes_compose: "bucket_index (e + 8) a * (2 ^ 8 * 2 ^ e) + unat a mod (2 ^ 8 * 2 ^ e) = unat a mod (2 ^ 8 * (2 ^ 8 * 2 ^ e))"
proof -
  have "bucket_index (e + 8) a = (unat a div (2 ^ 8 * 2 ^ e)) mod 2 ^ 8"
    unfolding bucket_index_def BASE_def unat_drop_bit_eq
    unfolding drop_bit_eq_div by (simp add: power_add mult.commute)
  then show ?thesis using mod_mult2_eq [of "unat a" "2 ^ 8 * 2 ^ e" "2 ^ 8"] by (simp only: mult.commute)
qed

lemma four_passes:
  "sort_key (bucket_index 24) (sort_key (bucket_index 16) (sort_key (bucket_index 8) (sort_key (bucket_index 0) arr))) = sort arr"
proof -
  have b0: "sort_key (bucket_index 0) arr = sort_key (\<lambda>a. unat a mod 2 ^ 8) arr" for arr
    by (rule arg_cong [where f = "\<lambda>h. sort_key h arr"]) (simp add: fun_eq_iff bucket_index_def BASE_def)
  have up: "sort_key (bucket_index (e + 8)) (sort_key (\<lambda>a. unat a mod (2 ^ 8 * 2 ^ e)) arr) = sort_key (\<lambda>a. unat a mod (2 ^ 8 * (2 ^ 8 * 2 ^ e))) arr" for e arr
  proof -
    have "\<forall>a. unat a mod (2 ^ 8 * 2 ^ e) < 2 ^ 8 * 2 ^ e" by simp
    from sort_key_digits [OF this, of "bucket_index (e + 8)" arr] show ?thesis by (simp only: bytes_compose)
  qed
  have "sort_key (\<lambda>a :: 32 word. unat a mod (2 ^ 8 * (2 ^ 8 * 2 ^ 16))) arr = sort_key unat arr"
    by (rule arg_cong [where f = "\<lambda>h. sort_key h arr"]) (simp add: fun_eq_iff unsigned_less [where 'b = 32, simplified])
  moreover have "sort_key unat arr = sort arr"
  proof (rule properties_for_sort [symmetric])
    show "mset (sort_key unat arr) = mset arr" by simp
    have "sorted (map unat (sort_key unat arr))" by (rule sorted_sort_key)
    then show "sorted (sort_key unat arr)" unfolding sorted_map by (simp only: word_le_nat_alt [symmetric])
  qed
  ultimately show ?thesis
    using up [of 0 arr] up [of 8 arr] up [of 16 arr] b0 [of arr] by simp
qed

lemma rsort_sort_runs:
  "length arr < 2 ^ 32 \<Longrightarrow> length scratch = length arr \<Longrightarrow>
    \<exists>scratch'. rsort_sort (length arr) arr scratch = Some (sort arr, scratch') \<and> length scratch' = length arr"
proof -
  assume h: "length arr < 2 ^ 32" "length scratch = length arr"
  define a1 a2 a3 where "a1 = sort_key (bucket_index 0) arr" and "a2 = sort_key (bucket_index 8) a1" and "a3 = sort_key (bucket_index 16) a2"
  have n: "length a1 = length arr" "length a2 = length arr" "length a3 = length arr" by (simp_all add: a1_def a2_def a3_def)
  have "radix_loop 0 (length arr) (arr, scratch, True) = radix_loop 8 (length arr) (a1, arr, False)"
    using radix_loop_step [of 0 arr scratch True, OF _ h] by (simp add: LOG_BASE_def a1_def [symmetric])
  also have "\<dots> = radix_loop 16 (length arr) (a2, a1, True)"
    using radix_loop_step [of 8 a1 arr False, unfolded n, OF _ h(1) refl] by (simp add: LOG_BASE_def a2_def [symmetric])
  also have "\<dots> = radix_loop 24 (length arr) (a3, a2, False)"
    using radix_loop_step [of 16 a2 a1 True, unfolded n, OF _ h(1) refl] by (simp add: LOG_BASE_def a3_def [symmetric])
  also have "\<dots> = radix_loop 32 (length arr) (sort_key (bucket_index 24) a3, a3, True)"
    using radix_loop_step [of 24 a3 a2 False, unfolded n, OF _ h(1) refl] by (simp add: LOG_BASE_def)
  also have "\<dots> = Some (sort arr, a3, True)"
    by (subst radix_loop.simps) (simp add: a3_def a2_def a1_def four_passes)
  finally show ?thesis using n(3) by (simp add: rsort_sort_def)
qed

lemma rsort_sort_correct:
  "length arr < 2 ^ 32 \<Longrightarrow> length scratch = length arr \<Longrightarrow> map_option fst (rsort_sort (length arr) arr scratch) = Some (sort arr)"
  using rsort_sort_runs [of arr scratch] by auto

text \<open>
  C13. The radix sort of \<open>rsort.c\<close>, four passes of a counting sort on the bytes of the elements with 32-bit counters, leaves the array
  in the ascending order of its elements as unsigned integers, for every array of fewer than \<open>2 ^ 32\<close> elements, without an
  access outside the array or the scratch array.
\<close>

theorem radix_sort_sorts:
  "length arr < 2 ^ 32 \<Longrightarrow> length scratch = length arr \<Longrightarrow> map_option fst (rsort_sort (length arr) arr scratch) = Some (sort arr)"
  by (rule rsort_sort_correct)

theorem radix_sort_sorts_witness:
  "map_option fst (rsort_sort 5 [0x80000000, 7, 0x1FF, 0xFFFFFFFF, 3] [0, 0, 0, 0, 0]) = Some [3, 7, 0x1FF, 0x80000000, 0xFFFFFFFF]"
proof -
  have "length ([0x80000000, 7, 0x1FF, 0xFFFFFFFF, 3] :: 32 word list) = 5" "length ([0, 0, 0, 0, 0] :: 32 word list) = 5"
    "sort ([0x80000000, 7, 0x1FF, 0xFFFFFFFF, 3] :: 32 word list) = [3, 7, 0x1FF, 0x80000000, 0xFFFFFFFF]"
    by simp_all
  then show ?thesis using radix_sort_sorts [of "[0x80000000, 7, 0x1FF, 0xFFFFFFFF, 3]" "[0, 0, 0, 0, 0]"] by (simp only:) simp
qed

end
