(* ===== verification/BM_Programs.thy ===== *)
theory BM_Programs
  imports BM_Radix
begin

text \<open>
  The benchmark programs over arrays (\<open>src/cores/cclass/32bit/benchmarks\<close>): the comparison with the reference
  data that gives every program its exit code (\<open>common/util.h\<close>), the median filter, the software
  multiplication and the vector addition, and the programs that sort.  The interface \<open>array_sorter\<close> is what
  the program around a sort relies on; both sorts of the benchmarks provide it.
\<close>

unbundle bit_operations_syntax

subsection \<open>The check of the results\<close>

text \<open>\<open>verify\<close>: 0 when the arrays agree, else one more than the index of the first difference.\<close>

function verify_pairs :: "nat \<Rightarrow> nat \<Rightarrow> 'a list \<Rightarrow> 'a list \<Rightarrow> nat option" where
  "verify_pairs n i test ref =
     (if i < n div 2 * 2
      then Option.bind (get_at test i) (\<lambda>t0. Option.bind (get_at test (i + 1)) (\<lambda>t1.
           Option.bind (get_at ref i) (\<lambda>v0. Option.bind (get_at ref (i + 1)) (\<lambda>v1.
           if t0 \<noteq> v0 then Some (i + 1)
           else if t1 \<noteq> v1 then Some (i + 2)
           else verify_pairs n (i + 2) test ref))))
      else if n mod 2 \<noteq> 0
      then Option.bind (get_at test (n - 1)) (\<lambda>t. Option.bind (get_at ref (n - 1)) (\<lambda>v.
           Some (if t \<noteq> v then n else 0)))
      else Some 0)"
  by pat_completeness auto
termination by (relation "measure (\<lambda>(n, i, test, ref). n - i)") auto

definition verify :: "nat \<Rightarrow> 'a list \<Rightarrow> 'a list \<Rightarrow> nat option" where
  "verify n test ref = verify_pairs n 0 test ref"

declare verify_pairs.simps [simp del]

text \<open>What \<open>verify\<close> promises.\<close>

definition first_difference :: "'a list \<Rightarrow> 'a list \<Rightarrow> nat" where
  "first_difference xs ys = length (takeWhile (\<lambda>(x, y). x = y) (zip xs ys))"

lemma first_difference_Cons:
  "first_difference (x # xs) (y # ys) = (if x = y then Suc (first_difference xs ys) else 0)"
  by (simp add: first_difference_def)

lemma first_difference_all: "length xs = length ys \<Longrightarrow> first_difference xs ys = length xs \<longleftrightarrow> xs = ys"
proof (induction xs arbitrary: ys)
  case (Cons x xs)
  then show ?case by (cases ys) (auto simp: first_difference_Cons)
qed (simp add: first_difference_def)

lemma verify_pairs_correct:
  "length test = n \<Longrightarrow> length ref = n \<Longrightarrow> even i \<Longrightarrow> i \<le> n \<Longrightarrow>
    verify_pairs n i test ref =
      Some (if drop i test = drop i ref then 0 else i + first_difference (drop i test) (drop i ref) + 1)"
proof (induction "n - i" arbitrary: i rule: less_induct)
  case less
  show ?case
  proof (cases "i < n div 2 * 2")
    case True
    then have n: "i + 1 < n" using less.prems(3) by presburger
    have d: "drop i xs = xs ! i # xs ! (i + 1) # drop (i + 2) xs" if "length xs = n" for xs :: "'a list"
      using that n by (simp add: Cons_nth_drop_Suc)
    have ih: "verify_pairs n (i + 2) test ref =
      Some (if drop (i + 2) test = drop (i + 2) ref then 0 else i + 2 + first_difference (drop (i + 2) test) (drop (i + 2) ref) + 1)"
      by (rule less.hyps) (use less.prems n in auto)
    show ?thesis
      unfolding d [OF less.prems(1)] d [OF less.prems(2)]
      using True n less.prems(1,2) ih
      by (subst verify_pairs.simps) (simp add: get_at_def first_difference_Cons)
  next
    case False
    show ?thesis
    proof (cases "n mod 2 = 0")
      case True
      then have "i = n" using False less.prems(4) by presburger
      then show ?thesis using False True less.prems(1,2) by (subst verify_pairs.simps) simp
    next
      case odd: False
      then have i: "i = n - 1" "i < n" using False less.prems(3,4) by presburger+
      have d: "drop (n - 1) xs = [xs ! (n - 1)]" if "length xs = n" for xs :: "'a list"
        using that i Cons_nth_drop_Suc [of "n - 1" xs] by (simp add: Suc_leI)
      show ?thesis
        unfolding i(1) d [OF less.prems(1)] d [OF less.prems(2)]
        using False i odd less.prems(1,2) by (subst verify_pairs.simps) (simp add: get_at_def first_difference_def)
    qed
  qed
qed

lemma verify_correct:
  "length test = n \<Longrightarrow> length ref = n \<Longrightarrow> verify n test ref = Some (if test = ref then 0 else first_difference test ref + 1)"
  using verify_pairs_correct [of test n ref 0] by (simp add: verify_def)

subsection \<open>The median filter\<close>

definition median3 :: "int \<Rightarrow> int \<Rightarrow> int \<Rightarrow> int" where
  "median3 A B C =
     (if A < B then (if B < C then B else if C < A then A else C)
      else (if A < C then A else if C < B then B else C))"

definition median :: "nat \<Rightarrow> int list \<Rightarrow> int list \<Rightarrow> int list option" where
  "median n input results =
     Option.bind (put_at results 0 0) (\<lambda>results.
     Option.bind (if n = 0 then None else put_at results (n - 1) 0) (\<lambda>results.
     for_each (\<lambda>i results.
         Option.bind (get_at input (i - 1)) (\<lambda>A. Option.bind (get_at input i) (\<lambda>B.
         Option.bind (get_at input (i + 1)) (\<lambda>C. put_at results i (median3 A B C)))))
       [1..<n - 1] results))"

text \<open>The middle one of three: the second of the three in order.\<close>

lemma median3_correct: "median3 A B C = sort [A, B, C] ! 1"
  by (auto simp: median3_def)

lemma for_each_puts:
  assumes "\<And>i s. i \<in> set is \<Longrightarrow> length s = n \<Longrightarrow> f i s = Some (s[i := g i])" "length s = n" "distinct is" "\<forall>i\<in>set is. i < n"
  shows "\<exists>s'. for_each f is s = Some s' \<and> length s' = n \<and> (\<forall>i\<in>set is. s' ! i = g i) \<and> (\<forall>i. i \<notin> set is \<longrightarrow> s' ! i = s ! i)"
  using assms
proof (induction "is" arbitrary: s)
  case (Cons i "is")
  have "\<exists>s'. for_each f is (s[i := g i]) = Some s' \<and> length s' = n \<and> (\<forall>j\<in>set is. s' ! j = g j) \<and> (\<forall>j. j \<notin> set is \<longrightarrow> s' ! j = s[i := g i] ! j)"
    by (rule Cons.IH) (use Cons.prems in auto)
  then obtain s' where "for_each f is (s[i := g i]) = Some s'" "length s' = n" "\<forall>j\<in>set is. s' ! j = g j" "\<forall>j. j \<notin> set is \<longrightarrow> s' ! j = s[i := g i] ! j"
    by blast
  then show ?case using Cons.prems by (intro exI [of _ s']) auto
qed simp

lemma median_correct:
  assumes "0 < n" "length input = n" "length results = n"
  shows "median n input results = Some (map (\<lambda>i. if i = 0 \<or> i = n - 1 then 0 else sort [input ! (i - 1), input ! i, input ! (i + 1)] ! 1) [0..<n])"
proof -
  define f where "f = (\<lambda>i results. Option.bind (get_at input (i - 1)) (\<lambda>A. Option.bind (get_at input i) (\<lambda>B.
         Option.bind (get_at input (i + 1)) (\<lambda>C. put_at results i (median3 A B C)))))"
  define g where "g i = sort [input ! (i - 1), input ! i, input ! (i + 1)] ! 1" for i
  define s where "s = results[0 := 0, n - 1 := 0]"
  have "\<exists>s'. for_each f [1..<n - 1] s = Some s' \<and> length s' = n \<and> (\<forall>i\<in>set [1..<n - 1]. s' ! i = g i) \<and> (\<forall>i. i \<notin> set [1..<n - 1] \<longrightarrow> s' ! i = s ! i)"
  proof (rule for_each_puts)
    fix i and t :: "int list" assume h: "i \<in> set [1..<n - 1]" "length t = n"
    then have "i - 1 < n" "i < n" "i + 1 < n" by auto
    then show "f i t = Some (t[i := g i])" unfolding f_def g_def median3_correct [symmetric] using h(2) assms(2) by (simp add: get_at_def put_at_def)
  qed (use assms in \<open>auto simp: s_def\<close>)
  then obtain s' where s': "for_each f [1..<n - 1] s = Some s'" "length s' = n" "\<forall>i\<in>set [1..<n - 1]. s' ! i = g i" "\<forall>i. i \<notin> set [1..<n - 1] \<longrightarrow> s' ! i = s ! i"
    by blast
  have "s' = map (\<lambda>i. if i = 0 \<or> i = n - 1 then 0 else g i) [0..<n]"
  proof (rule nth_equalityI)
    fix i assume "i < length s'"
    then have i: "i < n" using s'(2) by simp
    show "s' ! i = map (\<lambda>i. if i = 0 \<or> i = n - 1 then 0 else g i) [0..<n] ! i"
    proof (cases "i = 0 \<or> i = n - 1")
      case True
      then show ?thesis using i s'(4) assms by (auto simp: s_def nth_list_update)
    next
      case False
      then have "i \<in> set [1..<n - 1]" using i by auto
      then show ?thesis using s'(3) i False by simp
    qed
  qed (simp add: s')
  then show ?thesis using s'(1) assms unfolding median_def f_def [symmetric] g_def [symmetric] by (simp add: put_at_def s_def)
qed

subsection \<open>The software multiplication\<close>

text \<open>\<open>multiply\<close>: 32 steps of shift and add; \<open>x >> 1\<close> on an \<open>int\<close> is the arithmetic shift, and the sums are
  those of the core's registers, which wrap.\<close>

definition multiply_step :: "32 word \<times> 32 word \<times> 32 word \<Rightarrow> 32 word \<times> 32 word \<times> 32 word" where
  "multiply_step = (\<lambda>(x, y, result).
     (signed_drop_bit 1 x, push_bit 1 y, if x AND 1 = 1 then result + y else result))"

definition multiply :: "32 word \<Rightarrow> 32 word \<Rightarrow> 32 word" where
  "multiply x y = snd (snd ((multiply_step ^^ 32) (x, y, 0)))"

definition vvadd :: "nat \<Rightarrow> 32 word list \<Rightarrow> 32 word list \<Rightarrow> 32 word list \<Rightarrow> 32 word list option" where
  "vvadd n a b c =
     for_each (\<lambda>i c. Option.bind (get_at a i) (\<lambda>x. Option.bind (get_at b i) (\<lambda>y. put_at c i (x + y)))) [0..<n] c"

lemma bit_signed_shift: "bit (signed_drop_bit k (x :: 32 word)) m \<longleftrightarrow> m < 32 \<and> bit x (if 32 \<le> k + m then 31 else k + m)"
  by (auto simp: bit_signed_drop_bit_iff not_le dest: bit_imp_le_length)

lemma take_bit_next:
  assumes "k < 32"
  shows "take_bit (Suc k) (x :: 32 word) = take_bit k x + (if bit x k then 2 ^ k else 0)"
proof (cases "bit x k")
  case True
  have "take_bit k x + push_bit k 1 = take_bit k x OR push_bit k 1"
    by (rule disjunctive_add_eq_or) (rule bit_word_eqI, auto simp: bit_simps)
  also have "\<dots> = take_bit (Suc k) x"
    using True by (intro bit_word_eqI) (auto simp: bit_simps less_Suc_eq)
  finally show ?thesis using True by (simp add: push_bit_eq_mult)
next
  case False
  have "take_bit (Suc k) x = take_bit k x"
    using False by (intro bit_word_eqI) (auto simp: bit_simps less_Suc_eq)
  then show ?thesis using False by simp
qed

lemma multiply_steps:
  "k \<le> 32 \<Longrightarrow> (multiply_step ^^ k) (x, y, 0) = (signed_drop_bit k x, push_bit k y, take_bit k x * y)"
proof (induction k)
  case (Suc k)
  have "signed_drop_bit 1 (signed_drop_bit k x) = signed_drop_bit (Suc k) x"
    by (rule bit_word_eqI, cases k) (auto simp: bit_signed_shift)
  moreover have "push_bit 1 (push_bit k y) = push_bit (Suc k) y" by (simp only: push_bit_push_bit plus_1_eq_Suc)
  moreover have "signed_drop_bit k x AND 1 = 1 \<longleftrightarrow> bit x k"
  proof -
    have "signed_drop_bit k x AND 1 = 1 \<longleftrightarrow> bit (signed_drop_bit k x) 0" by (simp only: and_one_eq bit_0 odd_iff_mod_2_eq_one)
    also have "\<dots> \<longleftrightarrow> bit x k" using Suc.prems by (simp only: bit_signed_shift) simp
    finally show ?thesis .
  qed
  moreover have "take_bit (Suc k) x * y = (if bit x k then take_bit k x * y + push_bit k y else take_bit k x * y)"
    using Suc.prems by (simp add: take_bit_next push_bit_eq_mult algebra_simps)
  moreover have "(multiply_step ^^ Suc k) (x, y, 0) = multiply_step (signed_drop_bit k x, push_bit k y, take_bit k x * y)"
    using Suc by simp
  ultimately show ?case by (simp only: multiply_step_def split)
qed simp

lemma multiply_correct: "multiply x y = x * y"
  using multiply_steps [of 32 x y] by (simp add: multiply_def take_bit_word_eq_self)

lemma vvadd_correct:
  assumes "length a = n" "length b = n" "length c = n"
  shows "vvadd n a b c = Some (map2 (+) a b)"
proof -
  define f where "f = (\<lambda>i c. Option.bind (get_at a i) (\<lambda>x. Option.bind (get_at b i) (\<lambda>y. put_at c i (x + y))))"
  have "\<exists>s'. for_each f [0..<n] c = Some s' \<and> length s' = n \<and> (\<forall>i\<in>set [0..<n]. s' ! i = a ! i + b ! i) \<and> (\<forall>i. i \<notin> set [0..<n] \<longrightarrow> s' ! i = c ! i)"
    by (rule for_each_puts) (use assms in \<open>auto simp: f_def get_at_def put_at_def\<close>)
  then obtain s' where s': "for_each f [0..<n] c = Some s'" "length s' = n" "\<forall>i\<in>set [0..<n]. s' ! i = a ! i + b ! i" by blast
  then have "s' = map2 (+) a b" using assms by (intro nth_equalityI) auto
  then show ?thesis using s'(1) unfolding vvadd_def f_def [symmetric] by simp
qed

subsection \<open>The programs\<close>

text \<open>The \<open>main\<close> functions: run on the data, then return what \<open>verify\<close> says of the result.  The first argument
  says whether \<open>PREALLOCATE\<close> is set, as the build for RISC-V sets it (\<open>Makefile\<close>): the programs then run
  their kernel once more before, and the sorts run theirs on the reference data.  The counters that
  \<open>setStats\<close> reads, and the printing under \<open>HOST_DEBUG\<close>, change no data.\<close>

definition qsort_main :: "bool \<Rightarrow> nat \<Rightarrow> int list \<Rightarrow> int list \<Rightarrow> nat option" where
  "qsort_main preallocate n input_data verify_data =
     (let run = (\<lambda>verify_data. Option.bind (qsort_sort n input_data) (\<lambda>input_data. verify n input_data verify_data))
      in if preallocate
         then Option.bind (qsort_sort n verify_data) (\<lambda>verify_data.
              Option.bind (verify n input_data input_data) (\<lambda>r. if r \<noteq> 0 then Some 1 else run verify_data))
         else run verify_data)"

definition rsort_main :: "bool \<Rightarrow> nat \<Rightarrow> 32 word list \<Rightarrow> 32 word list \<Rightarrow> nat option" where
  "rsort_main preallocate n input_data verify_data =
     (let run = (\<lambda>verify_data scratch.
            Option.bind (rsort_sort n input_data scratch) (\<lambda>(input_data, scratch). verify n input_data verify_data));
          scratch = replicate n 0
      in if preallocate
         then Option.bind (rsort_sort n verify_data scratch) (\<lambda>(verify_data, scratch).
              Option.bind (verify n input_data input_data) (\<lambda>r. if r \<noteq> 0 then Some 1 else run verify_data scratch))
         else run verify_data scratch)"

text \<open>A kernel that fills the results, and once more before under \<open>PREALLOCATE\<close>.\<close>

definition twice_if :: "bool \<Rightarrow> ('a \<Rightarrow> 'a option) \<Rightarrow> 'a \<Rightarrow> 'a option" where
  "twice_if preallocate work results = Option.bind (if preallocate then work results else Some results) work"

definition median_main :: "bool \<Rightarrow> nat \<Rightarrow> int list \<Rightarrow> int list \<Rightarrow> int list \<Rightarrow> nat option" where
  "median_main preallocate n input_data verify_data results_data =
     Option.bind (twice_if preallocate (median n input_data) results_data) (\<lambda>results_data. verify n results_data verify_data)"

definition multiply_main :: "bool \<Rightarrow> nat \<Rightarrow> 32 word list \<Rightarrow> 32 word list \<Rightarrow> 32 word list \<Rightarrow> 32 word list \<Rightarrow> nat option" where
  "multiply_main preallocate n input_data1 input_data2 verify_data results_data =
     Option.bind
       (twice_if preallocate
         (for_each (\<lambda>i r. Option.bind (get_at input_data1 i) (\<lambda>x. Option.bind (get_at input_data2 i) (\<lambda>y. put_at r i (multiply x y))))
           [0..<n]) results_data)
       (\<lambda>results_data. verify n results_data verify_data)"

definition vvadd_main :: "bool \<Rightarrow> nat \<Rightarrow> 32 word list \<Rightarrow> 32 word list \<Rightarrow> 32 word list \<Rightarrow> 32 word list \<Rightarrow> nat option" where
  "vvadd_main preallocate n input1_data input2_data verify_data results_data =
     Option.bind (twice_if preallocate (vvadd n input1_data input2_data) results_data) (\<lambda>results_data. verify n results_data verify_data)"

lemma twice_if_correct:
  "(\<And>r. length r = n \<Longrightarrow> work r = Some s) \<Longrightarrow> length s = n \<Longrightarrow> length r = n \<Longrightarrow> twice_if p work r = Some s"
  by (simp add: twice_if_def)

text \<open>What a program needs of its sort, and what it can conclude from it.\<close>

locale array_sorter =
  fixes srt :: "'a::linorder list \<Rightarrow> 'a list option"
    and limit :: nat
  assumes sorts: "length arr < limit \<Longrightarrow> srt arr = Some (sort arr)"
begin

lemma total: "length arr < limit \<Longrightarrow> \<exists>arr'. srt arr = Some arr'"
  by (simp add: sorts)

lemma permutes: "length arr < limit \<Longrightarrow> srt arr = Some arr' \<Longrightarrow> mset arr' = mset arr \<and> sorted arr'"
  by (auto simp: sorts)

lemma again: "length arr < limit \<Longrightarrow> Option.bind (srt arr) srt = srt arr"
  by (simp add: sorts sort_key_id_if_sorted)

lemma checked:
  assumes "length arr < limit" "length ref = length arr"
  shows "Option.bind (srt arr) (\<lambda>arr'. verify (length arr) arr' ref) =
    Some (if ref = sort arr then 0 else first_difference (sort arr) ref + 1)"
  using assms by (simp add: sorts verify_correct)

lemma accepts:
  assumes "length arr < limit" "length ref = length arr"
  shows "Option.bind (srt arr) (\<lambda>arr'. verify (length arr) arr' ref) = Some 0 \<longleftrightarrow> sorted ref \<and> mset ref = mset arr"
proof -
  have "ref = sort arr \<longleftrightarrow> sorted ref \<and> mset ref = mset arr" by (metis mset_sort properties_for_sort sorted_sort)
  then show ?thesis using checked [OF assms] by auto
qed

lemma accepts_sorted_reference:
  assumes "length arr < limit" "length ref = length arr"
  shows "Option.bind (srt ref) (\<lambda>ref'. Option.bind (srt arr) (\<lambda>arr'. verify (length arr) arr' ref')) = Some 0 \<longleftrightarrow> mset ref = mset arr"
  using accepts [of arr "sort ref"] assms by (simp add: sorts [of ref])

end

interpretation quick: array_sorter "\<lambda>arr. qsort_sort (length arr) arr" "11 * 2 ^ 24"
  by unfold_locales (rule qsort_sort_correct)

interpretation radix: array_sorter "\<lambda>arr. map_option fst (rsort_sort (length arr) arr (replicate (length arr) 0))" "2 ^ 32"
  by unfold_locales (simp add: rsort_sort_correct)

lemma verify_same: "verify (length xs) xs xs = Some 0"
  by (simp add: verify_correct)

lemma qsort_main_checked:
  "length data < 11 * 2 ^ 24 \<Longrightarrow> length ref = length data \<Longrightarrow>
    qsort_main p (length data) data ref = Some 0 \<longleftrightarrow> (p \<or> sorted ref) \<and> mset ref = mset data"
  using quick.accepts [of data ref] quick.accepts_sorted_reference [of data ref]
  by (cases p) (simp_all add: qsort_main_def verify_same)

lemma rsort_main_checked:
  assumes "length data < 2 ^ 32" "length ref = length data"
  shows "rsort_main p (length data) data ref = Some 0 \<longleftrightarrow> (p \<or> sorted ref) \<and> mset ref = mset data"
proof -
  have run: "Option.bind (rsort_sort (length data) data scratch) (\<lambda>(d, s). verify (length data) d r) = Some 0 \<longleftrightarrow>
      sorted r \<and> mset r = mset data" if "length scratch = length data" "length r = length data" for scratch r
  proof -
    note l = that
    obtain s' where "rsort_sort (length data) data scratch = Some (sort data, s')"
      using rsort_sort_runs [OF assms(1) l(1)] by blast
    then show ?thesis
      using radix.accepts [OF assms(1) l(2)] rsort_sort_correct [OF assms(1), of "replicate (length data) 0"] by simp
  qed
  obtain s' where s: "rsort_sort (length data) ref (replicate (length data) 0) = Some (sort ref, s')" "length s' = length data"
    using rsort_sort_runs [of ref "replicate (length data) 0"] assms by auto
  show ?thesis
    using run [of s' "sort ref"] run [of "replicate (length data) 0" ref] s assms
    by (cases p) (simp_all add: rsort_main_def verify_same)
qed

lemma median_main_checked:
  assumes "data \<noteq> []" "length ref = length data" "length res = length data"
  shows "median_main p (length data) data ref res = Some 0 \<longleftrightarrow>
    ref = map (\<lambda>i. if i = 0 \<or> i = length data - 1 then 0 else sort [data ! (i - 1), data ! i, data ! (i + 1)] ! 1) [0..<length data]"
  using assms twice_if_correct [where work = "median (length data) data", OF median_correct, of "length data" res p]
  by (auto simp: median_main_def verify_correct)

lemma multiply_main_checked:
  assumes "length xs = n" "length ys = n" "length ref = n" "length r = n"
  shows "multiply_main p n xs ys ref r = Some 0 \<longleftrightarrow> ref = map2 (*) xs ys"
proof -
  define f where "f = (\<lambda>i r. Option.bind (get_at xs i) (\<lambda>x. Option.bind (get_at ys i) (\<lambda>y. put_at r i (multiply x y))))"
  have k: "for_each f [0..<n] r = Some (map2 (*) xs ys)" if "length r = n" for r
  proof -
    have "\<exists>s'. for_each f [0..<n] r = Some s' \<and> length s' = n \<and> (\<forall>i\<in>set [0..<n]. s' ! i = xs ! i * ys ! i) \<and> (\<forall>i. i \<notin> set [0..<n] \<longrightarrow> s' ! i = r ! i)"
      by (rule for_each_puts) (use that assms in \<open>auto simp: f_def get_at_def put_at_def multiply_correct\<close>)
    then obtain s' where s': "for_each f [0..<n] r = Some s'" "length s' = n" "\<forall>i\<in>set [0..<n]. s' ! i = xs ! i * ys ! i" by blast
    then have "s' = map2 (*) xs ys" using assms by (intro nth_equalityI) auto
    then show ?thesis using s'(1) by simp
  qed
  show ?thesis
    using twice_if_correct [where work = "for_each f [0..<n]", OF k, of n r p] assms
    unfolding multiply_main_def f_def [symmetric] by (auto simp: verify_correct)
qed

lemma vvadd_main_checked:
  assumes "length xs = n" "length ys = n" "length ref = n" "length r = n"
  shows "vvadd_main p n xs ys ref r = Some 0 \<longleftrightarrow> ref = map2 (+) xs ys"
proof -
  have k: "vvadd n xs ys r = Some (map2 (+) xs ys)" if "length r = n" for r by (rule vvadd_correct [OF assms(1,2) that])
  show ?thesis
    using twice_if_correct [where work = "vvadd n xs ys", OF k, of n r p] assms by (auto simp: vvadd_main_def verify_correct)
qed

text \<open>
  C38. The exit code of the benchmark programs, with \<open>PREALLOCATE\<close> (\<open>p\<close>, as the build for RISC-V compiles them) and without.
  The \<open>main\<close> of the median filter, of \<open>multiply\<close> and of \<open>vvadd\<close> returns 0 exactly when the reference data is right: the middle one of each
  three neighbours with zeroes at the ends, the products and the sums of 32-bit integers.  The \<open>main\<close> of the two sorts returns 0
  without \<open>PREALLOCATE\<close> exactly when the reference data is the ascending rearrangement of the input; with it, because the
  reference data is then sorted as well before it is compared, exactly when the reference data is a rearrangement of the
  input, ascending or not.  No program reads or writes outside its arrays.
\<close>

theorem benchmarks_exit_codes:
  "(length data < 11 * 2 ^ 24 \<and> length ref = length data \<longrightarrow>
      (qsort_main p (length data) data ref = Some 0 \<longleftrightarrow> (p \<or> sorted ref) \<and> mset ref = mset data)) \<and>
   (length wdata < 2 ^ 32 \<and> length wref = length wdata \<longrightarrow>
      (rsort_main p (length wdata) wdata wref = Some 0 \<longleftrightarrow> (p \<or> sorted wref) \<and> mset wref = mset wdata)) \<and>
   (data \<noteq> [] \<and> length ref = length data \<and> length res = length data \<longrightarrow>
      (median_main p (length data) data ref res = Some 0 \<longleftrightarrow>
        ref = map (\<lambda>i. if i = 0 \<or> i = length data - 1 then 0 else sort [data ! (i - 1), data ! i, data ! (i + 1)] ! 1) [0..<length data])) \<and>
   (length wdata = n \<and> length wdata2 = n \<and> length wref = n \<and> length wres = n \<longrightarrow>
      (multiply_main p n wdata wdata2 wref wres = Some 0 \<longleftrightarrow> wref = map2 (*) wdata wdata2) \<and>
      (vvadd_main p n wdata wdata2 wref wres = Some 0 \<longleftrightarrow> wref = map2 (+) wdata wdata2))"
  using qsort_main_checked [of data ref p] rsort_main_checked [of wdata wref p] multiply_main_checked [of wdata n wdata2 wref wres p]
    vvadd_main_checked [of wdata n wdata2 wref wres p] median_main_checked [of data ref res p]
  by blast

theorem benchmarks_exit_codes_witness:
  "qsort_main False 4 [3, -1, 2, 2] [-1, 2, 2, 3] = Some 0 \<and>
   qsort_main False 4 [3, -1, 2, 2] [2, -1, 2, 3] \<noteq> Some 0 \<and> qsort_main True 4 [3, -1, 2, 2] [2, -1, 2, 3] = Some 0 \<and>
   rsort_main True 3 [0x80000000, 5, 0x105] [5, 0x105, 0x80000000] = Some 0 \<and>
   median_main True 5 [7, 3, 9, 4, 4] [0, 7, 4, 4, 0] [0, 0, 0, 0, 0] = Some 0 \<and>
   multiply_main True 2 [3, -2] [5, 7] [15, -14] [0, 0] = Some 0 \<and>
   vvadd_main False 2 [3, -1] [5, 0x80000000] [8, 0x7FFFFFFF] [0, 0] = Some 0"
proof -
  have m: "[0..<5] = [0, 1, 2, 3, 4::nat]" by (simp add: upt_rec)
  note q1 = benchmarks_exit_codes [of "[3, -1, 2, 2]" "[-1, 2, 2, 3]" False "[]" "[]" "[]" 0 "[]" "[]", THEN conjunct1]
  note q2 = benchmarks_exit_codes [of "[3, -1, 2, 2]" "[2, -1, 2, 3]" _ "[]" "[]" "[]" 0 "[]" "[]", THEN conjunct1]
  note r1 = benchmarks_exit_codes [of "[]" "[]" True "[0x80000000, 5, 0x105]" "[5, 0x105, 0x80000000]" "[]" 0 "[]" "[]", THEN conjunct2, THEN conjunct1]
  note c2 = benchmarks_exit_codes [of "[7, 3, 9, 4, 4]" "[0, 7, 4, 4, 0]" True "[3, -2]" "[15, -14]" "[0, 0, 0, 0, 0]" 2 "[5, 7]" "[0, 0]"]
  note c3 = benchmarks_exit_codes [of "[]" "[]" False "[3, -1]" "[8, 0x7FFFFFFF]" "[]" 2 "[5, 0x80000000]" "[0, 0]"]
  have n: "length [3, -1, 2, 2 :: int] = 4" "length [-1, 2, 2, 3 :: int] = 4" "length [2, -1, 2, 3 :: int] = 4"
    "length [0x80000000, 5, 0x105 :: 32 word] = 3" "length [5, 0x105, 0x80000000 :: 32 word] = 3"
    "length [7, 3, 9, 4, 4 :: int] = 5" "length [0, 7, 4, 4, 0 :: int] = 5" "length [0, 0, 0, 0, 0 :: int] = 5"
    by simp_all
  have "sorted [-1, 2, 2, 3 :: int] \<and> mset [-1, 2, 2, 3 :: int] = mset [3, -1, 2, 2]" by simp
  with q1 [unfolded n] have q: "qsort_main False 4 [3, -1, 2, 2] [-1, 2, 2, 3] = Some 0" by simp
  have s: "\<not> sorted [2, -1, 2, 3 :: int] \<and> mset [2, -1, 2, 3 :: int] = mset [3, -1, 2, 2]" by simp
  from s q2 [of False, unfolded n] have q': "qsort_main False 4 [3, -1, 2, 2] [2, -1, 2, 3] \<noteq> Some 0" by simp
  from s q2 [of True, unfolded n] have q'': "qsort_main True 4 [3, -1, 2, 2] [2, -1, 2, 3] = Some 0" by simp
  have "mset [5, 0x105, 0x80000000 :: 32 word] = mset [0x80000000, 5, 0x105]" by simp
  with r1 [unfolded n] have r: "rsort_main True 3 [0x80000000, 5, 0x105] [5, 0x105, 0x80000000] = Some 0" by simp
  from c2 [THEN conjunct2, THEN conjunct2, THEN conjunct1, unfolded n] have d: "median_main True 5 [7, 3, 9, 4, 4] [0, 7, 4, 4, 0] [0, 0, 0, 0, 0] = Some 0"
    by (simp add: m)
  from c2 [THEN conjunct2, THEN conjunct2, THEN conjunct2] have u: "multiply_main True 2 [3, -2] [5, 7] [15, -14] [0, 0] = Some 0" by simp
  from c3 [THEN conjunct2, THEN conjunct2, THEN conjunct2] have v: "vvadd_main False 2 [3, -1] [5, 0x80000000] [8, 0x7FFFFFFF] [0, 0] = Some 0" by simp
  show ?thesis by (intro conjI q q' q'' r d u v)
qed

end
