(* ===== verification/VM_Kernel.thy ===== *)
theory VM_Kernel
  imports Prelude
begin

text \<open>
  The demand-paging kernel under which the torture tests of the c-class run
  (\<open>src/cores/cclass/32bit/verification/riscv-torture-32/env/v/vm.c\<close> and \<open>riscv_test.h\<close>), for the 32-bit core with the
  two-level page table of Sv32.

  The state is the physical memory, byte by byte, the two leaf tables, the nodes of the list of free
  frames, and its two ends; a pointer to a node is symbolic.  The root table has two entries that never
  change after the boot, for the lowest megapage (user) and the uppermost one (kernel): they are the
  case distinction of \<open>walk\<close>.  The hardware sets the accessed and dirty bits, as the simulator of this
  repository does, and a translation is looked up in the tables at each access, which the \<open>sfence.vm\<close>
  after each change of a table justifies.  The variables of the kernel are fields of the state of their own,
  although they lie in the image: the program is taken not to touch the pages that hold them.  A failed assertion prints its text through the host
  interface, then terminates with code 3; the text is not modelled.
\<close>

unbundle bit_operations_syntax

subsection \<open>Constants and state\<close>

definition MAX_TEST_PAGES :: nat where "MAX_TEST_PAGES = 63"
definition PGSHIFT :: nat where "PGSHIFT = 12"
definition PGSIZE :: "32 word" where "PGSIZE = 4096"
definition PTES_PER_PT :: nat where "PTES_PER_PT = 1024"
definition MEGAPAGE_SIZE :: "32 word" where "MEGAPAGE_SIZE = 0x400000"
definition VM_DRAM_BASE :: "32 word" where "VM_DRAM_BASE = 0x80000000"
definition VM_PTE_V :: "32 word" where "VM_PTE_V = 0x001"
definition VM_PTE_R :: "32 word" where "VM_PTE_R = 0x002"
definition VM_PTE_W :: "32 word" where "VM_PTE_W = 0x004"
definition VM_PTE_X :: "32 word" where "VM_PTE_X = 0x008"
definition VM_PTE_U :: "32 word" where "VM_PTE_U = 0x010"
definition VM_PTE_A :: "32 word" where "VM_PTE_A = 0x040"
definition VM_PTE_D :: "32 word" where "VM_PTE_D = 0x080"
definition PTE_PPN_SHIFT :: nat where "PTE_PPN_SHIFT = 10"

lemmas vm_consts = MAX_TEST_PAGES_def PGSHIFT_def PGSIZE_def PTES_PER_PT_def MEGAPAGE_SIZE_def VM_DRAM_BASE_def
  VM_PTE_V_def VM_PTE_R_def VM_PTE_W_def VM_PTE_X_def VM_PTE_U_def VM_PTE_A_def VM_PTE_D_def PTE_PPN_SHIFT_def

datatype node_ptr = Free nat | Mapping nat

record freelist_t =
  addr :: "32 word"
  nxt :: "node_ptr option"

record vm =
  phys :: "32 word \<Rightarrow> 8 word"
  user_l3pt :: "32 word list"
  kernel_l3pt :: "32 word list"
  user_mapping :: "freelist_t list"
  freelist_nodes :: "freelist_t list"
  freelist_head :: "node_ptr option"
  freelist_tail :: "node_ptr option"

datatype outcome = Resume vm | Terminated "32 word" | Stuck

definition LFSR_NEXT :: "32 word \<Rightarrow> 32 word" where
  "LFSR_NEXT x = push_bit 5 ((x XOR drop_bit 1 x) AND 1) OR drop_bit 1 x"

definition uva2kva :: "32 word \<Rightarrow> 32 word" where
  "uva2kva pa = pa - MEGAPAGE_SIZE"

fun node_at :: "vm \<Rightarrow> node_ptr \<Rightarrow> freelist_t" where
  "node_at s (Free i) = freelist_nodes s ! i"
| "node_at s (Mapping p) = user_mapping s ! p"

fun set_node :: "node_ptr \<Rightarrow> freelist_t \<Rightarrow> vm \<Rightarrow> vm" where
  "set_node (Free i) n s = s\<lparr>freelist_nodes := (freelist_nodes s)[i := n]\<rparr>"
| "set_node (Mapping p) n s = s\<lparr>user_mapping := (user_mapping s)[p := n]\<rparr>"

subsection \<open>Memory accesses\<close>

definition vpn1 :: "32 word \<Rightarrow> nat" where "vpn1 va = unat va div 2 ^ 22"
definition vpn0 :: "32 word \<Rightarrow> nat" where "vpn0 va = unat va div 2 ^ 12 mod 2 ^ 10"

definition pte_of :: "vm \<Rightarrow> 32 word \<Rightarrow> 32 word" where
  "pte_of s va =
     (if vpn1 va = 0 then user_l3pt s ! vpn0 va
      else if vpn1 va = 1023 then kernel_l3pt s ! vpn0 va
      else 0)"

text \<open>The physical address, when the page is there and, for the user, a user page; every leaf of the two
  tables allows reading, writing and execution.\<close>

definition walk_pt :: "vm \<Rightarrow> bool \<Rightarrow> 32 word \<Rightarrow> 32 word option" where
  "walk_pt s user va =
     (let pte = pte_of s va
      in if pte AND VM_PTE_V = 0 then None
         else if user \<and> pte AND VM_PTE_U = 0 then None
         else Some (push_bit PGSHIFT (drop_bit PTE_PPN_SHIFT pte) OR take_bit PGSHIFT va))"

definition mark :: "32 word \<Rightarrow> 32 word \<Rightarrow> vm \<Rightarrow> vm" where
  "mark bits va s =
     (if vpn1 va = 0 then s\<lparr>user_l3pt := (user_l3pt s)[vpn0 va := user_l3pt s ! vpn0 va OR bits]\<rparr>
      else s\<lparr>kernel_l3pt := (kernel_l3pt s)[vpn0 va := kernel_l3pt s ! vpn0 va OR bits]\<rparr>)"

definition load_byte :: "bool \<Rightarrow> 32 word \<Rightarrow> vm \<Rightarrow> (8 word \<times> vm) option" where
  "load_byte user va s = (case walk_pt s user va of None \<Rightarrow> None | Some pa \<Rightarrow> Some (phys s pa, mark VM_PTE_A va s))"

definition store_byte :: "bool \<Rightarrow> 32 word \<Rightarrow> 8 word \<Rightarrow> vm \<Rightarrow> vm option" where
  "store_byte user va b s =
     (case walk_pt s user va of
        None \<Rightarrow> None
      | Some pa \<Rightarrow> Some ((mark (VM_PTE_A OR VM_PTE_D) va s)\<lparr>phys := (phys s)(pa := b)\<rparr>))"

text \<open>\<open>memcpy\<close> and \<open>memcmp\<close> of a page by the kernel, which may touch user pages.\<close>

definition copy_page :: "32 word \<Rightarrow> 32 word \<Rightarrow> vm \<Rightarrow> vm option" where
  "copy_page dst src s =
     (case (walk_pt s False dst, walk_pt s False src) of
        (Some d, Some p) \<Rightarrow>
          Some ((mark (VM_PTE_A OR VM_PTE_D) dst (mark VM_PTE_A src s))
            \<lparr>phys := (\<lambda>x. if drop_bit PGSHIFT x = drop_bit PGSHIFT d then phys s (p OR take_bit PGSHIFT x) else phys s x)\<rparr>)
      | _ \<Rightarrow> None)"

definition same_page :: "32 word \<Rightarrow> 32 word \<Rightarrow> vm \<Rightarrow> (bool \<times> vm) option" where
  "same_page a b s =
     (case (walk_pt s False a, walk_pt s False b) of
        (Some d, Some p) \<Rightarrow>
          Some (list_all (\<lambda>i. phys s (d OR word_of_nat i) = phys s (p OR word_of_nat i)) [0..<2 ^ PGSHIFT], mark VM_PTE_A a (mark VM_PTE_A b s))
      | _ \<Rightarrow> None)"

subsection \<open>The kernel\<close>

definition assert_that :: "bool \<Rightarrow> outcome \<Rightarrow> outcome" where
  "assert_that b k = (if b then k else Terminated 3)"

definition in_test_pages :: "32 word \<Rightarrow> bool" where
  "in_test_pages a \<longleftrightarrow> PGSIZE \<le> a \<and> a < word_of_nat MAX_TEST_PAGES * PGSIZE"

text \<open>Give the node of a page back to the list of free frames.\<close>

definition release_node :: "nat \<Rightarrow> vm \<Rightarrow> vm" where
  "release_node p s =
     (let s = s\<lparr>user_mapping := (user_mapping s)[p := (user_mapping s ! p)\<lparr>addr := 0\<rparr>]\<rparr>
      in case freelist_tail s of
           None \<Rightarrow> s\<lparr>freelist_head := Some (Mapping p), freelist_tail := Some (Mapping p)\<rparr>
         | Some t \<Rightarrow> (set_node t ((node_at s t)\<lparr>nxt := Some (Mapping p)\<rparr>) s)\<lparr>freelist_tail := Some (Mapping p)\<rparr>)"

definition evict :: "32 word \<Rightarrow> vm \<Rightarrow> outcome" where
  "evict a s = assert_that (in_test_pages a)
     (let a = a div PGSIZE * PGSIZE; p = unat (a div PGSIZE)
      in if addr (user_mapping s ! p) = 0 then Resume s
         else assert_that (user_l3pt s ! p AND VM_PTE_A \<noteq> 0)
           (case same_page a (uva2kva a) s of
              None \<Rightarrow> Stuck
            | Some (same, s) \<Rightarrow>
                if same then Resume (release_node p s)
                else assert_that (user_l3pt s ! p AND VM_PTE_D \<noteq> 0)
                  (case copy_page a (uva2kva a) s of None \<Rightarrow> Stuck | Some s \<Rightarrow> Resume (release_node p s))))"

definition handle_fault :: "32 word \<Rightarrow> vm \<Rightarrow> outcome" where
  "handle_fault a s = assert_that (in_test_pages a)
     (let a = a div PGSIZE * PGSIZE; p = unat (a div PGSIZE)
      in case freelist_head s of
           None \<Rightarrow> assert_that False Stuck
         | Some np \<Rightarrow>
             let node = node_at s np;
                 s = s\<lparr>freelist_head := nxt node\<rparr>;
                 s = (if freelist_head s = freelist_tail s then s\<lparr>freelist_tail := None\<rparr> else s);
                 s = s\<lparr>user_l3pt := (user_l3pt s)[p := push_bit PTE_PPN_SHIFT (drop_bit PGSHIFT (addr node))
                        OR VM_PTE_V OR VM_PTE_U OR VM_PTE_R OR VM_PTE_W OR VM_PTE_X]\<rparr>
             in assert_that (addr (user_mapping s ! p) = 0)
                  (let s = s\<lparr>user_mapping := (user_mapping s)[p := node]\<rparr>
                   in case copy_page a (uva2kva a) s of None \<Rightarrow> Stuck | Some s \<Rightarrow> Resume s))"

fun evict_all :: "nat list \<Rightarrow> vm \<Rightarrow> outcome" where
  "evict_all [] s = Resume s"
| "evict_all (i # is) s = (case evict (word_of_nat i * PGSIZE) s of Resume s \<Rightarrow> evict_all is s | r \<Rightarrow> r)"

datatype vm_trap_cause = USER_ECALL | ILLEGAL_INSTRUCTION | FAULT_FETCH | FAULT_LOAD | FAULT_STORE | OTHER_CAUSE

text \<open>\<open>fssr\<close> is the encoding of the floating-point instruction the handler compares with; \<open>insn\<close> is the word at \<open>epc\<close>.\<close>

definition vm_handle_trap :: "32 word \<Rightarrow> vm_trap_cause \<Rightarrow> 32 word \<Rightarrow> 32 word \<Rightarrow> 32 word \<Rightarrow> 32 word \<Rightarrow> vm \<Rightarrow> outcome" where
  "vm_handle_trap fssr cause a0 epc insn badvaddr s =
     (case cause of
        USER_ECALL \<Rightarrow> (case evict_all [1..<MAX_TEST_PAGES] s of Resume s \<Rightarrow> Terminated a0 | r \<Rightarrow> r)
      | ILLEGAL_INSTRUCTION \<Rightarrow>
          assert_that (epc mod 4 = 0) (if insn = fssr then Terminated 1 else assert_that False Stuck)
      | OTHER_CAUSE \<Rightarrow> assert_that False Stuck
      | _ \<Rightarrow> handle_fault badvaddr s)"

fun boot_lists :: "nat \<Rightarrow> 32 word \<Rightarrow> nat \<Rightarrow> vm \<Rightarrow> vm" where
  "boot_lists 0 random i s = s"
| "boot_lists (Suc n) random i s =
     boot_lists n (LFSR_NEXT random) (i + 1)
       (s\<lparr>freelist_nodes := (freelist_nodes s)[i := \<lparr>addr = VM_DRAM_BASE + (word_of_nat MAX_TEST_PAGES + random) * PGSIZE, nxt = Some (Free (i + 1))\<rparr>],
          kernel_l3pt := (kernel_l3pt s)[i := push_bit PTE_PPN_SHIFT (word_of_nat i + VM_DRAM_BASE div PGSIZE)
            OR VM_PTE_V OR VM_PTE_R OR VM_PTE_W OR VM_PTE_X]\<rparr>)"

definition vm_boot :: "32 word \<Rightarrow> (32 word \<Rightarrow> 8 word) \<Rightarrow> vm" where
  "vm_boot ENTROPY dram =
     (let s = \<lparr>phys = dram, user_l3pt = replicate PTES_PER_PT 0, kernel_l3pt = replicate PTES_PER_PT 0,
               user_mapping = replicate MAX_TEST_PAGES \<lparr>addr = 0, nxt = None\<rparr>,
               freelist_nodes = replicate MAX_TEST_PAGES \<lparr>addr = 0, nxt = None\<rparr>,
               freelist_head = Some (Free 0), freelist_tail = Some (Free (MAX_TEST_PAGES - 1))\<rparr>;
          random = 1 + ENTROPY mod word_of_nat MAX_TEST_PAGES;
          s = boot_lists MAX_TEST_PAGES random 0 s
      in s\<lparr>freelist_nodes := (freelist_nodes s)[MAX_TEST_PAGES - 1 := (freelist_nodes s ! (MAX_TEST_PAGES - 1))\<lparr>nxt := None\<rparr>]\<rparr>)"

subsection \<open>The user program\<close>

text \<open>What a user program does, as the kernel sees it: accesses to bytes, and the call that ends it.  An
  access that faults traps into the kernel and is tried again when the kernel returns.\<close>

datatype user_op = Load "32 word" | Store "32 word" "8 word" | Ecall "32 word"

datatype config = Running vm "user_op list" "8 word list" | Exited "32 word" "8 word list" | Broken

definition after_trap :: "user_op list \<Rightarrow> 8 word list \<Rightarrow> outcome \<Rightarrow> config" where
  "after_trap ops out r = (case r of Resume s \<Rightarrow> Running s ops out | Terminated code \<Rightarrow> Exited code out | Stuck \<Rightarrow> Broken)"

inductive vm_step :: "32 word \<Rightarrow> config \<Rightarrow> config \<Rightarrow> bool" for fssr where
  load_hit: "load_byte True a s = Some (v, s') \<Longrightarrow> vm_step fssr (Running s (Load a # ops) out) (Running s' ops (out @ [v]))"
| load_miss: "load_byte True a s = None \<Longrightarrow>
    vm_step fssr (Running s (Load a # ops) out) (after_trap (Load a # ops) out (vm_handle_trap fssr FAULT_LOAD a0 epc insn a s))"
| store_hit: "store_byte True a v s = Some s' \<Longrightarrow> vm_step fssr (Running s (Store a v # ops) out) (Running s' ops out)"
| store_miss: "store_byte True a v s = None \<Longrightarrow>
    vm_step fssr (Running s (Store a v # ops) out) (after_trap (Store a v # ops) out (vm_handle_trap fssr FAULT_STORE a0 epc insn a s))"
| call: "vm_step fssr (Running s (Ecall n # ops) out) (after_trap ops out (vm_handle_trap fssr USER_ECALL n epc insn badvaddr s))"

inductive_cases load_stepE: "vm_step fssr (Running s (Load a # ops) out) c"
inductive_cases store_stepE: "vm_step fssr (Running s (Store a v # ops) out) c"
inductive_cases call_stepE: "vm_step fssr (Running s (Ecall n # ops) out) c"
inductive_cases nil_stepE: "vm_step fssr (Running s [] out) c"
inductive_cases exited_stepE: "vm_step fssr (Exited n out) c"

text \<open>What the program should see: a flat memory, its start the pages of the test image.\<close>

fun flat_run :: "(32 word \<Rightarrow> 8 word) \<Rightarrow> user_op list \<Rightarrow> 8 word list \<times> 32 word option" where
  "flat_run m [] = ([], None)"
| "flat_run m (Load a # ops) = (case flat_run m ops of (out, e) \<Rightarrow> (m a # out, e))"
| "flat_run m (Store a v # ops) = flat_run (m(a := v)) ops"
| "flat_run m (Ecall n # ops) = ([], Some n)"

subsection \<open>Addresses and leaves of the tables\<close>

text \<open>A byte by page number and offset; a leaf by page number and flags.\<close>

definition page_addr :: "nat \<Rightarrow> nat \<Rightarrow> 32 word" where
  "page_addr f k = word_of_nat (f * 4096 + k)"

definition page_no :: "32 word \<Rightarrow> nat" where
  "page_no a = unat a div 4096"

definition page_off :: "32 word \<Rightarrow> nat" where
  "page_off a = unat a mod 4096"

definition leaf :: "nat \<Rightarrow> 32 word \<Rightarrow> 32 word" where
  "leaf f flags = push_bit 10 (word_of_nat f) OR flags"

lemma page_addr_split: "page_addr (page_no a) (page_off a) = a"
  by (simp add: page_addr_def page_no_def page_off_def)

lemma unat_page_addr: "f < 2 ^ 20 \<Longrightarrow> k < 4096 \<Longrightarrow> unat (page_addr f k) = f * 4096 + k"
  unfolding page_addr_def unat_of_nat by (simp add: take_bit_nat_eq_self del: of_nat_add of_nat_mult)

lemma page_no_addr: "f < 2 ^ 20 \<Longrightarrow> k < 4096 \<Longrightarrow> page_no (page_addr f k) = f"
  by (simp add: page_no_def unat_page_addr)

lemma page_off_addr: "f < 2 ^ 20 \<Longrightarrow> k < 4096 \<Longrightarrow> page_off (page_addr f k) = k"
  by (simp add: page_off_def unat_page_addr)

lemma page_no_less: "page_no a < 2 ^ 20" "page_off a < 4096"
  using unat_less_32 [of a] by (simp_all add: page_no_def page_off_def)

lemma page_addr_eq:
  "f < 2 ^ 20 \<Longrightarrow> k < 4096 \<Longrightarrow> g < 2 ^ 20 \<Longrightarrow> j < 4096 \<Longrightarrow> page_addr f k = page_addr g j \<longleftrightarrow> f = g \<and> k = j"
  by (metis page_no_addr page_off_addr)

lemma unat_leaf: "f < 2 ^ 20 \<Longrightarrow> unat flags < 1024 \<Longrightarrow> unat (leaf f flags) = f * 1024 + unat flags"
proof -
  assume h: "f < 2 ^ 20" "unat flags < 1024"
  have f: "unat (word_of_nat f :: 32 word) = f" using h(1) by (simp add: unat_of_nat take_bit_nat_eq_self)
  then have p: "unat (push_bit 10 (word_of_nat f :: 32 word)) = f * 1024" using h(1) by (simp add: unat_push_small)
  show ?thesis unfolding leaf_def
    by (subst unat_or_disjoint [where k = 10]) (use p h(2) in simp_all)
qed

lemma leaf_or: "leaf f a OR b = leaf f (a OR b)"
  by (simp add: leaf_def or.assoc)

lemma leaf_and:
  assumes "unat b < 1024"
  shows "leaf f a AND b = a AND b"
proof -
  have "\<not> bit b n" if "n \<ge> 10" for n
  proof -
    have "take_bit 10 b = b" using assms by (intro word_unat_eq_iff [THEN iffD2]) (simp add: unat_take)
    then show ?thesis using that by (metis bit_take_bit_iff not_le)
  qed
  then show ?thesis by (intro bit_word_eqI) (auto simp: leaf_def bit_simps)
qed

lemma walk_leaf:
  assumes "pte_of s va = leaf f flags" "f < 2 ^ 20" "unat flags < 1024" "flags AND VM_PTE_V \<noteq> 0" "user \<longrightarrow> flags AND VM_PTE_U \<noteq> 0"
  shows "walk_pt s user va = Some (page_addr f (page_off va))"
proof -
  have "unat VM_PTE_V < 1024" "unat VM_PTE_U < 1024" by (simp_all add: vm_consts)
  then have v: "pte_of s va AND VM_PTE_V \<noteq> 0" "user \<longrightarrow> pte_of s va AND VM_PTE_U \<noteq> 0"
    using assms by (simp_all add: leaf_and)
  have d: "unat (drop_bit 10 (pte_of s va)) = f" using assms(1-3) by (simp add: unat_drop unat_leaf)
  have p: "unat (push_bit 12 (drop_bit 10 (pte_of s va))) = f * 4096" using d assms(2) by (simp add: unat_push_small)
  have t: "unat (take_bit 12 va) = page_off va" by (simp add: unat_take page_off_def)
  have "unat (push_bit 12 (drop_bit 10 (pte_of s va)) OR take_bit 12 va) = f * 4096 + page_off va"
    by (subst unat_or_disjoint [where k = 12]) (use p t page_no_less in simp_all)
  then have "push_bit 12 (drop_bit 10 (pte_of s va)) OR take_bit 12 va = page_addr f (page_off va)"
    by (intro word_unat_eq_iff [THEN iffD2]) (simp only: unat_page_addr [OF assms(2) page_no_less(2)])
  then show ?thesis using v by (simp add: walk_pt_def Let_def PGSHIFT_def PTE_PPN_SHIFT_def)
qed

text \<open>The pages of the tests.\<close>

lemma test_page:
  assumes "in_test_pages a"
  shows "1 \<le> page_no a" "page_no a < 63" "vpn1 a = 0" "vpn0 a = page_no a"
proof -
  have a: "4096 \<le> unat a" "unat a < 63 * 4096"
    using assms by (simp_all add: in_test_pages_def vm_consts word_le_nat_alt word_less_nat_alt)
  then show p: "1 \<le> page_no a" "page_no a < 63" by (simp_all add: page_no_def)
  show "vpn1 a = 0" "vpn0 a = page_no a" using a p by (simp_all add: vpn1_def vpn0_def page_no_def)
qed

lemma test_page_iff: "in_test_pages a \<longleftrightarrow> 1 \<le> page_no a \<and> page_no a < 63"
  by (auto simp: in_test_pages_def vm_consts word_le_nat_alt word_less_nat_alt page_no_def)

lemma page_start:
  assumes "in_test_pages a"
  shows "unat (a div PGSIZE) = page_no a" "a div PGSIZE * PGSIZE = page_addr (page_no a) 0"
proof -
  show d: "unat (a div PGSIZE) = page_no a" by (simp add: vm_consts unat_div page_no_def)
  have "unat (a div PGSIZE * PGSIZE) = page_no a * 4096"
    by (subst unat_mult_small) (use d test_page [OF assms] in \<open>simp_all add: vm_consts\<close>)
  then show "a div PGSIZE * PGSIZE = page_addr (page_no a) 0"
    using test_page [OF assms] by (intro word_unat_eq_iff [THEN iffD2]) (simp add: unat_page_addr)
qed

lemma kernel_page:
  assumes "p < 63"
  shows "vpn1 (uva2kva (page_addr p 0)) = 1023" "vpn0 (uva2kva (page_addr p 0)) = p" "page_off (uva2kva (page_addr p 0)) = 0"
proof -
  have "uva2kva (page_addr p 0) = page_addr p 0 + 0xFFC00000" by (simp add: uva2kva_def vm_consts)
  moreover have "unat (page_addr p 0 + 0xFFC00000) = p * 4096 + 0xFFC00000"
    by (subst unat_add_small) (use assms in \<open>simp_all add: unat_page_addr\<close>)
  ultimately have u: "unat (uva2kva (page_addr p 0)) = (p + 0xFFC00) * 4096" by simp
  have "unat (uva2kva (page_addr p 0)) div 2 ^ 12 = p + 0xFFC00" by (simp add: u)
  then have "unat (uva2kva (page_addr p 0)) div 2 ^ 22 = (p + 0xFFC00) div 1024"
    using div_mult2_eq [of "unat (uva2kva (page_addr p 0))" "2 ^ 12" "2 ^ 10"] by simp
  then show "vpn1 (uva2kva (page_addr p 0)) = 1023" using assms by (simp add: vpn1_def)
  have "(p + 1023 * 1024) mod 1024 = p mod 1024" by (rule mod_mult_self1)
  then have "(p + 1047552) mod 1024 = p" using assms by simp
  then show "vpn0 (uva2kva (page_addr p 0)) = p" by (simp add: vpn0_def u)
  show "page_off (uva2kva (page_addr p 0)) = 0" by (simp add: page_off_def u)
qed

subsection \<open>The order of the frames\<close>

text \<open>The feedback register runs through all 63 numbers from any of them.\<close>

definition lfsr_orbit :: "32 word list" where
  "lfsr_orbit = [1, 32, 16, 8, 4, 2, 33, 48, 24, 12, 6, 35, 17, 40, 20, 10, 37, 50, 57, 60, 30, 47, 23, 11, 5, 34, 49, 56, 28, 14, 39, 19,
    9, 36, 18, 41, 52, 26, 45, 54, 59, 29, 46, 55, 27, 13, 38, 51, 25, 44, 22, 43, 21, 42, 53, 58, 61, 62, 63, 31, 15, 7, 3]"

lemma lfsr_orbit_step: "map LFSR_NEXT lfsr_orbit = rotate1 lfsr_orbit"
  unfolding lfsr_orbit_def by (simp add: LFSR_NEXT_def)

lemma lfsr_orbit_distinct: "distinct lfsr_orbit" "length lfsr_orbit = 63" "\<forall>x\<in>set lfsr_orbit. 1 \<le> unat x \<and> unat x < 64"
  unfolding lfsr_orbit_def by simp_all

lemma lfsr_orbit_next: "k < 63 \<Longrightarrow> LFSR_NEXT (lfsr_orbit ! k) = lfsr_orbit ! (Suc k mod 63)"
proof -
  assume k: "k < 63"
  then have "LFSR_NEXT (lfsr_orbit ! k) = map LFSR_NEXT lfsr_orbit ! k" by (simp add: lfsr_orbit_distinct)
  also have "\<dots> = lfsr_orbit ! (Suc k mod 63)" unfolding lfsr_orbit_step using k by (simp add: nth_rotate1 lfsr_orbit_distinct)
  finally show ?thesis .
qed

lemma lfsr_orbit_iter: "j < 63 \<Longrightarrow> (LFSR_NEXT ^^ i) (lfsr_orbit ! j) = lfsr_orbit ! ((i + j) mod 63)"
proof (induction i)
  case (Suc i)
  have "(LFSR_NEXT ^^ Suc i) (lfsr_orbit ! j) = LFSR_NEXT (lfsr_orbit ! ((i + j) mod 63))" using Suc by simp
  also have "\<dots> = lfsr_orbit ! (Suc ((i + j) mod 63) mod 63)" by (rule lfsr_orbit_next) simp
  finally show ?case by (simp add: mod_Suc_eq)
qed simp

lemma lfsr_orbit_complete: "1 \<le> unat x \<Longrightarrow> unat x < 64 \<Longrightarrow> x \<in> set lfsr_orbit"
proof -
  assume h: "1 \<le> unat x" "unat x < 64"
  have "list_all (\<lambda>n. word_of_nat n \<in> set lfsr_orbit) [1..<64]"
    unfolding lfsr_orbit_def by (simp add: upt_rec)
  then have "\<forall>n\<in>set [1..<64]. word_of_nat n \<in> set lfsr_orbit" by (simp only: list_all_iff)
  moreover have "unat x \<in> set [1..<64]" using h by simp
  ultimately have "word_of_nat (unat x) \<in> set lfsr_orbit" by blast
  then show ?thesis by simp
qed

definition good_seed :: "32 word \<Rightarrow> bool" where
  "good_seed r0 \<longleftrightarrow> 1 \<le> unat r0 \<and> unat r0 < 64"

definition frame :: "32 word \<Rightarrow> nat \<Rightarrow> nat" where
  "frame r0 i = 0x80000 + 63 + unat ((LFSR_NEXT ^^ i) r0)"

definition node :: "32 word \<Rightarrow> nat \<Rightarrow> freelist_t" where
  "node r0 i = \<lparr>addr = VM_DRAM_BASE + (word_of_nat MAX_TEST_PAGES + (LFSR_NEXT ^^ i) r0) * PGSIZE,
     nxt = (if i = MAX_TEST_PAGES - 1 then None else Some (Free (i + 1)))\<rparr>"

lemma seed_position: "good_seed r0 \<Longrightarrow> \<exists>j<63. r0 = lfsr_orbit ! j"
  using lfsr_orbit_complete [of r0] by (auto simp: good_seed_def in_set_conv_nth lfsr_orbit_distinct)

lemma frame_bounds:
  assumes "good_seed r0"
  shows "0x80000 + 64 \<le> frame r0 i" "frame r0 i < 0x80000 + 127"
proof -
  obtain j where j: "j < 63" "r0 = lfsr_orbit ! j" using seed_position [OF assms] by blast
  have "(LFSR_NEXT ^^ i) r0 \<in> set lfsr_orbit" using j lfsr_orbit_iter [OF j(1), of i] by (simp add: lfsr_orbit_distinct)
  then show "0x80000 + 64 \<le> frame r0 i" "frame r0 i < 0x80000 + 127" using lfsr_orbit_distinct(3) by (auto simp: frame_def)
qed

lemma frame_inj:
  assumes "good_seed r0" "i < 63" "k < 63" "frame r0 i = frame r0 k"
  shows "i = k"
proof -
  obtain j where j: "j < 63" "r0 = lfsr_orbit ! j" using seed_position [OF assms(1)] by blast
  have "lfsr_orbit ! ((i + j) mod 63) = lfsr_orbit ! ((k + j) mod 63)"
    using assms(4) j lfsr_orbit_iter [OF j(1)] by (simp add: frame_def word_unat_eq_iff)
  then have "(i + j) mod 63 = (k + j) mod 63"
    using nth_eq_iff_index_eq [OF lfsr_orbit_distinct(1)] by (simp add: lfsr_orbit_distinct)
  then show ?thesis using assms(2,3) j(1) by (auto simp: mod_if split: if_splits)
qed

lemma node_addr:
  assumes "good_seed r0"
  shows "unat (addr (node r0 i)) = frame r0 i * 4096"
proof -
  define r where "r = (LFSR_NEXT ^^ i) r0"
  have r: "unat r < 64" using frame_bounds [OF assms, of i] by (simp add: frame_def r_def)
  have a: "unat (word_of_nat MAX_TEST_PAGES + r) = 63 + unat r" by (subst unat_add_small) (use r in \<open>simp_all add: vm_consts\<close>)
  have b: "unat ((word_of_nat MAX_TEST_PAGES + r) * PGSIZE) = (63 + unat r) * 4096"
    by (subst unat_mult_small) (use r a in \<open>simp_all add: PGSIZE_def\<close>)
  have "unat (VM_DRAM_BASE + (word_of_nat MAX_TEST_PAGES + r) * PGSIZE) = 0x80000000 + (63 + unat r) * 4096"
    by (subst unat_add_small) (use r b in \<open>simp_all add: VM_DRAM_BASE_def\<close>)
  then show ?thesis by (simp add: node_def frame_def r_def)
qed

lemma node_leaf:
  assumes "good_seed r0"
  shows "push_bit PTE_PPN_SHIFT (drop_bit PGSHIFT (addr (node r0 i))) OR VM_PTE_V OR VM_PTE_U OR VM_PTE_R OR VM_PTE_W OR VM_PTE_X = leaf (frame r0 i) 0x1F"
proof -
  have "unat (drop_bit 12 (addr (node r0 i))) = frame r0 i" by (simp add: unat_drop node_addr [OF assms])
  moreover have "word_of_nat (unat (drop_bit 12 (addr (node r0 i)))) = drop_bit 12 (addr (node r0 i))" by simp
  ultimately have "drop_bit 12 (addr (node r0 i)) = word_of_nat (frame r0 i)" by simp
  then show ?thesis by (simp add: vm_consts leaf_def)
qed

subsection \<open>The invariant of the kernel\<close>

text \<open>\<open>ps\<close> lists the pages that have been faulted in, in the order of the faults; they hold the frames of the
  first nodes of the list, whose rest is free.\<close>

definition paged :: "32 word \<Rightarrow> nat list \<Rightarrow> vm \<Rightarrow> bool" where
  "paged r0 ps s \<longleftrightarrow> good_seed r0 \<and> distinct ps \<and> set ps \<subseteq> {1..<63} \<and>
     length (user_l3pt s) = 1024 \<and> length (kernel_l3pt s) = 1024 \<and> length (user_mapping s) = 63 \<and>
     freelist_nodes s = map (node r0) [0..<63] \<and>
     freelist_head s = Some (Free (length ps)) \<and> freelist_tail s = (if length ps < 62 then Some (Free 62) else None) \<and>
     (\<forall>i<length ps. user_mapping s ! (ps ! i) = node r0 i \<and> user_l3pt s ! (ps ! i) = leaf (frame r0 i) 0xDF) \<and>
     (\<forall>p<1024. p \<notin> set ps \<longrightarrow> user_l3pt s ! p = 0) \<and>
     (\<forall>p<63. p \<notin> set ps \<longrightarrow> addr (user_mapping s ! p) = 0) \<and>
     (\<forall>p<63. kernel_l3pt s ! p = leaf (0x80000 + p) 0xF \<or> kernel_l3pt s ! p = leaf (0x80000 + p) 0x4F)"

text \<open>The bytes of the test pages, in the frames that hold them or still in the image.\<close>

definition shows_memory :: "32 word \<Rightarrow> nat list \<Rightarrow> vm \<Rightarrow> (32 word \<Rightarrow> 8 word) \<Rightarrow> bool" where
  "shows_memory r0 ps s m \<longleftrightarrow>
     (\<forall>i<length ps. \<forall>k<4096. phys s (page_addr (frame r0 i) k) = m (page_addr (ps ! i) k)) \<and>
     (\<forall>p k. 1 \<le> p \<and> p < 63 \<and> p \<notin> set ps \<and> k < 4096 \<longrightarrow> phys s (page_addr (0x80000 + p) k) = m (page_addr p k))"

lemma paged_length: "paged r0 ps s \<Longrightarrow> length ps \<le> 62"
  using card_mono [of "{1..<63::nat}" "set ps"] by (auto simp: paged_def distinct_card)

lemma page_in_table: "in_test_pages a \<Longrightarrow> pte_of s a = user_l3pt s ! page_no a"
  by (simp add: pte_of_def test_page)

lemma walk_mapped:
  assumes "paged r0 ps s" "in_test_pages a" "i < length ps" "ps ! i = page_no a"
  shows "walk_pt s user a = Some (page_addr (frame r0 i) (page_off a))"
proof (rule walk_leaf)
  show "pte_of s a = leaf (frame r0 i) 0xDF" using assms by (simp add: page_in_table paged_def) metis
  have "good_seed r0" using assms(1) by (simp add: paged_def)
  then show "frame r0 i < 2 ^ 20" using frame_bounds [of r0 i] by simp
qed (simp_all add: vm_consts)

lemma walk_unmapped:
  assumes "paged r0 ps s" "in_test_pages a" "page_no a \<notin> set ps"
  shows "walk_pt s user a = None"
  using assms test_page(2) [OF assms(2)] by (simp add: walk_pt_def page_in_table paged_def Let_def)

lemma walk_kernel:
  assumes "\<forall>p<63. kernel_l3pt s ! p = leaf (0x80000 + p) 0xF \<or> kernel_l3pt s ! p = leaf (0x80000 + p) 0x4F" "p < 63"
  shows "walk_pt s False (uva2kva (page_addr p 0)) = Some (page_addr (0x80000 + p) 0)"
proof -
  have "pte_of s (uva2kva (page_addr p 0)) = kernel_l3pt s ! p" using kernel_page [OF assms(2)] by (simp add: pte_of_def)
  then have c: "pte_of s (uva2kva (page_addr p 0)) = leaf (0x80000 + p) 0xF \<or> pte_of s (uva2kva (page_addr p 0)) = leaf (0x80000 + p) 0x4F"
    using assms by simp
  have "walk_pt s False (uva2kva (page_addr p 0)) = Some (page_addr (0x80000 + p) (page_off (uva2kva (page_addr p 0))))"
    using c
  proof
    assume "pte_of s (uva2kva (page_addr p 0)) = leaf (0x80000 + p) 0xF"
    then show ?thesis by (rule walk_leaf) (use assms(2) in \<open>simp_all add: vm_consts\<close>)
  next
    assume "pte_of s (uva2kva (page_addr p 0)) = leaf (0x80000 + p) 0x4F"
    then show ?thesis by (rule walk_leaf) (use assms(2) in \<open>simp_all add: vm_consts\<close>)
  qed
  then show ?thesis by (simp add: kernel_page(3) [OF assms(2)])
qed

lemma kernel_mark:
  assumes "length k = 1024" "\<forall>p<63. k ! p = leaf (0x80000 + p) 0xF \<or> k ! p = leaf (0x80000 + p) 0x4F" "q < 63"
  shows "\<forall>p<63. k[q := k ! q OR VM_PTE_A] ! p = leaf (0x80000 + p) 0xF \<or> k[q := k ! q OR VM_PTE_A] ! p = leaf (0x80000 + p) 0x4F"
proof (intro allI impI)
  fix p :: nat assume p: "p < 63"
  have "leaf (0x80000 + q) 0xF OR VM_PTE_A = leaf (0x80000 + q) 0x4F" "leaf (0x80000 + q) 0x4F OR VM_PTE_A = leaf (0x80000 + q) 0x4F"
    by (simp_all add: leaf_or vm_consts)
  then have "k ! q OR VM_PTE_A = leaf (0x80000 + q) 0x4F" using assms(2,3) by auto
  then show "k[q := k ! q OR VM_PTE_A] ! p = leaf (0x80000 + p) 0xF \<or> k[q := k ! q OR VM_PTE_A] ! p = leaf (0x80000 + p) 0x4F"
    using assms p by (cases "p = q") simp_all
qed

text \<open>Marking a page that is marked changes nothing.\<close>

lemma mark_mapped:
  assumes "paged r0 ps s" "in_test_pages a" "page_no a \<in> set ps" "bits OR 0xDF = 0xDF"
  shows "mark bits a s = s"
proof -
  obtain i where i: "i < length ps" "ps ! i = page_no a" using assms(3) by (auto simp: in_set_conv_nth)
  then have "user_l3pt s ! page_no a = leaf (frame r0 i) 0xDF" using assms(1) by (auto simp: paged_def)
  moreover have "leaf (frame r0 i) 0xDF OR bits = leaf (frame r0 i) (0xDF OR bits)" by (rule leaf_or)
  moreover have "0xDF OR bits = 0xDF" using assms(4) by (simp only: or.commute)
  ultimately have "user_l3pt s ! page_no a OR bits = user_l3pt s ! page_no a" by simp
  then show ?thesis using test_page [OF assms(2)] by (simp add: mark_def)
qed

subsection \<open>Boot\<close>

lemma boot_lists_frame:
  "phys (boot_lists n r i s) = phys s \<and> user_l3pt (boot_lists n r i s) = user_l3pt s \<and> user_mapping (boot_lists n r i s) = user_mapping s \<and>
   freelist_head (boot_lists n r i s) = freelist_head s \<and> freelist_tail (boot_lists n r i s) = freelist_tail s \<and>
   length (freelist_nodes (boot_lists n r i s)) = length (freelist_nodes s) \<and> length (kernel_l3pt (boot_lists n r i s)) = length (kernel_l3pt s)"
  by (induction n r i s rule: boot_lists.induct) simp_all

lemma boot_lists_nth:
  "i + n \<le> length (freelist_nodes s) \<Longrightarrow> i + n \<le> length (kernel_l3pt s) \<Longrightarrow>
    (\<forall>j. freelist_nodes (boot_lists n r i s) ! j =
      (if i \<le> j \<and> j < i + n then \<lparr>addr = VM_DRAM_BASE + (word_of_nat MAX_TEST_PAGES + (LFSR_NEXT ^^ (j - i)) r) * PGSIZE, nxt = Some (Free (j + 1))\<rparr>
       else freelist_nodes s ! j)) \<and>
    (\<forall>j. kernel_l3pt (boot_lists n r i s) ! j =
      (if i \<le> j \<and> j < i + n then push_bit PTE_PPN_SHIFT (word_of_nat j + VM_DRAM_BASE div PGSIZE) OR VM_PTE_V OR VM_PTE_R OR VM_PTE_W OR VM_PTE_X
       else kernel_l3pt s ! j))"
proof (induction n arbitrary: r i s)
  case (Suc n)
  have iter: "(LFSR_NEXT ^^ (j - Suc i)) (LFSR_NEXT r) = (LFSR_NEXT ^^ (j - i)) r" if "Suc i \<le> j" for j
  proof -
    have "j - i = Suc (j - Suc i)" using that by simp
    then show ?thesis by (simp only: funpow_Suc_right o_apply)
  qed
  show ?case
    unfolding boot_lists.simps
    using Suc.IH [of "i + 1" _ "LFSR_NEXT r"] Suc.prems iter
    by (auto simp: not_le less_Suc_eq_le le_less)
qed auto

lemma boot_seed: "good_seed (1 + ENTROPY mod word_of_nat MAX_TEST_PAGES)"
proof -
  have "unat (ENTROPY mod 63) = unat ENTROPY mod 63" by (simp add: unat_mod)
  then have "unat (1 + ENTROPY mod 63) = 1 + unat ENTROPY mod 63" by (subst unat_add_small) simp_all
  then show ?thesis by (simp add: good_seed_def vm_consts)
qed

lemma boot_paged: "paged (1 + ENTROPY mod word_of_nat MAX_TEST_PAGES) [] (vm_boot ENTROPY dram)"
proof -
  define r where "r = 1 + ENTROPY mod word_of_nat MAX_TEST_PAGES"
  define s0 where "s0 = \<lparr>phys = dram, user_l3pt = replicate PTES_PER_PT 0, kernel_l3pt = replicate PTES_PER_PT 0,
               user_mapping = replicate MAX_TEST_PAGES \<lparr>addr = 0, nxt = None\<rparr>,
               freelist_nodes = replicate MAX_TEST_PAGES \<lparr>addr = 0, nxt = None\<rparr>,
               freelist_head = Some (Free 0), freelist_tail = Some (Free (MAX_TEST_PAGES - 1))\<rparr>"
  define s where "s = boot_lists MAX_TEST_PAGES r 0 s0"
  have boot: "vm_boot ENTROPY dram = s\<lparr>freelist_nodes := (freelist_nodes s)[62 := (freelist_nodes s ! 62)\<lparr>nxt := None\<rparr>]\<rparr>"
    by (simp add: vm_boot_def Let_def s_def s0_def r_def MAX_TEST_PAGES_def)
  have frame: "phys s = dram" "user_l3pt s = replicate 1024 0" "user_mapping s = replicate 63 \<lparr>addr = 0, nxt = None\<rparr>"
    "freelist_head s = Some (Free 0)" "freelist_tail s = Some (Free 62)" "length (freelist_nodes s) = 63" "length (kernel_l3pt s) = 1024"
    unfolding s_def by (simp_all add: boot_lists_frame s0_def PTES_PER_PT_def MAX_TEST_PAGES_def)
  have nth: "\<forall>j<63. freelist_nodes s ! j = \<lparr>addr = VM_DRAM_BASE + (word_of_nat MAX_TEST_PAGES + (LFSR_NEXT ^^ j) r) * PGSIZE, nxt = Some (Free (j + 1))\<rparr>"
    "\<forall>j<63. kernel_l3pt s ! j = push_bit PTE_PPN_SHIFT (word_of_nat j + VM_DRAM_BASE div PGSIZE) OR VM_PTE_V OR VM_PTE_R OR VM_PTE_W OR VM_PTE_X"
    using boot_lists_nth [of 0 MAX_TEST_PAGES s0 r] unfolding s_def
    by (simp_all add: s0_def PTES_PER_PT_def MAX_TEST_PAGES_def)
  have "freelist_nodes (vm_boot ENTROPY dram) = map (node r) [0..<63]"
    unfolding boot using frame(6) nth(1) by (intro nth_equalityI) (auto simp: nth_list_update node_def MAX_TEST_PAGES_def)
  moreover have "kernel_l3pt s ! p = leaf (0x80000 + p) 0xF" if "p < 63" for p
  proof -
    have d: "VM_DRAM_BASE div PGSIZE = 0x80000"
      by (intro word_unat_eq_iff [THEN iffD2]) (simp add: unat_div VM_DRAM_BASE_def PGSIZE_def)
    have "VM_PTE_V OR VM_PTE_R OR VM_PTE_W OR VM_PTE_X = 0xF" by (simp add: vm_consts)
    then show ?thesis using nth(2) that unfolding d by (simp add: leaf_def PTE_PPN_SHIFT_def add.commute)
  qed
  ultimately show ?thesis
    unfolding paged_def r_def [symmetric] using frame boot boot_seed [of ENTROPY] by (simp add: r_def)
qed

lemma boot_shows: "shows_memory r0 [] (vm_boot ENTROPY dram) (\<lambda>a. dram (VM_DRAM_BASE + a))"
proof -
  have "phys (vm_boot ENTROPY dram) = dram" by (simp add: vm_boot_def Let_def boot_lists_frame)
  moreover have "page_addr (0x80000 + p) k = VM_DRAM_BASE + page_addr p k" for p k
    by (simp add: page_addr_def VM_DRAM_BASE_def algebra_simps)
  ultimately show ?thesis by (simp add: shows_memory_def)
qed

subsection \<open>A fault\<close>

lemma fault_page:
  assumes p: "paged r0 ps s" and m: "shows_memory r0 ps s m" and a: "in_test_pages a" and new: "page_no a \<notin> set ps"
  shows "\<exists>s'. handle_fault a s = Resume s' \<and> paged r0 (ps @ [page_no a]) s' \<and> shows_memory r0 (ps @ [page_no a]) s' m"
proof -
  define n where "n = length ps"
  define q where "q = page_no a"
  have q: "1 \<le> q" "q < 63" using test_page [OF a] by (simp_all add: q_def)
  have seed: "good_seed r0" using p by (simp add: paged_def)
  have n62: "n < 62"
  proof -
    have "card (insert q (set ps)) \<le> card {1..<63::nat}" using p q by (intro card_mono) (auto simp: paged_def)
    then show ?thesis using new p by (simp add: n_def q_def paged_def distinct_card)
  qed
  have head: "freelist_head s = Some (Free n)" and tail: "freelist_tail s = Some (Free 62)" and nodes: "freelist_nodes s = map (node r0) [0..<63]"
    using p n62 by (simp_all add: paged_def n_def)
  have at: "node_at s (Free n) = node r0 n" using n62 by (simp add: nodes)
  define s1 where "s1 = s\<lparr>freelist_head := Some (Free (n + 1)), freelist_tail := (if n + 1 = 62 then None else freelist_tail s),
    user_l3pt := (user_l3pt s)[q := leaf (frame r0 n) 0x1F], user_mapping := (user_mapping s)[q := node r0 n]\<rparr>"
  have start: "unat (page_addr q 0 div PGSIZE) = q"
    using q by (simp add: unat_div unat_page_addr PGSIZE_def)
  have unmapped: "addr (user_mapping s ! q) = 0" using p new q by (simp add: paged_def q_def)
  have last: "(Some (Free (Suc n)) = freelist_tail s) = (n = 61)" "nxt (node r0 n) = Some (Free (Suc n))"
    using tail n62 by (auto simp: node_def MAX_TEST_PAGES_def)
  have fault: "handle_fault a s = (case copy_page (page_addr q 0) (uva2kva (page_addr q 0)) s1 of None \<Rightarrow> Stuck | Some s \<Rightarrow> Resume s)"
    unfolding handle_fault_def Let_def assert_that_def page_start(2) [OF a] q_def [symmetric] start head option.case at node_leaf [OF seed]
    using a unmapped n62 last by (auto simp: s1_def node_def MAX_TEST_PAGES_def)
  have len: "length (user_l3pt s) = 1024" "length (kernel_l3pt s) = 1024" "length (user_mapping s) = 63" using p by (simp_all add: paged_def)
  have test_q: "in_test_pages (page_addr q 0)" using q by (simp add: test_page_iff page_no_addr)
  have qq: "page_no (page_addr q 0) = q" "page_off (page_addr q 0) = 0" using q by (simp_all add: page_no_addr page_off_addr)
  have fb: "frame r0 n < 2 ^ 20" using frame_bounds [OF seed, of n] by simp
  have w1: "walk_pt s1 False (page_addr q 0) = Some (page_addr (frame r0 n) 0)"
  proof -
    have "pte_of s1 (page_addr q 0) = leaf (frame r0 n) 0x1F" using page_in_table [OF test_q, of s1] qq q len by (simp add: s1_def)
    then have "walk_pt s1 False (page_addr q 0) = Some (page_addr (frame r0 n) (page_off (page_addr q 0)))"
      by (rule walk_leaf) (use fb in \<open>simp_all add: vm_consts\<close>)
    then show ?thesis by (simp add: qq)
  qed
  have kern: "\<forall>p<63. kernel_l3pt s1 ! p = leaf (0x80000 + p) 0xF \<or> kernel_l3pt s1 ! p = leaf (0x80000 + p) 0x4F"
    using p by (simp add: paged_def s1_def)
  have w2: "walk_pt s1 False (uva2kva (page_addr q 0)) = Some (page_addr (0x80000 + q) 0)"
    by (rule walk_kernel [OF kern q(2)])
  define s2 where "s2 = mark (VM_PTE_A OR VM_PTE_D) (page_addr q 0) (mark VM_PTE_A (uva2kva (page_addr q 0)) s1)"
  define s' where "s' = s2\<lparr>phys := (\<lambda>x. if page_no x = frame r0 n then phys s1 (page_addr (0x80000 + q) (page_off x)) else phys s1 x)\<rparr>"
  have copy: "copy_page (page_addr q 0) (uva2kva (page_addr q 0)) s1 = Some s'"
  proof -
    have d: "drop_bit PGSHIFT x = drop_bit PGSHIFT (page_addr (frame r0 n) 0) \<longleftrightarrow> page_no x = frame r0 n" for x
      using unat_page_addr [OF fb, of 0] by (simp add: word_unat_eq_iff unat_drop PGSHIFT_def page_no_def)
    have o': "page_addr (0x80000 + q) 0 OR take_bit PGSHIFT x = page_addr (0x80000 + q) (page_off x)" for x
    proof (rule word_unat_eq_iff [THEN iffD2])
      have t: "unat (take_bit PGSHIFT x) = page_off x" by (simp add: unat_take PGSHIFT_def page_off_def)
      show "unat (page_addr (0x80000 + q) 0 OR take_bit PGSHIFT x) = unat (page_addr (0x80000 + q) (page_off x))"
        by (subst unat_or_disjoint [where k = 12]) (use q t page_no_less(2) [of x] in \<open>simp_all add: unat_page_addr\<close>)
    qed
    show ?thesis by (simp only: copy_page_def w1 w2 prod.case option.case d o' s'_def s2_def)
  qed
  have s2: "s2 = s1\<lparr>kernel_l3pt := (kernel_l3pt s)[q := kernel_l3pt s ! q OR VM_PTE_A], user_l3pt := (user_l3pt s)[q := leaf (frame r0 n) 0xDF]\<rparr>"
    using kernel_page(1,2) [OF q(2)] test_page(3,4) [OF test_q] qq q len
    by (simp add: s2_def mark_def s1_def leaf_or) (simp add: vm_consts)
  have pg: "paged r0 (ps @ [q]) s'"
    unfolding paged_def
  proof (intro conjI)
    show "good_seed r0" "distinct (ps @ [q])" "set (ps @ [q]) \<subseteq> {1..<63}" using p new q by (auto simp: paged_def q_def)
    show "length (user_l3pt s') = 1024" "length (kernel_l3pt s') = 1024" "length (user_mapping s') = 63"
      "freelist_nodes s' = map (node r0) [0..<63]" "freelist_head s' = Some (Free (length (ps @ [q])))"
      "freelist_tail s' = (if length (ps @ [q]) < 62 then Some (Free 62) else None)"
      using len nodes n62 tail by (simp_all add: s'_def s2 s1_def n_def)
    have ne: "ps ! i \<noteq> q" if "i < n" for i using new that unfolding q_def n_def by (metis nth_mem)
    show "\<forall>i<length (ps @ [q]). user_mapping s' ! ((ps @ [q]) ! i) = node r0 i \<and> user_l3pt s' ! ((ps @ [q]) ! i) = leaf (frame r0 i) 0xDF"
    proof (intro allI impI)
      fix i assume i: "i < length (ps @ [q])"
      show "user_mapping s' ! ((ps @ [q]) ! i) = node r0 i \<and> user_l3pt s' ! ((ps @ [q]) ! i) = leaf (frame r0 i) 0xDF"
      proof (cases "i = n")
        case True
        then show ?thesis using q len by (simp add: s'_def s2 s1_def n_def)
      next
        case False
        then have "i < length ps" using i by (simp add: n_def)
        then show ?thesis using p ne [of i] by (simp add: s'_def s2 s1_def n_def nth_append paged_def)
      qed
    qed
    show "\<forall>p<1024. p \<notin> set (ps @ [q]) \<longrightarrow> user_l3pt s' ! p = 0" "\<forall>p<63. p \<notin> set (ps @ [q]) \<longrightarrow> addr (user_mapping s' ! p) = 0"
      using p by (simp_all add: s'_def s2 s1_def paged_def)
    have "\<forall>p<63. kernel_l3pt s ! p = leaf (0x80000 + p) 0xF \<or> kernel_l3pt s ! p = leaf (0x80000 + p) 0x4F" using p by (simp add: paged_def)
    from kernel_mark [OF len(2) this q(2)]
    show "\<forall>p<63. kernel_l3pt s' ! p = leaf (0x80000 + p) 0xF \<or> kernel_l3pt s' ! p = leaf (0x80000 + p) 0x4F"
      by (simp add: s'_def s2 s1_def)
  qed
  have phys: "phys s' x = (if page_no x = frame r0 n then phys s (page_addr (0x80000 + q) (page_off x)) else phys s x)" for x
    by (simp add: s'_def s1_def)
  have "shows_memory r0 (ps @ [q]) s' m"
    unfolding shows_memory_def
  proof (intro conjI allI impI)
    fix i k :: nat assume i: "i < length (ps @ [q])" and k: "k < 4096"
    have fi: "frame r0 i < 2 ^ 20" using frame_bounds [OF seed, of i] by simp
    show "phys s' (page_addr (frame r0 i) k) = m (page_addr ((ps @ [q]) ! i) k)"
      proof (cases "i = n")
        case True
        have "1 \<le> q \<and> q < 63 \<and> q \<notin> set ps \<and> k < 4096" using q new k by (simp add: q_def)
        then have "phys s (page_addr (0x80000 + q) k) = m (page_addr q k)" using m unfolding shows_memory_def by blast
        then show ?thesis using True fi k by (simp add: phys page_no_addr page_off_addr n_def)
      next
        case False
        then have i': "i < n" using i by (simp add: n_def)
        then have "frame r0 i \<noteq> frame r0 n" using frame_inj [OF seed, of i n] n62 by auto
        moreover have "phys s (page_addr (frame r0 i) k) = m (page_addr (ps ! i) k)" using m i' k by (simp add: shows_memory_def n_def)
        ultimately show ?thesis using fi k i' by (simp add: phys page_no_addr nth_append n_def)
      qed
  next
    fix i k :: nat assume i: "1 \<le> i \<and> i < 63 \<and> i \<notin> set (ps @ [q]) \<and> k < 4096"
    then have "0x80000 + i \<noteq> frame r0 n" using frame_bounds(1) [OF seed, of n] by simp
    then show "phys s' (page_addr (0x80000 + i) k) = m (page_addr i k)"
      using m i by (simp add: phys page_no_addr shows_memory_def)
  qed
  moreover have "handle_fault a s = Resume s'" by (simp add: fault copy)
  ultimately show ?thesis using pg unfolding q_def by blast
qed

subsection \<open>The end of a test\<close>

definition evictable :: "vm \<Rightarrow> bool" where
  "evictable s \<longleftrightarrow> length (user_l3pt s) = 1024 \<and> length (kernel_l3pt s) = 1024 \<and> length (user_mapping s) = 63 \<and>
     (\<forall>p. 1 \<le> p \<and> p < 63 \<and> addr (user_mapping s ! p) \<noteq> 0 \<longrightarrow> (\<exists>f<2 ^ 20. user_l3pt s ! p = leaf f 0xDF)) \<and>
     (\<forall>p<63. kernel_l3pt s ! p = leaf (0x80000 + p) 0xF \<or> kernel_l3pt s ! p = leaf (0x80000 + p) 0x4F)"

lemma paged_evictable: "paged r0 ps s \<Longrightarrow> evictable s"
proof -
  assume p: "paged r0 ps s"
  have "\<exists>f<2 ^ 20. user_l3pt s ! q = leaf f 0xDF" if q: "1 \<le> q" "q < 63" "addr (user_mapping s ! q) \<noteq> 0" for q
  proof -
    have "q \<in> set ps" using p q by (auto simp: paged_def)
    then obtain i where "i < length ps" "ps ! i = q" by (auto simp: in_set_conv_nth)
    then have "user_l3pt s ! q = leaf (frame r0 i) 0xDF" "good_seed r0" using p by (auto simp: paged_def)
    then show ?thesis using frame_bounds [of r0 i] by (intro exI [of _ "frame r0 i"]) simp
  qed
  then show ?thesis using p by (simp add: evictable_def paged_def)
qed

lemma evictable_marks:
  assumes "evictable s" "1 \<le> p" "p < 63" "addr (user_mapping s ! p) \<noteq> 0" "bits OR 0xDF = 0xDF"
  shows "\<exists>k. mark bits (page_addr p 0) (mark VM_PTE_A (uva2kva (page_addr p 0)) s) = s\<lparr>kernel_l3pt := k\<rparr> \<and> evictable (s\<lparr>kernel_l3pt := k\<rparr>)"
    and "mark VM_PTE_A (page_addr p 0) (mark VM_PTE_A (uva2kva (page_addr p 0)) s) = mark bits (page_addr p 0) (mark VM_PTE_A (uva2kva (page_addr p 0)) s)"
proof -
  have t: "in_test_pages (page_addr p 0)" and pp: "page_no (page_addr p 0) = p" using assms(2,3) by (simp_all add: test_page_iff page_no_addr)
  obtain f where f: "user_l3pt s ! p = leaf f 0xDF" using assms(1-4) by (auto simp: evictable_def)
  have same: "(user_l3pt s)[p := user_l3pt s ! p OR b] = user_l3pt s" if "b OR 0xDF = 0xDF" for b
  proof -
    have "0xDF OR b = 0xDF" using that by (simp only: or.commute)
    then have "user_l3pt s ! p OR b = user_l3pt s ! p" unfolding f leaf_or by simp
    then show ?thesis by simp
  qed
  define k where "k = (kernel_l3pt s)[p := kernel_l3pt s ! p OR VM_PTE_A]"
  have m: "mark b (page_addr p 0) (mark VM_PTE_A (uva2kva (page_addr p 0)) s) = s\<lparr>kernel_l3pt := k\<rparr>" if "b OR 0xDF = 0xDF" for b
    using kernel_page(1,2) [OF assms(3)] test_page(3,4) [OF t] pp same [OF that] by (simp add: mark_def k_def)
  have "evictable (s\<lparr>kernel_l3pt := k\<rparr>)"
    using assms(1) kernel_mark [of "kernel_l3pt s" p] assms(3) unfolding evictable_def k_def by simp
  then show "\<exists>k. mark bits (page_addr p 0) (mark VM_PTE_A (uva2kva (page_addr p 0)) s) = s\<lparr>kernel_l3pt := k\<rparr> \<and> evictable (s\<lparr>kernel_l3pt := k\<rparr>)"
    using m [OF assms(5)] by blast
  have "VM_PTE_A OR 0xDF = 0xDF" by (simp add: vm_consts)
  then show "mark VM_PTE_A (page_addr p 0) (mark VM_PTE_A (uva2kva (page_addr p 0)) s) = mark bits (page_addr p 0) (mark VM_PTE_A (uva2kva (page_addr p 0)) s)"
    using m assms(5) by simp
qed

lemma evictable_walks:
  assumes "evictable s" "1 \<le> p" "p < 63" "addr (user_mapping s ! p) \<noteq> 0"
  shows "\<exists>d. walk_pt s False (page_addr p 0) = Some d" "\<exists>d. walk_pt s False (uva2kva (page_addr p 0)) = Some d"
    "user_l3pt s ! p AND VM_PTE_A \<noteq> 0" "user_l3pt s ! p AND VM_PTE_D \<noteq> 0"
proof -
  have t: "in_test_pages (page_addr p 0)" and pp: "page_no (page_addr p 0) = p" using assms(2,3) by (simp_all add: test_page_iff page_no_addr)
  obtain f where f: "user_l3pt s ! p = leaf f 0xDF" "f < 2 ^ 20" using assms by (auto simp: evictable_def)
  have "pte_of s (page_addr p 0) = leaf f 0xDF" using page_in_table [OF t, of s] pp f by simp
  then show "\<exists>d. walk_pt s False (page_addr p 0) = Some d" using walk_leaf [of s "page_addr p 0" f "0xDF" False] f(2) by (simp add: vm_consts)
  show "\<exists>d. walk_pt s False (uva2kva (page_addr p 0)) = Some d"
    using walk_kernel [of s p] assms by (auto simp: evictable_def)
  show "user_l3pt s ! p AND VM_PTE_A \<noteq> 0" "user_l3pt s ! p AND VM_PTE_D \<noteq> 0"
    unfolding f(1) by (simp_all add: leaf_and vm_consts)
qed

lemma evictable_phys: "evictable s \<Longrightarrow> evictable (s\<lparr>phys := f\<rparr>)"
  by (simp add: evictable_def)

lemma evictable_release:
  assumes "evictable s" "p < 63"
  shows "evictable (release_node p s)"
proof -
  define s1 where "s1 = s\<lparr>user_mapping := (user_mapping s)[p := (user_mapping s ! p)\<lparr>addr := 0\<rparr>]\<rparr>"
  have "addr (user_mapping s1 ! q) = (if q = p then 0 else addr (user_mapping s ! q))" for q
    using assms by (cases "q = p") (simp_all add: s1_def evictable_def)
  then have one: "evictable s1"
    using assms unfolding evictable_def by (auto simp: s1_def)
  have "addr (user_mapping (set_node t ((node_at s1 t)\<lparr>nxt := x\<rparr>) s1) ! q) = addr (user_mapping s1 ! q)" for t x q
    by (cases t; cases "Mapping q = t"; cases "q < length (user_mapping s1)") (auto simp: list_update_beyond)
  moreover have "user_l3pt (set_node t n s1) = user_l3pt s1 \<and> kernel_l3pt (set_node t n s1) = kernel_l3pt s1 \<and>
      length (user_mapping (set_node t n s1)) = length (user_mapping s1)" for t n
    by (cases t) simp_all
  ultimately have two: "evictable (set_node t ((node_at s1 t)\<lparr>nxt := x\<rparr>) s1)" for t x
    using one by (simp add: evictable_def)
  have keep: "evictable (s\<lparr>freelist_head := h, freelist_tail := t\<rparr>)" "evictable (s\<lparr>freelist_tail := t\<rparr>)" if "evictable s" for s h t
    using that by (simp_all add: evictable_def)
  show ?thesis unfolding release_node_def s1_def [symmetric] Let_def
    by (cases "freelist_tail s1") (simp_all add: one two keep)
qed

lemma evict_ok:
  assumes "evictable s" "1 \<le> p" "p < 63"
  shows "\<exists>s'. evict (word_of_nat p * PGSIZE) s = Resume s' \<and> evictable s'"
proof -
  have a: "word_of_nat p * PGSIZE = page_addr p 0" by (simp add: page_addr_def PGSIZE_def)
  have t: "in_test_pages (page_addr p 0)" and pp: "page_no (page_addr p 0) = p" using assms(2,3) by (simp_all add: test_page_iff page_no_addr)
  note start = page_start(2) [OF t, unfolded pp]
  have ix: "unat (page_addr p 0 div PGSIZE) = p" using page_start(1) [OF t] pp by simp
  show ?thesis
  proof (cases "addr (user_mapping s ! p) = 0")
    case True
    then show ?thesis using t assms(1) by (simp add: a evict_def assert_that_def start ix)
  next
    case False
    note w = evictable_walks [OF assms False]
    obtain d e where de: "walk_pt s False (page_addr p 0) = Some d" "walk_pt s False (uva2kva (page_addr p 0)) = Some e" using w(1,2) by blast
    have bits: "VM_PTE_A OR 0xDF = 0xDF" "(VM_PTE_A OR VM_PTE_D) OR 0xDF = 0xDF" by (simp_all add: vm_consts)
    obtain k where k: "mark VM_PTE_A (page_addr p 0) (mark VM_PTE_A (uva2kva (page_addr p 0)) s) = s\<lparr>kernel_l3pt := k\<rparr>" "evictable (s\<lparr>kernel_l3pt := k\<rparr>)"
      using evictable_marks(1) [OF assms False bits(1)] by blast
    define s1 where "s1 = s\<lparr>kernel_l3pt := k\<rparr>"
    obtain b where sp: "same_page (page_addr p 0) (uva2kva (page_addr p 0)) s = Some (b, s1)"
      by (simp add: same_page_def de k(1) s1_def)
    have s1: "evictable s1" "addr (user_mapping s1 ! p) \<noteq> 0" using k(2) False by (simp_all add: s1_def)
    note w1 = evictable_walks [OF s1(1) assms(2,3) s1(2)]
    obtain d' e' where de': "walk_pt s1 False (page_addr p 0) = Some d'" "walk_pt s1 False (uva2kva (page_addr p 0)) = Some e'" using w1(1,2) by blast
    obtain k' where k': "mark (VM_PTE_A OR VM_PTE_D) (page_addr p 0) (mark VM_PTE_A (uva2kva (page_addr p 0)) s1) = s1\<lparr>kernel_l3pt := k'\<rparr>"
      "evictable (s1\<lparr>kernel_l3pt := k'\<rparr>)"
      using evictable_marks(1) [OF s1(1) assms(2,3) s1(2) bits(2)] by blast
    obtain s2 where cp: "copy_page (page_addr p 0) (uva2kva (page_addr p 0)) s1 = Some s2" "evictable s2"
      using evictable_phys [OF k'(2)] by (simp add: copy_page_def de' k'(1))
    show ?thesis
      using t False w(3) w1(4) evictable_release [OF s1(1) assms(3)] evictable_release [OF cp(2) assms(3)] sp cp(1)
      by (simp add: a evict_def assert_that_def start ix Let_def)
  qed
qed

lemma evict_all_ok: "evictable s \<Longrightarrow> \<forall>i\<in>set is. 1 \<le> i \<and> i < 63 \<Longrightarrow> \<exists>s'. evict_all is s = Resume s'"
proof (induction "is" arbitrary: s)
  case (Cons i "is")
  then obtain s' where "evict (word_of_nat i * PGSIZE) s = Resume s'" "evictable s'" using evict_ok [of s i] by auto
  then show ?case using Cons by simp
qed simp

lemma ecall_terminates: "paged r0 ps s \<Longrightarrow> vm_handle_trap fssr USER_ECALL n epc insn badvaddr s = Terminated n"
  using evict_all_ok [OF paged_evictable, of r0 ps s "[1..<MAX_TEST_PAGES]"]
  by (auto simp: vm_handle_trap_def MAX_TEST_PAGES_def)

subsection \<open>The accesses of the program\<close>

lemma load_mapped:
  assumes "paged r0 ps s" "shows_memory r0 ps s m" "in_test_pages a" "page_no a \<in> set ps"
  shows "load_byte True a s = Some (m a, s)"
proof -
  obtain i where i: "i < length ps" "ps ! i = page_no a" using assms(4) by (auto simp: in_set_conv_nth)
  have "phys s (page_addr (frame r0 i) (page_off a)) = m (page_addr (ps ! i) (page_off a))"
    using assms(2) i(1) page_no_less(2) [of a] by (simp add: shows_memory_def)
  then show ?thesis
    using walk_mapped [OF assms(1,3) i] mark_mapped [OF assms(1,3,4), of VM_PTE_A] i(2)
    by (simp add: load_byte_def page_addr_split) (simp add: vm_consts)
qed

lemma store_mapped:
  assumes "paged r0 ps s" "shows_memory r0 ps s m" "in_test_pages a" "page_no a \<in> set ps"
  shows "\<exists>s'. store_byte True a v s = Some s' \<and> paged r0 ps s' \<and> shows_memory r0 ps s' (m(a := v))"
proof -
  obtain i where i: "i < length ps" "ps ! i = page_no a" using assms(4) by (auto simp: in_set_conv_nth)
  define x where "x = page_addr (frame r0 i) (page_off a)"
  have seed: "good_seed r0" using assms(1) by (simp add: paged_def)
  have fr: "frame r0 j < 2 ^ 20" for j using frame_bounds [OF seed, of j] by simp
  have "(VM_PTE_A OR VM_PTE_D) OR 0xDF = 0xDF" by (simp add: vm_consts)
  then have st: "store_byte True a v s = Some (s\<lparr>phys := (phys s)(x := v)\<rparr>)"
    using walk_mapped [OF assms(1,3) i] mark_mapped [OF assms(1,3,4)] by (simp add: store_byte_def x_def)
  have n: "length ps < 63" using paged_length [OF assms(1)] by simp
  have ak: "a = page_addr p k \<longleftrightarrow> page_no a = p \<and> page_off a = k" if "p < 63" "k < 4096" for p k
    using page_addr_eq [of "page_no a" "page_off a" p k] page_no_less [of a] that by (simp add: page_addr_split)
  have "shows_memory r0 ps (s\<lparr>phys := (phys s)(x := v)\<rparr>) (m(a := v))"
    unfolding shows_memory_def
  proof (intro conjI allI impI)
    fix j k :: nat assume j: "j < length ps" and k: "k < 4096"
    have pj: "ps ! j < 63" using assms(1) nth_mem [OF j] by (auto simp: paged_def)
    have "page_addr (frame r0 j) k = x \<longleftrightarrow> frame r0 j = frame r0 i \<and> k = page_off a"
      unfolding x_def by (rule page_addr_eq) (use fr k page_no_less(2) [of a] in auto)
    also have "\<dots> \<longleftrightarrow> j = i \<and> k = page_off a" using frame_inj [OF seed, of j i] j i(1) n by auto
    also have "\<dots> \<longleftrightarrow> page_addr (ps ! j) k = a"
    proof -
      have "j = i \<longleftrightarrow> ps ! j = page_no a" using assms(1) i j nth_eq_iff_index_eq [of ps j i] by (auto simp: paged_def)
      then show ?thesis using ak [OF pj k] by auto
    qed
    finally show "phys (s\<lparr>phys := (phys s)(x := v)\<rparr>) (page_addr (frame r0 j) k) = (m(a := v)) (page_addr (ps ! j) k)"
      using assms(2) j k by (simp add: shows_memory_def)
  next
    fix p k :: nat assume p: "1 \<le> p \<and> p < 63 \<and> p \<notin> set ps \<and> k < 4096"
    have "page_addr (0x80000 + p) k \<noteq> x"
      using page_addr_eq [of "0x80000 + p" k "frame r0 i" "page_off a"] fr [of i] p page_no_less(2) [of a] frame_bounds(1) [OF seed, of i]
      by (auto simp: x_def)
    moreover have "page_addr p k \<noteq> a" using ak [of p k] p assms(4) by auto
    ultimately show "phys (s\<lparr>phys := (phys s)(x := v)\<rparr>) (page_addr (0x80000 + p) k) = (m(a := v)) (page_addr p k)"
      using assms(2) p by (simp add: shows_memory_def)
  qed
  moreover have "paged r0 ps (s\<lparr>phys := (phys s)(x := v)\<rparr>)" using assms(1) by (simp add: paged_def)
  ultimately show ?thesis using st by blast
qed

lemma fault_miss:
  assumes "paged r0 ps s" "shows_memory r0 ps s m" "in_test_pages a" "page_no a \<notin> set ps"
  shows "load_byte True a s = None" "store_byte True a v s = None"
    "\<exists>s'. vm_handle_trap fssr FAULT_LOAD a0 epc insn a s = Resume s' \<and> paged r0 (ps @ [page_no a]) s' \<and> shows_memory r0 (ps @ [page_no a]) s' m"
    "vm_handle_trap fssr FAULT_STORE a0 epc insn a s = vm_handle_trap fssr FAULT_LOAD a0 epc insn a s"
  using walk_unmapped [OF assms(1,3,4)] fault_page [OF assms]
  by (simp_all add: load_byte_def store_byte_def vm_handle_trap_def)

fun in_range :: "user_op \<Rightarrow> bool" where
  "in_range (Load a) \<longleftrightarrow> in_test_pages a"
| "in_range (Store a v) \<longleftrightarrow> in_test_pages a"
| "in_range (Ecall n) \<longleftrightarrow> True"

text \<open>The state of a run against the run on a flat memory.\<close>

definition simulates :: "32 word \<Rightarrow> 8 word list \<times> 32 word option \<Rightarrow> config \<Rightarrow> bool" where
  "simulates r0 r c = (case c of
     Running s ops out \<Rightarrow> list_all in_range ops \<and>
       (\<exists>ps m. paged r0 ps s \<and> shows_memory r0 ps s m \<and> r = (out @ fst (flat_run m ops), snd (flat_run m ops)))
   | Exited n out \<Rightarrow> r = (out, Some n)
   | Broken \<Rightarrow> False)"

lemma simulates_step:
  assumes "vm_step fssr c c'" "simulates r0 r c"
  shows "simulates r0 r c'"
  using assms
proof (induction rule: vm_step.induct)
  case (load_hit a s v s' ops out)
  then obtain ps m where h: "list_all in_range ops" "in_test_pages a" "paged r0 ps s" "shows_memory r0 ps s m"
    "r = (out @ fst (flat_run m (Load a # ops)), snd (flat_run m (Load a # ops)))" by (auto simp: simulates_def)
  have "page_no a \<in> set ps" using fault_miss(1) [OF h(3,4,2)] load_hit(1) by fastforce
  then have "v = m a" "s' = s" using load_mapped [OF h(3,4,2)] load_hit(1) by auto
  moreover have "r = ((out @ [m a]) @ fst (flat_run m ops), snd (flat_run m ops))"
    using h(5) by (simp split: prod.splits)
  ultimately show ?case using h(1,3,4) load_hit(2) unfolding simulates_def by (auto simp del: append_assoc)
next
  case (load_miss a s ops out a0 epc insn)
  then obtain ps m where h: "list_all in_range (Load a # ops)" "in_test_pages a" "paged r0 ps s" "shows_memory r0 ps s m"
    "r = (out @ fst (flat_run m (Load a # ops)), snd (flat_run m (Load a # ops)))" by (auto simp: simulates_def)
  have "page_no a \<notin> set ps" using load_mapped [OF h(3,4,2)] load_miss(1) by auto
  then obtain s' where "vm_handle_trap fssr FAULT_LOAD a0 epc insn a s = Resume s'" "paged r0 (ps @ [page_no a]) s'" "shows_memory r0 (ps @ [page_no a]) s' m"
    using fault_miss(3) [OF h(3,4,2)] by blast
  then show ?case using h(1,5) by (auto simp: after_trap_def simulates_def)
next
  case (store_hit a v s s' ops out)
  then obtain ps m where h: "list_all in_range ops" "in_test_pages a" "paged r0 ps s" "shows_memory r0 ps s m"
    "r = (out @ fst (flat_run m (Store a v # ops)), snd (flat_run m (Store a v # ops)))" by (auto simp: simulates_def)
  have "page_no a \<in> set ps" using fault_miss(2) [OF h(3,4,2)] store_hit(1) by fastforce
  then have "paged r0 ps s'" "shows_memory r0 ps s' (m(a := v))" using store_mapped [OF h(3,4,2), of v] store_hit(1) by auto
  then show ?case using h(1,5) by (auto simp: simulates_def)
next
  case (store_miss a v s ops out a0 epc insn)
  then obtain ps m where h: "list_all in_range (Store a v # ops)" "in_test_pages a" "paged r0 ps s" "shows_memory r0 ps s m"
    "r = (out @ fst (flat_run m (Store a v # ops)), snd (flat_run m (Store a v # ops)))" by (auto simp: simulates_def)
  have "page_no a \<notin> set ps" using store_mapped [OF h(3,4,2), of v] store_miss(1) by auto
  then obtain s' where "vm_handle_trap fssr FAULT_STORE a0 epc insn a s = Resume s'" "paged r0 (ps @ [page_no a]) s'" "shows_memory r0 (ps @ [page_no a]) s' m"
    using fault_miss(3,4) [OF h(3,4,2)] by metis
  then show ?case using h(1,5) by (auto simp: after_trap_def simulates_def)
next
  case (call s n ops out epc insn badvaddr)
  then obtain ps where "paged r0 ps s" by (auto simp: simulates_def)
  then have "vm_handle_trap fssr USER_ECALL n epc insn badvaddr s = Terminated n" by (rule ecall_terminates)
  then show ?case using call by (auto simp: after_trap_def simulates_def)
qed

lemma simulates_steps: "(vm_step fssr)\<^sup>*\<^sup>* c c' \<Longrightarrow> simulates r0 r c \<Longrightarrow> simulates r0 r c'"
  by (induction rule: rtranclp_induct) (auto intro: simulates_step)

text \<open>A program that ends with a call gets to its exit.\<close>

lemma run_exits:
  "\<lbrakk>list_all in_range ops; paged r0 ps s; shows_memory r0 ps s m; flat_run m ops = (o', Some n)\<rbrakk> \<Longrightarrow>
    (vm_step fssr)\<^sup>*\<^sup>* (Running s ops out) (Exited n (out @ o'))"
proof (induction ops arbitrary: ps s m out o')
  case (Cons op ops)
  note steps = converse_rtranclp_into_rtranclp [of "vm_step fssr"]
  show ?case
  proof (cases op)
    case (Load a)
    have a: "in_test_pages a" using Cons.prems(1) Load by simp
    obtain o2 where o2: "flat_run m ops = (o2, Some n)" "o' = m a # o2" using Cons.prems(4) Load by (auto split: prod.splits)
    have hit: "(vm_step fssr)\<^sup>*\<^sup>* (Running s (Load a # ops) out) (Exited n (out @ o'))"
      if "paged r0 ps s" "shows_memory r0 ps s m" "page_no a \<in> set ps" for ps s
    proof (rule steps)
      show "vm_step fssr (Running s (Load a # ops) out) (Running s ops (out @ [m a]))" by (rule load_hit) (rule load_mapped [OF that(1,2) a that(3)])
      show "(vm_step fssr)\<^sup>*\<^sup>* (Running s ops (out @ [m a])) (Exited n (out @ o'))"
        using Cons.IH [OF _ that(1,2) o2(1), of "out @ [m a]"] Cons.prems(1) o2(2) by simp
    qed
    show ?thesis
    proof (cases "page_no a \<in> set ps")
      case True
      then show ?thesis using hit [OF Cons.prems(2,3)] Load by simp
    next
      case False
      note f = fault_miss [OF Cons.prems(2,3) a False]
      obtain s' where s': "vm_handle_trap fssr FAULT_LOAD 0 0 0 a s = Resume s'" "paged r0 (ps @ [page_no a]) s'" "shows_memory r0 (ps @ [page_no a]) s' m"
        using f(3) by blast
      have "vm_step fssr (Running s (Load a # ops) out) (Running s' (Load a # ops) out)"
        using load_miss [OF f(1), of fssr ops out 0 0 0] s'(1) by (simp add: after_trap_def)
      then show ?thesis using steps hit [OF s'(2,3)] Load by simp
    qed
  next
    case (Store a v)
    have a: "in_test_pages a" using Cons.prems(1) Store by simp
    have hit: "(vm_step fssr)\<^sup>*\<^sup>* (Running s (Store a v # ops) out) (Exited n (out @ o'))"
      if h: "paged r0 ps s" "shows_memory r0 ps s m" "page_no a \<in> set ps" for ps s
    proof -
      obtain s' where s': "store_byte True a v s = Some s'" "paged r0 ps s'" "shows_memory r0 ps s' (m(a := v))"
        using store_mapped [OF h(1,2) a h(3), of v] by blast
      have "vm_step fssr (Running s (Store a v # ops) out) (Running s' ops out)" by (rule store_hit) (rule s'(1))
      moreover have "(vm_step fssr)\<^sup>*\<^sup>* (Running s' ops out) (Exited n (out @ o'))"
        by (rule Cons.IH [OF _ s'(2,3)])
          (use Cons.prems(1,4) Store in \<open>simp_all only: list.pred_inject(2) in_range.simps flat_run.simps\<close>)
      ultimately show ?thesis by (rule steps)
    qed
    show ?thesis
    proof (cases "page_no a \<in> set ps")
      case True
      then show ?thesis using hit [OF Cons.prems(2,3)] Store by simp
    next
      case False
      note f = fault_miss [OF Cons.prems(2,3) a False]
      obtain s' where s': "vm_handle_trap fssr FAULT_STORE 0 0 0 a s = Resume s'" "paged r0 (ps @ [page_no a]) s'" "shows_memory r0 (ps @ [page_no a]) s' m"
        using f(3,4) by metis
      have "vm_step fssr (Running s (Store a v # ops) out) (Running s' (Store a v # ops) out)"
        using store_miss [OF f(2), of fssr v ops out 0 0 0] s'(1) by (simp add: after_trap_def)
      then show ?thesis using steps hit [OF s'(2,3)] Store by simp
    qed
  next
    case (Ecall k)
    have "vm_step fssr (Running s (Ecall k # ops) out) (Exited k out)"
      using call [of fssr s k ops out 0 0 0] ecall_terminates [OF Cons.prems(2), of fssr k 0 0 0] by (simp add: after_trap_def)
    then show ?thesis using Cons.prems(4) Ecall by auto
  qed
qed simp

text \<open>
  C39. Demand paging is transparent.  A test program that loads and stores single bytes of its pages (virtual pages 1 to 62) and ends with
  a call runs, from the state the boot leaves for any entropy, to its exit with the code it passes and the values it would read
  from a flat memory that starts as the test image; no other exit is reachable, so no assertion of the kernel fails, and the
  kernel never faults, although every page is first touched unmapped and gets one of the frames in the order of the feedback
  register.  The variables of the kernel are kept apart from the bytes of the image, so the statement is about programs that do not
  look at the pages that hold them.
\<close>

theorem demand_paging_transparent:
  assumes "list_all in_range ops" "flat_run (\<lambda>a. dram (VM_DRAM_BASE + a)) ops = (out, Some n)"
  shows "(vm_step fssr)\<^sup>*\<^sup>* (Running (vm_boot ENTROPY dram) ops []) (Exited n out) \<and>
    (\<forall>c. (vm_step fssr)\<^sup>*\<^sup>* (Running (vm_boot ENTROPY dram) ops []) c \<longrightarrow>
      c \<noteq> Broken \<and> (\<forall>n' out'. c = Exited n' out' \<longrightarrow> n' = n \<and> out' = out))"
proof (intro conjI allI impI)
  show "(vm_step fssr)\<^sup>*\<^sup>* (Running (vm_boot ENTROPY dram) ops []) (Exited n out)"
    using run_exits [OF assms(1) boot_paged boot_shows assms(2), where out = "[]"] by simp
  fix c assume "(vm_step fssr)\<^sup>*\<^sup>* (Running (vm_boot ENTROPY dram) ops []) c"
  moreover have "simulates (1 + ENTROPY mod word_of_nat MAX_TEST_PAGES) (out, Some n) (Running (vm_boot ENTROPY dram) ops [])"
    unfolding simulates_def config.case
    by (intro conjI assms(1) exI [of _ "[]"] exI [of _ "\<lambda>a. dram (VM_DRAM_BASE + a)"] boot_paged boot_shows) (simp add: assms(2))
  ultimately have c: "simulates (1 + ENTROPY mod word_of_nat MAX_TEST_PAGES) (out, Some n) c" by (rule simulates_steps)
  then show "c \<noteq> Broken" by (auto simp: simulates_def)
  fix n' out' assume "c = Exited n' out'"
  then show "n' = n" "out' = out" using c by (auto simp: simulates_def)
qed

theorem demand_paging_transparent_witness:
  "(vm_step 0x00301073)\<^sup>*\<^sup>*
     (Running (vm_boot 5 (\<lambda>a. if a = 0x80002003 then 9 else 0)) [Load 0x2003, Store 0x3000 7, Load 0x3000, Store 0x2003 1, Load 0x2003, Ecall 1] [])
     (Exited 1 [9, 7, 1])"
  using demand_paging_transparent [of "[Load 0x2003, Store 0x3000 7, Load 0x3000, Store 0x2003 1, Load 0x2003, Ecall 1]"
      "\<lambda>a. if a = 0x80002003 then 9 else 0" "[9, 7, 1]" 1 "0x00301073" 5]
  by (simp add: in_test_pages_def vm_consts)

end
