(* ===== verification/Spec2Isabelle.thy ===== *)
theory Spec2Isabelle
  imports SF_Compare SF_AddSub SF_Div SF_FloatConv CM_Main Spike_Priv BM_Programs VM_Kernel
begin

text \<open>
  A verification library for the C and C++ code of the Shakti processor repository: the floating-point library
  and the core of the instruction-set simulator, the CoreMark benchmark, the array benchmarks, and the
  demand-paging kernel of the torture tests.

  Conventions.  Every C function is a function of HOL with the name it has in the source; state that
  the code keeps in memory is passed explicitly.  A result \<open>None\<close> stands for what the code must not do:
  leave an array, follow a null pointer, access the memory of the simulator, abort, or (for \<open>partial_function\<close>
  loops) not end.  A theorem that says \<open>Some\<close> therefore says that the code returns and stays in bounds.
  Integers are words of their width where they can wrap, and integers of HOL where the code
  keeps them far from the limits of their type.

  \<^bold>\<open>SoftFloat\<close> (\<open>src/tools/verification/riscv-isa-sim-modified/softfloat\<close>), for the x86-64 host the simulator is
  built for: \<open>uint_fast16_t\<close>, \<open>uint_fast32_t\<close> and \<open>uint_fast64_t\<close> are 64 bits wide, \<open>uint_fast8_t\<close> 8, with
  \<open>SOFTFLOAT_FAST_INT64\<close>, \<open>SOFTFLOAT_FAST_DIV64TO32\<close> and \<open>INLINE_LEVEL\<close> 5, as \<open>platform.h\<close> sets them.  The modes and
  flags are the record \<open>sf_state\<close>.

  \<^item> \<open>Rounding_Spec\<close>: correct rounding of a rational number, independent of the code.
  \<^item> \<open>SF_Primitives\<close>: shifts that keep a sticky bit, counting of leading zeros, double-word arithmetic, the
    reciprocal estimate.  The interface \<open>jam_shift\<close> is provided by the three jamming shifts.
  \<^item> \<open>SF_Format\<close>: fields, packing, NaN rules and classification.  The interface \<open>fp_format\<close> is provided by both formats.
  \<^item> \<open>SF_RoundPack\<close>: rounding and packing; every operation that rounds rests on its theorem.
  \<^item> \<open>SF_Compare\<close>, \<open>SF_AddSub\<close>, \<open>SF_Mul\<close>, \<open>SF_Div\<close>, \<open>SF_FromInt\<close>, \<open>SF_ToInt\<close>, \<open>SF_FloatConv\<close>: the operations.  Each is
    shown to return the correctly rounded exact result with the right flags for all operands and
    modes, special operands included; round trips and the truncating variants follow.

  Not modelled: square root, remainder and fused multiplication and addition.

  \<^bold>\<open>CoreMark\<close> (\<open>src/benchmarks/coremark32\<close>), for the 32-bit core.

  \<^item> \<open>CM_Util\<close>: the checksum, equal to CRC-16, and the bursts it detects.
  \<^item> \<open>CM_Matrix\<close>: the matrix kernels against the mathematical products, their set-up in a block.
  \<^item> \<open>CM_State\<close>: the scanner against a grammar, the safety of its passes over the input, the undoing of
    the corruption.
  \<^item> \<open>CM_List\<close>: the linked list in its heap and the merge sort.  The interface \<open>list_comparison\<close> is what the sort
    asks of a comparison that may have effects; both comparisons of the benchmark provide it.
  \<^item> \<open>CM_Bench\<close>, \<open>CM_Main\<close>: the list benchmark, the loop over the iterations, the set-up of the list, and
    what \<open>main\<close> decides.

  The two heaps of the list (cells and items) and the input block are separate stores.  Timing, printing
  and the port to the board are not modelled.

  \<^bold>\<open>The instruction-set simulator\<close> (\<open>src/tools/verification/riscv-isa-sim-modified/riscv\<close>).

  \<^item> \<open>Spike_Base\<close>: instruction fields, immediates, sign extension, high halves of products (\<open>decode.h\<close>, \<open>mulhi.h\<close>).
  \<^item> \<open>Spike_State\<close>: the record \<open>machine\<close>: the hart \<open>state_t\<close> (\<open>processor.h\<close>), the translation caches, the memory block
    and the bus; traps (\<open>trap.h\<close>).  An operation of type \<open>run\<close> returns the trap it throws or its value, with
    the state it leaves; \<open>fine\<close> reads "no fault of the simulator, and an invariant afterwards".
  \<^item> \<open>Spike_Bus\<close>: the bus and its devices (\<open>devices.cc\<close>, \<open>rom.cc\<close>, \<open>rtc.cc\<close>, \<open>debug_module.cc\<close>, the bus side of
    \<open>processor.cc\<close>, \<open>sim.cc\<close>).  The timer and the inter-processor interrupt write the pending interrupts of the hart,
    which is why a store may change the bits \<open>MIP_MSIP\<close> and \<open>MIP_MTIP\<close> of its register \<open>mip\<close> and nothing else of it
    (\<open>device_frame\<close>).  \<open>bus_ok\<close> bounds the copies into and out of the devices, and holds of the bus the
    simulator builds (\<open>sim_bus_ok\<close>).
  \<^item> \<open>Spike_MMU\<close>: page-table walk, translation, caches, loads, stores, atomic operations, fetch (\<open>mmu.h\<close>, \<open>mmu.cc\<close>), and
    the invariant \<open>mmu_ok\<close> under which no access leaves the memory block.
  \<^item> \<open>Spike_Insns\<close>, \<open>Spike_MExt\<close>: one definition per file of \<open>insns\<close> for the base, M, A and compressed instructions, among them
    the four compressed encodings whose meaning depends on the width (\<open>width_instructions\<close>); the type invariant of the
    hart and the results of multiplication and division.
  \<^item> \<open>Spike_Priv\<close>: control registers, privilege, traps, interrupts and system instructions (\<open>processor.cc\<close>), the invariant of the
    privileged state, the round trip through a trap, the isolation of the user mode.

  The width \<open>xlen\<close> an instruction is compiled for is \<open>max_xlen\<close> of the hart.  One hart is simulated; of the others the bus keeps
  the pending interrupts.  Not modelled: the floating-point instructions other than those four, memory
  tracers and trigger matching, the cache of decoded instructions, the loop over the harts, the text of the
  configuration string in the boot ROM (an argument), loading, the debugger and printing.

  \<^bold>\<open>The array benchmarks\<close> (\<open>src/cores/cclass/32bit/benchmarks\<close>).

  \<^item> \<open>BM_Sort\<close>: the quick sort with its stack of 50 slots, which is enough for arrays of fewer than
    \<open>11 * 2 ^ 24\<close> elements because the larger part is always pushed.
  \<^item> \<open>BM_Radix\<close>: the radix sort, with 32-bit counters, for fewer than \<open>2 ^ 32\<close> elements.
  \<^item> \<open>BM_Programs\<close>: \<open>verify\<close>, the median filter, the software multiplication, the vector addition and the five \<open>main\<close>
    functions, with and without \<open>PREALLOCATE\<close>.  The interface \<open>array_sorter\<close> is what a program asks of its sort; both
    sorts provide it.

  \<^bold>\<open>The demand-paging kernel\<close> (\<open>src/cores/cclass/32bit/verification/riscv-torture-32/env/v/vm.c\<close>): \<open>VM_Kernel\<close> models boot, page
  fault, eviction and trap handler over the two leaf tables and the physical memory, and relates
  every run of a user program to a run on flat memory.  Not modelled: the writes of the control registers
  at boot, the host interface, the harts that only torture coherence; the pages that hold the
  variables of the kernel are taken as untouched by the program.

  \<open>Prelude\<close> holds the integer types and the facts that read word operations as arithmetic, in the collection
  \<open>unat_ops\<close>.  The processor cores themselves (Bluespec and Verilog), the test generators in Python and
  Scala, the earlier simulator \<open>ISS\<close> and Dhrystone are outside the library.
\<close>

end
